(* ===== verification/Zix_Prelude.thy ===== *)
theory Zix_Prelude
  imports Main "HOL-Library.Word" "HOL-Library.Char_ord" "HOL-Library.List_Lexorder"
    "HOL-Library.Sublist"
begin

text \<open>
  What every component of the model shares: the exceptions of the C++ code and the result
  type that carries them, bytes and strings, the ordered containers of the C++ standard
  library (\<^verbatim>\<open>std::set\<close> and \<^verbatim>\<open>std::map\<close> as strictly sorted lists), and the interfaces
  (locales) that several components implement: codecs, comparators and streaming sinks.

  A \<^verbatim>\<open>std::string\<close> is a HOL \<^typ>\<open>string\<close>, a list of 8-bit characters. \<^verbatim>\<open>std::string\<close>
  compares characters as unsigned bytes (\<^verbatim>\<open>char_traits<char>::compare\<close>), which is the order
  of \<^verbatim>\<open>Char_ord\<close> and \<^verbatim>\<open>List_Lexorder\<close>. A plain \<^verbatim>\<open>char\<close> is signed, as on the x86-64
  targets of the project; where the code compares plain \<^verbatim>\<open>char\<close> values the model uses
  \<open>schar\<close> below.
\<close>

named_theorems result_simps \<open>unfolding the result monad\<close>
named_theorems codec_simps \<open>reading back what a writer wrote\<close>
named_theorems order_simps \<open>facts on the ordered containers\<close>

section \<open>Exceptions and results\<close>

datatype xp =
    CaDerivations
  | ImpureDerivations
  | DynamicDerivations
  | GitHashing
  | BLAKE3Hashes

text \<open>
  One constructor per exception class the modelled code throws; the string is the code's
  format string. \<open>StdException\<close> is an exception of the C++ standard library, which does not
  derive from Error. The last two are not exceptions: a failed \<^verbatim>\<open>assert\<close> ends the process and
  undefined behaviour has no defined outcome, so no handler of the code can catch them.
\<close>

datatype exn =
    Error string
  | UsageError string
  | FormatError string
  | BadHash string
  | SerialisationError string
  | EndOfFile string
  | BadStorePath string
  | BadStorePathName string
  | InvalidPath string
  | BuildError string
  | EvalError string
  | TypeError string
  | UndefinedVarError string
  | InfiniteRecursionError string
  | MissingArgumentError string
  | AssertionError string
  | ThrownError string
  | Abort string
  | MissingExperimentalFeature xp
  | StdException string
  | AssertionFailed string
  | UndefinedBehaviour string

text \<open>What \<^verbatim>\<open>catch (Error &)\<close> catches: every exception class of the code, for all derive from Error.\<close>

definition caught_as_Error :: "exn \<Rightarrow> bool" where
  "caught_as_Error e =
     (case e of StdException _ \<Rightarrow> False | AssertionFailed _ \<Rightarrow> False | UndefinedBehaviour _ \<Rightarrow> False | _ \<Rightarrow> True)"

type_synonym 'a result = "exn + 'a"

text \<open>Sequencing: the second part runs on the value of the first, an exception ends both.\<close>

fun rbind :: "'a result \<Rightarrow> ('a \<Rightarrow> 'b result) \<Rightarrow> 'b result" where
  "rbind (Inl e) f = Inl e"
| "rbind (Inr a) f = f a"

lemma rbind_cong [fundef_cong]:
  "m = m' \<Longrightarrow> (\<And>a. m' = Inr a \<Longrightarrow> f a = g a) \<Longrightarrow> rbind m f = rbind m' g"
  by (cases m') auto

lemma rbind_eq_Inr [result_simps]:
  "rbind m f = Inr b \<longleftrightarrow> (\<exists>a. m = Inr a \<and> f a = Inr b)"
  by (cases m) auto

lemma rbind_assoc: "rbind (rbind m f) g = rbind m (\<lambda>a. rbind (f a) g)"
  by (cases m) auto

lemma rbind_ret [simp]: "rbind m Inr = m"
  by (cases m) auto

lemma rbind_splits:
  "P (rbind m f) \<longleftrightarrow> (\<forall>e. m = Inl e \<longrightarrow> P (Inl e)) \<and> (\<forall>a. m = Inr a \<longrightarrow> P (f a))"
  by (cases m) auto

text \<open>
  A computation with fuel that also updates a state: \<open>None\<close> when the fuel runs out, otherwise the
  result or exception together with the state it leaves behind. The state survives an exception,
  as the objects of the C++ code do.
\<close>

type_synonym ('s, 'a) sm = "'s \<Rightarrow> ('a result \<times> 's) option"

definition mlift :: "'a result \<Rightarrow> ('s, 'a) sm" where
  "mlift r = (\<lambda>s. Some (r, s))"

definition mbind :: "('s, 'a) sm \<Rightarrow> ('a \<Rightarrow> ('s, 'b) sm) \<Rightarrow> ('s, 'b) sm" where
  "mbind m f = (\<lambda>s. case m s of
     None \<Rightarrow> None
   | Some (Inl e, s) \<Rightarrow> Some (Inl e, s)
   | Some (Inr a, s) \<Rightarrow> f a s)"

lemma mlift_app [simp]: "mlift r s = Some (r, s)"
  by (simp add: mlift_def)

lemma mbind_mlift [simp]: "mbind (mlift (Inr a)) f = f a" "mbind (mlift (Inl e)) f = mlift (Inl e)"
  by (simp_all add: mbind_def mlift_def fun_eq_iff)

lemma mbind_lift: "mbind (mlift r) f s = (case r of Inl e \<Rightarrow> Some (Inl e, s) | Inr a \<Rightarrow> f a s)"
  by (cases r) simp_all

lemma mbind_Some:
  "mbind m f s = Some (r, s') \<longleftrightarrow>
     (\<exists>e. m s = Some (Inl e, s') \<and> r = Inl e) \<or> (\<exists>a s1. m s = Some (Inr a, s1) \<and> f a s1 = Some (r, s'))"
  by (auto simp: mbind_def split: option.splits prod.splits sum.splits)

lemma mbind_assoc: "mbind (mbind m f) g = mbind m (\<lambda>a. mbind (f a) g)"
  by (auto simp: mbind_def fun_eq_iff split: option.splits prod.splits sum.splits)

text \<open>
  A computation with fuel is \<open>None\<close> when the fuel runs out; \<open>fbind\<close> sequences such computations.
\<close>

definition fbind :: "'a result option \<Rightarrow> ('a \<Rightarrow> 'b result option) \<Rightarrow> 'b result option" where
  "fbind m f = (case m of None \<Rightarrow> None | Some (Inl e) \<Rightarrow> Some (Inl e) | Some (Inr a) \<Rightarrow> f a)"

lemma fbind_simps [simp]:
  "fbind None f = None" "fbind (Some (Inl e)) f = Some (Inl e)" "fbind (Some (Inr a)) f = f a"
  by (simp_all add: fbind_def)

lemma fbind_cong [fundef_cong]:
  "m = m' \<Longrightarrow> (\<And>a. m' = Some (Inr a) \<Longrightarrow> f a = g a) \<Longrightarrow> fbind m f = fbind m' g"
  by (auto simp: fbind_def split: option.splits sum.splits)

lemma fbind_eq_Inr [result_simps]:
  "fbind m f = Some (Inr b) \<longleftrightarrow> (\<exists>a. m = Some (Inr a) \<and> f a = Some (Inr b))"
  by (auto simp: fbind_def split: option.splits sum.splits)

lemma fbind_eq_None [result_simps]:
  "fbind m f = None \<longleftrightarrow> m = None \<or> (\<exists>a. m = Some (Inr a) \<and> f a = None)"
  by (auto simp: fbind_def split: option.splits sum.splits)

lemma fbind_assoc: "fbind (fbind m f) g = fbind m (\<lambda>a. fbind (f a) g)"
  by (simp add: fbind_def split: option.splits sum.splits)

lemma fbind_Some_rbind: "fbind (Some (rbind m f)) g = fbind (Some m) (\<lambda>a. fbind (Some (f a)) g)"
  by (cases m) simp_all

definition require :: "xp set \<Rightarrow> xp \<Rightarrow> unit result" where
  "require feats x = (if x \<in> feats then Inr () else Inl (MissingExperimentalFeature x))"

lemma require_eq_Inr [result_simps]: "require feats x = Inr u \<longleftrightarrow> x \<in> feats"
  by (simp add: require_def)

definition assert_that :: "bool \<Rightarrow> string \<Rightarrow> unit result" where
  "assert_that b msg = (if b then Inr () else Inl (AssertionFailed msg))"

lemma assert_that_eq_Inr [result_simps]: "assert_that b msg = Inr u \<longleftrightarrow> b"
  by (simp add: assert_that_def)

lemma assert_that_True [simp]: "assert_that True msg = Inr ()"
  by (simp add: assert_that_def)

text \<open>Running a fallible operation over a list, left to right, stopping at the first exception.\<close>

fun rmap :: "('a \<Rightarrow> 'b result) \<Rightarrow> 'a list \<Rightarrow> 'b list result" where
  "rmap f [] = Inr []"
| "rmap f (x # xs) = rbind (f x) (\<lambda>y. rbind (rmap f xs) (\<lambda>ys. Inr (y # ys)))"

lemma rmap_cong [fundef_cong]:
  "xs = ys \<Longrightarrow> (\<And>x. x \<in> set ys \<Longrightarrow> f x = g x) \<Longrightarrow> rmap f xs = rmap g ys"
  by (induction ys arbitrary: xs) auto

lemma rmap_length: "rmap f xs = Inr ys \<Longrightarrow> length ys = length xs"
  by (induction xs arbitrary: ys) (auto simp: result_simps)

lemma rmap_Inr: "(\<And>x. x \<in> set xs \<Longrightarrow> f x = Inr (g x)) \<Longrightarrow> rmap f xs = Inr (map g xs)"
  by (induction xs) auto

text \<open>A loop over a list whose body may raise or run out of fuel.\<close>

primrec ffold :: "('a \<Rightarrow> 's \<Rightarrow> 's result option) \<Rightarrow> 'a list \<Rightarrow> 's \<Rightarrow> 's result option" where
  "ffold f [] s = Some (Inr s)"
| "ffold f (x # xs) s = fbind (f x s) (ffold f xs)"

section \<open>Characters and bytes\<close>

type_synonym u8 = "8 word"
type_synonym u32 = "32 word"
type_synonym u64 = "64 word"

definition byte_of_char :: "char \<Rightarrow> u8" where
  "byte_of_char c = word_of_nat (of_char c)"

definition char_of_byte :: "u8 \<Rightarrow> char" where
  "char_of_byte w = char_of (unat w)"

lemma char_of_byte_of_char [simp]: "char_of_byte (byte_of_char c) = c"
  by (simp add: char_of_byte_def byte_of_char_def unat_of_nat take_bit_eq_mod)

lemma byte_of_char_of_byte [simp]: "byte_of_char (char_of_byte w) = w"
proof -
  have "unat w < 256" using unsigned_less [of w] by simp
  then show ?thesis by (simp add: char_of_byte_def byte_of_char_def)
qed

lemma byte_of_char_inject [simp]: "byte_of_char c = byte_of_char d \<longleftrightarrow> c = d"
  by (metis char_of_byte_of_char)

lemma char_of_byte_inject [simp]: "char_of_byte v = char_of_byte w \<longleftrightarrow> v = w"
  by (metis byte_of_char_of_byte)

text \<open>The value of a plain (signed) \<^verbatim>\<open>char\<close>.\<close>

definition schar :: "char \<Rightarrow> int" where
  "schar c = (let n = int (of_char c) in if n < 128 then n else n - 256)"

lemma schar_inject [simp]: "schar c = schar d \<longleftrightarrow> c = d"
proof
  assume eq: "schar c = schar d"
  have "of_char c < (256::nat)" "of_char d < (256::nat)" by (rule nat_of_char_less_256)+
  with eq have "of_char c = (of_char d :: nat)"
    by (simp only: schar_def Let_def split: if_split_asm)
  then show "c = d" by simp
qed simp

definition is_digit :: "char \<Rightarrow> bool" where
  "is_digit c = (CHR ''0'' \<le> c \<and> c \<le> CHR ''9'')"

definition is_alpha :: "char \<Rightarrow> bool" where
  "is_alpha c = ((CHR ''a'' \<le> c \<and> c \<le> CHR ''z'') \<or> (CHR ''A'' \<le> c \<and> c \<le> CHR ''Z''))"

section \<open>Ordered containers\<close>

text \<open>
  \<^verbatim>\<open>std::set\<close> is a strictly increasing list, \<^verbatim>\<open>std::map\<close> an association list with strictly
  increasing keys; iteration order is list order. \<open>oset_insert\<close> is \<^verbatim>\<open>insert\<close>,
  \<open>omap_assign\<close> is \<^verbatim>\<open>insert_or_assign\<close> (and \<^verbatim>\<open>m[k] = v\<close>), \<open>omap_emplace\<close> is
  \<^verbatim>\<open>emplace\<close>/\<^verbatim>\<open>insert\<close>, which keeps an entry that is already there.
\<close>

type_synonym 'a oset = "'a list"
type_synonym ('k, 'v) omap = "('k \<times> 'v) list"

abbreviation oset_ok :: "'a::linorder list \<Rightarrow> bool" where
  "oset_ok \<equiv> sorted_wrt (<)"

abbreviation omap_ok :: "('k::linorder \<times> 'v) list \<Rightarrow> bool" where
  "omap_ok m \<equiv> sorted_wrt (<) (map fst m)"

fun oset_insert :: "'a::linorder \<Rightarrow> 'a list \<Rightarrow> 'a list" where
  "oset_insert x [] = [x]"
| "oset_insert x (y # ys) =
     (if y < x then y # oset_insert x ys else if y = x then y # ys else x # y # ys)"

definition oset_erase :: "'a \<Rightarrow> 'a list \<Rightarrow> 'a list" where
  "oset_erase x xs = filter (\<lambda>y. y \<noteq> x) xs"

definition oset_of :: "'a::linorder list \<Rightarrow> 'a list" where
  "oset_of xs = fold oset_insert xs []"

fun omap_assign :: "'k::linorder \<Rightarrow> 'v \<Rightarrow> ('k \<times> 'v) list \<Rightarrow> ('k \<times> 'v) list" where
  "omap_assign k v [] = [(k, v)]"
| "omap_assign k v (e # m) =
     (if fst e < k then e # omap_assign k v m
      else if fst e = k then (k, v) # m else (k, v) # e # m)"

definition omap_emplace :: "'k::linorder \<Rightarrow> 'v \<Rightarrow> ('k \<times> 'v) list \<Rightarrow> ('k \<times> 'v) list" where
  "omap_emplace k v m = (if k \<in> set (map fst m) then m else omap_assign k v m)"

definition omap_erase :: "'k \<Rightarrow> ('k \<times> 'v) list \<Rightarrow> ('k \<times> 'v) list" where
  "omap_erase k m = filter (\<lambda>e. fst e \<noteq> k) m"

lemma set_oset_insert [simp, order_simps]: "set (oset_insert x xs) = insert x (set xs)"
  by (induction xs) auto

lemma oset_ok_insert [simp, order_simps]: "oset_ok xs \<Longrightarrow> oset_ok (oset_insert x xs)"
  by (induction xs) auto

lemma set_oset_erase [simp, order_simps]: "set (oset_erase x xs) = set xs - {x}"
  by (auto simp: oset_erase_def)

lemma oset_ok_erase [simp, order_simps]: "oset_ok xs \<Longrightarrow> oset_ok (oset_erase x xs)"
  by (simp add: oset_erase_def sorted_wrt_filter)

lemma oset_eq: "oset_ok xs \<Longrightarrow> oset_ok ys \<Longrightarrow> set xs = set ys \<Longrightarrow> xs = ys"
  by (simp add: strict_sorted_equal)

lemma set_fold_oset_insert: "set (fold oset_insert xs ys) = set xs \<union> set ys"
  by (induction xs arbitrary: ys) auto

lemma oset_ok_fold_insert: "oset_ok ys \<Longrightarrow> oset_ok (fold oset_insert xs ys)"
  by (induction xs arbitrary: ys) auto

lemma set_oset_of [simp, order_simps]: "set (oset_of xs) = set xs"
  by (simp add: oset_of_def set_fold_oset_insert)

lemma oset_ok_of [simp, order_simps]: "oset_ok (oset_of xs)"
  by (simp add: oset_of_def oset_ok_fold_insert)

lemma oset_of_id: "oset_ok xs \<Longrightarrow> oset_of xs = xs"
  by (rule oset_eq) simp_all

lemma keys_omap_assign [simp, order_simps]:
  "fst ` set (omap_assign k v m) = insert k (fst ` set m)"
  by (induction m) auto

lemma map_of_omap_assign [simp, order_simps]:
  "map_of (omap_assign k v m) = (map_of m)(k \<mapsto> v)"
  by (induction m) auto

lemma omap_ok_assign [simp, order_simps]: "omap_ok m \<Longrightarrow> omap_ok (omap_assign k v m)"
  by (induction m) auto

lemma omap_ok_emplace [simp, order_simps]: "omap_ok m \<Longrightarrow> omap_ok (omap_emplace k v m)"
  by (simp add: omap_emplace_def)

lemma map_of_omap_emplace [order_simps]:
  "map_of (omap_emplace k v m) = (case map_of m k of None \<Rightarrow> (map_of m)(k \<mapsto> v) | Some _ \<Rightarrow> map_of m)"
proof (cases "map_of m k")
  case None
  then have "k \<notin> set (map fst m)" by (simp add: map_of_eq_None_iff)
  with None show ?thesis by (simp add: omap_emplace_def)
next
  case (Some u)
  then have "k \<in> set (map fst m)" by (auto dest!: map_of_SomeD intro: rev_image_eqI)
  with Some show ?thesis by (simp add: omap_emplace_def)
qed

lemma omap_ok_erase [simp, order_simps]: "omap_ok m \<Longrightarrow> omap_ok (omap_erase k m)"
  by (induction m) (auto simp: omap_erase_def)

lemma map_of_omap_erase [simp, order_simps]: "map_of (omap_erase k m) = (map_of m)(k := None)"
  by (induction m) (auto simp: omap_erase_def)

lemma omap_ok_distinct: "omap_ok m \<Longrightarrow> distinct (map fst m)"
  using strict_sorted_iff by blast

text \<open>Appending the entry with the largest key: how a loop over a sorted map rebuilds it.\<close>

lemma omap_keys_values: "omap_ok m \<Longrightarrow> m = map (\<lambda>k. (k, the (map_of m k))) (map fst m)"
  by (simp add: o_def) (rule map_idI [symmetric], force simp: omap_ok_distinct)

lemma omap_eqI: "omap_ok m \<Longrightarrow> omap_ok m' \<Longrightarrow> map_of m = map_of m' \<Longrightarrow> m = m'"
proof -
  assume ok: "omap_ok m" "omap_ok m'" and eq: "map_of m = map_of m'"
  have "set (map fst m) = set (map fst m')" using arg_cong [OF eq, of dom] by (simp add: dom_map_of_conv_image_fst)
  then have "map fst m = map fst m'" using oset_eq [OF ok] by blast
  then show ?thesis using omap_keys_values [OF ok(1)] omap_keys_values [OF ok(2)] eq by metis
qed

lemma omap_assign_snoc: "\<forall>e \<in> set m. fst e < k \<Longrightarrow> omap_assign k v m = m @ [(k, v)]"
  by (induction m) auto

lemma omap_emplace_snoc: "\<forall>e \<in> set m. fst e < k \<Longrightarrow> omap_emplace k v m = m @ [(k, v)]"
  by (auto simp: omap_emplace_def omap_assign_snoc)

lemma oset_insert_snoc: "\<forall>y \<in> set xs. y < x \<Longrightarrow> oset_insert x xs = xs @ [x]"
  by (induction xs) auto

lemma fold_omap_assign_append:
  "omap_ok (m @ m') \<Longrightarrow> fold (\<lambda>(k, v). omap_assign k v) m' m = m @ m'"
proof (induction m' arbitrary: m)
  case (Cons e m')
  then have "omap_assign (fst e) (snd e) m = m @ [e]"
    by (subst omap_assign_snoc) (auto simp: sorted_wrt_append)
  then show ?case using Cons by (simp add: case_prod_beta)
qed simp

text \<open>The interface a client of \<^verbatim>\<open>std::map\<close> relies on.\<close>

locale std_map =
  fixes assign :: "'k \<Rightarrow> 'v \<Rightarrow> 'm \<Rightarrow> 'm"
    and emplace :: "'k \<Rightarrow> 'v \<Rightarrow> 'm \<Rightarrow> 'm"
    and erase :: "'k \<Rightarrow> 'm \<Rightarrow> 'm"
    and find :: "'m \<Rightarrow> 'k \<Rightarrow> 'v option"
    and ok :: "'m \<Rightarrow> bool"
  assumes find_assign: "ok m \<Longrightarrow> find (assign k v m) = (find m)(k \<mapsto> v)"
    and find_emplace: "ok m \<Longrightarrow> find (emplace k v m) = (if find m k = None then (find m)(k \<mapsto> v) else find m)"
    and find_erase: "ok m \<Longrightarrow> find (erase k m) = (find m)(k := None)"
    and ok_assign: "ok m \<Longrightarrow> ok (assign k v m)"
    and ok_emplace: "ok m \<Longrightarrow> ok (emplace k v m)"
    and ok_erase: "ok m \<Longrightarrow> ok (erase k m)"
begin

lemma emplace_keeps: "ok m \<Longrightarrow> find m k = Some u \<Longrightarrow> find (emplace k v m) = find m"
  by (simp add: find_emplace)

lemma find_fold_assign:
  "ok m \<Longrightarrow> find (fold (\<lambda>(k, v). assign k v) kvs m) = find m ++ map_of (rev kvs)"
  by (induction kvs arbitrary: m)
    (auto simp: find_assign ok_assign map_add_def fun_eq_iff split: option.splits)

lemma ok_fold_assign: "ok m \<Longrightarrow> ok (fold (\<lambda>(k, v). assign k v) kvs m)"
  by (induction kvs arbitrary: m) (auto simp: ok_assign)

end

interpretation om: std_map omap_assign omap_emplace omap_erase map_of "omap_ok :: ('k::linorder \<times> 'v) list \<Rightarrow> bool"
  by unfold_locales (auto simp: map_of_omap_emplace split: option.splits)

section \<open>Codecs\<close>

text \<open>
  A writer \<open>put\<close> and a reader \<open>get\<close> of one encoding. The reader takes what it needs from
  the front of the input and returns the rest, as every reader of the code does with its
  source. \<open>codec\<close> is the law that reading gives back what was written, whatever follows;
  \<open>strict_codec\<close> adds that the reader accepts nothing but what the writer produces.
\<close>

locale codec =
  fixes put :: "'a \<Rightarrow> 'c list"
    and get :: "'c list \<Rightarrow> ('a \<times> 'c list) result"
    and valid :: "'a \<Rightarrow> bool"
  assumes get_put: "valid a \<Longrightarrow> get (put a @ rest) = Inr (a, rest)"
begin

lemma get_put_all: "valid a \<Longrightarrow> get (put a) = Inr (a, [])"
  using get_put [of a "[]"] by simp

lemma put_unique: "valid a \<Longrightarrow> valid b \<Longrightarrow> put a @ r = put b @ s \<Longrightarrow> a = b \<and> r = s"
proof -
  assume "valid a" "valid b" and eq: "put a @ r = put b @ s"
  have "Inr (a, r) = get (put a @ r)" by (rule get_put [OF \<open>valid a\<close>, symmetric])
  also have "\<dots> = get (put b @ s)" by (simp only: eq)
  also have "\<dots> = Inr (b, s)" by (rule get_put [OF \<open>valid b\<close>])
  finally show ?thesis by simp
qed

lemma put_inj: "valid a \<Longrightarrow> valid b \<Longrightarrow> put a = put b \<Longrightarrow> a = b"
  using put_unique [of a b "[]" "[]"] by simp

lemma put_prefix_free: "valid a \<Longrightarrow> valid b \<Longrightarrow> prefix (put a) (put b) \<Longrightarrow> a = b"
  using put_unique [of a b] by (force simp: prefix_def)

text \<open>A run of encodings is read back by as many reads.\<close>

primrec get_n :: "nat \<Rightarrow> 'c list \<Rightarrow> ('a list \<times> 'c list) result" where
  "get_n 0 s = Inr ([], s)"
| "get_n (Suc n) s = rbind (get s) (\<lambda>(a, s). rbind (get_n n s) (\<lambda>(as, s). Inr (a # as, s)))"

lemma get_n_put:
  "(\<And>a. a \<in> set as \<Longrightarrow> valid a) \<Longrightarrow> get_n (length as) (concat (map put as) @ rest) = Inr (as, rest)"
  by (induction as) (auto simp: get_put)

end

locale strict_codec = codec +
  assumes put_get: "get s = Inr (a, rest) \<Longrightarrow> valid a \<and> s = put a @ rest"
begin

lemma get_iff: "get s = Inr (a, rest) \<longleftrightarrow> valid a \<and> s = put a @ rest"
  using get_put put_get by auto

lemma get_same: "get s = Inr (a, r) \<Longrightarrow> get t = Inr (a, r) \<Longrightarrow> s = t"
  by (auto dest!: put_get)

lemma get_n_iff:
  "get_n n s = Inr (as, rest) \<longleftrightarrow>
     length as = n \<and> (\<forall>a \<in> set as. valid a) \<and> s = concat (map put as) @ rest"
proof (induction n arbitrary: s as)
  case (Suc n)
  then show ?case
    by (cases as) (auto simp: result_simps get_iff)
qed auto

end

section \<open>Comparators\<close>

text \<open>The three-way comparisons of the code (\<^verbatim>\<open>operator <=>\<close>, \<^verbatim>\<open>std::strong_ordering\<close>).\<close>

datatype ordering = Less | Equal | Greater

fun flip :: "ordering \<Rightarrow> ordering" where
  "flip Less = Greater"
| "flip Equal = Equal"
| "flip Greater = Less"

lemma flip_flip [simp]: "flip (flip c) = c"
  by (cases c) auto

lemma flip_eq_iff [simp]:
  "flip c = Less \<longleftrightarrow> c = Greater" "flip c = Greater \<longleftrightarrow> c = Less" "flip c = Equal \<longleftrightarrow> c = Equal"
  by (cases c; simp)+

definition cmp3 :: "'a::linorder \<Rightarrow> 'a \<Rightarrow> ordering" where
  "cmp3 x y = (if x < y then Less else if x = y then Equal else Greater)"

lemma cmp3_simps [simp]:
  "cmp3 x y = Less \<longleftrightarrow> x < y" "cmp3 x y = Equal \<longleftrightarrow> x = y" "cmp3 x y = Greater \<longleftrightarrow> y < x"
  by (auto simp: cmp3_def)

lemma cmp3_flip: "cmp3 y x = flip (cmp3 x y)"
  by (auto simp: cmp3_def)

locale comparator =
  fixes cmp :: "'a \<Rightarrow> 'a \<Rightarrow> ordering"
  assumes flip: "cmp y x = flip (cmp x y)"
    and equal_trans: "cmp x y = Equal \<Longrightarrow> cmp x z = cmp y z"
    and less_trans: "cmp x y = Less \<Longrightarrow> cmp y z = Less \<Longrightarrow> cmp x z = Less"
begin

lemma cmp_refl: "cmp x x = Equal"
  using flip [of x x] by (cases "cmp x x") simp_all

lemma greater_iff: "cmp x y = Greater \<longleftrightarrow> cmp y x = Less"
  by (subst flip) simp

lemma equal_sym: "cmp x y = Equal \<longleftrightarrow> cmp y x = Equal"
  by (subst flip) simp

lemma le_total: "cmp x y \<noteq> Greater \<or> cmp y x \<noteq> Greater"
  by (cases "cmp x y") (simp_all add: greater_iff [of y x])

lemma equal_trans_right: "cmp x y = Equal \<Longrightarrow> cmp z x = cmp z y"
  by (subst (1 2) flip) (simp add: equal_trans [of x y z])

lemma le_trans: "cmp x y \<noteq> Greater \<Longrightarrow> cmp y z \<noteq> Greater \<Longrightarrow> cmp x z \<noteq> Greater"
proof (cases "cmp x y")
  case Equal
  assume "cmp y z \<noteq> Greater"
  then show ?thesis by (simp add: equal_trans [OF Equal])
next
  case Less
  assume "cmp y z \<noteq> Greater"
  then consider "cmp y z = Less" | "cmp y z = Equal" by (cases "cmp y z") auto
  then show ?thesis
  proof cases
    case 1
    then show ?thesis by (simp add: less_trans [OF Less])
  next
    case 2
    then show ?thesis using Less by (simp add: equal_trans_right [OF 2])
  qed
qed simp

lemma greater_trans: "cmp x y = Greater \<Longrightarrow> cmp y z = Greater \<Longrightarrow> cmp x z = Greater"
  using less_trans [of z y x] by (simp only: greater_iff)

end

locale strong_comparator = comparator +
  assumes equal_eq: "cmp x y = Equal \<Longrightarrow> x = y"
begin

lemma equal_iff: "cmp x y = Equal \<longleftrightarrow> x = y"
  using equal_eq cmp_refl by blast

lemma le_antisym: "cmp x y \<noteq> Greater \<Longrightarrow> cmp y x \<noteq> Greater \<Longrightarrow> x = y"
  using equal_eq [of x y] by (cases "cmp x y") (simp_all add: greater_iff [of y x])

end

interpretation std_cmp: strong_comparator "cmp3 :: 'a::linorder \<Rightarrow> 'a \<Rightarrow> ordering"
  by unfold_locales (rule cmp3_flip, simp, simp_all)

section \<open>Streaming sinks\<close>

text \<open>
  A \<^verbatim>\<open>Sink\<close> receives a stream in chunks of any size. \<open>chunk_sink\<close> is the law that what the
  sink has computed after any sequence of chunks depends on their concatenation only: \<open>inv d s\<close>
  relates the state \<open>s\<close> to the bytes \<open>d\<close> received so far.
\<close>

locale chunk_sink =
  fixes start :: "'s" and feed :: "'s \<Rightarrow> string \<Rightarrow> 's" and inv :: "string \<Rightarrow> 's \<Rightarrow> bool"
    and finish :: "'s \<Rightarrow> 'r" and spec :: "string \<Rightarrow> 'r"
  assumes inv_start: "inv [] start"
    and inv_feed: "inv d s \<Longrightarrow> inv (d @ c) (feed s c)"
    and inv_finish: "inv d s \<Longrightarrow> finish s = spec d"
begin

lemma inv_foldl: "inv d s \<Longrightarrow> inv (d @ concat cs) (foldl feed s cs)"
proof (induction cs arbitrary: d s)
  case (Cons c cs)
  from Cons.IH [OF inv_feed [OF Cons.prems]] show ?case by simp
qed simp

lemma inv_chunks: "inv (concat cs) (foldl feed start cs)"
  using inv_foldl [OF inv_start] by simp

lemma finish_chunks: "finish (foldl feed start cs) = spec (concat cs)"
  by (rule inv_finish [OF inv_chunks])

lemma chunking_irrelevant:
  "concat cs = concat ds \<Longrightarrow> finish (foldl feed start cs) = finish (foldl feed start ds)"
  by (simp add: finish_chunks)

end

end
