(* ===== verification/Zix_Serialise.thy ===== *)
theory Zix_Serialise
  imports Zix_Prelude
begin

text \<open>
  The wire format of \<^verbatim>\<open>src/src/libutil/serialise.hh\<close> and \<^verbatim>\<open>serialise.cc\<close>: little-endian
  64-bit integers and zero-padded, length-prefixed strings, on which NAR archives and every
  worker protocol rest. A sink is the string of bytes written so far, so a writer is the
  bytes it appends; a source is a \<^verbatim>\<open>StringSource\<close>, the bytes not yet read, so a reader
  returns its value with the remaining bytes.
\<close>

unbundle bit_operations_syntax

section \<open>Sources\<close>

definition StringSource_read :: "nat \<Rightarrow> string \<Rightarrow> (string \<times> string) result" where
  "StringSource_read len s =
     (if s = [] then Inl (EndOfFile ''end of string reached'')
      else Inr (take len s, drop len s))"

text \<open>\<^verbatim>\<open>Source::operator ()\<close> reads until it has all it wants.\<close>

function Source_call :: "nat \<Rightarrow> string \<Rightarrow> (string \<times> string) result" where
  "Source_call len s =
     (if len = 0 then Inr ([], s)
      else rbind (StringSource_read len s) (\<lambda>(d, s').
           rbind (Source_call (len - length d) s') (\<lambda>(d', s''). Inr (d @ d', s''))))"
  by pat_completeness auto
termination
  by (relation "measure fst") (auto simp: StringSource_read_def split: if_splits)

declare Source_call.simps [simp del]

lemma Source_call_eq [simp]:
  "Source_call n s =
     (if n \<le> length s then Inr (take n s, drop n s)
      else Inl (EndOfFile ''end of string reached''))"
proof (cases "n \<le> length s")
  case True
  then show ?thesis
    by (cases "s = []") (simp_all add: Source_call.simps StringSource_read_def)
next
  case False
  then have "0 < n - length s" by simp
  then have "Source_call (n - length s) [] = Inl (EndOfFile ''end of string reached'')"
    by (subst Source_call.simps) (simp add: StringSource_read_def)
  with False show ?thesis
    by (subst Source_call.simps) (simp add: StringSource_read_def)
qed

section \<open>Integers\<close>

definition write_uint64 :: "u64 \<Rightarrow> string" where
  "write_uint64 n = map char_of_byte
     [ucast (n AND 0xff),
      ucast (drop_bit 8 n AND 0xff),
      ucast (drop_bit 16 n AND 0xff),
      ucast (drop_bit 24 n AND 0xff),
      ucast (drop_bit 32 n AND 0xff),
      ucast (drop_bit 40 n AND 0xff),
      ucast (drop_bit 48 n AND 0xff),
      ucast (drop_bit 56 n) AND 0xff]"

text \<open>\<^verbatim>\<open>readLittleEndian<uint64_t>\<close>: the loop over the eight bytes, \<open>i\<close> the index.\<close>

fun readLittleEndian :: "nat \<Rightarrow> u8 list \<Rightarrow> u64 \<Rightarrow> u64" where
  "readLittleEndian i [] x = x"
| "readLittleEndian i (p # ps) x = readLittleEndian (Suc i) ps (x OR push_bit (i * 8) (ucast p))"

text \<open>\<^verbatim>\<open>readNum<T>\<close>, with \<open>maxT\<close> for \<^verbatim>\<open>std::numeric_limits<T>::max()\<close>.\<close>

definition readNum :: "u64 \<Rightarrow> string \<Rightarrow> (u64 \<times> string) result" where
  "readNum maxT source =
     rbind (Source_call 8 source) (\<lambda>(buf, source).
       let n = readLittleEndian 0 (map byte_of_char buf) 0 in
       if n > maxT then Inl (SerialisationError ''serialised integer %d is too large for type '%s' '')
       else Inr (n, source))"

definition readInt :: "string \<Rightarrow> (u64 \<times> string) result" where
  "readInt = readNum 0xffffffff"

definition readLongLong :: "string \<Rightarrow> (u64 \<times> string) result" where
  "readLongLong = readNum (- 1)"

lemma bit_readLittleEndian:
  "bit (readLittleEndian i ps x) k \<longleftrightarrow>
     bit x k \<or> (i * 8 \<le> k \<and> k < 64 \<and> k div 8 - i < length ps \<and> bit (ps ! (k div 8 - i)) (k mod 8))"
proof (induction i ps x rule: readLittleEndian.induct)
  case (2 i p ps x)
  show ?case
  proof (cases "k div 8 = i")
    case True
    then have "i * 8 \<le> k" "k - i * 8 = k mod 8" "\<not> Suc i * 8 \<le> k"
      by (auto simp: minus_div_mult_eq_mod)
    with True show ?thesis
      by (auto simp: "2.IH" bit_simps)
  next
    case False
    then have "i * 8 \<le> k \<longleftrightarrow> Suc i * 8 \<le> k" by auto
    moreover have "\<not> bit p (k - i * 8)" if "Suc i * 8 \<le> k"
      using that by (auto simp: bit_word.rep_eq dest: bit_imp_le_length)
    moreover have "Suc i * 8 \<le> k \<Longrightarrow> k div 8 - i = Suc (k div 8 - Suc i)" by auto
    ultimately show ?thesis
      by (auto simp: "2.IH" bit_simps)
  qed
qed simp

definition le_bytes :: "u64 \<Rightarrow> u8 list" where
  "le_bytes n = map (\<lambda>i. ucast (drop_bit (i * 8) n)) [0..<8]"

lemma mask8: "(0xff :: 'a::len word) = mask 8"
  by (simp add: mask_eq_exp_minus_1)

lemma ucast_mask8: "(ucast (n AND 0xff) :: u8) = ucast (n :: u64)"
  by (rule bit_word_eqI) (auto simp: mask8 bit_simps)

lemma write_uint64_eq: "write_uint64 n = map char_of_byte (le_bytes n)"
proof -
  have "x AND 0xff = x" for x :: u8
    by (rule bit_word_eqI) (simp add: mask8 bit_simps)
  then show ?thesis
    by (simp add: write_uint64_def le_bytes_def ucast_mask8 upt_rec)
qed

lemma readLittleEndian_le_bytes: "readLittleEndian 0 (le_bytes n) 0 = n"
  by (rule bit_word_eqI) (auto simp: bit_readLittleEndian le_bytes_def bit_simps)

lemma le_bytes_readLittleEndian:
  assumes "length ps = 8"
  shows "le_bytes (readLittleEndian 0 ps 0) = ps"
proof (rule nth_equalityI)
  fix i assume "i < length (le_bytes (readLittleEndian 0 ps 0))"
  then have i: "i < 8" by (simp add: le_bytes_def)
  show "le_bytes (readLittleEndian 0 ps 0) ! i = ps ! i"
  proof (rule bit_word_eqI)
    fix k assume k: "k < LENGTH(8)"
    then have "(i * 8 + k) div 8 = i" "(i * 8 + k) mod 8 = k" "i * 8 + k < 64" using i by auto
    with i k show "bit (le_bytes (readLittleEndian 0 ps 0) ! i) k = bit (ps ! i) k"
      by (simp add: le_bytes_def bit_simps bit_readLittleEndian assms)
  qed
qed (simp add: le_bytes_def assms)

lemma length_write_uint64 [simp]: "length (write_uint64 n) = 8"
  by (simp add: write_uint64_def)

interpretation num: strict_codec write_uint64 "readNum maxT" "\<lambda>n. n \<le> maxT" for maxT
proof
  fix a :: u64 and rest
  assume "a \<le> maxT"
  then show "readNum maxT (write_uint64 a @ rest) = Inr (a, rest)"
    by (simp add: readNum_def write_uint64_eq le_bytes_def [THEN arg_cong [where f = length]]
        readLittleEndian_le_bytes comp_def)
next
  fix s a rest
  assume r: "readNum maxT s = Inr (a, rest)"
  then have len: "8 \<le> length s" and rest: "rest = drop 8 s"
    and a: "a = readLittleEndian 0 (map byte_of_char (take 8 s)) 0" and "a \<le> maxT"
    by (auto simp: readNum_def result_simps Let_def split: if_splits)
  have "write_uint64 a = map (char_of_byte \<circ> byte_of_char) (take 8 s)"
    by (simp add: write_uint64_eq a le_bytes_readLittleEndian len)
  also have "\<dots> = take 8 s" by (simp add: comp_def)
  finally show "a \<le> maxT \<and> s = write_uint64 a @ rest"
    using \<open>a \<le> maxT\<close> rest by simp
qed

section \<open>Strings\<close>

definition writePadding :: "nat \<Rightarrow> string" where
  "writePadding len = (if len mod 8 \<noteq> 0 then replicate (8 - len mod 8) (CHR 0x00) else [])"

definition writeString :: "string \<Rightarrow> string" where
  "writeString d = write_uint64 (word_of_nat (length d)) @ d @ writePadding (length d)"

definition readPadding :: "nat \<Rightarrow> string \<Rightarrow> (unit \<times> string) result" where
  "readPadding len source =
     (if len mod 8 \<noteq> 0 then
        rbind (Source_call (8 - len mod 8) source) (\<lambda>(zero, source).
          if list_all (\<lambda>c. c = CHR 0x00) zero then Inr ((), source)
          else Inl (SerialisationError ''non-zero padding''))
      else Inr ((), source))"

definition readString :: "u64 \<Rightarrow> string \<Rightarrow> (string \<times> string) result" where
  "readString limit source =
     rbind (readNum (- 1) source) (\<lambda>(len, source).
       if len > limit then Inl (SerialisationError ''string is too long'')
       else rbind (Source_call (unat len) source) (\<lambda>(res, source).
            rbind (readPadding (unat len) source) (\<lambda>(_, source). Inr (res, source))))"

definition writeStrings :: "string list \<Rightarrow> string" where
  "writeStrings ss = write_uint64 (word_of_nat (length ss)) @ concat (map writeString ss)"

text \<open>
  \<^verbatim>\<open>readStrings<T>\<close> for a container \<^verbatim>\<open>T\<close>: \<open>ins\<close> is its \<^verbatim>\<open>insert(end(), x)\<close>, an append for a
  list and an ordered insertion for a set.
\<close>

fun readStrings_loop :: "('t \<Rightarrow> string \<Rightarrow> 't) \<Rightarrow> nat \<Rightarrow> 't \<Rightarrow> string \<Rightarrow> ('t \<times> string) result" where
  "readStrings_loop ins 0 ss source = Inr (ss, source)"
| "readStrings_loop ins (Suc count) ss source =
     rbind (readString (- 1) source) (\<lambda>(x, source). readStrings_loop ins count (ins ss x) source)"

definition readStrings :: "('t \<Rightarrow> string \<Rightarrow> 't) \<Rightarrow> 't \<Rightarrow> string \<Rightarrow> ('t \<times> string) result" where
  "readStrings ins ss source =
     rbind (readNum (- 1) source) (\<lambda>(count, source). readStrings_loop ins (unat count) ss source)"

abbreviation list_ins :: "'a list \<Rightarrow> 'a \<Rightarrow> 'a list" where
  "list_ins xs x \<equiv> xs @ [x]"

abbreviation set_ins :: "'a::linorder list \<Rightarrow> 'a \<Rightarrow> 'a list" where
  "set_ins xs x \<equiv> oset_insert x xs"

abbreviation "readStringList \<equiv> readStrings list_ins []"
abbreviation "readStringSet \<equiv> readStrings set_ins []"

text \<open>A length fits the \<^verbatim>\<open>size_t\<close> it is sent as.\<close>

definition fits :: "nat \<Rightarrow> bool" where
  "fits n \<longleftrightarrow> n < 2 ^ 64"

lemma fits_unat [simp]: "fits n \<Longrightarrow> unat (word_of_nat n :: u64) = n"
  by (simp add: fits_def unat_of_nat take_bit_nat_eq_self)

lemma fits_unat_word [simp]: "fits (unat (w :: u64))"
  using unsigned_less [of w] by (simp add: fits_def)

lemma le_max [simp]: "(w :: u64) \<le> - 1"
  by simp

lemma readPadding_writePadding: "readPadding n (writePadding n @ rest) = Inr ((), rest)"
  by (auto simp: readPadding_def writePadding_def list_all_iff)

lemma readPadding_iff: "readPadding n s = Inr (u, rest) \<longleftrightarrow> s = writePadding n @ rest"
proof
  assume r: "readPadding n s = Inr (u, rest)"
  show "s = writePadding n @ rest"
  proof (cases "n mod 8 = 0")
    case False
    let ?k = "8 - n mod 8"
    from r False have "?k \<le> length s" "list_all (\<lambda>c. c = CHR 0x00) (take ?k s)" "rest = drop ?k s"
      by (auto simp: readPadding_def result_simps split: if_splits)
    moreover from this have "take ?k s = replicate ?k (CHR 0x00)"
      by (intro replicate_eqI) (auto simp: list_all_iff)
    ultimately show ?thesis
      using False by (metis append_take_drop_id writePadding_def)
  qed (use r in \<open>simp add: readPadding_def writePadding_def\<close>)
qed (use readPadding_writePadding in auto)

definition string_valid :: "u64 \<Rightarrow> string \<Rightarrow> bool" where
  "string_valid limit d \<longleftrightarrow> fits (length d) \<and> length d \<le> unat limit"

lemma string_valid_max [simp]: "string_valid (- 1) d \<longleftrightarrow> fits (length d)"
proof -
  have "unat (- 1 :: u64) = 2 ^ 64 - 1" by (simp add: unsigned_minus_1_eq_mask mask_eq_exp_minus_1)
  then show ?thesis by (auto simp: string_valid_def fits_def)
qed

interpretation str: strict_codec writeString "readString limit" "string_valid limit" for limit
proof
  fix a rest
  assume "string_valid limit a"
  then have "fits (length a)" and "\<not> word_of_nat (length a) > limit"
    by (auto simp: string_valid_def word_less_nat_alt)
  then show "readString limit (writeString a @ rest) = Inr (a, rest)"
    by (simp add: readString_def writeString_def num.get_put readPadding_writePadding)
next
  fix s a rest
  assume "readString limit s = Inr (a, rest)"
  then obtain len s1 s2 where "readNum (- 1) s = Inr (len, s1)" "\<not> len > limit"
    and "Source_call (unat len) s1 = Inr (a, s2)" "readPadding (unat len) s2 = Inr ((), rest)"
    unfolding readString_def by (auto simp: result_simps simp del: Source_call_eq split: if_splits)
  then have "s = write_uint64 len @ s1" "len \<le> limit" "length a = unat len" "s1 = a @ s2"
      "s2 = writePadding (length a) @ rest"
    by (auto simp: num.get_iff readPadding_iff split: if_splits)
      (metis append_take_drop_id)
  then show "string_valid limit a \<and> s = writeString a @ rest"
    by (simp add: writeString_def string_valid_def word_le_nat_alt)
qed

lemma readStrings_loop_write:
  "(\<And>x. x \<in> set xs \<Longrightarrow> fits (length x)) \<Longrightarrow>
     readStrings_loop ins (length xs) ss (concat (map writeString xs) @ rest) = Inr (foldl ins ss xs, rest)"
  by (induction xs arbitrary: ss) (auto simp: str.get_put)

definition strings_valid :: "string list \<Rightarrow> bool" where
  "strings_valid ss \<longleftrightarrow> fits (length ss) \<and> (\<forall>x \<in> set ss. fits (length x))"

lemma foldl_list_ins [simp]: "foldl list_ins ys xs = ys @ xs"
  by (induction xs arbitrary: ys) auto

lemma foldl_set_ins: "oset_ok (ys @ xs) \<Longrightarrow> foldl set_ins ys xs = ys @ xs"
proof (induction xs arbitrary: ys)
  case (Cons x xs)
  then have "oset_insert x ys = ys @ [x]"
    by (intro oset_insert_snoc) (auto simp: sorted_wrt_append)
  with Cons show ?case by simp
qed simp

lemma readStrings_write:
  "strings_valid xs \<Longrightarrow> readStrings ins ss (writeStrings xs @ rest) = Inr (foldl ins ss xs, rest)"
  by (simp add: readStrings_def writeStrings_def strings_valid_def num.get_put readStrings_loop_write)

lemma readStrings_loop_list_iff:
  "readStrings_loop list_ins n ss s = Inr (ts, rest) \<longleftrightarrow>
     (\<exists>xs. ts = ss @ xs \<and> length xs = n \<and> (\<forall>x \<in> set xs. fits (length x)) \<and>
        s = concat (map writeString xs) @ rest)"
proof (induction n arbitrary: ss s)
  case (Suc n)
  show ?case
  proof
    assume "readStrings_loop list_ins (Suc n) ss s = Inr (ts, rest)"
    then obtain x s1 where x: "fits (length x)" "s = writeString x @ s1"
      and "readStrings_loop list_ins n (ss @ [x]) s1 = Inr (ts, rest)"
      by (auto simp: result_simps str.get_iff)
    then obtain xs where "ts = ss @ x # xs" "length xs = n" "\<forall>y \<in> set xs. fits (length y)"
      "s1 = concat (map writeString xs) @ rest"
      by (auto simp: Suc.IH)
    with x show "\<exists>xs. ts = ss @ xs \<and> length xs = Suc n \<and> (\<forall>x \<in> set xs. fits (length x)) \<and>
        s = concat (map writeString xs) @ rest"
      by (intro exI [of _ "x # xs"]) auto
  qed (auto simp: length_Suc_conv str.get_put readStrings_loop_write)
qed auto

interpretation strs: strict_codec writeStrings readStringList strings_valid
proof
  fix s a rest
  assume "readStringList s = Inr (a, rest)"
  then obtain count s1 where "s = write_uint64 count @ s1"
    and "readStrings_loop list_ins (unat count) [] s1 = Inr (a, rest)"
    by (auto simp: readStrings_def result_simps num.get_iff)
  then show "strings_valid a \<and> s = writeStrings a @ rest"
    by (auto simp: readStrings_loop_list_iff strings_valid_def writeStrings_def)
qed (simp add: readStrings_write)

text \<open>Sets travel as the sorted list of their elements.\<close>

interpretation strset: codec writeStrings readStringSet "\<lambda>ss. strings_valid ss \<and> oset_ok ss"
  by unfold_locales (simp add: readStrings_write foldl_set_ins)

section \<open>Errors\<close>

record ErrorInfo =
  level :: u64
  msg :: string
  traces :: "string list"

definition write_Error :: "ErrorInfo \<Rightarrow> string" where
  "write_Error info =
     writeString ''Error'' @ write_uint64 (level info) @ writeString ''Error'' @
     writeString (msg info) @ write_uint64 0 @ write_uint64 (word_of_nat (length (traces info))) @
     concat (map (\<lambda>t. write_uint64 0 @ writeString t) (traces info))"

fun readError_traces :: "nat \<Rightarrow> string \<Rightarrow> (string list \<times> string) result" where
  "readError_traces 0 source = Inr ([], source)"
| "readError_traces (Suc n) source =
     rbind (readNum (- 1) source) (\<lambda>(havePos, source).
     rbind (assert_that (havePos = 0) ''havePos == 0'') (\<lambda>_.
     rbind (readString (- 1) source) (\<lambda>(t, source).
     rbind (readError_traces n source) (\<lambda>(ts, source). Inr (t # ts, source)))))"

definition readError :: "string \<Rightarrow> (ErrorInfo \<times> string) result" where
  "readError source =
     rbind (readString (- 1) source) (\<lambda>(type, source).
     rbind (assert_that (type = ''Error'') ''type == \"Error\"'') (\<lambda>_.
     rbind (readInt source) (\<lambda>(lvl, source).
     rbind (readString (- 1) source) (\<lambda>(_, source).
     rbind (readString (- 1) source) (\<lambda>(m, source).
     rbind (readNum (- 1) source) (\<lambda>(havePos, source).
     rbind (assert_that (havePos = 0) ''havePos == 0'') (\<lambda>_.
     rbind (readNum (- 1) source) (\<lambda>(nrTraces, source).
     rbind (readError_traces (unat nrTraces) source) (\<lambda>(ts, source).
       Inr (\<lparr>level = lvl, msg = m, traces = ts\<rparr>, source))))))))))"

definition error_valid :: "ErrorInfo \<Rightarrow> bool" where
  "error_valid info \<longleftrightarrow>
     level info \<le> 0xffffffff \<and> fits (length (msg info)) \<and> strings_valid (traces info)"

lemma readError_traces_write:
  "(\<And>x. x \<in> set ts \<Longrightarrow> fits (length x)) \<Longrightarrow>
     readError_traces (length ts) (concat (map (\<lambda>t. write_uint64 0 @ writeString t) ts) @ rest) = Inr (ts, rest)"
  by (induction ts) (auto simp: num.get_put str.get_put)

interpretation err: codec write_Error readError error_valid
proof
  fix info rest
  assume "error_valid info"
  moreover have "fits (length ''Error'')" by (simp add: fits_def)
  ultimately show "readError (write_Error info @ rest) = Inr (info, rest)"
    by (simp add: error_valid_def strings_valid_def readError_def write_Error_def readInt_def
        num.get_put str.get_put readError_traces_write)
qed


section \<open>Theorems\<close>

text \<open>
  C34: \<^verbatim>\<open>readString\<close> is exact: it returns a string and a rest of the input exactly when the
  input is what \<^verbatim>\<open>writeString\<close> emits for a string within the limit, followed by that rest. So
  whatever is written is read back, a length or padding that the writer would not produce is
  refused, and no two encodings of a string exist.
\<close>

theorem readString_exact:
  "readString limit source = Inr (d, rest) \<longleftrightarrow>
     length d < 2 ^ 64 \<and> length d \<le> unat limit \<and> source = writeString d @ rest"
  by (simp add: str.get_iff string_valid_def fits_def)

text \<open>
  \<^verbatim>\<open>readNum\<close> is exact for the range of the target type, and a \<^verbatim>\<open>std::set\<close> of strings is
  read back by \<^verbatim>\<open>readStrings\<close> in its order; a \<^verbatim>\<open>std::list\<close> is read exactly when it was written.
\<close>

theorem readStrings_exact:
  "(readStrings list_ins [] source = Inr (ss, rest) \<longleftrightarrow>
      strings_valid ss \<and> source = writeStrings ss @ rest) \<and>
   (strings_valid ss \<and> oset_ok ss \<longrightarrow> readStrings set_ins [] (writeStrings ss @ rest) = Inr (ss, rest)) \<and>
   (readNum maxT source = Inr (n, rest) \<longleftrightarrow> n \<le> maxT \<and> source = write_uint64 n @ rest)"
  by (simp add: strs.get_iff strset.get_put num.get_iff)

theorem readStrings_exact_witness:
  "readStrings set_ins [] (writeStrings [''a'', ''b''] @ ''xyz'') = Inr ([''a'', ''b''], ''xyz'')"
  using readStrings_exact [of _ "[''a'', ''b'']" "''xyz''"]
  by (simp add: strings_valid_def fits_def)

text \<open>
  An \<^verbatim>\<open>Error\<close> sent by \<^verbatim>\<open>operator << (Sink &, const Error &)\<close> is received by \<^verbatim>\<open>readError\<close>
  with its level, message and traces, and the rest of the stream is untouched.
\<close>

theorem readError_write_Error:
  "error_valid info \<Longrightarrow> readError (write_Error info @ rest) = Inr (info, rest)"
  by (rule err.get_put)

theorem readError_write_Error_witness:
  "readError (write_Error \<lparr>level = 3, msg = ''no such file'', traces = [''while'', ''at'']\<rparr> @ ''z'') =
     Inr (\<lparr>level = 3, msg = ''no such file'', traces = [''while'', ''at'']\<rparr>, ''z'')"
  by (rule readError_write_Error) (simp add: error_valid_def strings_valid_def fits_def)

end
