(* ===== verification/Zix_CanonPath.thy ===== *)
theory Zix_CanonPath
  imports Zix_Prelude
begin

text \<open>
  Canonical paths: \<^verbatim>\<open>canonPathInner\<close> of \<^verbatim>\<open>src/src/libutil/file-path-impl.hh\<close> and the class
  \<^verbatim>\<open>CanonPath\<close> of \<^verbatim>\<open>canon-path.hh\<close> and \<^verbatim>\<open>canon-path.cc\<close>. A \<^verbatim>\<open>CanonPath\<close> is its string;
  the class invariant is \<open>canonical\<close>. The specification views a path as its list of
  components: \<open>render\<close> is the string of a component list.
\<close>

section \<open>String primitives\<close>

abbreviation slash :: char where
  "slash \<equiv> CHR ''/''"

text \<open>\<^verbatim>\<open>s.rfind(c)\<close>, with \<open>None\<close> for \<^verbatim>\<open>npos\<close>.\<close>

definition rfind :: "char \<Rightarrow> string \<Rightarrow> nat option" where
  "rfind c s = (if c \<in> set s then Some (length s - Suc (length (takeWhile (\<lambda>d. d \<noteq> c) (rev s)))) else None)"

lemma rfind_append: "c \<notin> set t \<Longrightarrow> rfind c (s @ c # t) = Some (length s)"
proof -
  assume "c \<notin> set t"
  then have "takeWhile (\<lambda>d. d \<noteq> c) (rev (s @ c # t)) = rev t"
    by (auto simp: takeWhile_append)
  then show ?thesis by (simp add: rfind_def)
qed

lemma rfind_bound: "rfind c s = Some i \<Longrightarrow> i < length s"
  by (cases s) (auto simp: rfind_def split: if_splits)

section \<open>Canonicalisation\<close>

lemma skip_drop_shorter:
  "x = dropWhile P r \<Longrightarrow> x \<noteq> [] \<Longrightarrow> 0 < n \<Longrightarrow> length (drop n x) < length r"
proof -
  assume x: "x = dropWhile P r" "x \<noteq> []" and "0 < n"
  have "length x \<le> length r" by (simp add: x length_dropWhile_le)
  moreover have "0 < length x" using x(2) by simp
  ultimately show ?thesis using \<open>0 < n\<close> unfolding length_drop by linarith
qed

lemma skip_dropWhile_shorter:
  "x = dropWhile P r \<Longrightarrow> x \<noteq> [] \<Longrightarrow> length (dropWhile (\<lambda>c. \<not> P c) x) < length r"
proof -
  assume x: "x = dropWhile P r" "x \<noteq> []"
  then have "\<not> P (hd x)" using hd_dropWhile by blast
  then have "length (dropWhile (\<lambda>c. \<not> P c) x) < length x"
    using x(2) by (cases x) (simp_all add: length_dropWhile_le le_imp_less_Suc)
  also have "length x \<le> length r" by (simp add: x length_dropWhile_le)
  finally show ?thesis .
qed

text \<open>
  The main loop of \<^verbatim>\<open>canonPathInner<UnixPathTrait>\<close> with the hook that does nothing, which is
  the instance \<^verbatim>\<open>absPathPure\<close> uses. \<^verbatim>\<open>result.erase(npos)\<close> would throw
  \<^verbatim>\<open>std::out_of_range\<close>; it is the \<open>None\<close> branch of the erase.
\<close>

function canonPathInner_loop :: "string \<Rightarrow> string \<Rightarrow> string result" where
  "canonPathInner_loop result remaining =
     (let remaining = dropWhile (\<lambda>c. c = slash) remaining in
      if remaining = [] then Inr result
      else let nextComp = takeWhile (\<lambda>c. c \<noteq> slash) remaining in
        if nextComp = ''.'' then canonPathInner_loop result (drop 1 remaining)
        else if nextComp = ''..'' then
          (if result = [] then canonPathInner_loop result (drop 2 remaining)
           else case rfind slash result of
             None \<Rightarrow> Inl (StdException ''std::out_of_range'')
           | Some i \<Rightarrow> canonPathInner_loop (take i result) (drop 2 remaining))
        else canonPathInner_loop (result @ [slash] @ nextComp) (dropWhile (\<lambda>c. c \<noteq> slash) remaining))"
  by pat_completeness auto
termination
proof (relation "measure (\<lambda>(result, remaining). length remaining)", goal_cases)
  case (2 result remaining x xa)
  from skip_drop_shorter [OF 2(1,2), of 1] show ?case by simp
next
  case (3 result remaining x xa)
  from skip_drop_shorter [OF 3(1,2), of 2] show ?case by simp
next
  case (4 result remaining x xa x2)
  from skip_drop_shorter [OF 4(1,2), of 2] show ?case by simp
next
  case (5 result remaining x xa)
  from skip_dropWhile_shorter [OF 5(1,2)] show ?case by simp
qed simp

declare canonPathInner_loop.simps [simp del]

definition canonPathInner :: "string \<Rightarrow> string result" where
  "canonPathInner remaining =
     rbind (assert_that (remaining \<noteq> []) ''remaining != \"\"'') (\<lambda>_.
     rbind (canonPathInner_loop [] remaining) (\<lambda>result.
       Inr (if result = [] then [slash] else result)))"

definition absPathPure :: "string \<Rightarrow> string result" where
  "absPathPure path = canonPathInner path"

subsection \<open>Specification: lists of components\<close>

text \<open>Splitting a string at every slash, empty pieces included.\<close>

fun split_slash :: "string \<Rightarrow> string list" where
  "split_slash [] = [[]]"
| "split_slash (c # s) =
     (if c = slash then [] # split_slash s
      else case split_slash s of [] \<Rightarrow> [[c]] | p # ps \<Rightarrow> (c # p) # ps)"

text \<open>What a path means: empty components and \<open>.\<close> are skipped, \<open>..\<close> drops the last one kept.\<close>

fun normalise :: "string list \<Rightarrow> string list \<Rightarrow> string list" where
  "normalise acc [] = acc"
| "normalise acc (c # cs) =
     (if c = [] \<or> c = ''.'' then normalise acc cs
      else if c = ''..'' then normalise (butlast acc) cs
      else normalise (acc @ [c]) cs)"

definition joined :: "string list \<Rightarrow> string" where
  "joined cs = concat (map (Cons slash) cs)"

definition render :: "string list \<Rightarrow> string" where
  "render cs = (if cs = [] then [slash] else joined cs)"

definition component :: "string \<Rightarrow> bool" where
  "component c \<longleftrightarrow> c \<noteq> [] \<and> slash \<notin> set c \<and> c \<noteq> ''.'' \<and> c \<noteq> ''..''"

definition canonical :: "string \<Rightarrow> bool" where
  "canonical p \<longleftrightarrow> (\<exists>cs. list_all component cs \<and> p = render cs)"

lemma joined_simps [simp]:
  "joined [] = []" "joined (c # cs) = slash # c @ joined cs" "joined (cs @ ds) = joined cs @ joined ds"
  by (simp_all add: joined_def)

lemma split_slash_nonempty [simp]: "split_slash s \<noteq> []"
  by (induction s) (auto split: list.splits)

lemma normalise_tail:
  "normalise acc (case r of [] \<Rightarrow> [] | _ # t \<Rightarrow> split_slash t) = normalise acc (split_slash r)"
  if "r = [] \<or> hd r = slash"
  using that by (cases r) auto

lemma split_slash_takeWhile:
  "split_slash s = takeWhile (\<lambda>c. c \<noteq> slash) s #
     (case dropWhile (\<lambda>c. c \<noteq> slash) s of [] \<Rightarrow> [] | _ # t \<Rightarrow> split_slash t)"
proof (induction s)
  case (Cons c s)
  show ?case
  proof (cases "c = slash")
    case False
    obtain p ps where sp: "split_slash s = p # ps" by (cases "split_slash s") simp_all
    from Cons.IH [unfolded sp] have
      "p = takeWhile (\<lambda>c. c \<noteq> slash) s"
      "ps = (case dropWhile (\<lambda>c. c \<noteq> slash) s of [] \<Rightarrow> [] | _ # t \<Rightarrow> split_slash t)"
      by (simp_all only: list.inject)
    with False sp show ?thesis by simp
  qed simp
qed simp

lemma dropWhile_hd: "dropWhile (\<lambda>c. c \<noteq> x) s = [] \<or> hd (dropWhile (\<lambda>c. c \<noteq> x) s) = x"
  using hd_dropWhile [of "\<lambda>c. c \<noteq> x" s] by blast

lemma normalise_split:
  "normalise acc (split_slash s) =
     normalise acc (takeWhile (\<lambda>c. c \<noteq> slash) s # split_slash (dropWhile (\<lambda>c. c \<noteq> slash) s))"
  by (subst split_slash_takeWhile) (auto simp: normalise_tail [OF dropWhile_hd])

lemma normalise_skip:
  "normalise acc (split_slash (dropWhile (\<lambda>c. c = slash) s)) = normalise acc (split_slash s)"
  by (induction s) auto

lemma joined_butlast_rfind:
  assumes "cs \<noteq> []" "slash \<notin> set (last cs)"
  shows "rfind slash (joined cs) = Some (length (joined (butlast cs)))"
    and "take (length (joined (butlast cs))) (joined cs) = joined (butlast cs)"
proof -
  have "joined cs = joined (butlast cs) @ slash # last cs"
    using assms(1) by (metis append_butlast_last_id append_Nil2 joined_simps)
  with assms(2) show "rfind slash (joined cs) = Some (length (joined (butlast cs)))"
    and "take (length (joined (butlast cs))) (joined cs) = joined (butlast cs)"
    by (simp_all add: rfind_append)
qed

lemma slash_notin_takeWhile: "slash \<notin> set (takeWhile (\<lambda>c. c \<noteq> slash) s)"
  by (auto dest: set_takeWhileD)

lemma drop_takeWhile_length: "drop (length (takeWhile P s)) s = dropWhile P s"
  by (simp add: dropWhile_eq_drop)

lemma takeWhile_nonempty: "x \<noteq> [] \<Longrightarrow> P (hd x) \<Longrightarrow> takeWhile P x \<noteq> []"
  by (cases x) auto

lemma canonPathInner_loop_step:
  assumes "r = dropWhile (\<lambda>c. c = slash) s" "r \<noteq> []"
    and "n = takeWhile (\<lambda>c. c \<noteq> slash) r" "d = dropWhile (\<lambda>c. c \<noteq> slash) r"
  shows "canonPathInner_loop res s =
    (if n = ''.'' then canonPathInner_loop res d
     else if n = ''..'' then
       (if res = [] then canonPathInner_loop res d
        else case rfind slash res of
          None \<Rightarrow> Inl (StdException ''std::out_of_range'')
        | Some i \<Rightarrow> canonPathInner_loop (take i res) d)
     else canonPathInner_loop (res @ slash # n) d)"
proof -
  have "drop (length n) r = d" by (simp add: assms(3,4) drop_takeWhile_length)
  then have "n = ''.'' \<Longrightarrow> drop 1 r = d" "n = ''..'' \<Longrightarrow> drop 2 r = d"
    by (simp_all add: numeral_2_eq_2)
  then show ?thesis
    using assms(2)
    by (subst canonPathInner_loop.simps)
      (simp add: Let_def assms(1,3,4) [symmetric] del: dropWhile_eq_Nil_conv split: option.split)
qed

lemma canonPathInner_loop_correct:
  assumes "\<forall>c \<in> set acc. slash \<notin> set c"
  shows "canonPathInner_loop (joined acc) s = Inr (joined (normalise acc (split_slash s)))"
  using assms
proof (induction "length s" arbitrary: acc s rule: less_induct)
  case less
  define r n d where defs: "r = dropWhile (\<lambda>c. c = slash) s"
    "n = takeWhile (\<lambda>c. c \<noteq> slash) r" "d = dropWhile (\<lambda>c. c \<noteq> slash) r"
  show ?case
  proof (cases "r = []")
    case True
    have "normalise acc (split_slash s) = acc"
      by (simp only: normalise_skip [of acc s, symmetric] defs(1) [symmetric] True split_slash.simps normalise.simps)
        simp
    with True show ?thesis
      by (subst canonPathInner_loop.simps) (simp add: defs(1) [symmetric] del: dropWhile_eq_Nil_conv)
  next
    case False
    then have n: "n \<noteq> []"
      using takeWhile_nonempty [of r "\<lambda>c. c \<noteq> slash"] hd_dropWhile [of "\<lambda>c. c = slash" s] unfolding defs by blast
    have len: "length d < length s"
      unfolding defs(3) by (rule skip_dropWhile_shorter [OF defs(1) False])
    have eq: "normalise acc (split_slash s) = normalise acc (n # split_slash d)"
      unfolding defs by (subst normalise_skip [symmetric]) (rule normalise_split)
    have step: "canonPathInner_loop (joined acc) s =
        (if n = ''.'' then canonPathInner_loop (joined acc) d
         else if n = ''..'' then canonPathInner_loop (joined (butlast acc)) d
         else canonPathInner_loop (joined (acc @ [n])) d)"
      using less.prems joined_butlast_rfind [of acc]
      by (cases "acc = []") (simp_all add: canonPathInner_loop_step [OF defs(1) False defs(2,3)] joined_def)
    have "\<forall>c \<in> set (butlast acc). slash \<notin> set c" "\<forall>c \<in> set (acc @ [n]). slash \<notin> set c"
      using less.prems slash_notin_takeWhile by (auto simp: defs(2) dest: in_set_butlastD)
    with less(1) [OF len, of acc] less(1) [OF len, of "butlast acc"]
      less(1) [OF len, of "acc @ [n]"] less.prems n show ?thesis
      by (simp add: step eq)
  qed
qed

lemma normalise_components:
  "list_all component acc \<Longrightarrow> (\<And>c. c \<in> set cs \<Longrightarrow> slash \<notin> set c) \<Longrightarrow> list_all component (normalise acc cs)"
proof (induction cs arbitrary: acc)
  case (Cons c cs)
  have "list_all component (butlast acc)"
    using Cons.prems(1) by (auto simp: list_all_iff dest: in_set_butlastD)
  with Cons.IH [of "butlast acc"] Cons.IH [of acc] Cons.IH [of "acc @ [c]"] Cons.prems show ?case
    by (auto simp: component_def [of c])
qed simp

lemma split_slash_components: "c \<in> set (split_slash s) \<Longrightarrow> slash \<notin> set c"
  by (induction s arbitrary: c) (auto split: list.splits if_splits)

lemma joined_eq_Nil [simp]: "joined cs = [] \<longleftrightarrow> cs = []"
  by (cases cs) auto

lemma absPathPure_eq:
  "s \<noteq> [] \<Longrightarrow> absPathPure s = Inr (render (normalise [] (split_slash s)))"
  using canonPathInner_loop_correct [of "[]" s]
  by (simp add: absPathPure_def canonPathInner_def render_def)

lemma split_slash_joined: "slash \<notin> set c \<Longrightarrow> split_slash (c @ slash # s) = c # split_slash s"
  by (induction c) auto

lemma split_slash_last: "slash \<notin> set c \<Longrightarrow> split_slash c = [c]"
  by (induction c) auto

lemma split_slash_render:
  assumes "list_all component cs"
  shows "split_slash (joined cs) = [] # cs"
  using assms
proof (induction cs)
  case (Cons c cs)
  then have c: "slash \<notin> set c" by (simp add: component_def)
  show ?case
  proof (cases cs)
    case Nil
    with c show ?thesis by (simp add: split_slash_last)
  next
    case (Cons d ds)
    with c Cons.prems Cons.IH show ?thesis
      by (simp add: split_slash_joined)
  qed
qed simp

lemma normalise_id: "list_all component cs \<Longrightarrow> normalise acc cs = acc @ cs"
  by (induction cs arbitrary: acc) (auto simp: component_def)

lemma normalise_append: "normalise acc (cs @ ds) = normalise (normalise acc cs) ds"
  by (induction cs arbitrary: acc) auto

lemma split_slash_append:
  "split_slash (s @ slash # t) = split_slash s @ split_slash t"
  by (induction s) (auto split: list.splits)

section \<open>The class CanonPath\<close>

text \<open>The two constructors from a string, and the one from a list of elements.\<close>

definition CanonPath :: "string \<Rightarrow> string result" where
  "CanonPath raw = absPathPure (''/'' @ raw)"

definition isRoot :: "string \<Rightarrow> bool" where
  "isRoot path \<longleftrightarrow> length path \<le> 1"

definition CanonPath_in :: "string \<Rightarrow> string \<Rightarrow> string result" where
  "CanonPath_in raw root =
     absPathPure (if length raw > 0 \<and> hd raw = slash then raw else root @ ''/'' @ raw)"

definition push :: "string \<Rightarrow> string \<Rightarrow> string result" where
  "push path c =
     rbind (assert_that (slash \<notin> set c) ''c.find('/') == c.npos'') (\<lambda>_.
     rbind (assert_that (c \<noteq> ''.'' \<and> c \<noteq> ''..'') ''c != \".\" && c != \"..\"'') (\<lambda>_.
       Inr ((if isRoot path then path else path @ ''/'') @ c)))"

fun push_all :: "string list \<Rightarrow> string \<Rightarrow> string result" where
  "push_all [] path = Inr path"
| "push_all (s # elems) path = rbind (push path s) (push_all elems)"

definition CanonPath_elems :: "string list \<Rightarrow> string result" where
  "CanonPath_elems elems = push_all elems ''/''"

definition rel :: "string \<Rightarrow> string" where
  "rel path = drop 1 path"

definition absOrEmpty :: "string \<Rightarrow> string" where
  "absOrEmpty path = (if isRoot path then [] else path)"

text \<open>\<^verbatim>\<open>path.rfind('/')\<close> is a \<^verbatim>\<open>size_t\<close>: \<^verbatim>\<open>npos\<close> is the largest one, beyond every length.\<close>

definition rfind_sz :: "string \<Rightarrow> nat" where
  "rfind_sz path = (case rfind slash path of None \<Rightarrow> 2 ^ 64 - 1 | Some i \<Rightarrow> i)"

definition parent :: "string \<Rightarrow> string option" where
  "parent path = (if isRoot path then None else Some (take (max 1 (rfind_sz path)) path))"

definition pop :: "string \<Rightarrow> string result" where
  "pop path =
     rbind (assert_that (\<not> isRoot path) ''!isRoot()'') (\<lambda>_.
       case rfind slash path of
         None \<Rightarrow> Inl (StdException ''std::length_error'')
       | Some i \<Rightarrow> Inr (take (max 1 i) path))"

definition dirOf :: "string \<Rightarrow> string option" where
  "dirOf path = (if isRoot path then None else Some (take (rfind_sz path) path))"

definition baseName :: "string \<Rightarrow> string option" where
  "baseName path =
     (if isRoot path then None
      else Some (case rfind slash path of None \<Rightarrow> path | Some i \<Rightarrow> drop (i + 1) path))"

definition isWithin :: "string \<Rightarrow> string \<Rightarrow> bool" where
  "isWithin path par \<longleftrightarrow>
     \<not> (length path < length par
        \<or> take (length par) path \<noteq> par
        \<or> (length par > 1 \<and> length path > length par \<and> path ! length par \<noteq> slash))"

definition removePrefix :: "string \<Rightarrow> string \<Rightarrow> string result" where
  "removePrefix path pre =
     rbind (assert_that (isWithin path pre) ''isWithin(prefix)'') (\<lambda>_. Inr
       (if isRoot pre then path
        else if length path = length pre then ''/''
        else drop (length pre) path))"

definition extend :: "string \<Rightarrow> string \<Rightarrow> string" where
  "extend path x = (if isRoot x then path else if isRoot path then path @ rel x else path @ x)"

text \<open>Iteration over the components: \<open>remaining\<close> is the state of the iterator, at the end when
  its data pointer reaches the end of the path, that is when nothing remains.\<close>

definition it_deref :: "string \<Rightarrow> string" where
  "it_deref remaining = takeWhile (\<lambda>c. c \<noteq> slash) remaining"

definition it_next :: "string \<Rightarrow> string" where
  "it_next remaining =
     (if slash \<in> set remaining then tl (dropWhile (\<lambda>c. c \<noteq> slash) remaining) else [])"

lemma it_next_shorter: "r \<noteq> [] \<Longrightarrow> length (it_next r) < length r"
proof -
  assume "r \<noteq> []"
  moreover have "length (dropWhile (\<lambda>c. c \<noteq> slash) r) \<le> length r" by (rule length_dropWhile_le)
  ultimately show ?thesis
    by (cases r) (auto simp: it_next_def intro: le_less_trans [OF length_dropWhile_le] less_le_trans)
qed


text \<open>\<^verbatim>\<open>for (auto & c : path)\<close>: the components in order.\<close>

function components_from :: "string \<Rightarrow> string list" where
  "components_from r = (if r = [] then [] else it_deref r # components_from (it_next r))"
  by pat_completeness auto
termination
  by (relation "measure length") (auto dest: it_next_shorter)

declare components_from.simps [simp del]

definition components :: "string \<Rightarrow> string list" where
  "components path = components_from (rel path)"

subsection \<open>Order\<close>

text \<open>
  \<^verbatim>\<open>operator <=>\<close>: the characters are plain \<^verbatim>\<open>char\<close> values, with a slash counted as 0; at the
  end of one of the strings the comparison is that of the two \<^verbatim>\<open>bool\<close> values "not at the end".
\<close>

definition path_key :: "char \<Rightarrow> int" where
  "path_key c = (if c = slash then 0 else schar c)"

fun CanonPath_cmp :: "string \<Rightarrow> string \<Rightarrow> ordering" where
  "CanonPath_cmp (a # as) (b # bs) =
     (case cmp3 (path_key a) (path_key b) of
        Equal \<Rightarrow> CanonPath_cmp as bs
      | c \<Rightarrow> c)"
| "CanonPath_cmp as bs = cmp3 (as \<noteq> []) (bs \<noteq> [])"

text \<open>
  \<^verbatim>\<open>isAllowed\<close>: \<open>allowed\<close> is the \<^verbatim>\<open>std::set<CanonPath>\<close>, a list sorted by the order above;
  \<^verbatim>\<open>lower_bound\<close> is its first element that is not less than the path.
\<close>

definition lower_bound :: "string \<Rightarrow> string list \<Rightarrow> string option" where
  "lower_bound path allowed = find (\<lambda>a. CanonPath_cmp a path \<noteq> Less) allowed"

function isAllowed_parents :: "string \<Rightarrow> string list \<Rightarrow> bool result" where
  "isAllowed_parents path allowed =
     (if isRoot path then Inr False
      else rbind (pop path) (\<lambda>path.
        if \<exists>a \<in> set allowed. CanonPath_cmp a path = Equal then Inr True
        else isAllowed_parents path allowed))"
  by pat_completeness auto
termination
  by (relation "measure (length \<circ> fst)")
    (auto simp: pop_def isRoot_def result_simps split: option.splits dest: rfind_bound)

declare isAllowed_parents.simps [simp del]

definition isAllowed :: "string \<Rightarrow> string list \<Rightarrow> bool result" where
  "isAllowed path allowed =
     (if (case lower_bound path allowed of None \<Rightarrow> False | Some lb \<Rightarrow> isWithin lb path) then Inr True
      else isAllowed_parents path allowed)"

text \<open>
  \<^verbatim>\<open>makeRelative\<close>: the loop over the common components, then one \<open>..\<close> per component left of
  this path, then what is left of the other one.
\<close>

function skip_common :: "string \<Rightarrow> string \<Rightarrow> string \<times> string" where
  "skip_common p1 p2 =
     (if p1 \<noteq> [] \<and> p2 \<noteq> [] \<and> it_deref p1 = it_deref p2
      then skip_common (it_next p1) (it_next p2) else (p1, p2))"
  by pat_completeness auto
termination
  by (relation "measure (length \<circ> fst)") (auto dest: it_next_shorter)

declare skip_common.simps [simp del]

function dotdots :: "string \<Rightarrow> string \<Rightarrow> string" where
  "dotdots p1 res =
     (if p1 = [] then res
      else dotdots (it_next p1) ((if res \<noteq> [] then res @ ''/'' else res) @ ''..''))"
  by pat_completeness auto
termination
  by (relation "measure (length \<circ> fst)") (auto dest: it_next_shorter)

declare dotdots.simps [simp del]

definition makeRelative :: "string \<Rightarrow> string \<Rightarrow> string" where
  "makeRelative this path =
     (let (p1, p2) = skip_common (rel this) (rel path) in
      if p1 = [] \<and> p2 = [] then ''.''
      else if p1 = [] then p2
      else let res = dotdots p1 [] in
        if p2 \<noteq> [] then (if res \<noteq> [] then res @ ''/'' else res) @ p2 else res)"

section \<open>Correctness\<close>

subsection \<open>Components\<close>

definition unslashed :: "string list \<Rightarrow> string" where
  "unslashed cs = drop 1 (joined cs)"

lemma unslashed_simps [simp]:
  "unslashed [] = []" "unslashed (c # cs) = c @ joined cs"
  by (simp_all add: unslashed_def)

lemma rel_render: "rel (render cs) = unslashed cs"
  by (cases cs) (simp_all add: rel_def render_def)

lemma it_unslashed:
  assumes "slash \<notin> set c"
  shows "it_deref (unslashed (c # cs)) = c" "it_next (unslashed (c # cs)) = unslashed cs"
proof -
  have "\<And>x. x \<in> set c \<Longrightarrow> x \<noteq> slash" using assms by auto
  then show "it_deref (unslashed (c # cs)) = c" "it_next (unslashed (c # cs)) = unslashed cs"
    using assms by (cases cs; force simp: it_deref_def it_next_def takeWhile_append dropWhile_append)+
qed

lemma components_from_unslashed:
  "list_all component cs \<Longrightarrow> components_from (unslashed cs) = cs"
proof (induction cs)
  case (Cons c cs)
  then have c: "slash \<notin> set c" "c \<noteq> []" by (simp_all add: component_def)
  have "components_from (unslashed (c # cs)) =
      it_deref (unslashed (c # cs)) # components_from (it_next (unslashed (c # cs)))"
    using c by (subst components_from.simps) simp
  also have "\<dots> = c # components_from (unslashed cs)" by (simp only: it_unslashed [OF c(1)])
  finally show ?case using Cons by simp
qed (simp add: components_from.simps)

lemma components_render: "list_all component cs \<Longrightarrow> components (render cs) = cs"
  by (simp add: components_def rel_render components_from_unslashed)

lemma canonical_render [intro]: "list_all component cs \<Longrightarrow> canonical (render cs)"
  by (auto simp: canonical_def)

lemma canonical_components: "canonical p \<Longrightarrow> render (components p) = p"
  by (auto simp: canonical_def components_render)

lemma canonical_cases:
  assumes "canonical p"
  obtains cs where "list_all component cs" "p = render cs" "components p = cs"
  using assms by (auto simp: canonical_def components_render)

lemma length_render: "list_all component cs \<Longrightarrow> cs \<noteq> [] \<Longrightarrow> 1 < length (render cs)"
  by (cases cs) (auto simp: render_def component_def)

lemma render_nonempty [simp]: "render cs \<noteq> []" "[] \<noteq> render cs"
  by (cases cs; simp add: render_def)+

lemma isRoot_render: "list_all component cs \<Longrightarrow> isRoot (render cs) \<longleftrightarrow> cs = []"
  using length_render [of cs] by (auto simp: isRoot_def render_def)


lemma joined_hd: "joined cs = [] \<or> hd (joined cs) = slash"
  by (cases cs) simp_all

subsection \<open>Canonicalisation\<close>

lemma CanonPath_eq: "CanonPath raw = Inr (render (normalise [] (split_slash raw)))"
  by (simp add: CanonPath_def absPathPure_eq)

lemma CanonPath_in_eq:
  "CanonPath_in raw root = Inr (render (normalise []
     (if raw \<noteq> [] \<and> hd raw = slash then split_slash raw else split_slash root @ split_slash raw)))"
  by (auto simp: CanonPath_in_def absPathPure_eq split_slash_append)

lemma split_slash_rooted:
  "list_all component cs \<Longrightarrow> normalise [] (split_slash (render cs)) = cs"
  by (cases "cs = []") (simp_all add: render_def split_slash_render normalise_id)

lemma normalise_split_components: "list_all component (normalise [] (split_slash s))"
  by (rule normalise_components) (auto simp: split_slash_components)

subsection \<open>Containment\<close>

lemma joined_prefix:
  assumes "list_all component cs" "list_all component ds"
  shows "prefix cs ds \<longleftrightarrow>
    (\<exists>r. joined ds = joined cs @ r \<and> (r = [] \<or> hd r = slash))"
proof
  assume "prefix cs ds"
  then obtain es where "ds = cs @ es" by (auto simp: prefix_def)
  then show "\<exists>r. joined ds = joined cs @ r \<and> (r = [] \<or> hd r = slash)"
    using joined_hd by auto
next
  assume "\<exists>r. joined ds = joined cs @ r \<and> (r = [] \<or> hd r = slash)"
  then obtain r where r: "joined ds = joined cs @ r" "r = [] \<or> hd r = slash" by auto
  show "prefix cs ds"
  proof (cases r)
    case Nil
    then have "split_slash (joined ds) = split_slash (joined cs)" using r by simp
    then show ?thesis using assms by (simp add: split_slash_render)
  next
    case (Cons c t)
    then have "split_slash (joined ds) = split_slash (joined cs) @ split_slash t"
      using r by (simp add: split_slash_append)
    then show ?thesis using assms by (simp add: split_slash_render)
  qed
qed

lemma isWithin_iff_append:
  "isWithin path par \<longleftrightarrow> (\<exists>r. path = par @ r \<and> (length par \<le> 1 \<or> r = [] \<or> hd r = slash))"
proof
  assume w: "isWithin path par"
  then have "path = par @ drop (length par) path"
    unfolding isWithin_def by (metis append_take_drop_id)
  with w show "\<exists>r. path = par @ r \<and> (length par \<le> 1 \<or> r = [] \<or> hd r = slash)"
    by (intro exI [of _ "drop (length par) path"]) (cases "length path = length par", auto simp: isWithin_def hd_drop_conv_nth)
qed (auto simp: isWithin_def hd_conv_nth nth_append)

lemma isWithin_render:
  assumes "list_all component cs" "list_all component ds"
  shows "isWithin (render ds) (render cs) \<longleftrightarrow> prefix cs ds"
proof (cases "cs = []")
  case True
  then show ?thesis by (cases ds) (simp_all add: isWithin_def render_def)
next
  case False
  then have "1 < length (joined cs)" using length_render [OF assms(1)] by (simp add: render_def)
  moreover have "ds = [] \<Longrightarrow> \<not> prefix cs ds" using False by simp
  ultimately show ?thesis
    using False joined_prefix [OF assms]
    by (cases "ds = []") (auto simp: isWithin_iff_append render_def Cons_eq_append_conv dest: arg_cong [of _ _ length])
qed

lemma isWithin_components:
  "canonical path \<Longrightarrow> canonical par \<Longrightarrow> isWithin path par \<longleftrightarrow> prefix (components par) (components path)"
  by (elim canonical_cases) (simp add: isWithin_render)

lemma extend_render:
  "list_all component cs \<Longrightarrow> list_all component ds \<Longrightarrow> extend (render cs) (render ds) = render (cs @ ds)"
  by (cases cs; cases ds) (auto simp: extend_def isRoot_def render_def rel_def component_def)

lemma removePrefix_render:
  assumes "list_all component cs" "list_all component ds"
  shows "removePrefix (render (cs @ ds)) (render cs) = Inr (render ds)"
proof (cases "cs = []")
  case True
  then show ?thesis
    using isWithin_render [of "[]" ds] assms
    by (simp add: removePrefix_def isRoot_def render_def)
next
  case False
  then show ?thesis
    using assms isWithin_render [of cs "cs @ ds"] isRoot_render [of cs]
    by (simp add: removePrefix_def render_def)
qed

subsection \<open>Order\<close>

lemma CanonPath_cmp_keys: "CanonPath_cmp a b = cmp3 (map path_key a) (map path_key b)"
proof (induction a arbitrary: b)
  case Nil
  then show ?case by (cases b) (auto simp: cmp3_def)
next
  case (Cons c a)
  then show ?case by (cases b) (auto simp: cmp3_def split: ordering.splits)
qed

interpretation path_order: comparator CanonPath_cmp
  unfolding CanonPath_cmp_keys
  by unfold_locales (rule cmp3_flip, erule std_cmp.equal_trans, erule (1) std_cmp.less_trans)

text \<open>The characters on which the order is that of the components: ASCII, without NUL.\<close>

definition plain_ascii :: "string \<Rightarrow> bool" where
  "plain_ascii p \<longleftrightarrow> list_all (\<lambda>c. 0 < schar c) p"

lemma map_path_key_inject:
  "plain_ascii p \<Longrightarrow> plain_ascii q \<Longrightarrow> map path_key p = map path_key q \<longleftrightarrow> p = q"
proof (induction p arbitrary: q)
  case (Cons c p)
  then show ?case by (cases q) (auto simp: plain_ascii_def path_key_def split: if_splits)
qed auto


lemma list_sandwich:
  fixes xs ys zs :: "'a::linorder list"
  assumes "xs \<le> ys" "ys \<le> xs @ zs"
  shows "\<exists>ws. ys = xs @ ws \<and> ws \<le> zs"
  using assms
proof (induction xs arbitrary: ys)
  case (Cons x xs)
  then obtain ys' where ys: "ys = x # ys'" "xs \<le> ys'" "ys' \<le> xs @ zs"
    by (cases ys) (auto simp: Cons_le_Cons)
  with Cons.IH [of ys'] show ?case by auto
qed simp

lemma list_le_append: "xs \<le> xs @ (ys :: 'a::linorder list)"
  by (induction xs) auto

lemma map_path_key_prefix:
  assumes "plain_ascii p" "plain_ascii q" "map path_key q = map path_key p @ ws"
  shows "\<exists>r. q = p @ r \<and> map path_key r = ws"
proof -
  obtain q1 r where q: "q = q1 @ r" "map path_key q1 = map path_key p" "map path_key r = ws"
    using assms(3) by (auto simp: map_eq_append_conv)
  moreover have "plain_ascii q1" using assms(2) q by (simp add: plain_ascii_def)
  ultimately show ?thesis using assms(1) map_path_key_inject by blast
qed

text \<open>Between a directory and something within it, the order has only things within it.\<close>

lemma within_contiguous:
  assumes plain: "plain_ascii p" "plain_ascii q" "plain_ascii r"
    and r: "isWithin r p" and p: "p \<noteq> []"
    and le: "CanonPath_cmp p q \<noteq> Greater" "CanonPath_cmp q r \<noteq> Greater"
  shows "isWithin q p"
proof -
  obtain s where s: "r = p @ s" "length p \<le> 1 \<or> s = [] \<or> hd s = slash"
    using r by (auto simp: isWithin_iff_append)
  have "map path_key p \<le> map path_key q" "map path_key q \<le> map path_key p @ map path_key s"
    using le s by (simp_all add: CanonPath_cmp_keys not_less)
  then obtain ws where ws: "map path_key q = map path_key p @ ws" "ws \<le> map path_key s"
    using list_sandwich by blast
  then obtain t where t: "q = p @ t" "map path_key t \<le> map path_key s"
    using map_path_key_prefix [OF plain(1,2)] by blast
  have "t = [] \<or> hd t = slash" if "s = [] \<or> hd s = slash"
    using t(2) that plain(2) t(1)
    by (cases t; cases s) (auto simp: plain_ascii_def path_key_def Cons_le_Cons split: if_splits)
  with t(1) s(2) show ?thesis by (auto simp: isWithin_iff_append)
qed

lemma pop_render:
  assumes "list_all component cs" "cs \<noteq> []"
  shows "pop (render cs) = Inr (render (butlast cs))"
proof -
  have "component (last cs)" using assms by (simp add: list_all_iff)
  then have "slash \<notin> set (last cs)" by (simp add: component_def)
  note j = joined_butlast_rfind [OF assms(2) this]
  have "butlast cs \<noteq> [] \<Longrightarrow> max 1 (length (joined (butlast cs))) = length (joined (butlast cs))"
    by (cases "butlast cs") auto
  then show ?thesis using assms j isRoot_render [OF assms(1)]
    by (cases "butlast cs = []") (auto simp: pop_def render_def assert_that_def take_Suc hd_append neq_Nil_conv)
qed

lemma isAllowed_parents_render:
  assumes "list_all component cs"
  shows "isAllowed_parents (render cs) allowed =
    Inr (\<exists>ds. strict_prefix ds cs \<and> (\<exists>a \<in> set allowed. CanonPath_cmp a (render ds) = Equal))"
  using assms
proof (induction cs rule: rev_induct)
  case Nil
  then show ?case by (subst isAllowed_parents.simps) (simp add: isRoot_render)
next
  case (snoc c cs)
  have "isAllowed_parents (render (cs @ [c])) allowed =
      (if \<exists>a \<in> set allowed. CanonPath_cmp a (render cs) = Equal then Inr True
       else isAllowed_parents (render cs) allowed)"
    using snoc.prems pop_render [of "cs @ [c]"] isRoot_render [of "cs @ [c]"]
    by (subst isAllowed_parents.simps) simp
  moreover have "strict_prefix ds (cs @ [c]) \<longleftrightarrow> ds = cs \<or> strict_prefix ds cs" for ds
    by (auto simp: strict_prefix_def)
  ultimately show ?case using snoc by auto
qed

lemma plain_ascii_render_prefix:
  assumes "prefix ds cs" "plain_ascii (render cs)"
  shows "plain_ascii (render ds)"
  using assms by (auto simp: prefix_def render_def plain_ascii_def schar_def split: if_splits)

lemma render_inject:
  "list_all component cs \<Longrightarrow> list_all component ds \<Longrightarrow> render cs = render ds \<longleftrightarrow> cs = ds"
  using components_render by metis

lemma isAllowed_parents_components:
  assumes "canonical p" "plain_ascii p" "\<forall>a \<in> set allowed. canonical a \<and> plain_ascii a"
  shows "isAllowed_parents p allowed = Inr (\<exists>a \<in> set allowed. isWithin p a \<and> a \<noteq> p)"
proof -
  obtain cs where cs: "list_all component cs" "p = render cs" using assms(1) by (elim canonical_cases)
  have "(\<exists>ds. strict_prefix ds cs \<and> CanonPath_cmp a (render ds) = Equal) \<longleftrightarrow> isWithin p a \<and> a \<noteq> p"
    if a: "a \<in> set allowed" for a
  proof -
    obtain es where es: "list_all component es" "a = render es"
      using assms(3) a by (auto elim: canonical_cases)
    have eq: "CanonPath_cmp a (render ds) = Equal \<longleftrightarrow> es = ds" if "strict_prefix ds cs" for ds
    proof -
      have "list_all component ds" "plain_ascii (render ds)"
        using that cs assms(2) plain_ascii_render_prefix [of ds cs]
        by (auto simp: strict_prefix_def prefix_def)
      with assms(3) a es show ?thesis
        by (auto simp: CanonPath_cmp_keys map_path_key_inject render_inject)
    qed
    then have "(\<exists>ds. strict_prefix ds cs \<and> CanonPath_cmp a (render ds) = Equal) \<longleftrightarrow> strict_prefix es cs"
      by auto
    then show ?thesis using cs es
      by (auto simp: isWithin_render render_inject strict_prefix_def)
  qed
  then have "(\<exists>ds. strict_prefix ds cs \<and> (\<exists>a \<in> set allowed. CanonPath_cmp a (render ds) = Equal)) \<longleftrightarrow>
      (\<exists>a \<in> set allowed. isWithin p a \<and> a \<noteq> p)" by blast
  then show ?thesis using cs by (simp add: isAllowed_parents_render)
qed

lemma lower_bound_Some:
  assumes "sorted_wrt (\<lambda>x y. CanonPath_cmp x y = Less) allowed" "a \<in> set allowed" "CanonPath_cmp a p \<noteq> Less"
  obtains lb where "lower_bound p allowed = Some lb" "lb \<in> set allowed"
    "CanonPath_cmp lb p \<noteq> Less" "CanonPath_cmp lb a \<noteq> Greater"
  using assms
proof (induction allowed)
  case (Cons b bs)
  show ?case
  proof (cases "CanonPath_cmp b p = Less")
    case True
    with Cons show ?thesis by (auto simp: lower_bound_def)
  next
    case False
    have "CanonPath_cmp b a \<noteq> Greater"
      using Cons.prems by (auto simp: path_order.cmp_refl)
    with False show ?thesis using Cons.prems(1) [of b] by (simp add: lower_bound_def)
  qed
qed simp

lemma lower_bound_set: "lower_bound p allowed = Some lb \<Longrightarrow> lb \<in> set allowed"
  by (auto simp: lower_bound_def find_Some_iff)

lemma within_not_less: "isWithin a p \<Longrightarrow> CanonPath_cmp a p \<noteq> Less"
  by (auto simp: isWithin_iff_append CanonPath_cmp_keys not_less list_le_append)

lemma isAllowed_lower_bound:
  assumes "canonical p" "plain_ascii p" "\<forall>a \<in> set allowed. canonical a \<and> plain_ascii a"
    and "sorted_wrt (\<lambda>x y. CanonPath_cmp x y = Less) allowed"
  shows "(case lower_bound p allowed of None \<Rightarrow> False | Some lb \<Rightarrow> isWithin lb p) \<longleftrightarrow>
    (\<exists>a \<in> set allowed. isWithin a p)"
proof
  assume "\<exists>a \<in> set allowed. isWithin a p"
  then obtain a where a: "a \<in> set allowed" "isWithin a p" by auto
  obtain lb where lb: "lower_bound p allowed = Some lb" "lb \<in> set allowed"
    "CanonPath_cmp lb p \<noteq> Less" "CanonPath_cmp lb a \<noteq> Greater"
    using lower_bound_Some [OF assms(4) a(1) within_not_less [OF a(2)]] by blast
  have "p \<noteq> []" using assms(1) by (auto simp: canonical_def)
  moreover have "CanonPath_cmp p lb \<noteq> Greater"
    using lb(3) by (auto simp: CanonPath_cmp_keys)
  ultimately have "isWithin lb p"
    using within_contiguous [of p lb a] a lb assms(2,3) by blast
  with lb show "case lower_bound p allowed of None \<Rightarrow> False | Some lb \<Rightarrow> isWithin lb p" by simp
qed (auto split: option.splits dest: lower_bound_set)

subsection \<open>Relative paths\<close>

lemma skip_common_unslashed:
  assumes "list_all component cs" "list_all component ds"
  obtains ps as bs where "cs = ps @ as" "ds = ps @ bs"
    "skip_common (unslashed cs) (unslashed ds) = (unslashed as, unslashed bs)"
  using assms
proof (induction cs arbitrary: ds thesis)
  case Nil
  then show ?case using Nil.prems(1) [of "[]" "[]" ds] by (simp add: skip_common.simps)
next
  case (Cons c cs)
  have c: "slash \<notin> set c" "c \<noteq> []" using Cons.prems by (simp_all add: component_def)
  show ?case
  proof (cases "\<exists>es. ds = c # es")
    case True
    then obtain es where ds: "ds = c # es" by auto
    have step: "skip_common (unslashed (c # cs)) (unslashed (c # es)) =
        skip_common (unslashed cs) (unslashed es)"
      using c by (subst skip_common.simps) (simp add: it_unslashed [OF c(1)] del: unslashed_simps, simp)
    obtain ps as bs where "cs = ps @ as" "es = ps @ bs"
      "skip_common (unslashed cs) (unslashed es) = (unslashed as, unslashed bs)"
      using Cons.IH [of es] Cons.prems ds by auto
    then show ?thesis using Cons.prems(1) [of "c # ps" as bs] step ds by simp
  next
    case False
    have "unslashed ds = [] \<or> it_deref (unslashed ds) \<noteq> c"
    proof (cases ds)
      case (Cons d es)
      then have "slash \<notin> set d" using \<open>list_all component ds\<close> by (simp add: component_def)
      then show ?thesis using False Cons it_unslashed by simp
    qed simp
    then have "skip_common (unslashed (c # cs)) (unslashed ds) = (unslashed (c # cs), unslashed ds)"
      using it_unslashed(1) [OF c(1), of cs] by (subst skip_common.simps) (auto simp del: unslashed_simps)
    then show ?thesis using Cons.prems(1) [of "[]" "c # cs" ds] by simp
  qed
qed


lemma split_slash_unslashed:
  "\<forall>c \<in> set cs. slash \<notin> set c \<Longrightarrow> cs \<noteq> [] \<Longrightarrow> split_slash (unslashed cs) = cs"
proof (induction cs)
  case (Cons c cs)
  then show ?case by (cases cs) (simp_all add: split_slash_last split_slash_joined)
qed simp

lemma dotdots_unslashed:
  "list_all component cs \<Longrightarrow>
     dotdots (unslashed cs) res =
       (if res = [] then unslashed (replicate (length cs) ''..'') else res @ joined (replicate (length cs) ''..''))"
proof (induction cs arbitrary: res)
  case (Cons c cs)
  then have c: "slash \<notin> set c" "c \<noteq> []" by (simp_all add: component_def)
  have "dotdots (unslashed (c # cs)) res =
      dotdots (it_next (unslashed (c # cs))) ((if res \<noteq> [] then res @ ''/'' else res) @ ''..'')"
    using c by (subst dotdots.simps) simp
  also have "\<dots> = dotdots (unslashed cs) ((if res \<noteq> [] then res @ ''/'' else res) @ ''..'')"
    by (simp only: it_unslashed [OF c(1)])
  finally show ?case using Cons by simp
qed (simp add: dotdots.simps)

lemma makeRelative_render:
  assumes "list_all component cs" "list_all component ds"
  obtains ps as bs where "cs = ps @ as" "ds = ps @ bs"
    "makeRelative (render cs) (render ds) =
       (if as = [] \<and> bs = [] then ''.'' else unslashed (replicate (length as) ''..'' @ bs))"
proof -
  obtain ps as bs where split: "cs = ps @ as" "ds = ps @ bs"
    "skip_common (unslashed cs) (unslashed ds) = (unslashed as, unslashed bs)"
    using skip_common_unslashed [OF assms] by blast
  have "unslashed as = [] \<longleftrightarrow> as = []" "unslashed bs = [] \<longleftrightarrow> bs = []"
    using assms split by (cases as; cases bs; simp add: component_def)+
  then have "makeRelative (render cs) (render ds) =
      (if as = [] \<and> bs = [] then ''.'' else unslashed (replicate (length as) ''..'' @ bs))"
    using assms split
    by (cases as; cases bs) (simp_all add: makeRelative_def rel_render dotdots_unslashed Let_def del: unslashed_simps, simp_all)
  with split that show thesis by blast
qed

lemma normalise_dotdots: "normalise (ps @ as) (replicate (length as) ''..'' @ bs) = normalise ps bs"
  by (induction as rule: rev_induct) (simp_all flip: append_assoc)

lemma unslashed_hd:
  "list_all component bs \<Longrightarrow> xs = replicate n ''..'' @ bs \<Longrightarrow> unslashed xs \<noteq> [] \<Longrightarrow> hd (unslashed xs) \<noteq> slash"
  by (cases n; cases bs; cases "hd bs") (auto simp: component_def)

section \<open>Theorems\<close>

text \<open>
  C37: the constructor \<^verbatim>\<open>CanonPath(raw)\<close> never fails; it computes the meaning of the path,
  namely the components of \<open>raw\<close> with the empty ones and \<open>.\<close> skipped and \<open>..\<close> dropping the last
  component kept, printed with one slash before each; the result satisfies the class
  invariant, and canonicalising it again changes nothing.
\<close>

theorem CanonPath_canonicalises:
  "\<exists>p. CanonPath raw = Inr p \<and> p = render (normalise [] (split_slash raw)) \<and> canonical p \<and> CanonPath p = Inr p"
  using normalise_split_components [of raw] by (auto simp: CanonPath_eq split_slash_rooted)

text \<open>
  On canonical paths, \<^verbatim>\<open>isWithin\<close> holds exactly when the components of the parent are a
  prefix of the components of the path; \<^verbatim>\<open>removePrefix\<close> then succeeds with the canonical path
  of the remaining components, and appending it to the parent by \<^verbatim>\<open>operator /\<close> gives the path back.
\<close>

theorem isWithin_removePrefix_extend:
  assumes "canonical path" "canonical par"
  shows "(isWithin path par \<longleftrightarrow> prefix (components par) (components path)) \<and>
    (if isWithin path par
     then \<exists>q. removePrefix path par = Inr q \<and> canonical q
       \<and> components par @ components q = components path \<and> extend par q = path
     else removePrefix path par = Inl (AssertionFailed ''isWithin(prefix)''))"
proof -
  obtain cs ds where r: "list_all component cs" "path = render cs" "list_all component ds" "par = render ds"
    using assms by (auto simp: canonical_def)
  have w: "isWithin path par \<longleftrightarrow> prefix ds cs" using r by (simp add: isWithin_render)
  show ?thesis
  proof (cases "prefix ds cs")
    case True
    then obtain es where "cs = ds @ es" by (auto simp: prefix_def)
    with r w show ?thesis by (auto simp: removePrefix_render components_render extend_render)
  qed (use r w in \<open>simp add: components_render removePrefix_def assert_that_def\<close>)
qed

theorem isWithin_removePrefix_extend_witness:
  "isWithin ''/a/b'' ''/a'' \<and> removePrefix ''/a/b'' ''/a'' = Inr ''/b'' \<and> extend ''/a'' ''/b'' = ''/a/b''"
proof -
  have c: "canonical ''/a/b''" "canonical ''/a''"
    using canonical_render [of "[''a'', ''b'']"] canonical_render [of "[''a'']"]
    by (simp_all add: render_def component_def)
  have w: "isWithin ''/a/b'' ''/a''" by (simp add: isWithin_def)
  have "removePrefix ''/a/b'' ''/a'' = Inr ''/b''" using w by (simp add: removePrefix_def isRoot_def)
  with w isWithin_removePrefix_extend [OF c] show ?thesis by auto
qed

text \<open>
  \<^verbatim>\<open>makeRelative\<close> is right: for two canonical paths, the string it returns is not absolute
  and, resolved against the first path, denotes the second.
\<close>

theorem makeRelative_correct:
  assumes "canonical this" "canonical path"
  shows "CanonPath_in (makeRelative this path) this = Inr path \<and> hd (makeRelative this path) \<noteq> slash"
proof -
  obtain cs ds where r: "list_all component cs" "this = render cs" "list_all component ds" "path = render ds"
    using assms by (auto simp: canonical_def)
  obtain ps as bs where s: "cs = ps @ as" "ds = ps @ bs"
    "makeRelative this path = (if as = [] \<and> bs = [] then ''.'' else unslashed (replicate (length as) ''..'' @ bs))"
    using makeRelative_render [OF r(1,3)] r by blast
  have bs: "list_all component bs" using r s by simp
  have ne: "unslashed (replicate (length as) ''..'' @ bs) \<noteq> []" if "\<not> (as = [] \<and> bs = [])"
    using that bs by (cases as; cases bs) (auto simp: component_def)
  have rel: "hd (makeRelative this path) \<noteq> slash"
    using s(3) unslashed_hd [OF bs refl ne] by simp
  have "normalise cs (split_slash (makeRelative this path)) = ds"
  proof (cases "as = [] \<and> bs = []")
    case False
    have "\<forall>c \<in> set bs. slash \<notin> set c" using bs by (simp add: list_all_iff component_def)
    then have "\<forall>c \<in> set (replicate (length as) ''..'' @ bs). slash \<notin> set c"
      by (simp add: ball_Un)
    with False have "split_slash (unslashed (replicate (length as) ''..'' @ bs)) = replicate (length as) ''..'' @ bs"
      by (intro split_slash_unslashed) simp_all
    then show ?thesis using False s bs by (simp add: normalise_dotdots normalise_id)
  qed (use s in simp)
  then show ?thesis
    using rel r by (simp add: CanonPath_in_eq normalise_append split_slash_rooted)
qed

theorem makeRelative_correct_witness:
  "makeRelative ''/a/b'' ''/a/c/d'' = ''../c/d'' \<and> CanonPath_in ''../c/d'' ''/a/b'' = Inr ''/a/c/d''"
proof -
  have c: "canonical ''/a/b''" "canonical ''/a/c/d''"
    using canonical_render [of "[''a'', ''b'']"] canonical_render [of "[''a'', ''c'', ''d'']"]
    by (simp_all add: render_def component_def)
  have "makeRelative ''/a/b'' ''/a/c/d'' = ''../c/d''"
    by code_simp
  with makeRelative_correct [OF c] show ?thesis by simp
qed

text \<open>
  \<^verbatim>\<open>isAllowed\<close> answers whether an allowed path contains this path or is contained in it,
  although it only looks at the lower bound and at the parents: for canonical paths of ASCII
  characters other than NUL and a set sorted by \<^verbatim>\<open>operator <=>\<close>.
\<close>

theorem isAllowed_correct:
  assumes "canonical p" "plain_ascii p" "\<forall>a \<in> set allowed. canonical a \<and> plain_ascii a"
    and "sorted_wrt (\<lambda>x y. CanonPath_cmp x y = Less) allowed"
  shows "isAllowed p allowed = Inr (\<exists>a \<in> set allowed. isWithin a p \<or> isWithin p a)"
  using isAllowed_lower_bound [OF assms] isAllowed_parents_components [OF assms(1-3)]
  by (auto simp: isAllowed_def isWithin_def)

theorem isAllowed_correct_witness:
  "isAllowed ''/a'' [''/a-b'', ''/b''] = Inr False \<and> isAllowed ''/a/b'' [''/a'', ''/b''] = Inr True"
proof -
  have c: "canonical ''/a''" "canonical ''/b''" "canonical ''/a-b''" "canonical ''/a/b''"
    using canonical_render [of "[''a'']"] canonical_render [of "[''b'']"] canonical_render [of "[''a-b'']"]
      canonical_render [of "[''a'', ''b'']"]
    by (simp_all add: render_def component_def)
  have "isAllowed ''/a'' [''/a-b'', ''/b''] = Inr (\<exists>a \<in> set [''/a-b'', ''/b'']. isWithin a ''/a'' \<or> isWithin ''/a'' a)"
    by (rule isAllowed_correct) (simp_all add: c plain_ascii_def schar_def path_key_def cmp3_def)
  moreover have "isAllowed ''/a/b'' [''/a'', ''/b''] = Inr (\<exists>a \<in> set [''/a'', ''/b'']. isWithin a ''/a/b'' \<or> isWithin ''/a/b'' a)"
    by (rule isAllowed_correct) (simp_all add: c plain_ascii_def schar_def path_key_def cmp3_def)
  ultimately show ?thesis by (simp add: isWithin_def)
qed

text \<open>
  Beyond ASCII the order does not put a directory directly before its contents, and
  \<^verbatim>\<open>isAllowed\<close> misses an allowed path: \<^verbatim>\<open>/d\<close> contains the allowed \<^verbatim>\<open>/d/x\<close>, and is
  refused, because \<^verbatim>\<open>/d\<close> followed by the byte 0xc3 sorts between the two.
\<close>

theorem isAllowed_misses_non_ascii:
  "\<exists>q. canonical q \<and> sorted_wrt (\<lambda>x y. CanonPath_cmp x y = Less) [q, ''/d/x''] \<and>
     isWithin ''/d/x'' ''/d'' \<and> isAllowed ''/d'' [q, ''/d/x''] = Inr False"
proof -
  have "canonical (''/d'' @ [CHR 0xc3])"
    using canonical_render [of "[''d'' @ [CHR 0xc3]]"] by (simp add: render_def component_def)
  moreover have "isAllowed ''/d'' [''/d'' @ [CHR 0xc3], ''/d/x''] = Inr False"
    by (simp add: isAllowed_def lower_bound_def isWithin_def isAllowed_parents.simps pop_def rfind_def
        isRoot_def path_key_def schar_def cmp3_def assert_that_def)
  ultimately show ?thesis
    by (intro exI [of _ "''/d'' @ [CHR 0xc3]"]) (simp add: isWithin_def path_key_def schar_def cmp3_def)
qed

end
