(* ===== verification/Zix_Strings.thy ===== *)
theory Zix_Strings
  imports Zix_Prelude
begin

text \<open>
  The string utilities of \<^verbatim>\<open>src/src/libutil\<close>: \<^verbatim>\<open>util.cc\<close> (trimming, replacing, quoting, Base64,
  indentation, lines), \<^verbatim>\<open>split.hh\<close>, \<^verbatim>\<open>strings-inline.hh\<close> and \<^verbatim>\<open>shellSplitString\<close> of
  \<^verbatim>\<open>strings.cc\<close>. A position in a string is modelled by the pair of what lies before and after
  it, so a loop over positions is a recursion on what is left.
\<close>

unbundle bit_operations_syntax

section \<open>Searching\<close>

text \<open>\<^verbatim>\<open>s.find(pat)\<close>: the first position at which the pattern occurs, \<open>None\<close> for \<^verbatim>\<open>npos\<close>.\<close>

fun str_find :: "string \<Rightarrow> string \<Rightarrow> nat option" where
  "str_find pat s =
     (if prefix pat s then Some 0
      else case s of [] \<Rightarrow> None | _ # t \<Rightarrow> map_option Suc (str_find pat t))"

declare str_find.simps [simp del]

lemma str_find_Some:
  "str_find pat s = Some i \<longleftrightarrow>
     i \<le> length s \<and> prefix pat (drop i s) \<and> (\<forall>j < i. \<not> prefix pat (drop j s))"
proof (induction s arbitrary: i)
  case Nil
  then show ?case by (subst str_find.simps) auto
next
  case (Cons c s)
  show ?case
  proof (cases i)
    case 0
    then show ?thesis by (subst str_find.simps) (auto split: option.splits)
  next
    case (Suc k)
    have "(\<forall>j < Suc k. \<not> prefix pat (drop j (c # s))) \<longleftrightarrow>
        \<not> prefix pat (c # s) \<and> (\<forall>j < k. \<not> prefix pat (drop j s))"
      by (auto simp: less_Suc_eq_0_disj)
    with Suc Cons show ?thesis by (subst str_find.simps) auto
  qed
qed

lemma str_find_bound: "str_find pat s = Some i \<Longrightarrow> i + length pat \<le> length s"
proof -
  assume "str_find pat s = Some i"
  then have "i \<le> length s" "length pat \<le> length (drop i s)"
    by (auto simp: str_find_Some simp del: length_drop intro: prefix_length_le)
  then show ?thesis by simp
qed

lemma all_less_Suc_split: "(\<forall>i < Suc n. P i) \<longleftrightarrow> P 0 \<and> (\<forall>i < n. P (Suc i))"
  by (auto simp: less_Suc_eq_0_disj)

lemma str_find_None: "str_find pat s = None \<longleftrightarrow> (\<forall>i \<le> length s. \<not> prefix pat (drop i s))"
proof (induction s)
  case Nil
  then show ?case by (subst str_find.simps) auto
next
  case (Cons c s)
  have "(\<forall>i \<le> length (c # s). \<not> prefix pat (drop i (c # s))) \<longleftrightarrow>
      \<not> prefix pat (c # s) \<and> (\<forall>i \<le> length s. \<not> prefix pat (drop i s))"
    using all_less_Suc_split [of "length (c # s)" "\<lambda>i. \<not> prefix pat (drop i (c # s))"]
    by (simp only: less_Suc_eq_le) (auto simp: less_Suc_eq_le)
  with Cons show ?case by (subst str_find.simps) auto
qed

lemma str_find_sublist: "str_find pat s = None \<longleftrightarrow> \<not> sublist pat s"
proof -
  have "sublist pat s \<longleftrightarrow> (\<exists>i \<le> length s. prefix pat (drop i s))"
  proof
    assume "sublist pat s"
    then obtain a b where "s = a @ pat @ b" by (auto simp: sublist_def)
    then show "\<exists>i \<le> length s. prefix pat (drop i s)" by (intro exI [of _ "length a"]) simp
  next
    assume "\<exists>i \<le> length s. prefix pat (drop i s)"
    then obtain i r where "drop i s = pat @ r" by (auto simp: prefix_def)
    then have "s = take i s @ pat @ r" by (metis append_take_drop_id)
    then show "sublist pat s" by (auto simp: sublist_def)
  qed
  then show ?thesis by (auto simp: str_find_None)
qed

text \<open>\<^verbatim>\<open>std::to_string\<close> of a number that is not negative.\<close>

fun to_decimal :: "nat \<Rightarrow> string" where
  "to_decimal n = (if n < 10 then [char_of (48 + n)] else to_decimal (n div 10) @ [char_of (48 + n mod 10)])"

declare to_decimal.simps [simp del]

section \<open>Prefixes and splitting\<close>

definition hasPrefix :: "string \<Rightarrow> string \<Rightarrow> bool" where
  "hasPrefix s pre \<longleftrightarrow> take (length pre) s = pre"

lemma hasPrefix_iff [simp]: "hasPrefix s pre \<longleftrightarrow> prefix pre s"
  by (metis hasPrefix_def take_is_prefix append_eq_conv_conj prefix_def)

definition hasSuffix :: "string \<Rightarrow> string \<Rightarrow> bool" where
  "hasSuffix s suf \<longleftrightarrow> length s \<ge> length suf \<and> drop (length s - length suf) s = suf"

text \<open>\<^verbatim>\<open>splitPrefixTo\<close> returns the part before the separator and changes its argument.\<close>

definition splitPrefixTo :: "string \<Rightarrow> char \<Rightarrow> string option \<times> string" where
  "splitPrefixTo s separator =
     (if separator \<in> set s
      then (Some (takeWhile (\<lambda>c. c \<noteq> separator) s), tl (dropWhile (\<lambda>c. c \<noteq> separator) s))
      else (None, s))"

definition splitPrefix :: "string \<Rightarrow> string \<Rightarrow> bool \<times> string" where
  "splitPrefix s pre = (if hasPrefix s pre then (True, drop (length pre) s) else (False, s))"

lemma splitPrefixTo_append [simp]:
  "separator \<notin> set a \<Longrightarrow> splitPrefixTo (a @ separator # b) separator = (Some a, b)"
  by (induction a) (auto simp: splitPrefixTo_def)

lemma splitPrefixTo_None [simp]: "separator \<notin> set s \<Longrightarrow> splitPrefixTo s separator = (None, s)"
  by (simp add: splitPrefixTo_def)

lemma splitPrefixTo_Some:
  "splitPrefixTo s separator = (Some a, b) \<Longrightarrow> s = a @ separator # b \<and> separator \<notin> set a"
proof -
  assume eq: "splitPrefixTo s separator = (Some a, b)"
  define d where "d = dropWhile (\<lambda>c. c \<noteq> separator) s"
  have sep: "separator \<in> set s" and a: "a = takeWhile (\<lambda>c. c \<noteq> separator) s" and b: "b = tl d"
    using eq by (auto simp: splitPrefixTo_def d_def split: if_splits)
  have d: "d \<noteq> []" using sep unfolding d_def by (simp add: dropWhile_eq_Nil_conv)
  then have "hd d = separator" unfolding d_def using hd_dropWhile by blast
  with d b have "d = separator # b" by (metis list.collapse)
  moreover have "s = a @ d" by (simp add: a d_def)
  moreover have "separator \<notin> set a" unfolding a using set_takeWhileD by fast
  ultimately show ?thesis by simp
qed

lemma splitPrefix_append [simp]: "splitPrefix (pre @ s) pre = (True, s)"
  by (simp add: splitPrefix_def)

text \<open>\<^verbatim>\<open>tokenizeString\<close>: the maximal runs of characters that are not separators.\<close>

function tokenizeString :: "string \<Rightarrow> string \<Rightarrow> string list" where
  "tokenizeString s separators =
     (case dropWhile (\<lambda>c. c \<in> set separators) s of
        [] \<Rightarrow> []
      | c # t \<Rightarrow>
          (c # takeWhile (\<lambda>c. c \<notin> set separators) t) #
          tokenizeString (dropWhile (\<lambda>c. c \<notin> set separators) t) separators)"
  by pat_completeness auto
termination
proof (relation "measure (length \<circ> fst)", goal_cases)
  case (2 s separators c t)
  have "length (dropWhile (\<lambda>c. c \<notin> set separators) t) \<le> length t" by (rule length_dropWhile_le)
  also have "\<dots> < length (dropWhile (\<lambda>c. c \<in> set separators) s)" by (simp add: 2)
  also have "\<dots> \<le> length s" by (rule length_dropWhile_le)
  finally show ?case by simp
qed simp

declare tokenizeString.simps [simp del]

text \<open>\<^verbatim>\<open>splitString\<close>: one piece per separator and one more, empty ones included.\<close>

function splitString :: "string \<Rightarrow> string \<Rightarrow> string list" where
  "splitString s separators =
     (if \<exists>c \<in> set s. c \<in> set separators
      then takeWhile (\<lambda>c. c \<notin> set separators) s #
        splitString (tl (dropWhile (\<lambda>c. c \<notin> set separators) s)) separators
      else [s])"
  by pat_completeness auto
termination
proof (relation "measure (length \<circ> fst)", goal_cases)
  case (2 s separators)
  then have "s \<noteq> []" by auto
  then show ?case
    using length_dropWhile_le [of "\<lambda>c. c \<notin> set separators" s] by (cases s) auto
qed simp

declare splitString.simps [simp del]

fun concatStringsSep_loop :: "string \<Rightarrow> string list \<Rightarrow> bool \<Rightarrow> string \<Rightarrow> string" where
  "concatStringsSep_loop sep [] tail s = s"
| "concatStringsSep_loop sep (i # ss) tail s =
     concatStringsSep_loop sep ss True ((if tail then s @ sep else s) @ i)"

definition concatStringsSep :: "string \<Rightarrow> string list \<Rightarrow> string" where
  "concatStringsSep sep ss = concatStringsSep_loop sep ss False []"

fun dropEmptyInit_loop :: "string \<Rightarrow> string list \<Rightarrow> string \<Rightarrow> string" where
  "dropEmptyInit_loop sep [] s = s"
| "dropEmptyInit_loop sep (i # ss) s =
     dropEmptyInit_loop sep ss ((if length s \<noteq> 0 then s @ sep else s) @ i)"

definition dropEmptyInitThenConcatStringsSep :: "string \<Rightarrow> string list \<Rightarrow> string" where
  "dropEmptyInitThenConcatStringsSep sep ss = dropEmptyInit_loop sep ss []"

lemma concatStringsSep_loop_True:
  "concatStringsSep_loop sep ss True s = s @ concat (map (\<lambda>i. sep @ i) ss)"
  by (induction ss arbitrary: s) auto

lemma concatStringsSep_simps [simp]:
  "concatStringsSep sep [] = []"
  "concatStringsSep sep (i # ss) = i @ concat (map (\<lambda>i. sep @ i) ss)"
  by (simp_all add: concatStringsSep_def concatStringsSep_loop_True)

lemma splitString_Cons:
  "c \<notin> set seps \<Longrightarrow> splitString (c # s) seps =
     (case splitString s seps of [] \<Rightarrow> [[c]] | p # ps \<Rightarrow> (c # p) # ps)"
  by (subst (1 2) splitString.simps) auto

lemma splitString_sep: "c \<in> set seps \<Longrightarrow> splitString (c # s) seps = [] # splitString s seps"
  by (subst splitString.simps) auto

lemma splitString_Nil [simp]: "splitString [] seps = [[]]"
  by (simp add: splitString.simps)

lemma splitString_nonempty [simp]: "splitString s seps \<noteq> []"
  by (subst splitString.simps) simp

lemma splitString_plain: "\<forall>c \<in> set s. c \<notin> set seps \<Longrightarrow> splitString s seps = [s]"
  by (subst splitString.simps) auto

lemma splitString_append:
  "\<forall>c \<in> set a. c \<notin> set seps \<Longrightarrow> c \<in> set seps \<Longrightarrow> splitString (a @ c # s) seps = a # splitString s seps"
  by (induction a) (auto simp: splitString_sep splitString_Cons)


section \<open>Trimming, replacing and rewriting\<close>

definition chomp :: "string \<Rightarrow> string" where
  "chomp s = rev (dropWhile (\<lambda>c. c \<in> set [CHR '' '', CHR 0x0A, CHR 0x0D, CHR 0x09]) (rev s))"

definition trim :: "string \<Rightarrow> string \<Rightarrow> string" where
  "trim s whitespace =
     (let t = dropWhile (\<lambda>c. c \<in> set whitespace) s in
      if t = [] then [] else rev (dropWhile (\<lambda>c. c \<in> set whitespace) (rev t)))"

text \<open>The loop of \<^verbatim>\<open>replaceStrings\<close>: \<open>done\<close> is what lies before \<^verbatim>\<open>pos\<close>.\<close>

function replaceStrings_loop :: "string \<Rightarrow> string \<Rightarrow> string \<Rightarrow> string \<Rightarrow> string" where
  "replaceStrings_loop pat to done rest =
     (if pat = [] then done @ rest
      else case str_find pat rest of
        None \<Rightarrow> done @ rest
      | Some i \<Rightarrow> replaceStrings_loop pat to (done @ take i rest @ to) (drop (i + length pat) rest))"
  by pat_completeness auto
termination
  by (relation "measure (\<lambda>(pat, to, done, rest). length rest)")
    (auto dest!: str_find_bound simp flip: length_greater_0_conv)

declare replaceStrings_loop.simps [simp del]

definition replaceStrings :: "string \<Rightarrow> string \<Rightarrow> string \<Rightarrow> string" where
  "replaceStrings res pat to = (if pat = [] then res else replaceStrings_loop pat to [] res)"

text \<open>
  The inner loop of \<^verbatim>\<open>rewriteStrings\<close> searches again from the position of the replacement, so
  it need not end: not returning is \<open>None\<close>.
\<close>

partial_function (option) rewriteStrings_loop :: "string \<Rightarrow> string \<Rightarrow> string \<Rightarrow> string \<Rightarrow> string option" where
  "rewriteStrings_loop pat to done rest =
     (case str_find pat rest of
        None \<Rightarrow> Some (done @ rest)
      | Some i \<Rightarrow> rewriteStrings_loop pat to (done @ take i rest) (to @ drop (i + length pat) rest))"

fun rewriteStrings :: "string \<Rightarrow> (string, string) omap \<Rightarrow> string option" where
  "rewriteStrings s [] = Some s"
| "rewriteStrings s ((pat, to) # rws) =
     (if pat = to then rewriteStrings s rws
      else Option.bind (rewriteStrings_loop pat to [] s) (\<lambda>s. rewriteStrings s rws))"

definition toLower_char :: "char \<Rightarrow> char" where
  "toLower_char c = (if CHR ''A'' \<le> c \<and> c \<le> CHR ''Z'' then char_of (of_char c + 32 :: nat) else c)"

definition toLower :: "string \<Rightarrow> string" where
  "toLower s = map toLower_char s"

section \<open>Shell quoting\<close>

abbreviation quote_char :: char where
  "quote_char \<equiv> CHR 0x27"

abbreviation dquote_char :: char where
  "dquote_char \<equiv> CHR 0x22"

abbreviation backslash :: char where
  "backslash \<equiv> CHR 0x5C"

definition shellEscape :: "string \<Rightarrow> string" where
  "shellEscape s =
     [quote_char] @
     concat (map (\<lambda>i. if i = quote_char then [quote_char, backslash, quote_char, quote_char] else [i]) s) @
     [quote_char]"

text \<open>\<^verbatim>\<open>shellSplitString\<close>: the two quoting loops return what is left of the input and the current word.\<close>

fun inDoubleQuotes :: "string \<Rightarrow> string \<Rightarrow> bool \<Rightarrow> (string \<times> string) result" where
  "inDoubleQuotes [] current escaping = Inl (Error ''unterminated double quote'')"
| "inDoubleQuotes (c # s) current escaping =
     (if escaping then
        inDoubleQuotes s
          (if c \<in> {CHR ''$'', CHR 0x60, dquote_char, backslash} then current @ [c] else current @ [backslash, c])
          False
      else if c = backslash then inDoubleQuotes s current True
      else if c = dquote_char then Inr (s, current)
      else inDoubleQuotes s (current @ [c]) False)"

fun inSingleQuotes :: "string \<Rightarrow> string \<Rightarrow> (string \<times> string) result" where
  "inSingleQuotes [] current = Inl (Error ''unterminated single quote'')"
| "inSingleQuotes (c # s) current =
     (if c = quote_char then Inr (s, current) else inSingleQuotes s (current @ [c]))"

lemma inDoubleQuotes_shorter: "inDoubleQuotes s cur e = Inr (t, cur') \<Longrightarrow> length t < length s"
  by (induction s cur e rule: inDoubleQuotes.induct) (auto split: if_splits)

lemma inSingleQuotes_shorter: "inSingleQuotes s cur = Inr (t, cur') \<Longrightarrow> length t < length s"
  by (induction s cur rule: inSingleQuotes.induct) (auto split: if_splits)

definition pushCurrent :: "string list \<Rightarrow> string \<Rightarrow> bool \<Rightarrow> string list \<times> string \<times> bool" where
  "pushCurrent res current startedCurrent =
     (if startedCurrent then (res @ [current], [], False) else (res, current, startedCurrent))"

function shellSplit_loop :: "string \<Rightarrow> string list \<Rightarrow> string \<Rightarrow> bool \<Rightarrow> bool \<Rightarrow> string list result" where
  "shellSplit_loop [] res current started escaping = Inr (fst (pushCurrent res current started))"
| "shellSplit_loop (c # s) res current started escaping =
     (if escaping then shellSplit_loop s res (current @ [c]) True False
      else if c = backslash then shellSplit_loop s res current started True
      else if c = CHR '' '' \<or> c = CHR 0x09 then
        (case pushCurrent res current started of
           (res, current, started) \<Rightarrow> shellSplit_loop s res current started False)
      else if c = dquote_char then
        rbind (inDoubleQuotes s current False) (\<lambda>(s, current). shellSplit_loop s res current True False)
      else if c = quote_char then
        rbind (inSingleQuotes s current) (\<lambda>(s, current). shellSplit_loop s res current True False)
      else shellSplit_loop s res (current @ [c]) True False)"
  by pat_completeness auto
termination
  by (relation "measure (length \<circ> fst)")
    (auto dest: inDoubleQuotes_shorter inSingleQuotes_shorter)

definition shellSplitString :: "string \<Rightarrow> string list result" where
  "shellSplitString s = shellSplit_loop s [] [] False False"

abbreviation shell_body :: "string \<Rightarrow> string" where
  "shell_body s \<equiv> concat (map (\<lambda>i. if i = quote_char then [quote_char, backslash, quote_char, quote_char] else [i]) s)"

lemma inSingleQuotes_body:
  "rbind (inSingleQuotes (shell_body s @ quote_char # t) current)
     (\<lambda>(s, current). shellSplit_loop s res current True False) =
   shellSplit_loop t res (current @ s) True False"
  by (induction s arbitrary: current) auto

lemma shellSplit_escape:
  "shellSplit_loop (shellEscape s @ t) res current started False = shellSplit_loop t res (current @ s) True False"
  using inSingleQuotes_body [of s t current res] by (simp add: shellEscape_def)

lemma shellSplit_words:
  "shellSplit_loop (concat (map (\<lambda>i. '' '' @ i) (map shellEscape ss))) res current True False =
     Inr (res @ [current] @ ss)"
  by (induction ss arbitrary: res current) (auto simp: pushCurrent_def shellSplit_escape)

section \<open>Lines\<close>

definition stripIndentation_step :: "nat \<times> nat \<times> bool \<Rightarrow> char \<Rightarrow> nat \<times> nat \<times> bool" where
  "stripIndentation_step st c =
     (case st of (minIndent, curIndent, atStartOfLine) \<Rightarrow>
        if atStartOfLine \<and> c = CHR '' '' then (minIndent, curIndent + 1, atStartOfLine)
        else if c = CHR 0x0A then
          (if atStartOfLine then max minIndent curIndent else minIndent, 0, True)
        else if atStartOfLine then (min minIndent curIndent, curIndent, False)
        else (minIndent, curIndent, atStartOfLine))"

function stripIndentation_lines :: "nat \<Rightarrow> string \<Rightarrow> string" where
  "stripIndentation_lines minIndent s =
     (if s = [] then []
      else let line = takeWhile (\<lambda>c. c \<noteq> CHR 0x0A) s in
        (if length line > minIndent then drop minIndent line else []) @ [CHR 0x0A] @
        stripIndentation_lines minIndent (drop (length line + 1) s))"
  by pat_completeness auto
termination
  by (relation "measure (length \<circ> snd)") auto

declare stripIndentation_lines.simps [simp del]

definition stripIndentation :: "string \<Rightarrow> string" where
  "stripIndentation s =
     (case foldl stripIndentation_step (10000, 0, True) s of
        (minIndent, _, _) \<Rightarrow> stripIndentation_lines minIndent s)"

definition getLine :: "string \<Rightarrow> string \<times> string" where
  "getLine s =
     (if CHR 0x0A \<in> set s then
        let line = takeWhile (\<lambda>c. c \<noteq> CHR 0x0A) s;
            rest = drop (length line + 1) s
        in (if line \<noteq> [] \<and> last line = CHR 0x0D then butlast line else line, rest)
      else (s, []))"


section \<open>Rewriting by patterns of equal length\<close>

text \<open>
  The reference: one pass from left to right, which replaces an occurrence where it is found and
  goes on one character later.
\<close>

lemma splice_length:
  assumes "to @ drop (length pat) s = d # u" "length pat = length to" "prefix pat s"
  shows "Suc (length u) = length s"
  using arg_cong [OF assms(1), of length] assms(2) prefix_length_le [OF assms(3)] by simp

function rewrite_scan :: "string \<Rightarrow> string \<Rightarrow> string \<Rightarrow> string" where
  "rewrite_scan pat to s =
     (case s of
        [] \<Rightarrow> []
      | c # t \<Rightarrow>
          if length pat = length to \<and> prefix pat s
          then (case to @ drop (length pat) s of [] \<Rightarrow> [] | d # u \<Rightarrow> d # rewrite_scan pat to u)
          else c # rewrite_scan pat to t)"
  by pat_completeness auto
termination
proof (relation "measure (\<lambda>(pat, to, s). length s)", goal_cases)
  case (2 pat to s c t d u)
  have "Suc (length u) = length s" using 2(2,3) by (intro splice_length [of to pat s d u]) auto
  then show ?case by simp
qed auto

declare rewrite_scan.simps [simp del]

lemma rewrite_scan_no_match:
  assumes "\<forall>j < i. \<not> prefix pat (drop j s)" "i \<le> length s"
  shows "rewrite_scan pat to s = take i s @ rewrite_scan pat to (drop i s)"
  using assms
proof (induction i arbitrary: s)
  case (Suc i)
  then obtain c t where s: "s = c # t" by (cases s) auto
  have "\<not> prefix pat s" using Suc.prems(1) by auto
  then have "rewrite_scan pat to s = c # rewrite_scan pat to t"
    using s by (subst rewrite_scan.simps) simp
  moreover have "\<forall>j < i. \<not> prefix pat (drop j t)" using Suc.prems(1) s by auto
  ultimately show ?case using Suc.IH [of t] Suc.prems(2) s by simp
qed simp

lemma rewrite_scan_None: "\<not> sublist pat s \<Longrightarrow> rewrite_scan pat to s = s"
  using rewrite_scan_no_match [of "length s" pat s to] str_find_sublist [of pat s]
  by (auto simp: str_find_None rewrite_scan.simps)

lemma rewrite_scan_match:
  assumes "length pat = length to" "pat \<noteq> to" "prefix pat s"
  shows "rewrite_scan pat to s = rewrite_scan pat to (to @ drop (length pat) s)"
proof -
  define r where "r = to @ drop (length pat) s"
  have ne: "to \<noteq> []" "s \<noteq> []" using assms by auto
  then obtain d u where r: "r = d # u" unfolding r_def by (cases to) auto
  have "\<not> prefix pat r"
    unfolding r_def using assms(1,2) by (auto simp: prefix_def)
  then have "rewrite_scan pat to r = d # rewrite_scan pat to u"
    using r by (subst rewrite_scan.simps) simp
  moreover have "rewrite_scan pat to s = d # rewrite_scan pat to u"
    using assms ne r by (subst rewrite_scan.simps) (auto simp: r_def split: list.splits)
  ultimately show ?thesis by (simp add: r_def)
qed

lemma length_rewrite_scan [simp]: "length (rewrite_scan pat to s) = length s"
proof (induction pat to s rule: rewrite_scan.induct)
  case (1 pat to s)
  show ?case
  proof (cases s)
    case (Cons c t)
    show ?thesis
    proof (cases "length pat = length to \<and> prefix pat s")
      case True
      then have "to @ drop (length pat) s \<noteq> []" using Cons by (auto dest: prefix_length_le)
      then obtain d u where u: "to @ drop (length pat) s = d # u" by (cases "to @ drop (length pat) s") auto
      then have "length (rewrite_scan pat to u) = length u" using 1(1) [OF Cons True u] by simp
      then show ?thesis
        using True Cons u splice_length [OF u] by (subst rewrite_scan.simps) simp
    qed (use Cons 1 in \<open>subst rewrite_scan.simps, auto\<close>)
  qed (simp add: rewrite_scan.simps)
qed

lemma rewriteStrings_loop_scan:
  assumes "length pat = length to" "pat \<noteq> to"
  shows "rewriteStrings_loop pat to done rest = Some (done @ rewrite_scan pat to rest)"
proof (induction "2 * length rest + (if prefix pat rest then 1 else 0)" arbitrary: "done" rest rule: less_induct)
  case less
  show ?case
  proof (cases "str_find pat rest")
    case None
    then have "rewrite_scan pat to rest = rest" by (simp add: str_find_sublist rewrite_scan_None)
    with None show ?thesis by (subst rewriteStrings_loop.simps) simp
  next
    case (Some i)
    define r where "r = to @ drop (i + length pat) rest"
    have i: "i \<le> length rest" "prefix pat (drop i rest)" "\<forall>j < i. \<not> prefix pat (drop j rest)"
      using Some by (auto simp: str_find_Some)
    have len: "length r + i = length rest"
      using assms(1) str_find_bound [OF Some] by (simp add: r_def)
    have np: "\<not> prefix pat r" unfolding r_def using assms by (auto simp: prefix_def)
    have "i = 0 \<Longrightarrow> prefix pat rest" using i by simp
    then have "rewriteStrings_loop pat to (done @ take i rest) r = Some ((done @ take i rest) @ rewrite_scan pat to r)"
      using len np by (intro less) (cases "i = 0"; simp)
    moreover have "rewrite_scan pat to (drop i rest) = rewrite_scan pat to r"
      using rewrite_scan_match [OF assms i(2)] by (simp add: r_def add.commute)
    moreover have "rewrite_scan pat to rest = take i rest @ rewrite_scan pat to (drop i rest)"
      using rewrite_scan_no_match [OF i(3,1)] .
    ultimately show ?thesis
      using Some by (subst rewriteStrings_loop.simps) (simp add: r_def)
  qed
qed

lemma rewriteStrings_loop_returns:
  assumes "rewriteStrings_loop pat to done rest = Some y"
  shows "\<not> (prefix pat to \<and> sublist pat rest)"
proof (rule rewriteStrings_loop.raw_induct [where P = "\<lambda>pat to d r y. \<not> (prefix pat to \<and> sublist pat r)", OF _ assms])
  fix loop :: "string \<Rightarrow> string \<Rightarrow> string \<Rightarrow> string \<Rightarrow> string option" and pat to d r y
  assume IH: "\<And>pat to d r y. loop pat to d r = Some y \<Longrightarrow> \<not> (prefix pat to \<and> sublist pat r)"
    and body: "(case str_find pat r of None \<Rightarrow> Some (d @ r)
      | Some i \<Rightarrow> loop pat to (d @ take i r) (to @ drop (i + length pat) r)) = Some y"
  show "\<not> (prefix pat to \<and> sublist pat r)"
  proof (cases "str_find pat r")
    case None
    then show ?thesis by (simp add: str_find_sublist)
  next
    case (Some i)
    then have "\<not> (prefix pat to \<and> sublist pat (to @ drop (i + length pat) r))"
      using body by (intro IH [of pat to "d @ take i r" _ y]) simp
    then show ?thesis by (auto simp: prefix_def)
  qed
qed

lemma rewriteStrings_loop_diverges:
  "prefix pat to \<Longrightarrow> sublist pat rest \<Longrightarrow> rewriteStrings_loop pat to done rest = None"
  using rewriteStrings_loop_returns [of pat to "done" rest]
  by (cases "rewriteStrings_loop pat to done rest") auto


section \<open>Base64\<close>

definition base64Chars :: string where
  "base64Chars = ''ABCDEFGHIJKLMNOPQRSTUVWXYZabcdefghijklmnopqrstuvwxyz0123456789+/''"

text \<open>
  \<^verbatim>\<open>base64Encode\<close>: the accumulator is an \<^verbatim>\<open>int\<close> that wraps around, and \<^verbatim>\<open>>>\<close> on it is the
  arithmetic shift. \<^verbatim>\<open>nbits\<close> is never negative.
\<close>

function base64Encode_while :: "u32 \<Rightarrow> nat \<Rightarrow> string \<Rightarrow> nat \<times> string" where
  "base64Encode_while data nbits res =
     (if nbits \<ge> 6 then
        let nbits = nbits - 6 in
        base64Encode_while data nbits (res @ [base64Chars ! unat (signed_drop_bit nbits data AND 0x3f)])
      else (nbits, res))"
  by pat_completeness auto
termination
  by (relation "measure (\<lambda>(data, nbits, res). nbits)") auto

declare base64Encode_while.simps [simp del]

fun base64Encode_loop :: "string \<Rightarrow> u32 \<Rightarrow> nat \<Rightarrow> string \<Rightarrow> u32 \<times> nat \<times> string" where
  "base64Encode_loop [] data nbits res = (data, nbits, res)"
| "base64Encode_loop (c # s) data nbits res =
     (let data = push_bit 8 data OR ucast (byte_of_char c);
          (nbits, res) = base64Encode_while data (nbits + 8) res
      in base64Encode_loop s data nbits res)"

function base64Encode_pad :: "string \<Rightarrow> string" where
  "base64Encode_pad res = (if length res mod 4 \<noteq> 0 then base64Encode_pad (res @ ''='') else res)"
  by pat_completeness auto
termination
  by (relation "measure (\<lambda>res. if length res mod 4 = 0 then 0 else 4 - length res mod 4)") (auto simp: mod_Suc)

declare base64Encode_pad.simps [simp del]

definition base64Encode :: "string \<Rightarrow> string" where
  "base64Encode s =
     (let (data, nbits, res) = base64Encode_loop s 0 0 [];
          res = (if nbits \<noteq> 0 then res @ [base64Chars ! unat (push_bit (6 - nbits) data AND 0x3f)] else res)
      in base64Encode_pad res)"

text \<open>The decoding table, \<open>-1\<close> for a character that is not in the alphabet.\<close>

definition base64DecodeChars :: "char \<Rightarrow> int" where
  "base64DecodeChars c =
     (if c \<in> set base64Chars then int (length (takeWhile (\<lambda>d. d \<noteq> c) base64Chars)) else - 1)"

fun base64Decode_loop :: "string \<Rightarrow> u32 \<Rightarrow> nat \<Rightarrow> string \<Rightarrow> string result" where
  "base64Decode_loop [] d bits res = Inr res"
| "base64Decode_loop (c # s) d bits res =
     (if c = CHR ''='' then Inr res
      else if c = CHR 0x0A then base64Decode_loop s d bits res
      else
        let digit = base64DecodeChars c in
        if digit = - 1 then Inl (FormatError ''invalid character in Base64 string'')
        else
          let bits = bits + 6; d = push_bit 6 d OR word_of_int digit in
          if bits \<ge> 8
          then base64Decode_loop s d (bits - 8) (res @ [char_of_byte (ucast (drop_bit (bits - 8) d AND 0xff))])
          else base64Decode_loop s d bits res)"

definition base64Decode :: "string \<Rightarrow> string result" where
  "base64Decode s = base64Decode_loop s 0 0 []"

lemma base64Decode_base64Chars:
  assumes "i < 64"
  shows "base64DecodeChars (base64Chars ! i) = int i" "base64Chars ! i \<noteq> CHR ''=''" "base64Chars ! i \<noteq> CHR 0x0A"
proof -
  have "list_all (\<lambda>i. base64DecodeChars (base64Chars ! i) = int i \<and> base64Chars ! i \<noteq> CHR ''='' \<and> base64Chars ! i \<noteq> CHR 0x0A)
    [0..<64]" by code_simp
  with assms show "base64DecodeChars (base64Chars ! i) = int i" "base64Chars ! i \<noteq> CHR ''=''" "base64Chars ! i \<noteq> CHR 0x0A"
    by (simp_all add: list_all_iff)
qed

abbreviation sextet :: "u32 \<Rightarrow> nat" where
  "sextet w \<equiv> unat (w AND 0x3f)"

lemma sextet_less: "sextet w < 64"
proof -
  have "w AND 0x3f \<le> 0x3f" by (rule word_and_le1)
  then show ?thesis by (simp add: word_le_nat_alt)
qed


text \<open>What the decoder does with the characters of four, three or two groups of six bits.\<close>

lemma decode_digit:
  fixes w :: u32
  shows "base64Decode_loop (base64Chars ! sextet w # s) d bits res =
     (let bits = bits + 6; d = push_bit 6 d OR (w AND 0x3f) in
      if bits \<ge> 8
      then base64Decode_loop s d (bits - 8) (res @ [char_of_byte (ucast (drop_bit (bits - 8) d AND 0xff))])
      else base64Decode_loop s d bits res)"
proof -
  have "uint (w AND 0x3f) \<noteq> - 1" using uint_ge_0 [of "w AND 0x3f"] by linarith
  then show ?thesis
    using base64Decode_base64Chars [OF sextet_less [of w]] by (simp add: Let_def)
qed

lemma less_8_cases: "k < 8 \<Longrightarrow> k = 0 \<or> k = 1 \<or> k = 2 \<or> k = 3 \<or> k = 4 \<or> k = 5 \<or> k = 6 \<or> k = (7::nat)"
  by linarith

lemma mask6: "(0x3f :: u32) = mask 6"
  by (simp add: mask_eq_exp_minus_1)

lemma mask8_32: "(0xff :: u32) = mask 8"
  by (simp add: mask_eq_exp_minus_1)

lemma byte_eqI: "(\<And>k. k < 8 \<Longrightarrow> bit (x :: u8) k = bit y k) \<Longrightarrow> x = y"
  by (rule bit_word_eqI) simp

lemma bit_u8_high [simp]: "8 \<le> n \<Longrightarrow> \<not> bit (b :: u8) n"
  by (simp add: impossible_bit)

lemma regroup:
  fixes d d1 d2 :: u32 and a b c :: u8
  assumes "d1 = push_bit 8 d0 OR ucast a" "d2 = push_bit 8 d1 OR ucast b" "d3 = push_bit 8 d2 OR ucast c"
    and "e1 = push_bit 6 d OR (signed_drop_bit 2 d1 AND 0x3f)"
    and "e2 = push_bit 6 e1 OR (signed_drop_bit 4 d2 AND 0x3f)"
    and "e3 = push_bit 6 e2 OR (signed_drop_bit 6 d3 AND 0x3f)"
    and "e4 = push_bit 6 e3 OR (signed_drop_bit 0 d3 AND 0x3f)"
  shows "ucast (drop_bit 4 e2 AND 0xff) = a" "ucast (drop_bit 2 e3 AND 0xff) = b" "ucast (drop_bit 0 e4 AND 0xff) = c"
  by (rule byte_eqI; drule less_8_cases; elim disjE; simp add: assms mask6 mask8_32 bit_simps)+


lemma encode_while_step:
  "nbits < 6 \<Longrightarrow> base64Encode_while data nbits res = (nbits, res)"
  "6 \<le> nbits \<Longrightarrow> base64Encode_while data nbits res =
     base64Encode_while data (nbits - 6) (res @ [base64Chars ! sextet (signed_drop_bit (nbits - 6) data)])"
  by (subst base64Encode_while.simps; simp add: Let_def)+

lemma encode_loop_res:
  "base64Encode_while data n (res @ res') = (case base64Encode_while data n res' of (n, r) \<Rightarrow> (n, res @ r))"
proof (induction data n res' rule: base64Encode_while.induct)
  case (1 data n res')
  then show ?case
    by (cases "6 \<le> n") (simp_all add: encode_while_step Let_def)
qed

lemma base64Encode_loop_res:
  "base64Encode_loop s data n (res @ res') =
     (case base64Encode_loop s data n res' of (d, n, r) \<Rightarrow> (d, n, res @ r))"
proof (induction s arbitrary: data n res')
  case (Cons c s)
  then show ?case by (simp add: encode_loop_res Let_def split: prod.splits)
qed simp

text \<open>The groups emitted by the encoder and the rest of the bits, three bytes at a time.\<close>

definition encode_tail :: "u32 \<times> nat \<times> string \<Rightarrow> string" where
  "encode_tail st = (case st of (data, nbits, res) \<Rightarrow>
     base64Encode_pad
       (if nbits \<noteq> 0 then res @ [base64Chars ! unat (push_bit (6 - nbits) data AND 0x3f)] else res))"

lemma base64Encode_tail: "base64Encode s = encode_tail (base64Encode_loop s 0 0 [])"
  by (simp add: base64Encode_def encode_tail_def Let_def split: prod.splits)

lemma encode_pad: "base64Encode_pad (res @ r) = res @ base64Encode_pad r" if "length res mod 4 = 0"
proof (induction r rule: base64Encode_pad.induct)
  case (1 r)
  have "length (res @ r) mod 4 = length r mod 4" using that by (simp add: mod_add_eq [symmetric])
  with 1 show ?case
    by (subst base64Encode_pad.simps, subst (2) base64Encode_pad.simps) simp
qed

lemma encode_tail_res:
  "length res mod 4 = 0 \<Longrightarrow> encode_tail (d, n, res @ r) = res @ encode_tail (d, n, r)"
  by (simp add: encode_tail_def encode_pad)


lemma regroup_tail1:
  fixes d d1 :: u32 and a :: u8
  assumes "d1 = push_bit 8 d0 OR ucast a"
  shows "ucast (drop_bit 4 (push_bit 6 (push_bit 6 d OR (signed_drop_bit 2 d1 AND 0x3f)) OR (push_bit 4 d1 AND 0x3f)) AND 0xff) = a"
  by (rule byte_eqI; drule less_8_cases; elim disjE; simp add: assms mask6 mask8_32 bit_simps)+

lemma regroup_tail2:
  fixes d d1 d2 :: u32 and b :: u8
  assumes "d2 = push_bit 8 d1 OR ucast b"
  shows "ucast (drop_bit 2 (push_bit 6 (push_bit 6 e OR (signed_drop_bit 4 d2 AND 0x3f)) OR (push_bit 2 d2 AND 0x3f)) AND 0xff) = b"
  by (rule byte_eqI; drule less_8_cases; elim disjE; simp add: assms mask6 mask8_32 bit_simps)+

lemma decode_groups:
  fixes g1 g2 :: u32
  shows "base64Decode_loop (base64Chars ! sextet g1 # base64Chars ! sextet g2 # s) d 0 res =
      base64Decode_loop s (push_bit 6 (push_bit 6 d OR (g1 AND 0x3f)) OR (g2 AND 0x3f)) 4
        (res @ [char_of_byte (ucast (drop_bit 4 (push_bit 6 (push_bit 6 d OR (g1 AND 0x3f)) OR (g2 AND 0x3f)) AND 0xff))])"
    and "base64Decode_loop (base64Chars ! sextet g1 # s) e 4 res =
      base64Decode_loop s (push_bit 6 e OR (g1 AND 0x3f)) 2
        (res @ [char_of_byte (ucast (drop_bit 2 (push_bit 6 e OR (g1 AND 0x3f)) AND 0xff))])"
    and "base64Decode_loop (base64Chars ! sextet g1 # s) e 2 res =
      base64Decode_loop s (push_bit 6 e OR (g1 AND 0x3f)) 0
        (res @ [char_of_byte (ucast (drop_bit 0 (push_bit 6 e OR (g1 AND 0x3f)) AND 0xff))])"
    and "base64Decode_loop (CHR ''='' # s) e n res = Inr res"
  unfolding decode_digit Let_def by simp_all

lemma three_cases:
  obtains "s = []" | a where "s = [a]" | a b where "s = [a, b]" | a b c t where "s = a # b # c # t"
  by (metis list.exhaust)

lemma encode_groups:
  "encode_tail (base64Encode_loop [] data 0 []) = []"
  "d1 = push_bit 8 data OR ucast (byte_of_char a) \<Longrightarrow>
     encode_tail (base64Encode_loop [a] data 0 []) =
       base64Chars ! sextet (signed_drop_bit 2 d1) # base64Chars ! sextet (push_bit 4 d1) # ''==''"
  "d1 = push_bit 8 data OR ucast (byte_of_char a) \<Longrightarrow> d2 = push_bit 8 d1 OR ucast (byte_of_char b) \<Longrightarrow>
     encode_tail (base64Encode_loop [a, b] data 0 []) =
       base64Chars ! sextet (signed_drop_bit 2 d1) # base64Chars ! sextet (signed_drop_bit 4 d2) #
       base64Chars ! sextet (push_bit 2 d2) # ''=''"
  by (simp_all add: encode_tail_def encode_while_step Let_def base64Encode_pad.simps)

lemma encode_groups3:
  assumes "d1 = push_bit 8 data OR ucast (byte_of_char a)" "d2 = push_bit 8 d1 OR ucast (byte_of_char b)"
    and "d3 = push_bit 8 d2 OR ucast (byte_of_char c)"
  shows "encode_tail (base64Encode_loop (a # b # c # t) data 0 []) =
    base64Chars ! sextet (signed_drop_bit 2 d1) # base64Chars ! sextet (signed_drop_bit 4 d2) #
    base64Chars ! sextet (signed_drop_bit 6 d3) # base64Chars ! sextet (signed_drop_bit 0 d3) #
    encode_tail (base64Encode_loop t d3 0 [])" (is "_ = ?g1 # ?g2 # ?g3 # ?g4 # _")
proof -
  have "base64Encode_loop (a # b # c # t) data 0 [] = base64Encode_loop t d3 0 ([?g1, ?g2, ?g3, ?g4] @ [])"
    by (simp add: encode_while_step Let_def assms)
  then show ?thesis
    by (simp only: base64Encode_loop_res) (simp add: encode_tail_res [of "[?g1, ?g2, ?g3, ?g4]", simplified] split: prod.splits)
qed

lemma base64Decode_encode:
  "base64Decode_loop (encode_tail (base64Encode_loop s data 0 [])) d 0 res = Inr (res @ s)"
proof (induction s arbitrary: data d res rule: length_induct)
  case (1 s)
  note IH = 1
  define d1 where "d1 a = push_bit 8 data OR ucast (byte_of_char a)" for a
  define d2 where "d2 a b = push_bit 8 (d1 a) OR ucast (byte_of_char b)" for a b
  define d3 where "d3 a b c = push_bit 8 (d2 a b) OR ucast (byte_of_char c)" for a b c
  consider "s = []" | a where "s = [a]" | a b where "s = [a, b]" | a b c t where "s = a # b # c # t"
    by (rule three_cases)
  then show ?case
  proof cases
    case 1
    then show ?thesis by (simp only: encode_groups(1)) simp
  next
    case (2 a)
    then show ?thesis
      by (simp only: encode_groups(2) [OF d1_def] decode_groups regroup_tail1 [OF d1_def]) simp
  next
    case (3 a b)
    then show ?thesis
      by (simp only: encode_groups(3) [OF d1_def d2_def] decode_groups
          regroup(1) [OF d1_def d2_def refl refl refl refl refl] regroup_tail2 [OF d2_def]) simp
  next
    case (4 a b c t)
    have "base64Decode_loop (encode_tail (base64Encode_loop t (d3 a b c) 0 [])) e 0 r = Inr (r @ t)" for e r
      using IH 4 by simp
    with 4 show ?thesis
      by (simp only: encode_groups3 [OF d1_def d2_def d3_def] decode_groups
          regroup [OF d1_def d2_def d3_def refl refl refl refl]) simp
  qed
qed

lemma base64Chars_nth_mem: "base64Chars ! sextet w \<in> set base64Chars"
  using sextet_less [of w] by (intro nth_mem) (simp add: base64Chars_def)

lemma encode_shape:
  "length (encode_tail (base64Encode_loop s data 0 [])) = (length s + 2) div 3 * 4 \<and>
   set (encode_tail (base64Encode_loop s data 0 [])) \<subseteq> insert (CHR ''='') (set base64Chars)"
proof (induction s arbitrary: data rule: length_induct)
  case (1 s)
  consider "s = []" | a where "s = [a]" | a b where "s = [a, b]" | a b c t where "s = a # b # c # t"
    by (rule three_cases)
  then show ?case
  proof cases
    case 1
    then show ?thesis by (simp only: encode_groups(1)) simp
  next
    case (2 a)
    then show ?thesis by (simp only: encode_groups(2) [OF refl]) (simp add: base64Chars_nth_mem)
  next
    case (3 a b)
    then show ?thesis by (simp only: encode_groups(3) [OF refl refl]) (simp add: base64Chars_nth_mem)
  next
    case (4 a b c t)
    then obtain g1 g2 g3 g4 d3 where "encode_tail (base64Encode_loop s data 0 []) =
        base64Chars ! sextet g1 # base64Chars ! sextet g2 # base64Chars ! sextet g3 # base64Chars ! sextet g4 #
        encode_tail (base64Encode_loop t d3 0 [])"
      using encode_groups3 [where data = data and a = a and b = b and c = c and t = t, OF refl refl refl] by metis
    moreover have "(5 + length t) div 3 = Suc (Suc (Suc (length t)) div 3)" by presburger
    ultimately show ?thesis using 1 4 by (simp add: base64Chars_nth_mem)
  qed
qed

lemma length_base64Encode: "length (base64Encode s) = (length s + 2) div 3 * 4"
  using encode_shape [of s 0] by (simp add: base64Encode_tail)

lemma set_base64Encode: "set (base64Encode s) \<subseteq> insert (CHR ''='') (set base64Chars)"
  using encode_shape [of s 0] by (simp add: base64Encode_tail)

lemma base64Decode_tail: "base64Decode (base64Encode s) = Inr s"
  unfolding base64Decode_def base64Encode_tail using base64Decode_encode [of s 0 0 "[]"] by simp

section \<open>Theorems\<close>

text \<open>
  Decoding what \<^verbatim>\<open>base64Encode\<close> produced gives the bytes back, although both loops keep
  their bits in an accumulator of 32 bits that overflows on long inputs.
\<close>

theorem base64Decode_base64Encode: "base64Decode (base64Encode s) = Inr s"
  by (rule base64Decode_tail)

text \<open>
  C40: words quoted by \<^verbatim>\<open>shellEscape\<close> and joined by blanks are split by \<^verbatim>\<open>shellSplitString\<close>
  into exactly these words, whatever characters they have.
\<close>

theorem shellSplitString_shellEscape:
  "shellSplitString (concatStringsSep '' '' (map shellEscape ss)) = Inr ss"
proof (cases ss)
  case (Cons w ws)
  then show ?thesis
    using shellSplit_escape [of w _ "[]" "[]" False] shellSplit_words [of ws "[]" w]
    by (simp add: shellSplitString_def)
qed (simp add: shellSplitString_def pushCurrent_def)

lemma concat_splitString: "concatStringsSep [c] (splitString s [c]) = s"
proof (induction s)
  case (Cons d s)
  then show ?case
    by (cases "d = c"; cases "splitString s [c]") (auto simp: splitString_sep splitString_Cons)
qed simp

lemma splitString_concat:
  "ss \<noteq> [] \<Longrightarrow> \<forall>s \<in> set ss. c \<notin> set s \<Longrightarrow> splitString (concatStringsSep [c] ss) [c] = ss"
proof (induction ss)
  case (Cons a ss)
  show ?case
  proof (cases ss)
    case Nil
    with Cons show ?thesis using splitString_plain [of a "[c]"] by auto
  next
    case (Cons b bs)
    with Cons.prems Cons.IH show ?thesis
      using splitString_append [of a "[c]" c "concatStringsSep [c] ss"] by auto
  qed
qed simp


lemma splitString_runs:
  "splitString s seps = takeWhile (\<lambda>c. c \<notin> set seps) s #
     (case dropWhile (\<lambda>c. c \<notin> set seps) s of [] \<Rightarrow> [] | _ # t \<Rightarrow> splitString t seps)"
proof (induction s)
  case (Cons c s)
  then show ?case by (cases "c \<in> set seps") (simp_all add: splitString_sep splitString_Cons)
qed simp

lemma splitString_skip:
  "filter (\<lambda>p. p \<noteq> []) (splitString s seps) =
     filter (\<lambda>p. p \<noteq> []) (splitString (dropWhile (\<lambda>c. c \<in> set seps) s) seps)"
  by (induction s) (simp_all add: splitString_sep)

lemma tokenizeString_filter:
  "tokenizeString s seps = filter (\<lambda>p. p \<noteq> []) (splitString s seps)"
proof (induction s seps rule: tokenizeString.induct)
  case (1 s seps)
  show ?case
  proof (cases "dropWhile (\<lambda>c. c \<in> set seps) s")
    case Nil
    then show ?thesis
      by (subst tokenizeString.simps, subst splitString_skip) (simp del: dropWhile_eq_Nil_conv)
  next
    case (Cons c t)
    define d where "d = dropWhile (\<lambda>c. c \<notin> set seps) t"
    have c: "c \<notin> set seps" using Cons by (auto simp: dropWhile_eq_Cons_conv)
    have "d = [] \<or> hd d \<in> set seps" unfolding d_def using hd_dropWhile by blast
    then have "filter (\<lambda>p. p \<noteq> []) (case d of [] \<Rightarrow> [] | _ # t \<Rightarrow> splitString t seps) =
        filter (\<lambda>p. p \<noteq> []) (splitString d seps)"
      by (cases d) (simp_all add: splitString_sep)
    moreover have "splitString (c # t) seps =
        (c # takeWhile (\<lambda>c. c \<notin> set seps) t) # (case d of [] \<Rightarrow> [] | _ # t \<Rightarrow> splitString t seps)"
      using c by (subst splitString_runs) (simp add: d_def)
    moreover have "tokenizeString d seps = filter (\<lambda>p. p \<noteq> []) (splitString d seps)"
      using 1 [OF Cons] by (simp add: d_def)
    ultimately show ?thesis
      using Cons by (subst tokenizeString.simps) (simp add: splitString_skip [of s] d_def)
  qed
qed

text \<open>
  \<^verbatim>\<open>splitString\<close> at one separator is the inverse of \<^verbatim>\<open>concatStringsSep\<close> on every nonempty
  list of strings without the separator; joining the pieces of any string gives it back; and
  \<^verbatim>\<open>tokenizeString\<close> returns the nonempty pieces, for any set of separators.
\<close>

theorem splitString_concatStringsSep:
  "concatStringsSep [c] (splitString s [c]) = s \<and>
   (ss \<noteq> [] \<and> (\<forall>s \<in> set ss. c \<notin> set s) \<longrightarrow> splitString (concatStringsSep [c] ss) [c] = ss) \<and>
   tokenizeString s seps = filter (\<lambda>p. p \<noteq> []) (splitString s seps)"
  by (simp add: concat_splitString splitString_concat tokenizeString_filter)

theorem splitString_concatStringsSep_witness:
  "splitString (concatStringsSep '':'' [''a'', [], ''b c'']) '':'' = [''a'', [], ''b c''] \<and>
   tokenizeString ''a::b c'' '': '' = [''a'', ''b'', ''c'']"
proof -
  have "splitString (concatStringsSep '':'' [''a'', [], ''b c'']) '':'' = [''a'', [], ''b c'']"
    using splitString_concatStringsSep [of "CHR '':''" "''a::b c''" "[''a'', [], ''b c'']"] by simp
  moreover have "tokenizeString ''a::b c'' '': '' = [''a'', ''b'', ''c'']"
    by code_simp
  ultimately show ?thesis by blast
qed

text \<open>
  \<^verbatim>\<open>rewriteStrings\<close> returns whenever every replacement has the length of its pattern, as for
  store path hashes; its result is that of one left-to-right pass per pattern, and has the
  length of the input. It never returns when a replacement starts with its pattern and the
  pattern occurs.
\<close>

theorem rewriteStrings_terminates:
  "(list_all (\<lambda>(pat, to). length pat = length to) rws \<longrightarrow>
     rewriteStrings s rws = Some (foldl (\<lambda>s (pat, to). if pat = to then s else rewrite_scan pat to s) s rws) \<and>
     length (the (rewriteStrings s rws)) = length s) \<and>
   (pat \<noteq> to \<and> prefix pat to \<and> sublist pat s \<longrightarrow> rewriteStrings s ((pat, to) # rws) = None)"
proof -
  have "list_all (\<lambda>(pat, to). length pat = length to) rws \<Longrightarrow>
     rewriteStrings s rws = Some (foldl (\<lambda>s (pat, to). if pat = to then s else rewrite_scan pat to s) s rws) \<and>
     length (the (rewriteStrings s rws)) = length s"
    by (induction s rws rule: rewriteStrings.induct) (auto simp: rewriteStrings_loop_scan)
  moreover have "pat \<noteq> to \<and> prefix pat to \<and> sublist pat s \<Longrightarrow> rewriteStrings s ((pat, to) # rws) = None"
    by (simp add: rewriteStrings_loop_diverges)
  ultimately show ?thesis by blast
qed

theorem rewriteStrings_terminates_witness:
  "rewriteStrings ''xabcab'' [(''ab'', ''cd'')] = Some ''xcdccd'' \<and> rewriteStrings ''xa'' [(''a'', ''aa'')] = None"
proof -
  have "rewrite_scan ''ab'' ''cd'' ''xabcab'' = ''xcdccd''" by code_simp
  then show ?thesis
    using rewriteStrings_terminates [of "[(''ab'', ''cd'')]" "''xabcab''"]
      rewriteStrings_terminates [of "[]" "''xa''" "''a''" "''aa''"]
    by (simp add: sublist_code)
qed

text \<open>
  \<^verbatim>\<open>stripIndentation\<close> can lose text: a line of blanks sets the minimal indentation to its own
  width when that is larger, because the code takes the maximum there, and every shorter line is
  then emptied.
\<close>

theorem stripIndentation_loses_text:
  "stripIndentation (''  text'' @ [CHR 0x0A] @ ''          '' @ [CHR 0x0A]) = [CHR 0x0A, CHR 0x0A]"
  by code_simp

end
