(* ===== verification/Zix_Hash.thy ===== *)
theory Zix_Hash
  imports Zix_Strings
begin

text \<open>
  Hashes: \<^verbatim>\<open>src/src/libutil/hash.hh\<close> and \<^verbatim>\<open>hash.cc\<close>. A \<^verbatim>\<open>Hash\<close> is the record of its size, the
  array of 64 bytes and the algorithm; the digests themselves are computed by code outside the
  sources. The three representations (base 16, the base 32 of Nix, Base64) are printed and
  parsed as the code does it, bit by bit.
\<close>

section \<open>Algorithms and formats\<close>

datatype HashAlgorithm = MD5 | SHA1 | SHA256 | SHA512 | BLAKE3

datatype HashFormat = Base64 | Nix32 | Base16 | SRI

record Hash =
  hashSize :: nat
  hash :: "u8 list"
  algo :: HashAlgorithm

fun algo_char :: "HashAlgorithm \<Rightarrow> int" where
  "algo_char MD5 = 42" | "algo_char SHA1 = 43" | "algo_char SHA256 = 44" | "algo_char SHA512 = 45" | "algo_char BLAKE3 = 46"

fun regularHashSize :: "HashAlgorithm \<Rightarrow> nat" where
  "regularHashSize BLAKE3 = 32"
| "regularHashSize MD5 = 16"
| "regularHashSize SHA1 = 20"
| "regularHashSize SHA256 = 32"
| "regularHashSize SHA512 = 64"

fun printHashAlgo :: "HashAlgorithm \<Rightarrow> string" where
  "printHashAlgo BLAKE3 = ''blake3''"
| "printHashAlgo MD5 = ''md5''"
| "printHashAlgo SHA1 = ''sha1''"
| "printHashAlgo SHA256 = ''sha256''"
| "printHashAlgo SHA512 = ''sha512''"

definition parseHashAlgoOpt :: "string \<Rightarrow> HashAlgorithm option" where
  "parseHashAlgoOpt s =
     (if s = ''blake3'' then Some BLAKE3
      else if s = ''md5'' then Some MD5
      else if s = ''sha1'' then Some SHA1
      else if s = ''sha256'' then Some SHA256
      else if s = ''sha512'' then Some SHA512
      else None)"

definition parseHashAlgo :: "string \<Rightarrow> HashAlgorithm result" where
  "parseHashAlgo s =
     (case parseHashAlgoOpt s of
        Some h \<Rightarrow> Inr h
      | None \<Rightarrow> Inl (UsageError ''unknown hash algorithm''))"

fun printHashFormat :: "HashFormat \<Rightarrow> string" where
  "printHashFormat Base64 = ''base64''"
| "printHashFormat Nix32 = ''nix32''"
| "printHashFormat Base16 = ''base16''"
| "printHashFormat SRI = ''sri''"

definition parseHashFormatOpt :: "string \<Rightarrow> HashFormat option" where
  "parseHashFormatOpt s =
     (if s = ''base16'' then Some Base16
      else if s = ''nix32'' then Some Nix32
      else if s = ''base32'' then Some Nix32
      else if s = ''base64'' then Some Base64
      else if s = ''sri'' then Some SRI
      else None)"

definition parseHashFormat :: "string \<Rightarrow> HashFormat result" where
  "parseHashFormat s =
     (case parseHashFormatOpt s of
        Some f \<Rightarrow> Inr f
      | None \<Rightarrow> Inl (UsageError ''unknown hash format''))"

section \<open>Construction and comparison\<close>

definition maxHashSize :: nat where
  "maxHashSize = 64"

definition Hash_zero :: "xp set \<Rightarrow> HashAlgorithm \<Rightarrow> Hash result" where
  "Hash_zero feats ha =
     rbind (if ha = BLAKE3 then require feats BLAKE3Hashes else Inr ()) (\<lambda>_.
     rbind (assert_that (regularHashSize ha \<le> maxHashSize) ''hashSize <= maxHashSize'') (\<lambda>_.
       Inr \<lparr>hashSize = regularHashSize ha, hash = replicate maxHashSize 0, algo = ha\<rparr>))"

definition Hash_eq :: "Hash \<Rightarrow> Hash \<Rightarrow> bool" where
  "Hash_eq h1 h2 =
     (if hashSize h1 \<noteq> hashSize h2 then False
      else list_all (\<lambda>i. hash h1 ! i = hash h2 ! i) [0..<hashSize h1])"

fun hash_bytes_cmp :: "u8 list \<Rightarrow> u8 list \<Rightarrow> nat list \<Rightarrow> ordering" where
  "hash_bytes_cmp h1 h2 [] = Equal"
| "hash_bytes_cmp h1 h2 (i # is) =
     (case cmp3 (h1 ! i) (h2 ! i) of Equal \<Rightarrow> hash_bytes_cmp h1 h2 is | c \<Rightarrow> c)"

definition Hash_cmp :: "Hash \<Rightarrow> Hash \<Rightarrow> ordering" where
  "Hash_cmp h1 h2 =
     (case cmp3 (hashSize h1) (hashSize h2) of
        Equal \<Rightarrow>
          (case hash_bytes_cmp (hash h1) (hash h2) [0..<hashSize h1] of
             Equal \<Rightarrow> cmp3 (algo_char (algo h1)) (algo_char (algo h2))
           | c \<Rightarrow> c)
      | c \<Rightarrow> c)"

section \<open>Printing\<close>

definition base16Len :: "Hash \<Rightarrow> nat" where
  "base16Len h = hashSize h * 2"

definition base32Len :: "Hash \<Rightarrow> nat" where
  "base32Len h = (hashSize h * 8 - 1) div 5 + 1"

definition base64Len :: "Hash \<Rightarrow> nat" where
  "base64Len h = (4 * hashSize h div 3 + 3) div 4 * 4"

definition base16Chars :: string where
  "base16Chars = ''0123456789abcdef''"

definition printHash16 :: "Hash \<Rightarrow> string" where
  "printHash16 h =
     concat (map (\<lambda>i. [base16Chars ! unat (drop_bit 4 (hash h ! i)), base16Chars ! unat (hash h ! i AND 0x0f)])
       [0..<hashSize h])"

definition nix32Chars :: string where
  "nix32Chars = ''0123456789abcdfghijklmnpqrsvwxyz''"

definition nix32_digit :: "Hash \<Rightarrow> nat \<Rightarrow> u8" where
  "nix32_digit h n =
     (let b = n * 5; i = b div 8; j = b mod 8;
          c = drop_bit j (hash h ! i) OR (if i \<ge> hashSize h - 1 then 0 else push_bit (8 - j) (hash h ! (i + 1)))
      in c AND 0x1f)"

definition printHash32 :: "Hash \<Rightarrow> string result" where
  "printHash32 h =
     rbind (assert_that (hashSize h \<noteq> 0) ''hash.hashSize'') (\<lambda>_.
     rbind (assert_that (base32Len h \<noteq> 0) ''len'') (\<lambda>_.
       Inr (map (\<lambda>n. nix32Chars ! unat (nix32_digit h n)) (rev [0..<base32Len h]))))"

definition digest_string :: "Hash \<Rightarrow> string" where
  "digest_string h = map char_of_byte (take (hashSize h) (hash h))"

definition to_string :: "Hash \<Rightarrow> HashFormat \<Rightarrow> bool \<Rightarrow> string result" where
  "to_string h hashFormat includeAlgo =
     (let s = (if hashFormat = SRI \<or> includeAlgo
               then printHashAlgo (algo h) @ (if hashFormat = SRI then ''-'' else '':'')
               else [])
      in case hashFormat of
           Base16 \<Rightarrow> Inr (s @ printHash16 h)
         | Nix32 \<Rightarrow> rbind (printHash32 h) (\<lambda>t. Inr (s @ t))
         | Base64 \<Rightarrow> Inr (s @ base64Encode (digest_string h))
         | SRI \<Rightarrow> Inr (s @ base64Encode (digest_string h)))"

definition printHash16or32 :: "Hash \<Rightarrow> string result" where
  "printHash16or32 h =
     rbind (assert_that (algo_char (algo h) \<noteq> 0) ''static_cast<char>(hash.algo)'') (\<lambda>_.
       to_string h (if algo h = MD5 then Base16 else Nix32) False)"

section \<open>Parsing\<close>

definition parseHexDigit :: "char \<Rightarrow> u8 result" where
  "parseHexDigit c =
     (if CHR ''0'' \<le> c \<and> c \<le> CHR ''9'' then Inr (byte_of_char c - byte_of_char (CHR ''0''))
      else if CHR ''A'' \<le> c \<and> c \<le> CHR ''F'' then Inr (byte_of_char c - byte_of_char (CHR ''A'') + 10)
      else if CHR ''a'' \<le> c \<and> c \<le> CHR ''f'' then Inr (byte_of_char c - byte_of_char (CHR ''a'') + 10)
      else Inl (BadHash ''invalid base-16 hash''))"

fun parse16_loop :: "string \<Rightarrow> nat list \<Rightarrow> u8 list \<Rightarrow> u8 list result" where
  "parse16_loop rest [] h = Inr h"
| "parse16_loop rest (i # is) h =
     rbind (parseHexDigit (rest ! (i * 2))) (\<lambda>x.
     rbind (parseHexDigit (rest ! (i * 2 + 1))) (\<lambda>y.
       parse16_loop rest is (h[i := push_bit 4 x OR y])))"

definition nix32_index :: "char \<Rightarrow> nat" where
  "nix32_index c = length (takeWhile (\<lambda>d. d \<noteq> c) nix32Chars)"

fun parse32_loop :: "string \<Rightarrow> nat \<Rightarrow> nat list \<Rightarrow> u8 list \<Rightarrow> u8 list result" where
  "parse32_loop rest sz [] h = Inr h"
| "parse32_loop rest sz (n # ns) h =
     (let c = rest ! (length rest - n - 1);
          digit = nix32_index c
      in if digit \<ge> 32 then Inl (BadHash ''invalid base-32 hash'')
         else
           let digit = word_of_nat digit :: u8; b = n * 5; i = b div 8; j = b mod 8;
               h = h[i := h ! i OR push_bit j digit]
           in if i < sz - 1 then parse32_loop rest sz ns (h[i + 1 := h ! (i + 1) OR drop_bit (8 - j) digit])
              else if drop_bit (8 - j) digit \<noteq> 0 then Inl (BadHash ''invalid base-32 hash'')
              else parse32_loop rest sz ns h)"

text \<open>
  The private constructor. The handler of the Base64 branch adds a trace to the exception and
  does not throw it again, so a string that does not decode counts as an empty one.
\<close>

definition Hash_parse :: "xp set \<Rightarrow> string \<Rightarrow> HashAlgorithm \<Rightarrow> bool \<Rightarrow> Hash result" where
  "Hash_parse feats rest ha isSRI =
     rbind (Hash_zero feats ha) (\<lambda>h.
       if \<not> isSRI \<and> length rest = base16Len h then
         rbind (parse16_loop rest [0..<hashSize h] (hash h)) (\<lambda>bytes. Inr (h\<lparr>hash := bytes\<rparr>))
       else if \<not> isSRI \<and> length rest = base32Len h then
         rbind (parse32_loop rest (hashSize h) [0..<length rest] (hash h)) (\<lambda>bytes. Inr (h\<lparr>hash := bytes\<rparr>))
       else if isSRI \<or> length rest = base64Len h then
         (let d = (case base64Decode rest of Inr d \<Rightarrow> d | Inl e \<Rightarrow> []) in
          if length d \<noteq> hashSize h then Inl (BadHash ''invalid hash'')
          else rbind (assert_that (hashSize h \<noteq> 0) ''hashSize'') (\<lambda>_.
            Inr (h\<lparr>hash := map byte_of_char d @ drop (hashSize h) (hash h)\<rparr>)))
       else Inl (BadHash ''hash has wrong length for hash algorithm''))"

definition parseSRI :: "xp set \<Rightarrow> string \<Rightarrow> Hash result" where
  "parseSRI feats original =
     (case splitPrefixTo original (CHR ''-'') of
        (None, _) \<Rightarrow> Inl (BadHash ''hash is not SRI'')
      | (Some hashRaw, rest) \<Rightarrow> rbind (parseHashAlgo hashRaw) (\<lambda>parsedType. Hash_parse feats rest parsedType True))"

definition getParsedTypeAndSRI :: "string \<Rightarrow> (HashAlgorithm option \<times> bool \<times> string) result" where
  "getParsedTypeAndSRI rest =
     (let (hashRaw, rest) = splitPrefixTo rest (CHR '':'');
          (hashRaw, isSRI, rest) =
            (if hashRaw = None
             then (case splitPrefixTo rest (CHR ''-'') of (hashRaw, rest) \<Rightarrow> (hashRaw, hashRaw \<noteq> None, rest))
             else (hashRaw, False, rest))
      in case hashRaw of
           None \<Rightarrow> Inr (None, isSRI, rest)
         | Some raw \<Rightarrow> rbind (parseHashAlgo raw) (\<lambda>ha. Inr (Some ha, isSRI, rest)))"

definition parseAnyPrefixed :: "xp set \<Rightarrow> string \<Rightarrow> Hash result" where
  "parseAnyPrefixed feats original =
     rbind (getParsedTypeAndSRI original) (\<lambda>(optParsedType, isSRI, rest).
       case optParsedType of
         None \<Rightarrow> Inl (BadHash ''hash does not include a type'')
       | Some ha \<Rightarrow> Hash_parse feats rest ha isSRI)"

definition parseAny :: "xp set \<Rightarrow> string \<Rightarrow> HashAlgorithm option \<Rightarrow> Hash result" where
  "parseAny feats original optAlgo =
     rbind (getParsedTypeAndSRI original) (\<lambda>(optParsedType, isSRI, rest).
       case (optParsedType, optAlgo) of
         (None, None) \<Rightarrow> Inl (BadHash ''hash does not include a type, nor is the type otherwise known from context'')
       | (Some p, Some a) \<Rightarrow>
           if p \<noteq> a then Inl (BadHash ''hash should have type'') else Hash_parse feats rest p isSRI
       | (Some p, None) \<Rightarrow> Hash_parse feats rest p isSRI
       | (None, Some a) \<Rightarrow> Hash_parse feats rest a isSRI)"

definition parseNonSRIUnprefixed :: "xp set \<Rightarrow> string \<Rightarrow> HashAlgorithm \<Rightarrow> Hash result" where
  "parseNonSRIUnprefixed feats s ha = Hash_parse feats s ha False"

definition newHashAllowEmpty :: "xp set \<Rightarrow> string \<Rightarrow> HashAlgorithm option \<Rightarrow> Hash result" where
  "newHashAllowEmpty feats hashStr ha =
     (if hashStr = [] then
        (case ha of
           None \<Rightarrow> Inl (BadHash ''empty hash requires explicit hash algorithm'')
         | Some ha \<Rightarrow> Hash_zero feats ha)
      else parseAny feats hashStr ha)"

text \<open>\<^verbatim>\<open>compressHash\<close>: a new size of 0 would divide by zero.\<close>

definition compressHash :: "xp set \<Rightarrow> Hash \<Rightarrow> nat \<Rightarrow> Hash result" where
  "compressHash feats h newSize =
     rbind (Hash_zero feats (algo h)) (\<lambda>z.
       if newSize = 0 \<and> hashSize h \<noteq> 0 then Inl (UndefinedBehaviour ''division by zero'')
       else Inr (z\<lparr>hashSize := newSize,
         hash := foldl (\<lambda>b i. b[i mod newSize := b ! (i mod newSize) XOR hash h ! i]) (hash z) [0..<hashSize h]\<rparr>))"


section \<open>Well-formed hashes\<close>

definition hash_ok :: "Hash \<Rightarrow> bool" where
  "hash_ok h \<longleftrightarrow> hashSize h = regularHashSize (algo h) \<and> length (hash h) = maxHashSize \<and>
     drop (hashSize h) (hash h) = replicate (maxHashSize - hashSize h) 0"

definition algo_enabled :: "xp set \<Rightarrow> HashAlgorithm \<Rightarrow> bool" where
  "algo_enabled feats ha \<longleftrightarrow> ha = BLAKE3 \<longrightarrow> BLAKE3Hashes \<in> feats"

lemma regularHashSize_bounds [simp]: "0 < regularHashSize ha" "regularHashSize ha \<le> 64"
  by (cases ha; simp)+

lemma regularHashSize_max [simp]: "regularHashSize ha \<le> maxHashSize"
  by (simp add: maxHashSize_def)

lemma regularHashSize_neq_0 [simp]: "regularHashSize ha \<noteq> 0"
  by (cases ha) simp_all

lemma Hash_zero_eq:
  "algo_enabled feats ha \<Longrightarrow>
     Hash_zero feats ha = Inr \<lparr>hashSize = regularHashSize ha, hash = replicate maxHashSize 0, algo = ha\<rparr>"
  by (auto simp: Hash_zero_def algo_enabled_def require_def maxHashSize_def)

lemma Hash_zero_Inr:
  "Hash_zero feats ha = Inr h \<longleftrightarrow>
     algo_enabled feats ha \<and> h = \<lparr>hashSize = regularHashSize ha, hash = replicate maxHashSize 0, algo = ha\<rparr>"
  by (auto simp: Hash_zero_def algo_enabled_def require_def maxHashSize_def)

lemma hash_ok_eqI:
  assumes "hash_ok h" "hash_ok h'" "algo h = algo h'" "take (hashSize h) (hash h) = take (hashSize h) (hash h')"
  shows "h = h'"
proof -
  have "hash h = hash h'"
    using assms unfolding hash_ok_def by (metis append_take_drop_id)
  with assms show ?thesis by (simp add: hash_ok_def)
qed

lemma hash_ok_split:
  "hash_ok h \<Longrightarrow> take (hashSize h) (hash h) @ replicate (maxHashSize - hashSize h) 0 = hash h"
  unfolding hash_ok_def by (metis append_take_drop_id)

section \<open>Base 16\<close>

lemma parse16_loop_eq:
  assumes "\<And>i. i \<in> set is \<Longrightarrow> parseHexDigit (rest ! (i * 2)) = Inr (x i)"
    and "\<And>i. i \<in> set is \<Longrightarrow> parseHexDigit (rest ! (i * 2 + 1)) = Inr (y i)"
  shows "parse16_loop rest is h = Inr (foldl (\<lambda>h i. h[i := push_bit 4 (x i) OR y i]) h is)"
  using assms by (induction "is" arbitrary: h) auto

lemma foldl_update_upto:
  "n \<le> length h \<Longrightarrow> foldl (\<lambda>h i. h[i := f i]) h [0..<n] = map f [0..<n] @ drop n h"
proof (induction n)
  case (Suc n)
  then have "drop n h = h ! n # drop (Suc n) h" by (simp add: Cons_nth_drop_Suc)
  with Suc show ?case by (simp add: list_update_append)
qed simp

lemma nth_pairs:
  "i < n \<Longrightarrow> concat (map (\<lambda>i. [f i, g i]) [0..<n]) ! (i * 2) = f i"
  "i < n \<Longrightarrow> concat (map (\<lambda>i. [f i, g i]) [0..<n]) ! (i * 2 + 1) = g i"
proof -
  have len: "length (concat (map (\<lambda>i. [f i, g i]) [0..<n])) = n * 2" for n by (induction n) auto
  show "concat (map (\<lambda>i. [f i, g i]) [0..<n]) ! (i * 2) = f i" if "i < n"
    using that
  proof (induction n)
    case (Suc n)
    then show ?case by (cases "i = n") (simp_all add: nth_append len)
  qed simp
  show "concat (map (\<lambda>i. [f i, g i]) [0..<n]) ! (i * 2 + 1) = g i" if "i < n"
    using that
  proof (induction n)
    case (Suc n)
    then show ?case by (cases "i = n") (auto simp: nth_append len)
  qed simp
qed

lemma length_printHash16 [simp]: "length (printHash16 h) = base16Len h"
  by (simp add: printHash16_def base16Len_def length_concat comp_def sum_list_triv)

lemma parseHexDigit_base16Chars:
  assumes "x < 16"
  shows "parseHexDigit (base16Chars ! x) = Inr (word_of_nat x)"
proof -
  have "list_all (\<lambda>x. parseHexDigit (base16Chars ! x) = Inr (word_of_nat x)) [0..<16]" by code_simp
  with assms show ?thesis by (simp add: list_all_iff)
qed

lemma nibble_less: "unat (drop_bit 4 (b :: u8)) < 16" "unat (b AND 0x0f :: u8) < 16"
proof -
  have "b AND 0x0f \<le> 0x0f" by (rule word_and_le1)
  then show "unat (b AND 0x0f) < 16" by (simp add: word_le_nat_alt)
  have "unat b < 256" using unsigned_less [of b] by simp
  then show "unat (drop_bit 4 b) < 16" by (subst unat_drop_bit_eq) (simp add: drop_bit_eq_div)
qed

lemma nibbles: "push_bit 4 (drop_bit 4 b) OR (b AND 0x0f) = (b :: u8)"
proof (rule byte_eqI)
  fix k :: nat
  assume "k < 8"
  have m: "(0x0f :: u8) = mask 4" by (simp add: mask_eq_exp_minus_1)
  show "bit (push_bit 4 (drop_bit 4 b) OR (b AND 0x0f)) k = bit b k"
    using \<open>k < 8\<close> unfolding m by (auto simp: bit_simps)
qed

lemma parse16_print:
  assumes "hashSize h \<le> length z"
  shows "parse16_loop (printHash16 h) [0..<hashSize h] z = Inr (map (\<lambda>i. hash h ! i) [0..<hashSize h] @ drop (hashSize h) z)"
proof -
  have "parse16_loop (printHash16 h) [0..<hashSize h] z =
      Inr (foldl (\<lambda>z i. z[i := push_bit 4 (drop_bit 4 (hash h ! i)) OR (hash h ! i AND 0x0f)]) z [0..<hashSize h])"
  proof (rule parse16_loop_eq)
    fix i
    assume "i \<in> set [0..<hashSize h]"
    then have i: "i < hashSize h" by simp
    show "parseHexDigit (printHash16 h ! (i * 2)) = Inr (drop_bit 4 (hash h ! i))"
      "parseHexDigit (printHash16 h ! (i * 2 + 1)) = Inr (hash h ! i AND 0x0f)"
      using nibble_less unfolding printHash16_def nth_pairs [OF i] by (simp_all add: parseHexDigit_base16Chars)
  qed
  then show ?thesis using assms by (simp only: foldl_update_upto nibbles)
qed


section \<open>Base 32\<close>

text \<open>Bit \<open>m\<close> of an array of bytes, the low bits first.\<close>

definition hbit :: "u8 list \<Rightarrow> nat \<Rightarrow> bool" where
  "hbit h m = bit (h ! (m div 8)) (m mod 8)"

definition parsed_digit :: "string \<Rightarrow> nat \<Rightarrow> u8" where
  "parsed_digit rest n = word_of_nat (nix32_index (rest ! (length rest - n - 1)))"

definition digit_fits :: "string \<Rightarrow> nat \<Rightarrow> nat \<Rightarrow> bool" where
  "digit_fits rest sz n \<longleftrightarrow> nix32_index (rest ! (length rest - n - 1)) < 32 \<and>
     (\<forall>k < 8. bit (parsed_digit rest n) k \<longrightarrow> n * 5 + k < sz * 8)"

lemma nix32_index_bound: "nix32_index c \<le> 32"
proof -
  have "length nix32Chars = 32" by (simp add: nix32Chars_def)
  then show ?thesis using length_takeWhile_le [of "\<lambda>d. d \<noteq> c" nix32Chars] by (simp add: nix32_index_def)
qed

lemma hbit_update:
  assumes "i < length h"
  shows "hbit (h[i := h ! i OR w]) m = (hbit h m \<or> m div 8 = i \<and> bit w (m mod 8))"
  using assms by (auto simp: hbit_def bit_simps nth_list_update)

lemma bit_digit_high:
  assumes "x < 32" "5 \<le> k"
  shows "\<not> bit (word_of_nat x :: u8) k"
proof -
  have "take_bit 5 (word_of_nat x :: u8) = word_of_nat x"
    using assms(1) by (simp add: take_bit_of_nat take_bit_nat_eq_self)
  then show ?thesis using assms(2) by (metis bit_take_bit_iff not_less)
qed

text \<open>The effect of one digit on the array.\<close>

definition absorb :: "string \<Rightarrow> nat \<Rightarrow> nat \<Rightarrow> u8 list \<Rightarrow> u8 list" where
  "absorb rest sz n h =
     (let i = n * 5 div 8; j = n * 5 mod 8; d = parsed_digit rest n; h = h[i := h ! i OR push_bit j d] in
      if i < sz - 1 then h[i + 1 := h ! (i + 1) OR drop_bit (8 - j) d] else h)"

lemma parse32_step:
  assumes n: "n * 5 < sz * 8" and sz: "sz \<le> length h"
  shows "parse32_loop rest sz (n # ns) h =
    (if digit_fits rest sz n then
       parse32_loop rest sz ns
         (absorb rest sz n h)
     else Inl (BadHash ''invalid base-32 hash''))"
proof -
  define i where "i = n * 5 div 8"
  define j where "j = n * 5 mod 8"
  define d where "d = parsed_digit rest n"
  have b: "n * 5 = i * 8 + j" "j < 8" by (simp_all add: i_def j_def)
  have small: "digit_fits rest sz n \<longleftrightarrow> nix32_index (rest ! (length rest - n - 1)) < 32"
    if "i < sz - 1"
  proof -
    have "n * 5 + k < sz * 8" if "nix32_index (rest ! (length rest - n - 1)) < 32" "bit d k" for k
    proof -
      have "k < 5" using that bit_digit_high [of _ k] unfolding d_def parsed_digit_def by (meson not_less)
      moreover have "i * 8 + 16 \<le> sz * 8" using \<open>i < sz - 1\<close> by linarith
      ultimately show ?thesis using b by linarith
    qed
    then show ?thesis by (auto simp: digit_fits_def d_def)
  qed
  have last: "digit_fits rest sz n \<longleftrightarrow>
      nix32_index (rest ! (length rest - n - 1)) < 32 \<and> drop_bit (8 - j) d = 0" if "\<not> i < sz - 1"
  proof -
    have "i < sz" using n b by linarith
    with that have "sz = i + 1" by simp
    then have "sz * 8 = i * 8 + 8" by simp
    then have "(\<forall>k < 8. bit d k \<longrightarrow> n * 5 + k < sz * 8) \<longleftrightarrow> (\<forall>k < 8. bit d k \<longrightarrow> k < 8 - j)"
      using b by auto
    also have "\<dots> \<longleftrightarrow> drop_bit (8 - j) d = 0"
    proof
      assume *: "\<forall>k < 8. bit d k \<longrightarrow> k < 8 - j"
      show "drop_bit (8 - j) d = 0"
      proof (rule byte_eqI)
        fix k :: nat
        assume "k < 8"
        show "bit (drop_bit (8 - j) d) k = bit 0 k"
          using * by (cases "8 - j + k < 8") (auto simp: bit_simps)
      qed
    next
      assume z: "drop_bit (8 - j) d = 0"
      show "\<forall>k < 8. bit d k \<longrightarrow> k < 8 - j"
      proof (intro allI impI)
        fix k :: nat
        assume "k < 8" "bit d k"
        show "k < 8 - j"
        proof (rule ccontr)
          assume "\<not> k < 8 - j"
          then have "bit (drop_bit (8 - j) d) (k - (8 - j))" using \<open>bit d k\<close> by (simp add: bit_simps)
          with z show False by simp
        qed
      qed
    qed
    finally show ?thesis by (simp add: digit_fits_def d_def)
  qed
  show ?thesis
    using small last
    by (cases "i < sz - 1") (simp_all add: absorb_def Let_def i_def [symmetric] j_def [symmetric] d_def parsed_digit_def not_less)
qed


lemma div_mod_8: "(m :: nat) = q * 8 + r \<Longrightarrow> r < 8 \<Longrightarrow> m div 8 = q \<and> m mod 8 = r"
  by simp

lemma digit_position:
  fixes m n i j :: nat and P :: "nat \<Rightarrow> bool"
  assumes b: "n * 5 = i * 8 + j" "j < 8" and P: "\<And>k. P k \<Longrightarrow> k < 5"
  shows "(m div 8 = i \<and> j \<le> m mod 8 \<and> P (m mod 8 - j)) \<or> (m div 8 = i + 1 \<and> P (8 - j + m mod 8)) \<longleftrightarrow>
      m div 5 = n \<and> P (m mod 5)" (is "?l \<longleftrightarrow> ?r")
proof
  have mm: "m = m div 8 * 8 + m mod 8" "m mod 8 < 8" by simp_all
  assume ?l
  then have "\<exists>k. P k \<and> m = n * 5 + k"
  proof
    assume *: "m div 8 = i \<and> j \<le> m mod 8 \<and> P (m mod 8 - j)"
    then have "m = n * 5 + (m mod 8 - j)" using mm b by linarith
    with * show ?thesis by blast
  next
    assume *: "m div 8 = i + 1 \<and> P (8 - j + m mod 8)"
    then have "m = n * 5 + (8 - j + m mod 8)" using mm b by linarith
    with * show ?thesis by blast
  qed
  then show ?r using P by auto
next
  assume r: ?r
  have m5: "m = m div 5 * 5 + m mod 5" "m mod 5 < 5" by simp_all
  with r b have eq: "m = i * 8 + (j + m mod 5)" by linarith
  show ?l
  proof (cases "j + m mod 5 < 8")
    case True
    with div_mod_8 [OF eq] r show ?thesis by simp
  next
    case False
    then have "i * 8 + (j + m mod 5) = (i + 1) * 8 + (j + m mod 5 - 8)" by simp
    with eq have "m = (i + 1) * 8 + (j + m mod 5 - 8)" by (rule trans)
    moreover have "j + m mod 5 - 8 < 8" using b m5 by linarith
    ultimately have "m div 8 = i + 1 \<and> m mod 8 = j + m mod 5 - 8" by (rule div_mod_8)
    with r False b show ?thesis by simp
  qed
qed

lemma parse32_step_bits:
  assumes n: "n * 5 < sz * 8" and sz: "sz \<le> length h" and fits: "digit_fits rest sz n" and m: "m < sz * 8"
  shows "hbit (absorb rest sz n h) m = (hbit h m \<or> m div 5 = n \<and> bit (parsed_digit rest n) (m mod 5))"
proof -
  define i where "i = n * 5 div 8"
  define j where "j = n * 5 mod 8"
  define d where "d = parsed_digit rest n"
  have b: "n * 5 = i * 8 + j" "j < 8" by (simp_all add: i_def j_def)
  have i: "i < sz" using n b by linarith
  have d5: "bit d k \<Longrightarrow> k < 5" for k
    using fits bit_digit_high [of _ k] unfolding digit_fits_def d_def parsed_digit_def by (meson not_less)
  have lo: "(m div 8 = i \<and> bit (push_bit j d) (m mod 8)) \<longleftrightarrow> m div 8 = i \<and> j \<le> m mod 8 \<and> bit d (m mod 8 - j)"
    using pos_mod_bound by (auto simp: bit_simps)
  have hi: "(m div 8 = i + 1 \<and> bit (drop_bit (8 - j) d) (m mod 8)) \<longleftrightarrow> m div 8 = i + 1 \<and> bit d (8 - j + m mod 8)"
    by (auto simp: bit_simps)
  note one = digit_position [where P = "bit d" and m = m, OF b d5]
  show ?thesis
  proof (cases "i < sz - 1")
    case True
    then have a: "absorb rest sz n h = (h[i := h ! i OR push_bit j d])[i + 1 := h ! (i + 1) OR drop_bit (8 - j) d]"
      by (simp add: absorb_def Let_def i_def j_def d_def)
    have "i + 1 < length h" using True sz by simp
    then have "hbit (absorb rest sz n h) m = (hbit h m \<or> (m div 8 = i \<and> bit (push_bit j d) (m mod 8)) \<or> (m div 8 = i + 1 \<and> bit (drop_bit (8 - j) d) (m mod 8)))"
      using hbit_update [of "i + 1" "h[i := h ! i OR push_bit j d]" "drop_bit (8 - j) d" m] hbit_update [of i h "push_bit j d" m]
      by (simp add: a)
    then show ?thesis using one lo hi by (simp add: d_def)
  next
    case False
    then have a: "absorb rest sz n h = h[i := h ! i OR push_bit j d]"
      by (simp add: absorb_def Let_def i_def j_def d_def)
    have "m div 8 \<noteq> i + 1" using m False i by (simp add: less_mult_imp_div_less)
    then show ?thesis
      using one lo hbit_update [of i h "push_bit j d" m] i sz by (simp add: a d_def)
  qed
qed

lemma absorb_frame:
  assumes "n * 5 < sz * 8"
  shows "length (absorb rest sz n h) = length h" "drop sz (absorb rest sz n h) = drop sz h"
proof -
  have "n * 5 div 8 < sz" using assms by (simp add: less_mult_imp_div_less)
  then show "length (absorb rest sz n h) = length h" "drop sz (absorb rest sz n h) = drop sz h"
    by (auto simp: absorb_def Let_def)
qed

definition parse32_spec :: "string \<Rightarrow> nat \<Rightarrow> nat list \<Rightarrow> u8 list \<Rightarrow> u8 list \<Rightarrow> bool" where
  "parse32_spec rest sz ns h h' \<longleftrightarrow> length h' = length h \<and> drop sz h' = drop sz h \<and>
     (\<forall>m < sz * 8. hbit h' m = (hbit h m \<or> m div 5 \<in> set ns \<and> bit (parsed_digit rest (m div 5)) (m mod 5)))"

lemma parse32_loop_bits:
  assumes "\<forall>n \<in> set ns. n * 5 < sz * 8" "sz \<le> length h"
  shows "if \<forall>n \<in> set ns. digit_fits rest sz n
    then \<exists>h'. parse32_loop rest sz ns h = Inr h' \<and> parse32_spec rest sz ns h h'
    else parse32_loop rest sz ns h = Inl (BadHash ''invalid base-32 hash'')"
  using assms
proof (induction ns arbitrary: h)
  case (Cons n ns)
  have n: "n * 5 < sz * 8" using Cons.prems by simp
  note step = parse32_step [OF n Cons.prems(2), of rest ns] and fr = absorb_frame [OF n, of rest h]
  have IH: "if \<forall>n \<in> set ns. digit_fits rest sz n
    then \<exists>h'. parse32_loop rest sz ns (absorb rest sz n h) = Inr h' \<and> parse32_spec rest sz ns (absorb rest sz n h) h'
    else parse32_loop rest sz ns (absorb rest sz n h) = Inl (BadHash ''invalid base-32 hash'')"
    using Cons.prems fr by (intro Cons.IH) auto
  have "parse32_spec rest sz (n # ns) h h'"
    if "digit_fits rest sz n" "parse32_spec rest sz ns (absorb rest sz n h) h'" for h'
    using that fr parse32_step_bits [OF n Cons.prems(2) that(1)] by (auto simp: parse32_spec_def)
  with IH step show ?case by (auto simp del: parse32_loop.simps split: if_splits)
qed (simp add: parse32_spec_def)

lemma bytes_eqI:
  assumes "length xs = length ys" "\<And>m. m < length xs * 8 \<Longrightarrow> hbit xs m = hbit ys m"
  shows "xs = ys"
proof (rule nth_equalityI)
  fix i
  assume "i < length xs"
  show "xs ! i = ys ! i"
  proof (rule byte_eqI)
    fix k :: nat
    assume "k < 8"
    then have "i * 8 + k < length xs * 8" using \<open>i < length xs\<close> by linarith
    from assms(2) [OF this] \<open>k < 8\<close> show "bit (xs ! i) k = bit (ys ! i) k" by (simp add: hbit_def)
  qed
qed (rule assms(1))

lemma bit_nix32_digit:
  assumes "n * 5 < hashSize h * 8"
  shows "bit (nix32_digit h n) k \<longleftrightarrow> k < 5 \<and> n * 5 + k < hashSize h * 8 \<and> hbit (hash h) (n * 5 + k)"
proof -
  define i where "i = n * 5 div 8"
  define j where "j = n * 5 mod 8"
  have b: "n * 5 = i * 8 + j" "j < 8" by (simp_all add: i_def j_def)
  have i: "i < hashSize h" using assms b by linarith
  have m5: "(0x1f :: u8) = mask 5" by (simp add: mask_eq_exp_minus_1)
  have "bit (nix32_digit h n) k \<longleftrightarrow> k < 5 \<and>
     (bit (hash h ! i) (j + k) \<or> i < hashSize h - 1 \<and> 8 - j \<le> k \<and> bit (hash h ! (i + 1)) (k - (8 - j)))"
    unfolding nix32_digit_def Let_def i_def [symmetric] j_def [symmetric] m5
    by (auto simp: bit_simps)
  also have "\<dots> \<longleftrightarrow> k < 5 \<and> n * 5 + k < hashSize h * 8 \<and> hbit (hash h) (n * 5 + k)"
  proof (cases "j + k < 8")
    case True
    have "i * 8 + (j + k) < hashSize h * 8" using True i by linarith
    with True div_mod_8 [of "i * 8 + (j + k)" i "j + k"] show ?thesis
      by (auto simp: hbit_def b add.assoc)
  next
    case False
    have "i * 8 + (j + k) = (i + 1) * 8 + (j + k - 8)" using False by simp
    moreover have "k - (8 - j) = j + k - 8" using False b by simp
    moreover have "i * 8 + (j + k) < hashSize h * 8 \<longleftrightarrow> i < hashSize h - 1" if "k < 5"
      using False b that i by linarith
    ultimately show ?thesis
      using False div_mod_8 [of "i * 8 + (j + k)" "i + 1" "j + k - 8"] b by (auto simp: hbit_def add.assoc)
  qed
  finally show ?thesis .
qed


lemma base32Len_bound: "n < base32Len h \<Longrightarrow> 0 < hashSize h \<Longrightarrow> n * 5 < hashSize h * 8"
  unfolding base32Len_def by linarith

lemma base32Len_cover: "m < hashSize h * 8 \<Longrightarrow> m div 5 < base32Len h"
proof -
  assume "m < hashSize h * 8"
  then have "m \<le> hashSize h * 8 - 1" by simp
  then have "m div 5 \<le> (hashSize h * 8 - 1) div 5" by (rule div_le_mono)
  then show ?thesis by (simp add: base32Len_def)
qed

lemma nix32_index_nix32Chars:
  assumes "x < 32"
  shows "nix32_index (nix32Chars ! x) = x"
proof -
  have "list_all (\<lambda>x. nix32_index (nix32Chars ! x) = x) [0..<32]" by code_simp
  with assms show ?thesis by (simp add: list_all_iff)
qed

lemma nix32Chars_nix32_index:
  assumes "nix32_index c < 32"
  shows "nix32Chars ! nix32_index c = c"
proof -
  have "length (takeWhile (\<lambda>d. d \<noteq> c) nix32Chars) < length nix32Chars"
    using assms by (simp add: nix32_index_def nix32Chars_def)
  from nth_length_takeWhile [OF this] show ?thesis by (simp add: nix32_index_def)
qed

lemma nix32_digit_less: "unat (nix32_digit h n) < 32"
proof -
  have "nix32_digit h n \<le> 0x1f" unfolding nix32_digit_def Let_def by (rule word_and_le1)
  then show ?thesis by (simp add: word_le_nat_alt)
qed

definition print32 :: "Hash \<Rightarrow> string" where
  "print32 h = map (\<lambda>n. nix32Chars ! unat (nix32_digit h n)) (rev [0..<base32Len h])"

lemma printHash32_eq: "0 < hashSize h \<Longrightarrow> printHash32 h = Inr (print32 h)"
  by (simp add: printHash32_def print32_def base32Len_def)

lemma length_print32 [simp]: "length (print32 h) = base32Len h"
  by (simp add: print32_def)

lemma print32_nth: "n < base32Len h \<Longrightarrow> print32 h ! (base32Len h - Suc n) = nix32Chars ! unat (nix32_digit h n)"
  by (simp add: print32_def rev_nth nth_map)

lemma parsed_print32:
  assumes "n < base32Len h"
  shows "parsed_digit (print32 h) n = nix32_digit h n"
  using assms by (simp add: parsed_digit_def print32_nth nix32_index_nix32Chars nix32_digit_less)

lemma hbit_zero [simp]: "m < k * 8 \<Longrightarrow> hbit (replicate k 0) m = False"
  by (simp add: hbit_def less_mult_imp_div_less)

lemma hbit_take: "m < sz * 8 \<Longrightarrow> hbit (take sz h) m = hbit h m"
  by (simp add: hbit_def less_mult_imp_div_less)

text \<open>What printing and parsing need of a hash; compressed hashes have it too.\<close>

definition hash_sized :: "Hash \<Rightarrow> bool" where
  "hash_sized h \<longleftrightarrow> 0 < hashSize h \<and> hashSize h \<le> maxHashSize \<and> length (hash h) = maxHashSize \<and>
     drop (hashSize h) (hash h) = replicate (maxHashSize - hashSize h) 0"

lemma hash_ok_sized: "hash_ok h \<Longrightarrow> hash_sized h"
  by (auto simp: hash_ok_def hash_sized_def)

lemma parse32_print:
  assumes "hash_sized h"
  shows "parse32_loop (print32 h) (hashSize h) [0..<base32Len h] (replicate maxHashSize 0) = Inr (hash h)"
proof -
  have sz: "0 < hashSize h" "hashSize h \<le> 64" using assms by (simp_all add: hash_sized_def maxHashSize_def)
  have fits: "digit_fits (print32 h) (hashSize h) n" if n: "n < base32Len h" for n
  proof -
    have "nix32_index (print32 h ! (length (print32 h) - n - 1)) < 32"
      using n by (simp add: print32_nth nix32_index_nix32Chars nix32_digit_less)
    then show ?thesis
      using bit_nix32_digit [OF base32Len_bound [OF n sz(1)]] by (simp add: digit_fits_def parsed_print32 [OF n])
  qed
  have "\<forall>n \<in> set [0..<base32Len h]. n * 5 < hashSize h * 8" using base32Len_bound sz by auto
  from parse32_loop_bits [OF this, of "replicate maxHashSize 0" "print32 h"] fits sz
  obtain b where b: "parse32_loop (print32 h) (hashSize h) [0..<base32Len h] (replicate maxHashSize 0) = Inr b"
    "parse32_spec (print32 h) (hashSize h) [0..<base32Len h] (replicate maxHashSize 0) b"
    by (auto simp: maxHashSize_def)
  have "take (hashSize h) b = take (hashSize h) (hash h)"
  proof (rule bytes_eqI)
    fix m
    assume "m < length (take (hashSize h) b) * 8"
    then have m: "m < hashSize h * 8" "m < 64 * 8" using sz by (simp_all add: min_def split: if_splits)
    have "hbit b m = bit (nix32_digit h (m div 5)) (m mod 5)"
      using b(2) m base32Len_cover [OF m(1)] by (simp add: parse32_spec_def maxHashSize_def parsed_print32)
    also have "\<dots> = hbit (hash h) m"
      using bit_nix32_digit [OF base32Len_bound [OF base32Len_cover [OF m(1)] sz(1)]] m by simp
    finally show "hbit (take (hashSize h) b) m = hbit (take (hashSize h) (hash h)) m"
      using m by (simp add: hbit_take)
  qed (use assms b in \<open>simp add: hash_sized_def parse32_spec_def\<close>)
  moreover have "drop (hashSize h) b = drop (hashSize h) (hash h)"
    using b(2) assms unfolding parse32_spec_def hash_sized_def drop_replicate by metis
  ultimately have "b = hash h" by (metis append_take_drop_id)
  with b(1) show ?thesis by simp
qed

lemma print32_inject:
  assumes "hash_sized h" "hash_sized h'" "hashSize h = hashSize h'" "print32 h = print32 h'"
  shows "hash h = hash h'"
proof -
  have "base32Len h = base32Len h'" using assms(3) by (simp add: base32Len_def)
  then have "Inr (hash h) = (Inr (hash h') :: u8 list result)"
    using parse32_print [OF assms(1)] parse32_print [OF assms(2)] assms(3,4) by metis
  then show ?thesis by simp
qed

lemma print32_parse:
  assumes h: "hashSize h = regularHashSize (algo h)" and len: "length rest = base32Len h"
    and parse: "parse32_loop rest (hashSize h) [0..<length rest] (replicate maxHashSize 0) = Inr b"
  shows "print32 (h\<lparr>hash := b\<rparr>) = rest \<and> length b = maxHashSize \<and>
    drop (hashSize h) b = replicate (maxHashSize - hashSize h) 0"
proof -
  have sz: "0 < hashSize h" "hashSize h \<le> 64" using h by simp_all
  have ns: "\<forall>n \<in> set [0..<length rest]. n * 5 < hashSize h * 8" using base32Len_bound sz len by auto
  have fits: "\<forall>n \<in> set [0..<length rest]. digit_fits rest (hashSize h) n"
    and spec: "parse32_spec rest (hashSize h) [0..<length rest] (replicate maxHashSize 0) b"
    using parse32_loop_bits [OF ns, of "replicate maxHashSize 0" rest] parse sz
    by (auto simp: maxHashSize_def split: if_splits)
  have digit: "nix32_digit (h\<lparr>hash := b\<rparr>) n = parsed_digit rest n" if n: "n < length rest" for n
  proof (rule byte_eqI)
    fix k :: nat
    assume "k < 8"
    have f: "digit_fits rest (hashSize h) n" using fits n by simp
    then have k5: "bit (parsed_digit rest n) k \<Longrightarrow> k < 5"
      using bit_digit_high [of _ k] unfolding digit_fits_def parsed_digit_def by (meson not_less)
    have "n * 5 < hashSize h * 8" using ns n by simp
    then have "bit (nix32_digit (h\<lparr>hash := b\<rparr>) n) k \<longleftrightarrow> k < 5 \<and> n * 5 + k < hashSize h * 8 \<and> hbit b (n * 5 + k)"
      using bit_nix32_digit [of n "h\<lparr>hash := b\<rparr>" k] by simp
    also have "\<dots> \<longleftrightarrow> bit (parsed_digit rest n) k"
      using spec sz n k5 f \<open>k < 8\<close> by (auto simp: parse32_spec_def maxHashSize_def digit_fits_def)
    finally show "bit (nix32_digit (h\<lparr>hash := b\<rparr>) n) k = bit (parsed_digit rest n) k" .
  qed
  have "print32 (h\<lparr>hash := b\<rparr>) = rest"
  proof (rule nth_equalityI)
    show l: "length (print32 (h\<lparr>hash := b\<rparr>)) = length rest" by (simp add: len base32Len_def)
    fix i
    assume "i < length (print32 (h\<lparr>hash := b\<rparr>))"
    then have i: "i < length rest" using l by simp
    define n where "n = length rest - i - 1"
    have n: "n < length rest" "length rest - n - 1 = i" using i by (auto simp: n_def)
    have idx: "nix32_index (rest ! i) < 32" using fits n by (auto simp: digit_fits_def)
    have "print32 (h\<lparr>hash := b\<rparr>) ! i = nix32Chars ! unat (parsed_digit rest n)"
      using print32_nth [of n "h\<lparr>hash := b\<rparr>"] n digit [OF n(1)] by (simp add: len base32Len_def)
    also have "\<dots> = rest ! i"
      using idx n by (simp add: parsed_digit_def unat_of_nat take_bit_nat_eq_self nix32Chars_nix32_index)
    finally show "print32 (h\<lparr>hash := b\<rparr>) ! i = rest ! i" .
  qed
  then show ?thesis using spec by (simp add: parse32_spec_def)
qed



lemma compress_loop:
  assumes "length b = maxHashSize" "drop n b = replicate (maxHashSize - n) 0" "0 < n"
  shows "length (foldl (\<lambda>b i. b[i mod n := b ! (i mod n) XOR f i]) b is) = maxHashSize \<and>
    drop n (foldl (\<lambda>b i. b[i mod n := b ! (i mod n) XOR f i]) b is) = replicate (maxHashSize - n) (0 :: u8)"
  using assms by (induction "is" arbitrary: b) (simp_all add: drop_update_cancel)

lemma compressHash_sized:
  assumes "compressHash feats h n = Inr c" "0 < n" "n \<le> maxHashSize"
  shows "hash_sized c" "hashSize c = n" "algo c = algo h"
proof -
  obtain z where z: "Hash_zero feats (algo h) = Inr z"
    "c = z\<lparr>hashSize := n, hash := foldl (\<lambda>b i. b[i mod n := b ! (i mod n) XOR hash h ! i]) (hash z) [0..<hashSize h]\<rparr>"
    using assms by (auto simp: compressHash_def result_simps split: if_splits)
  then have "hash z = replicate maxHashSize 0" "algo z = algo h" by (simp_all add: Hash_zero_Inr)
  then show "hash_sized c" "hashSize c = n" "algo c = algo h"
    using z(2) assms(2,3) compress_loop [of "hash z" n "\<lambda>i. hash h ! i" "[0..<hashSize h]"]
    by (simp_all add: hash_sized_def)
qed

lemma compressHash_total:
  "algo_enabled feats (algo h) \<Longrightarrow> 0 < n \<Longrightarrow> \<exists>c. compressHash feats h n = Inr c"
  by (simp add: compressHash_def Hash_zero_eq)

section \<open>All the formats\<close>

lemma set_printHash16: "set (printHash16 h) \<subseteq> set base16Chars"
proof -
  have "length base16Chars = 16" by (simp add: base16Chars_def)
  then show ?thesis using nibble_less by (auto simp: printHash16_def)
qed

lemma set_print32: "set (print32 h) \<subseteq> set nix32Chars"
proof -
  have "length nix32Chars = 32" by (simp add: nix32Chars_def)
  then show ?thesis using nix32_digit_less by (auto simp: print32_def)
qed

text \<open>The digits of a hash in a format, without prefix.\<close>

fun format_digits :: "HashFormat \<Rightarrow> Hash \<Rightarrow> string" where
  "format_digits Base16 h = printHash16 h"
| "format_digits Nix32 h = print32 h"
| "format_digits Base64 h = base64Encode (digest_string h)"
| "format_digits SRI h = base64Encode (digest_string h)"

lemma format_digits_plain:
  "CHR '':'' \<notin> set (format_digits f h)" "CHR ''-'' \<notin> set (format_digits f h)"
proof -
  have "CHR '':'' \<notin> set base16Chars \<union> set nix32Chars \<union> insert (CHR ''='') (set base64Chars)"
    "CHR ''-'' \<notin> set base16Chars \<union> set nix32Chars \<union> insert (CHR ''='') (set base64Chars)"
    by (simp_all add: base16Chars_def nix32Chars_def base64Chars_def)
  then show "CHR '':'' \<notin> set (format_digits f h)" "CHR ''-'' \<notin> set (format_digits f h)"
    using set_printHash16 [of h] set_print32 [of h] set_base64Encode [of "digest_string h"]
    by (cases f; auto)+
qed

lemma to_string_eq:
  "hash_ok h \<Longrightarrow> to_string h f b =
     Inr ((if f = SRI \<or> b then printHashAlgo (algo h) @ (if f = SRI then ''-'' else '':'') else []) @ format_digits f h)"
  by (cases f) (simp_all add: to_string_def printHash32_eq hash_ok_def)

lemma parseHashAlgo_print [simp]: "parseHashAlgo (printHashAlgo ha) = Inr ha"
  by (cases ha) (simp_all add: parseHashAlgo_def parseHashAlgoOpt_def)

lemma printHashAlgo_plain: "CHR '':'' \<notin> set (printHashAlgo ha)" "CHR ''-'' \<notin> set (printHashAlgo ha)"
  by (cases ha; simp)+

lemma lengths_differ:
  assumes "hashSize h = regularHashSize (algo h)" "length s = hashSize h"
  shows "base32Len h \<noteq> base16Len h" "base64Len h \<noteq> base16Len h" "base64Len h \<noteq> base32Len h"
    "length (base64Encode s) = base64Len h"
  using assms by (cases "algo h"; simp add: base16Len_def base32Len_def base64Len_def length_base64Encode)+

lemma len_cong:
  "base16Len \<lparr>hashSize = hashSize h, hash = b, algo = a\<rparr> = base16Len h"
  "base32Len \<lparr>hashSize = hashSize h, hash = b, algo = a\<rparr> = base32Len h"
  "base64Len \<lparr>hashSize = hashSize h, hash = b, algo = a\<rparr> = base64Len h"
  by (simp_all add: base16Len_def base32Len_def base64Len_def)

lemma digest_bytes:
  assumes "hash_ok h"
  shows "map byte_of_char (digest_string h) @ drop (hashSize h) (replicate maxHashSize 0) = hash h"
  using hash_ok_split [OF assms] by (simp add: digest_string_def comp_def)

lemma Hash_parse_digits:
  assumes "hash_ok h" "algo_enabled feats (algo h)"
  shows "Hash_parse feats (format_digits f h) (algo h) (f = SRI) = Inr h"
proof -
  have sz: "hashSize h = regularHashSize (algo h)" "length (hash h) = maxHashSize"
    using assms by (simp_all add: hash_ok_def)
  have len: "length (digest_string h) = hashSize h"
    using sz by (simp add: digest_string_def maxHashSize_def)
  have zero: "Hash_zero feats (algo h) = Inr \<lparr>hashSize = hashSize h, hash = replicate maxHashSize 0, algo = algo h\<rparr>"
    using sz Hash_zero_eq [OF assms(2)] by simp
  have t: "map (\<lambda>i. hash h ! i) [0..<hashSize h] = take (hashSize h) (hash h)"
    using sz by (intro nth_equalityI) (simp_all add: maxHashSize_def)
  have nz: "hashSize h \<noteq> 0" using sz by simp
  note eqs = Hash_parse_def zero len_cong len base64Decode_tail lengths_differ [OF sz(1) len]
  show ?thesis
  proof (cases f)
    case Base16
    have "parse16_loop (printHash16 h) [0..<hashSize h] (replicate maxHashSize 0) = Inr (hash h)"
      using parse16_print [of h "replicate maxHashSize 0"] sz t hash_ok_split [OF assms(1)]
      by (simp add: maxHashSize_def)
    with Base16 show ?thesis by (simp add: eqs)
  next
    case Nix32
    with parse32_print [OF hash_ok_sized [OF assms(1)]] show ?thesis by (simp add: eqs)
  next
    case Base64
    with nz digest_bytes [OF assms(1)] show ?thesis by (simp add: eqs)
  next
    case SRI
    with nz digest_bytes [OF assms(1)] show ?thesis by (simp add: eqs)
  qed
qed

lemma getParsedTypeAndSRI_prefixed:
  "getParsedTypeAndSRI (printHashAlgo ha @ (if f = SRI then ''-'' else '':'') @ format_digits f h) =
     Inr (Some ha, f = SRI, format_digits f h)"
proof -
  have "CHR '':'' \<notin> set (printHashAlgo ha @ CHR ''-'' # format_digits f h)"
    using printHashAlgo_plain format_digits_plain by auto
  then show ?thesis
    using printHashAlgo_plain by (auto simp: getParsedTypeAndSRI_def Let_def)
qed

lemma getParsedTypeAndSRI_plain:
  "getParsedTypeAndSRI (format_digits f h) = Inr (None, False, format_digits f h)"
  using format_digits_plain by (simp add: getParsedTypeAndSRI_def)

lemma parse16_loop_frame:
  "parse16_loop rest ns z = Inr b \<Longrightarrow> length b = length z \<and> (\<forall>k. (\<forall>n \<in> set ns. n < k) \<longrightarrow> drop k b = drop k z)"
  by (induction ns arbitrary: z) (auto simp: result_simps)

lemma Hash_parse_ok:
  assumes "Hash_parse feats rest ha isSRI = Inr h"
  shows "hash_ok h \<and> algo h = ha"
  using assms print32_parse [of "\<lparr>hashSize = regularHashSize ha, hash = replicate maxHashSize 0, algo = ha\<rparr>" rest]
  by (auto simp: Hash_parse_def result_simps Hash_zero_Inr hash_ok_def dest!: parse16_loop_frame split: if_splits sum.splits)

section \<open>Theorems\<close>

text \<open>
  C23: every hash is parsed back from its printed form: in all four formats with the algorithm
  as prefix, by \<^verbatim>\<open>parseAny\<close> and \<^verbatim>\<open>parseAnyPrefixed\<close>, and without prefix when the algorithm is
  given; the SRI form also by \<^verbatim>\<open>parseSRI\<close>. Parsing only returns hashes that satisfy the
  invariant of the class.
\<close>

theorem parse_to_string:
  assumes "hash_ok h" "algo_enabled feats (algo h)"
  shows "(\<forall>f. \<exists>s. to_string h f True = Inr s \<and> parseAny feats s None = Inr h \<and>
        parseAny feats s (Some (algo h)) = Inr h \<and> parseAnyPrefixed feats s = Inr h) \<and>
      (\<forall>f. f \<noteq> SRI \<longrightarrow> (\<exists>s. to_string h f False = Inr s \<and> parseAny feats s (Some (algo h)) = Inr h \<and>
        parseNonSRIUnprefixed feats s (algo h) = Inr h)) \<and>
      (\<exists>s. to_string h SRI b = Inr s \<and> parseSRI feats s = Inr h)"
proof -
  note d = Hash_parse_digits [OF assms]
  have sri: "Hash_parse feats (format_digits SRI h) (algo h) True = Inr h" using d [of SRI] by simp
  have plain: "Hash_parse feats (format_digits f h) (algo h) False = Inr h" if "f \<noteq> SRI" for f
    using d [of f] that by simp
  show ?thesis
    using getParsedTypeAndSRI_prefixed [of "algo h"] getParsedTypeAndSRI_plain d sri plain printHashAlgo_plain(2)
    by (simp add: to_string_eq assms parseAny_def parseAnyPrefixed_def parseNonSRIUnprefixed_def parseSRI_def)
qed


theorem parse_to_string_witness:
  "\<exists>h s. hash_ok h \<and> algo h = SHA1 \<and> hash h ! 0 = 255 \<and> to_string h SRI True = Inr s \<and> parseAny {} s None = Inr h"
proof -
  define h where "h = \<lparr>hashSize = 20, hash = 255 # replicate 63 0, algo = SHA1\<rparr>"
  have "hash_ok h" by (simp add: hash_ok_def h_def maxHashSize_def drop_Cons')
  moreover have "algo_enabled {} (algo h)" by (simp add: algo_enabled_def h_def)
  ultimately obtain s where "to_string h SRI True = Inr s" "parseAny {} s None = Inr h"
    using parse_to_string [of h "{}" True] by blast
  with \<open>hash_ok h\<close> show ?thesis by (intro exI [of _ h] exI [of _ s]) (simp add: h_def)
qed

text \<open>
  C25: the base 32 of Nix is canonical: a string of the right length that parses is exactly what
  the hash prints as, so no two strings denote the same hash; and what parses satisfies the
  class invariant, whatever the format.
\<close>

theorem parse_nix32_canonical:
  assumes "Hash_parse feats rest ha isSRI = Inr h"
  shows "hash_ok h \<and> algo h = ha \<and> (\<not> isSRI \<and> length rest = base32Len h \<longrightarrow> to_string h Nix32 False = Inr rest)"
proof -
  have ok: "hash_ok h" "algo h = ha" using Hash_parse_ok [OF assms] by simp_all
  have "to_string h Nix32 False = Inr rest" if rest: "\<not> isSRI" "length rest = base32Len h"
  proof -
    define z where "z = \<lparr>hashSize = regularHashSize ha, hash = replicate maxHashSize 0, algo = ha\<rparr>"
    have len: "base32Len h = base32Len z" using ok by (simp add: base32Len_def hash_ok_def z_def)
    have "base32Len z \<noteq> base16Len z" using lengths_differ(1) [of z "replicate (hashSize z) undefined"] by (simp add: z_def)
    moreover have "Hash_zero feats ha = Inr z" "hash z = replicate maxHashSize 0"
      using assms by (auto simp: Hash_parse_def rbind_eq_Inr Hash_zero_Inr z_def)
    ultimately obtain b where "parse32_loop rest (hashSize z) [0..<length rest] (replicate maxHashSize 0) = Inr b" "h = z\<lparr>hash := b\<rparr>"
      using assms rest(1) rest(2) [unfolded len] by (auto simp: Hash_parse_def rbind_eq_Inr)
    with print32_parse [of z rest b] rest len have "print32 h = rest" by (simp add: z_def)
    then show ?thesis using ok by (simp add: to_string_eq)
  qed
  with ok show ?thesis by blast
qed

theorem parse_nix32_canonical_witness:
  "\<exists>h. Hash_parse {} ''zzzzzzzzzzzzzzzzzzzzzzzzzzzzzzzz'' SHA1 False = Inr h \<and>
     to_string h Nix32 False = Inr ''zzzzzzzzzzzzzzzzzzzzzzzzzzzzzzzz''"
proof -
  have "isl (Hash_parse {} ''zzzzzzzzzzzzzzzzzzzzzzzzzzzzzzzz'' SHA1 False) = False" by code_simp
  then obtain h where h: "Hash_parse {} ''zzzzzzzzzzzzzzzzzzzzzzzzzzzzzzzz'' SHA1 False = Inr h"
    by (cases "Hash_parse {} ''zzzzzzzzzzzzzzzzzzzzzzzzzzzzzzzz'' SHA1 False") auto
  from parse_nix32_canonical [OF h] have "hash_ok h" "algo h = SHA1" by simp_all
  then have "base32Len h = 32" by (simp add: base32Len_def hash_ok_def)
  with parse_nix32_canonical [OF h] h show ?thesis by auto
qed

text \<open>
  \<^verbatim>\<open>operator ==\<close> and \<^verbatim>\<open>operator <=>\<close> of \<^verbatim>\<open>Hash\<close> disagree: a SHA-256 and a BLAKE3 hash of the
  same bytes are equal, and yet one is less than the other.
\<close>

theorem Hash_eq_ignores_algo:
  "\<exists>h1 h2. hash_ok h1 \<and> hash_ok h2 \<and> Hash_eq h1 h2 \<and> Hash_cmp h1 h2 = Less"
proof (intro exI conjI)
  let ?h1 = "\<lparr>hashSize = 32, hash = replicate 64 0, algo = SHA256\<rparr>"
  let ?h2 = "\<lparr>hashSize = 32, hash = replicate 64 0, algo = BLAKE3\<rparr>"
  show "hash_ok ?h1" "hash_ok ?h2" by (simp_all add: hash_ok_def maxHashSize_def)
  show "Hash_eq ?h1 ?h2" by (simp add: Hash_eq_def list_all_iff)
  show "Hash_cmp ?h1 ?h2 = Less" by code_simp
qed

end
