(* ===== verification/Zix_Sinks.thy ===== *)
theory Zix_Sinks
  imports Zix_Hash Zix_Serialise
begin

text \<open>
  Buffered sinks and sources of \<^verbatim>\<open>src/src/libutil/serialise.cc\<close> and \<^verbatim>\<open>serialise.hh\<close>, and the
  hashing sink of \<^verbatim>\<open>hash.cc\<close>. A \<^verbatim>\<open>BufferedSink\<close> is generic in the state of what it writes to,
  with \<^verbatim>\<open>writeUnbuffered\<close> a parameter; a source is its state with a function that reads at most
  a number of bytes. The contexts of the digest algorithms (\<^verbatim>\<open>hash.zig\<close> dispatches to the Zig
  standard library) are parameters: \<open>init\<close>, \<open>upd\<close> and \<open>final\<close>.
\<close>

section \<open>BufferedSink\<close>

record 'w BufferedSink =
  bufSize :: nat
  buffer :: string
  inner :: 'w

text \<open>\<open>buffer\<close> is the part of the C++ array before \<^verbatim>\<open>bufPos\<close>.\<close>

abbreviation bufPos :: "'w BufferedSink \<Rightarrow> nat" where
  "bufPos s \<equiv> length (buffer s)"

definition BufferedSink_flush :: "('w \<Rightarrow> string \<Rightarrow> 'w) \<Rightarrow> 'w BufferedSink \<Rightarrow> 'w BufferedSink" where
  "BufferedSink_flush writeUnbuffered s =
     (if bufPos s = 0 then s
      else s\<lparr>buffer := [], inner := writeUnbuffered (inner s) (buffer s)\<rparr>)"

function BufferedSink_call :: "('w \<Rightarrow> string \<Rightarrow> 'w) \<Rightarrow> 'w BufferedSink \<Rightarrow> string \<Rightarrow> 'w BufferedSink" where
  "BufferedSink_call writeUnbuffered s data =
     (if data = [] then s
      else if bufPos s + length data \<ge> bufSize s then
        (let s = BufferedSink_flush writeUnbuffered s
         in s\<lparr>inner := writeUnbuffered (inner s) data\<rparr>)
      else
        let n = (if bufPos s + length data > bufSize s then bufSize s - bufPos s else length data);
            s = s\<lparr>buffer := buffer s @ take n data\<rparr>;
            data = drop n data;
            s = (if bufPos s = bufSize s then BufferedSink_flush writeUnbuffered s else s)
        in BufferedSink_call writeUnbuffered s data)"
  by pat_completeness auto
termination
  by (relation "measure (\<lambda>(w, s, data). length data)") auto

declare BufferedSink_call.simps [simp del]

text \<open>One call either empties the buffer and writes through, or appends to the buffer.\<close>

lemma BufferedSink_call_eq:
  "BufferedSink_call w s data =
     (if data = [] then s
      else if bufPos s + length data \<ge> bufSize s
      then s\<lparr>buffer := [], inner := w (if buffer s = [] then inner s else w (inner s) (buffer s)) data\<rparr>
      else s\<lparr>buffer := buffer s @ data\<rparr>)"
  by (subst BufferedSink_call.simps, subst BufferedSink_call.simps) (auto simp: BufferedSink_flush_def Let_def)

text \<open>
  The law of a writer: writing nothing does nothing and writing twice is writing the
  concatenation. For such a writer the buffer is invisible.
\<close>

locale appending_writer =
  fixes w :: "'w \<Rightarrow> string \<Rightarrow> 'w" and w0 :: 'w and view :: "'w \<Rightarrow> 'r" and spec :: "string \<Rightarrow> 'r"
  assumes spec: "view (foldl w w0 cs) = spec (concat cs)"

text \<open>\<^verbatim>\<open>StringSink\<close> appends to its string.\<close>

definition StringSink_call :: "string \<Rightarrow> string \<Rightarrow> string" where
  "StringSink_call s data = s @ data"

lemma foldl_StringSink: "foldl StringSink_call s cs = s @ concat cs"
  by (induction cs arbitrary: s) (simp_all add: StringSink_call_def)

interpretation string_writer: appending_writer StringSink_call "[]" "\<lambda>s. s" "\<lambda>s. s"
  by unfold_locales (simp add: foldl_StringSink)

definition LengthSink_call :: "u64 \<Rightarrow> string \<Rightarrow> u64" where
  "LengthSink_call n data = n + word_of_nat (length data)"

lemma foldl_LengthSink: "foldl LengthSink_call n cs = n + word_of_nat (length (concat cs))"
  by (induction cs arbitrary: n) (simp_all add: LengthSink_call_def)

interpretation length_writer: appending_writer LengthSink_call 0 "\<lambda>n. n" "\<lambda>s. word_of_nat (length s)"
  by unfold_locales (simp add: foldl_LengthSink)

context appending_writer
begin

definition buffered_inv :: "string \<Rightarrow> 'w BufferedSink \<Rightarrow> bool" where
  "buffered_inv d s \<longleftrightarrow> (\<exists>cs. inner s = foldl w w0 cs \<and> d = concat cs @ buffer s)"

lemma buffered_start: "buffered_inv [] \<lparr>bufSize = n, buffer = [], inner = w0\<rparr>"
  by (auto simp: buffered_inv_def intro: exI [of _ "[]"])

lemma buffered_feed: "buffered_inv d s \<Longrightarrow> buffered_inv (d @ c) (BufferedSink_call w s c)"
proof -
  assume "buffered_inv d s"
  then obtain cs where "inner s = foldl w w0 cs" "d = concat cs @ buffer s" by (auto simp: buffered_inv_def)
  then show ?thesis
    by (auto simp: BufferedSink_call_eq buffered_inv_def
        intro: exI [of _ cs] exI [of _ "cs @ [c]"] exI [of _ "cs @ [buffer s, c]"])
qed

lemma buffered_finish: "buffered_inv d s \<Longrightarrow> view (inner (BufferedSink_flush w s)) = spec d"
proof -
  assume "buffered_inv d s"
  then obtain cs where cs: "inner s = foldl w w0 cs" "d = concat cs @ buffer s" by (auto simp: buffered_inv_def)
  then show ?thesis
    using spec [of cs] spec [of "cs @ [buffer s]"] by (auto simp: BufferedSink_flush_def)
qed

end

sublocale appending_writer \<subseteq> buffered: chunk_sink
  "\<lparr>bufSize = n, buffer = [], inner = w0\<rparr>" "BufferedSink_call w" buffered_inv
  "\<lambda>s. view (inner (BufferedSink_flush w s))" spec for n
  by unfold_locales (simp_all add: buffered_start buffered_feed buffered_finish)


context appending_writer
begin

lemma buffered_chunks:
  "view (inner (BufferedSink_flush w (foldl (BufferedSink_call w) \<lparr>bufSize = n, buffer = [], inner = w0\<rparr> cs))) =
     spec (concat cs)"
  by (rule buffered.finish_chunks)

end

section \<open>HashSink\<close>

text \<open>\<^verbatim>\<open>nix_libutil_hash_finish\<close>: the digest, and zeros up to the end of the array.\<close>

definition hash_finish :: "('c \<Rightarrow> u8 list) \<Rightarrow> 'c \<Rightarrow> u8 list" where
  "hash_finish final ctx = (let d = final ctx in d @ replicate (64 - length d) 0)"

definition hashString ::
  "(HashAlgorithm \<Rightarrow> 'c) \<Rightarrow> ('c \<Rightarrow> string \<Rightarrow> 'c) \<Rightarrow> ('c \<Rightarrow> u8 list) \<Rightarrow> xp set \<Rightarrow> HashAlgorithm \<Rightarrow> string \<Rightarrow> Hash result" where
  "hashString init upd final feats ha s =
     (let ctx = init ha in
      rbind (Hash_zero feats ha) (\<lambda>h.
        let ctx = upd ctx s in Inr (h\<lparr>hash := hash_finish final ctx\<rparr>)))"

definition HashSink_init :: "(HashAlgorithm \<Rightarrow> 'c) \<Rightarrow> HashAlgorithm \<Rightarrow> ('c \<times> u64) BufferedSink" where
  "HashSink_init init ha = \<lparr>bufSize = 32 * 1024, buffer = [], inner = (init ha, 0)\<rparr>"

definition HashSink_writeUnbuffered :: "('c \<Rightarrow> string \<Rightarrow> 'c) \<Rightarrow> 'c \<times> u64 \<Rightarrow> string \<Rightarrow> 'c \<times> u64" where
  "HashSink_writeUnbuffered upd st data =
     (case st of (ctx, bytes) \<Rightarrow> (upd ctx data, bytes + word_of_nat (length data)))"

definition HashSink_finish ::
  "('c \<Rightarrow> string \<Rightarrow> 'c) \<Rightarrow> ('c \<Rightarrow> u8 list) \<Rightarrow> xp set \<Rightarrow> HashAlgorithm \<Rightarrow> ('c \<times> u64) BufferedSink \<Rightarrow> (Hash \<times> u64) result" where
  "HashSink_finish upd final feats ha s =
     (let s = BufferedSink_flush (HashSink_writeUnbuffered upd) s in
      rbind (Hash_zero feats ha) (\<lambda>h.
        Inr (h\<lparr>hash := hash_finish final (fst (inner s))\<rparr>, snd (inner s))))"

text \<open>
  What is documented of the digest algorithms: the digest depends on the concatenation of the
  data, and has the length of the algorithm.
\<close>

definition digest_law :: "(HashAlgorithm \<Rightarrow> 'c) \<Rightarrow> ('c \<Rightarrow> string \<Rightarrow> 'c) \<Rightarrow> ('c \<Rightarrow> u8 list) \<Rightarrow> bool" where
  "digest_law init upd final \<longleftrightarrow>
     (\<forall>ha cs. final (foldl upd (init ha) cs) = final (upd (init ha) (concat cs)) \<and>
        length (final (foldl upd (init ha) cs)) = regularHashSize ha)"

lemma HashSink_writer:
  assumes "digest_law init upd final"
  shows "appending_writer (HashSink_writeUnbuffered upd) (init ha, 0) (\<lambda>(ctx, bytes). (final ctx, bytes))
    (\<lambda>s. (final (upd (init ha) s), word_of_nat (length s)))"
proof
  fix cs
  have "foldl (HashSink_writeUnbuffered upd) (c, n) cs = (foldl upd c cs, n + word_of_nat (length (concat cs)))" for c n
    by (induction cs arbitrary: c n) (simp_all add: HashSink_writeUnbuffered_def)
  then show "(case foldl (HashSink_writeUnbuffered upd) (init ha, 0) cs of (ctx, bytes) \<Rightarrow> (final ctx, bytes)) =
      (final (upd (init ha) (concat cs)), word_of_nat (length (concat cs)))"
    using assms by (simp add: digest_law_def)
qed

lemma hashString_ok:
  assumes "digest_law init upd final" "hashString init upd final feats ha s = Inr h"
  shows "hash_ok h"
proof -
  have "length (final (upd (init ha) s)) = regularHashSize ha"
    using assms(1) unfolding digest_law_def by (metis concat.simps foldl_Cons foldl_Nil append_Nil2)
  then show ?thesis
    using assms(2) by (auto simp: hashString_def result_simps Hash_zero_Inr hash_ok_def hash_finish_def maxHashSize_def Let_def)
qed

section \<open>Sources\<close>

text \<open>
  A source is a state with \<open>read :: nat \<Rightarrow> 's \<Rightarrow> (string \<times> 's) result\<close>. \<^verbatim>\<open>BufferedSource::read\<close>
  on top of \<^verbatim>\<open>readUnbuffered\<close>:
\<close>

record 'i BufferedSource =
  bsize :: nat
  bufPosIn :: nat
  bufPosOut :: nat
  bytes :: string
  under :: 'i

definition BufferedSource_read ::
  "(nat \<Rightarrow> 'i \<Rightarrow> (string \<times> 'i) result) \<Rightarrow> nat \<Rightarrow> 'i BufferedSource \<Rightarrow> (string \<times> 'i BufferedSource) result" where
  "BufferedSource_read readUnbuffered len s =
     rbind (if bufPosIn s = 0 then
              rbind (readUnbuffered (bsize s) (under s)) (\<lambda>(d, i).
                Inr (s\<lparr>bufPosIn := length d, bytes := d, under := i\<rparr>))
            else Inr s) (\<lambda>s.
       let n = (if len > bufPosIn s - bufPosOut s then bufPosIn s - bufPosOut s else len);
           data = take n (drop (bufPosOut s) (bytes s));
           s = s\<lparr>bufPosOut := bufPosOut s + n\<rparr>;
           s = (if bufPosIn s = bufPosOut s then s\<lparr>bufPosIn := 0, bufPosOut := 0\<rparr> else s)
       in Inr (data, s))"

definition BufferedSource_hasData :: "'i BufferedSource \<Rightarrow> bool" where
  "BufferedSource_hasData s \<longleftrightarrow> bufPosOut s < bufPosIn s"

definition buffered_ok :: "'i BufferedSource \<Rightarrow> bool" where
  "buffered_ok s \<longleftrightarrow> 0 < bsize s \<and> bufPosIn s \<le> length (bytes s) \<and>
     (bufPosIn s = 0 \<and> bufPosOut s = 0 \<or> bufPosOut s < bufPosIn s)"

text \<open>What a buffered source on a string still has to deliver.\<close>

definition pending :: "string BufferedSource \<Rightarrow> string" where
  "pending s = drop (bufPosOut s) (take (bufPosIn s) (bytes s)) @ under s"

text \<open>\<^verbatim>\<open>ChainSource\<close> and \<^verbatim>\<open>SizedSource\<close> on string sources.\<close>

record ChainSource =
  source1 :: string
  source2 :: string
  useSecond :: bool

definition ChainSource_read :: "nat \<Rightarrow> ChainSource \<Rightarrow> (string \<times> ChainSource) result" where
  "ChainSource_read len s =
     (let second = (\<lambda>s. rbind (StringSource_read len (source2 s)) (\<lambda>(d, r). Inr (d, s\<lparr>source2 := r\<rparr>))) in
      if useSecond s then second s
      else case StringSource_read len (source1 s) of
             Inr (d, r) \<Rightarrow> Inr (d, s\<lparr>source1 := r\<rparr>)
           | Inl (EndOfFile _) \<Rightarrow> second (s\<lparr>useSecond := True\<rparr>)
           | Inl e \<Rightarrow> Inl e)"

definition SizedSource_read :: "nat \<Rightarrow> string \<times> nat \<Rightarrow> (string \<times> string \<times> nat) result" where
  "SizedSource_read len st =
     (case st of (orig, remain) \<Rightarrow>
        if remain \<le> 0 then Inl (EndOfFile ''sized: unexpected end-of-file'')
        else rbind (StringSource_read (min len remain) orig) (\<lambda>(d, orig). Inr (d, orig, remain - length d)))"

text \<open>\<^verbatim>\<open>Source::drainInto\<close> a string sink, for any source; it may run forever, which is \<open>None\<close>.\<close>

partial_function (option) Source_drain ::
  "(nat \<Rightarrow> 's \<Rightarrow> (string \<times> 's) result) \<Rightarrow> 's \<Rightarrow> string \<Rightarrow> (string result) option" where
  "Source_drain read s acc =
     (case read 8192 s of
        Inr (d, s) \<Rightarrow> Source_drain read s (StringSink_call acc d)
      | Inl (EndOfFile _) \<Rightarrow> Some (Inr acc)
      | Inl e \<Rightarrow> Some (Inl e))"

text \<open>The contract of a source: it delivers the bytes of its view, some at each read.\<close>

locale byte_source =
  fixes read :: "nat \<Rightarrow> 's \<Rightarrow> (string \<times> 's) result" and view :: "'s \<Rightarrow> string" and ok :: "'s \<Rightarrow> bool"
  assumes at_end: "ok s \<Longrightarrow> view s = [] \<Longrightarrow> \<exists>m. read len s = Inl (EndOfFile m)"
    and delivers: "ok s \<Longrightarrow> view s \<noteq> [] \<Longrightarrow> 0 < len \<Longrightarrow>
      \<exists>d s'. read len s = Inr (d, s') \<and> d \<noteq> [] \<and> length d \<le> len \<and> view s = d @ view s' \<and> ok s'"
begin

lemma drain_view: "ok s \<Longrightarrow> Source_drain read s acc = Some (Inr (acc @ view s))"
proof (induction "length (view s)" arbitrary: s acc rule: less_induct)
  case less
  show ?case
  proof (cases "view s = []")
    case True
    with at_end [OF less.prems, of 8192] show ?thesis by (subst Source_drain.simps) auto
  next
    case False
    with delivers [OF less.prems, of 8192] obtain d s' where
      d: "read 8192 s = Inr (d, s')" "d \<noteq> []" "view s = d @ view s'" "ok s'" by auto
    then have "Source_drain read s' (acc @ d) = Some (Inr ((acc @ d) @ view s'))"
      by (intro less) auto
    with d show ?thesis by (subst Source_drain.simps) (simp add: StringSink_call_def)
  qed
qed

end

interpretation string_source: byte_source StringSource_read "\<lambda>s. s" "\<lambda>s. True"
  by unfold_locales (auto simp: StringSource_read_def)

lemma drop_take_split:
  "o' \<le> i \<Longrightarrow> n \<le> i - o' \<Longrightarrow> drop o' (take i xs) = take n (drop o' xs) @ drop (o' + n) (take i xs)"
proof -
  assume "o' \<le> i" "n \<le> i - o'"
  have "drop o' (take i xs) = take n (drop o' (take i xs)) @ drop n (drop o' (take i xs))"
    by (rule append_take_drop_id [symmetric])
  moreover have "take n (drop o' (take i xs)) = take n (drop o' xs)"
    using \<open>n \<le> i - o'\<close> by (simp add: drop_take min_def)
  ultimately show ?thesis by (simp add: add.commute)
qed

lemma buffered_copy_out:
  fixes t :: "string BufferedSource"
  assumes t: "buffered_ok t" "bufPosOut t < bufPosIn t" and len: "0 < len"
  shows "\<exists>d t'. BufferedSource_read r len t = Inr (d, t') \<and> d \<noteq> [] \<and> length d \<le> len \<and>
      pending t = d @ pending t' \<and> buffered_ok t'"
proof -
  define n where "n = (if len > bufPosIn t - bufPosOut t then bufPosIn t - bufPosOut t else len)"
  define d where "d = take n (drop (bufPosOut t) (bytes t))"
  have n: "0 < n" "n \<le> bufPosIn t - bufPosOut t" "n \<le> len" using t len by (auto simp: n_def)
  have "pending t = d @ drop (bufPosOut t + n) (take (bufPosIn t) (bytes t)) @ under t"
    using drop_take_split [of "bufPosOut t" "bufPosIn t" n "bytes t"] n t by (simp add: pending_def d_def)
  moreover have "d \<noteq> []" "length d \<le> len" using n t by (auto simp: d_def buffered_ok_def)
  moreover have "bufPosIn t \<noteq> 0" using t by simp
  ultimately show ?thesis
    using t n by (auto simp: BufferedSource_read_def Let_def n_def [symmetric] d_def [symmetric] pending_def buffered_ok_def)
qed

lemma take_min_length: "take (min (length xs) k) xs = take k xs"
  by (simp add: min_def)

lemma buffered_fill:
  fixes s :: "string BufferedSource"
  assumes "buffered_ok s" "pending s \<noteq> []" "bufPosIn s = 0"
  shows "\<exists>t. buffered_ok t \<and> bufPosOut t < bufPosIn t \<and> pending t = pending s \<and>
    BufferedSource_read StringSource_read len s = BufferedSource_read StringSource_read len t"
proof -
  define t where "t = s\<lparr>bufPosIn := length (take (bsize s) (under s)), bytes := take (bsize s) (under s), under := drop (bsize s) (under s)\<rparr>"
  have u: "under s \<noteq> []" "bufPosOut s = 0" using assms by (auto simp: pending_def buffered_ok_def)
  have "bufPosIn t \<noteq> 0" using u assms by (simp add: t_def buffered_ok_def)
  then have "BufferedSource_read StringSource_read len s = BufferedSource_read StringSource_read len t"
    using assms(3) u by (simp add: BufferedSource_read_def StringSource_read_def t_def)
  then show ?thesis
    using u assms take_min_length [of "under s" "bsize s"]
    by (intro exI [of _ t]) (auto simp: t_def buffered_ok_def pending_def)
qed

interpretation buffered_source: byte_source "BufferedSource_read StringSource_read" pending buffered_ok
proof
  fix s :: "string BufferedSource" and len :: nat
  assume ok: "buffered_ok s"
  show "\<exists>m. BufferedSource_read StringSource_read len s = Inl (EndOfFile m)" if "pending s = []"
    using ok that by (auto simp: BufferedSource_read_def StringSource_read_def pending_def buffered_ok_def)
  assume ne: "pending s \<noteq> []" and len: "0 < len"
  show "\<exists>d s'. BufferedSource_read StringSource_read len s = Inr (d, s') \<and> d \<noteq> [] \<and> length d \<le> len \<and>
      pending s = d @ pending s' \<and> buffered_ok s'"
  proof (cases "bufPosIn s = 0")
    case True
    from buffered_fill [OF ok ne this, of len] buffered_copy_out [OF _ _ len] show ?thesis by metis
  next
    case False
    with ok have "bufPosOut s < bufPosIn s" by (auto simp: buffered_ok_def)
    from buffered_copy_out [OF ok this len] show ?thesis .
  qed
qed

interpretation chain_source: byte_source ChainSource_read
  "\<lambda>s. (if useSecond s then [] else source1 s) @ source2 s" "\<lambda>s. True"
proof
  fix s :: ChainSource and len :: nat
  let ?view = "\<lambda>s. (if useSecond s then [] else source1 s) @ source2 s"
  show "\<exists>m. ChainSource_read len s = Inl (EndOfFile m)" if "?view s = []"
    using that by (auto simp: ChainSource_read_def StringSource_read_def Let_def split: if_splits)
  assume "?view s \<noteq> []" "0 < len"
  then show "\<exists>d s'. ChainSource_read len s = Inr (d, s') \<and> d \<noteq> [] \<and> length d \<le> len \<and>
      ?view s = d @ ?view s' \<and> True"
    by (cases s) (auto simp: ChainSource_read_def StringSource_read_def Let_def split: if_splits)
qed

interpretation sized_source: byte_source SizedSource_read "\<lambda>(orig, remain). take remain orig" "\<lambda>(orig, remain). remain \<le> length orig"
proof (unfold_locales, goal_cases)
  case (1 s len)
  then show ?case by (cases s) (auto simp: SizedSource_read_def)
next
  case (2 s len)
  then show ?case
    using append_take_drop_id [of len "take (snd s) (fst s)"]
    by (cases s) (auto simp: SizedSource_read_def StringSource_read_def min_def take_drop)
qed

section \<open>Theorems\<close>

text \<open>
  Hashing a stream through a \<^verbatim>\<open>HashSink\<close>, in any number of chunks of any sizes, through its
  buffer of 32 KiB, returns the hash that \<^verbatim>\<open>hashString\<close> computes of the whole stream and the
  number of its bytes modulo 2^64; that hash satisfies the class invariant.
\<close>

theorem HashSink_hashes_stream:
  assumes "digest_law init upd final"
  shows "HashSink_finish upd final feats ha
      (foldl (BufferedSink_call (HashSink_writeUnbuffered upd)) (HashSink_init init ha) chunks) =
    rbind (hashString init upd final feats ha (concat chunks))
      (\<lambda>h. Inr (h, word_of_nat (length (concat chunks)))) \<and>
    (hashString init upd final feats ha (concat chunks) = Inr h \<longrightarrow> hash_ok h)"
proof -
  define s where "s = inner (BufferedSink_flush (HashSink_writeUnbuffered upd)
    (foldl (BufferedSink_call (HashSink_writeUnbuffered upd)) (HashSink_init init ha) chunks))"
  have "(final (fst s), snd s) = (final (upd (init ha) (concat chunks)), word_of_nat (length (concat chunks)))"
    using appending_writer.buffered_chunks [OF HashSink_writer [OF assms], of "32 * 1024" ha chunks]
    by (simp add: s_def HashSink_init_def split_beta)
  then have "final (fst s) = final (upd (init ha) (concat chunks))" "snd s = word_of_nat (length (concat chunks))"
    by simp_all
  then show ?thesis
    using hashString_ok [OF assms]
    by (simp add: HashSink_finish_def hashString_def hash_finish_def s_def [symmetric] Let_def rbind_assoc)
qed

text \<open>A digest for examples: the first bytes of the data.\<close>

definition prefix_init :: "HashAlgorithm \<Rightarrow> HashAlgorithm \<times> string" where
  "prefix_init ha = (ha, [])"

definition prefix_upd :: "HashAlgorithm \<times> string \<Rightarrow> string \<Rightarrow> HashAlgorithm \<times> string" where
  "prefix_upd ctx d = (fst ctx, snd ctx @ d)"

definition prefix_final :: "HashAlgorithm \<times> string \<Rightarrow> u8 list" where
  "prefix_final ctx = take (regularHashSize (fst ctx)) (map byte_of_char (snd ctx) @ replicate 64 0)"

lemma prefix_digest_law: "digest_law prefix_init prefix_upd prefix_final"
proof -
  have "foldl prefix_upd (ha, s) cs = (ha, s @ concat cs)" for ha s cs
    by (induction cs arbitrary: s) (simp_all add: prefix_upd_def)
  moreover have "min l (regularHashSize ha) + min (regularHashSize ha - l) 64 = regularHashSize ha" for l ha
    using regularHashSize_bounds(2) [of ha] by linarith
  ultimately show ?thesis by (simp add: digest_law_def prefix_init_def prefix_upd_def prefix_final_def)
qed

theorem HashSink_hashes_stream_witness:
  "\<exists>h. HashSink_finish prefix_upd prefix_final {} SHA256
      (foldl (BufferedSink_call (HashSink_writeUnbuffered prefix_upd)) (HashSink_init prefix_init SHA256) [''ab'', ''c'']) =
    Inr (h, 3) \<and> take 4 (hash h) = [97, 98, 99, 0] \<and> hash_ok h"
proof -
  define h where "h = \<lparr>hashSize = 32, hash = hash_finish prefix_final (SHA256, ''abc''), algo = SHA256\<rparr>"
  have h: "hashString prefix_init prefix_upd prefix_final {} SHA256 (concat [''ab'', ''c'']) = Inr h"
    by (simp add: hashString_def h_def Hash_zero_eq algo_enabled_def prefix_init_def prefix_upd_def)
  moreover have "take 4 (hash h) = [97, 98, 99, 0]"
    by (simp add: h_def hash_finish_def prefix_final_def byte_of_char_def)
  ultimately show ?thesis
    using HashSink_hashes_stream [OF prefix_digest_law, of "{}" SHA256 "[''ab'', ''c'']" h] by (auto simp: h)
qed

text \<open>
  C35: draining a source returns exactly its bytes and ends, for the string source, for a
  \<^verbatim>\<open>BufferedSource\<close> in any state of its buffer, for a \<^verbatim>\<open>ChainSource\<close> (the bytes of the first source
  and then of the second) and for a \<^verbatim>\<open>SizedSource\<close> (the first \<open>remain\<close> bytes).
\<close>

theorem Source_drain_delivers:
  "Source_drain StringSource_read data [] = Some (Inr data) \<and>
   (buffered_ok b \<longrightarrow> Source_drain (BufferedSource_read StringSource_read) b [] = Some (Inr (pending b))) \<and>
   Source_drain ChainSource_read \<lparr>source1 = s1, source2 = s2, useSecond = False\<rparr> [] = Some (Inr (s1 @ s2)) \<and>
   (remain \<le> length data \<longrightarrow> Source_drain SizedSource_read (data, remain) [] = Some (Inr (take remain data)))"
  using string_source.drain_view [of data "[]"] buffered_source.drain_view [of b "[]"]
    chain_source.drain_view [of "\<lparr>source1 = s1, source2 = s2, useSecond = False\<rparr>" "[]"]
    sized_source.drain_view [of "(data, remain)" "[]"]
  by simp

theorem Source_drain_delivers_witness:
  "Source_drain (BufferedSource_read StringSource_read)
     \<lparr>bsize = 2, bufPosIn = 2, bufPosOut = 1, bytes = ''xa'', under = ''bcd''\<rparr> [] = Some (Inr ''abcd'') \<and>
   Source_drain SizedSource_read (''abcd'', 3) [] = Some (Inr ''abc'')"
  using Source_drain_delivers [of "''abcd''" "\<lparr>bsize = 2, bufPosIn = 2, bufPosOut = 1, bytes = ''xa'', under = ''bcd''\<rparr>" "[]" "[]" 3]
  by (simp add: buffered_ok_def pending_def)

end
