(* ===== verification/Zix_SourceAccessor.thy ===== *)
theory Zix_SourceAccessor
  imports Zix_CanonPath Zix_Strings
begin

text \<open>
  Source accessors and file-system-object sinks of \<^verbatim>\<open>src/src/libutil\<close>: the interface
  \<^verbatim>\<open>SourceAccessor\<close> with \<^verbatim>\<open>resolveSymlinks\<close> (\<^verbatim>\<open>source-accessor.cc\<close>), the in-memory file system of
  \<^verbatim>\<open>memory-source-accessor.cc\<close> with its sink, the sink that ignores everything and
  \<^verbatim>\<open>copyRecursive\<close> (\<^verbatim>\<open>fs-sink.cc\<close>). An accessor is the record of its operations, a sink the
  record of its operations on a state. The callback of \<^verbatim>\<open>createRegularFile\<close> works on the
  executable bit and the contents of the file being created, and may consume input.
\<close>

section \<open>Interfaces\<close>

datatype Type = tRegular | tSymlink | tDirectory | tChar | tBlock | tSocket | tFifo | tUnknown

record Stat =
  st_type :: Type
  fileSize :: "nat option"
  isExecutable :: bool

type_synonym DirEntries = "(string, Type option) omap"

record accessor =
  maybeLstat :: "string \<Rightarrow> Stat option"
  readFile :: "string \<Rightarrow> string result"
  readDirectory :: "string \<Rightarrow> DirEntries result"
  readLink :: "string \<Rightarrow> string result"

definition lstat :: "accessor \<Rightarrow> string \<Rightarrow> Stat result" where
  "lstat acc path =
     (case maybeLstat acc path of
        Some st \<Rightarrow> Inr st
      | None \<Rightarrow> Inl (Error ''path does not exist''))"

definition pathExists :: "accessor \<Rightarrow> string \<Rightarrow> bool" where
  "pathExists acc path = (maybeLstat acc path \<noteq> None)"

type_synonym crf = "bool \<times> string"

record 's fso_sink =
  createDirectory :: "string \<Rightarrow> 's \<Rightarrow> 's result"
  createRegularFile :: "string \<Rightarrow> (crf \<Rightarrow> (crf \<times> string) result) \<Rightarrow> 's \<Rightarrow> ('s \<times> string) result"
  createSymlink :: "string \<Rightarrow> string \<Rightarrow> 's \<Rightarrow> 's result"

definition NullFileSystemObjectSink :: "unit fso_sink" where
  "NullFileSystemObjectSink = \<lparr>
     createDirectory = (\<lambda>path s. Inr ()),
     createRegularFile = (\<lambda>path func s. rbind (func (False, [])) (\<lambda>(_, src). Inr ((), src))),
     createSymlink = (\<lambda>path target s. Inr ())\<rparr>"

section \<open>Resolving symbolic links\<close>

datatype SymlinkResolution = Ancestors | Full

function resolve_loop ::
  "accessor \<Rightarrow> SymlinkResolution \<Rightarrow> nat \<Rightarrow> string list \<Rightarrow> string \<Rightarrow> string result" where
  "resolve_loop acc mode linksAllowed [] res = Inr res"
| "resolve_loop acc mode linksAllowed (c # todo) res =
     (if c = [] \<or> c = ''.'' then resolve_loop acc mode linksAllowed todo res
      else if c = ''..'' then
        (if \<not> isRoot res then rbind (pop res) (\<lambda>res. resolve_loop acc mode linksAllowed todo res)
         else resolve_loop acc mode linksAllowed todo res)
      else
        rbind (push res c) (\<lambda>res.
          if mode = Full \<or> todo \<noteq> [] then
            (case maybeLstat acc res of
               None \<Rightarrow> resolve_loop acc mode linksAllowed todo res
             | Some st \<Rightarrow>
                 if st_type st = tSymlink then
                   (case linksAllowed of
                      0 \<Rightarrow> Inl (Error ''infinite symlink recursion in path'')
                    | Suc linksAllowed \<Rightarrow>
                        rbind (readLink acc res) (\<lambda>target.
                        rbind (pop res) (\<lambda>res.
                          resolve_loop acc mode linksAllowed (tokenizeString target ''/'' @ todo)
                            (if target \<noteq> [] \<and> hd target = slash then ''/'' else res))))
                 else resolve_loop acc mode linksAllowed todo res)
          else resolve_loop acc mode linksAllowed todo res))"
  by pat_completeness auto
termination
  by (relation "measures [\<lambda>(acc, mode, n, todo, res). n, \<lambda>(acc, mode, n, todo, res). length todo]") auto

definition resolveSymlinks :: "accessor \<Rightarrow> string \<Rightarrow> SymlinkResolution \<Rightarrow> string result" where
  "resolveSymlinks acc path mode = resolve_loop acc mode 1024 (components path) ''/''"

section \<open>The in-memory file system\<close>

datatype File =
    Regular bool string
  | Directory "(string \<times> File) list"
  | Symlink string

text \<open>
  \<^verbatim>\<open>MemorySourceAccessor::open\<close> without creation finds a file; with creation it returns the root
  after its changes and the file found or created, which the callers change through the pointer:
  \<open>replace_at\<close> is a write through that pointer.
\<close>

fun open_file :: "string list \<Rightarrow> File \<Rightarrow> File option" where
  "open_file [] cur = Some cur"
| "open_file (name # names) cur =
     (case cur of
        Directory contents \<Rightarrow>
          (case map_of contents name of None \<Rightarrow> None | Some f \<Rightarrow> open_file names f)
      | _ \<Rightarrow> None)"

fun open_create :: "string list \<Rightarrow> File \<Rightarrow> bool \<Rightarrow> File \<Rightarrow> (File \<times> File) option" where
  "open_create [] create newF cur = (let cur = (if newF then create else cur) in Some (cur, cur))"
| "open_create (name # names) create newF cur =
     (case cur of
        Directory contents \<Rightarrow>
          (let (newF, f) = (case map_of contents name of None \<Rightarrow> (True, Directory []) | Some f \<Rightarrow> (newF, f))
           in case open_create names create newF f of
                None \<Rightarrow> None
              | Some (f', target) \<Rightarrow> Some (Directory (omap_assign name f' contents), target))
      | _ \<Rightarrow> None)"

fun replace_at :: "string list \<Rightarrow> File \<Rightarrow> File \<Rightarrow> File" where
  "replace_at [] new cur = new"
| "replace_at (name # names) new cur =
     (case cur of
        Directory contents \<Rightarrow>
          (case map_of contents name of
             None \<Rightarrow> cur
           | Some f \<Rightarrow> Directory (omap_assign name (replace_at names new f) contents))
      | _ \<Rightarrow> cur)"

fun File_lstat :: "File \<Rightarrow> Stat" where
  "File_lstat (Regular executable contents) =
     \<lparr>st_type = tRegular, fileSize = Some (length contents), isExecutable = executable\<rparr>"
| "File_lstat (Directory contents) = \<lparr>st_type = tDirectory, fileSize = None, isExecutable = False\<rparr>"
| "File_lstat (Symlink target) = \<lparr>st_type = tSymlink, fileSize = None, isExecutable = False\<rparr>"

definition Memory_readFile :: "File \<Rightarrow> string \<Rightarrow> string result" where
  "Memory_readFile root path =
     (case open_file (components path) root of
        None \<Rightarrow> Inl (Error ''file does not exist'')
      | Some (Regular executable contents) \<Rightarrow> Inr contents
      | Some _ \<Rightarrow> Inl (Error ''file is not a regular file''))"

definition Memory_maybeLstat :: "File \<Rightarrow> string \<Rightarrow> Stat option" where
  "Memory_maybeLstat root path = map_option File_lstat (open_file (components path) root)"

definition Memory_pathExists :: "File \<Rightarrow> string \<Rightarrow> bool" where
  "Memory_pathExists root path = (open_file (components path) root \<noteq> None)"

definition Memory_readDirectory :: "File \<Rightarrow> string \<Rightarrow> DirEntries result" where
  "Memory_readDirectory root path =
     (case open_file (components path) root of
        None \<Rightarrow> Inl (Error ''file does not exist'')
      | Some (Directory contents) \<Rightarrow>
          Inr (foldl (\<lambda>res (name, file). omap_assign name (Some (st_type (File_lstat file))) res) [] contents)
      | Some _ \<Rightarrow> Inl (Error ''file is not a directory''))"

definition Memory_readLink :: "File \<Rightarrow> string \<Rightarrow> string result" where
  "Memory_readLink root path =
     (case open_file (components path) root of
        None \<Rightarrow> Inl (Error ''file does not exist'')
      | Some (Symlink target) \<Rightarrow> Inr target
      | Some _ \<Rightarrow> Inl (Error ''file is not a symbolic link''))"

definition MemorySourceAccessor :: "File \<Rightarrow> accessor" where
  "MemorySourceAccessor root = \<lparr>
     maybeLstat = Memory_maybeLstat root,
     readFile = Memory_readFile root,
     readDirectory = Memory_readDirectory root,
     readLink = Memory_readLink root\<rparr>"

abbreviation no_dir :: "'a result" where
  "no_dir \<equiv> Inl (Error ''file cannot be made because some parent file is not a directory'')"

definition addFile :: "string \<Rightarrow> string \<Rightarrow> File \<Rightarrow> File result" where
  "addFile path contents root =
     (case open_create (components path) (Regular False []) False root of
        None \<Rightarrow> no_dir
      | Some (root, Regular executable _) \<Rightarrow> Inr (replace_at (components path) (Regular executable contents) root)
      | Some _ \<Rightarrow> Inl (Error ''file is not a regular file''))"

definition MemorySink_createDirectory :: "string \<Rightarrow> File \<Rightarrow> File result" where
  "MemorySink_createDirectory path root =
     (case open_create (components path) (Directory []) False root of
        None \<Rightarrow> no_dir
      | Some (root, Directory _) \<Rightarrow> Inr root
      | Some _ \<Rightarrow> Inl (Error ''file is not a directory''))"

definition MemorySink_createRegularFile ::
  "string \<Rightarrow> (crf \<Rightarrow> (crf \<times> string) result) \<Rightarrow> File \<Rightarrow> (File \<times> string) result" where
  "MemorySink_createRegularFile path func root =
     (case open_create (components path) (Regular False []) False root of
        None \<Rightarrow> no_dir
      | Some (root, Regular executable contents) \<Rightarrow>
          rbind (func (executable, contents)) (\<lambda>((executable, contents), src).
            Inr (replace_at (components path) (Regular executable contents) root, src))
      | Some _ \<Rightarrow> Inl (Error ''file is not a regular file''))"

definition MemorySink_createSymlink :: "string \<Rightarrow> string \<Rightarrow> File \<Rightarrow> File result" where
  "MemorySink_createSymlink path target root =
     (case open_create (components path) (Symlink []) False root of
        None \<Rightarrow> no_dir
      | Some (root, Symlink _) \<Rightarrow> Inr (replace_at (components path) (Symlink target) root)
      | Some _ \<Rightarrow> Inl (Error ''file is not a symbolic link''))"

definition MemorySink :: "File fso_sink" where
  "MemorySink = \<lparr>
     createDirectory = MemorySink_createDirectory,
     createRegularFile = MemorySink_createRegularFile,
     createSymlink = MemorySink_createSymlink\<rparr>"

section \<open>copyRecursive\<close>

text \<open>
  The recursion follows the directory tree of the accessor, which need not be finite in depth:
  fuel, with \<open>None\<close> when it runs out. The loop over the entries ends with a \<^verbatim>\<open>break\<close>.
\<close>

fun copyRecursive :: "nat \<Rightarrow> accessor \<Rightarrow> string \<Rightarrow> 's fso_sink \<Rightarrow> string \<Rightarrow> 's \<Rightarrow> 's result option" where
  "copyRecursive 0 acc from_path sink to st = None"
| "copyRecursive (Suc fuel) acc from_path sink to st =
     (case lstat acc from_path of
        Inl e \<Rightarrow> Some (Inl e)
      | Inr stat \<Rightarrow>
          (case st_type stat of
             tSymlink \<Rightarrow> Some (rbind (readLink acc from_path) (\<lambda>target. createSymlink sink to target st))
           | tRegular \<Rightarrow>
               Some (rbind (createRegularFile sink to
                 (\<lambda>(executable, contents).
                    rbind (readFile acc from_path) (\<lambda>data.
                      Inr ((executable \<or> isExecutable stat, contents @ data), []))) st)
                 (\<lambda>(st, _). Inr st))
           | tDirectory \<Rightarrow>
               (case createDirectory sink to st of
                  Inl e \<Rightarrow> Some (Inl e)
                | Inr st \<Rightarrow>
                    (case readDirectory acc from_path of
                       Inl e \<Rightarrow> Some (Inl e)
                     | Inr [] \<Rightarrow> Some (Inr st)
                     | Inr ((name, _) # _) \<Rightarrow>
                         (case (push from_path name, push to name) of
                            (Inr from_path, Inr to) \<Rightarrow> copyRecursive fuel acc from_path sink to st
                          | (Inl e, _) \<Rightarrow> Some (Inl e)
                          | (_, Inl e) \<Rightarrow> Some (Inl e))))
           | _ \<Rightarrow> Some (Inl (Error ''file has an unsupported type''))))"


section \<open>The in-memory file system: laws\<close>

lemma omap_assign_assign: "omap_assign k v (omap_assign k u m) = omap_assign k v m"
  by (induction m) auto

lemma open_replace: "open_file cs root = Some x \<Longrightarrow> open_file cs (replace_at cs a root) = Some a"
  by (induction cs arbitrary: root) (auto split: File.splits option.splits)

lemma replace_replace: "replace_at cs a (replace_at cs b root) = replace_at cs a root"
proof (induction cs arbitrary: root)
  case (Cons c cs)
  then show ?case by (cases root) (auto simp: omap_assign_assign split: option.splits)
qed simp

lemma open_file_append: "open_file (cs @ ds) root = Option.bind (open_file cs root) (open_file ds)"
  by (induction cs arbitrary: root) (auto split: File.splits option.splits)

lemma open_create_new:
  "open_file cs root = Some (Directory es) \<Longrightarrow> map_of es n = None \<Longrightarrow>
     open_create (cs @ [n]) c False root = Some (replace_at cs (Directory (omap_assign n c es)) root, c)"
  by (induction cs arbitrary: root) (auto split: File.splits option.splits)

lemma replace_snoc:
  "open_file cs root = Some (Directory es) \<Longrightarrow> map_of es n = Some y \<Longrightarrow>
     replace_at (cs @ [n]) a root = replace_at cs (Directory (omap_assign n a es)) root"
  by (induction cs arbitrary: root) (auto split: File.splits option.splits)

lemma replace_created:
  assumes "open_file cs root = Some (Directory es)"
  shows "replace_at (cs @ [n]) a (replace_at cs (Directory (omap_assign n c es)) root) =
    replace_at cs (Directory (omap_assign n a es)) root"
  using replace_snoc [OF open_replace [OF assms], of "omap_assign n c es" n c a]
  by (simp add: replace_replace omap_assign_assign)

lemma open_created:
  assumes "open_file cs root = Some (Directory es)"
  shows "open_file (cs @ [n]) (replace_at cs (Directory (omap_assign n c es)) root) = Some c"
  using open_replace [OF assms] by (simp add: open_file_append)

text \<open>Reading and writing at paths.\<close>

lemma open_create_open:
  "open_create cs c False root = Some (root', f) \<Longrightarrow> open_file cs root' = Some f"
proof -
  have "open_create cs c newF root = Some (root', f) \<Longrightarrow> open_file cs root' = Some f" for newF
  proof (induction cs arbitrary: root root' newF)
    case (Cons n cs)
    then show ?case by (auto simp: Let_def split: File.splits option.splits prod.splits)
  qed (simp add: Let_def)
  then show "open_create cs c False root = Some (root', f) \<Longrightarrow> open_file cs root' = Some f" by blast
qed

lemma open_file_new_dir: "open_create ds c True (Directory []) = Some (f, t) \<Longrightarrow> open_file es f = Some x \<Longrightarrow>
   \<not> prefix ds es \<Longrightarrow> prefix es ds"
proof (induction ds arbitrary: es f x)
  case (Cons d ds)
  then obtain f' where f': "open_create ds c True (Directory []) = Some (f', t)" "f = Directory [(d, f')]"
    by (auto split: option.splits)
  show ?case
  proof (cases es)
    case (Cons e es')
    with Cons.prems f' have "e = d" "open_file es' f' = Some x" by (auto split: if_splits)
    with Cons.IH [OF f'(1)] Cons.prems Cons show ?thesis by simp
  qed simp
qed simp

text \<open>A file elsewhere is not changed: neither by a creation nor by a write.\<close>

lemma open_replace_other:
  "\<not> prefix cs ds \<Longrightarrow> \<not> prefix ds cs \<Longrightarrow> open_file ds (replace_at cs a root) = open_file ds root"
proof (induction cs arbitrary: ds root)
  case (Cons c cs)
  then obtain d ds' where ds: "ds = d # ds'" by (cases ds) auto
  with Cons show ?case by (auto split: File.splits option.splits)
qed simp

lemma open_create_other:
  "open_create cs c newF root = Some (root', f) \<Longrightarrow> \<not> prefix cs ds \<Longrightarrow> \<not> prefix ds cs \<Longrightarrow>
     open_file ds root' = open_file ds root"
proof (induction cs arbitrary: ds root root' newF)
  case (Cons c' cs)
  then obtain d ds' where ds: "ds = d # ds'" by (cases ds) auto
  have new: "open_file ds' f'' = None"
    if "open_create cs c True (Directory []) = Some (f'', f)" "d = c'" for f''
    using open_file_new_dir [OF that(1), of ds'] Cons.prems ds that(2) by (cases "open_file ds' f''") auto
  from Cons ds new show ?case
    by (auto simp: Let_def split: File.splits option.splits prod.splits if_splits)
qed simp


section \<open>Resolving symbolic links: the result is resolved\<close>

definition no_links :: "accessor \<Rightarrow> string list \<Rightarrow> bool" where
  "no_links acc cs \<longleftrightarrow> (\<forall>ds st. prefix ds cs \<and> ds \<noteq> [] \<and> maybeLstat acc (render ds) = Some st \<longrightarrow> st_type st \<noteq> tSymlink)"

lemma no_links_butlast: "no_links acc cs \<Longrightarrow> no_links acc (butlast cs)"
  unfolding no_links_def by (meson prefix_order.trans prefixeq_butlast)

lemma no_links_snoc:
  "no_links acc (cs @ [c]) \<longleftrightarrow> no_links acc cs \<and>
     (\<forall>st. maybeLstat acc (render (cs @ [c])) = Some st \<longrightarrow> st_type st \<noteq> tSymlink)"
  by (auto simp: no_links_def)

lemma no_links_Nil [simp]: "no_links acc []"
  by (simp add: no_links_def)

lemma push_render:
  assumes "list_all component cs" "c \<noteq> []" "slash \<notin> set c"
  shows "push (render cs) c = (if c = ''.'' \<or> c = ''..'' then Inl (AssertionFailed ''c != \".\" && c != \"..\"'')
     else Inr (render (cs @ [c])))"
  using assms isRoot_render [OF assms(1)]
  by (cases "cs = []") (auto simp: push_def render_def assert_that_def)

lemma components_plain: "list_all component cs \<Longrightarrow> \<forall>c \<in> set cs. slash \<notin> set c"
  by (auto simp: list_all_iff component_def)

lemma tokens_plain: "\<forall>c \<in> set (tokenizeString s ''/''). slash \<notin> set c"
proof -
  have "\<forall>c \<in> set (splitString s ''/''). slash \<notin> set c"
  proof (induction s)
    case (Cons d s)
    then show ?case
      by (cases "d = slash"; cases "splitString s ''/''") (auto simp: splitString_sep splitString_Cons)
  qed simp
  then show ?thesis by (simp add: tokenizeString_filter)
qed

definition resolved :: "accessor \<Rightarrow> SymlinkResolution \<Rightarrow> string \<Rightarrow> bool" where
  "resolved acc mode res \<longleftrightarrow>
     (\<exists>ds. list_all component ds \<and> res = render ds \<and> no_links acc (if mode = Full then ds else butlast ds))"

lemma resolve_loop_resolved:
  assumes "resolve_loop acc mode n todo (render cs) = Inr res" "list_all component cs"
    and "\<forall>c \<in> set todo. slash \<notin> set c" "no_links acc (if mode = Full \<or> todo \<noteq> [] then cs else butlast cs)"
  shows "resolved acc mode res"
  using assms
proof (induction n arbitrary: todo cs rule: less_induct)
  case outer: (less n)
  from outer.prems show ?case
  proof (induction todo arbitrary: cs)
    case Nil
    then show ?case by (auto simp: resolved_def)
  next
    case (Cons c todo)
    note eq = Cons.prems(1) and cs = Cons.prems(2) and plain = Cons.prems(3)
    have clean: "no_links acc cs" using Cons.prems(4) by simp
    have tail: "resolved acc mode res"
      if "resolve_loop acc mode n todo (render ds) = Inr res" "list_all component ds"
        "no_links acc (if mode = Full \<or> todo \<noteq> [] then ds else butlast ds)" for ds
      using that plain by (intro Cons.IH) auto
    have same: "no_links acc (if mode = Full \<or> todo \<noteq> [] then ds else butlast ds)" if "no_links acc ds" for ds
      using that no_links_butlast by simp
    have butl: "list_all component (butlast cs)" using cs by (auto simp: list_all_iff dest: in_set_butlastD)
    consider "c = [] \<or> c = ''.''" | "c = ''..''" | "c \<noteq> []" "c \<noteq> ''.''" "c \<noteq> ''..''" by blast
    then show ?case
    proof cases
      case 1
      then show ?thesis using eq cs same [OF clean] by (intro tail [of cs]) auto
    next
      case 2
      then show ?thesis
        using eq cs clean butl isRoot_render [OF cs] tail [of cs] tail [of "butlast cs"]
          same [OF clean] same [OF no_links_butlast [OF clean]] pop_render [OF cs]
        by (auto split: if_splits)
    next
      case 3
      define ds where "ds = cs @ [c]"
      have "component c" using 3 plain by (simp add: component_def)
      then have ds: "list_all component ds" "push (render cs) c = Inr (render ds)"
        using 3 plain cs push_render [OF cs, of c] by (simp_all add: ds_def)
      have pop: "pop (render ds) = Inr (render cs)" using pop_render [OF ds(1)] by (simp add: ds_def)
      show ?thesis
      proof (cases "mode = Full \<or> todo \<noteq> []")
        case False
        then show ?thesis using eq 3 ds clean by (intro tail [of ds]) (auto simp: ds_def)
      next
        case True
        show ?thesis
        proof (cases "\<exists>st. maybeLstat acc (render ds) = Some st \<and> st_type st = tSymlink")
          case False
          then have "no_links acc ds" using clean by (auto simp: ds_def no_links_snoc)
          with True False eq 3 ds same show ?thesis by (intro tail [of ds]) (auto split: option.splits)
        next
          case link: True
          with eq 3 ds pop True obtain n' target where n': "n = Suc n'"
            "resolve_loop acc mode n' (tokenizeString target ''/'' @ todo)
               (if target \<noteq> [] \<and> hd target = slash then ''/'' else render cs) = Inr res"
            by (auto simp: result_simps split: nat.splits)
          define base where "base = (if target \<noteq> [] \<and> hd target = slash then [] else cs)"
          have b: "list_all component base" "no_links acc base" using cs clean by (auto simp: base_def)
          have "resolve_loop acc mode n' (tokenizeString target ''/'' @ todo) (render base) = Inr res"
            using n'(2) by (cases "target \<noteq> [] \<and> hd target = slash") (auto simp: base_def render_def [of "[]"])
          moreover have "\<forall>c \<in> set (tokenizeString target ''/'' @ todo). slash \<notin> set c"
            using tokens_plain [of target] plain by auto
          ultimately show ?thesis
            using outer.IH [of n' "tokenizeString target ''/'' @ todo" base] n'(1) b no_links_butlast by simp
        qed
      qed
    qed
  qed
qed

section \<open>Theorems\<close>

text \<open>
  C38: \<^verbatim>\<open>resolveSymlinks\<close> ends (it is a total function: at most 1024 links are followed) and, if it
  returns, returns a canonical path of which no prefix is a symbolic link; in the mode
  \<^verbatim>\<open>Ancestors\<close> the last component is exempt.
\<close>

theorem resolveSymlinks_resolved:
  assumes "canonical path" "resolveSymlinks acc path mode = Inr res"
  shows "\<exists>ds. list_all component ds \<and> res = render ds \<and>
    (\<forall>es st. prefix es (if mode = Full then ds else butlast ds) \<and> es \<noteq> [] \<and>
       maybeLstat acc (render es) = Some st \<longrightarrow> st_type st \<noteq> tSymlink)"
proof -
  obtain cs where "list_all component cs" "components path = cs" using assms(1) by (elim canonical_cases)
  then have "resolved acc mode res"
    using assms(2) resolve_loop_resolved [of acc mode 1024 cs "[]" res] components_plain [of cs]
    by (simp add: resolveSymlinks_def render_def)
  then show ?thesis unfolding resolved_def no_links_def .
qed

theorem resolveSymlinks_resolved_witness:
  "resolveSymlinks (MemorySourceAccessor (Directory [(''a'', Symlink ''/b/c''), (''b'', Directory [(''c'', Regular False ''x'')])])) ''/a'' Full =
     Inr ''/b/c'' \<and> (\<exists>ds. list_all component ds \<and> ''/b/c'' = render ds)"
proof -
  let ?acc = "MemorySourceAccessor (Directory [(''a'', Symlink ''/b/c''), (''b'', Directory [(''c'', Regular False ''x'')])])"
  have r: "resolveSymlinks ?acc ''/a'' Full = Inr ''/b/c''" by code_simp
  have c: "canonical ''/a''" using canonical_render [of "[''a'']"] by (simp add: render_def component_def)
  from resolveSymlinks_resolved [OF c r] r show ?thesis by blast
qed

text \<open>
  The in-memory file system behaves like one: after \<^verbatim>\<open>addFile\<close> the file has the contents
  written, and every file at a path that is neither above nor below is unchanged; a failure is
  always an \<^verbatim>\<open>Error\<close>.
\<close>

theorem addFile_correct:
  "(case addFile path data root of
      Inr root' \<Rightarrow> Memory_readFile root' path = Inr data \<and>
        (\<forall>q. \<not> prefix (components path) (components q) \<and> \<not> prefix (components q) (components path) \<longrightarrow>
           open_file (components q) root' = open_file (components q) root)
    | Inl e \<Rightarrow> \<exists>msg. e = Error msg)"
proof (cases "open_create (components path) (Regular False []) False root")
  case (Some rf)
  obtain root1 f where rf: "rf = (root1, f)" by (cases rf)
  note op = open_create_open [of "components path" _ root root1 f]
  show ?thesis
    using Some rf op open_replace [of "components path" root1] open_replace_other [of "components path"]
      open_create_other [of "components path" "Regular False []" False root root1 f]
    by (cases f) (auto simp: addFile_def Memory_readFile_def)
qed (simp add: addFile_def)

theorem addFile_correct_witness:
  "(case addFile ''/a'' ''new'' (Directory [(''b'', Regular False ''y'')]) of
      Inr root' \<Rightarrow> Memory_readFile root' ''/a'' = Inr ''new'' \<and> open_file (components ''/b'') root' = Some (Regular False ''y'')
    | Inl e \<Rightarrow> False)"
proof -
  have c: "components ''/a'' = [''a'']" "components ''/b'' = [''b'']"
    using components_render [of "[''a'']"] components_render [of "[''b'']"] by (simp_all add: render_def component_def)
  have "addFile ''/a'' ''new'' (Directory [(''b'', Regular False ''y'')]) =
      Inr (Directory [(''a'', Regular False ''new''), (''b'', Regular False ''y'')])" by code_simp
  with addFile_correct [of "''/a''" "''new''" "Directory [(''b'', Regular False ''y'')]"] c show ?thesis by auto
qed

text \<open>
  \<^verbatim>\<open>copyRecursive\<close> copies only the first entry of a directory, because of the \<^verbatim>\<open>break\<close> in its
  loop: a directory of two files is copied to a directory of one.
\<close>

theorem copyRecursive_drops_entries:
  "copyRecursive 3 (MemorySourceAccessor (Directory [(''a'', Regular False ''x''), (''b'', Regular False ''y'')])) ''/''
     MemorySink ''/'' (Directory []) = Some (Inr (Directory [(''a'', Regular False ''x'')]))"
  by code_simp

end
