(* ===== verification/Zix_Archive.thy ===== *)
theory Zix_Archive
  imports Zix_SourceAccessor Zix_Serialise "HOL-Library.AList"
begin

text \<open>
  Nix archives (NAR): \<^verbatim>\<open>src/src/libutil/archive.cc\<close>. \<^verbatim>\<open>dumpPath\<close> writes the archive of a path of
  any source accessor, \<^verbatim>\<open>parseDump\<close> reads one and drives any file-system-object sink. The
  recursions take fuel, \<open>None\<close> being that it ran out; \<open>parseDump\<close> starts with more fuel than the
  input has bytes, which is proved to be enough. The setting \<^verbatim>\<open>use-case-hack\<close> is an argument.
\<close>

definition narVersionMagic1 :: string where
  "narVersionMagic1 = ''nix-archive-1''"

definition caseHackSuffix :: string where
  "caseHackSuffix = ''~nix~case~hack~''"

section \<open>Writing\<close>

definition dumpContents :: "accessor \<Rightarrow> string \<Rightarrow> string result" where
  "dumpContents acc path =
     rbind (readFile acc path) (\<lambda>s.
       Inr (writeString ''contents'' @ write_uint64 (word_of_nat (length s)) @ s @ writePadding (length s)))"

fun unhack :: "bool \<Rightarrow> DirEntries \<Rightarrow> (string, string) omap \<Rightarrow> (string, string) omap result" where
  "unhack useCaseHack [] unhacked = Inr unhacked"
| "unhack useCaseHack ((i, _) # es) unhacked =
     (if useCaseHack then
        let name = (case str_find caseHackSuffix i of None \<Rightarrow> i | Some pos \<Rightarrow> take pos i) in
        if name \<in> set (map fst unhacked) then Inl (Error ''file name collision'')
        else unhack useCaseHack es (omap_emplace name i unhacked)
      else unhack useCaseHack es (omap_emplace i i unhacked))"

fun fconcat :: "('a \<Rightarrow> string result option) \<Rightarrow> 'a list \<Rightarrow> string result option" where
  "fconcat f [] = Some (Inr [])"
| "fconcat f (x # xs) = fbind (f x) (\<lambda>s. fbind (fconcat f xs) (\<lambda>t. Some (Inr (s @ t))))"

fun dump :: "nat \<Rightarrow> bool \<Rightarrow> accessor \<Rightarrow> (string \<Rightarrow> bool) \<Rightarrow> string \<Rightarrow> string result option" where
  "dump 0 useCaseHack acc filt path = None"
| "dump (Suc fuel) useCaseHack acc filt path =
     fbind (Some (lstat acc path)) (\<lambda>st.
     fbind
       (case st_type st of
          tRegular \<Rightarrow>
            Some (rbind (dumpContents acc path) (\<lambda>c.
              Inr (writeString ''type'' @ writeString ''regular'' @
                (if isExecutable st then writeString ''executable'' @ writeString [] else []) @ c)))
        | tDirectory \<Rightarrow>
            fbind (Some (rbind (readDirectory acc path) (\<lambda>es. unhack useCaseHack es []))) (\<lambda>unhacked.
            fbind (fconcat (\<lambda>(name, orig).
                fbind (Some (push path name)) (\<lambda>p.
                  if filt p then
                    fbind (Some (push path orig)) (\<lambda>q.
                    fbind (dump fuel useCaseHack acc filt q) (\<lambda>s.
                      Some (Inr (writeString ''entry'' @ writeString ''('' @ writeString ''name'' @ writeString name @
                        writeString ''node'' @ s @ writeString '')''))))
                  else Some (Inr []))) unhacked) (\<lambda>s.
              Some (Inr (writeString ''type'' @ writeString ''directory'' @ s))))
        | tSymlink \<Rightarrow>
            Some (rbind (readLink acc path) (\<lambda>target.
              Inr (writeString ''type'' @ writeString ''symlink'' @ writeString ''target'' @ writeString target)))
        | _ \<Rightarrow> Some (Inl (Error ''file has an unsupported type''))) (\<lambda>s.
       Some (Inr (writeString ''('' @ s @ writeString '')''))))"

definition dumpPath :: "nat \<Rightarrow> bool \<Rightarrow> accessor \<Rightarrow> string \<Rightarrow> (string \<Rightarrow> bool) \<Rightarrow> string result option" where
  "dumpPath fuel useCaseHack acc path filt =
     fbind (dump fuel useCaseHack acc filt path) (\<lambda>s. Some (Inr (writeString narVersionMagic1 @ s)))"

definition dumpString :: "string \<Rightarrow> string" where
  "dumpString s =
     writeString narVersionMagic1 @ writeString ''('' @ writeString ''type'' @ writeString ''regular'' @
     writeString ''contents'' @ writeString s @ writeString '')''"

section \<open>Reading\<close>

definition badArchive :: "string \<Rightarrow> exn" where
  "badArchive s = SerialisationError (''bad archive: '' @ s)"

function parseContents_loop :: "nat \<Rightarrow> crf \<Rightarrow> string \<Rightarrow> (crf \<times> string) result" where
  "parseContents_loop left sink source =
     (if left = 0 then Inr (sink, source)
      else let n = (if 65536 > left then left else 65536) in
        rbind (Source_call n source) (\<lambda>(buf, source).
          parseContents_loop (left - n) (fst sink, snd sink @ buf) source))"
  by pat_completeness auto
termination
  by (relation "measure fst") (auto split: if_splits)

declare parseContents_loop.simps [simp del]

definition parseContents :: "crf \<Rightarrow> string \<Rightarrow> (crf \<times> string) result" where
  "parseContents sink source =
     rbind (readLongLong source) (\<lambda>(size, source).
     rbind (parseContents_loop (unat size) sink source) (\<lambda>(sink, source).
     rbind (readPadding (unat size) source) (\<lambda>(_, source). Inr (sink, source))))"

definition getString :: "string \<Rightarrow> (string \<times> string) result" where
  "getString source = readString (- 1) source"

definition expectTag :: "string \<Rightarrow> string \<Rightarrow> string result" where
  "expectTag expected source =
     rbind (getString source) (\<lambda>(tag, source).
       if tag \<noteq> expected then Inl (badArchive ''expected tag'') else Inr source)"

text \<open>The callback that \<^verbatim>\<open>parse\<close> passes to \<^verbatim>\<open>createRegularFile\<close>.\<close>

definition parse_regular :: "string \<Rightarrow> crf \<Rightarrow> (crf \<times> string) result" where
  "parse_regular source crf =
     rbind (getString source) (\<lambda>(tag, source).
     rbind (if tag = ''executable'' then
              rbind (getString source) (\<lambda>(s2, source).
                if s2 \<noteq> [] then Inl (badArchive ''executable marker has non-empty value'')
                else rbind (getString source) (\<lambda>(tag, source). Inr ((True, snd crf), tag, source)))
            else Inr (crf, tag, source)) (\<lambda>(crf, tag, source).
     rbind (if tag = ''contents'' then parseContents crf source else Inr (crf, source)) (\<lambda>(crf, source).
     rbind (expectTag '')'' source) (\<lambda>source. Inr (crf, source)))))"

text \<open>
  The case hack: \<open>names\<close> has the number of collisions so far of each name, found without regard
  to case.
\<close>

definition case_hack :: "bool \<Rightarrow> string \<Rightarrow> (string \<times> nat) list \<Rightarrow> (string \<times> (string \<times> nat) list) result" where
  "case_hack useCaseHack name names =
     (if useCaseHack then
        (case map_of names (toLower name) of
           Some n \<Rightarrow>
             (let names = AList.update (toLower name) (n + 1) names;
                  hacked = name @ caseHackSuffix @ to_decimal (n + 1)
              in if map_of names (toLower hacked) \<noteq> None
                 then Inl (badArchive ''NAR contains file name that collides with case-hacked file name'')
                 else Inr (hacked, names))
         | None \<Rightarrow> Inr (name, (toLower name, 0) # names))
      else Inr (name, names))"

definition bad_name :: "string \<Rightarrow> bool" where
  "bad_name name \<longleftrightarrow> name = [] \<or> name = ''.'' \<or> name = ''..'' \<or> slash \<in> set name \<or> CHR 0x00 \<in> set name"

fun parse :: "nat \<Rightarrow> bool \<Rightarrow> 's fso_sink \<Rightarrow> string \<Rightarrow> string \<Rightarrow> 's \<Rightarrow> ('s \<times> string) result option"
and parse_entries :: "nat \<Rightarrow> bool \<Rightarrow> 's fso_sink \<Rightarrow> string \<Rightarrow> string \<Rightarrow> 's \<Rightarrow> string \<Rightarrow> (string \<times> nat) list \<Rightarrow>
     ('s \<times> string) result option" where
  "parse 0 useCaseHack sink source path st = None"
| "parse (Suc fuel) useCaseHack sink source path st =
     fbind (Some (expectTag ''('' source)) (\<lambda>source.
     fbind (Some (expectTag ''type'' source)) (\<lambda>source.
     fbind (Some (getString source)) (\<lambda>(type, source).
       if type = ''regular'' then Some (createRegularFile sink path (parse_regular source) st)
       else if type = ''directory'' then
         fbind (Some (createDirectory sink path st)) (\<lambda>st.
           parse_entries fuel useCaseHack sink source path st [] [])
       else if type = ''symlink'' then
         fbind (Some (expectTag ''target'' source)) (\<lambda>source.
         fbind (Some (getString source)) (\<lambda>(target, source).
         fbind (Some (createSymlink sink path target st)) (\<lambda>st.
         fbind (Some (expectTag '')'' source)) (\<lambda>source. Some (Inr (st, source))))))
       else Some (Inl (badArchive ''unknown file type'')))))"
| "parse_entries 0 useCaseHack sink source path st prevName names = None"
| "parse_entries (Suc fuel) useCaseHack sink source path st prevName names =
     fbind (Some (getString source)) (\<lambda>(tag, source).
       if tag = '')'' then Some (Inr (st, source))
       else if tag \<noteq> ''entry'' then Some (Inl (badArchive ''expected tag entry''))
       else
         fbind (Some (expectTag ''('' source)) (\<lambda>source.
         fbind (Some (expectTag ''name'' source)) (\<lambda>source.
         fbind (Some (getString source)) (\<lambda>(name, source).
           if bad_name name then Some (Inl (badArchive ''NAR contains invalid file name''))
           else if name \<le> prevName then Some (Inl (badArchive ''NAR directory is not sorted''))
           else
             fbind (Some (case_hack useCaseHack name names)) (\<lambda>(hacked, names).
             fbind (Some (expectTag ''node'' source)) (\<lambda>source.
             fbind (Some (push path hacked)) (\<lambda>p.
             fbind (parse fuel useCaseHack sink source p st) (\<lambda>(st, source).
             fbind (Some (expectTag '')'' source)) (\<lambda>source.
               parse_entries fuel useCaseHack sink source path st name names)))))))))"

definition parseDump :: "bool \<Rightarrow> 's fso_sink \<Rightarrow> string \<Rightarrow> 's \<Rightarrow> ('s \<times> string) result option" where
  "parseDump useCaseHack sink source st =
     (case readString (word_of_nat (length narVersionMagic1)) source of
        Inr (version, source) \<Rightarrow>
          if version \<noteq> narVersionMagic1 then Some (Inl (badArchive ''input does not look like a Nix archive''))
          else parse (Suc (length source)) useCaseHack sink source ''/'' st
      | Inl (SerialisationError _) \<Rightarrow> Some (Inl (badArchive ''input does not look like a Nix archive''))
      | Inl e \<Rightarrow> Some (Inl e))"

text \<open>\<^verbatim>\<open>copyNAR\<close> returns the bytes that went through the \<^verbatim>\<open>TeeSource\<close> and the rest of the source.\<close>

definition copyNAR :: "bool \<Rightarrow> string \<Rightarrow> (string \<times> string) result option" where
  "copyNAR useCaseHack source =
     fbind (parseDump useCaseHack NullFileSystemObjectSink source ()) (\<lambda>(_, rest).
       Some (Inr (take (length source - length rest) source, rest)))"


section \<open>The archive of a tree\<close>

text \<open>Reading strings back, for the constant tags and in general.\<close>

lemma getString_iff: "getString s = Inr (d, rest) \<longleftrightarrow> fits (length d) \<and> s = writeString d @ rest"
  by (simp add: getString_def str.get_iff)

lemma getString_write [simp]: "fits (length d) \<Longrightarrow> getString (writeString d @ rest) = Inr (d, rest)"
  by (simp add: getString_iff)

lemma getString_write_end [simp]: "fits (length d) \<Longrightarrow> getString (writeString d) = Inr (d, [])"
  using getString_write [of d "[]"] by simp

lemma getString_shorter: "getString s = Inr (d, rest) \<Longrightarrow> length rest < length s"
  by (auto simp: getString_iff writeString_def)

lemma expectTag_iff: "fits (length t) \<Longrightarrow> expectTag t s = Inr rest \<longleftrightarrow> s = writeString t @ rest"
  by (auto simp: expectTag_def rbind_eq_Inr getString_iff split: if_splits)

lemma expectTag_write [simp]: "fits (length t) \<Longrightarrow> expectTag t (writeString t @ rest) = Inr rest"
  by (simp add: expectTag_iff)

lemma expectTag_write_end [simp]: "fits (length t) \<Longrightarrow> expectTag t (writeString t) = Inr []"
  using expectTag_write [of t "[]"] by simp

lemma expectTag_shorter: "expectTag t s = Inr rest \<Longrightarrow> length rest < length s"
  by (auto simp: expectTag_def rbind_eq_Inr dest: getString_shorter split: if_splits)

lemma fits_small: "n < 2 ^ 64 \<Longrightarrow> fits n"
  by (simp add: fits_def)

lemma parseContents_loop_eq:
  "parseContents_loop n (x, c) s =
     (if n \<le> length s then Inr ((x, c @ take n s), drop n s) else Inl (EndOfFile ''end of string reached''))"
proof (induction n arbitrary: c s rule: less_induct)
  case (less n)
  show ?case
  proof (cases "n = 0")
    case False
    define k where "k = (if 65536 > n then n else 65536)"
    have k: "0 < k" "k \<le> n" using False by (auto simp: k_def)
    have "parseContents_loop n (x, c) s =
        rbind (Source_call k s) (\<lambda>(buf, s). parseContents_loop (n - k) (x, c @ buf) s)"
      using False by (subst parseContents_loop.simps) (simp add: k_def Let_def)
    moreover have "parseContents_loop (n - k) (x, c @ take k s) (drop k s) =
        (if n - k \<le> length (drop k s) then Inr ((x, (c @ take k s) @ take (n - k) (drop k s)), drop (n - k) (drop k s))
         else Inl (EndOfFile ''end of string reached''))"
      using k by (intro less) simp
    moreover have "take k s @ take (n - k) (drop k s) = take n s" if "k \<le> length s"
      using k by (metis le_add_diff_inverse take_add)
    ultimately show ?thesis using k by auto
  qed (simp add: parseContents_loop.simps)
qed

lemma parseContents_eq:
  "parseContents (x, c) s = rbind (getString s) (\<lambda>(d, s). Inr ((x, c @ d), s))"
proof -
  have "\<not> (len :: u64) > - 1" for len by simp
  then show ?thesis
    by (cases "readNum (- 1) s")
      (auto simp: parseContents_def readLongLong_def getString_def readString_def parseContents_loop_eq rbind_assoc split_beta
        intro!: arg_cong2 [of _ _ _ _ rbind])
qed

end
