(* ===== verification/Zix_Nar.thy ===== *)
theory Zix_Nar
  imports Zix_Archive
begin

text \<open>
  Correctness of NAR archives on the in-memory file system. \<open>nar\<close> is the archive of a tree,
  \<open>nar_node\<close> the language that \<^verbatim>\<open>parse\<close> accepts with the tree each word denotes; the parser with
  a \<^verbatim>\<open>MemorySink\<close> is first related to a parser that returns the tree (\<open>tree_parse\<close>), and that one
  to the language.
\<close>

section \<open>The archive of a tree and the language of the parser\<close>

fun nar :: "File \<Rightarrow> string" where
  "nar (Regular executable contents) =
     writeString ''('' @ writeString ''type'' @ writeString ''regular'' @
     (if executable then writeString ''executable'' @ writeString [] else []) @
     writeString ''contents'' @ writeString contents @ writeString '')''"
| "nar (Directory es) =
     writeString ''('' @ writeString ''type'' @ writeString ''directory'' @
     concat (map (\<lambda>(name, f).
       writeString ''entry'' @ writeString ''('' @ writeString ''name'' @ writeString name @
       writeString ''node'' @ nar f @ writeString '')'') es) @
     writeString '')''"
| "nar (Symlink target) =
     writeString ''('' @ writeString ''type'' @ writeString ''symlink'' @
     writeString ''target'' @ writeString target @ writeString '')''"

text \<open>Trees that have an archive: sorted directories, valid names, lengths of 64 bits.\<close>

fun file_wf :: "File \<Rightarrow> bool" where
  "file_wf (Regular executable contents) \<longleftrightarrow> fits (length contents)"
| "file_wf (Directory es) \<longleftrightarrow>
     omap_ok es \<and> list_all (\<lambda>(name, f). \<not> bad_name name \<and> fits (length name) \<and> file_wf f) es"
| "file_wf (Symlink target) \<longleftrightarrow> fits (length target)"

text \<open>
  The words of the parser. Beside the archive of a regular file, it accepts any tag in place of
  \<open>contents\<close>, and then the file is empty.
\<close>

inductive nar_node :: "File \<Rightarrow> string \<Rightarrow> bool" and nar_entries :: "string \<Rightarrow> (string \<times> File) list \<Rightarrow> string \<Rightarrow> bool" where
  regular: "fits (length c) \<Longrightarrow> nar_node (Regular x c) (nar (Regular x c))"
| regular_tag: "fits (length tag) \<Longrightarrow> tag \<noteq> ''contents'' \<Longrightarrow> x \<or> tag \<noteq> ''executable'' \<Longrightarrow>
    nar_node (Regular x [])
      (writeString ''('' @ writeString ''type'' @ writeString ''regular'' @
       (if x then writeString ''executable'' @ writeString [] else []) @ writeString tag @ writeString '')'')"
| symlink: "fits (length target) \<Longrightarrow> nar_node (Symlink target) (nar (Symlink target))"
| directory: "nar_entries [] es s \<Longrightarrow>
    nar_node (Directory es) (writeString ''('' @ writeString ''type'' @ writeString ''directory'' @ s)"
| no_entries: "nar_entries prev [] (writeString '')'')"
| entry: "fits (length name) \<Longrightarrow> \<not> bad_name name \<Longrightarrow> prev < name \<Longrightarrow> nar_node f s \<Longrightarrow> nar_entries name es t \<Longrightarrow>
    nar_entries prev ((name, f) # es)
      (writeString ''entry'' @ writeString ''('' @ writeString ''name'' @ writeString name @
       writeString ''node'' @ s @ writeString '')'' @ t)"

section \<open>The parser that returns the tree\<close>

fun tree_parse :: "nat \<Rightarrow> string \<Rightarrow> (File \<times> string) result option"
and tree_entries :: "nat \<Rightarrow> string \<Rightarrow> string \<Rightarrow> ((string \<times> File) list \<times> string) result option" where
  "tree_parse 0 source = None"
| "tree_parse (Suc fuel) source =
     fbind (Some (expectTag ''('' source)) (\<lambda>source.
     fbind (Some (expectTag ''type'' source)) (\<lambda>source.
     fbind (Some (getString source)) (\<lambda>(type, source).
       if type = ''regular'' then
         fbind (Some (parse_regular source (False, []))) (\<lambda>((x, c), source). Some (Inr (Regular x c, source)))
       else if type = ''directory'' then
         fbind (tree_entries fuel source []) (\<lambda>(es, source). Some (Inr (Directory es, source)))
       else if type = ''symlink'' then
         fbind (Some (expectTag ''target'' source)) (\<lambda>source.
         fbind (Some (getString source)) (\<lambda>(target, source).
         fbind (Some (expectTag '')'' source)) (\<lambda>source. Some (Inr (Symlink target, source)))))
       else Some (Inl (badArchive ''unknown file type'')))))"
| "tree_entries 0 source prev = None"
| "tree_entries (Suc fuel) source prev =
     fbind (Some (getString source)) (\<lambda>(tag, source).
       if tag = '')'' then Some (Inr ([], source))
       else if tag \<noteq> ''entry'' then Some (Inl (badArchive ''expected tag entry''))
       else
         fbind (Some (expectTag ''('' source)) (\<lambda>source.
         fbind (Some (expectTag ''name'' source)) (\<lambda>source.
         fbind (Some (getString source)) (\<lambda>(name, source).
           if bad_name name then Some (Inl (badArchive ''NAR contains invalid file name''))
           else if name \<le> prev then Some (Inl (badArchive ''NAR directory is not sorted''))
           else
             fbind (Some (expectTag ''node'' source)) (\<lambda>source.
             fbind (tree_parse fuel source) (\<lambda>(f, source).
             fbind (Some (expectTag '')'' source)) (\<lambda>source.
             fbind (tree_entries fuel source name) (\<lambda>(es, source).
               Some (Inr ((name, f) # es, source))))))))))"


text \<open>The constant tags, read back.\<close>

lemma getString_tag:
  "getString (writeString ''('' @ r) = Inr (''('', r)"
  "getString (writeString '')'' @ r) = Inr ('')'', r)"
  "getString (writeString ''type'' @ r) = Inr (''type'', r)"
  "getString (writeString ''regular'' @ r) = Inr (''regular'', r)"
  "getString (writeString ''executable'' @ r) = Inr (''executable'', r)"
  "getString (writeString ''contents'' @ r) = Inr (''contents'', r)"
  "getString (writeString ''directory'' @ r) = Inr (''directory'', r)"
  "getString (writeString ''entry'' @ r) = Inr (''entry'', r)"
  "getString (writeString ''name'' @ r) = Inr (''name'', r)"
  "getString (writeString ''node'' @ r) = Inr (''node'', r)"
  "getString (writeString ''symlink'' @ r) = Inr (''symlink'', r)"
  "getString (writeString ''target'' @ r) = Inr (''target'', r)"
  "getString (writeString [] @ r) = Inr ([], r)"
  by (rule getString_write, simp add: fits_def)+

lemma expectTag_tag_iff:
  "expectTag ''('' s = Inr r \<longleftrightarrow> s = writeString ''('' @ r"
  "expectTag '')'' s = Inr r \<longleftrightarrow> s = writeString '')'' @ r"
  "expectTag ''type'' s = Inr r \<longleftrightarrow> s = writeString ''type'' @ r"
  "expectTag ''name'' s = Inr r \<longleftrightarrow> s = writeString ''name'' @ r"
  "expectTag ''node'' s = Inr r \<longleftrightarrow> s = writeString ''node'' @ r"
  "expectTag ''target'' s = Inr r \<longleftrightarrow> s = writeString ''target'' @ r"
  by (rule expectTag_iff, simp add: fits_def)+

lemma expectTag_tag:
  "expectTag ''('' (writeString ''('' @ r) = Inr r"
  "expectTag '')'' (writeString '')'' @ r) = Inr r"
  "expectTag ''type'' (writeString ''type'' @ r) = Inr r"
  "expectTag ''name'' (writeString ''name'' @ r) = Inr r"
  "expectTag ''node'' (writeString ''node'' @ r) = Inr r"
  "expectTag ''target'' (writeString ''target'' @ r) = Inr r"
  by (rule expectTag_write, simp add: fits_def)+

lemmas tag_simps = getString_tag expectTag_tag

lemma writeString_nonempty [simp]: "writeString d \<noteq> []"
  by (simp add: writeString_def write_uint64_def)

lemma length_writeString: "8 \<le> length (writeString d)"
  by (simp add: writeString_def)

definition regular_word :: "bool \<Rightarrow> string \<Rightarrow> string \<Rightarrow> string \<Rightarrow> bool" where
  "regular_word x c tag s \<longleftrightarrow> fits (length tag) \<and> (x \<or> tag \<noteq> ''executable'') \<and>
     (if tag = ''contents'' then fits (length c) else c = []) \<and>
     s = (if x then writeString ''executable'' @ writeString [] else []) @ writeString tag @
       (if tag = ''contents'' then writeString c else []) @ writeString '')''"

abbreviation regular_tail :: "bool \<Rightarrow> string \<Rightarrow> string \<Rightarrow> (crf \<times> string) result" where
  "regular_tail x tag source \<equiv>
     rbind (if tag = ''contents'' then parseContents (x, []) source else Inr ((x, []), source)) (\<lambda>(crf, source).
     rbind (expectTag '')'' source) (\<lambda>source. Inr (crf, source)))"

lemma regular_tail_Inr:
  assumes "regular_tail x0 tag r = Inr ((x, c), rest)"
  shows "x = x0 \<and> (if tag = ''contents'' then fits (length c) \<and> r = writeString c @ writeString '')'' @ rest
    else c = [] \<and> r = writeString '')'' @ rest)"
proof (cases "tag = ''contents''")
  case True
  with assms show ?thesis by (auto simp: rbind_eq_Inr parseContents_eq getString_iff expectTag_tag_iff)
next
  case False
  with assms show ?thesis by (auto simp: rbind_eq_Inr expectTag_tag_iff)
qed

lemma parse_regular_Inr:
  assumes "parse_regular source (False, []) = Inr ((x, c), rest)"
  shows "\<exists>tag s. regular_word x c tag s \<and> source = s @ rest"
proof -
  obtain t1 r1 where 1: "getString source = Inr (t1, r1)"
    using assms by (auto simp: parse_regular_def rbind_eq_Inr)
  show ?thesis
  proof (cases "t1 = ''executable''")
    case True
    with assms 1 obtain r2 where r2: "getString r1 = Inr ([], r2)"
      by (cases "getString r1") (auto simp: parse_regular_def split: if_splits)
    with True assms 1 obtain t2 r3 where 2: "getString r2 = Inr (t2, r3)"
      "regular_tail True t2 r3 = Inr ((x, c), rest)"
      by (cases "getString r2") (auto simp: parse_regular_def)
    note t = regular_tail_Inr [OF 2(2)]
    show ?thesis
      using 1 r2 2(1) t True
      by (intro exI [of _ t2] exI [of _ "writeString ''executable'' @ writeString [] @ writeString t2 @
        (if t2 = ''contents'' then writeString c else []) @ writeString '')''"])
        (auto simp: getString_iff regular_word_def)
  next
    case False
    with assms 1 have 2: "regular_tail False t1 r1 = Inr ((x, c), rest)" by (simp add: parse_regular_def)
    note t = regular_tail_Inr [OF 2]
    show ?thesis
      using 1 t False
      by (intro exI [of _ t1] exI [of _ "writeString t1 @ (if t1 = ''contents'' then writeString c else []) @ writeString '')''"])
        (auto simp: getString_iff regular_word_def)
  qed
qed

lemma parse_regular_iff:
  "parse_regular source (False, []) = Inr ((x, c), rest) \<longleftrightarrow>
     (\<exists>tag s. regular_word x c tag s \<and> source = s @ rest)"
proof
  assume "parse_regular source (False, []) = Inr ((x, c), rest)"
  then show "\<exists>tag s. regular_word x c tag s \<and> source = s @ rest" by (rule parse_regular_Inr)
next
  assume "\<exists>tag s. regular_word x c tag s \<and> source = s @ rest"
  then obtain tag where t: "fits (length tag)" "x \<or> tag \<noteq> ''executable''"
    "if tag = ''contents'' then fits (length c) else c = []"
    "source = (if x then writeString ''executable'' @ writeString [] else []) @ writeString tag @
       (if tag = ''contents'' then writeString c else []) @ writeString '')'' @ rest"
    by (auto simp: regular_word_def)
  then show "parse_regular source (False, []) = Inr ((x, c), rest)"
    by (cases x; cases "tag = ''contents''") (simp_all add: parse_regular_def parseContents_eq tag_simps)
qed

lemma nar_node_regular:
  "(\<exists>tag s. regular_word x c tag s \<and> e = writeString ''('' @ writeString ''type'' @ writeString ''regular'' @ s) \<longleftrightarrow>
     nar_node (Regular x c) e"
proof
  assume "\<exists>tag s. regular_word x c tag s \<and> e = writeString ''('' @ writeString ''type'' @ writeString ''regular'' @ s"
  then obtain tag s where t: "regular_word x c tag s" "e = writeString ''('' @ writeString ''type'' @ writeString ''regular'' @ s"
    by blast
  show "nar_node (Regular x c) e"
  proof (cases "tag = ''contents''")
    case True
    with t regular [of c x] show ?thesis by (simp add: regular_word_def)
  next
    case False
    with t regular_tag [of tag x] show ?thesis by (simp add: regular_word_def)
  qed
next
  assume "nar_node (Regular x c) e"
  then show "\<exists>tag s. regular_word x c tag s \<and> e = writeString ''('' @ writeString ''type'' @ writeString ''regular'' @ s"
  proof cases
    case regular
    then show ?thesis
      by (intro exI [of _ "''contents''"] exI [of _ "(if x then writeString ''executable'' @ writeString [] else []) @
        writeString ''contents'' @ writeString c @ writeString '')''"]) (simp add: regular_word_def fits_def)
  next
    case (regular_tag tag)
    then show ?thesis
      by (intro exI [of _ tag] exI [of _ "(if x then writeString ''executable'' @ writeString [] else []) @
        writeString tag @ writeString '')''"]) (simp add: regular_word_def)
  qed
qed

lemma tree_parse_step:
  assumes IH: "\<And>s es rest. tree_entries fuel s [] = Some (Inr (es, rest)) \<Longrightarrow> \<exists>e. nar_entries [] es e \<and> s = e @ rest"
    and parse: "tree_parse (Suc fuel) source = Some (Inr (f, rest))"
  shows "\<exists>e. nar_node f e \<and> source = e @ rest"
proof -
  from parse obtain type r where t: "source = writeString ''('' @ writeString ''type'' @ writeString type @ r"
    "fits (length type)"
    by (auto simp: fbind_eq_Inr expectTag_tag_iff getString_iff)
  then have "type = ''regular'' \<or> type = ''directory'' \<or> type = ''symlink''"
    using parse by (auto simp: tag_simps split: if_splits)
  then show ?thesis
  proof (elim disjE)
    assume ty: "type = ''regular''"
    from parse t obtain x c where "parse_regular r (False, []) = Inr ((x, c), rest)" "f = Regular x c"
      by (auto simp: ty tag_simps fbind_eq_Inr)
    moreover from this(1) obtain tag s where w: "regular_word x c tag s" "r = s @ rest"
      using parse_regular_Inr by blast
    moreover from w(1) have "nar_node (Regular x c) (writeString ''('' @ writeString ''type'' @ writeString ''regular'' @ s)"
      using nar_node_regular by blast
    ultimately show ?thesis using t ty by auto
  next
    assume ty: "type = ''directory''"
    from parse t obtain es where es: "tree_entries fuel r [] = Some (Inr (es, rest))" "f = Directory es"
      by (auto simp: ty tag_simps fbind_eq_Inr)
    then obtain e where "nar_entries [] es e" "r = e @ rest" using IH by blast
    then show ?thesis using t ty es directory by auto
  next
    assume ty: "type = ''symlink''"
    from parse t show ?thesis using symlink
      by (auto simp: ty tag_simps fbind_eq_Inr expectTag_tag_iff getString_iff)
  qed
qed

lemma tree_entries_step:
  assumes IH1: "\<And>s f rest. tree_parse fuel s = Some (Inr (f, rest)) \<Longrightarrow> \<exists>e. nar_node f e \<and> s = e @ rest"
    and IH2: "\<And>s prev es rest. tree_entries fuel s prev = Some (Inr (es, rest)) \<Longrightarrow> \<exists>e. nar_entries prev es e \<and> s = e @ rest"
    and parse: "tree_entries (Suc fuel) source prev = Some (Inr (es, rest))"
  shows "\<exists>e. nar_entries prev es e \<and> source = e @ rest"
proof -
  from parse obtain tag r where t: "source = writeString tag @ r" "fits (length tag)"
    by (auto simp: fbind_eq_Inr getString_iff)
  show ?thesis
  proof (cases "tag = '')''")
    case True
    with parse t no_entries show ?thesis by (auto simp: tag_simps)
  next
    case False
    with parse t have tag: "tag = ''entry''" by (auto split: if_splits)
    with parse t obtain name r1 where n: "r = writeString ''('' @ writeString ''name'' @ writeString name @ r1" "fits (length name)"
      by (auto simp: tag_simps fbind_eq_Inr expectTag_tag_iff getString_iff)
    with parse t tag have "\<not> bad_name name" "prev < name"
      by (auto simp: tag_simps not_le split: if_splits)
    moreover from this n parse t tag obtain f r2 r3 fs where
      "r1 = writeString ''node'' @ r2" "tree_parse fuel r2 = Some (Inr (f, writeString '')'' @ r3))"
      "tree_entries fuel r3 name = Some (Inr (fs, rest))" "es = (name, f) # fs"
      by (auto simp: tag_simps fbind_eq_Inr expectTag_tag_iff not_le split: if_splits)
    moreover from this(2,3) obtain e1 e2 where "nar_node f e1" "r2 = e1 @ writeString '')'' @ r3"
      "nar_entries name fs e2" "r3 = e2 @ rest"
      using IH1 IH2 by metis
    ultimately show ?thesis using t n tag entry [of name prev f e1 fs e2] by auto
  qed
qed

lemma tree_sound:
  "tree_parse fuel s = Some (Inr (f, rest)) \<Longrightarrow> \<exists>e. nar_node f e \<and> s = e @ rest"
  "tree_entries fuel s prev = Some (Inr (es, rest)) \<Longrightarrow> \<exists>e. nar_entries prev es e \<and> s = e @ rest"
proof (induction fuel arbitrary: s f rest prev es)
  case (Suc fuel)
  case 1
  then show ?case using tree_parse_step [OF Suc.IH(2)] by blast
next
  case (Suc fuel)
  case 2
  then show ?case using tree_entries_step [OF Suc.IH] by blast
qed simp_all


lemma tree_complete:
  "nar_node f e \<Longrightarrow> (\<And>fuel rest. length e < fuel \<Longrightarrow> tree_parse fuel (e @ rest) = Some (Inr (f, rest)))"
  "nar_entries prev es s \<Longrightarrow> (\<And>fuel rest. length s < fuel \<Longrightarrow> tree_entries fuel (s @ rest) prev = Some (Inr (es, rest)))"
proof (induction rule: nar_node_nar_entries.inducts)
  case (regular c x)
  then obtain n where n: "fuel = Suc n" by (cases fuel) auto
  have "\<exists>tag s. regular_word x c tag s \<and>
      nar (Regular x c) = writeString ''('' @ writeString ''type'' @ writeString ''regular'' @ s"
    using nar_node_nar_entries.regular [OF regular(1)] nar_node_regular by blast
  then obtain tag s where "regular_word x c tag s"
    "nar (Regular x c) = writeString ''('' @ writeString ''type'' @ writeString ''regular'' @ s" by blast
  then show ?case using n parse_regular_iff [of "s @ rest" x c rest]
    by (auto simp: tag_simps simp del: nar.simps)
next
  case (regular_tag tag x)
  then obtain n where n: "fuel = Suc n" by (cases fuel) auto
  have "regular_word x [] tag ((if x then writeString ''executable'' @ writeString [] else []) @ writeString tag @ writeString '')'')"
    using regular_tag by (simp add: regular_word_def)
  then have "parse_regular (((if x then writeString ''executable'' @ writeString [] else []) @ writeString tag @ writeString '')'') @ rest) (False, []) = Inr ((x, []), rest)"
    using parse_regular_iff by blast
  then show ?case using n by (simp add: tag_simps)
next
  case (symlink target)
  then obtain n where n: "fuel = Suc n" by (cases fuel) auto
  with symlink show ?case by (simp add: tag_simps)
next
  case (directory es s)
  then obtain n where n: "fuel = Suc n" by (cases fuel) auto
  then have "length s < n" using directory.prems length_writeString [of "''(''"] by simp
  with directory n show ?case by (simp add: tag_simps)
next
  case (no_entries prev)
  then obtain n where n: "fuel = Suc n" by (cases fuel) auto
  then show ?case by (simp add: tag_simps)
next
  case (entry name prev f s es t)
  then obtain n where n: "fuel = Suc n" by (cases fuel) auto
  then have "length s < n" "length t < n" using entry.prems length_writeString [of "''entry''"] by simp_all
  with entry n show ?case by (simp add: tag_simps not_le)
qed

lemma tree_shorter: "tree_parse fuel s = Some (Inr (f, rest)) \<Longrightarrow> length rest \<le> length s"
  using tree_sound(1) by fastforce

lemma tree_total:
  "length s < fuel \<Longrightarrow> tree_parse fuel s \<noteq> None \<and> tree_entries fuel s prev \<noteq> None"
proof (induction fuel arbitrary: s prev)
  case (Suc fuel)
  have IH: "tree_parse fuel r \<noteq> None" "tree_entries fuel r p \<noteq> None" if "length r < length s" for r p
    using that Suc by simp_all
  have "tree_parse (Suc fuel) s \<noteq> None"
  proof
    assume "tree_parse (Suc fuel) s = None"
    then obtain r1 r2 r3 type where "expectTag ''('' s = Inr r1" "expectTag ''type'' r1 = Inr r2"
      "getString r2 = Inr (type, r3)" "tree_entries fuel r3 [] = None"
      by (auto simp: fbind_eq_None split: if_splits)
    then show False using IH(2) [of r3 "[]"] by (auto dest!: expectTag_shorter getString_shorter)
  qed
  moreover have "tree_entries (Suc fuel) s prev \<noteq> None"
  proof
    assume "tree_entries (Suc fuel) s prev = None"
    then obtain tag r1 r2 r3 r4 r5 name where r: "getString s = Inr (tag, r1)" "expectTag ''('' r1 = Inr r2"
      "expectTag ''name'' r2 = Inr r3" "getString r3 = Inr (name, r4)" "expectTag ''node'' r4 = Inr r5"
      and alt: "tree_parse fuel r5 = None \<or> (\<exists>f r6 r7. tree_parse fuel r5 = Some (Inr (f, r6)) \<and>
        expectTag '')'' r6 = Inr r7 \<and> tree_entries fuel r7 name = None)"
      by (auto simp: fbind_eq_None split: if_splits)
    have r5: "length r5 < length s" using r by (auto dest!: expectTag_shorter getString_shorter)
    from alt IH(1) [OF r5] obtain f r6 r7 where "tree_parse fuel r5 = Some (Inr (f, r6))"
      "expectTag '')'' r6 = Inr r7" "tree_entries fuel r7 name = None" by blast
    with IH(2) [of r7 name] r5 show False by (auto dest!: tree_shorter expectTag_shorter)
  qed
  ultimately show ?case by blast
qed simp

section \<open>The sink in memory receives the tree\<close>

text \<open>
  The state of the sink while the entry \<open>n\<close> of the directory at \<open>cs\<close> is parsed: the directory
  exists, with the entries parsed so far.
\<close>

definition put_entry :: "string list \<Rightarrow> string \<Rightarrow> File \<Rightarrow> (string \<times> File) list \<Rightarrow> File \<Rightarrow> File" where
  "put_entry cs n f es root = replace_at cs (Directory (omap_assign n f es)) root"

lemma bad_name_component: "\<not> bad_name n \<Longrightarrow> component n"
  by (auto simp: bad_name_def component_def)

lemma memory_create:
  assumes "list_all component cs" "component n" "open_file cs root = Some (Directory es)" "map_of es n = None"
  shows "MemorySink_createDirectory (render (cs @ [n])) root = Inr (put_entry cs n (Directory []) es root)"
    "MemorySink_createSymlink (render (cs @ [n])) target root = Inr (put_entry cs n (Symlink target) es root)"
    "MemorySink_createRegularFile (render (cs @ [n])) func root =
       rbind (func (False, [])) (\<lambda>((x, c), src). Inr (put_entry cs n (Regular x c) es root, src))"
proof -
  have comp: "components (render (cs @ [n])) = cs @ [n]" using assms by (simp add: components_render)
  note c = open_create_new [OF assms(3,4)] and r = replace_created [OF assms(3)]
  show "MemorySink_createDirectory (render (cs @ [n])) root = Inr (put_entry cs n (Directory []) es root)"
    "MemorySink_createSymlink (render (cs @ [n])) target root = Inr (put_entry cs n (Symlink target) es root)"
    "MemorySink_createRegularFile (render (cs @ [n])) func root =
       rbind (func (False, [])) (\<lambda>((x, c), src). Inr (put_entry cs n (Regular x c) es root, src))"
    by (simp_all add: MemorySink_createDirectory_def MemorySink_createSymlink_def MemorySink_createRegularFile_def
        comp c r put_entry_def)
qed


lemma MemorySink_ops [simp]:
  "createDirectory MemorySink = MemorySink_createDirectory"
  "createRegularFile MemorySink = MemorySink_createRegularFile"
  "createSymlink MemorySink = MemorySink_createSymlink"
  by (simp_all add: MemorySink_def)

definition entries_refined :: "nat \<Rightarrow> bool" where
  "entries_refined fuel \<longleftrightarrow> (\<forall>cs root es prev names s. list_all component cs \<and> open_file cs root = Some (Directory es) \<and>
     replace_at cs (Directory es) root = root \<and> (\<forall>e \<in> set es. fst e \<le> prev) \<longrightarrow>
     parse_entries fuel False MemorySink s (render cs) root prev names =
       fbind (tree_entries fuel s prev) (\<lambda>(fs, r). Some (Inr (replace_at cs (Directory (es @ fs)) root, r))))"

definition parse_refined :: "nat \<Rightarrow> bool" where
  "parse_refined fuel \<longleftrightarrow> (\<forall>cs n root es s. list_all component cs \<and> component n \<and>
     open_file cs root = Some (Directory es) \<and> map_of es n = None \<longrightarrow>
     parse fuel False MemorySink s (render (cs @ [n])) root =
       fbind (tree_parse fuel s) (\<lambda>(f, r). Some (Inr (put_entry cs n f es root, r))))"

lemma entries_refinedD:
  "entries_refined fuel \<Longrightarrow> list_all component cs \<Longrightarrow> open_file cs root = Some (Directory es) \<Longrightarrow>
     replace_at cs (Directory es) root = root \<Longrightarrow> \<forall>e \<in> set es. fst e \<le> prev \<Longrightarrow>
     parse_entries fuel False MemorySink s (render cs) root prev names =
       fbind (tree_entries fuel s prev) (\<lambda>(fs, r). Some (Inr (replace_at cs (Directory (es @ fs)) root, r)))"
  by (simp add: entries_refined_def)

lemma parse_refinedD:
  "parse_refined fuel \<Longrightarrow> list_all component cs \<Longrightarrow> component n \<Longrightarrow> open_file cs root = Some (Directory es) \<Longrightarrow>
     map_of es n = None \<Longrightarrow>
     parse fuel False MemorySink s (render (cs @ [n])) root =
       fbind (tree_parse fuel s) (\<lambda>(f, r). Some (Inr (put_entry cs n f es root, r)))"
  by (simp add: parse_refined_def)

lemma Some_rbind: "Some (rbind m f) = fbind (Some m) (\<lambda>a. Some (f a))"
  by (cases m) simp_all

lemma parse_refined_Suc:
  assumes "entries_refined fuel"
  shows "parse_refined (Suc fuel)"
  unfolding parse_refined_def
proof (intro allI impI, elim conjE)
  fix cs n root es s
  assume a: "list_all component cs" "component n" "open_file cs root = Some (Directory es)" "map_of es n = None"
  note mk = memory_create [OF a]
  have ent: "parse_entries fuel False MemorySink r (render (cs @ [n])) (put_entry cs n (Directory []) es root) [] names =
      fbind (tree_entries fuel r []) (\<lambda>(fs, r). Some (Inr (put_entry cs n (Directory fs) es root, r)))" for r names
  proof -
    have "open_file (cs @ [n]) (put_entry cs n (Directory []) es root) = Some (Directory [])"
      using open_created [OF a(3)] by (simp add: put_entry_def)
    moreover have "replace_at (cs @ [n]) (Directory []) (put_entry cs n (Directory []) es root) = put_entry cs n (Directory []) es root"
      using replace_created [OF a(3)] by (simp add: put_entry_def)
    ultimately show ?thesis
      using entries_refinedD [OF assms, of "cs @ [n]" "put_entry cs n (Directory []) es root" "[]" "[]" r names]
        replace_created [OF a(3), of n _ "Directory []"] a by (simp add: put_entry_def)
  qed
  show "parse (Suc fuel) False MemorySink s (render (cs @ [n])) root =
      fbind (tree_parse (Suc fuel) s) (\<lambda>(f, r). Some (Inr (put_entry cs n f es root, r)))"
    unfolding parse.simps tree_parse.simps MemorySink_ops fbind_assoc
    by (intro fbind_cong refl) (auto simp: mk ent fbind_assoc split_beta Some_rbind intro!: fbind_cong split: prod.splits)
qed


lemma entries_refined_Suc:
  assumes p: "parse_refined fuel" and e: "entries_refined fuel"
  shows "entries_refined (Suc fuel)"
  unfolding entries_refined_def
proof (intro allI impI, elim conjE)
  fix cs root es prev names s
  assume a: "list_all component cs" "open_file cs root = Some (Directory es)" "\<forall>e \<in> set es. fst e \<le> prev"
    and id: "replace_at cs (Directory es) root = root"
  have node: "fbind (Some (push (render cs) name)) (\<lambda>p. fbind (parse fuel False MemorySink r p root) (\<lambda>(st, r).
        fbind (Some (expectTag '')'' r)) (\<lambda>r. parse_entries fuel False MemorySink r (render cs) st name names))) =
      fbind (tree_parse fuel r) (\<lambda>(f, r).
        fbind (Some (expectTag '')'' r)) (\<lambda>r.
        fbind (tree_entries fuel r name) (\<lambda>(fs, r).
          Some (Inr (replace_at cs (Directory (es @ (name, f) # fs)) root, r)))))"
    if name: "\<not> bad_name name" "\<not> name \<le> prev" for name r
  proof -
    have lt: "\<forall>e \<in> set es. fst e < name" using a(3) name(2) by (auto simp: not_le intro: le_less_trans)
    then have new: "map_of es name = None" by (auto simp: map_of_eq_None_iff)
    have c: "component name" by (rule bad_name_component [OF name(1)])
    have push: "push (render cs) name = Inr (render (cs @ [name]))"
      using push_render [OF a(1), of name] c by (simp add: component_def)
    have put: "put_entry cs name f es root = replace_at cs (Directory (es @ [(name, f)])) root" for f
      using lt by (simp add: put_entry_def omap_assign_snoc)
    have rest: "parse_entries fuel False MemorySink r' (render cs) (put_entry cs name f es root) name names =
        fbind (tree_entries fuel r' name) (\<lambda>(fs, r). Some (Inr (replace_at cs (Directory (es @ (name, f) # fs)) root, r)))"
      for f r'
    proof -
      have "open_file cs (put_entry cs name f es root) = Some (Directory (es @ [(name, f)]))"
        using open_replace [OF a(2)] by (simp add: put)
      from entries_refinedD [OF e a(1) this, of name r' names] lt show ?thesis
        by (simp add: put replace_replace less_imp_le)
    qed
    show ?thesis
      unfolding push fbind_simps parse_refinedD [OF p a(1) c a(2) new] fbind_assoc
      by (intro fbind_cong refl) (simp add: rest split_beta)
  qed
  show "parse_entries (Suc fuel) False MemorySink s (render cs) root prev names =
      fbind (tree_entries (Suc fuel) s prev) (\<lambda>(fs, r). Some (Inr (replace_at cs (Directory (es @ fs)) root, r)))"
    unfolding parse_entries.simps tree_entries.simps fbind_assoc case_hack_def
    by (intro fbind_cong refl) (auto simp: node id fbind_assoc split_beta intro!: fbind_cong split: prod.splits)
qed

lemma refined: "parse_refined fuel \<and> entries_refined fuel"
proof (induction fuel)
  case 0
  then show ?case by (simp add: parse_refined_def entries_refined_def)
next
  case (Suc fuel)
  then show ?case using parse_refined_Suc entries_refined_Suc by blast
qed


section \<open>The archive of a tree is a word, and words denote well-formed trees\<close>

lemma bad_name_less: "\<not> bad_name n \<Longrightarrow> [] < n"
  by (cases n) (auto simp: bad_name_def)

lemma nar_wf: "file_wf f \<Longrightarrow> nar_node f (nar f)"
proof (induction f)
  case (Directory es)
  have "nar_entries prev es (concat (map (\<lambda>(name, f). writeString ''entry'' @ writeString ''('' @ writeString ''name'' @
      writeString name @ writeString ''node'' @ nar f @ writeString '')'') es) @ writeString '')'')"
    if "omap_ok es" "\<forall>e \<in> set es. prev < fst e"
      "\<forall>(n, f) \<in> set es. \<not> bad_name n \<and> fits (length n) \<and> nar_node f (nar f)" for prev
    using that
  proof (induction es arbitrary: prev)
    case Nil
    then show ?case by (simp add: no_entries)
  next
    case (Cons e es)
    obtain n f where e: "e = (n, f)" by (cases e)
    have "\<forall>e \<in> set es. n < fst e" using Cons.prems(1) e by auto
    with Cons show ?case using entry [of n prev f "nar f" es] e by simp
  qed
  moreover have "\<forall>(n, f) \<in> set es. \<not> bad_name n \<and> fits (length n) \<and> nar_node f (nar f)"
    using Directory by (fastforce simp: list_all_iff)
  moreover have "\<forall>e \<in> set es. [] < fst e" using Directory.prems bad_name_less by (auto simp: list_all_iff)
  ultimately show ?case using Directory.prems directory [of es] by simp
qed (simp_all only: file_wf.simps regular symlink)

lemma nar_node_wf:
  "nar_node f e \<Longrightarrow> file_wf f"
  "nar_entries prev es e \<Longrightarrow> omap_ok es \<and> (\<forall>x \<in> set es. prev < fst x) \<and>
     list_all (\<lambda>(name, f). \<not> bad_name name \<and> fits (length name) \<and> file_wf f) es"
proof (induction rule: nar_node_nar_entries.inducts)
  case (regular_tag tag x)
  then show ?case by (simp add: fits_def)
qed (auto intro: less_trans)

section \<open>Writing the archive of a tree\<close>

fun file_height :: "File \<Rightarrow> nat" where
  "file_height (Directory es) = Suc (sum_list (map (\<lambda>(n, f). file_height f) es))"
| "file_height _ = 0"

lemma unhack_plain:
  "omap_ok (map (\<lambda>x. (fst x, ())) (m @ map (\<lambda>x. (fst x, fst x)) es)) \<Longrightarrow>
     unhack False es m = Inr (m @ map (\<lambda>x. (fst x, fst x)) es)"
proof (induction es arbitrary: m)
  case (Cons e es)
  have "\<forall>x \<in> set m. fst x < fst e" using Cons.prems by (auto simp: sorted_wrt_append)
  then have "omap_emplace (fst e) (fst e) m = m @ [(fst e, fst e)]" by (rule omap_emplace_snoc)
  with Cons show ?case by (cases e) simp
qed simp

lemma Memory_entries:
  "omap_ok es \<Longrightarrow>
     foldl (\<lambda>res (name, file). omap_assign name (Some (st_type (File_lstat file))) res) [] es =
     map (\<lambda>(name, file). (name, Some (st_type (File_lstat file)))) es"
proof (induction es rule: rev_induct)
  case (snoc e es)
  obtain n f where e: "e = (n, f)" by (cases e)
  have "\<forall>x \<in> set (map (\<lambda>(name, file). (name, Some (st_type (File_lstat file)))) es). fst x < n"
    using snoc.prems e by (auto simp: sorted_wrt_append)
  with snoc e show ?case by (simp add: omap_assign_snoc sorted_wrt_append)
qed simp


lemma fconcat_map:
  "(\<And>x. x \<in> set xs \<Longrightarrow> f x = Some (Inr (g x))) \<Longrightarrow> fconcat f xs = Some (Inr (concat (map g xs)))"
  by (induction xs) simp_all

lemma fconcat_map_arg: "fconcat f (map g xs) = fconcat (\<lambda>x. f (g x)) xs"
  by (induction xs) simp_all

lemma Memory_ops [simp]:
  "maybeLstat (MemorySourceAccessor root) = Memory_maybeLstat root"
  "readFile (MemorySourceAccessor root) = Memory_readFile root"
  "readDirectory (MemorySourceAccessor root) = Memory_readDirectory root"
  "readLink (MemorySourceAccessor root) = Memory_readLink root"
  by (simp_all add: MemorySourceAccessor_def)

lemma entry_height: "(n, f) \<in> set es \<Longrightarrow> file_height f < file_height (Directory es)"
  using member_le_sum_list [of "file_height f" "map (\<lambda>(n, f). file_height f) es"] by force

lemma dump_tree:
  assumes "open_file cs root = Some f" "list_all component cs" "file_wf f" "file_height f < fuel"
  shows "dump fuel False (MemorySourceAccessor root) (\<lambda>_. True) (render cs) = Some (Inr (nar f))"
  using assms
proof (induction fuel arbitrary: cs f)
  case (Suc fuel)
  have comps: "components (render cs) = cs" using Suc.prems by (simp add: components_render)
  note acc = comps Memory_maybeLstat_def Memory_readFile_def Memory_readDirectory_def Memory_readLink_def lstat_def
    dumpContents_def Suc.prems(1)
  show ?case
  proof (cases f)
    case (Regular x c)
    then show ?thesis by (simp add: acc writeString_def)
  next
    case (Symlink t)
    then show ?thesis by (simp add: acc)
  next
    case (Directory es)
    have ok: "omap_ok es" "list_all (\<lambda>(n, f). \<not> bad_name n \<and> fits (length n) \<and> file_wf f) es"
      using Suc.prems(3) Directory by simp_all
    define ns where "ns = map (\<lambda>x. (fst x, fst x)) es"
    have dir: "rbind (Memory_readDirectory root (render cs)) (\<lambda>es. unhack False es []) = Inr ns"
    proof -
      have "unhack False (map (\<lambda>(name, file). (name, Some (st_type (File_lstat file)))) es) [] = Inr ns"
        using ok(1) unhack_plain [of "[]" "map (\<lambda>(name, file). (name, Some (st_type (File_lstat file)))) es"]
        by (simp add: ns_def comp_def case_prod_beta sorted_wrt_map)
      then show ?thesis by (simp add: acc Directory Memory_entries [OF ok(1)])
    qed
    have entry: "push (render cs) n = Inr (render (cs @ [n])) \<and>
        dump fuel False (MemorySourceAccessor root) (\<lambda>_. True) (render (cs @ [n])) = Some (Inr (nar f'))"
      if "(n, f') \<in> set es" for n f'
    proof -
      have n: "\<not> bad_name n" "file_wf f'" using ok(2) that by (auto simp: list_all_iff)
      have c: "component n" by (rule bad_name_component [OF n(1)])
      have "map_of es n = Some f'" using that ok(1) by (simp add: map_of_is_SomeI omap_ok_distinct)
      then have "open_file (cs @ [n]) root = Some f'" using Suc.prems(1) Directory by (simp add: open_file_append)
      moreover have "file_height f' < fuel" using entry_height [OF that] Suc.prems(4) Directory by simp
      ultimately show ?thesis
        using Suc.IH [of "cs @ [n]" f'] n c Suc.prems(2) push_render [OF Suc.prems(2), of n]
        by (simp add: component_def)
    qed
    have "fconcat (\<lambda>(name, orig).
        fbind (Some (push (render cs) name)) (\<lambda>p.
          fbind (Some (push (render cs) orig)) (\<lambda>q.
          fbind (dump fuel False (MemorySourceAccessor root) (\<lambda>_. True) q) (\<lambda>s.
            Some (Inr (writeString ''entry'' @ writeString ''('' @ writeString ''name'' @ writeString name @
              writeString ''node'' @ s @ writeString '')'')))))) ns =
      Some (Inr (concat (map (\<lambda>(name, f). writeString ''entry'' @ writeString ''('' @ writeString ''name'' @
        writeString name @ writeString ''node'' @ nar f @ writeString '')'') es)))"
      unfolding ns_def fconcat_map_arg by (rule fconcat_map) (auto dest!: entry)
    with dir show ?thesis by (simp add: Directory lstat_def Memory_maybeLstat_def comps Suc.prems(1))
  qed
qed simp

section \<open>Theorems\<close>

lemma fits_magic [simp]: "fits (length narVersionMagic1)"
  by (simp add: narVersionMagic1_def fits_def)

lemma readMagic:
  "readString (word_of_nat (length narVersionMagic1)) source = Inr (narVersionMagic1, rest) \<longleftrightarrow>
     source = writeString narVersionMagic1 @ rest"
  by (simp add: str.get_iff string_valid_def)

lemma parseDump_magic:
  "parseDump hack sink (writeString narVersionMagic1 @ s) st = parse (Suc (length s)) hack sink s ''/'' st"
proof -
  have "readString (word_of_nat (length narVersionMagic1)) (writeString narVersionMagic1 @ s) = Inr (narVersionMagic1, s)"
    by (simp add: readMagic)
  then show ?thesis by (simp add: parseDump_def)
qed

lemma parseDump_cases:
  obtains s where "source = writeString narVersionMagic1 @ s"
    "parseDump hack sink source st = parse (Suc (length s)) hack sink s ''/'' st"
  | e where "parseDump hack sink source st = Some (Inl e)"
proof (cases "readString (word_of_nat (length narVersionMagic1)) source")
  case (Inr vs)
  obtain v s where vs: "vs = (v, s)" by (cases vs)
  show thesis
  proof (cases "v = narVersionMagic1")
    case True
    with Inr vs have "source = writeString narVersionMagic1 @ s" by (simp add: readMagic)
    with True Inr vs that(1) [of s] show thesis by (simp add: parseDump_def del: parse.simps)
  qed (use Inr vs that(2) in \<open>simp add: parseDump_def\<close>)
next
  case (Inl e)
  with that(2) show thesis by (cases e) (simp_all add: parseDump_def)
qed

lemma components_root: "components ''/'' = []"
  using components_render [of "[]"] by (simp add: render_def)

lemma memory_root:
  "MemorySink_createDirectory ''/'' (Directory []) = Inr (Directory [])"
  "MemorySink_createRegularFile ''/'' func (Directory []) = Inl (Error ''file is not a regular file'')"
  "MemorySink_createSymlink ''/'' target (Directory []) = Inl (Error ''file is not a symbolic link'')"
  by (simp_all add: MemorySink_createDirectory_def MemorySink_createRegularFile_def MemorySink_createSymlink_def components_root Let_def)

lemma entries_root:
  "parse_entries fuel False MemorySink s ''/'' (Directory []) [] names =
     fbind (tree_entries fuel s []) (\<lambda>(fs, r). Some (Inr (Directory fs, r)))"
  using entries_refinedD [of fuel "[]" "Directory []" "[]" "[]" s names] refined [of fuel]
  by (simp add: render_def)

lemma parse_root:
  "(parse fuel False MemorySink s ''/'' (Directory []) = Some (Inr (f, r)) \<longleftrightarrow>
     (\<exists>es. f = Directory es) \<and> tree_parse fuel s = Some (Inr (f, r))) \<and>
   (parse fuel False MemorySink s ''/'' (Directory []) = None \<longrightarrow> tree_parse fuel s = None)"
proof (cases fuel)
  case (Suc n)
  show ?thesis
  proof (cases "expectTag ''('' s")
    case 1: (Inr r1)
    show ?thesis
    proof (cases "expectTag ''type'' r1")
      case 2: (Inr r2)
      show ?thesis
      proof (cases "getString r2")
        case 3: (Inr tr)
        obtain type r3 where tr: "tr = (type, r3)" by (cases tr)
        consider "type = ''regular''" | "type = ''directory''" | "type = ''symlink''"
          | "type \<noteq> ''regular''" "type \<noteq> ''directory''" "type \<noteq> ''symlink''" by blast
        then show ?thesis
          by cases (use Suc 1 2 3 tr in \<open>auto simp: memory_root entries_root fbind_eq_Inr fbind_eq_None\<close>)
      qed (simp add: Suc 1 2)
    qed (simp add: Suc 1)
  qed (simp add: Suc)
qed simp

text \<open>
  C3: a directory tree survives a trip through an archive: \<^verbatim>\<open>dumpPath\<close> of an in-memory file
  system at any path that holds a well-formed directory succeeds, and \<^verbatim>\<open>parseDump\<close> of the
  bytes, followed by anything, into an empty in-memory file system gives the same directory and
  leaves what follows unread.
\<close>

theorem nar_roundtrip:
  assumes "canonical path" "open_file (components path) root = Some (Directory es)" "file_wf (Directory es)"
    and "file_height (Directory es) < fuel"
  shows "\<exists>bytes. dumpPath fuel False (MemorySourceAccessor root) path (\<lambda>_. True) = Some (Inr bytes) \<and>
    parseDump False MemorySink (bytes @ rest) (Directory []) = Some (Inr (Directory es, rest))"
proof -
  obtain cs where cs: "list_all component cs" "path = render cs" "components path = cs"
    using assms(1) by (elim canonical_cases)
  have "dumpPath fuel False (MemorySourceAccessor root) path (\<lambda>_. True) =
      Some (Inr (writeString narVersionMagic1 @ nar (Directory es)))"
    using dump_tree [of cs root "Directory es" fuel] assms cs by (simp add: dumpPath_def)
  moreover have "tree_parse (Suc (length (nar (Directory es) @ rest))) (nar (Directory es) @ rest) = Some (Inr (Directory es, rest))"
    by (rule tree_complete(1) [OF nar_wf [OF assms(3)]]) simp
  ultimately show ?thesis
    by (auto simp: parseDump_magic parse_root simp del: nar.simps parse.simps)
qed

theorem nar_roundtrip_witness:
  "\<exists>bytes. dumpPath 5 False (MemorySourceAccessor (Directory [(''a'', Directory [(''b'', Regular True ''hello''), (''c'', Symlink ''b'')])])) ''/a'' (\<lambda>_. True) =
       Some (Inr bytes) \<and>
     parseDump False MemorySink (bytes @ ''more'') (Directory []) =
       Some (Inr (Directory [(''b'', Regular True ''hello''), (''c'', Symlink ''b'')], ''more''))"
proof (rule nar_roundtrip)
  show "canonical ''/a''" using canonical_render [of "[''a'']"] by (simp add: render_def component_def)
  have "components ''/a'' = [''a'']" using components_render [of "[''a'']"] by (simp add: render_def component_def)
  then show "open_file (components ''/a'') (Directory [(''a'', Directory [(''b'', Regular True ''hello''), (''c'', Symlink ''b'')])]) =
      Some (Directory [(''b'', Regular True ''hello''), (''c'', Symlink ''b'')])" by simp
qed (simp_all add: fits_def bad_name_def)

text \<open>
  C7: \<^verbatim>\<open>parseDump\<close> into an empty in-memory file system always ends, and it succeeds exactly on the
  words of the language \<open>nar_node\<close> for a directory (sorted entries, valid names, exact tags
  except that any tag may stand for \<^verbatim>\<open>contents\<close>); the directory built is well-formed, so in
  particular no entry is named \<open>.\<close> or \<open>..\<close> or has a slash in its name.
\<close>

theorem parseDump_exact:
  "parseDump False MemorySink source (Directory []) \<noteq> None \<and>
   (parseDump False MemorySink source (Directory []) = Some (Inr (f, rest)) \<longleftrightarrow>
     (\<exists>es e. f = Directory es \<and> nar_node f e \<and> source = writeString narVersionMagic1 @ e @ rest)) \<and>
   (parseDump False MemorySink source (Directory []) = Some (Inr (f, rest)) \<longrightarrow> file_wf f)"
proof -
  have total: "parseDump False MemorySink source (Directory []) \<noteq> None"
  proof (rule parseDump_cases [of source False MemorySink "Directory []"])
    fix s
    assume "parseDump False MemorySink source (Directory []) = parse (Suc (length s)) False MemorySink s ''/'' (Directory [])"
    with tree_total [of s "Suc (length s)"] parse_root show ?thesis by (metis lessI option.distinct(1))
  qed simp
  have iff: "parseDump False MemorySink source (Directory []) = Some (Inr (f, rest)) \<longleftrightarrow>
     (\<exists>es e. f = Directory es \<and> nar_node f e \<and> source = writeString narVersionMagic1 @ e @ rest)" (is "?p \<longleftrightarrow> ?q")
  proof
    assume p: ?p
    show ?q
    proof (rule parseDump_cases [of source False MemorySink "Directory []"])
      fix s
      assume s: "source = writeString narVersionMagic1 @ s"
        "parseDump False MemorySink source (Directory []) = parse (Suc (length s)) False MemorySink s ''/'' (Directory [])"
      with p have "\<exists>es. f = Directory es" "tree_parse (Suc (length s)) s = Some (Inr (f, rest))"
        using parse_root by metis+
      with s(1) tree_sound(1) show ?q by blast
    qed (use p in simp)
  next
    assume ?q
    then obtain es e where e: "f = Directory es" "nar_node f e" "source = writeString narVersionMagic1 @ e @ rest" by blast
    then have "tree_parse (Suc (length (e @ rest))) (e @ rest) = Some (Inr (f, rest))"
      by (intro tree_complete(1)) simp_all
    with e(1,3) show ?p by (simp add: parseDump_magic parse_root del: parse.simps tree_parse.simps)
  qed
  with total nar_node_wf(1) show ?thesis by blast
qed


theorem parseDump_exact_witness:
  "parseDump False MemorySink (writeString narVersionMagic1 @ nar (Directory [(''a'', Symlink ''b'')]) @ ''x'') (Directory []) =
     Some (Inr (Directory [(''a'', Symlink ''b'')], ''x'')) \<and>
   file_wf (Directory [(''a'', Symlink ''b'')])"
proof -
  have "nar_node (Directory [(''a'', Symlink ''b'')]) (nar (Directory [(''a'', Symlink ''b'')]))"
    by (rule nar_wf) (simp add: fits_def bad_name_def)
  then show ?thesis
    using parseDump_exact [of "writeString narVersionMagic1 @ nar (Directory [(''a'', Symlink ''b'')]) @ ''x''"
        "Directory [(''a'', Symlink ''b'')]" "''x''"] by blast
qed

section \<open>Checking an archive without restoring it\<close>

lemma Null_ops:
  "createDirectory NullFileSystemObjectSink path st = Inr ()"
  "createRegularFile NullFileSystemObjectSink path func st = rbind (func (False, [])) (\<lambda>(_, src). Inr ((), src))"
  "createSymlink NullFileSystemObjectSink path target st = Inr ()"
  by (simp_all add: NullFileSystemObjectSink_def)

lemma null_refined:
  "parse fuel False NullFileSystemObjectSink s path st = fbind (tree_parse fuel s) (\<lambda>(_, r). Some (Inr ((), r)))"
  "parse_entries fuel False NullFileSystemObjectSink s path st prev names =
     fbind (tree_entries fuel s prev) (\<lambda>(_, r). Some (Inr ((), r)))"
proof (induction fuel arbitrary: s path st prev names)
  case (Suc fuel)
  {
    case 1
    show ?case
      unfolding parse.simps tree_parse.simps Null_ops fbind_assoc
      by (intro fbind_cong refl) (auto simp: Suc fbind_assoc split_beta Some_rbind intro!: fbind_cong split: prod.splits)
  next
    case 2
    have push: "push path name = Inr ((if isRoot path then path else path @ ''/'') @ name)" if n: "\<not> bad_name name" for name
      using n by (auto simp: push_def bad_name_def assert_that_def)
    show ?case
      unfolding parse_entries.simps tree_entries.simps fbind_assoc case_hack_def
      by (intro fbind_cong refl) (auto simp: push Suc fbind_assoc split_beta intro!: fbind_cong split: prod.splits)
  }
qed simp_all

lemma tree_parse_exact:
  "tree_parse (Suc (length s)) s = Some (Inr (f, rest)) \<longleftrightarrow> (\<exists>e. nar_node f e \<and> s = e @ rest)"
proof
  assume "\<exists>e. nar_node f e \<and> s = e @ rest"
  then show "tree_parse (Suc (length s)) s = Some (Inr (f, rest))"
    by (metis length_append le_imp_less_Suc le_add1 tree_complete(1))
qed (use tree_sound(1) in blast)


text \<open>
  The parser accepts archives that the grammar of the manual rejects: a regular file with any
  other tag in place of \<^verbatim>\<open>contents\<close> (and no contents) is accepted, and read as an empty file.
\<close>

theorem copyNAR_accepts_unknown_tag:
  "\<exists>e. copyNAR False (e @ rest) = Some (Inr (e, rest)) \<and>
     e = writeString narVersionMagic1 @ writeString ''('' @ writeString ''type'' @ writeString ''regular'' @
         writeString ''conTENTS'' @ writeString '')''"
proof -
  have "tree_parse (Suc (length (s @ rest))) (s @ rest) = Some (Inr (Regular False [], rest))"
    if s: "s = writeString ''('' @ writeString ''type'' @ writeString ''regular'' @ writeString ''conTENTS'' @ writeString '')''" for s
    unfolding tree_parse_exact using regular_tag [of "''conTENTS''" False] s by (auto simp: fits_def)
  then show ?thesis
    by (simp add: copyNAR_def parseDump_magic null_refined fbind_assoc del: parse.simps tree_parse.simps)
qed

end
