(* ===== verification/Zix_StorePath.thy ===== *)
theory Zix_StorePath
  imports Zix_CanonPath Zix_Strings Zix_Hash
begin

text \<open>
  Store paths: \<^verbatim>\<open>src/src/libstore/path.cc\<close>, the path functions of \<^verbatim>\<open>file-system.cc\<close> it calls, and
  the string functions of \<^verbatim>\<open>StoreDirConfig\<close> (\<^verbatim>\<open>path.cc\<close>, \<^verbatim>\<open>store-api.cc\<close>). The directory of the
  store, a member of \<^verbatim>\<open>StoreDirConfig\<close>, is the first argument of these.
\<close>

section \<open>Paths of the host file system\<close>

definition isAbsolute :: "string \<Rightarrow> bool" where
  "isAbsolute path \<longleftrightarrow> path \<noteq> [] \<and> hd path = slash"

text \<open>\<^verbatim>\<open>canonPath\<close> without resolving of symbolic links (the default).\<close>

definition canonPath :: "string \<Rightarrow> string result" where
  "canonPath path =
     rbind (assert_that (path \<noteq> []) ''path != \"\"'') (\<lambda>_.
       if \<not> isAbsolute path then Inl (Error ''not an absolute path'') else canonPathInner path)"

text \<open>\<^verbatim>\<open>std::filesystem::path::parent_path\<close> of a path without repeated slashes.\<close>

definition parent_path :: "string \<Rightarrow> string" where
  "parent_path path =
     (let dir = rev (dropWhile (\<lambda>c. c \<noteq> slash) (rev path));
          stripped = rev (dropWhile (\<lambda>c. c = slash) (rev dir))
      in if stripped = [] \<and> dir \<noteq> [] then [slash] else stripped)"

definition fs_dirOf :: "string \<Rightarrow> string" where
  "fs_dirOf path = (if rfind slash path = None then ''.'' else parent_path path)"

fun baseNameOf_last :: "string \<Rightarrow> nat \<Rightarrow> nat" where
  "baseNameOf_last path 0 = 0"
| "baseNameOf_last path (Suc l) = (if path ! Suc l = slash then baseNameOf_last path l else Suc l)"

text \<open>\<^verbatim>\<open>rfind\<close> with a start position finds the last slash at or before it.\<close>

definition baseNameOf :: "string \<Rightarrow> string" where
  "baseNameOf path =
     (if path = [] then []
      else let l = baseNameOf_last path (length path - 1);
               pos = (case rfind slash (take (l + 1) path) of None \<Rightarrow> 0 | Some pos \<Rightarrow> pos + 1)
           in take (l + 1 - pos) (drop pos path))"

definition isInDir :: "string \<Rightarrow> string \<Rightarrow> bool" where
  "isInDir path dir \<longleftrightarrow>
     take 1 path = ''/'' \<and> take (length dir) path = dir \<and>
     length path \<ge> length dir + 2 \<and> path ! length dir = slash"

definition isDirOrInDir :: "string \<Rightarrow> string \<Rightarrow> bool" where
  "isDirOrInDir path dir \<longleftrightarrow> path = dir \<or> isInDir path dir"

section \<open>The class StorePath\<close>

definition HashLen :: nat where "HashLen = 32"
definition MaxPathLen :: nat where "MaxPathLen = 211"

definition name_char :: "char \<Rightarrow> bool" where
  "name_char c \<longleftrightarrow>
     (CHR ''0'' \<le> c \<and> c \<le> CHR ''9'') \<or> (CHR ''a'' \<le> c \<and> c \<le> CHR ''z'') \<or> (CHR ''A'' \<le> c \<and> c \<le> CHR ''Z'') \<or>
     c = CHR ''+'' \<or> c = CHR ''-'' \<or> c = CHR ''.'' \<or> c = CHR ''_'' \<or> c = CHR ''?'' \<or> c = CHR ''=''"

definition checkName :: "string \<Rightarrow> unit result" where
  "checkName name =
     (if name = [] then Inl (BadStorePathName ''name must not be empty'')
      else if length name > MaxPathLen then Inl (BadStorePathName ''name must be no longer than 211 characters'')
      else if name ! 0 = CHR ''.'' \<and> length name = 1 then Inl (BadStorePathName ''name is not valid'')
      else if name ! 0 = CHR ''.'' \<and> name ! 1 = CHR ''-'' then
        Inl (BadStorePathName ''name is not valid: first dash-separated component must not be .'')
      else if name ! 0 = CHR ''.'' \<and> name ! 1 = CHR ''.'' \<and> length name = 2 then Inl (BadStorePathName ''name is not valid'')
      else if name ! 0 = CHR ''.'' \<and> name ! 1 = CHR ''.'' \<and> name ! 2 = CHR ''-'' then
        Inl (BadStorePathName ''name is not valid: first dash-separated component must not be ..'')
      else if \<not> list_all name_char name then Inl (BadStorePathName ''name contains illegal character'')
      else Inr ())"

definition checkPathName :: "string \<Rightarrow> string \<Rightarrow> unit result" where
  "checkPathName path name =
     (case checkName name of
        Inl (BadStorePathName _) \<Rightarrow> Inl (BadStorePath ''path is not a valid store path'')
      | r \<Rightarrow> r)"

datatype StorePath = StorePath (sp_baseName: string)

text \<open>The default \<^verbatim>\<open>operator <=>\<close>: the order of the base names.\<close>

instantiation StorePath :: linorder
begin

definition less_eq_StorePath :: "StorePath \<Rightarrow> StorePath \<Rightarrow> bool" where
  "less_eq_StorePath p q \<longleftrightarrow> sp_baseName p \<le> sp_baseName q"

definition less_StorePath :: "StorePath \<Rightarrow> StorePath \<Rightarrow> bool" where
  "less_StorePath p q \<longleftrightarrow> sp_baseName p < sp_baseName q"

instance
  by standard (auto simp: less_eq_StorePath_def less_StorePath_def intro: StorePath.expand)

end

definition sp_name :: "StorePath \<Rightarrow> string" where
  "sp_name p = drop (HashLen + 1) (sp_baseName p)"

definition hashPart :: "StorePath \<Rightarrow> string" where
  "hashPart p = take HashLen (sp_baseName p)"

definition hash_char :: "char \<Rightarrow> bool" where
  "hash_char c \<longleftrightarrow>
     \<not> (c = CHR ''e'' \<or> c = CHR ''o'' \<or> c = CHR ''u'' \<or> c = CHR ''t'' \<or>
        \<not> ((CHR ''0'' \<le> c \<and> c \<le> CHR ''9'') \<or> (CHR ''a'' \<le> c \<and> c \<le> CHR ''z'')))"

definition mkStorePath :: "string \<Rightarrow> StorePath result" where
  "mkStorePath b =
     (let p = StorePath b in
      if length b < HashLen + 1 then Inl (BadStorePath ''too short to be a valid store path'')
      else if \<not> list_all hash_char (hashPart p) then Inl (BadStorePath ''store path contains illegal base-32 character'')
      else rbind (checkPathName b (sp_name p)) (\<lambda>_. Inr p))"

text \<open>\<^verbatim>\<open>name()\<close> throws \<^verbatim>\<open>std::out_of_range\<close> on a base name of fewer than 33 characters.\<close>

definition mkStorePath_hash :: "Hash \<Rightarrow> string \<Rightarrow> StorePath result" where
  "mkStorePath_hash h name =
     rbind (to_string h Nix32 False) (\<lambda>s.
       let b = s @ ''-'' @ name in
       if length b < HashLen + 1 then Inl (StdException ''std::out_of_range'')
       else rbind (checkPathName b (sp_name (StorePath b))) (\<lambda>_. Inr (StorePath b)))"

definition drvExtension :: string where "drvExtension = ''.drv''"

definition isDerivation :: "StorePath \<Rightarrow> bool" where
  "isDerivation p \<longleftrightarrow> hasSuffix (sp_name p) drvExtension"

definition requireDerivation :: "StorePath \<Rightarrow> unit result" where
  "requireDerivation p = (if \<not> isDerivation p then Inl (FormatError ''store path is not a valid derivation path'') else Inr ())"

definition StorePath_dummy :: "StorePath result" where
  "StorePath_dummy = mkStorePath ''ffffffffffffffffffffffffffffffff-x''"

section \<open>Printing and parsing in a store directory\<close>

definition parseStorePath :: "string \<Rightarrow> string \<Rightarrow> StorePath result" where
  "parseStorePath storeDir path =
     rbind (canonPath path) (\<lambda>p.
       if fs_dirOf p \<noteq> storeDir then Inl (BadStorePath ''path is not in the Nix store'')
       else mkStorePath (baseNameOf p))"

definition maybeParseStorePath :: "string \<Rightarrow> string \<Rightarrow> StorePath option result" where
  "maybeParseStorePath storeDir path =
     (case parseStorePath storeDir path of
        Inr p \<Rightarrow> Inr (Some p)
      | Inl e \<Rightarrow> if caught_as_Error e then Inr None else Inl e)"

definition isStorePath :: "string \<Rightarrow> string \<Rightarrow> bool result" where
  "isStorePath storeDir path = rbind (maybeParseStorePath storeDir path) (\<lambda>p. Inr (p \<noteq> None))"

definition parseStorePathSet :: "string \<Rightarrow> string oset \<Rightarrow> StorePath oset result" where
  "parseStorePathSet storeDir paths = rbind (rmap (parseStorePath storeDir) paths) (\<lambda>ps. Inr (oset_of ps))"

definition printStorePath :: "string \<Rightarrow> StorePath \<Rightarrow> string" where
  "printStorePath storeDir p = storeDir @ ''/'' @ sp_baseName p"

definition printStorePathSet :: "string \<Rightarrow> StorePath oset \<Rightarrow> string oset" where
  "printStorePathSet storeDir paths = oset_of (map (printStorePath storeDir) paths)"

definition isInStore :: "string \<Rightarrow> string \<Rightarrow> bool" where
  "isInStore storeDir path = isInDir path storeDir"

definition toStorePath :: "string \<Rightarrow> string \<Rightarrow> (StorePath \<times> string) result" where
  "toStorePath storeDir path =
     (if \<not> isInStore storeDir path then Inl (Error ''path is not in the Nix store'')
      else case str_find ''/'' (drop (length storeDir + 1) path) of
        None \<Rightarrow> rbind (parseStorePath storeDir path) (\<lambda>p. Inr (p, []))
      | Some i \<Rightarrow>
          let slash_pos = length storeDir + 1 + i in
          rbind (parseStorePath storeDir (take slash_pos path)) (\<lambda>p. Inr (p, drop slash_pos path)))"


section \<open>What the constructors accept\<close>

text \<open>
  The names that \<^verbatim>\<open>nameRegexStr\<close> (\<^verbatim>\<open>path-regex.hh\<close>) describes: allowed characters only, and the part
  before the first dash is neither \<open>.\<close> nor \<open>..\<close>.
\<close>

definition valid_name :: "string \<Rightarrow> bool" where
  "valid_name name \<longleftrightarrow> name \<noteq> [] \<and> length name \<le> MaxPathLen \<and> list_all name_char name \<and>
     takeWhile (\<lambda>c. c \<noteq> CHR ''-'') name \<notin> {''.'', ''..''}"

definition storePath_ok :: "StorePath \<Rightarrow> bool" where
  "storePath_ok p \<longleftrightarrow> HashLen < length (sp_baseName p) \<and> set (hashPart p) \<subseteq> set nix32Chars \<and> valid_name (sp_name p)"

lemma takeWhile_eq_cases:
  "takeWhile P s = t \<longleftrightarrow> (\<exists>u. s = t @ u \<and> list_all P t \<and> (u = [] \<or> \<not> P (hd u)))"
proof
  assume "takeWhile P s = t"
  then show "\<exists>u. s = t @ u \<and> list_all P t \<and> (u = [] \<or> \<not> P (hd u))"
    by (intro exI [of _ "dropWhile P s"]) (auto simp: list_all_iff simp del: dropWhile_eq_Nil_conv dest: set_takeWhileD hd_dropWhile)
next
  assume "\<exists>u. s = t @ u \<and> list_all P t \<and> (u = [] \<or> \<not> P (hd u))"
  then obtain u where "s = t @ u" "list_all P t" "u = [] \<or> \<not> P (hd u)" by blast
  then show "takeWhile P s = t" by (cases u) (auto simp: list_all_iff takeWhile_append)
qed

lemma checkName_eq: "checkName name = (if valid_name name then Inr () else checkName name)"
  "checkName name = Inr () \<longleftrightarrow> valid_name name"
  "checkName name = Inl e \<Longrightarrow> \<exists>msg. e = BadStorePathName msg"
proof -
  show iff: "checkName name = Inr () \<longleftrightarrow> valid_name name"
  proof (cases name)
    case (Cons a s)
    show ?thesis
    proof (cases s)
      case (Cons b t)
      with \<open>name = a # s\<close> show ?thesis
        by (cases t) (auto simp: checkName_def valid_name_def takeWhile_eq_cases)
    qed (use Cons in \<open>auto simp: checkName_def valid_name_def takeWhile_eq_cases\<close>)
  qed (simp add: checkName_def valid_name_def)
  then show "checkName name = (if valid_name name then Inr () else checkName name)" by simp
  show "checkName name = Inl e \<Longrightarrow> \<exists>msg. e = BadStorePathName msg"
    by (auto simp: checkName_def split: if_splits)
qed

lemma hash_char_iff: "hash_char c \<longleftrightarrow> c \<in> set nix32Chars"
proof
  assume h: "hash_char c"
  define n where "n = (of_char c :: nat)"
  have c: "c = char_of n" by (simp add: n_def)
  have letters: "n = 101 \<Longrightarrow> c = CHR ''e''" "n = 111 \<Longrightarrow> c = CHR ''o''" "n = 117 \<Longrightarrow> c = CHR ''u''" "n = 116 \<Longrightarrow> c = CHR ''t''"
    using c by (simp_all add: char_of_def bit_0)
  from h have "(48 \<le> n \<and> n \<le> 57) \<or> (97 \<le> n \<and> n \<le> 122)"
    unfolding hash_char_def less_eq_char_def n_def by simp
  moreover have "n \<noteq> 101" "n \<noteq> 111" "n \<noteq> 117" "n \<noteq> 116"
    using h letters unfolding hash_char_def by blast+
  ultimately have "n \<in> set [48, 49, 50, 51, 52, 53, 54, 55, 56, 57, 97, 98, 99, 100, 102, 103, 104, 105, 106, 107, 108, 109, 110,
      112, 113, 114, 115, 118, 119, 120, 121, 122]" by simp presburger
  then show "c \<in> set nix32Chars" unfolding c nix32Chars_def set_simps insert_iff empty_iff by (elim disjE) (simp_all add: char_of_def bit_0)
qed (auto simp: nix32Chars_def hash_char_def less_eq_char_def)

lemma mkStorePath_Inr: "mkStorePath b = Inr p \<longleftrightarrow> p = StorePath b \<and> storePath_ok p"
proof (cases "checkName (drop (HashLen + 1) b)")
  case (Inl e)
  then obtain msg where "e = BadStorePathName msg" using checkName_eq(3) by blast
  with Inl checkName_eq(2) [of "drop (HashLen + 1) b"] show ?thesis
    by (auto simp: mkStorePath_def storePath_ok_def checkPathName_def sp_name_def Let_def)
next
  case (Inr u)
  then have "valid_name (drop (HashLen + 1) b)" using checkName_eq(2) by (cases u) simp
  with Inr show ?thesis
    by (auto simp: mkStorePath_def storePath_ok_def checkPathName_def sp_name_def list_all_iff hash_char_iff Let_def)
qed

lemma mkStorePath_Inl: "mkStorePath b = Inl e \<Longrightarrow> \<exists>msg. e = BadStorePath msg"
  using checkName_eq(3) by (auto simp: mkStorePath_def checkPathName_def Let_def split: if_splits sum.splits exn.splits)

lemma rfind_None: "rfind c s = None \<longleftrightarrow> c \<notin> set s"
  by (simp add: rfind_def)

lemma baseNameOf_slash: "c \<noteq> [] \<Longrightarrow> slash \<notin> set c \<Longrightarrow> baseNameOf (d @ slash # c) = c"
proof -
  assume c: "c \<noteq> []" "slash \<notin> set c"
  define n where "n = length d + length c - 1"
  have n: "length d + length c = Suc n" using c(1) by (cases c) (auto simp: n_def)
  have "(d @ slash # c) ! Suc n = last (d @ slash # c)"
    using n by (simp add: last_conv_nth)
  moreover have "last (d @ slash # c) \<noteq> slash" using c by (metis last_ConsR last_appendR last_in_set list.distinct(1))
  ultimately have "(d @ slash # c) ! Suc n \<noteq> slash" by simp
  then have "baseNameOf_last (d @ slash # c) (Suc n) = Suc n"
    by simp
  then show ?thesis
    using c n rfind_append [OF c(2), of d] by (simp add: baseNameOf_def Let_def)
qed

lemma fs_dirOf_slash: "slash \<notin> set c \<Longrightarrow> d \<noteq> [] \<Longrightarrow> last d \<noteq> slash \<Longrightarrow> fs_dirOf (d @ slash # c) = d"
proof -
  assume a: "slash \<notin> set c" "d \<noteq> []" "last d \<noteq> slash"
  then have "dropWhile (\<lambda>c. c \<noteq> slash) (rev (d @ slash # c)) = slash # rev d" by (auto simp: dropWhile_append)
  moreover have "dropWhile (\<lambda>c. c = slash) (rev d) = rev d" using a(2,3) by (cases d rule: rev_cases) auto
  ultimately show ?thesis using a by (auto simp: fs_dirOf_def parent_path_def rfind_None Let_def dest: last_in_set)
qed


section \<open>Printing and parsing are inverse\<close>

lemma last_joined: "list_all component cs \<Longrightarrow> cs \<noteq> [] \<Longrightarrow> last (joined cs) \<noteq> slash"
  by (cases cs rule: rev_cases) (auto simp: component_def dest: last_in_set)

lemma canonPath_Inr:
  "canonPath s = Inr q \<Longrightarrow> \<exists>cs. list_all component cs \<and> q = render cs"
  using normalise_components [of "[]" "split_slash s"] split_slash_components [of _ s] absPathPure_eq [of s]
  by (auto simp: canonPath_def result_simps absPathPure_def split: if_splits)

lemma canonPath_joined: "list_all component cs \<Longrightarrow> cs \<noteq> [] \<Longrightarrow> canonPath (joined cs) = Inr (joined cs)"
  using absPathPure_eq [of "joined cs"] split_slash_render [of cs] normalise_id [of cs "[]"]
  by (cases cs) (auto simp: canonPath_def isAbsolute_def absPathPure_def render_def)

lemma storePath_component: "storePath_ok p \<Longrightarrow> slash \<notin> set (sp_baseName p) \<Longrightarrow> component (sp_baseName p)"
  by (auto simp: storePath_ok_def component_def HashLen_def)

lemma storeDir_cases:
  assumes "canonical storeDir" "storeDir \<noteq> ''/''"
  obtains cs where "list_all component cs" "cs \<noteq> []" "storeDir = joined cs"
  using assms by (auto simp: canonical_def render_def split: if_splits)

lemma parseStorePath_iff:
  assumes "canonical storeDir" "storeDir \<noteq> ''/''"
  shows "parseStorePath storeDir s = Inr p \<longleftrightarrow>
    storePath_ok p \<and> slash \<notin> set (sp_baseName p) \<and> canonPath s = Inr (printStorePath storeDir p)"
proof -
  obtain ds where ds: "list_all component ds" "ds \<noteq> []" "storeDir = joined ds"
    using assms by (rule storeDir_cases)
  have parts: "fs_dirOf (storeDir @ slash # b) = storeDir" "baseNameOf (storeDir @ slash # b) = b"
    if b: "component b" for b
    using b ds last_joined [OF ds(1,2)] by (auto simp: fs_dirOf_slash baseNameOf_slash component_def)
  show ?thesis
  proof
    assume "parseStorePath storeDir s = Inr p"
    then obtain q where q: "canonPath s = Inr q" "fs_dirOf q = storeDir" "mkStorePath (baseNameOf q) = Inr p"
      by (auto simp: parseStorePath_def result_simps split: if_splits)
    then obtain cs where cs: "list_all component cs" "q = render cs" using canonPath_Inr by blast
    have "cs \<noteq> []" using q(2) cs assms(2) by (auto simp: render_def fs_dirOf_def parent_path_def rfind_def)
    then obtain es c where c: "cs = es @ [c]" by (cases cs rule: rev_cases) auto
    with cs have q': "q = joined es @ slash # c" "component c" by (simp_all add: render_def)
    have "es \<noteq> []"
    proof
      assume "es = []"
      with q' q(2) have "storeDir = ''/''" by (auto simp: fs_dirOf_def parent_path_def rfind_def component_def dropWhile_append)
      with assms(2) show False by simp
    qed
    then have "fs_dirOf q = joined es" "baseNameOf q = c"
      using q' cs c last_joined [of es] by (auto simp: fs_dirOf_slash baseNameOf_slash component_def)
    with q q' show "storePath_ok p \<and> slash \<notin> set (sp_baseName p) \<and> canonPath s = Inr (printStorePath storeDir p)"
      by (auto simp: mkStorePath_Inr printStorePath_def component_def)
  next
    assume "storePath_ok p \<and> slash \<notin> set (sp_baseName p) \<and> canonPath s = Inr (printStorePath storeDir p)"
    then show "parseStorePath storeDir s = Inr p"
      using parts storePath_component [of p] mkStorePath_Inr [of "sp_baseName p" p]
      by (simp add: parseStorePath_def printStorePath_def)
  qed
qed

lemma canonPath_print:
  assumes "canonical storeDir" "storeDir \<noteq> ''/''" "storePath_ok p" "slash \<notin> set (sp_baseName p)"
  shows "canonPath (printStorePath storeDir p) = Inr (printStorePath storeDir p)"
proof -
  obtain ds where ds: "list_all component ds" "ds \<noteq> []" "storeDir = joined ds"
    using assms(1,2) by (rule storeDir_cases)
  with canonPath_joined [of "ds @ [sp_baseName p]"] storePath_component [OF assms(3,4)] show ?thesis
    by (simp add: printStorePath_def)
qed

lemma parseStorePath_print:
  assumes "canonical storeDir" "storeDir \<noteq> ''/''" "storePath_ok p" "slash \<notin> set (sp_baseName p)"
  shows "parseStorePath storeDir (printStorePath storeDir p) = Inr p"
  using parseStorePath_iff [OF assms(1,2)] canonPath_print [OF assms] assms(3,4) by blast

lemma isInStore_print:
  assumes "canonical storeDir" "storeDir \<noteq> ''/''" "sp_baseName p \<noteq> []"
  shows "isInStore storeDir (printStorePath storeDir p @ r)"
proof -
  obtain ds where ds: "list_all component ds" "ds \<noteq> []" "storeDir = joined ds"
    using assms(1,2) by (rule storeDir_cases)
  with assms(3) show ?thesis
    by (cases ds; cases "sp_baseName p") (auto simp: isInStore_def isInDir_def printStorePath_def nth_append)
qed

lemma str_find_slash: "slash \<notin> set b \<Longrightarrow> str_find ''/'' (b @ slash # r) = Some (length b)"
  "slash \<notin> set b \<Longrightarrow> str_find ''/'' b = None"
  by (induction b) (subst str_find.simps; auto)+

text \<open>Store paths in the documented form, with a dash after the hash part.\<close>

definition sp_proper :: "StorePath \<Rightarrow> bool" where
  "sp_proper p \<longleftrightarrow> storePath_ok p \<and> sp_baseName p ! HashLen = CHR ''-''"

lemma sp_proper_chars:
  assumes "sp_proper p" "c \<in> set (sp_baseName p)"
  shows "c \<in> set nix32Chars \<or> name_char c"
proof -
  have len: "HashLen < length (sp_baseName p)" using assms(1) by (simp add: sp_proper_def storePath_ok_def)
  have "sp_baseName p = hashPart p @ sp_baseName p ! HashLen # sp_name p"
    using id_take_nth_drop [OF len] by (simp add: hashPart_def sp_name_def)
  then have "c \<in> set (hashPart p) \<union> {CHR ''-''} \<union> set (sp_name p)"
    using assms by (metis (no_types, lifting) Un_iff insert_iff list.set(2) set_append empty_iff list.set(1) sp_proper_def)
  then show ?thesis
    using assms(1) by (auto simp: sp_proper_def storePath_ok_def valid_name_def list_all_iff name_char_def)
qed

lemma nix32_name_char: "c \<in> set nix32Chars \<Longrightarrow> name_char c"
proof -
  assume "c \<in> set nix32Chars"
  moreover have "list_all name_char nix32Chars" by code_simp
  ultimately show ?thesis by (simp add: list_all_iff)
qed

lemma sp_proper_name_char: "sp_proper p \<Longrightarrow> list_all name_char (sp_baseName p)"
  using sp_proper_chars nix32_name_char by (auto simp: list_all_iff)

lemma printStorePath_char: "sp_proper p \<Longrightarrow> \<not> name_char c \<Longrightarrow> c \<noteq> slash \<Longrightarrow> c \<notin> set dir \<Longrightarrow> c \<notin> set (printStorePath dir p)"
  using sp_proper_name_char [of p] by (auto simp: printStorePath_def list_all_iff)

lemma sp_proper_plain:
  assumes "sp_proper p"
  shows "CHR '';'' \<notin> set (sp_baseName p)" "CHR '','' \<notin> set (sp_baseName p)" "CHR '' '' \<notin> set (sp_baseName p)"
    "CHR 0x0A \<notin> set (sp_baseName p)" "slash \<notin> set (sp_baseName p)" "CHR '':'' \<notin> set (sp_baseName p)"
  using sp_proper_chars [OF assms] by (fastforce simp: nix32Chars_def name_char_def less_eq_char_def)+

lemma print_sorted:
  assumes "oset_ok ps"
  shows "oset_ok (map (printStorePath dir) ps)"
proof -
  have "printStorePath dir p < printStorePath dir q" if "p < q" for p q
    using that by (induction dir) (simp_all add: printStorePath_def less_StorePath_def)
  then show ?thesis unfolding sorted_wrt_map by (intro sorted_wrt_mono_rel [OF _ assms])
qed

lemma printStorePathSet_eq: "oset_ok ps \<Longrightarrow> printStorePathSet dir ps = map (printStorePath dir) ps"
  by (simp add: printStorePathSet_def oset_of_id print_sorted)

text \<open>
  C18: \<^verbatim>\<open>parseStorePath\<close> accepts exactly the spellings of printed store paths: in a store directory
  that is canonical (and not the root), a string is parsed to \<open>p\<close> if and only if \<open>p\<close> is valid
  (32 characters of the Nix base-32 alphabet, one more character, a name that matches
  \<^verbatim>\<open>nameRegexStr\<close> of at most 211 characters), has no slash, and the string canonicalises to
  \<^verbatim>\<open>printStorePath(p)\<close>. Every such \<open>p\<close> is parsed back from its printed form, and \<^verbatim>\<open>toStorePath\<close>
  finds it and what follows in a path below it.
\<close>

theorem parseStorePath_exact:
  assumes "canonical storeDir" "storeDir \<noteq> ''/''"
  shows "(parseStorePath storeDir s = Inr p \<longleftrightarrow>
      storePath_ok p \<and> slash \<notin> set (sp_baseName p) \<and> canonPath s = Inr (printStorePath storeDir p)) \<and>
    (storePath_ok p \<and> slash \<notin> set (sp_baseName p) \<longrightarrow>
      parseStorePath storeDir (printStorePath storeDir p) = Inr p \<and>
      toStorePath storeDir (printStorePath storeDir p) = Inr (p, []) \<and>
      toStorePath storeDir (printStorePath storeDir p @ ''/'' @ rest) = Inr (p, ''/'' @ rest))"
proof -
  have "parseStorePath storeDir (printStorePath storeDir p) = Inr p \<and>
      toStorePath storeDir (printStorePath storeDir p) = Inr (p, []) \<and>
      toStorePath storeDir (printStorePath storeDir p @ ''/'' @ rest) = Inr (p, ''/'' @ rest)"
    if p: "storePath_ok p" "slash \<notin> set (sp_baseName p)"
  proof -
    have parse: "parseStorePath storeDir (printStorePath storeDir p) = Inr p"
      by (rule parseStorePath_print [OF assms p])
    have "sp_baseName p \<noteq> []" using p(1) by (auto simp: storePath_ok_def)
    note inside = isInStore_print [OF assms this, of "[]"] isInStore_print [OF assms this, of "''/'' @ rest"]
    have parts: "take (length storeDir + 1 + length (sp_baseName p)) (printStorePath storeDir p @ ''/'' @ rest) = printStorePath storeDir p"
      "drop (length storeDir + 1 + length (sp_baseName p)) (printStorePath storeDir p @ ''/'' @ rest) = ''/'' @ rest"
      "drop (length storeDir + 1) (printStorePath storeDir p @ ''/'' @ rest) = sp_baseName p @ ''/'' @ rest"
      "drop (length storeDir + 1) (printStorePath storeDir p) = sp_baseName p"
      by (simp_all add: printStorePath_def)
    have "toStorePath storeDir (printStorePath storeDir p) = Inr (p, [])"
      using inside(1) parse parts(4) str_find_slash(2) [OF p(2)] by (simp add: toStorePath_def)
    moreover have "toStorePath storeDir (printStorePath storeDir p @ ''/'' @ rest) = Inr (p, ''/'' @ rest)"
      using inside(2) parse parts(1,2,3) str_find_slash(1) [OF p(2), of rest] by (simp add: toStorePath_def Let_def)
    ultimately show ?thesis using parse by blast
  qed
  with parseStorePath_iff [OF assms] show ?thesis by blast
qed

text \<open>Store paths for examples.\<close>

lemma example_ok: "valid_name n \<Longrightarrow> storePath_ok (StorePath (replicate 32 (CHR ''f'') @ c # n))"
  by (simp add: storePath_ok_def hashPart_def sp_name_def HashLen_def nix32Chars_def)

lemma valid_name_x: "valid_name ''x''"
  by (simp add: valid_name_def name_char_def MaxPathLen_def less_eq_char_def)

lemma ff_eq: "''ffffffffffffffffffffffffffffffff'' = replicate 32 (CHR ''f'')"
  by (simp add: numeral_eq_Suc)

theorem parseStorePath_exact_witness:
  "parseStorePath ''/nix/store'' (''/nix/store/'' @ ''ffffffffffffffffffffffffffffffff'' @ ''-x'') =
     Inr (StorePath (''ffffffffffffffffffffffffffffffff'' @ ''-x'')) \<and>
   toStorePath ''/nix/store'' (''/nix/store/'' @ ''ffffffffffffffffffffffffffffffff'' @ ''-x/bin'') =
     Inr (StorePath (''ffffffffffffffffffffffffffffffff'' @ ''-x''), ''/bin'')"
proof -
  have c: "canonical ''/nix/store''"
    using canonical_render [of "[''nix'', ''store'']"] by (simp add: render_def component_def)
  show ?thesis
    unfolding ff_eq
    using parseStorePath_exact [OF c, of _ "StorePath (replicate 32 (CHR ''f'') @ ''-x'')" "''bin''"] example_ok [OF valid_name_x]
    by (simp add: printStorePath_def)
qed

text \<open>
  The constructor of \<^verbatim>\<open>StorePath\<close> does not look at the character between the hash and the name:
  any character there is accepted, not only the dash of the documented form.
\<close>

theorem mkStorePath_any_separator:
  "mkStorePath (replicate 32 (CHR ''f'') @ c # ''x'') = Inr (StorePath (replicate 32 (CHR ''f'') @ c # ''x''))"
  using example_ok [OF valid_name_x] by (simp add: mkStorePath_Inr)

end
