(* ===== verification/Zix_References.thy ===== *)
theory Zix_References
  imports Zix_StorePath Zix_Sinks
begin

text \<open>
  Scanning for references and rewriting of hashes in streams: \<^verbatim>\<open>src/src/libutil/references.cc\<close>
  and \<^verbatim>\<open>src/src/libstore/path-references.cc\<close>. The sinks get the stream in chunks of any size; the
  results are shown to depend on the stream only.
\<close>

section \<open>RefScanSink\<close>

definition refLength :: nat where "refLength = 32"

definition isBase32 :: "char \<Rightarrow> bool" where
  "isBase32 c \<longleftrightarrow> c \<in> set nix32Chars"

text \<open>The inner loop, from \<open>j - 1\<close> down to 0: the last position that is not a base-32 character.\<close>

fun search_back :: "string \<Rightarrow> nat \<Rightarrow> nat \<Rightarrow> nat option" where
  "search_back s i 0 = None"
| "search_back s i (Suc j) = (if \<not> isBase32 (s ! (i + j)) then Some j else search_back s i j)"

lemma search_back_Some: "search_back s i n = Some j \<Longrightarrow> j < n \<and> \<not> isBase32 (s ! (i + j))"
  by (induction n) (auto split: if_splits)

lemma search_back_None: "search_back s i n = None \<longleftrightarrow> (\<forall>j < n. isBase32 (s ! (i + j)))"
  by (induction n) (auto simp: less_Suc_eq)

function search :: "string \<Rightarrow> nat \<Rightarrow> string oset \<Rightarrow> string oset \<Rightarrow> string oset \<times> string oset" where
  "search s i hashes seen =
     (if i + refLength \<le> length s then
        (case search_back s i refLength of
           Some j \<Rightarrow> search s (i + j + 1) hashes seen
         | None \<Rightarrow>
             let ref = take refLength (drop i s) in
             if ref \<in> set hashes then search s (i + 1) (oset_erase ref hashes) (oset_insert ref seen)
             else search s (i + 1) hashes seen)
      else (hashes, seen))"
  by pat_completeness auto
termination
  by (relation "measure (\<lambda>(s, i, hashes, seen). length s - i)") (auto simp: refLength_def)

declare search.simps [simp del]

record RefScanSink =
  hashes :: "string oset"
  seen :: "string oset"
  tail :: string

definition RefScanSink_init :: "string oset \<Rightarrow> RefScanSink" where
  "RefScanSink_init hs = \<lparr>hashes = hs, seen = [], tail = []\<rparr>"

definition RefScanSink_call :: "RefScanSink \<Rightarrow> string \<Rightarrow> RefScanSink" where
  "RefScanSink_call st data =
     (let tailLen = min (length data) refLength;
          s = tail st @ take tailLen data;
          (hs, sn) = search s 0 (hashes st) (seen st);
          (hs, sn) = search data 0 hs sn;
          rest = refLength - tailLen;
          t = (if rest < length (tail st) then drop (length (tail st) - rest) (tail st) else tail st)
      in \<lparr>hashes = hs, seen = sn, tail = t @ drop (length data - tailLen) data\<rparr>)"

section \<open>RewritingSink and HashModuloSink\<close>

record 'w RewritingSink =
  rs_rewrites :: "(string, string) omap"
  maxRewriteSize :: nat
  prev :: string
  nextSink :: 'w
  pos :: u64
  matches :: "u64 list"

fun rewrites_size :: "(string, string) omap \<Rightarrow> nat \<Rightarrow> nat result" where
  "rewrites_size [] m = Inr m"
| "rewrites_size ((a, b) # rws) m =
     rbind (assert_that (length a = length b) ''from.size() == to.size()'') (\<lambda>_.
       rewrites_size rws (max m (length a)))"

definition RewritingSink_init :: "(string, string) omap \<Rightarrow> 'w \<Rightarrow> 'w RewritingSink result" where
  "RewritingSink_init rws next0 =
     rbind (rewrites_size rws 0) (\<lambda>m.
       Inr \<lparr>rs_rewrites = rws, maxRewriteSize = m, prev = [], nextSink = next0, pos = 0, matches = []\<rparr>)"

text \<open>\<open>None\<close> is that \<^verbatim>\<open>rewriteStrings\<close> does not return.\<close>

definition RewritingSink_call :: "('w \<Rightarrow> string \<Rightarrow> 'w) \<Rightarrow> 'w RewritingSink \<Rightarrow> string \<Rightarrow> 'w RewritingSink option" where
  "RewritingSink_call next st data =
     Option.bind (rewriteStrings (prev st @ data) (rs_rewrites st)) (\<lambda>s.
       let p = (if length s < maxRewriteSize st then s
                else if maxRewriteSize st = 0 then []
                else drop (length s - maxRewriteSize st + 1) s);
           consumed = length s - length p
       in Some (st\<lparr>prev := p, pos := pos st + word_of_nat consumed,
                  nextSink := (if consumed \<noteq> 0 then next (nextSink st) (take consumed s) else nextSink st)\<rparr>))"

definition RewritingSink_flush :: "('w \<Rightarrow> string \<Rightarrow> 'w) \<Rightarrow> 'w RewritingSink \<Rightarrow> 'w RewritingSink" where
  "RewritingSink_flush next st =
     (if prev st = [] then st
      else st\<lparr>pos := pos st + word_of_nat (length (prev st)), nextSink := next (nextSink st) (prev st), prev := []\<rparr>)"

type_synonym 'c HashModuloSink = "('c \<times> u64) BufferedSink RewritingSink"

definition HashModuloSink_init ::
  "(HashAlgorithm \<Rightarrow> 'c) \<Rightarrow> HashAlgorithm \<Rightarrow> string \<Rightarrow> 'c HashModuloSink result" where
  "HashModuloSink_init init ha modulus =
     RewritingSink_init [(modulus, replicate (length modulus) (CHR 0x00))] (HashSink_init init ha)"

definition HashModuloSink_call :: "('c \<Rightarrow> string \<Rightarrow> 'c) \<Rightarrow> 'c HashModuloSink \<Rightarrow> string \<Rightarrow> 'c HashModuloSink option" where
  "HashModuloSink_call upd = RewritingSink_call (BufferedSink_call (HashSink_writeUnbuffered upd))"

definition HashModuloSink_finish ::
  "('c \<Rightarrow> string \<Rightarrow> 'c) \<Rightarrow> ('c \<Rightarrow> u8 list) \<Rightarrow> xp set \<Rightarrow> HashAlgorithm \<Rightarrow> 'c HashModuloSink \<Rightarrow> (Hash \<times> u64) result" where
  "HashModuloSink_finish upd final feats ha st =
     (let st = RewritingSink_flush (BufferedSink_call (HashSink_writeUnbuffered upd)) st;
          hs = foldl (BufferedSink_call (HashSink_writeUnbuffered upd)) (nextSink st)
                 (map (\<lambda>p. ''|'' @ to_decimal (unat p)) (matches st))
      in rbind (HashSink_finish upd final feats ha hs) (\<lambda>h. Inr (fst h, pos st)))"

section \<open>Scanning for store paths\<close>

record PathRefScanSink = RefScanSink +
  backMap :: "(string, StorePath) omap"

fun fromPaths_loop :: "StorePath oset \<Rightarrow> string oset \<Rightarrow> (string, StorePath) omap \<Rightarrow>
    (string oset \<times> (string, StorePath) omap) result" where
  "fromPaths_loop [] hs bm = Inr (hs, bm)"
| "fromPaths_loop (i # refs) hs bm =
     rbind (assert_that (map_of bm (hashPart i) = None) ''inserted'') (\<lambda>_.
       fromPaths_loop refs (oset_insert (hashPart i) hs) (omap_emplace (hashPart i) i bm))"

definition fromPaths :: "StorePath oset \<Rightarrow> PathRefScanSink result" where
  "fromPaths refs =
     rbind (fromPaths_loop refs [] []) (\<lambda>(hs, bm).
       Inr \<lparr>hashes = hs, seen = [], tail = [], backMap = bm\<rparr>)"

definition PathRefScanSink_call :: "PathRefScanSink \<Rightarrow> string \<Rightarrow> PathRefScanSink" where
  "PathRefScanSink_call st data =
     (let r = RefScanSink_call (RefScanSink.truncate st) data
      in st\<lparr>hashes := hashes r, seen := seen r, tail := tail r\<rparr>)"

definition getResultPaths :: "PathRefScanSink \<Rightarrow> StorePath oset result" where
  "getResultPaths st =
     rbind (rmap (\<lambda>i. case map_of (backMap st) i of
         None \<Rightarrow> Inl (AssertionFailed ''j != backMap.end()'')
       | Some p \<Rightarrow> Inr p) (seen st)) (\<lambda>ps. Inr (oset_of ps))"

text \<open>\<open>writes\<close> are the chunks that \<^verbatim>\<open>dumpPath\<close> writes to the sink; \<open>tee\<close> receives them too.\<close>

definition scanForReferences ::
  "('t \<Rightarrow> string \<Rightarrow> 't) \<Rightarrow> 't \<Rightarrow> string list \<Rightarrow> StorePath oset \<Rightarrow> ('t \<times> StorePath oset) result" where
  "scanForReferences toTee tee writes refs =
     rbind (fromPaths refs) (\<lambda>refsSink.
       let (refsSink, tee) = foldl (\<lambda>(a, b) d. (PathRefScanSink_call a d, toTee b d)) (refsSink, tee) writes
       in rbind (getResultPaths refsSink) (\<lambda>ps. Inr (tee, ps)))"


definition scanForReferences_hash ::
  "(HashAlgorithm \<Rightarrow> 'c) \<Rightarrow> ('c \<Rightarrow> string \<Rightarrow> 'c) \<Rightarrow> ('c \<Rightarrow> u8 list) \<Rightarrow> xp set \<Rightarrow> string list \<Rightarrow> StorePath oset \<Rightarrow>
     (StorePath oset \<times> Hash \<times> u64) result" where
  "scanForReferences_hash init upd final feats writes refs =
     rbind (scanForReferences (BufferedSink_call (HashSink_writeUnbuffered upd)) (HashSink_init init SHA256) writes refs)
       (\<lambda>(hashSink, found). rbind (HashSink_finish upd final feats SHA256 hashSink) (\<lambda>h. Inr (found, h)))"

section \<open>What the scanner finds\<close>

text \<open>A reference that the scanner looks for, at any position of the data.\<close>

definition occurs :: "string \<Rightarrow> string \<Rightarrow> bool" where
  "occurs h d \<longleftrightarrow> length h = refLength \<and> list_all isBase32 h \<and> sublist h d"

definition occurs_from :: "nat \<Rightarrow> string \<Rightarrow> string \<Rightarrow> bool" where
  "occurs_from i s h \<longleftrightarrow>
     (\<exists>k \<ge> i. k + refLength \<le> length s \<and> h = take refLength (drop k s) \<and> list_all isBase32 h)"

lemma occurs_from_0: "occurs_from 0 s h \<longleftrightarrow> occurs h s"
proof
  assume "occurs_from 0 s h"
  then obtain k where "k + refLength \<le> length s" "h = take refLength (drop k s)" "list_all isBase32 h"
    by (auto simp: occurs_from_def)
  moreover have "sublist (take refLength (drop k s)) s"
    by (rule sublist_order.order.trans [OF sublist_take sublist_drop])
  ultimately show "occurs h s" by (simp add: occurs_def)
next
  assume "occurs h s"
  then obtain a b where "s = a @ h @ b" "length h = refLength" "list_all isBase32 h"
    by (auto simp: occurs_def sublist_def)
  then show "occurs_from 0 s h" by (auto simp: occurs_from_def intro!: exI [of _ "length a"])
qed

lemma occurs_from_skip:
  assumes "\<And>k. i \<le> k \<Longrightarrow> k < n \<Longrightarrow> k + refLength \<le> length s \<Longrightarrow> \<not> list_all isBase32 (take refLength (drop k s))" "i \<le> n"
  shows "occurs_from i s h \<longleftrightarrow> occurs_from n s h"
  using assms unfolding occurs_from_def by (metis le_trans not_le)

lemma occurs_from_Suc:
  "i + refLength \<le> length s \<Longrightarrow> list_all isBase32 (take refLength (drop i s)) \<Longrightarrow>
     occurs_from i s h \<longleftrightarrow> h = take refLength (drop i s) \<or> occurs_from (i + 1) s h"
  unfolding occurs_from_def by (metis Suc_eq_plus1 Suc_leD le_refl not_less_eq_eq le_antisym)

lemma occurs_from_end: "\<not> i + refLength \<le> length s \<Longrightarrow> \<not> occurs_from i s h"
  by (auto simp: occurs_from_def)

lemma list_all_take_drop:
  "k + n \<le> length s \<Longrightarrow> list_all P (take n (drop k s)) \<longleftrightarrow> (\<forall>j < n. P (s ! (k + j)))"
  by (auto simp: list_all_length)

text \<open>The optimised search moves the references that occur from one set to the other.\<close>

lemma search_sets:
  "search s i hs sn = (hs', sn') \<Longrightarrow>
     set hs' = {h \<in> set hs. \<not> occurs_from i s h} \<and> set sn' = set sn \<union> {h \<in> set hs. occurs_from i s h} \<and>
     (oset_ok hs \<longrightarrow> oset_ok hs') \<and> (oset_ok sn \<longrightarrow> oset_ok sn')"
proof (induction s i hs sn arbitrary: hs' sn' rule: search.induct)
  case (1 s i hs sn)
  show ?case
  proof (cases "i + refLength \<le> length s")
    case False
    with 1(4) show ?thesis by (simp add: search.simps [of s i] occurs_from_end)
  next
    case True
    show ?thesis
    proof (cases "search_back s i refLength")
      case (Some j)
      have j: "j < refLength" "\<not> isBase32 (s ! (i + j))" using search_back_Some [OF Some] by auto
      have skip: "occurs_from i s h \<longleftrightarrow> occurs_from (i + j + 1) s h" for h
      proof (rule occurs_from_skip)
        fix k assume k: "i \<le> k" "k < i + j + 1" "k + refLength \<le> length s"
        then have "i + j - k < refLength" "k + (i + j - k) = i + j" using j(1) by auto
        with j(2) k(3) show "\<not> list_all isBase32 (take refLength (drop k s))"
          by (auto simp: list_all_take_drop)
      qed simp
      have "search s (i + j + 1) hs sn = (hs', sn')" using 1(4) True Some by (simp add: search.simps [of s i])
      from 1(3) [OF True Some this] show ?thesis by (simp add: skip)
    next
      case None
      define ref where "ref = take refLength (drop i s)"
      have "list_all isBase32 (take refLength (drop i s))"
        using None True by (simp add: search_back_None list_all_take_drop)
      note here = occurs_from_Suc [OF True this, folded ref_def]
      show ?thesis
      proof (cases "ref \<in> set hs")
        case in_hs: True
        then have "search s (i + 1) (oset_erase ref hs) (oset_insert ref sn) = (hs', sn')"
          using 1(4) True None by (simp add: search.simps [of s i] ref_def Let_def)
        from 1(1) [OF True None ref_def in_hs this] in_hs show ?thesis by (auto simp: here)
      next
        case not_in: False
        then have "search s (i + 1) hs sn = (hs', sn')"
          using 1(4) True None by (simp add: search.simps [of s i] ref_def Let_def)
        from 1(2) [OF True None ref_def not_in this] not_in show ?thesis by (auto simp: here)
      qed
    qed
  qed
qed

section \<open>The tail of the stream\<close>

definition tail_of :: "nat \<Rightarrow> string \<Rightarrow> string" where
  "tail_of n d = drop (length d - n) d"

lemma tail_of_append:
  "tail_of n (d @ c) = (if n \<le> length c then drop (length c - n) c
     else drop (length (tail_of n d) - (n - length c)) (tail_of n d) @ c)"
  by (auto simp: tail_of_def drop_append intro!: arg_cong2 [of _ _ d d drop])

lemma sublist_tail: "sublist (tail_of n d @ take m c) (d @ c)"
proof -
  have "d @ c = take (length d - n) d @ (tail_of n d @ take m c) @ drop m c"
    by (simp add: tail_of_def)
  then show ?thesis by (metis sublist_def)
qed

lemma occurs_append:
  "occurs h (d @ c) \<longleftrightarrow> occurs h d \<or> occurs h (tail_of refLength d @ take refLength c) \<or> occurs h c"
proof
  assume h: "occurs h (d @ c)"
  then consider "sublist h d" | "sublist h c"
    | h1 h2 where "h = h1 @ h2" "suffix h1 d" "prefix h2 c"
    by (auto simp: occurs_def sublist_append)
  then show "occurs h d \<or> occurs h (tail_of refLength d @ take refLength c) \<or> occurs h c"
  proof cases
    case 3
    then obtain a b where ab: "d = a @ h1" "c = h2 @ b" by (auto simp: suffix_def prefix_def)
    have len: "length h1 \<le> refLength" "length h2 \<le> refLength" using h 3(1) by (auto simp: occurs_def)
    have "tail_of refLength d = drop (length d - refLength) a @ h1"
      using len ab by (simp add: tail_of_def)
    moreover have "take refLength c = h2 @ take (refLength - length h2) b" using len ab by simp
    ultimately have "sublist h (tail_of refLength d @ take refLength c)"
      using 3(1) by (auto simp: sublist_def)
    with h show ?thesis by (auto simp: occurs_def)
  qed (use h in \<open>auto simp: occurs_def\<close>)
next
  assume "occurs h d \<or> occurs h (tail_of refLength d @ take refLength c) \<or> occurs h c"
  then show "occurs h (d @ c)"
    unfolding occurs_def by (metis sublist_tail sublist_append sublist_order.order.trans)
qed


section \<open>RefScanSink is a chunk sink\<close>

definition RefScanSink_inv :: "string oset \<Rightarrow> string \<Rightarrow> RefScanSink \<Rightarrow> bool" where
  "RefScanSink_inv hs d st \<longleftrightarrow>
     tail st = tail_of refLength d \<and> oset_ok (seen st) \<and>
     set (hashes st) = {h \<in> set hs. \<not> occurs h d} \<and> set (seen st) = {h \<in> set hs. occurs h d}"

lemma tail_update:
  "(let tailLen = min (length c) refLength; rest = refLength - tailLen; t = tail_of refLength d
    in (if rest < length t then drop (length t - rest) t else t) @ drop (length c - tailLen) c) =
   tail_of refLength (d @ c)"
  by (auto simp: tail_of_append min_def Let_def)

lemma RefScanSink_step:
  assumes "RefScanSink_inv hs d st"
  shows "RefScanSink_inv hs (d @ c) (RefScanSink_call st c)"
proof -
  define s where "s = tail st @ take (min (length c) refLength) c"
  obtain h1 n1 where 1: "search s 0 (hashes st) (seen st) = (h1, n1)" by fastforce
  obtain h2 n2 where 2: "search c 0 h1 n1 = (h2, n2)" by fastforce
  have s: "s = tail_of refLength d @ take refLength c"
    using assms by (auto simp: s_def RefScanSink_inv_def min_def)
  have tl: "tail st = tail_of refLength d" using assms by (simp add: RefScanSink_inv_def)
  have call: "RefScanSink_call st c = \<lparr>hashes = h2, seen = n2, tail = tail_of refLength (d @ c)\<rparr>"
    unfolding RefScanSink_call_def Let_def tl tail_update [of c d, unfolded Let_def]
    using 1 2 by (simp add: s_def tl)
  have "set h2 = {h \<in> set hs. \<not> occurs h (d @ c)}" "set n2 = {h \<in> set hs. occurs h (d @ c)}" "oset_ok n2"
    using search_sets [OF 1] search_sets [OF 2] assms
    by (auto simp: RefScanSink_inv_def occurs_from_0 occurs_append [of _ d c] s)
  then show ?thesis by (simp add: RefScanSink_inv_def call)
qed

lemma not_occurs_Nil: "\<not> occurs h []"
  by (auto simp: occurs_def refLength_def)

interpretation refscan: chunk_sink "RefScanSink_init (oset_of hs)" RefScanSink_call "RefScanSink_inv hs"
  seen "\<lambda>d. filter (\<lambda>h. occurs h d) (oset_of hs)" for hs
proof
  show "RefScanSink_inv hs [] (RefScanSink_init (oset_of hs))"
    by (simp add: RefScanSink_inv_def RefScanSink_init_def tail_of_def not_occurs_Nil)
  fix d st
  show "RefScanSink_inv hs (d @ c) (RefScanSink_call st c)" if "RefScanSink_inv hs d st" for c
    using that by (rule RefScanSink_step)
  show "seen st = filter (\<lambda>h. occurs h d) (oset_of hs)" if "RefScanSink_inv hs d st"
    using that by (intro oset_eq) (auto simp: RefScanSink_inv_def sorted_wrt_filter)
qed

text \<open>
  C19: the reference scanner is exact whatever the chunks: after any sequence of writes the hashes
  found are those of the given set that occur anywhere in the whole stream, also across the
  boundaries of any number of chunks, and are Nix base-32 strings of 32 characters.
\<close>

theorem RefScanSink_exact:
  assumes "oset_ok hs"
  shows "seen (foldl RefScanSink_call (RefScanSink_init hs) chunks) =
    filter (\<lambda>h. length h = 32 \<and> set h \<subseteq> set nix32Chars \<and> sublist h (concat chunks)) hs"
  using refscan.finish_chunks [of hs chunks] assms
  by (simp add: oset_of_id occurs_def refLength_def list_all_iff isBase32_def subset_eq)

theorem RefScanSink_exact_witness:
  "seen (foldl RefScanSink_call (RefScanSink_init [replicate 32 (CHR ''0''), replicate 32 (CHR ''a'')])
     [''a'' @ replicate 20 (CHR ''0''), replicate 15 (CHR ''0''), ''b'']) = [replicate 32 (CHR ''0'')]"
proof -
  have "sublist (replicate 32 (CHR ''0'')) (''a'' @ replicate 35 (CHR ''0'') @ ''b'')"
    unfolding sublist_def
    by (rule exI [of _ "''a''"], rule exI [of _ "''000b''"]) (simp add: numeral_eq_Suc)
  moreover have "\<not> sublist (replicate 32 (CHR ''a'')) (''a'' @ replicate 35 (CHR ''0'') @ ''b'')"
  proof
    assume "sublist (replicate 32 (CHR ''a'')) (''a'' @ replicate 35 (CHR ''0'') @ ''b'')"
    then have "sublist ''aa'' (''a'' @ replicate 35 (CHR ''0'') @ ''b'')"
      by (rule sublist_order.order.trans [rotated]) (simp add: sublist_def numeral_eq_Suc, metis append_Cons append_Nil)
    then show False by (simp add: numeral_eq_Suc sublist_code)
  qed
  moreover have "concat [''a'' @ replicate 20 (CHR ''0''), replicate 15 (CHR ''0''), ''b''] = ''a'' @ replicate 35 (CHR ''0'') @ ''b''"
    by (simp add: numeral_eq_Suc)
  ultimately show ?thesis
    by (subst RefScanSink_exact) (auto simp: nix32Chars_def less_char_def numeral_eq_Suc)
qed


section \<open>Scanning for store paths is exact\<close>

lemma fromPaths_loop_eq:
  assumes "distinct (map hashPart refs)" "\<forall>i \<in> set refs. map_of bm (hashPart i) = None"
  shows "\<exists>bm'. fromPaths_loop refs hs bm = Inr (fold oset_insert (map hashPart refs) hs, bm') \<and>
    map_of bm' = map_of bm ++ map_of (map (\<lambda>i. (hashPart i, i)) refs)"
  using assms
proof (induction refs arbitrary: hs bm)
  case (Cons i refs)
  have new: "map_of bm (hashPart i) = None" using Cons.prems(2) by simp
  have "\<forall>j \<in> set refs. map_of (omap_emplace (hashPart i) i bm) (hashPart j) = None"
    using Cons.prems new by (auto simp: map_of_omap_emplace image_iff)
  with Cons.IH [of "omap_emplace (hashPart i) i bm" "oset_insert (hashPart i) hs"] Cons.prems(1)
  obtain bm' where "fromPaths_loop refs (oset_insert (hashPart i) hs) (omap_emplace (hashPart i) i bm) =
      Inr (fold oset_insert (map hashPart refs) (oset_insert (hashPart i) hs), bm')"
    "map_of bm' = map_of (omap_emplace (hashPart i) i bm) ++ map_of (map (\<lambda>i. (hashPart i, i)) refs)" by auto
  moreover have "map_of (map (\<lambda>i. (hashPart i, i)) refs) (hashPart i) = None"
    using Cons.prems(1) by (auto simp: map_of_eq_None_iff)
  ultimately show ?case
    using new by (auto simp: map_of_omap_emplace map_add_def fun_eq_iff split: option.splits)
qed simp

lemma truncate_PathRefScanSink_call:
  "RefScanSink.truncate (PathRefScanSink_call st c) = RefScanSink_call (RefScanSink.truncate st) c \<and>
   backMap (PathRefScanSink_call st c) = backMap st"
  by (simp add: PathRefScanSink_call_def RefScanSink.truncate_def Let_def)

lemma foldl_scan:
  "\<exists>st'. foldl (\<lambda>(a, b) d. (PathRefScanSink_call a d, toTee b d)) (st, tee) writes = (st', foldl toTee tee writes) \<and>
     RefScanSink.truncate st' = foldl RefScanSink_call (RefScanSink.truncate st) writes \<and> backMap st' = backMap st"
proof (induction writes arbitrary: st tee)
  case (Cons c writes)
  from Cons [of "PathRefScanSink_call st c" "toTee tee c"] show ?case by (simp add: truncate_PathRefScanSink_call)
qed simp

lemma rmap_lookup:
  assumes "\<forall>i \<in> set is. \<exists>p. m i = Some p"
  shows "rmap (\<lambda>i. case m i of None \<Rightarrow> Inl e | Some p \<Rightarrow> Inr p) is = Inr (map (the \<circ> m) is)"
  using assms by (intro rmap_Inr) auto

text \<open>
  C20: scanning the archive of a path finds exactly its references: of a set of valid store paths
  with distinct hash parts, \<^verbatim>\<open>scanForReferences\<close> returns those whose hash part occurs somewhere in
  the bytes written, and passes all bytes on to the other sink unchanged.
\<close>

theorem scanForReferences_exact:
  assumes "oset_ok refs" "distinct (map hashPart refs)" "list_all storePath_ok refs"
  shows "scanForReferences toTee tee writes refs =
    Inr (foldl toTee tee writes, filter (\<lambda>p. sublist (hashPart p) (concat writes)) refs)"
proof -
  define hs where "hs = map hashPart refs"
  obtain bm where bm: "fromPaths_loop refs [] [] = Inr (oset_of hs, bm)"
    "map_of bm = map_of (map (\<lambda>i. (hashPart i, i)) refs)"
    using fromPaths_loop_eq [OF assms(2), of "[]" "[]"] by (auto simp: oset_of_def hs_def)
  define st where "st = \<lparr>hashes = oset_of hs, seen = [], tail = [], backMap = bm\<rparr>"
  obtain st' where st': "foldl (\<lambda>(a, b) d. (PathRefScanSink_call a d, toTee b d)) (st, tee) writes = (st', foldl toTee tee writes)"
    "RefScanSink.truncate st' = foldl RefScanSink_call (RefScanSink.truncate st) writes" "backMap st' = bm"
    using foldl_scan [of toTee st tee writes] by (auto simp: st_def)
  have lookup: "map_of bm (hashPart p) = Some p" if "p \<in> set refs" for p
    using that assms(2) bm(2) by (simp add: map_of_eq_Some_iff comp_def)
  have ok: "occurs (hashPart p) d \<longleftrightarrow> sublist (hashPart p) d" if "p \<in> set refs" for p d
    using that assms(3) by (auto simp: list_all_iff storePath_ok_def occurs_def isBase32_def refLength_def hashPart_def HashLen_def)
  have start: "RefScanSink.truncate st = RefScanSink_init (oset_of hs)"
    by (simp add: st_def RefScanSink.truncate_def RefScanSink_init_def)
  have "seen (RefScanSink.truncate st') = filter (\<lambda>h. occurs h (concat writes)) (oset_of hs)"
    unfolding st'(2) start by (rule refscan.finish_chunks)
  then have seen: "seen st' = filter (\<lambda>h. occurs h (concat writes)) (oset_of hs)" by (simp add: RefScanSink.truncate_def)
  have "\<forall>i \<in> set (seen st'). \<exists>p. map_of bm i = Some p" using lookup by (auto simp: seen hs_def)
  then have "getResultPaths st' = Inr (oset_of (map (the \<circ> map_of bm) (seen st')))"
    by (simp add: getResultPaths_def st'(3) rmap_lookup)
  also have "oset_of (map (the \<circ> map_of bm) (seen st')) = filter (\<lambda>p. sublist (hashPart p) (concat writes)) refs"
  proof (rule oset_eq)
    show "set (oset_of (map (the \<circ> map_of bm) (seen st'))) = set (filter (\<lambda>p. sublist (hashPart p) (concat writes)) refs)"
      using lookup ok by (force simp: seen hs_def)
  qed (use assms(1) in \<open>simp_all add: sorted_wrt_filter\<close>)
  finally show ?thesis
    using st'(1) bm(1) by (simp add: scanForReferences_def fromPaths_def st_def)
qed

theorem scanForReferences_exact_witness:
  "\<exists>p q. scanForReferences StringSink_call [] [''x'' @ replicate 20 (CHR ''f''), replicate 12 (CHR ''f'') @ ''y''] [q, p] =
     Inr (''x'' @ replicate 32 (CHR ''f'') @ ''y'', [p])"
proof -
  define p where "p = StorePath (replicate 32 (CHR ''f'') @ ''-x'')"
  define q where "q = StorePath (replicate 32 (CHR ''0'') @ ''-x'')"
  have ok: "storePath_ok p" "storePath_ok q"
    using valid_name_x by (simp_all add: p_def q_def storePath_ok_def hashPart_def sp_name_def HashLen_def nix32Chars_def)
  have parts: "hashPart p = replicate 32 (CHR ''f'')" "hashPart q = replicate 32 (CHR ''0'')"
    by (simp_all add: p_def q_def hashPart_def HashLen_def)
  have lt: "q < p" by (simp add: less_StorePath_def p_def q_def numeral_eq_Suc less_char_def)
  have c: "concat [''x'' @ replicate 20 (CHR ''f''), replicate 12 (CHR ''f'') @ ''y''] = ''x'' @ replicate 32 (CHR ''f'') @ ''y''"
    by (simp add: numeral_eq_Suc)
  have "sublist (hashPart p) (''x'' @ replicate 32 (CHR ''f'') @ ''y'')"
    unfolding parts sublist_def by blast
  moreover have "\<not> sublist (hashPart q) (''x'' @ replicate 32 (CHR ''f'') @ ''y'')"
    using set_mono_sublist [of "hashPart q" "''x'' @ replicate 32 (CHR ''f'') @ ''y''"] by (auto simp: parts)
  ultimately have "scanForReferences StringSink_call [] [''x'' @ replicate 20 (CHR ''f''), replicate 12 (CHR ''f'') @ ''y''] [q, p] =
      Inr (foldl StringSink_call [] [''x'' @ replicate 20 (CHR ''f''), replicate 12 (CHR ''f'') @ ''y''], [p])"
    using ok lt c by (subst scanForReferences_exact) (auto simp: parts numeral_eq_Suc)
  then show ?thesis unfolding foldl_StringSink c by auto
qed


section \<open>RewritingSink rewrites the stream\<close>

definition rewrite_once :: "string \<Rightarrow> string \<Rightarrow> string \<Rightarrow> string" where
  "rewrite_once pat to s = (if pat = to then s else rewrite_scan pat to s)"

lemma rewriteStrings_once: "length pat = length to \<Longrightarrow> rewriteStrings s [(pat, to)] = Some (rewrite_once pat to s)"
  by (simp add: rewrite_once_def rewriteStrings_loop_scan)

lemma length_rewrite_once [simp]: "length (rewrite_once pat to s) = length s"
  by (simp add: rewrite_once_def)

text \<open>
  The scan needs one character less than the pattern of lookahead: scanning a prefix, and then
  the last characters of the result with what follows, is scanning the whole.
\<close>

lemma rewrite_scan_append:
  assumes "length pat = length to" "pat \<noteq> to"
  shows "rewrite_scan pat to (x @ y) =
    (let r = rewrite_scan pat to x; k = length x - (length pat - 1)
     in take k r @ rewrite_scan pat to (drop k r @ y))"
proof (induction "length x" arbitrary: x)
  case 0
  then show ?case by (simp add: rewrite_scan.simps [of pat to "[]"])
next
  case (Suc n)
  show ?case
  proof (cases "length x < length pat")
    case True
    then have "\<not> sublist pat x" by (auto dest: sublist_length_le)
    moreover have "length x - (length pat - 1) = 0" using True by simp
    ultimately show ?thesis by (simp add: rewrite_scan_None Let_def)
  next
    case False
    obtain c t where x: "x = c # t" "length t = n" using Suc(2) by (cases x) auto
    have pos: "0 < length pat" using assms by (cases pat) auto
    have k: "length x - (length pat - 1) = Suc (n - (length pat - 1))" using False x pos by simp
    show ?thesis
    proof (cases "prefix pat x")
      case True
      then have "to @ drop (length pat) x \<noteq> []" using pos assms(1) by (cases to) auto
      then obtain d u where u: "to @ drop (length pat) x = d # u" by (cases "to @ drop (length pat) x") auto
      have len: "length u = n" using splice_length [OF u assms(1) True] x by simp
      have "to @ drop (length pat) (x @ y) = d # (u @ y)" using u False by simp
      moreover have "prefix pat (x @ y)" using True by simp
      ultimately have "rewrite_scan pat to (x @ y) = d # rewrite_scan pat to (u @ y)"
        using assms x(1) by (subst rewrite_scan.simps) simp
      moreover have "rewrite_scan pat to x = d # rewrite_scan pat to u"
        using assms x(1) True u by (subst rewrite_scan.simps) simp
      ultimately show ?thesis using Suc(1) [of u] len k by (simp add: Let_def)
    next
      case nomatch: False
      moreover have "\<not> prefix pat (x @ y)" using nomatch False by (auto simp: prefix_append)
      ultimately have "rewrite_scan pat to (x @ y) = c # rewrite_scan pat to (t @ y)"
        "rewrite_scan pat to x = c # rewrite_scan pat to t"
        using x(1) by (subst rewrite_scan.simps; simp)+
      then show ?thesis using Suc(1) [of t] x(2) k by (simp add: Let_def)
    qed
  qed
qed

lemma rewrite_once_append:
  assumes "length pat = length to"
  shows "rewrite_once pat to (x @ y) =
    (let r = rewrite_once pat to x; k = length x - (length pat - 1)
     in take k r @ rewrite_once pat to (drop k r @ y))"
proof (cases "pat = to")
  case True
  have "take k x @ drop k x @ y = x @ y" for k by (metis append_assoc append_take_drop_id)
  with True show ?thesis by (simp add: rewrite_once_def Let_def)
next
  case False
  with rewrite_scan_append [OF assms False, of x y] show ?thesis by (simp add: rewrite_once_def)
qed

context appending_writer
begin

definition rewriting_start :: "string \<Rightarrow> string \<Rightarrow> 'w RewritingSink" where
  "rewriting_start pat to =
     \<lparr>rs_rewrites = [(pat, to)], maxRewriteSize = length pat, prev = [], nextSink = w0, pos = 0, matches = []\<rparr>"

definition rewriting_inv :: "string \<Rightarrow> string \<Rightarrow> string \<Rightarrow> 'w RewritingSink \<Rightarrow> bool" where
  "rewriting_inv pat to d st \<longleftrightarrow>
     rs_rewrites st = [(pat, to)] \<and> maxRewriteSize st = length pat \<and> matches st = [] \<and>
     (\<exists>cs. nextSink st = foldl w w0 cs \<and> pos st = word_of_nat (length (concat cs)) \<and>
        concat cs = take (length d - (length pat - 1)) (rewrite_once pat to d) \<and>
        prev st = drop (length d - (length pat - 1)) (rewrite_once pat to d))"

lemma rewriting_call:
  assumes "length pat = length to" "rewriting_inv pat to d st"
  shows "\<exists>st'. RewritingSink_call w st c = Some st' \<and> rewriting_inv pat to (d @ c) st'"
proof -
  define n where "n = length pat - 1"
  obtain cs where st: "rs_rewrites st = [(pat, to)]" "maxRewriteSize st = length pat" "matches st = []"
    "nextSink st = foldl w w0 cs" "pos st = word_of_nat (length (concat cs))"
    "concat cs = take (length d - n) (rewrite_once pat to d)" "prev st = drop (length d - n) (rewrite_once pat to d)"
    using assms(2) by (auto simp: rewriting_inv_def n_def)
  define s where "s = rewrite_once pat to (prev st @ c)"
  define q where "q = length s - n"
  have whole: "rewrite_once pat to (d @ c) = concat cs @ s"
    using rewrite_once_append [OF assms(1), of d c] st(6,7) by (simp add: s_def n_def Let_def)
  have len: "length (concat cs) + q = length (d @ c) - n"
    unfolding q_def s_def st(6) by (simp add: st(7))
  have p: "(if length s < length pat then s else if length pat = 0 then [] else drop (length s - length pat + 1) s) = drop q s"
  proof (cases "length pat")
    case (Suc m)
    have "Suc (length s - Suc m) = length s - m" if "\<not> length s < Suc m" using that by linarith
    then show ?thesis by (auto simp: q_def n_def Suc)
  qed (simp add: q_def n_def)
  have cons: "length s - length (drop q s) = q" by (simp add: q_def)
  define cs' where "cs' = (if q \<noteq> 0 then cs @ [take q s] else cs)"
  have cs': "concat cs' = concat cs @ take q s" by (simp add: cs'_def)
  define st' where "st' = st\<lparr>prev := drop q s, pos := pos st + word_of_nat q,
      nextSink := (if q \<noteq> 0 then w (nextSink st) (take q s) else nextSink st)\<rparr>"
  have "RewritingSink_call w st c = Some st'"
    unfolding RewritingSink_call_def st(1,2) rewriteStrings_once [OF assms(1)] s_def [symmetric] Option.bind.simps Let_def p cons st'_def ..
  moreover have "rewriting_inv pat to (d @ c) st'"
    unfolding rewriting_inv_def
  proof (intro conjI exI [of _ cs'])
    show "concat cs' = take (length (d @ c) - (length pat - 1)) (rewrite_once pat to (d @ c))"
      unfolding whole cs' n_def [symmetric] len [symmetric] by simp
    show "prev st' = drop (length (d @ c) - (length pat - 1)) (rewrite_once pat to (d @ c))"
      unfolding whole n_def [symmetric] len [symmetric] by (simp add: st'_def)
    show "pos st' = word_of_nat (length (concat cs'))"
      by (simp add: st'_def cs' st(5) q_def)
    show "nextSink st' = foldl w w0 cs'" by (simp add: st'_def cs'_def st(4))
  qed (simp_all add: st'_def st)
  ultimately show ?thesis by blast
qed

lemma rewriting_flush:
  assumes "rewriting_inv pat to d st"
  shows "view (nextSink (RewritingSink_flush w st)) = spec (rewrite_once pat to d)"
    "pos (RewritingSink_flush w st) = word_of_nat (length d)" "matches (RewritingSink_flush w st) = []"
proof -
  obtain cs where st: "matches st = []"
    "nextSink st = foldl w w0 cs" "pos st = word_of_nat (length (concat cs))"
    "concat cs @ prev st = rewrite_once pat to d"
    using assms by (auto simp: rewriting_inv_def)
  have "word_of_nat (length (concat cs)) + word_of_nat (length (prev st)) = (word_of_nat (length d) :: u64)"
    using arg_cong [OF st(4), of length] by (simp flip: of_nat_add)
  with st show "view (nextSink (RewritingSink_flush w st)) = spec (rewrite_once pat to d)"
    "pos (RewritingSink_flush w st) = word_of_nat (length d)" "matches (RewritingSink_flush w st) = []"
    using spec [of cs] spec [of "cs @ [prev st]"] by (auto simp: RewritingSink_flush_def)
qed

lemma rewriting_chunks:
  assumes "length pat = length to"
  shows "\<exists>st. foldl (\<lambda>s c. Option.bind s (\<lambda>s. RewritingSink_call w s c)) (Some (rewriting_start pat to)) chunks = Some st \<and>
    rewriting_inv pat to (concat chunks) st"
proof -
  have "chunk_sink (Some (rewriting_start pat to)) (\<lambda>s c. Option.bind s (\<lambda>s. RewritingSink_call w s c))
      (\<lambda>d s. \<exists>st. s = Some st \<and> rewriting_inv pat to d st) (\<lambda>_. ()) (\<lambda>_. ())"
  proof
    show "\<exists>st. Some (rewriting_start pat to) = Some st \<and> rewriting_inv pat to [] st"
      by (auto simp: rewriting_start_def rewriting_inv_def rewrite_once_def rewrite_scan.simps intro!: exI [of _ "[]"])
  qed (use rewriting_call [OF assms] in auto)
  from chunk_sink.inv_chunks [OF this] show ?thesis .
qed

end


section \<open>HashModuloSink\<close>

lemma HashSink_finish_eq:
  assumes "(case inner (BufferedSink_flush (HashSink_writeUnbuffered upd) hs) of (ctx, n) \<Rightarrow> (final ctx, n)) =
    (final (upd (init ha) s), word_of_nat (length s))"
  shows "HashSink_finish upd final feats ha hs =
    rbind (hashString init upd final feats ha s) (\<lambda>h. Inr (h, word_of_nat (length s)))"
  using assms
  by (simp add: HashSink_finish_def hashString_def hash_finish_def rbind_assoc Let_def split: prod.splits)

lemma HashModuloSink_init_eq:
  "HashModuloSink_init init ha modulus = Inr
     (appending_writer.rewriting_start (HashSink_init init ha) modulus (replicate (length modulus) (CHR 0x00)))"
  if "appending_writer w (HashSink_init init ha) view spec" for w view spec
  by (simp add: HashModuloSink_init_def RewritingSink_init_def appending_writer.rewriting_start_def [OF that])

lemma HashModuloSink_run:
  assumes "digest_law init upd final"
  shows "\<exists>st0 st. HashModuloSink_init init ha modulus = Inr st0 \<and>
    foldl (\<lambda>s c. Option.bind s (\<lambda>s. HashModuloSink_call upd s c)) (Some st0) chunks = Some st \<and>
    HashModuloSink_finish upd final feats ha st =
      rbind (hashString init upd final feats ha
          (rewrite_once modulus (replicate (length modulus) (CHR 0x00)) (concat chunks)))
        (\<lambda>h. Inr (h, word_of_nat (length (concat chunks))))"
proof -
  let ?w = "BufferedSink_call (HashSink_writeUnbuffered upd)"
  have writer: "appending_writer ?w (HashSink_init init ha)
      (\<lambda>s. case inner (BufferedSink_flush (HashSink_writeUnbuffered upd) s) of (ctx, n) \<Rightarrow> (final ctx, n))
      (\<lambda>s. (final (upd (init ha) s), word_of_nat (length s)))"
    using appending_writer.buffered_chunks [OF HashSink_writer [OF assms]]
    by (unfold_locales) (simp add: HashSink_init_def)
  have len: "length modulus = length (replicate (length modulus) (CHR 0x00))" by simp
  obtain st where st: "foldl (\<lambda>s c. Option.bind s (\<lambda>s. RewritingSink_call ?w s c))
      (Some (appending_writer.rewriting_start (HashSink_init init ha) modulus (replicate (length modulus) (CHR 0x00)))) chunks = Some st"
    "appending_writer.rewriting_inv ?w (HashSink_init init ha) modulus (replicate (length modulus) (CHR 0x00)) (concat chunks) st"
    using appending_writer.rewriting_chunks [OF writer len] by blast
  note fl = appending_writer.rewriting_flush [OF writer st(2)]
  have "HashModuloSink_finish upd final feats ha st =
      rbind (hashString init upd final feats ha
          (rewrite_once modulus (replicate (length modulus) (CHR 0x00)) (concat chunks)))
        (\<lambda>h. Inr (h, word_of_nat (length (concat chunks))))"
    using fl(2,3) HashSink_finish_eq [where init = init and upd = upd and final = final and ha = ha, OF fl(1)] by (simp add: HashModuloSink_finish_def Let_def rbind_assoc)
  with st(1) HashModuloSink_init_eq [OF writer] show ?thesis by (auto simp: HashModuloSink_call_def)
qed



text \<open>
  Contrary to the comment in \<^verbatim>\<open>HashModuloSink::finish\<close>, a stream that has the modulus and the
  stream that already has zeros in its place hash to the same value: the positions of the matches
  that should tell them apart are never recorded.
\<close>

theorem HashModuloSink_collides:
  assumes "digest_law init upd final"
  shows "\<exists>st0 st st'. HashModuloSink_init init ha modulus = Inr st0 \<and>
    Option.bind (Some st0) (\<lambda>s. HashModuloSink_call upd s modulus) = Some st \<and>
    Option.bind (Some st0) (\<lambda>s. HashModuloSink_call upd s (replicate (length modulus) (CHR 0x00))) = Some st' \<and>
    HashModuloSink_finish upd final feats ha st = HashModuloSink_finish upd final feats ha st'"
proof -
  define z where "z = replicate (length modulus) (CHR 0x00)"
  have len: "length modulus = length z" by (simp add: z_def)
  have id: "rewrite_scan modulus z z = z" if "modulus \<noteq> z"
    using that len by (intro rewrite_scan_None) (auto simp: sublist_def)
  have "rewrite_once modulus z modulus = z" "rewrite_once modulus z z = z"
    using rewrite_scan_match [OF len, of modulus] id by (auto simp: rewrite_once_def)
  with HashModuloSink_run [OF assms, of ha modulus "[modulus]" feats] HashModuloSink_run [OF assms, of ha modulus "[z]" feats]
  show ?thesis by (auto simp: z_def)
qed

theorem HashModuloSink_collides_witness:
  "\<exists>st0 st st'. HashModuloSink_init prefix_init SHA256 ''ab'' = Inr st0 \<and>
    Option.bind (Some st0) (\<lambda>s. HashModuloSink_call prefix_upd s ''ab'') = Some st \<and>
    Option.bind (Some st0) (\<lambda>s. HashModuloSink_call prefix_upd s [CHR 0x00, CHR 0x00]) = Some st' \<and>
    HashModuloSink_finish prefix_upd prefix_final {} SHA256 st = HashModuloSink_finish prefix_upd prefix_final {} SHA256 st'"
  using HashModuloSink_collides [OF prefix_digest_law, of SHA256 "''ab''" "{}"] by (simp add: numeral_2_eq_2)

end
