(* ===== verification/Zix_ContentAddress.thy ===== *)
theory Zix_ContentAddress
  imports Zix_StorePath Zix_Sinks Zix_Archive
begin

text \<open>
  Content addresses: \<^verbatim>\<open>src/src/libstore/content-address.cc\<close>, the methods of ingestion of
  \<^verbatim>\<open>src/src/libutil/file-content-address.cc\<close>, and the functions of \<^verbatim>\<open>StoreDirConfig\<close>
  (\<^verbatim>\<open>store-api.cc\<close>) that make a store path from a name and a content address. \<open>feats\<close> is the set of
  experimental features that are enabled; \<open>hs\<close> is \<^verbatim>\<open>hashString\<close>, with the digest algorithms fixed.
\<close>

section \<open>Methods\<close>

datatype FileSerialisationMethod = FSM_Flat | FSM_NixArchive

datatype FileIngestionMethod = FIM_Flat | FIM_NixArchive | FIM_Git

datatype ContentAddressMethod = CAM_Flat | CAM_NixArchive | CAM_Git | CAM_Text

definition parseFileSerialisationMethodOpt :: "string \<Rightarrow> FileSerialisationMethod option" where
  "parseFileSerialisationMethodOpt input =
     (if input = ''flat'' then Some FSM_Flat
      else if input = ''nar'' then Some FSM_NixArchive else None)"

definition parseFileSerialisationMethod :: "string \<Rightarrow> FileSerialisationMethod result" where
  "parseFileSerialisationMethod input =
     (case parseFileSerialisationMethodOpt input of
        Some m \<Rightarrow> Inr m
      | None \<Rightarrow> Inl (UsageError ''Unknown file serialiation method''))"

text \<open>The \<^verbatim>\<open>static_cast\<close>s between the two enumerations.\<close>

fun FIM_of_FSM :: "FileSerialisationMethod \<Rightarrow> FileIngestionMethod" where
  "FIM_of_FSM FSM_Flat = FIM_Flat"
| "FIM_of_FSM FSM_NixArchive = FIM_NixArchive"

definition parseFileIngestionMethod :: "string \<Rightarrow> FileIngestionMethod result" where
  "parseFileIngestionMethod input =
     (if input = ''git'' then Inr FIM_Git
      else case parseFileSerialisationMethodOpt input of
        Some m \<Rightarrow> Inr (FIM_of_FSM m)
      | None \<Rightarrow> Inl (UsageError ''Unknown file ingestion method''))"

fun renderFileSerialisationMethod :: "FileSerialisationMethod \<Rightarrow> string" where
  "renderFileSerialisationMethod FSM_Flat = ''flat''"
| "renderFileSerialisationMethod FSM_NixArchive = ''nar''"

fun renderFileIngestionMethod :: "FileIngestionMethod \<Rightarrow> string" where
  "renderFileIngestionMethod FIM_Flat = renderFileSerialisationMethod FSM_Flat"
| "renderFileIngestionMethod FIM_NixArchive = renderFileSerialisationMethod FSM_NixArchive"
| "renderFileIngestionMethod FIM_Git = ''git''"

fun makeFileIngestionPrefix :: "xp set \<Rightarrow> FileIngestionMethod \<Rightarrow> string result" where
  "makeFileIngestionPrefix feats FIM_Flat = Inr []"
| "makeFileIngestionPrefix feats FIM_NixArchive = Inr ''r:''"
| "makeFileIngestionPrefix feats FIM_Git = rbind (require feats GitHashing) (\<lambda>_. Inr ''git:'')"

fun getFileIngestionMethod :: "ContentAddressMethod \<Rightarrow> FileIngestionMethod" where
  "getFileIngestionMethod CAM_Flat = FIM_Flat"
| "getFileIngestionMethod CAM_NixArchive = FIM_NixArchive"
| "getFileIngestionMethod CAM_Git = FIM_Git"
| "getFileIngestionMethod CAM_Text = FIM_Flat"

fun CAM_render :: "ContentAddressMethod \<Rightarrow> string" where
  "CAM_render CAM_Text = ''text''"
| "CAM_render m = renderFileIngestionMethod (getFileIngestionMethod m)"

fun fileIngestionMethodToContentAddressMethod :: "FileIngestionMethod \<Rightarrow> ContentAddressMethod" where
  "fileIngestionMethodToContentAddressMethod FIM_Flat = CAM_Flat"
| "fileIngestionMethodToContentAddressMethod FIM_NixArchive = CAM_NixArchive"
| "fileIngestionMethodToContentAddressMethod FIM_Git = CAM_Git"

definition CAM_parse :: "string \<Rightarrow> ContentAddressMethod result" where
  "CAM_parse m =
     (if m = ''text'' then Inr CAM_Text
      else rbind (parseFileIngestionMethod m) (\<lambda>m. Inr (fileIngestionMethodToContentAddressMethod m)))"

fun renderPrefix :: "xp set \<Rightarrow> ContentAddressMethod \<Rightarrow> string result" where
  "renderPrefix feats CAM_Text = Inr ''text:''"
| "renderPrefix feats m = makeFileIngestionPrefix feats (getFileIngestionMethod m)"

text \<open>\<^verbatim>\<open>parsePrefix\<close> changes its argument: the rest is returned.\<close>

definition parsePrefix :: "xp set \<Rightarrow> string \<Rightarrow> (ContentAddressMethod \<times> string) result" where
  "parsePrefix feats m =
     (if fst (splitPrefix m ''r:'') then Inr (CAM_NixArchive, snd (splitPrefix m ''r:''))
      else if fst (splitPrefix m ''git:'') then
        rbind (require feats GitHashing) (\<lambda>_. Inr (CAM_Git, snd (splitPrefix m ''git:'')))
      else if fst (splitPrefix m ''text:'') then Inr (CAM_Text, snd (splitPrefix m ''text:''))
      else Inr (CAM_Flat, m))"

fun renderPrefixModern :: "xp set \<Rightarrow> ContentAddressMethod \<Rightarrow> string result" where
  "renderPrefixModern feats CAM_Text = Inr ''text:''"
| "renderPrefixModern feats m =
     rbind (makeFileIngestionPrefix feats (getFileIngestionMethod m)) (\<lambda>p. Inr (''fixed:'' @ p))"

definition renderWithAlgo :: "xp set \<Rightarrow> ContentAddressMethod \<Rightarrow> HashAlgorithm \<Rightarrow> string result" where
  "renderWithAlgo feats m ha = rbind (renderPrefixModern feats m) (\<lambda>p. Inr (p @ printHashAlgo ha))"

section \<open>Content addresses\<close>

record ContentAddress =
  ca_method :: ContentAddressMethod
  ca_hash :: Hash

definition ContentAddress_render :: "xp set \<Rightarrow> ContentAddress \<Rightarrow> string result" where
  "ContentAddress_render feats ca =
     rbind (renderPrefixModern feats (ca_method ca)) (\<lambda>p.
     rbind (to_string (ca_hash ca) Nix32 True) (\<lambda>h. Inr (p @ h)))"

definition parseHashAlgorithm' :: "string \<Rightarrow> (HashAlgorithm \<times> string) result" where
  "parseHashAlgorithm' rest =
     (case splitPrefixTo rest (CHR '':'') of
        (None, _) \<Rightarrow> Inl (UsageError ''content address hash must be in form <algo>:<hash>'')
      | (Some raw, rest) \<Rightarrow> rbind (parseHashAlgo raw) (\<lambda>ha. Inr (ha, rest)))"

definition parseContentAddressMethodPrefix :: "xp set \<Rightarrow> string \<Rightarrow>
    (ContentAddressMethod \<times> HashAlgorithm \<times> string) result" where
  "parseContentAddressMethodPrefix feats rest =
     (case splitPrefixTo rest (CHR '':'') of
        (None, _) \<Rightarrow> Inl (UsageError ''not a content address because it is not in the form <prefix>:<rest>'')
      | (Some pre, rest) \<Rightarrow>
          if pre = ''text'' then rbind (parseHashAlgorithm' rest) (\<lambda>(ha, rest). Inr (CAM_Text, ha, rest))
          else if pre = ''fixed'' then
            rbind (if fst (splitPrefix rest ''r:'') then Inr (CAM_NixArchive, snd (splitPrefix rest ''r:''))
                   else if fst (splitPrefix rest ''git:'') then
                     rbind (require feats GitHashing) (\<lambda>_. Inr (CAM_Git, snd (splitPrefix rest ''git:'')))
                   else Inr (CAM_Flat, rest)) (\<lambda>(method, rest).
            rbind (parseHashAlgorithm' rest) (\<lambda>(ha, rest). Inr (method, ha, rest)))
          else Inl (UsageError ''content address prefix is unrecognized''))"

definition ContentAddress_parse :: "xp set \<Rightarrow> string \<Rightarrow> ContentAddress result" where
  "ContentAddress_parse feats rawCa =
     rbind (parseContentAddressMethodPrefix feats rawCa) (\<lambda>(caMethod, hashAlgo, rest).
     rbind (parseNonSRIUnprefixed feats rest hashAlgo) (\<lambda>h. Inr \<lparr>ca_method = caMethod, ca_hash = h\<rparr>))"

definition parseWithAlgo :: "xp set \<Rightarrow> string \<Rightarrow> (ContentAddressMethod \<times> HashAlgorithm) result" where
  "parseWithAlgo feats caMethod =
     rbind (parseContentAddressMethodPrefix feats (caMethod @ '':'')) (\<lambda>(m, ha, _). Inr (m, ha))"

definition ContentAddress_parseOpt :: "xp set \<Rightarrow> string \<Rightarrow> ContentAddress option result" where
  "ContentAddress_parseOpt feats rawCaOpt =
     (if rawCaOpt = [] then Inr None else rbind (ContentAddress_parse feats rawCaOpt) (\<lambda>ca. Inr (Some ca)))"

definition renderContentAddress :: "xp set \<Rightarrow> ContentAddress option \<Rightarrow> string result" where
  "renderContentAddress feats ca =
     (case ca of Some ca \<Rightarrow> ContentAddress_render feats ca | None \<Rightarrow> Inr [])"

definition printMethodAlgo :: "xp set \<Rightarrow> ContentAddress \<Rightarrow> string result" where
  "printMethodAlgo feats ca =
     rbind (renderPrefix feats (ca_method ca)) (\<lambda>p. Inr (p @ printHashAlgo (algo (ca_hash ca))))"

section \<open>Content addresses with references\<close>

record StoreReferences =
  others :: "StorePath oset"
  self :: bool

definition StoreReferences_empty :: "StoreReferences \<Rightarrow> bool" where
  "StoreReferences_empty r \<longleftrightarrow> \<not> self r \<and> others r = []"

definition StoreReferences_size :: "StoreReferences \<Rightarrow> nat" where
  "StoreReferences_size r = (if self r then 1 else 0) + length (others r)"

datatype ContentAddressWithReferences =
    TextInfo (ti_hash: Hash) (ti_references: "StorePath oset")
  | FixedOutputInfo (foi_method: FileIngestionMethod) (foi_hash: Hash) (foi_references: StoreReferences)

fun withoutRefs :: "ContentAddress \<Rightarrow> ContentAddressWithReferences" where
  "withoutRefs ca =
     (case ca_method ca of
        CAM_Text \<Rightarrow> TextInfo (ca_hash ca) []
      | m \<Rightarrow> FixedOutputInfo (getFileIngestionMethod m) (ca_hash ca) \<lparr>others = [], self = False\<rparr>)"

definition fromParts :: "ContentAddressMethod \<Rightarrow> Hash \<Rightarrow> StoreReferences \<Rightarrow> ContentAddressWithReferences result" where
  "fromParts method h refs =
     (case method of
        CAM_Text \<Rightarrow> if self refs then Inl (Error ''self-reference not allowed with text hashing'')
                   else Inr (TextInfo h (others refs))
      | m \<Rightarrow> Inr (FixedOutputInfo (getFileIngestionMethod m) h refs))"

fun getMethod :: "ContentAddressWithReferences \<Rightarrow> ContentAddressMethod" where
  "getMethod (TextInfo h refs) = CAM_Text"
| "getMethod (FixedOutputInfo m h refs) = fileIngestionMethodToContentAddressMethod m"

fun getHash :: "ContentAddressWithReferences \<Rightarrow> Hash" where
  "getHash (TextInfo h refs) = h"
| "getHash (FixedOutputInfo m h refs) = h"

section \<open>Making store paths\<close>

type_synonym hash_fun = "HashAlgorithm \<Rightarrow> string \<Rightarrow> Hash result"

definition store_fingerprint :: "string \<Rightarrow> string \<Rightarrow> string \<Rightarrow> string \<Rightarrow> string" where
  "store_fingerprint storeDir type hash_str name = type @ '':'' @ hash_str @ '':'' @ storeDir @ '':'' @ name"

definition makeStorePath :: "hash_fun \<Rightarrow> xp set \<Rightarrow> string \<Rightarrow> string \<Rightarrow> string \<Rightarrow> string \<Rightarrow> StorePath result" where
  "makeStorePath hs feats storeDir type hash_str name =
     rbind (hs SHA256 (store_fingerprint storeDir type hash_str name)) (\<lambda>d.
     rbind (compressHash feats d 20) (\<lambda>h. mkStorePath_hash h name))"

definition makeStorePath_hash :: "hash_fun \<Rightarrow> xp set \<Rightarrow> string \<Rightarrow> string \<Rightarrow> Hash \<Rightarrow> string \<Rightarrow> StorePath result" where
  "makeStorePath_hash hs feats storeDir type h name =
     rbind (to_string h Base16 True) (\<lambda>s. makeStorePath hs feats storeDir type s name)"

definition outputPathName :: "string \<Rightarrow> string \<Rightarrow> string" where
  "outputPathName drvName outputName = drvName @ (if outputName \<noteq> ''out'' then ''-'' @ outputName else [])"

definition makeOutputPath :: "hash_fun \<Rightarrow> xp set \<Rightarrow> string \<Rightarrow> string \<Rightarrow> Hash \<Rightarrow> string \<Rightarrow> StorePath result" where
  "makeOutputPath hs feats storeDir outputId h name =
     makeStorePath_hash hs feats storeDir (''output:'' @ outputId) h (outputPathName name outputId)"

definition makeType :: "string \<Rightarrow> string \<Rightarrow> StoreReferences \<Rightarrow> string" where
  "makeType storeDir type references =
     fold (\<lambda>i type. type @ '':'' @ printStorePath storeDir i) (others references) type @
     (if self references then '':self'' else [])"

definition makeFixedOutputPath ::
  "hash_fun \<Rightarrow> xp set \<Rightarrow> string \<Rightarrow> string \<Rightarrow> FileIngestionMethod \<Rightarrow> Hash \<Rightarrow> StoreReferences \<Rightarrow> StorePath result" where
  "makeFixedOutputPath hs feats storeDir name method h references =
     (if method = FIM_Git \<and> algo h \<noteq> SHA1 then Inl (Error ''Git file ingestion must use SHA-1 hash'')
      else if algo h = SHA256 \<and> method = FIM_NixArchive then
        makeStorePath_hash hs feats storeDir (makeType storeDir ''source'' references) h name
      else if \<not> StoreReferences_empty references then
        Inl (Error ''fixed output derivation is not allowed to refer to other store paths'')
      else
        rbind (makeFileIngestionPrefix feats method) (\<lambda>p.
        rbind (to_string h Base16 True) (\<lambda>s.
        rbind (hs SHA256 (''fixed:out:'' @ p @ s @ '':'')) (\<lambda>digest.
          makeStorePath_hash hs feats storeDir ''output:out'' digest name))))"

fun makeFixedOutputPathFromCA ::
  "hash_fun \<Rightarrow> xp set \<Rightarrow> string \<Rightarrow> string \<Rightarrow> ContentAddressWithReferences \<Rightarrow> StorePath result" where
  "makeFixedOutputPathFromCA hs feats storeDir name (TextInfo h refs) =
     rbind (assert_that (algo h = SHA256) ''ti.hash.algo == HashAlgorithm::SHA256'') (\<lambda>_.
       makeStorePath_hash hs feats storeDir (makeType storeDir ''text'' \<lparr>others = refs, self = False\<rparr>) h name)"
| "makeFixedOutputPathFromCA hs feats storeDir name (FixedOutputInfo m h refs) =
     makeFixedOutputPath hs feats storeDir name m h refs"

text \<open>
  \<^verbatim>\<open>hashPath\<close>: the serialisation goes through a \<^verbatim>\<open>HashSink\<close>, which hashes the stream. The hash of the
  Git method (\<^verbatim>\<open>git::dumpHash\<close>) is an argument.
\<close>

definition dumpPath_method :: "nat \<Rightarrow> bool \<Rightarrow> accessor \<Rightarrow> string \<Rightarrow> FileSerialisationMethod \<Rightarrow> (string \<Rightarrow> bool) \<Rightarrow> string result option" where
  "dumpPath_method fuel useCaseHack acc path method filt =
     (case method of
        FSM_Flat \<Rightarrow> Some (readFile acc path)
      | FSM_NixArchive \<Rightarrow> dumpPath fuel useCaseHack acc path filt)"

definition hashPath_serialised ::
  "nat \<Rightarrow> bool \<Rightarrow> hash_fun \<Rightarrow> accessor \<Rightarrow> string \<Rightarrow> FileSerialisationMethod \<Rightarrow> HashAlgorithm \<Rightarrow> (string \<Rightarrow> bool) \<Rightarrow>
     (Hash \<times> u64) result option" where
  "hashPath_serialised fuel useCaseHack hs acc path method ha filt =
     fbind (dumpPath_method fuel useCaseHack acc path method filt) (\<lambda>s.
       Some (rbind (hs ha s) (\<lambda>h. Inr (h, word_of_nat (length s)))))"

definition hashPath ::
  "nat \<Rightarrow> bool \<Rightarrow> hash_fun \<Rightarrow> (HashAlgorithm \<Rightarrow> accessor \<Rightarrow> string \<Rightarrow> (string \<Rightarrow> bool) \<Rightarrow> Hash result) \<Rightarrow> accessor \<Rightarrow> string \<Rightarrow>
     FileIngestionMethod \<Rightarrow> HashAlgorithm \<Rightarrow> (string \<Rightarrow> bool) \<Rightarrow> (Hash \<times> u64 option) result option" where
  "hashPath fuel useCaseHack hs gitHash acc path method ht filt =
     (case method of
        FIM_Flat \<Rightarrow> fbind (hashPath_serialised fuel useCaseHack hs acc path FSM_Flat ht filt) (\<lambda>(h, n). Some (Inr (h, Some n)))
      | FIM_NixArchive \<Rightarrow>
          fbind (hashPath_serialised fuel useCaseHack hs acc path FSM_NixArchive ht filt) (\<lambda>(h, n). Some (Inr (h, Some n)))
      | FIM_Git \<Rightarrow> Some (rbind (gitHash ht acc path filt) (\<lambda>h. Inr (h, None))))"

definition computeStorePath ::
  "nat \<Rightarrow> bool \<Rightarrow> hash_fun \<Rightarrow> (HashAlgorithm \<Rightarrow> accessor \<Rightarrow> string \<Rightarrow> (string \<Rightarrow> bool) \<Rightarrow> Hash result) \<Rightarrow> xp set \<Rightarrow> string \<Rightarrow>
     string \<Rightarrow> accessor \<Rightarrow> string \<Rightarrow> ContentAddressMethod \<Rightarrow> HashAlgorithm \<Rightarrow> StorePath oset \<Rightarrow> (string \<Rightarrow> bool) \<Rightarrow>
     (StorePath \<times> Hash) result option" where
  "computeStorePath fuel useCaseHack hs gitHash feats storeDir name acc path method ha references filt =
     fbind (hashPath fuel useCaseHack hs gitHash acc path (getFileIngestionMethod method) ha filt) (\<lambda>(h, _).
       Some (rbind (fromParts method h \<lparr>others = references, self = False\<rparr>) (\<lambda>ca.
             rbind (makeFixedOutputPathFromCA hs feats storeDir name ca) (\<lambda>p. Inr (p, h)))))"


section \<open>Round trips\<close>

definition method_enabled :: "xp set \<Rightarrow> ContentAddressMethod \<Rightarrow> bool" where
  "method_enabled feats m \<longleftrightarrow> m = CAM_Git \<longrightarrow> GitHashing \<in> feats"

lemma parseHashAlgorithm_print [simp]: "parseHashAlgorithm' (printHashAlgo ha @ CHR '':'' # rest) = Inr (ha, rest)"
  by (simp add: parseHashAlgorithm'_def printHashAlgo_plain)

lemma printHashAlgo_no_prefix:
  "\<not> prefix ''r:'' (printHashAlgo ha @ s)" "\<not> prefix ''git:'' (printHashAlgo ha @ s)" "\<not> prefix ''text:'' (printHashAlgo ha @ s)"
  by (cases ha; simp)+

lemma parse_prefix_modern:
  assumes "method_enabled feats m"
  shows "\<exists>p. renderPrefixModern feats m = Inr p \<and>
    parseContentAddressMethodPrefix feats (p @ printHashAlgo ha @ CHR '':'' # rest) = Inr (m, ha, rest)"
proof -
  have sp_text: "splitPrefixTo (CHR ''t'' # CHR ''e'' # CHR ''x'' # CHR ''t'' # CHR '':'' # s) (CHR '':'') = (Some ''text'', s)" for s
    using splitPrefixTo_append [of "CHR '':''" "''text''" s] by simp
  have sp_fixed: "splitPrefixTo (CHR ''f'' # CHR ''i'' # CHR ''x'' # CHR ''e'' # CHR ''d'' # CHR '':'' # s) (CHR '':'') = (Some ''fixed'', s)" for s
    using splitPrefixTo_append [of "CHR '':''" "''fixed''" s] by simp
  show ?thesis
    using assms printHashAlgo_no_prefix [of ha]
    by (cases m) (auto simp: parseContentAddressMethodPrefix_def sp_text sp_fixed splitPrefix_def require_def method_enabled_def)
qed

text \<open>
  Content addresses and their methods survive printing and parsing: for an enabled method and a
  valid hash, \<^verbatim>\<open>ContentAddress::parse\<close> inverts \<^verbatim>\<open>render\<close>, \<^verbatim>\<open>parseWithAlgo\<close> inverts \<^verbatim>\<open>renderWithAlgo\<close>,
  \<^verbatim>\<open>ContentAddressMethod::parse\<close> inverts \<^verbatim>\<open>render\<close>, and \<^verbatim>\<open>parsePrefix\<close> takes the prefix of
  \<^verbatim>\<open>renderPrefix\<close> off an algorithm name.
\<close>

theorem ContentAddress_roundtrip:
  assumes "method_enabled feats (ca_method ca)" "hash_ok (ca_hash ca)" "algo_enabled feats (algo (ca_hash ca))"
  shows "rbind (ContentAddress_render feats ca) (ContentAddress_parse feats) = Inr ca \<and>
    rbind (renderWithAlgo feats (ca_method ca) ha) (parseWithAlgo feats) = Inr (ca_method ca, ha) \<and>
    CAM_parse (CAM_render (ca_method ca)) = Inr (ca_method ca) \<and>
    rbind (renderPrefix feats (ca_method ca)) (\<lambda>p. parsePrefix feats (p @ printHashAlgo ha)) =
      Inr (ca_method ca, printHashAlgo ha)"
proof (intro conjI)
  obtain p where p: "renderPrefixModern feats (ca_method ca) = Inr p"
    "\<And>ha rest. parseContentAddressMethodPrefix feats (p @ printHashAlgo ha @ CHR '':'' # rest) = Inr (ca_method ca, ha, rest)"
    using parse_prefix_modern [OF assms(1)] by (metis Inr_inject)
  show "rbind (ContentAddress_render feats ca) (ContentAddress_parse feats) = Inr ca"
    using p Hash_parse_digits [OF assms(2,3), of Nix32]
    by (simp add: ContentAddress_render_def ContentAddress_parse_def to_string_eq [OF assms(2)] parseNonSRIUnprefixed_def)
  show "rbind (renderWithAlgo feats (ca_method ca) ha) (parseWithAlgo feats) = Inr (ca_method ca, ha)"
    using p by (simp add: renderWithAlgo_def parseWithAlgo_def)
  show "CAM_parse (CAM_render (ca_method ca)) = Inr (ca_method ca)"
    by (cases "ca_method ca")
      (simp_all add: CAM_parse_def parseFileIngestionMethod_def parseFileSerialisationMethodOpt_def)
  show "rbind (renderPrefix feats (ca_method ca)) (\<lambda>p. parsePrefix feats (p @ printHashAlgo ha)) =
      Inr (ca_method ca, printHashAlgo ha)"
    using assms(1) printHashAlgo_no_prefix [of ha "[]"]
    by (cases "ca_method ca") (auto simp: parsePrefix_def splitPrefix_def method_enabled_def require_def)
qed


text \<open>A hash for examples: all zeros.\<close>

definition zero_hash :: "HashAlgorithm \<Rightarrow> Hash" where
  "zero_hash ha = \<lparr>hashSize = regularHashSize ha, hash = replicate maxHashSize 0, algo = ha\<rparr>"

lemma zero_hash_ok [simp]: "hash_ok (zero_hash ha)" "algo (zero_hash ha) = ha"
  by (simp_all add: zero_hash_def hash_ok_def)

theorem ContentAddress_roundtrip_witness:
  "rbind (ContentAddress_render {GitHashing} \<lparr>ca_method = CAM_Git, ca_hash = zero_hash SHA1\<rparr>) (ContentAddress_parse {GitHashing}) =
     Inr \<lparr>ca_method = CAM_Git, ca_hash = zero_hash SHA1\<rparr>"
  using ContentAddress_roundtrip [of "{GitHashing}" "\<lparr>ca_method = CAM_Git, ca_hash = zero_hash SHA1\<rparr>"]
  by (simp add: method_enabled_def algo_enabled_def)

section \<open>Store paths made from content addresses\<close>

text \<open>
  What is relied on of \<^verbatim>\<open>hashString\<close>: it returns a valid hash of the algorithm that is asked for.
\<close>

definition hash_law :: "xp set \<Rightarrow> hash_fun \<Rightarrow> bool" where
  "hash_law feats hs \<longleftrightarrow>
     (\<forall>ha s. algo_enabled feats ha \<longrightarrow> (\<exists>h. hs ha s = Inr h \<and> hash_ok h \<and> algo h = ha))"

lemma hash_law_hashString:
  assumes "digest_law init upd final"
  shows "hash_law feats (hashString init upd final feats)"
  unfolding hash_law_def
proof (intro allI impI)
  fix ha s
  assume "algo_enabled feats ha"
  then obtain h where "hashString init upd final feats ha s = Inr h" "algo h = ha"
    by (auto simp: hashString_def Hash_zero_eq Let_def)
  with hashString_ok [OF assms] show "\<exists>h. hashString init upd final feats ha s = Inr h \<and> hash_ok h \<and> algo h = ha" by blast
qed

lemma hash_law_SHA256:
  assumes "hash_law feats hs"
  obtains d c where "hs SHA256 s = Inr d" "hash_ok d" "algo d = SHA256" "compressHash feats d 20 = Inr c"
    "hash_sized c" "hashSize c = 20" "algo c = SHA256"
proof -
  have "algo_enabled feats SHA256" by (simp add: algo_enabled_def)
  with assms obtain d where d: "hs SHA256 s = Inr d" "hash_ok d" "algo d = SHA256" by (auto simp: hash_law_def)
  then obtain c where c: "compressHash feats d 20 = Inr c"
    using compressHash_total [of feats d 20] by (auto simp: algo_enabled_def)
  with compressHash_sized [OF c] d that show thesis by (simp add: maxHashSize_def)
qed

lemma mkStorePath_hash_eq:
  assumes "hash_sized c" "hashSize c = 20"
  shows "mkStorePath_hash c name =
    (if valid_name name then Inr (StorePath (print32 c @ ''-'' @ name)) else Inl (BadStorePath ''path is not a valid store path''))"
proof -
  have len: "length (print32 c) = 32" using assms(2) by (simp add: base32Len_def)
  have "sp_name (StorePath (print32 c @ ''-'' @ name)) = name" using len by (simp add: sp_name_def HashLen_def)
  moreover have "to_string c Nix32 False = Inr (print32 c)" using assms by (simp add: to_string_def printHash32_eq)
  moreover have "checkPathName b name = (if valid_name name then Inr () else Inl (BadStorePath ''path is not a valid store path''))" for b
    using checkName_eq(2,3) [of name] by (cases "checkName name") (auto simp: checkPathName_def)
  ultimately show ?thesis using len by (simp add: mkStorePath_hash_def HashLen_def Let_def)
qed

lemma made_path:
  assumes "hash_sized c" "hashSize c = 20" "valid_name name" "p = StorePath (print32 c @ ''-'' @ name)"
  shows "storePath_ok p" "sp_name p = name" "hashPart p = print32 c"
proof -
  have len: "length (print32 c) = 32" using assms(2) by (simp add: base32Len_def)
  then show "sp_name p = name" "hashPart p = print32 c"
    using assms(4) by (simp_all add: sp_name_def hashPart_def HashLen_def)
  with len set_print32 [of c] assms(3,4) show "storePath_ok p" by (simp add: storePath_ok_def HashLen_def)
qed

text \<open>
  C24: making a store path succeeds exactly for valid names, and the path is then a valid store path
  with that name; otherwise the error is \<^verbatim>\<open>BadStorePath\<close>.
\<close>

theorem makeStorePath_valid:
  assumes "hash_law feats hs"
  shows "(case makeStorePath hs feats storeDir type hash_str name of
      Inr p \<Rightarrow> valid_name name \<and> storePath_ok p \<and> sp_name p = name
    | Inl e \<Rightarrow> \<not> valid_name name \<and> (\<exists>msg. e = BadStorePath msg))"
proof -
  obtain d c where "hs SHA256 (store_fingerprint storeDir type hash_str name) = Inr d" "compressHash feats d 20 = Inr c"
    "hash_sized c" "hashSize c = 20" by (rule hash_law_SHA256 [OF assms])
  then show ?thesis using made_path [of c name] by (simp add: makeStorePath_def mkStorePath_hash_eq)
qed

theorem makeStorePath_valid_witness:
  "(case makeStorePath (hashString prefix_init prefix_upd prefix_final {}) {} ''/nix/store'' ''source'' ''x'' ''x'' of
      Inr p \<Rightarrow> storePath_ok p \<and> sp_name p = ''x'' | Inl e \<Rightarrow> False)"
  using makeStorePath_valid [OF hash_law_hashString [OF prefix_digest_law, of "{}"], where storeDir = "''/nix/store''" and type = "''source''"
      and hash_str = "''x''" and name = "''x''"]
    valid_name_x
  by (auto split: sum.splits)


lemma makeStorePath_name:
  "hash_law feats hs \<Longrightarrow> makeStorePath hs feats dir t h name = Inr p \<Longrightarrow> sp_name p = name"
proof -
  assume law: "hash_law feats hs" and p: "makeStorePath hs feats dir t h name = Inr p"
  obtain d c where "hs SHA256 (store_fingerprint dir t h name) = Inr d" "compressHash feats d 20 = Inr c"
    "hash_sized c" "hashSize c = 20" by (rule hash_law_SHA256 [OF law])
  with p made_path [of c name] show ?thesis by (simp add: makeStorePath_def mkStorePath_hash_eq split: if_splits)
qed

lemma made_name:
  assumes "makeFixedOutputPathFromCA hs feats dir name ca = Inr p" "hash_law feats hs"
  shows "sp_name p = name"
  using assms
  by (cases ca) (auto simp: makeFixedOutputPath_def makeStorePath_hash_def result_simps makeStorePath_name split: if_splits)

section \<open>Content addressing is injective\<close>

text \<open>Two different strings that \<^verbatim>\<open>makeStorePath\<close> would compress to the same 160 bits.\<close>

definition collision :: "xp set \<Rightarrow> hash_fun \<Rightarrow> bool" where
  "collision feats hs \<longleftrightarrow>
     (\<exists>s t c d. s \<noteq> t \<and> hs SHA256 s = Inr c \<and> hs SHA256 t = Inr d \<and> compressHash feats c 20 = compressHash feats d 20)"

lemma split_last_eq:
  assumes "a @ c # b = a' @ c # b'" "c \<notin> set b" "c \<notin> set b'"
  shows "a = a' \<and> b = b'"
proof -
  have "takeWhile (\<lambda>x. x \<noteq> c) (rev (a @ c # b)) = rev b" "takeWhile (\<lambda>x. x \<noteq> c) (rev (a' @ c # b')) = rev b'"
    using assms(2,3) by (auto simp: takeWhile_append)
  with assms(1) show ?thesis by (metis append_same_eq rev_rev_ident)
qed

lemma printHash16_plain: "CHR '':'' \<notin> set (printHash16 h)"
  using format_digits_plain(1) [of Base16 h] by simp

lemma hash_eqI:
  assumes "hash_ok h" "hash_ok h'" "algo h = algo h'" "printHash16 h = printHash16 h'"
  shows "h = h'"
proof -
  have "algo_enabled UNIV a" for a by (simp add: algo_enabled_def)
  then have "Inr h = (Inr h' :: Hash result)"
    using Hash_parse_digits [OF assms(1), of UNIV Base16] Hash_parse_digits [OF assms(2), of UNIV Base16] assms(3,4) by simp
  then show ?thesis by simp
qed

lemma printHashAlgo_inject: "printHashAlgo a = printHashAlgo b \<longleftrightarrow> a = b"
  by (metis Inr_inject parseHashAlgo_print)

text \<open>A hash with its algorithm, after anything.\<close>

lemma hash_string_inject:
  assumes "x @ printHashAlgo (algo h) @ '':'' @ printHash16 h = y @ printHashAlgo (algo h') @ '':'' @ printHash16 h'"
    "hash_ok h" "hash_ok h'"
  shows "printHash16 h = printHash16 h' \<and> x @ printHashAlgo (algo h) = y @ printHashAlgo (algo h')"
  using split_last_eq [of "x @ printHashAlgo (algo h)" "CHR '':''" "printHash16 h" "y @ printHashAlgo (algo h')" "printHash16 h'"]
    assms(1) printHash16_plain by simp

lemma fingerprint_inject:
  assumes "store_fingerprint dir t (printHashAlgo (algo h) @ '':'' @ printHash16 h) n =
      store_fingerprint dir t' (printHashAlgo (algo h') @ '':'' @ printHash16 h') n'"
    "CHR '':'' \<notin> set n" "CHR '':'' \<notin> set n'" "hash_ok h" "hash_ok h'"
  shows "t = t' \<and> h = h' \<and> n = n'"
proof -
  have s: "(t @ '':'' @ printHashAlgo (algo h) @ '':'' @ printHash16 h @ '':'' @ dir) @ CHR '':'' # n =
      (t' @ '':'' @ printHashAlgo (algo h') @ '':'' @ printHash16 h' @ '':'' @ dir) @ CHR '':'' # n'"
    using assms(1) by (simp add: store_fingerprint_def)
  have n: "n = n'" and u: "t @ '':'' @ printHashAlgo (algo h) @ '':'' @ printHash16 h =
      t' @ '':'' @ printHashAlgo (algo h') @ '':'' @ printHash16 h'"
    using split_last_eq [OF s assms(2,3)] by simp_all
  from hash_string_inject [of "t @ '':''" h "t' @ '':''" h'] u assms(4,5)
  have d: "printHash16 h = printHash16 h'" and v: "t @ CHR '':'' # printHashAlgo (algo h) = t' @ CHR '':'' # printHashAlgo (algo h')"
    by simp_all
  from split_last_eq [OF v printHashAlgo_plain(1) printHashAlgo_plain(1)]
  have "t = t'" "algo h = algo h'" by (simp_all add: printHashAlgo_inject)
  with n d hash_eqI [OF assms(4,5)] show ?thesis by blast
qed

lemma valid_name_no_colon: "valid_name n \<Longrightarrow> CHR '':'' \<notin> set n"
  by (auto simp: valid_name_def list_all_iff name_char_def less_eq_char_def)

lemma makeStorePath_hash_inject:
  assumes "hash_law feats hs" "hash_ok h" "hash_ok h'"
    "makeStorePath_hash hs feats dir t h n = Inr p" "makeStorePath_hash hs feats dir t' h' n' = Inr p"
  shows "n = n' \<and> (t = t' \<and> h = h' \<or> collision feats hs)"
proof -
  define f where "f = store_fingerprint dir t (printHashAlgo (algo h) @ '':'' @ printHash16 h) n"
  define f' where "f' = store_fingerprint dir t' (printHashAlgo (algo h') @ '':'' @ printHash16 h') n'"
  obtain d c where d: "hs SHA256 f = Inr d" "compressHash feats d 20 = Inr c"
    "hash_sized c" "hashSize c = 20" "algo c = SHA256" by (rule hash_law_SHA256 [OF assms(1)])
  obtain d' c' where d': "hs SHA256 f' = Inr d'" "compressHash feats d' 20 = Inr c'"
    "hash_sized c'" "hashSize c' = 20" "algo c' = SHA256" by (rule hash_law_SHA256 [OF assms(1)])
  have p: "valid_name n" "p = StorePath (print32 c @ ''-'' @ n)"
    using assms(4) d by (auto simp: makeStorePath_hash_def makeStorePath_def to_string_eq [OF assms(2)] f_def mkStorePath_hash_eq split: if_splits)
  have p': "valid_name n'" "p = StorePath (print32 c' @ ''-'' @ n')"
    using assms(5) d' by (auto simp: makeStorePath_hash_def makeStorePath_def to_string_eq [OF assms(3)] f'_def mkStorePath_hash_eq split: if_splits)
  have names: "n = n'" "print32 c = print32 c'"
    using made_path [OF d(3,4) p] made_path [OF d'(3,4) p'] by simp_all
  have "hash c = hash c'" using print32_inject [OF d(3) d'(3)] names d(4) d'(4) by simp
  then have "c = c'" using d(4,5) d'(4,5) by simp
  show ?thesis
  proof (cases "f = f'")
    case True
    with fingerprint_inject [of dir t h n t' h' n'] valid_name_no_colon p p' assms(2,3) show ?thesis
      by (simp add: f_def f'_def)
  next
    case False
    with d(1,2) d'(1,2) \<open>c = c'\<close> have "collision feats hs"
      unfolding collision_def by (intro exI [of _ f] exI [of _ f'] exI [of _ d] exI [of _ d']) simp
    with names(1) show ?thesis by blast
  qed
qed


lemma makeType_eq:
  "makeType dir t r = t @ concat (map (Cons (CHR '':'')) (map (printStorePath dir) (others r) @ (if self r then [''self''] else [])))"
proof -
  have "fold (\<lambda>i t. t @ '':'' @ printStorePath dir i) xs t = t @ concat (map (Cons (CHR '':'')) (map (printStorePath dir) xs))" for xs t
    by (induction xs arbitrary: t) simp_all
  then show ?thesis by (simp add: makeType_def)
qed

lemma concat_colons_inject:
  "concat (map (Cons c) xs) = concat (map (Cons c) ys) \<Longrightarrow> \<forall>x \<in> set xs \<union> set ys. c \<notin> set x \<Longrightarrow> xs = ys"
proof (induction xs arbitrary: ys)
  case Nil
  then show ?case by (cases ys) auto
next
  case (Cons x xs)
  then obtain y zs where ys: "ys = y # zs" by (cases ys) auto
  have tw: "takeWhile (\<lambda>d. d \<noteq> c) (u @ concat (map (Cons c) us)) = u" if "c \<notin> set u" for u us
    using that by (cases us) (auto simp: takeWhile_append)
  have "x @ concat (map (Cons c) xs) = y @ concat (map (Cons c) zs)" using Cons.prems(1) ys by simp
  then have "x = y" using tw [of x xs] tw [of y zs] Cons.prems(2) ys by simp
  with Cons ys show ?case by auto
qed

text \<open>References that can be told apart in the type: no colon in their names or in the store directory.\<close>

definition refs_plain :: "string \<Rightarrow> StoreReferences \<Rightarrow> bool" where
  "refs_plain dir r \<longleftrightarrow> (\<forall>p \<in> set (others r). CHR '':'' \<notin> set (printStorePath dir p))"

lemma printStorePath_inject: "printStorePath dir p = printStorePath dir q \<longleftrightarrow> p = q"
  by (simp add: printStorePath_def StorePath.expand StorePath.sel) (metis StorePath.expand)

lemma makeType_inject:
  assumes "makeType dir t r = makeType dir t r'" "refs_plain dir r" "refs_plain dir r'" "isAbsolute dir"
  shows "r = r'"
proof -
  let ?l = "\<lambda>r. map (printStorePath dir) (others r) @ (if self r then [''self''] else [])"
  have eq: "?l r = ?l r'"
  proof (rule concat_colons_inject)
    show "concat (map (Cons (CHR '':'')) (?l r)) = concat (map (Cons (CHR '':'')) (?l r'))"
      using assms(1) unfolding makeType_eq by (simp only: same_append_eq)
    show "\<forall>x \<in> set (?l r) \<union> set (?l r'). CHR '':'' \<notin> set x" using assms(2,3) by (auto simp: refs_plain_def)
  qed
  have "''self'' \<notin> set (map (printStorePath dir) xs)" for xs
    using assms(4) by (cases dir) (auto simp: printStorePath_def isAbsolute_def)
  with arg_cong [OF eq, of set] have s: "self r = self r'" by (cases "self r"; cases "self r'") auto
  from this eq have "map (printStorePath dir) (others r) = map (printStorePath dir) (others r')" by simp
  then have "others r = others r'"
    by (rule map_injective) (simp add: inj_def printStorePath_inject)
  with s show ?thesis by (cases r; cases r') simp
qed

lemma fixed_payload_inject:
  assumes "makeFileIngestionPrefix feats m = Inr x" "makeFileIngestionPrefix feats m' = Inr x'" "hash_ok h" "hash_ok h'"
    "x @ printHashAlgo (algo h) @ '':'' @ printHash16 h = x' @ printHashAlgo (algo h') @ '':'' @ printHash16 h'"
  shows "m = m' \<and> h = h'"
proof -
  have eq: "printHash16 h = printHash16 h'" "x @ printHashAlgo (algo h) = x' @ printHashAlgo (algo h')"
    using hash_string_inject [OF assms(5,3,4)] by simp_all
  have "x \<in> {[], ''r:'', ''git:''}" "x' \<in> {[], ''r:'', ''git:''}"
    using assms(1,2) by (cases m; cases m'; auto simp: result_simps)+
  with eq(2) have "x = x'" "algo h = algo h'" by (cases "algo h"; cases "algo h'"; auto)+
  moreover from this(1) have "m = m'" using assms(1,2) by (cases m; cases m') (auto simp: result_simps)
  ultimately show ?thesis using hash_eqI [OF assms(3,4)] eq(1) by blast
qed


fun ca_plain :: "string \<Rightarrow> ContentAddressWithReferences \<Rightarrow> bool" where
  "ca_plain dir (TextInfo h refs) \<longleftrightarrow> hash_ok h \<and> refs_plain dir \<lparr>others = refs, self = False\<rparr>"
| "ca_plain dir (FixedOutputInfo m h refs) \<longleftrightarrow> hash_ok h \<and> refs_plain dir refs"

text \<open>
  The three shapes of a content-addressed path: the type and the hash that \<^verbatim>\<open>makeStorePath\<close> gets.
\<close>

lemma ca_cases:
  assumes "makeFixedOutputPathFromCA hs feats dir n ca = Inr p" "hash_law feats hs" "ca_plain dir ca"
  obtains (ref) t r h where "t \<in> {''text'', ''source''}" "hash_ok h" "refs_plain dir r"
      "makeStorePath_hash hs feats dir (makeType dir t r) h n = Inr p"
      "ca = (if t = ''text'' then TextInfo h (others r) else FixedOutputInfo FIM_NixArchive h r)"
      "t = ''text'' \<longrightarrow> \<not> self r"
  | (flat) m h x d where "hash_ok h" "makeFileIngestionPrefix feats m = Inr x"
      "hs SHA256 (''fixed:out:'' @ x @ printHashAlgo (algo h) @ '':'' @ printHash16 h @ '':'') = Inr d" "hash_ok d"
      "makeStorePath_hash hs feats dir ''output:out'' d n = Inr p"
      "ca = FixedOutputInfo m h \<lparr>others = [], self = False\<rparr>"
proof (cases ca)
  case (TextInfo h refs)
  with assms ref [of "''text''" h "\<lparr>others = refs, self = False\<rparr>"] show thesis by (auto simp: result_simps)
next
  case (FixedOutputInfo m h r)
  show thesis
  proof (cases "algo h = SHA256 \<and> m = FIM_NixArchive")
    case True
    with FixedOutputInfo assms ref [of "''source''" h r] show thesis
      by (auto simp: makeFixedOutputPath_def split: if_splits)
  next
    case False
    with FixedOutputInfo assms obtain x d where xd: "makeFileIngestionPrefix feats m = Inr x"
      "hs SHA256 (''fixed:out:'' @ x @ printHashAlgo (algo h) @ '':'' @ printHash16 h @ '':'') = Inr d"
      "makeStorePath_hash hs feats dir ''output:out'' d n = Inr p" "StoreReferences_empty r" "hash_ok h"
      by (auto simp: makeFixedOutputPath_def result_simps to_string_eq split: if_splits)
    obtain d' where "hs SHA256 (''fixed:out:'' @ x @ printHashAlgo (algo h) @ '':'' @ printHash16 h @ '':'') = Inr d'" "hash_ok d'"
      by (rule hash_law_SHA256 [OF assms(2)])
    with xd(2) have "hash_ok d" by simp
    moreover have "r = \<lparr>others = [], self = False\<rparr>"
      using \<open>StoreReferences_empty r\<close> by (cases r) (simp add: StoreReferences_empty_def)
    ultimately show thesis using FixedOutputInfo xd flat [OF xd(5,1,2) _ xd(3)] by simp
  qed
qed



end
