(* ===== verification/Zix_Keys.thy ===== *)
theory Zix_Keys
  imports Zix_Strings
begin

text \<open>
  Signing keys: \<^verbatim>\<open>src/src/libutil/signature/local-keys.cc\<close> and \<^verbatim>\<open>signer.cc\<close>. The Ed25519 functions
  of libsodium are arguments: \<open>sign data sk\<close> (\<^verbatim>\<open>crypto_sign_detached\<close>), \<open>verify sig data pk\<close>
  (\<^verbatim>\<open>crypto_sign_verify_detached\<close> returning 0) and \<open>sk_to_pk\<close> (\<^verbatim>\<open>crypto_sign_ed25519_sk_to_pk\<close>).
\<close>

definition crypto_sign_SECRETKEYBYTES :: nat where "crypto_sign_SECRETKEYBYTES = 64"
definition crypto_sign_PUBLICKEYBYTES :: nat where "crypto_sign_PUBLICKEYBYTES = 32"
definition crypto_sign_BYTES :: nat where "crypto_sign_BYTES = 64"

definition BorrowedCryptoValue_parse :: "string \<Rightarrow> string \<times> string" where
  "BorrowedCryptoValue_parse s =
     (case str_find '':'' s of
        None \<Rightarrow> ([], [])
      | Some colon \<Rightarrow> if colon = 0 then ([], []) else (take colon s, drop (colon + 1) s))"

record Key =
  key_name :: string
  key_key :: string

definition Key_parse :: "string \<Rightarrow> Key result" where
  "Key_parse s =
     (let (name, payload) = BorrowedCryptoValue_parse s in
      if name = [] \<or> payload = [] then Inl (FormatError ''key is corrupt'')
      else rbind (base64Decode payload) (\<lambda>k. Inr \<lparr>key_name = name, key_key = k\<rparr>))"

definition Key_to_string :: "Key \<Rightarrow> string" where
  "Key_to_string k = key_name k @ '':'' @ base64Encode (key_key k)"

definition SecretKey_parse :: "string \<Rightarrow> Key result" where
  "SecretKey_parse s =
     rbind (Key_parse s) (\<lambda>k.
       if length (key_key k) \<noteq> crypto_sign_SECRETKEYBYTES then Inl (Error ''secret key is not valid'') else Inr k)"

definition SecretKey_signDetached :: "(string \<Rightarrow> string \<Rightarrow> string) \<Rightarrow> Key \<Rightarrow> string \<Rightarrow> string" where
  "SecretKey_signDetached sign k data = key_name k @ '':'' @ base64Encode (sign data (key_key k))"

definition toPublicKey :: "(string \<Rightarrow> string) \<Rightarrow> Key \<Rightarrow> Key" where
  "toPublicKey sk_to_pk k = \<lparr>key_name = key_name k, key_key = sk_to_pk (key_key k)\<rparr>"

definition PublicKey_parse :: "string \<Rightarrow> Key result" where
  "PublicKey_parse s =
     rbind (Key_parse s) (\<lambda>k.
       if length (key_key k) \<noteq> crypto_sign_PUBLICKEYBYTES then Inl (Error ''public key is not valid'') else Inr k)"

definition verifyDetachedAnon :: "(string \<Rightarrow> string \<Rightarrow> string \<Rightarrow> bool) \<Rightarrow> Key \<Rightarrow> string \<Rightarrow> string \<Rightarrow> bool result" where
  "verifyDetachedAnon verify k data sig =
     rbind (case base64Decode sig of
              Inr d \<Rightarrow> Inr d
            | Inl e \<Rightarrow> if caught_as_Error e then Inr [] else Inl e) (\<lambda>sig2.
       if length sig2 \<noteq> crypto_sign_BYTES then Inl (Error ''signature is not valid'')
       else Inr (verify sig2 data (key_key k)))"

definition PublicKey_verifyDetached :: "(string \<Rightarrow> string \<Rightarrow> string \<Rightarrow> bool) \<Rightarrow> Key \<Rightarrow> string \<Rightarrow> string \<Rightarrow> bool result" where
  "PublicKey_verifyDetached verify k data sig =
     (let (name, payload) = BorrowedCryptoValue_parse sig in
      if name \<noteq> key_name k then Inr False else verifyDetachedAnon verify k data payload)"

definition verifyDetached :: "(string \<Rightarrow> string \<Rightarrow> string \<Rightarrow> bool) \<Rightarrow> string \<Rightarrow> string \<Rightarrow> (string, Key) omap \<Rightarrow> bool result" where
  "verifyDetached verify data sig publicKeys =
     (let (name, payload) = BorrowedCryptoValue_parse sig in
      case map_of publicKeys name of
        None \<Rightarrow> Inr False
      | Some k \<Rightarrow> verifyDetachedAnon verify k data payload)"

text \<open>\<^verbatim>\<open>LocalSigner\<close> keeps both keys.\<close>

record LocalSigner =
  privateKey :: Key
  publicKey :: Key

definition mkLocalSigner :: "(string \<Rightarrow> string) \<Rightarrow> Key \<Rightarrow> LocalSigner" where
  "mkLocalSigner sk_to_pk k = \<lparr>privateKey = k, publicKey = toPublicKey sk_to_pk k\<rparr>"

definition LocalSigner_signDetached :: "(string \<Rightarrow> string \<Rightarrow> string) \<Rightarrow> LocalSigner \<Rightarrow> string \<Rightarrow> string" where
  "LocalSigner_signDetached sign s data = SecretKey_signDetached sign (privateKey s) data"

section \<open>Keys and signatures survive their encoding\<close>

definition key_ok :: "Key \<Rightarrow> bool" where
  "key_ok k \<longleftrightarrow> key_name k \<noteq> [] \<and> CHR '':'' \<notin> set (key_name k)"

text \<open>What is documented of libsodium: signatures of a key verify with its public key.\<close>

definition sodium_law :: "(string \<Rightarrow> string \<Rightarrow> string) \<Rightarrow> (string \<Rightarrow> string \<Rightarrow> string \<Rightarrow> bool) \<Rightarrow> (string \<Rightarrow> string) \<Rightarrow> bool" where
  "sodium_law sign verify sk_to_pk \<longleftrightarrow>
     (\<forall>sk data. length sk = crypto_sign_SECRETKEYBYTES \<longrightarrow>
        length (sign data sk) = crypto_sign_BYTES \<and> length (sk_to_pk sk) = crypto_sign_PUBLICKEYBYTES \<and>
        verify (sign data sk) data (sk_to_pk sk))"

lemma str_find_char: "c \<notin> set a \<Longrightarrow> str_find [c] (a @ c # b) = Some (length a)"
  by (induction a) (subst str_find.simps; auto)+

lemma CryptoValue_parse_append:
  "n \<noteq> [] \<Longrightarrow> CHR '':'' \<notin> set n \<Longrightarrow> BorrowedCryptoValue_parse (n @ CHR '':'' # p) = (n, p)"
  by (simp add: BorrowedCryptoValue_parse_def str_find_char)

lemma base64Encode_Nil: "base64Encode s = [] \<longleftrightarrow> s = []"
proof -
  have "(length s + 2) div 3 * 4 = 0 \<longleftrightarrow> length s = 0" by (auto simp: div_eq_0_iff)
  then show ?thesis by (metis length_0_conv length_base64Encode)
qed

lemma Key_roundtrip: "key_ok k \<Longrightarrow> key_key k \<noteq> [] \<Longrightarrow> Key_parse (Key_to_string k) = Inr k"
  by (simp add: Key_parse_def Key_to_string_def CryptoValue_parse_append key_ok_def base64Decode_tail base64Encode_Nil)

lemma verify_sign:
  assumes "sodium_law sign verify sk_to_pk" "key_ok k" "length (key_key k) = crypto_sign_SECRETKEYBYTES"
    "map_of publicKeys (key_name k) = Some (toPublicKey sk_to_pk k)"
  shows "verifyDetached verify data (SecretKey_signDetached sign k data) publicKeys = Inr True"
proof -
  have "BorrowedCryptoValue_parse (SecretKey_signDetached sign k data) = (key_name k, base64Encode (sign data (key_key k)))"
    using assms(2) by (simp add: SecretKey_signDetached_def CryptoValue_parse_append key_ok_def)
  moreover have "length (sign data (key_key k)) = crypto_sign_BYTES" "verify (sign data (key_key k)) data (sk_to_pk (key_key k))"
    using assms(1,3) by (simp_all add: sodium_law_def)
  ultimately show ?thesis
    using assms(4) by (simp add: verifyDetached_def verifyDetachedAnon_def base64Decode_tail toPublicKey_def)
qed

text \<open>Functions for examples that satisfy the law: the signature is the public key and the data.\<close>

definition toy_pk :: "string \<Rightarrow> string" where
  "toy_pk sk = take 32 sk"

definition toy_sign :: "string \<Rightarrow> string \<Rightarrow> string" where
  "toy_sign data sk = take 64 (toy_pk sk @ data @ replicate 64 (CHR 0x00))"

definition toy_verify :: "string \<Rightarrow> string \<Rightarrow> string \<Rightarrow> bool" where
  "toy_verify sig data pk \<longleftrightarrow> sig = take 64 (pk @ data @ replicate 64 (CHR 0x00))"

lemma toy_sodium_law: "sodium_law toy_sign toy_verify toy_pk"
  by (auto simp: sodium_law_def toy_sign_def toy_verify_def toy_pk_def crypto_sign_SECRETKEYBYTES_def
      crypto_sign_PUBLICKEYBYTES_def crypto_sign_BYTES_def)

end
