(* ===== verification/Zix_PathInfo.thy ===== *)
theory Zix_PathInfo
  imports Zix_ContentAddress Zix_Keys
begin

text \<open>
  Information on store objects: \<^verbatim>\<open>src/src/libstore/path-info.cc\<close> (fingerprints, signatures, content
  addresses) and the text format of binary caches, \<^verbatim>\<open>src/src/libstore/nar-info.cc\<close>. The number parser
  \<^verbatim>\<open>boost::lexical_cast\<close> is the argument \<open>lexcast\<close>; \<open>None\<close> is that it throws.
\<close>

record UnkeyedValidPathInfo =
  i_deriver :: "StorePath option"
  i_narHash :: Hash
  i_references :: "StorePath oset"
  i_registrationTime :: int
  i_narSize :: u64
  i_id :: u64
  i_ultimate :: bool
  i_sigs :: "string oset"
  i_ca :: "ContentAddress option"

record ValidPathInfo = UnkeyedValidPathInfo +
  i_path :: StorePath

record NarInfo = ValidPathInfo +
  n_url :: string
  n_compression :: string
  n_fileHash :: "Hash option"
  n_fileSize :: u64

section \<open>Fingerprints and signatures\<close>

definition fingerprint :: "string \<Rightarrow> 'a ValidPathInfo_scheme \<Rightarrow> string result" where
  "fingerprint storeDir info =
     (if i_narSize info = 0 then Inl (Error ''cannot calculate fingerprint of path because its size is not known'')
      else rbind (to_string (i_narHash info) Nix32 True) (\<lambda>h.
        Inr (''1;'' @ printStorePath storeDir (i_path info) @ '';'' @ h @ '';'' @ to_decimal (unat (i_narSize info)) @ '';'' @
             concatStringsSep '','' (printStorePathSet storeDir (i_references info)))))"

text \<open>\<open>signDetached\<close> is the method of the signer.\<close>

definition ValidPathInfo_sign :: "string \<Rightarrow> (string \<Rightarrow> string) \<Rightarrow> 'a ValidPathInfo_scheme \<Rightarrow> 'a ValidPathInfo_scheme result" where
  "ValidPathInfo_sign storeDir signDetached info =
     rbind (fingerprint storeDir info) (\<lambda>f. Inr (info\<lparr>i_sigs := oset_insert (signDetached f) (i_sigs info)\<rparr>))"

definition contentAddressWithReferences :: "'a ValidPathInfo_scheme \<Rightarrow> ContentAddressWithReferences option result" where
  "contentAddressWithReferences info =
     (case i_ca info of
        None \<Rightarrow> Inr None
      | Some ca \<Rightarrow>
          (case ca_method ca of
             CAM_Text \<Rightarrow>
               rbind (assert_that (i_path info \<notin> set (i_references info)) ''references.count(path) == 0'') (\<lambda>_.
                 Inr (Some (TextInfo (ca_hash ca) (i_references info))))
           | m \<Rightarrow>
               Inr (Some (FixedOutputInfo (getFileIngestionMethod m) (ca_hash ca)
                 (if i_path info \<in> set (i_references info)
                  then \<lparr>others = oset_erase (i_path info) (i_references info), self = True\<rparr>
                  else \<lparr>others = i_references info, self = False\<rparr>)))))"

definition isContentAddressed :: "hash_fun \<Rightarrow> xp set \<Rightarrow> string \<Rightarrow> 'a ValidPathInfo_scheme \<Rightarrow> bool result" where
  "isContentAddressed hs feats storeDir info =
     rbind (contentAddressWithReferences info) (\<lambda>fullCaOpt.
       case fullCaOpt of
         None \<Rightarrow> Inr False
       | Some ca \<Rightarrow>
           rbind (makeFixedOutputPathFromCA hs feats storeDir (sp_name (i_path info)) ca) (\<lambda>caPath.
             Inr (caPath = i_path info)))"

definition maxSigs :: u64 where "maxSigs = - 1"

definition checkSignature ::
  "(string \<Rightarrow> string \<Rightarrow> string \<Rightarrow> bool) \<Rightarrow> string \<Rightarrow> 'a ValidPathInfo_scheme \<Rightarrow> (string, Key) omap \<Rightarrow> string \<Rightarrow> bool result" where
  "checkSignature verify storeDir info publicKeys sig =
     rbind (fingerprint storeDir info) (\<lambda>f. verifyDetached verify f sig publicKeys)"

fun count_good :: "(string \<Rightarrow> bool result) \<Rightarrow> string list \<Rightarrow> u64 \<Rightarrow> u64 result" where
  "count_good check [] good = Inr good"
| "count_good check (sig # ss) good =
     rbind (check sig) (\<lambda>b. count_good check ss (if b then good + 1 else good))"

definition checkSignatures ::
  "hash_fun \<Rightarrow> xp set \<Rightarrow> (string \<Rightarrow> string \<Rightarrow> string \<Rightarrow> bool) \<Rightarrow> string \<Rightarrow> 'a ValidPathInfo_scheme \<Rightarrow> (string, Key) omap \<Rightarrow> u64 result" where
  "checkSignatures hs feats verify storeDir info publicKeys =
     rbind (isContentAddressed hs feats storeDir info) (\<lambda>b.
       if b then Inr maxSigs
       else count_good (checkSignature verify storeDir info publicKeys) (i_sigs info) 0)"

definition shortRefs :: "'a UnkeyedValidPathInfo_scheme \<Rightarrow> string list" where
  "shortRefs info = map sp_baseName (i_references info)"

definition mkUnkeyedValidPathInfo :: "Hash \<Rightarrow> UnkeyedValidPathInfo" where
  "mkUnkeyedValidPathInfo h =
     \<lparr>i_deriver = None, i_narHash = h, i_references = [], i_registrationTime = 0, i_narSize = 0, i_id = 0,
      i_ultimate = False, i_sigs = [], i_ca = None\<rparr>"

definition mkValidPathInfo :: "StorePath \<Rightarrow> UnkeyedValidPathInfo \<Rightarrow> ValidPathInfo" where
  "mkValidPathInfo p info = UnkeyedValidPathInfo.extend info \<lparr>i_path = p\<rparr>"

definition ValidPathInfo_fromCA ::
  "hash_fun \<Rightarrow> xp set \<Rightarrow> string \<Rightarrow> string \<Rightarrow> ContentAddressWithReferences \<Rightarrow> Hash \<Rightarrow> ValidPathInfo result" where
  "ValidPathInfo_fromCA hs feats storeDir name ca narHash =
     rbind (makeFixedOutputPathFromCA hs feats storeDir name ca) (\<lambda>p.
       Inr ((mkValidPathInfo p (mkUnkeyedValidPathInfo narHash))
         \<lparr>i_ca := Some \<lparr>ca_method = getMethod ca, ca_hash = getHash ca\<rparr>,
          i_references :=
            (case ca of
               TextInfo h refs \<Rightarrow> refs
             | FixedOutputInfo m h refs \<Rightarrow> if self refs then oset_insert p (others refs) else others refs)\<rparr>))"

section \<open>The text format of binary caches\<close>

definition string2Int :: "(string \<Rightarrow> u64 option) \<Rightarrow> string \<Rightarrow> u64 option" where
  "string2Int lexcast s = (if take 1 s = ''-'' then None else lexcast s)"

definition corrupt :: "string \<Rightarrow> exn" where
  "corrupt reason = Error (''NAR info file is corrupt: '' @ reason)"

definition parseHashField :: "xp set \<Rightarrow> string \<Rightarrow> Hash result" where
  "parseHashField feats s =
     (case parseAnyPrefixed feats s of
        Inl (BadHash _) \<Rightarrow> Inl (corrupt ''bad hash'')
      | r \<Rightarrow> r)"

record NarInfo_state =
  ns_info :: NarInfo
  havePath :: bool
  haveNarHash :: bool

text \<open>The fields of the object under construction.\<close>

definition set_info :: "(NarInfo \<Rightarrow> NarInfo) \<Rightarrow> NarInfo_state \<Rightarrow> NarInfo_state" where
  "set_info f st = st\<lparr>ns_info := f (ns_info st)\<rparr>"

definition narinfo_field ::
  "(string \<Rightarrow> u64 option) \<Rightarrow> xp set \<Rightarrow> string \<Rightarrow> string \<Rightarrow> string \<Rightarrow> NarInfo_state \<Rightarrow> NarInfo_state result" where
  "narinfo_field lexcast feats storeDir name value st =
     (if name = ''StorePath'' then
        rbind (parseStorePath storeDir value) (\<lambda>p. Inr ((set_info (\<lambda>i. i\<lparr>i_path := p\<rparr>) st)\<lparr>havePath := True\<rparr>))
      else if name = ''URL'' then Inr (set_info (\<lambda>i. i\<lparr>n_url := value\<rparr>) st)
      else if name = ''Compression'' then Inr (set_info (\<lambda>i. i\<lparr>n_compression := value\<rparr>) st)
      else if name = ''FileHash'' then
        rbind (parseHashField feats value) (\<lambda>h. Inr (set_info (\<lambda>i. i\<lparr>n_fileHash := Some h\<rparr>) st))
      else if name = ''FileSize'' then
        (case string2Int lexcast value of
           None \<Rightarrow> Inl (corrupt ''invalid FileSize'')
         | Some n \<Rightarrow> Inr (set_info (\<lambda>i. i\<lparr>n_fileSize := n\<rparr>) st))
      else if name = ''NarHash'' then
        rbind (parseHashField feats value) (\<lambda>h. Inr ((set_info (\<lambda>i. i\<lparr>i_narHash := h\<rparr>) st)\<lparr>haveNarHash := True\<rparr>))
      else if name = ''NarSize'' then
        (case string2Int lexcast value of
           None \<Rightarrow> Inl (corrupt ''invalid NarSize'')
         | Some n \<Rightarrow> Inr (set_info (\<lambda>i. i\<lparr>i_narSize := n\<rparr>) st))
      else if name = ''References'' then
        (if i_references (ns_info st) \<noteq> [] then Inl (corrupt ''extra References'')
         else rbind (rmap mkStorePath (tokenizeString value '' '')) (\<lambda>refs.
           Inr (set_info (\<lambda>i. i\<lparr>i_references := fold oset_insert refs (i_references i)\<rparr>) st)))
      else if name = ''Deriver'' then
        (if value \<noteq> ''unknown-deriver''
         then rbind (mkStorePath value) (\<lambda>p. Inr (set_info (\<lambda>i. i\<lparr>i_deriver := Some p\<rparr>) st))
         else Inr st)
      else if name = ''Sig'' then Inr (set_info (\<lambda>i. i\<lparr>i_sigs := oset_insert value (i_sigs i)\<rparr>) st)
      else if name = ''CA'' then
        (if i_ca (ns_info st) \<noteq> None then Inl (corrupt ''extra CA'')
         else rbind (ContentAddress_parseOpt feats value) (\<lambda>c. Inr (set_info (\<lambda>i. i\<lparr>i_ca := c\<rparr>) st)))
      else Inr st)"

text \<open>The loop over the lines; \<open>s\<close> is what lies at and after \<^verbatim>\<open>pos\<close>.\<close>

function narinfo_loop ::
  "(string \<Rightarrow> u64 option) \<Rightarrow> xp set \<Rightarrow> string \<Rightarrow> string \<Rightarrow> NarInfo_state \<Rightarrow> NarInfo_state result" where
  "narinfo_loop lexcast feats storeDir s st =
     (if s = [] then Inr st
      else case str_find '':'' s of
        None \<Rightarrow> Inl (corrupt ''expecting :'')
      | Some colon \<Rightarrow>
          (case str_find [CHR 0x0A] (drop (colon + 2) s) of
             None \<Rightarrow> Inl (corrupt ''expecting a newline'')
           | Some n \<Rightarrow>
               rbind (narinfo_field lexcast feats storeDir (take colon s) (take n (drop (colon + 2) s)) st) (\<lambda>st.
                 narinfo_loop lexcast feats storeDir (drop (colon + 2 + n + 1) s) st)))"
  by pat_completeness auto
termination
  by (relation "measure (\<lambda>(lexcast, feats, storeDir, s, st). length s)") (auto simp flip: length_greater_0_conv)

declare narinfo_loop.simps [simp del]

definition NarInfo_parse :: "(string \<Rightarrow> u64 option) \<Rightarrow> xp set \<Rightarrow> string \<Rightarrow> string \<Rightarrow> NarInfo result" where
  "NarInfo_parse lexcast feats storeDir s =
     rbind StorePath_dummy (\<lambda>dummy.
     rbind (Hash_zero feats SHA256) (\<lambda>dummyHash.
     rbind (narinfo_loop lexcast feats storeDir s
       \<lparr>ns_info = ValidPathInfo.extend (mkValidPathInfo dummy (mkUnkeyedValidPathInfo dummyHash))
           \<lparr>n_url = [], n_compression = [], n_fileHash = None, n_fileSize = 0\<rparr>,
        havePath = False, haveNarHash = False\<rparr>) (\<lambda>st.
       let info = (if n_compression (ns_info st) = [] then (ns_info st)\<lparr>n_compression := ''bzip2''\<rparr> else ns_info st) in
       if \<not> havePath st then Inl (corrupt ''StorePath missing'')
       else if \<not> haveNarHash st then Inl (corrupt ''NarHash missing'')
       else if n_url info = [] then Inl (corrupt ''URL missing'')
       else if i_narSize info = 0 then Inl (corrupt ''NarSize missing or zero'')
       else Inr info)))"

definition narinfo_line :: "string \<Rightarrow> string \<Rightarrow> string" where
  "narinfo_line name value = name @ '': '' @ value @ [CHR 0x0A]"

definition NarInfo_to_string :: "xp set \<Rightarrow> string \<Rightarrow> NarInfo \<Rightarrow> string result" where
  "NarInfo_to_string feats storeDir info =
     rbind (assert_that (n_compression info \<noteq> []) ''compression != \"\"'') (\<lambda>_.
     rbind (case n_fileHash info of
              None \<Rightarrow> Inl (AssertionFailed ''fileHash && fileHash->algo == HashAlgorithm::SHA256'')
            | Some fh \<Rightarrow>
                rbind (assert_that (algo fh = SHA256) ''fileHash && fileHash->algo == HashAlgorithm::SHA256'') (\<lambda>_.
                  to_string fh Nix32 True)) (\<lambda>fileHash.
     rbind (assert_that (algo (i_narHash info) = SHA256) ''narHash.algo == HashAlgorithm::SHA256'') (\<lambda>_.
     rbind (to_string (i_narHash info) Nix32 True) (\<lambda>narHash.
     rbind (case i_ca info of None \<Rightarrow> Inr [] | Some c \<Rightarrow> rbind (renderContentAddress feats (Some c)) (\<lambda>s. Inr (narinfo_line ''CA'' s))) (\<lambda>ca.
       Inr (narinfo_line ''StorePath'' (printStorePath storeDir (i_path info)) @
            narinfo_line ''URL'' (n_url info) @
            narinfo_line ''Compression'' (n_compression info) @
            narinfo_line ''FileHash'' fileHash @
            narinfo_line ''FileSize'' (to_decimal (unat (n_fileSize info))) @
            narinfo_line ''NarHash'' narHash @
            narinfo_line ''NarSize'' (to_decimal (unat (i_narSize info))) @
            narinfo_line ''References'' (concatStringsSep '' '' (shortRefs info)) @
            (case i_deriver info of None \<Rightarrow> [] | Some d \<Rightarrow> narinfo_line ''Deriver'' (sp_baseName d)) @
            concat (map (narinfo_line ''Sig'') (i_sigs info)) @
            ca))))))"


section \<open>Decimal numbers and separators\<close>

fun decval :: "nat \<Rightarrow> string \<Rightarrow> nat" where
  "decval a [] = a"
| "decval a (c # s) = decval (a * 10 + (of_char c - 48)) s"

lemma decval_append: "decval a (s @ t) = decval (decval a s) t"
  by (induction s arbitrary: a) simp_all

lemma of_char_digit: "n < 10 \<Longrightarrow> (of_char (char_of (48 + n :: nat)) :: nat) = 48 + n"
  by simp

lemma decval_to_decimal: "decval 0 (to_decimal n) = n"
proof (induction n rule: to_decimal.induct)
  case (1 n)
  show ?case
  proof (cases "n < 10")
    case True
    then show ?thesis by (subst to_decimal.simps) simp
  next
    case False
    with 1 show ?thesis by (subst to_decimal.simps) (simp add: decval_append)
  qed
qed

lemma to_decimal_inject: "to_decimal m = to_decimal n \<longleftrightarrow> m = n"
  by (metis decval_to_decimal)

lemma to_decimal_digits: "c \<in> set (to_decimal n) \<Longrightarrow> 48 \<le> (of_char c :: nat) \<and> (of_char c :: nat) \<le> 57"
proof (induction n rule: to_decimal.induct)
  case (1 n)
  show ?case
  proof (cases "n < 10")
    case True
    with 1(2) show ?thesis by (subst (asm) to_decimal.simps) simp
  next
    case False
    from False 1(2) have "c \<in> set (to_decimal (n div 10)) \<or> c = char_of (48 + n mod 10)"
      by (subst (asm) to_decimal.simps) auto
    then show ?thesis
    proof
      assume "c = char_of (48 + n mod 10)"
      then show ?thesis by simp
    qed (use 1(1) False in blast)
  qed
qed

lemma to_decimal_nonempty: "to_decimal n \<noteq> []"
  by (subst to_decimal.simps) simp

lemma split_first_eq:
  assumes "a @ c # b = a' @ c # b'" "c \<notin> set a" "c \<notin> set a'"
  shows "a = a' \<and> b = b'"
proof -
  have "takeWhile (\<lambda>x. x \<noteq> c) (a @ c # b) = a" "takeWhile (\<lambda>x. x \<noteq> c) (a' @ c # b') = a'"
    using assms(2,3) by (auto simp: takeWhile_append)
  with assms(1) show ?thesis by (metis append_same_eq same_append_eq list.inject)
qed

section \<open>A fingerprint determines what it signs\<close>

definition info_proper :: "'a ValidPathInfo_scheme \<Rightarrow> bool" where
  "info_proper i \<longleftrightarrow> sp_proper (i_path i) \<and> oset_ok (i_references i) \<and> list_all sp_proper (i_references i) \<and>
     hash_ok (i_narHash i) \<and> i_narSize i \<noteq> 0"

lemma printStorePath_plain:
  assumes "sp_proper p" "c \<in> {CHR '';'', CHR '','', CHR 0x0A, CHR '':''}" "c \<notin> set dir"
  shows "c \<notin> set (printStorePath dir p)"
  using assms sp_proper_plain [OF assms(1)] by (auto simp: printStorePath_def)

lemma concatStringsSep_inject:
  assumes "concatStringsSep [c] ss = concatStringsSep [c] ts" "\<forall>s \<in> set ss \<union> set ts. c \<notin> set s \<and> s \<noteq> []"
  shows "ss = ts"
proof -
  have empty: "concatStringsSep [c] us = [] \<longleftrightarrow> us = []" if "\<forall>u \<in> set us. u \<noteq> []" for us
    using that by (cases us) auto
  have "\<forall>u \<in> set ss. u \<noteq> []" "\<forall>u \<in> set ts. u \<noteq> []" using assms(2) by simp_all
  from this(1) have "ss = [] \<longleftrightarrow> concatStringsSep [c] ss = []" by (rule empty [THEN sym])
  also have "\<dots> \<longleftrightarrow> concatStringsSep [c] ts = []" unfolding assms(1) ..
  also have "\<dots> \<longleftrightarrow> ts = []" by (rule empty) fact
  finally have "ss = [] \<longleftrightarrow> ts = []" .
  then show ?thesis
  proof (cases "ss = []")
    case False
    have "splitString (concatStringsSep [c] ss) [c] = ss" using assms(2) False by (intro splitString_concat) auto
    moreover have "splitString (concatStringsSep [c] ts) [c] = ts"
      using assms(2) False \<open>ss = [] \<longleftrightarrow> ts = []\<close> by (intro splitString_concat) auto
    ultimately show ?thesis using assms(1) by metis
  qed simp
qed

lemma nix32_string_inject:
  assumes "to_string h Nix32 True = Inr s" "to_string h' Nix32 True = Inr s" "hash_ok h" "hash_ok h'"
  shows "h = h'"
proof -
  have en: "algo_enabled UNIV a" for a by (simp add: algo_enabled_def)
  have eq: "printHashAlgo (algo h) @ CHR '':'' # print32 h = printHashAlgo (algo h') @ CHR '':'' # print32 h'"
    using assms by (simp add: to_string_eq)
  have "algo h = algo h'" "print32 h = print32 h'"
    using split_first_eq [OF eq printHashAlgo_plain(1) printHashAlgo_plain(1)] by (simp_all add: printHashAlgo_inject)
  then have "Inr h = (Inr h' :: Hash result)"
    using Hash_parse_digits [OF assms(3) en, of Nix32] Hash_parse_digits [OF assms(4) en, of Nix32] by simp
  then show ?thesis by simp
qed

lemma nix32_string_plain:
  "to_string h Nix32 True = Inr s \<Longrightarrow> hash_ok h \<Longrightarrow> CHR '';'' \<notin> set s \<and> CHR 0x0A \<notin> set s"
proof -
  assume "to_string h Nix32 True = Inr s" "hash_ok h"
  then have "s = printHashAlgo (algo h) @ CHR '':'' # print32 h" by (simp add: to_string_eq)
  with set_print32 [of h] show ?thesis by (cases "algo h") (auto simp: nix32Chars_def)
qed

lemma to_decimal_plain: "c \<in> {CHR '';'', CHR '','', CHR 0x0A, CHR '':'', CHR ''-''} \<Longrightarrow> c \<notin> set (to_decimal n)"
  using to_decimal_digits [of c n] by auto

text \<open>
  C13: a signature covers the path, the hash and size of its archive and its references: two
  descriptions of store objects (of valid paths in one store directory) with the same fingerprint
  agree on all four.
\<close>

theorem fingerprint_injective:
  assumes "info_proper i" "info_proper j" "CHR '';'' \<notin> set dir" "CHR '','' \<notin> set dir"
    "fingerprint dir i = Inr f" "fingerprint dir j = Inr f"
  shows "i_path i = i_path j \<and> i_narHash i = i_narHash j \<and> i_narSize i = i_narSize j \<and> i_references i = i_references j"
proof -
  obtain h h' where h: "to_string (i_narHash i) Nix32 True = Inr h" "to_string (i_narHash j) Nix32 True = Inr h'"
    "f = ''1;'' @ printStorePath dir (i_path i) @ CHR '';'' # h @ CHR '';'' # to_decimal (unat (i_narSize i)) @ CHR '';'' #
       concatStringsSep '','' (map (printStorePath dir) (i_references i))"
    "f = ''1;'' @ printStorePath dir (i_path j) @ CHR '';'' # h' @ CHR '';'' # to_decimal (unat (i_narSize j)) @ CHR '';'' #
       concatStringsSep '','' (map (printStorePath dir) (i_references j))"
    using assms by (auto simp: fingerprint_def info_proper_def printStorePathSet_eq result_simps split: if_splits)
  have ok: "hash_ok (i_narHash i)" "hash_ok (i_narHash j)" using assms(1,2) by (simp_all add: info_proper_def)
  have plain: "CHR '';'' \<notin> set (printStorePath dir (i_path i))" "CHR '';'' \<notin> set (printStorePath dir (i_path j))"
    using assms(1,2,3) printStorePath_plain [of _ "CHR '';''" dir] by (simp_all add: info_proper_def)
  have e1: "printStorePath dir (i_path i) @ CHR '';'' # h @ CHR '';'' # to_decimal (unat (i_narSize i)) @ CHR '';'' #
       concatStringsSep '','' (map (printStorePath dir) (i_references i)) =
     printStorePath dir (i_path j) @ CHR '';'' # h' @ CHR '';'' # to_decimal (unat (i_narSize j)) @ CHR '';'' #
       concatStringsSep '','' (map (printStorePath dir) (i_references j))"
    using h(3,4) by simp
  note s1 = split_first_eq [OF e1 plain]
  note s2 = split_first_eq [OF conjunct2 [OF s1] conjunct1 [OF nix32_string_plain [OF h(1) ok(1)]] conjunct1 [OF nix32_string_plain [OF h(2) ok(2)]]]
  note s3 = split_first_eq [OF conjunct2 [OF s2] to_decimal_plain to_decimal_plain]
  have "i_path i = i_path j" using s1 by (simp add: printStorePath_inject)
  moreover have "i_narHash i = i_narHash j" using nix32_string_inject h(1,2) s2 ok by metis
  moreover have "i_narSize i = i_narSize j" using s3 by (simp add: to_decimal_inject word_unat_eq_iff)
  moreover have "map (printStorePath dir) (i_references i) = map (printStorePath dir) (i_references j)"
  proof (rule concatStringsSep_inject)
    show "concatStringsSep '','' (map (printStorePath dir) (i_references i)) = concatStringsSep '','' (map (printStorePath dir) (i_references j))"
      using s3 by simp
    show "\<forall>s \<in> set (map (printStorePath dir) (i_references i)) \<union> set (map (printStorePath dir) (i_references j)).
        CHR '','' \<notin> set s \<and> s \<noteq> []"
      using assms(1,2,4) by (auto simp: info_proper_def list_all_iff printStorePath_plain) (simp_all add: printStorePath_def)
  qed
  then have "i_references i = i_references j" by (rule map_injective) (simp add: inj_def printStorePath_inject)
  ultimately show ?thesis by blast
qed


text \<open>A store object for examples.\<close>

definition example_path :: StorePath where
  "example_path = StorePath (replicate 32 (CHR ''f'') @ ''-x'')"

lemma example_proper: "sp_proper example_path" "sp_name example_path = ''x''"
  using example_ok [OF valid_name_x, of "CHR ''-''"]
  by (simp_all add: sp_proper_def example_path_def HashLen_def nth_append sp_name_def)

definition example_info :: ValidPathInfo where
  "example_info = (mkValidPathInfo example_path (mkUnkeyedValidPathInfo (zero_hash SHA256)))\<lparr>i_narSize := 5, i_references := [example_path]\<rparr>"

lemmas example_defs = example_info_def mkValidPathInfo_def mkUnkeyedValidPathInfo_def UnkeyedValidPathInfo.extend_def

lemma example_info_proper: "info_proper example_info"
  using example_proper by (simp add: info_proper_def example_defs)

theorem fingerprint_injective_witness:
  "\<exists>f. fingerprint ''/nix/store'' example_info = Inr f \<and>
     (\<forall>n. fingerprint ''/nix/store'' (example_info\<lparr>i_narSize := n\<rparr>) = Inr f \<and> n \<noteq> 0 \<longrightarrow> n = 5)"
proof -
  have "\<exists>f. fingerprint ''/nix/store'' example_info = Inr f"
    by (simp add: fingerprint_def example_defs to_string_eq)
  moreover have "info_proper (example_info\<lparr>i_narSize := n\<rparr>)" if "n \<noteq> 0" for n
    using example_info_proper that by (simp add: info_proper_def)
  moreover have "CHR '';'' \<notin> set ''/nix/store''" "CHR '','' \<notin> set ''/nix/store''" by simp_all
  ultimately have "n = 5" if "fingerprint ''/nix/store'' example_info = Inr f"
    "fingerprint ''/nix/store'' (example_info\<lparr>i_narSize := n\<rparr>) = Inr f" "n \<noteq> 0" for f n
    using fingerprint_injective [OF example_info_proper, of "example_info\<lparr>i_narSize := n\<rparr>" "''/nix/store''" f] that
    by (simp add: example_defs)
  with \<open>\<exists>f. fingerprint ''/nix/store'' example_info = Inr f\<close> show ?thesis by blast
qed

section \<open>Signing and verifying\<close>

lemma fingerprint_sigs [simp]: "fingerprint dir (info\<lparr>i_sigs := ss\<rparr>) = fingerprint dir info"
  by (simp add: fingerprint_def)

lemma fingerprint_total:
  "i_narSize info \<noteq> 0 \<Longrightarrow> hash_ok (i_narHash info) \<Longrightarrow> \<exists>f. fingerprint dir info = Inr f"
  by (simp add: fingerprint_def to_string_eq)



text \<open>
  C16: a store object made from a content address is recognised as content-addressed: its path is
  recomputed from its name, hash and references (the self-reference separated from the others), so
  it counts as having the maximal number of signatures. The references must not contain the
  resulting path itself.
\<close>

theorem fromCA_isContentAddressed:
  assumes "ValidPathInfo_fromCA hs feats dir name ca narHash = Inr info" "hash_law feats hs"
    "(case ca of TextInfo h refs \<Rightarrow> i_path info \<notin> set refs | FixedOutputInfo m h refs \<Rightarrow> i_path info \<notin> set (others refs) \<and> oset_ok (others refs))"
  shows "isContentAddressed hs feats dir info = Inr True \<and>
    checkSignatures hs feats verify dir info publicKeys = Inr maxSigs"
proof -
  obtain p where mk: "makeFixedOutputPathFromCA hs feats dir name ca = Inr p"
    using assms(1) by (auto simp: ValidPathInfo_fromCA_def result_simps)
  have p: "i_path info = p" "i_ca info = Some \<lparr>ca_method = getMethod ca, ca_hash = getHash ca\<rparr>"
    "i_references info = (case ca of TextInfo h refs \<Rightarrow> refs
      | FixedOutputInfo m h refs \<Rightarrow> if self refs then oset_insert p (others refs) else others refs)"
    using assms(1) by (auto simp: ValidPathInfo_fromCA_def mk example_defs)
  have erase: "oset_erase p (oset_insert p xs) = xs" if "oset_ok xs" "p \<notin> set xs" for xs
    using that by (intro oset_eq) auto
  have "contentAddressWithReferences info = Inr (Some ca)"
  proof (cases ca)
    case (FixedOutputInfo m h refs)
    then show ?thesis
      using p assms(3) erase by (cases m; cases refs) (auto simp: contentAddressWithReferences_def)
  qed (use p assms(3) in \<open>auto simp: contentAddressWithReferences_def\<close>)
  moreover have "sp_name p = name"
    using made_name [OF mk assms(2)] .
  ultimately show ?thesis using p(1) mk by (simp add: isContentAddressed_def checkSignatures_def)
qed

theorem fromCA_isContentAddressed_witness:
  "\<exists>info. ValidPathInfo_fromCA (hashString prefix_init prefix_upd prefix_final {}) {} ''/s'' ''x'' (TextInfo (zero_hash SHA256) []) (zero_hash SHA256) = Inr info \<and>
     checkSignatures (hashString prefix_init prefix_upd prefix_final {}) {} toy_verify ''/s'' info [] = Inr maxSigs"
proof -
  let ?hs = "hashString prefix_init prefix_upd prefix_final {}"
  have law: "hash_law {} ?hs" by (rule hash_law_hashString [OF prefix_digest_law])
  obtain d c where "?hs SHA256 (store_fingerprint ''/s'' ''text'' (printHashAlgo SHA256 @ '':'' @ printHash16 (zero_hash SHA256)) ''x'') = Inr d"
    "compressHash {} d 20 = Inr c" "hash_sized c" "hashSize c = 20" by (rule hash_law_SHA256 [OF law])
  then have "\<exists>info. ValidPathInfo_fromCA ?hs {} ''/s'' ''x'' (TextInfo (zero_hash SHA256) []) (zero_hash SHA256) = Inr info"
    using valid_name_x
    by (simp add: ValidPathInfo_fromCA_def makeStorePath_hash_def makeStorePath_def to_string_eq mkStorePath_hash_eq makeType_def)
  then show ?thesis using fromCA_isContentAddressed [OF _ law] by fastforce
qed

section \<open>The text format is read back\<close>

definition narinfo_ok :: "xp set \<Rightarrow> NarInfo \<Rightarrow> bool" where
  "narinfo_ok feats i \<longleftrightarrow> info_proper i \<and> algo (i_narHash i) = SHA256 \<and>
     n_url i \<noteq> [] \<and> CHR 0x0A \<notin> set (n_url i) \<and> n_compression i \<noteq> [] \<and> CHR 0x0A \<notin> set (n_compression i) \<and>
     (\<exists>fh. n_fileHash i = Some fh \<and> hash_ok fh \<and> algo fh = SHA256) \<and>
     (\<forall>d. i_deriver i = Some d \<longrightarrow> sp_proper d) \<and>
     oset_ok (i_sigs i) \<and> (\<forall>s \<in> set (i_sigs i). CHR 0x0A \<notin> set s) \<and>
     (\<forall>c. i_ca i = Some c \<longrightarrow> method_enabled feats (ca_method c) \<and> hash_ok (ca_hash c) \<and> algo_enabled feats (algo (ca_hash c))) \<and>
     i_id i = 0 \<and> i_registrationTime i = 0 \<and> \<not> i_ultimate i"

text \<open>What is documented of \<^verbatim>\<open>boost::lexical_cast\<close>: it reads back a printed number.\<close>

definition lexical_cast_law :: "(string \<Rightarrow> u64 option) \<Rightarrow> bool" where
  "lexical_cast_law lexcast \<longleftrightarrow> (\<forall>n. lexcast (to_decimal (unat n)) = Some n)"

lemma str_find_nl: "CHR 0x0A \<notin> set v \<Longrightarrow> str_find [CHR 0x0A] (v @ CHR 0x0A # r) = Some (length v)"
  by (rule str_find_char)

lemma narinfo_loop_line:
  assumes "CHR '':'' \<notin> set n" "CHR 0x0A \<notin> set v" "n \<noteq> []"
  shows "narinfo_loop lexcast feats dir (narinfo_line n v @ rest) st =
    rbind (narinfo_field lexcast feats dir n v st) (narinfo_loop lexcast feats dir rest)"
proof -
  have "str_find '':'' (narinfo_line n v @ rest) = Some (length n)"
    using str_find_char [OF assms(1), of "'' '' @ v @ [CHR 0x0A] @ rest"] by (simp add: narinfo_line_def)
  moreover have "drop (length n + 2) (narinfo_line n v @ rest) = v @ CHR 0x0A # rest"
    by (simp add: narinfo_line_def)
  moreover have "take (length n) (narinfo_line n v @ rest) = n" "narinfo_line n v @ rest \<noteq> []"
    by (simp_all add: narinfo_line_def)
  moreover have "drop (length n + 2 + length v + 1) (narinfo_line n v @ rest) = rest"
    using drop_append [of "length n + 2 + length v + 1" "n @ '': '' @ v @ [CHR 0x0A]" rest] by (simp add: narinfo_line_def)
  moreover have "take (length v) (v @ CHR 0x0A # rest) = v" by simp
  ultimately show ?thesis
    using str_find_nl [OF assms(2), of rest] by (subst narinfo_loop.simps) (simp del: append_eq_Cons_conv drop_append take_append append_is_Nil_conv)
qed

lemma parseHashField_string:
  "hash_ok h \<Longrightarrow> algo h = SHA256 \<Longrightarrow> to_string h Nix32 True = Inr s \<Longrightarrow> parseHashField feats s = Inr h"
  using getParsedTypeAndSRI_prefixed [of SHA256 Nix32 h] Hash_parse_digits [of h feats Nix32]
  by (simp add: parseHashField_def parseAnyPrefixed_def to_string_eq algo_enabled_def)

lemma string2Int_decimal: "lexical_cast_law lexcast \<Longrightarrow> string2Int lexcast (to_decimal (unat n)) = Some n"
proof -
  assume law: "lexical_cast_law lexcast"
  have "take 1 (to_decimal (unat n)) \<noteq> ''-''"
    using to_decimal_plain [of "CHR ''-''" "unat n"] by (cases "to_decimal (unat n)") auto
  with law show ?thesis by (simp add: string2Int_def lexical_cast_law_def)
qed

lemma tokenize_refs:
  assumes "list_all sp_proper ps"
  shows "tokenizeString (concatStringsSep '' '' (map sp_baseName ps)) '' '' = map sp_baseName ps"
proof (cases "ps = []")
  case False
  have ne: "sp_baseName p \<noteq> []" "CHR '' '' \<notin> set (sp_baseName p)" if "p \<in> set ps" for p
    using that assms sp_proper_plain(3) by (auto simp: list_all_iff sp_proper_def storePath_ok_def)
  have "splitString (concatStringsSep '' '' (map sp_baseName ps)) '' '' = map sp_baseName ps"
    using False ne by (intro splitString_concat) auto
  then have "tokenizeString (concatStringsSep '' '' (map sp_baseName ps)) '' '' = filter (\<lambda>p. p \<noteq> []) (map sp_baseName ps)"
    by (simp only: tokenizeString_filter)
  also have "\<dots> = map sp_baseName ps" using ne by (simp add: filter_id_conv)
  finally show ?thesis .
qed (simp add: tokenizeString_filter)

lemma mkStorePath_proper: "sp_proper p \<Longrightarrow> mkStorePath (sp_baseName p) = Inr p"
  by (simp add: mkStorePath_Inr sp_proper_def)

lemma rmap_mkStorePath: "list_all sp_proper ps \<Longrightarrow> rmap mkStorePath (map sp_baseName ps) = Inr ps"
  by (induction ps) (simp_all add: mkStorePath_proper)

lemma ca_value:
  assumes "method_enabled feats (ca_method c)" "hash_ok (ca_hash c)" "algo_enabled feats (algo (ca_hash c))"
  obtains s where "renderContentAddress feats (Some c) = Inr s" "ContentAddress_parseOpt feats s = Inr (Some c)"
    "CHR 0x0A \<notin> set s"
proof -
  obtain p where p: "renderPrefixModern feats (ca_method c) = Inr p"
    "\<And>ha rest. parseContentAddressMethodPrefix feats (p @ printHashAlgo ha @ CHR '':'' # rest) = Inr (ca_method c, ha, rest)"
    using parse_prefix_modern [OF assms(1)] by (metis Inr_inject)
  have "CHR 0x0A \<notin> set p" using p(1) by (cases "ca_method c") (auto simp: require_def split: if_splits)
  with p Hash_parse_digits [OF assms(2,3), of Nix32] nix32_string_plain [OF to_string_eq [OF assms(2)] assms(2)]
  show ?thesis
    by (intro that [of "p @ printHashAlgo (algo (ca_hash c)) @ CHR '':'' # print32 (ca_hash c)"])
      (simp_all add: ContentAddress_render_def renderContentAddress_def ContentAddress_parseOpt_def ContentAddress_parse_def
        to_string_eq [OF assms(2)] parseNonSRIUnprefixed_def)
qed

lemma narinfo_sigs:
  assumes "\<forall>s \<in> set sigs. CHR 0x0A \<notin> set s"
  shows "narinfo_loop lexcast feats dir (concat (map (narinfo_line ''Sig'') sigs) @ rest) st =
    narinfo_loop lexcast feats dir rest (set_info (\<lambda>i. i\<lparr>i_sigs := fold oset_insert sigs (i_sigs i)\<rparr>) st)"
  using assms
  by (induction sigs arbitrary: st) (simp_all add: narinfo_loop_line narinfo_field_def set_info_def)

lemma dummy_path: "StorePath_dummy = Inr (StorePath ''ffffffffffffffffffffffffffffffff-x'')"
  by code_simp

lemma narinfo_ca:
  assumes "\<forall>c. i_ca i = Some c \<longrightarrow> method_enabled feats (ca_method c) \<and> hash_ok (ca_hash c) \<and> algo_enabled feats (algo (ca_hash c))"
  obtains s where
    "(case i_ca i of None \<Rightarrow> Inr [] | Some c \<Rightarrow> rbind (renderContentAddress feats (Some c)) (\<lambda>s. Inr (narinfo_line ''CA'' s))) = Inr s"
    "\<And>st. i_ca (ns_info st) = None \<Longrightarrow>
      narinfo_loop lexcast feats dir s st = Inr (set_info (\<lambda>j. j\<lparr>i_ca := i_ca i\<rparr>) st)"
proof (cases "i_ca i")
  case None
  have "st = set_info (\<lambda>j. j\<lparr>i_ca := None\<rparr>) st" if "i_ca (ns_info st) = None" for st
    using that by (simp add: set_info_def)
  with None show ?thesis by (intro that [of "[]"]) (simp_all add: narinfo_loop.simps)
next
  case (Some c)
  obtain s where "renderContentAddress feats (Some c) = Inr s" "ContentAddress_parseOpt feats s = Inr (Some c)" "CHR 0x0A \<notin> set s"
    using assms Some ca_value by metis
  with Some narinfo_loop_line [of "''CA''" s lexcast feats dir "[]"] show ?thesis
    by (intro that [of "narinfo_line ''CA'' s"]) (simp_all add: narinfo_field_def narinfo_loop.simps)
qed

lemma narinfo_deriver:
  assumes "\<forall>d. i_deriver i = Some d \<longrightarrow> sp_proper d" "i_deriver (ns_info st) = None"
  shows "narinfo_loop lexcast feats dir ((case i_deriver i of None \<Rightarrow> [] | Some d \<Rightarrow> narinfo_line ''Deriver'' (sp_baseName d)) @ rest) st =
    narinfo_loop lexcast feats dir rest (set_info (\<lambda>j. j\<lparr>i_deriver := i_deriver i\<rparr>) st)"
proof (cases "i_deriver i")
  case None
  with assms(2) have "st = set_info (\<lambda>j. j\<lparr>i_deriver := i_deriver i\<rparr>) st" by (simp add: set_info_def)
  with None show ?thesis by simp
next
  case (Some d)
  with assms(1) have d: "sp_proper d" by simp
  then have "length (sp_baseName d) \<noteq> length ''unknown-deriver''"
    by (simp add: sp_proper_def storePath_ok_def HashLen_def)
  then have "sp_baseName d \<noteq> ''unknown-deriver''" by metis
  with Some d sp_proper_plain(4) [OF d] show ?thesis
    by (simp add: narinfo_loop_line narinfo_field_def mkStorePath_proper)
qed

lemma set_concatStringsSep: "set (concatStringsSep sep ss) \<subseteq> set sep \<union> \<Union> (set (map set ss))"
  by (cases ss) auto

lemma sp_proper_slash: "sp_proper p \<Longrightarrow> storePath_ok p \<and> slash \<notin> set (sp_baseName p)"
  using sp_proper_plain(5) by (simp add: sp_proper_def)

lemma NarInfo_print_parse:
  assumes "narinfo_ok feats i" "lexical_cast_law lexcast" "canonical dir" "dir \<noteq> ''/''" "CHR 0x0A \<notin> set dir"
  shows "rbind (NarInfo_to_string feats dir i) (NarInfo_parse lexcast feats dir) = Inr i"
proof -
  note ok = assms(1) [unfolded narinfo_ok_def info_proper_def]
  obtain fh where fh: "n_fileHash i = Some fh" "hash_ok fh" "algo fh = SHA256" using ok by blast
  obtain ca where ca: "(case i_ca i of None \<Rightarrow> Inr [] | Some c \<Rightarrow> rbind (renderContentAddress feats (Some c)) (\<lambda>s. Inr (narinfo_line ''CA'' s))) = Inr ca"
    "\<And>st. i_ca (ns_info st) = None \<Longrightarrow> narinfo_loop lexcast feats dir ca st = Inr (set_info (\<lambda>j. j\<lparr>i_ca := i_ca i\<rparr>) st)"
    using narinfo_ca [of i feats lexcast dir] ok by blast
  have hs: "to_string h Nix32 True = Inr (printHashAlgo (algo h) @ CHR '':'' # print32 h)" if "hash_ok h" for h
    using that by (simp add: to_string_eq)
  have path: "CHR 0x0A \<notin> set (printStorePath dir (i_path i))"
    "parseStorePath dir (printStorePath dir (i_path i)) = Inr (i_path i)"
    using ok assms(3,4,5) parseStorePath_print [OF assms(3,4)] sp_proper_slash [of "i_path i"]
    by (simp_all add: printStorePath_plain)
  have refs: "CHR 0x0A \<notin> set (concatStringsSep '' '' (map sp_baseName (i_references i)))"
    using ok sp_proper_plain(4) set_concatStringsSep [of "'' ''" "map sp_baseName (i_references i)"] by (auto simp: list_all_iff)
  have srt: "fold oset_insert (i_sigs i) [] = i_sigs i" "fold oset_insert (i_references i) [] = i_references i"
    using ok oset_of_id unfolding oset_of_def by blast+
  have num: "CHR 0x0A \<notin> set (to_decimal n)" for n by (simp add: to_decimal_plain)
  have hash: "CHR 0x0A \<notin> set (printHashAlgo (algo h) @ CHR '':'' # print32 h)"
    "algo h = SHA256 \<Longrightarrow> parseHashField feats (printHashAlgo (algo h) @ CHR '':'' # print32 h) = Inr h" if "hash_ok h" for h
    using nix32_string_plain [OF hs [OF that] that] parseHashField_string [OF that _ hs [OF that]] by simp_all
  show ?thesis
    using ok path refs num hash tokenize_refs [of "i_references i"] rmap_mkStorePath [of "i_references i"] string2Int_decimal [OF assms(2)]
    by (simp add: NarInfo_to_string_def fh ca hs assert_that_def shortRefs_def NarInfo_parse_def dummy_path Hash_zero_eq
        algo_enabled_def narinfo_loop_line narinfo_field_def narinfo_deriver narinfo_sigs srt set_info_def
        mkValidPathInfo_def mkUnkeyedValidPathInfo_def UnkeyedValidPathInfo.defs ValidPathInfo.defs
        del: append_assoc)
qed

text \<open>
  C14: the description of a store object that a binary cache publishes is read back unchanged:
  whatever well-formed record is printed (with or without a deriver, references, signatures and a
  content address), parsing the text gives the same record, so no field is lost, added or moved.
\<close>

theorem NarInfo_roundtrip:
  assumes "narinfo_ok feats i" "lexical_cast_law lexcast" "canonical dir" "dir \<noteq> ''/''" "CHR 0x0A \<notin> set dir"
  shows "rbind (NarInfo_to_string feats dir i) (NarInfo_parse lexcast feats dir) = Inr i"
  using assms by (rule NarInfo_print_parse)

definition example_narinfo :: NarInfo where
  "example_narinfo = ValidPathInfo.extend (example_info\<lparr>i_references := [], i_deriver := Some example_path, i_sigs := [''k:s''],
       i_ca := Some \<lparr>ca_method = CAM_Text, ca_hash = zero_hash SHA1\<rparr>\<rparr>)
     \<lparr>n_url = ''u'', n_compression = ''xz'', n_fileHash = Some (zero_hash SHA256), n_fileSize = 7\<rparr>"

lemma example_narinfo_ok: "narinfo_ok {} example_narinfo"
  using example_proper
  by (simp add: narinfo_ok_def info_proper_def example_narinfo_def example_defs ValidPathInfo.defs method_enabled_def algo_enabled_def)

lemma lexical_cast_decval: "lexical_cast_law (\<lambda>s. Some (of_nat (decval 0 s)))"
  by (simp add: lexical_cast_law_def decval_to_decimal)

lemma canonical_s: "canonical ''/s''"
  using canonical_render [of "[''s'']"] by (simp add: render_def component_def)

theorem NarInfo_roundtrip_witness:
  "rbind (NarInfo_to_string {} ''/s'' example_narinfo) (NarInfo_parse (\<lambda>s. Some (of_nat (decval 0 s))) {} ''/s'') = Inr example_narinfo"
  by (rule NarInfo_roundtrip [OF example_narinfo_ok lexical_cast_decval canonical_s]) simp_all

text \<open>
  A binary cache can make the client abort: a published description whose content address is of
  the \<^verbatim>\<open>text\<close> method with a hash other than SHA-256 is accepted by the parser, and checking its
  signatures then fails the assertion in \<^verbatim>\<open>makeFixedOutputPathFromCA\<close> instead of reporting an error
  or counting the signatures, whatever keys are trusted.
\<close>

theorem checkSignatures_aborts:
  assumes "narinfo_ok feats i" "lexical_cast_law lexcast" "canonical dir" "dir \<noteq> ''/''" "CHR 0x0A \<notin> set dir"
    "i_ca i = Some \<lparr>ca_method = CAM_Text, ca_hash = h\<rparr>" "algo h \<noteq> SHA256" "i_path i \<notin> set (i_references i)"
  shows "rbind (rbind (NarInfo_to_string feats dir i) (NarInfo_parse lexcast feats dir))
      (\<lambda>info. checkSignatures hs feats verify dir info keys) =
    Inl (AssertionFailed ''ti.hash.algo == HashAlgorithm::SHA256'')"
  using NarInfo_print_parse [OF assms(1-5)] assms(6-8)
  by (simp add: checkSignatures_def isContentAddressed_def contentAddressWithReferences_def assert_that_def)

theorem checkSignatures_aborts_witness:
  "rbind (rbind (NarInfo_to_string {} ''/s'' example_narinfo) (NarInfo_parse (\<lambda>s. Some (of_nat (decval 0 s))) {} ''/s''))
      (\<lambda>info. checkSignatures (hashString prefix_init prefix_upd prefix_final {}) {} toy_verify ''/s'' info []) =
    Inl (AssertionFailed ''ti.hash.algo == HashAlgorithm::SHA256'')"
  by (rule checkSignatures_aborts [OF example_narinfo_ok lexical_cast_decval canonical_s, where h = "zero_hash SHA1"])
    (simp_all add: example_narinfo_def example_defs ValidPathInfo.defs)

end
