(* ===== verification/Zix_Graph.thy ===== *)
theory Zix_Graph
  imports Zix_Prelude "HOL-Library.Multiset"
begin

text \<open>
  The two graph algorithms of libutil: \<^verbatim>\<open>topoSort\<close> (topo-sort.hh), a depth-first search with an
  explicit error on cycles, and \<^verbatim>\<open>computeClosure\<close> (closure.hh), whose edges are delivered by
  callbacks that may run on any thread and in any order.

  The depth of the search is bounded by fuel; \<open>topoSort\<close> gives it one unit more than there are
  items, and the theorems show that this is always enough. The closure is a step relation with one
  rule per critical section, so that every interleaving of the callbacks is a run.
\<close>

section \<open>topoSort\<close>

record 'a topo_state =
  ts_sorted :: "'a list"
  ts_visited :: "'a oset"
  ts_parents :: "'a oset"

primrec dfsVisit ::
  "nat \<Rightarrow> 'a::linorder oset \<Rightarrow> ('a \<Rightarrow> 'a oset result) \<Rightarrow> ('a \<Rightarrow> 'a \<Rightarrow> exn) \<Rightarrow> 'a \<Rightarrow> 'a option \<Rightarrow> 'a topo_state \<Rightarrow> 'a topo_state result option" where
  "dfsVisit 0 items getChildren makeCycleError path parent st = None"
| "dfsVisit (Suc fuel) items getChildren makeCycleError path parent st =
     (if path \<in> set (ts_parents st)
      then Some (Inl (case parent of Some p \<Rightarrow> makeCycleError path p | None \<Rightarrow> UndefinedBehaviour ''null parent''))
      else if path \<in> set (ts_visited st) then Some (Inr st)
      else fbind (Some (getChildren path)) (\<lambda>references.
        fbind (ffold
            (\<lambda>i st. if i \<noteq> path \<and> i \<in> set items
                    then dfsVisit fuel items getChildren makeCycleError i (Some path) st else Some (Inr st))
            references (st\<lparr>ts_visited := oset_insert path (ts_visited st), ts_parents := oset_insert path (ts_parents st)\<rparr>)) (\<lambda>st.
          Some (Inr (st\<lparr>ts_sorted := ts_sorted st @ [path], ts_parents := oset_erase path (ts_parents st)\<rparr>)))))"

definition topoSort_fuel ::
  "nat \<Rightarrow> 'a::linorder oset \<Rightarrow> ('a \<Rightarrow> 'a oset result) \<Rightarrow> ('a \<Rightarrow> 'a \<Rightarrow> exn) \<Rightarrow> 'a list result option" where
  "topoSort_fuel fuel items getChildren makeCycleError =
     fbind (ffold (\<lambda>i. dfsVisit fuel items getChildren makeCycleError i None) items
         \<lparr>ts_sorted = [], ts_visited = [], ts_parents = []\<rparr>) (\<lambda>st.
       Some (Inr (rev (ts_sorted st))))"

definition topoSort ::
  "'a::linorder oset \<Rightarrow> ('a \<Rightarrow> 'a oset result) \<Rightarrow> ('a \<Rightarrow> 'a \<Rightarrow> exn) \<Rightarrow> 'a list result option" where
  "topoSort items = topoSort_fuel (Suc (length items)) items"

text \<open>The edges that the search follows.\<close>

definition item_edge :: "'a oset \<Rightarrow> ('a \<Rightarrow> 'a oset result) \<Rightarrow> 'a \<Rightarrow> 'a \<Rightarrow> bool" where
  "item_edge items getChildren i j \<longleftrightarrow>
     i \<in> set items \<and> j \<in> set items \<and> i \<noteq> j \<and> (\<exists>cs. getChildren i = Inr cs \<and> j \<in> set cs)"

text \<open>
  The invariant of the search below the path \<open>stack\<close> (innermost first): what is visited is
  what is finished or on the stack, the stack is a chain of edges, and every finished item comes
  after all items it has an edge to.
\<close>

definition children_first :: "('a \<Rightarrow> 'a \<Rightarrow> bool) \<Rightarrow> 'a list \<Rightarrow> bool" where
  "children_first E xs \<longleftrightarrow> (\<forall>k < length xs. \<forall>j. E (xs ! k) j \<longrightarrow> j \<in> set (take k xs))"

fun chain :: "('a \<Rightarrow> 'a \<Rightarrow> bool) \<Rightarrow> 'a list \<Rightarrow> bool" where
  "chain E (x # y # r) \<longleftrightarrow> E y x \<and> chain E (y # r)"
| "chain E _ \<longleftrightarrow> True"

definition topo_inv :: "'a::linorder oset \<Rightarrow> ('a \<Rightarrow> 'a oset result) \<Rightarrow> 'a list \<Rightarrow> 'a topo_state \<Rightarrow> bool" where
  "topo_inv items getChildren stack st \<longleftrightarrow>
     set (ts_parents st) = set stack \<and> set (ts_visited st) = set (ts_sorted st) \<union> set stack \<and>
     distinct (ts_sorted st @ stack) \<and> set (ts_sorted st) \<union> set stack \<subseteq> set items \<and>
     chain (item_edge items getChildren) stack \<and> children_first (item_edge items getChildren) (ts_sorted st)"

text \<open>What a visit of \<open>p\<close> returns: more is finished, \<open>p\<close> among it, or there is a cycle.\<close>

definition cyclic :: "'a oset \<Rightarrow> ('a \<Rightarrow> 'a oset result) \<Rightarrow> bool" where
  "cyclic items getChildren \<longleftrightarrow> (\<exists>x. (item_edge items getChildren)\<^sup>+\<^sup>+ x x)"

lemma children_first_snoc:
  "children_first E (xs @ [x]) \<longleftrightarrow> children_first E xs \<and> (\<forall>j. E x j \<longrightarrow> j \<in> set xs)"
  by (auto simp: children_first_def nth_append less_Suc_eq)

lemma chain_path: "chain E (x # r) \<Longrightarrow> y \<in> set r \<Longrightarrow> E\<^sup>+\<^sup>+ y x"
proof (induction r arbitrary: x)
  case (Cons z r)
  then show ?case
    by (cases "y = z") (auto intro: tranclp.trancl_into_trancl)
qed simp

lemma chain_Cons: "chain E (x # r) \<longleftrightarrow> (r = [] \<or> E (hd r) x \<and> chain E r)"
  by (cases r) auto

definition visit_post ::
  "'a::linorder oset \<Rightarrow> ('a \<Rightarrow> 'a oset result) \<Rightarrow> ('a \<Rightarrow> 'a \<Rightarrow> exn) \<Rightarrow> 'a list \<Rightarrow> 'a set \<Rightarrow> 'a topo_state \<Rightarrow> 'a topo_state result option \<Rightarrow> bool" where
  "visit_post items getChildren err stack ps st r \<longleftrightarrow>
     (\<exists>st'. r = Some (Inr st') \<and> topo_inv items getChildren stack st' \<and> set (ts_sorted st) \<union> ps \<subseteq> set (ts_sorted st')) \<or>
     (\<exists>x y. r = Some (Inl (err x y)) \<and> item_edge items getChildren y x \<and> (item_edge items getChildren)\<^sup>*\<^sup>* x y) \<or>
     (\<exists>x e. x \<in> set items \<and> r = Some (Inl e) \<and> getChildren x = Inl e)"

lemma visit_post_trans:
  assumes "visit_post items getChildren err stack ps st' r" "set (ts_sorted st) \<union> qs \<subseteq> set (ts_sorted st')"
  shows "visit_post items getChildren err stack (qs \<union> ps) st r"
  using assms(1) unfolding visit_post_def
proof (elim disjE exE conjE)
  fix s :: "'a topo_state"
  assume "set (ts_sorted st') \<union> ps \<subseteq> set (ts_sorted s)"
  with assms(2) have "set (ts_sorted st) \<union> (qs \<union> ps) \<subseteq> set (ts_sorted s)" by blast
  moreover assume "r = Some (Inr s)" "topo_inv items getChildren stack s"
  ultimately show "(\<exists>st'. r = Some (Inr st') \<and> topo_inv items getChildren stack st' \<and> set (ts_sorted st) \<union> (qs \<union> ps) \<subseteq> set (ts_sorted st')) \<or>
     (\<exists>x y. r = Some (Inl (err x y)) \<and> item_edge items getChildren y x \<and> (item_edge items getChildren)\<^sup>*\<^sup>* x y) \<or>
     (\<exists>x e. x \<in> set items \<and> r = Some (Inl e) \<and> getChildren x = Inl e)" by blast
qed blast+

lemma topo_inv_leave:
  assumes "topo_inv items getChildren (p # stack) st" "{i. item_edge items getChildren p i} \<subseteq> set (ts_sorted st)"
  shows "topo_inv items getChildren stack (st\<lparr>ts_sorted := ts_sorted st @ [p], ts_parents := oset_erase p (ts_parents st)\<rparr>)"
proof -
  have "insert p (set stack) - {p} = set stack" using assms(1) by (auto simp: topo_inv_def)
  moreover have "children_first (item_edge items getChildren) (ts_sorted st @ [p])"
    using assms by (auto simp: topo_inv_def children_first_snoc)
  moreover have "chain (item_edge items getChildren) stack" using assms(1) by (auto simp: topo_inv_def chain_Cons)
  ultimately show ?thesis using assms(1) by (auto simp: topo_inv_def)
qed

lemma ffold_post:
  assumes "\<And>i st. i \<in> set is \<Longrightarrow> topo_inv items getChildren stack st \<Longrightarrow>
      visit_post items getChildren err stack (S i) st (f i st)"
    and "topo_inv items getChildren stack st"
  shows "visit_post items getChildren err stack (\<Union> (S ` set is)) st (ffold f is st)"
  using assms
proof (induction "is" arbitrary: st)
  case Nil
  then show ?case by (simp add: visit_post_def)
next
  case (Cons i "is")
  have i: "visit_post items getChildren err stack (S i) st (f i st)" using Cons.prems by simp
  show ?case
  proof (cases "\<exists>st'. f i st = Some (Inr st')")
    case True
    then obtain st' where st': "f i st = Some (Inr st')" by blast
    with i have p: "topo_inv items getChildren stack st'" "set (ts_sorted st) \<union> S i \<subseteq> set (ts_sorted st')"
      by (auto simp: visit_post_def)
    from p(1) have "visit_post items getChildren err stack (\<Union> (S ` set is)) st' (ffold f is st')"
      using Cons by simp
    from visit_post_trans [OF this p(2)] st' show ?thesis by simp
  next
    case False
    with i show ?thesis by (auto simp: visit_post_def)
  qed
qed

lemma dfsVisit_post:
  assumes "topo_inv items getChildren stack st" "p \<in> set items"
    "stack = [] \<and> parent = None \<or> (\<exists>r q. stack = q # r \<and> parent = Some q \<and> item_edge items getChildren q p)"
    "length items < fuel + length stack"
  shows "visit_post items getChildren err stack {p} st (dfsVisit fuel items getChildren err p parent st)"
  using assms
proof (induction fuel arbitrary: p parent stack st)
  case 0
  have "length stack = card (set stack)" using 0(1) by (simp add: topo_inv_def distinct_card)
  also have "\<dots> \<le> card (set items)" using 0(1) by (intro card_mono) (auto simp: topo_inv_def)
  also have "\<dots> \<le> length items" by (rule card_length)
  finally show ?case using 0(4) by simp
next
  case (Suc fuel)
  note inv = Suc.prems(1) [unfolded topo_inv_def]
  consider (cycle) "p \<in> set stack" | (finished) "p \<notin> set stack" "p \<in> set (ts_sorted st)"
    | (err) e where "p \<notin> set stack" "p \<notin> set (ts_sorted st)" "getChildren p = Inl e"
    | (new) cs where "p \<notin> set stack" "p \<notin> set (ts_sorted st)" "getChildren p = Inr cs"
    by (cases "getChildren p") auto
  then show ?case
  proof cases
    case cycle
    then obtain q r where q: "stack = q # r" "parent = Some q" "item_edge items getChildren q p" using Suc.prems(3) by auto
    have "(item_edge items getChildren)\<^sup>*\<^sup>* p q"
      using cycle chain_path [of _ q r p] inv q(1) by (auto dest: tranclp_into_rtranclp)
    with cycle inv q show ?thesis by (auto simp: visit_post_def)
  next
    case finished
    with inv Suc.prems(1) show ?thesis by (auto simp: visit_post_def)
  next
    case err
    with inv Suc.prems(2) show ?thesis by (auto simp: visit_post_def)
  next
    case new
    let ?E = "item_edge items getChildren"
    let ?st = "st\<lparr>ts_visited := oset_insert p (ts_visited st), ts_parents := oset_insert p (ts_parents st)\<rparr>"
    let ?body = "\<lambda>i st. if i \<noteq> p \<and> i \<in> set items then dfsVisit fuel items getChildren err i (Some p) st else Some (Inr st)"
    have start: "topo_inv items getChildren (p # stack) ?st"
      using inv new Suc.prems(2,3) by (auto simp: topo_inv_def chain_Cons)
    have "visit_post items getChildren err (p # stack) (if ?E p i then {i} else {}) s (?body i s)"
      if "i \<in> set cs" "topo_inv items getChildren (p # stack) s" for i s
    proof (cases "i \<noteq> p \<and> i \<in> set items")
      case True
      then have "?E p i" using that(1) new(3) Suc.prems(2) by (auto simp: item_edge_def)
      with True Suc.IH [OF that(2), of i "Some p"] Suc.prems(4) show ?thesis by simp
    next
      case False
      with that(2) show ?thesis by (auto simp: visit_post_def item_edge_def)
    qed
    note loop = ffold_post [of cs items getChildren "p # stack" err "\<lambda>i. if ?E p i then {i} else {}", OF this start]
    have "\<Union> ((\<lambda>i. if ?E p i then {i} else {}) ` set cs) = {i. ?E p i}"
      using new(3) by (auto simp: item_edge_def)
    with loop have post: "visit_post items getChildren err (p # stack) {i. ?E p i} ?st (ffold ?body cs ?st)" by simp
    have eq: "dfsVisit (Suc fuel) items getChildren err p parent st = fbind (ffold ?body cs ?st) (\<lambda>st.
        Some (Inr (st\<lparr>ts_sorted := ts_sorted st @ [p], ts_parents := oset_erase p (ts_parents st)\<rparr>)))"
      using inv new by simp
    from post [unfolded visit_post_def] show ?thesis
    proof (elim disjE exE conjE)
      fix st'
      assume r: "ffold ?body cs ?st = Some (Inr st')" and "topo_inv items getChildren (p # stack) st'"
        and sub: "set (ts_sorted ?st) \<union> {i. ?E p i} \<subseteq> set (ts_sorted st')"
      then have "topo_inv items getChildren stack (st'\<lparr>ts_sorted := ts_sorted st' @ [p], ts_parents := oset_erase p (ts_parents st')\<rparr>)"
        by (intro topo_inv_leave) simp_all
      with r sub show ?thesis unfolding eq by (auto simp: visit_post_def)
    qed (unfold eq, auto simp: visit_post_def)
  qed
qed

lemma in_set_take: "z \<in> set (take k xs) \<Longrightarrow> \<exists>m < k. xs ! m = z"
  by (auto simp: in_set_conv_nth)

lemma children_first_path:
  assumes "children_first E xs" "E\<^sup>+\<^sup>+ x y" "k < length xs" "xs ! k = x"
  shows "\<exists>m < k. xs ! m = y"
  using assms(2-)
proof (induction arbitrary: k rule: tranclp_induct)
  case (base y)
  then show ?case using assms(1) in_set_take [of y k xs] by (auto simp: children_first_def)
next
  case (step y z)
  then obtain m where m: "m < k" "xs ! m = y" by blast
  with step assms(1) have "z \<in> set (take m xs)" unfolding children_first_def by (meson less_trans)
  with m(1) show ?case using in_set_take [of z m xs] less_trans by blast
qed

lemma children_first_acyclic:
  assumes "children_first E xs" "x \<in> set xs"
  shows "\<not> E\<^sup>+\<^sup>+ x x"
proof
  assume loop: "E\<^sup>+\<^sup>+ x x"
  have "\<not> (k < length xs \<and> xs ! k = x)" for k
  proof (induction k rule: less_induct)
    case (less k)
    then show ?case using children_first_path [OF assms(1) loop, of k] by force
  qed
  with assms(2) show False by (auto simp: in_set_conv_nth)
qed

lemma cyclic_item: "(item_edge items getChildren)\<^sup>+\<^sup>+ x y \<Longrightarrow> x \<in> set items"
  by (induction rule: tranclp_induct) (simp_all add: item_edge_def)

definition before :: "'a list \<Rightarrow> 'a \<Rightarrow> 'a \<Rightarrow> bool" where
  "before xs i j \<longleftrightarrow> (\<exists>ys zs. xs = ys @ i # zs \<and> j \<in> set zs)"

lemma children_first_before:
  assumes "children_first E xs" "E i j" "i \<in> set xs"
  shows "before (rev xs) i j"
proof -
  obtain ys zs where xs: "xs = ys @ i # zs" using assms(3) by (meson split_list)
  then have "j \<in> set ys" using assms(1,2) by (force simp: children_first_def dest: spec [of _ "length ys"])
  with xs show ?thesis unfolding before_def by (intro exI [of _ "rev zs"] exI [of _ "rev ys"]) simp
qed

lemma topoSort_post:
  "visit_post items getChildren err [] (set items) \<lparr>ts_sorted = [], ts_visited = [], ts_parents = []\<rparr>
     (ffold (\<lambda>i. dfsVisit (Suc (length items)) items getChildren err i None) items
       \<lparr>ts_sorted = [], ts_visited = [], ts_parents = []\<rparr>)"
proof -
  have "visit_post items getChildren err [] (\<Union> ((\<lambda>i. {i}) ` set items)) \<lparr>ts_sorted = [], ts_visited = [], ts_parents = []\<rparr>
     (ffold (\<lambda>i. dfsVisit (Suc (length items)) items getChildren err i None) items
       \<lparr>ts_sorted = [], ts_visited = [], ts_parents = []\<rparr>)"
    by (rule ffold_post, rule dfsVisit_post) (simp_all add: topo_inv_def children_first_def del: dfsVisit.simps)
  then show ?thesis by simp
qed

text \<open>
  C28: \<^verbatim>\<open>topoSort\<close> always returns. When no item reaches itself along references inside the set, the
  result lists every item exactly once and each item before everything it refers to; otherwise it
  reports an edge that closes a cycle. It never drops an item, loops, or blames an edge that is
  not on a cycle.
\<close>

theorem topoSort_exact:
  assumes "\<forall>i \<in> set items. \<exists>cs. getChildren i = Inr cs"
  shows "if cyclic items getChildren
    then \<exists>x y. topoSort items getChildren makeCycleError = Some (Inl (makeCycleError x y)) \<and>
           item_edge items getChildren y x \<and> (item_edge items getChildren)\<^sup>*\<^sup>* x y
    else \<exists>xs. topoSort items getChildren makeCycleError = Some (Inr xs) \<and> distinct xs \<and> set xs = set items \<and>
           (\<forall>i j. item_edge items getChildren i j \<longrightarrow> before xs i j)"
proof -
  let ?E = "item_edge items getChildren"
  let ?r = "ffold (\<lambda>i. dfsVisit (Suc (length items)) items getChildren makeCycleError i None) items
       \<lparr>ts_sorted = [], ts_visited = [], ts_parents = []\<rparr>"
  have top: "topoSort items getChildren makeCycleError = fbind ?r (\<lambda>st. Some (Inr (rev (ts_sorted st))))"
    by (simp add: topoSort_def topoSort_fuel_def del: dfsVisit.simps)
  consider (ok) st where "?r = Some (Inr st)" "topo_inv items getChildren [] st" "set items \<subseteq> set (ts_sorted st)"
    | (cycle) x y where "?r = Some (Inl (makeCycleError x y))" "?E y x" "?E\<^sup>*\<^sup>* x y"
    using topoSort_post [of items getChildren makeCycleError] assms by (auto simp: visit_post_def simp del: dfsVisit.simps)
  then show ?thesis
  proof cases
    case ok
    then have first: "children_first ?E (ts_sorted st)" and items: "set (ts_sorted st) = set items" "distinct (ts_sorted st)"
      by (auto simp: topo_inv_def)
    have "\<not> cyclic items getChildren"
      using children_first_acyclic [OF first] cyclic_item items(1) by (fastforce simp: cyclic_def)
    moreover have "before (rev (ts_sorted st)) i j" if "?E i j" for i j
      using children_first_before [OF first that] that items(1) by (simp add: item_edge_def)
    ultimately show ?thesis using ok(1) top items by simp
  next
    case cycle
    then have "?E\<^sup>+\<^sup>+ y y" by (meson rtranclp_into_tranclp2 tranclp_into_rtranclp)
    then have "cyclic items getChildren" by (auto simp: cyclic_def)
    with cycle top show ?thesis by auto
  qed
qed

theorem topoSort_exact_witness:
  "topoSort [1, 2, 3 :: nat] (\<lambda>i. Inr (if i = 1 then [3] else if i = 3 then [2, 3] else [])) (\<lambda>_ _. Error ''cycle'') = Some (Inr [1, 3, 2]) \<and>
   before [1, 3, 2 :: nat] 1 3"
proof -
  let ?g = "\<lambda>i. Inr (if i = 1 then [3] else if i = 3 then [2, 3] else []) :: nat oset result"
  have run: "topoSort [1, 2, 3] ?g (\<lambda>_ _. Error ''cycle'') = Some (Inr [1, 3, 2])"
    by (simp add: topoSort_def topoSort_fuel_def oset_erase_def)
  have "item_edge [1, 2, 3] ?g 1 3" by (simp add: item_edge_def)
  with topoSort_exact [of "[1, 2, 3]" ?g "\<lambda>_ _. Error ''cycle''"] run show ?thesis
    by (auto split: if_splits)
qed

section \<open>computeClosure\<close>

text \<open>
  The state that the lock protects (\<^verbatim>\<open>pending\<close>, \<^verbatim>\<open>res\<close>, \<^verbatim>\<open>exc\<close>) and where the threads are: the
  start elements that the caller has still to enqueue, the elements whose edges have been requested
  and whose callback has not begun, and for every callback that is running the children it has
  still to enqueue. \<open>cl_aborted\<close> records a failed \<^verbatim>\<open>assert(state->pending)\<close>. \<^verbatim>\<open>pending\<close> is a
  natural number: it never exceeds the number of elements in memory.
\<close>

record 'a closure_state =
  cl_pending :: nat
  cl_res :: "'a oset"
  cl_exc :: "exn option"
  cl_start :: "'a list"
  cl_requests :: "'a multiset"
  cl_running :: "'a list multiset"
  cl_aborted :: bool

definition enqueue :: "'a::linorder \<Rightarrow> 'a closure_state \<Rightarrow> 'a closure_state" where
  "enqueue current st =
     (if cl_exc st \<noteq> None then st
      else if current \<in> set (cl_res st) then st
      else st\<lparr>cl_res := oset_insert current (cl_res st), cl_pending := cl_pending st + 1,
              cl_requests := add_mset current (cl_requests st)\<rparr>)"

definition finish_callback :: "'a closure_state \<Rightarrow> 'a closure_state" where
  "finish_callback st =
     (if cl_pending st = 0 then st\<lparr>cl_aborted := True\<rparr> else st\<lparr>cl_pending := cl_pending st - 1\<rparr>)"

definition record_exception :: "exn \<Rightarrow> 'a closure_state \<Rightarrow> 'a closure_state" where
  "record_exception e st = (if cl_exc st = None then st\<lparr>cl_exc := Some e\<rparr> else st)"

inductive closure_step :: "('a::linorder \<Rightarrow> 'a oset result) \<Rightarrow> 'a closure_state \<Rightarrow> 'a closure_state \<Rightarrow> bool"
  for getEdges :: "'a \<Rightarrow> 'a oset result" where
  start: "cl_start st = x # xs \<Longrightarrow> closure_step getEdges st (enqueue x (st\<lparr>cl_start := xs\<rparr>))"
| answer: "x \<in># cl_requests st \<Longrightarrow> getEdges x = Inr cs \<Longrightarrow>
    closure_step getEdges st (st\<lparr>cl_requests := cl_requests st - {#x#}, cl_running := add_mset cs (cl_running st)\<rparr>)"
| fail: "x \<in># cl_requests st \<Longrightarrow> getEdges x = Inl e \<Longrightarrow>
    closure_step getEdges st (finish_callback (record_exception e (st\<lparr>cl_requests := cl_requests st - {#x#}\<rparr>)))"
| child: "c # cs \<in># cl_running st \<Longrightarrow>
    closure_step getEdges st (enqueue c (st\<lparr>cl_running := add_mset cs (cl_running st - {#c # cs#})\<rparr>))"
| return: "[] \<in># cl_running st \<Longrightarrow>
    closure_step getEdges st (finish_callback (st\<lparr>cl_running := cl_running st - {#[]#}\<rparr>))"

definition closure_init :: "'a list \<Rightarrow> 'a oset \<Rightarrow> 'a closure_state" where
  "closure_init startElts res = \<lparr>cl_pending = 0, cl_res = res, cl_exc = None, cl_start = startElts,
     cl_requests = {#}, cl_running = {#}, cl_aborted = False\<rparr>"

text \<open>What the caller gets when it stops waiting; \<open>None\<close> while it waits.\<close>

definition closure_result :: "'a closure_state \<Rightarrow> 'a oset result option" where
  "closure_result st =
     (if cl_start st = [] \<and> cl_pending st = 0
      then Some (case cl_exc st of Some e \<Rightarrow> Inl e | None \<Rightarrow> Inr (cl_res st)) else None)"

text \<open>The specification: what can be reached along edges.\<close>

definition edge :: "('a \<Rightarrow> 'a oset result) \<Rightarrow> 'a \<Rightarrow> 'a \<Rightarrow> bool" where
  "edge getEdges x y \<longleftrightarrow> (\<exists>cs. getEdges x = Inr cs \<and> y \<in> set cs)"

definition reach :: "('a \<Rightarrow> 'a oset result) \<Rightarrow> 'a set \<Rightarrow> 'a set" where
  "reach getEdges S = {y. \<exists>x \<in> S. (edge getEdges)\<^sup>*\<^sup>* x y}"

definition closed :: "('a \<Rightarrow> 'a oset result) \<Rightarrow> 'a set \<Rightarrow> bool" where
  "closed getEdges S \<longleftrightarrow> (\<forall>x \<in> S. \<forall>y. edge getEdges x y \<longrightarrow> y \<in> S)"

lemma reach_step: "x \<in> reach getEdges S \<Longrightarrow> edge getEdges x y \<Longrightarrow> y \<in> reach getEdges S"
  by (auto simp: reach_def intro: rtranclp.rtrancl_into_rtrancl)

lemma reach_start: "S \<subseteq> reach getEdges S"
  by (auto simp: reach_def)

lemma reach_least:
  assumes "S \<subseteq> T" "closed getEdges T"
  shows "reach getEdges S \<subseteq> T"
proof
  fix y
  assume "y \<in> reach getEdges S"
  then obtain x where "x \<in> S" "(edge getEdges)\<^sup>*\<^sup>* x y" by (auto simp: reach_def)
  from this(2,1) show "y \<in> T"
    by (induction rule: rtranclp_induct) (use assms in \<open>auto simp: closed_def\<close>)
qed

definition in_flight :: "'a closure_state \<Rightarrow> 'a set" where
  "in_flight st = \<Union> (set ` set_mset (cl_running st))"

text \<open>The invariant, where \<open>X\<close> is what a thread is about to enqueue.\<close>

definition closure_inv ::
  "('a::linorder \<Rightarrow> 'a oset result) \<Rightarrow> 'a list \<Rightarrow> 'a oset \<Rightarrow> 'a set \<Rightarrow> 'a closure_state \<Rightarrow> bool" where
  "closure_inv getEdges startElts res X st \<longleftrightarrow>
     \<not> cl_aborted st \<and> cl_pending st = size (cl_requests st) + size (cl_running st) \<and> oset_ok (cl_res st) \<and>
     X \<union> set (cl_start st) \<union> set (cl_res st) \<union> in_flight st \<subseteq> set res \<union> reach getEdges (set startElts) \<and>
     set res \<subseteq> set (cl_res st) \<and> set_mset (cl_requests st) \<subseteq> reach getEdges (set startElts) \<and>
     (cl_exc st = None \<longrightarrow> set startElts \<subseteq> set (cl_res st) \<union> set (cl_start st) \<union> X \<and>
        (\<forall>x \<in> set (cl_res st) - set res. x \<in># cl_requests st \<or>
           (\<exists>cs. getEdges x = Inr cs \<and> set cs \<subseteq> set (cl_res st) \<union> in_flight st \<union> X))) \<and>
     (\<forall>e. cl_exc st = Some e \<longrightarrow> (\<exists>x \<in> reach getEdges (set startElts). getEdges x = Inl e))"

lemma closure_inv_init: "oset_ok res \<Longrightarrow> closure_inv getEdges startElts res {} (closure_init startElts res)"
  using reach_start [of "set startElts" getEdges] by (auto simp: closure_inv_def closure_init_def in_flight_def)

lemma closure_inv_enqueue:
  assumes "closure_inv getEdges startElts res {x} st"
  shows "closure_inv getEdges startElts res {} (enqueue x st)"
proof (cases "cl_exc st = None \<and> x \<notin> set (cl_res st)")
  case True
  with assms have "x \<in> reach getEdges (set startElts)" by (auto simp: closure_inv_def)
  with True assms show ?thesis unfolding closure_inv_def in_flight_def enqueue_def by (simp, blast)
next
  case False
  then have "enqueue x st = st" by (auto simp: enqueue_def)
  moreover have "cl_exc st \<noteq> None \<or> x \<in> set (cl_res st)" using False by auto
  then have "closure_inv getEdges startElts res {} st"
  proof (elim disjE)
    assume "cl_exc st \<noteq> None"
    with assms show ?thesis by (auto simp: closure_inv_def)
  next
    assume "x \<in> set (cl_res st)"
    with assms show ?thesis by (simp add: closure_inv_def insert_absorb)
  qed
  ultimately show ?thesis by simp
qed

lemma in_flight_remove:
  assumes "c # cs \<in># cl_running st"
  shows "insert c (in_flight (st\<lparr>cl_running := add_mset cs (cl_running st - {#c # cs#})\<rparr>)) = in_flight st"
proof -
  obtain A where "cl_running st = add_mset (c # cs) A" using assms by (meson multi_member_split)
  then show ?thesis by (simp add: in_flight_def)
qed

lemma closure_inv_more:
  assumes "closure_inv getEdges startElts res {} st" "x \<in> set res \<union> reach getEdges (set startElts)"
  shows "closure_inv getEdges startElts res {x} st"
  using assms unfolding closure_inv_def by (simp add: subset_insertI2) (meson subset_insertI2)

lemma closure_inv_step:
  assumes "closure_step getEdges st st'" "closure_inv getEdges startElts res {} st"
  shows "closure_inv getEdges startElts res {} st'"
  using assms
proof cases
  case (start x xs)
  then have "x \<in> set res \<union> reach getEdges (set startElts)" using assms(2) by (auto simp: closure_inv_def)
  from closure_inv_more [OF assms(2) this] have "closure_inv getEdges startElts res {x} (st\<lparr>cl_start := xs\<rparr>)"
    using start by (simp add: closure_inv_def in_flight_def)
  with start show ?thesis by (simp add: closure_inv_enqueue)
next
  case (answer x cs)
  then have "x \<in> reach getEdges (set startElts)" using assms(2) by (auto simp: closure_inv_def)
  then have cs: "set cs \<subseteq> reach getEdges (set startElts)"
    using reach_step [of x getEdges _ y for y] answer(3) by (auto simp: edge_def)
  obtain A where A: "cl_requests st = add_mset x A" using answer(2) by (meson multi_member_split)
  let ?st = "st\<lparr>cl_requests := A, cl_running := add_mset cs (cl_running st)\<rparr>"
  have fl: "in_flight ?st = set cs \<union> in_flight st" by (simp add: in_flight_def)
  have "y \<in># A \<or> (\<exists>cs'. getEdges y = Inr cs' \<and> set cs' \<subseteq> set (cl_res st) \<union> (set cs \<union> in_flight st))"
    if "cl_exc st = None" "y \<in> set (cl_res st) - set res" for y
  proof (cases "y = x")
    case False
    with that assms(2) A have "y \<in># A \<or> (\<exists>cs'. getEdges y = Inr cs' \<and> set cs' \<subseteq> set (cl_res st) \<union> in_flight st)"
      by (auto simp: closure_inv_def)
    then show ?thesis by blast
  qed (use answer(3) in auto)
  with cs assms(2) A answer fl show ?thesis by (simp add: closure_inv_def le_supI2)
next
  case (fail x e)
  obtain A where A: "cl_requests st = add_mset x A" using fail(2) by (meson multi_member_split)
  with assms(2) have "x \<in> reach getEdges (set startElts)" by (simp add: closure_inv_def)
  with fail assms(2) A show ?thesis
    by (auto simp: closure_inv_def finish_callback_def record_exception_def in_flight_def)
next
  case (child c cs)
  obtain A where A: "cl_running st = add_mset (c # cs) A" using child(2) by (meson multi_member_split)
  from assms(2) A have "closure_inv getEdges startElts res {c} (st\<lparr>cl_running := add_mset cs (cl_running st - {#c # cs#})\<rparr>)"
    by (simp add: closure_inv_def subset_insertI2 in_flight_remove [OF child(2), symmetric])
  with child show ?thesis by (simp add: closure_inv_enqueue)
next
  case return
  obtain A where A: "cl_running st = add_mset [] A" using return(2) by (meson multi_member_split)
  with assms(2) return show ?thesis by (simp add: closure_inv_def finish_callback_def in_flight_def)
qed

lemma closure_inv_run:
  assumes "(closure_step getEdges)\<^sup>*\<^sup>* (closure_init startElts res) st" "oset_ok res"
  shows "closure_inv getEdges startElts res {} st"
  using assms(1)
  by (induction rule: rtranclp_induct) (auto intro: closure_inv_init [OF assms(2)] closure_inv_step)

lemma closure_progress:
  assumes "closure_inv getEdges startElts res {} st" "closure_result st = None"
  shows "\<exists>st'. closure_step getEdges st st'"
proof -
  consider (main) x xs where "cl_start st = x # xs" | (wait) "cl_pending st \<noteq> 0"
    using assms(2) by (cases "cl_start st") (auto simp: closure_result_def split: if_splits)
  then show ?thesis
  proof cases
    case main
    then show ?thesis by (meson closure_step.start)
  next
    case wait
    with assms(1) have "cl_requests st \<noteq> {#} \<or> cl_running st \<noteq> {#}" by (auto simp: closure_inv_def)
    then consider x where "x \<in># cl_requests st" | cs where "cs \<in># cl_running st" by (meson multiset_nonemptyE)
    then show ?thesis
    proof cases
      case (1 x)
      then show ?thesis by (cases "getEdges x") (meson closure_step.answer closure_step.fail)+
    next
      case (2 cs)
      then show ?thesis by (cases cs) (meson closure_step.child closure_step.return)+
    qed
  qed
qed

definition closure_measures :: "'a set \<Rightarrow> ('a closure_state \<Rightarrow> nat) list" where
  "closure_measures U =
     [\<lambda>st. card (U - set (cl_res st)), \<lambda>st. length (cl_start st), \<lambda>st. size (cl_requests st),
      \<lambda>st. \<Sum>cs \<in># cl_running st. Suc (length cs)]"

lemma enqueue_simps [simp]:
  "cl_start (enqueue x st) = cl_start st" "cl_running (enqueue x st) = cl_running st"
  by (simp_all add: enqueue_def)

lemma finish_simps [simp]:
  "cl_res (finish_callback st) = cl_res st" "cl_start (finish_callback st) = cl_start st"
  "cl_requests (finish_callback st) = cl_requests st" "cl_running (finish_callback st) = cl_running st"
  "cl_res (record_exception e st) = cl_res st" "cl_start (record_exception e st) = cl_start st"
  "cl_requests (record_exception e st) = cl_requests st" "cl_running (record_exception e st) = cl_running st"
  by (simp_all add: finish_callback_def record_exception_def)

lemma enqueue_cases:
  assumes "finite U" "x \<in> U"
  obtains "enqueue x st = st" | "card (U - set (cl_res (enqueue x st))) < card (U - set (cl_res st))"
proof (cases "cl_exc st = None \<and> x \<notin> set (cl_res st)")
  case True
  then have "U - set (cl_res (enqueue x st)) = (U - set (cl_res st)) - {x}" by (auto simp: enqueue_def)
  moreover have "x \<in> U - set (cl_res st)" using True assms(2) by simp
  ultimately have "card (U - set (cl_res (enqueue x st))) < card (U - set (cl_res st))"
    using assms(1) by (metis card_Diff1_less finite_Diff)
  then show ?thesis by (rule that(2))
next
  case False
  then have "enqueue x st = st" by (auto simp: enqueue_def)
  then show ?thesis by (rule that(1))
qed

lemma closure_step_decreases:
  assumes "closure_step getEdges st st'" "closure_inv getEdges startElts res {} st"
    and U: "U = set res \<union> reach getEdges (set startElts)" "finite U"
  shows "(st', st) \<in> measures (closure_measures U)"
  using assms(1)
proof cases
  case (start x xs)
  then have "x \<in> U" using assms(2) U(1) by (auto simp: closure_inv_def)
  then show ?thesis
    by (rule enqueue_cases [OF U(2), of x "st\<lparr>cl_start := xs\<rparr>"]) (use start in \<open>auto simp: closure_measures_def\<close>)
next
  case (answer x cs)
  obtain A where "cl_requests st = add_mset x A" using answer(2) by (meson multi_member_split)
  with answer show ?thesis by (simp add: closure_measures_def)
next
  case (fail x e)
  obtain A where "cl_requests st = add_mset x A" using fail(2) by (meson multi_member_split)
  with fail show ?thesis by (simp add: closure_measures_def)
next
  case (child c cs)
  obtain A where A: "cl_running st = add_mset (c # cs) A" using child(2) by (meson multi_member_split)
  then have "c \<in> U" using assms(2) U(1) by (auto simp: closure_inv_def in_flight_def)
  then show ?thesis
    by (rule enqueue_cases [OF U(2), of c "st\<lparr>cl_running := add_mset cs (cl_running st - {#c # cs#})\<rparr>"])
      (use child A in \<open>auto simp: closure_measures_def\<close>)
next
  case return
  obtain A where "cl_running st = add_mset [] A" using return(2) by (meson multi_member_split)
  with return show ?thesis by (simp add: closure_measures_def)
qed

text \<open>
  C26: whatever the order in which the callbacks of \<^verbatim>\<open>computeClosure\<close> run, no \<^verbatim>\<open>assert\<close> fails, and
  when the caller stops waiting it has exactly the elements that are already in \<^verbatim>\<open>res\<close> or reachable
  from the start elements, or the exception of an element that is reachable.
\<close>

theorem computeClosure_exact:
  assumes "(closure_step getEdges)\<^sup>*\<^sup>* (closure_init startElts res) st" "oset_ok res" "closed getEdges (set res)"
  shows "\<not> cl_aborted st \<and>
    (\<forall>r. closure_result st = Some (Inr r) \<longrightarrow> oset_ok r \<and> set r = set res \<union> reach getEdges (set startElts)) \<and>
    (\<forall>e. closure_result st = Some (Inl e) \<longrightarrow> (\<exists>x \<in> reach getEdges (set startElts). getEdges x = Inl e))"
proof -
  have inv: "closure_inv getEdges startElts res {} st" by (rule closure_inv_run [OF assms(1,2)])
  have "set (cl_res st) = set res \<union> reach getEdges (set startElts)"
    if "cl_start st = []" "cl_pending st = 0" "cl_exc st = None"
  proof -
    have none: "cl_requests st = {#}" "in_flight st = {}" using inv that(2) by (auto simp: closure_inv_def in_flight_def)
    with inv that assms(3) have "closed getEdges (set (cl_res st))"
      unfolding closure_inv_def closed_def edge_def by (metis (no_types, lifting) Diff_iff Inr_inject Un_empty_right empty_iff set_mset_empty subsetD)
    with inv that none have "reach getEdges (set startElts) \<subseteq> set (cl_res st)"
      by (intro reach_least) (auto simp: closure_inv_def)
    with inv show ?thesis by (auto simp: closure_inv_def)
  qed
  with inv show ?thesis
    by (auto simp: closure_result_def closure_inv_def split: if_splits option.splits)
qed

text \<open>A run of the closure of 1 in the graph with the one edge from 1 to 1.\<close>

definition example_end :: "nat closure_state" where
  "example_end = \<lparr>cl_pending = 0, cl_res = [1], cl_exc = None, cl_start = [], cl_requests = {#}, cl_running = {#}, cl_aborted = False\<rparr>"

lemma example_run: "(closure_step (\<lambda>x. Inr [x]))\<^sup>*\<^sup>* (closure_init [1] []) example_end"
proof -
  let ?E = "\<lambda>x :: nat. Inr [x]"
  let ?a = "\<lparr>cl_pending = 1, cl_res = [1], cl_exc = None, cl_start = [], cl_requests = {#1#}, cl_running = {#}, cl_aborted = False\<rparr>"
  let ?b = "?a\<lparr>cl_requests := {#}, cl_running := {#[1]#}\<rparr>"
  let ?c = "?a\<lparr>cl_requests := {#}, cl_running := {#[]#}\<rparr>"
  have "closure_step ?E (closure_init [1] []) ?a"
    using closure_step.start [of "closure_init [1] []" 1 "[]" ?E] by (simp add: closure_init_def enqueue_def)
  moreover have "closure_step ?E ?a ?b" using closure_step.answer [of 1 ?a ?E "[1]"] by simp
  moreover have "closure_step ?E ?b ?c" using closure_step.child [of 1 "[]" ?b ?E] by (simp add: enqueue_def)
  moreover have "closure_step ?E ?c example_end"
    using closure_step.return [of ?c ?E] by (simp add: finish_callback_def example_end_def)
  ultimately show ?thesis by (meson rtranclp.rtrancl_into_rtrancl rtranclp.rtrancl_refl)
qed

theorem computeClosure_exact_witness:
  "closure_result example_end = Some (Inr [1]) \<and> {1} = reach (\<lambda>x. Inr [x]) {1 :: nat}"
  using computeClosure_exact [OF example_run] by (simp add: closed_def closure_result_def example_end_def)



end
