(* ===== verification/Zix_LRUCache.thy ===== *)
theory Zix_LRUCache
  imports Zix_Prelude
begin

text \<open>
  The least-recently-used cache of libutil (lru-cache.hh). The C++ object is a map from keys to
  values, each with an iterator into a linked list of the keys, oldest first. An iterator is the
  identity of its list node: the model numbers the nodes as they are allocated, so that
  \<^verbatim>\<open>lru.erase(it)\<close> removes the node that the map remembers and no other. The theorem is that
  this structure refines an association list in order of use.
\<close>

record ('k, 'v) LRUCache =
  capacity :: nat
  data :: "('k, nat \<times> 'v) omap"
  lru :: "(nat \<times> 'k) list"
  next_node :: nat

definition mkLRUCache :: "nat \<Rightarrow> ('k, 'v) LRUCache" where
  "mkLRUCache cap = \<lparr>capacity = cap, data = [], lru = [], next_node = 0\<rparr>"

text \<open>\<^verbatim>\<open>std::list::erase\<close> of a node; \<^verbatim>\<open>insert\<close> at the end allocates one.\<close>

definition list_erase :: "nat \<Rightarrow> (nat \<times> 'k) list \<Rightarrow> (nat \<times> 'k) list" where
  "list_erase n xs = filter (\<lambda>e. fst e \<noteq> n) xs"

definition LRUCache_erase :: "'k::linorder \<Rightarrow> ('k, 'v) LRUCache \<Rightarrow> bool \<times> ('k, 'v) LRUCache" where
  "LRUCache_erase key c =
     (case map_of (data c) key of
        None \<Rightarrow> (False, c)
      | Some (it, v) \<Rightarrow> (True, c\<lparr>lru := list_erase it (lru c), data := omap_erase key (data c)\<rparr>))"

definition LRUCache_upsert :: "'k::linorder \<Rightarrow> 'v \<Rightarrow> ('k, 'v) LRUCache \<Rightarrow> ('k, 'v) LRUCache result" where
  "LRUCache_upsert key value c =
     (if capacity c = 0 then Inr c
      else let c = snd (LRUCache_erase key c) in
        rbind (if length (data c) \<ge> capacity c
               then case lru c of
                   [] \<Rightarrow> Inl (UndefinedBehaviour ''begin() of an empty list'')
                 | (n, oldest) # r \<Rightarrow> Inr (c\<lparr>data := omap_erase oldest (data c), lru := r\<rparr>)
               else Inr c) (\<lambda>c.
        rbind (assert_that (key \<notin> set (map fst (data c))) ''res.second'') (\<lambda>_.
          Inr (c\<lparr>data := omap_emplace key (next_node c, value) (data c), lru := lru c @ [(next_node c, key)],
                 next_node := next_node c + 1\<rparr>))))"

definition LRUCache_get :: "'k::linorder \<Rightarrow> ('k, 'v) LRUCache \<Rightarrow> 'v option \<times> ('k, 'v) LRUCache" where
  "LRUCache_get key c =
     (case map_of (data c) key of
        None \<Rightarrow> (None, c)
      | Some (it, v) \<Rightarrow>
          (Some v, c\<lparr>data := omap_assign key (next_node c, v) (data c),
                     lru := list_erase it (lru c) @ [(next_node c, key)], next_node := next_node c + 1\<rparr>))"

definition LRUCache_size :: "('k, 'v) LRUCache \<Rightarrow> nat" where
  "LRUCache_size c = length (data c)"

definition LRUCache_clear :: "('k, 'v) LRUCache \<Rightarrow> ('k, 'v) LRUCache" where
  "LRUCache_clear c = c\<lparr>data := [], lru := []\<rparr>"

section \<open>The specification: entries in order of use\<close>

definition entries :: "('k, 'v) LRUCache \<Rightarrow> ('k \<times> 'v) list" where
  "entries c = map (\<lambda>(n, k). (k, snd (the (map_of (data c) k)))) (lru c)"

definition spec_erase :: "'k \<Rightarrow> ('k \<times> 'v) list \<Rightarrow> ('k \<times> 'v) list" where
  "spec_erase k es = filter (\<lambda>e. fst e \<noteq> k) es"

definition spec_upsert :: "nat \<Rightarrow> 'k \<Rightarrow> 'v \<Rightarrow> ('k \<times> 'v) list \<Rightarrow> ('k \<times> 'v) list" where
  "spec_upsert cap k v es =
     (if cap = 0 then es
      else (let es = spec_erase k es in if length es \<ge> cap then tl es else es) @ [(k, v)])"

definition spec_get :: "'k \<Rightarrow> ('k \<times> 'v) list \<Rightarrow> ('k \<times> 'v) list" where
  "spec_get k es = (case map_of es k of None \<Rightarrow> es | Some v \<Rightarrow> spec_erase k es @ [(k, v)])"

definition lru_ok :: "('k::linorder, 'v) LRUCache \<Rightarrow> bool" where
  "lru_ok c \<longleftrightarrow> omap_ok (data c) \<and> distinct (map fst (lru c)) \<and> distinct (map snd (lru c)) \<and>
     set (map snd (lru c)) = set (map fst (data c)) \<and>
     (\<forall>(n, k) \<in> set (lru c). n < next_node c \<and> (\<exists>v. map_of (data c) k = Some (n, v))) \<and>
     length (lru c) \<le> capacity c"

lemma entries_keys [simp]: "map fst (entries c) = map snd (lru c)"
  by (simp add: entries_def case_prod_beta)

lemma length_entries [simp]: "length (entries c) = length (lru c)"
  by (simp add: entries_def)

lemma lru_ok_length: "lru_ok c \<Longrightarrow> length (data c) = length (lru c)"
  unfolding lru_ok_def by (metis distinct_card length_map omap_ok_distinct)

lemma find_entry:
  assumes "lru_ok c"
  shows "map_of (entries c) k = map_option snd (map_of (data c) k)"
proof (cases "k \<in> set (map snd (lru c))")
  case True
  then obtain n where n: "(n, k) \<in> set (lru c)" by auto
  then obtain v where v: "map_of (data c) k = Some (n, v)" using assms by (auto simp: lru_ok_def)
  have "(k, v) \<in> set (entries c)" using n v by (force simp: entries_def)
  moreover have "distinct (map fst (entries c))" using assms by (simp add: lru_ok_def)
  ultimately show ?thesis using v by (simp add: map_of_eq_Some_iff)
next
  case False
  then have "k \<notin> set (map fst (entries c))" "k \<notin> set (map fst (data c))" using assms unfolding entries_keys lru_ok_def by metis+
  then have "map_of (entries c) k = None" "map_of (data c) k = None" by (simp_all only: map_of_eq_None_iff set_map not_False_eq_True)
  then show ?thesis by simp
qed

lemma list_erase_key:
  assumes "lru_ok c" "map_of (data c) k = Some (n, v)"
  shows "list_erase n (lru c) = filter (\<lambda>e. snd e \<noteq> k) (lru c)"
  unfolding list_erase_def
proof (rule filter_cong [OF refl])
  fix e
  assume e: "e \<in> set (lru c)"
  have "k \<in> set (map snd (lru c))" using assms by (force simp: lru_ok_def dest: map_of_SomeD)
  then obtain m where m: "(m, k) \<in> set (lru c)" by auto
  with assms have "m = n" by (auto simp: lru_ok_def)
  have d: "distinct (map fst (lru c))" using assms(1) by (simp add: lru_ok_def)
  have "fst e = n \<Longrightarrow> snd e = k"
    using eq_key_imp_eq_value [OF d, of n k "snd e"] e m \<open>m = n\<close> by (metis prod.collapse)
  moreover have "snd e = k \<Longrightarrow> fst e = n" using e assms by (cases e) (auto simp: lru_ok_def)
  ultimately show "(fst e \<noteq> n) = (snd e \<noteq> k)" by blast
qed

lemma distinct_map_filter2: "distinct (map f xs) \<Longrightarrow> distinct (map f (filter P xs))"
  by (induction xs) auto

lemma erase_refines:
  assumes "lru_ok c" "LRUCache_erase k c = (b, c')"
  shows "lru_ok c' \<and> entries c' = spec_erase k (entries c) \<and> capacity c' = capacity c \<and> k \<notin> set (map fst (data c')) \<and>
    b = (map_of (entries c) k \<noteq> None)"
proof (cases "map_of (data c) k")
  case None
  then have k: "k \<notin> set (map fst (data c))" by (simp add: map_of_eq_None_iff)
  with assms(1) have "k \<notin> set (map fst (entries c))" by (simp add: lru_ok_def)
  then have "spec_erase k (entries c) = entries c" unfolding spec_erase_def by (intro filter_True) (metis image_eqI set_map)
  with None assms k show ?thesis by (auto simp: LRUCache_erase_def find_entry)
next
  case (Some e)
  then obtain n v where nv: "map_of (data c) k = Some (n, v)" by (cases e) auto
  then have c': "b" "c' = c\<lparr>lru := filter (\<lambda>e. snd e \<noteq> k) (lru c), data := omap_erase k (data c)\<rparr>"
    using assms list_erase_key [OF assms(1)] by (auto simp: LRUCache_erase_def)
  have "lru_ok c'" using assms(1) c'(2)
    by (auto simp: lru_ok_def distinct_map_filter2 omap_erase_def map_of_omap_erase [unfolded omap_erase_def] omap_ok_erase [unfolded omap_erase_def] intro: le_trans [OF length_filter_le])
  moreover have "entries c' = spec_erase k (entries c)" unfolding c'(2)
    by (auto simp: entries_def spec_erase_def filter_map o_def case_prod_beta intro!: map_cong)
  ultimately show ?thesis using c' nv assms(1) by (auto simp: omap_erase_def find_entry)
qed

lemma retire_refines:
  assumes "lru_ok c" "lru c = (n, k) # r" "c' = c\<lparr>data := omap_erase k (data c), lru := r\<rparr>"
  shows "lru_ok c' \<and> entries c' = tl (entries c) \<and> k \<notin> set (map snd r)"
proof -
  have d: "distinct (map snd (lru c))" using assms(1) by (simp add: lru_ok_def)
  then have k: "k \<notin> set (map snd r)" using assms(2) by simp
  then have "filter (\<lambda>e. snd e \<noteq> k) (lru c) = r" using assms(2) by (force intro!: filter_True)
  moreover obtain v where "map_of (data c) k = Some (n, v)" using assms(1,2) by (auto simp: lru_ok_def)
  ultimately have "LRUCache_erase k c = (True, c')"
    using assms list_erase_key [OF assms(1)] by (simp add: LRUCache_erase_def)
  from erase_refines [OF assms(1) this] have "lru_ok c'" by simp
  moreover have "entries c' = tl (entries c)"
    using k assms(2) unfolding assms(3) by (force simp: entries_def)
  ultimately show ?thesis using k by simp
qed

lemma push_refines:
  assumes "lru_ok c" "k \<notin> set (map fst (data c))" "length (lru c) < capacity c"
    "c' = c\<lparr>data := omap_assign k (next_node c, v) (data c), lru := lru c @ [(next_node c, k)], next_node := next_node c + 1\<rparr>"
  shows "lru_ok c' \<and> entries c' = entries c @ [(k, v)]"
proof -
  have k: "k \<notin> set (map snd (lru c))" using assms(1,2) by (simp add: lru_ok_def)
  have "n \<noteq> next_node c" if "(n, k') \<in> set (lru c)" for n k' using that assms(1) by (auto simp: lru_ok_def)
  moreover have "(n, k) \<notin> set (lru c)" for n using k by force
  ultimately have "lru_ok c'" using k assms(1,3) unfolding assms(4) by (auto simp: lru_ok_def)
  moreover have "entries c' = entries c @ [(k, v)]" using k unfolding assms(4) by (force simp: entries_def)
  ultimately show ?thesis ..
qed

lemma upsert_refines:
  assumes "lru_ok c"
  shows "\<exists>c'. LRUCache_upsert k v c = Inr c' \<and> lru_ok c' \<and> entries c' = spec_upsert (capacity c) k v (entries c) \<and>
    capacity c' = capacity c"
proof (cases "capacity c = 0")
  case True
  then show ?thesis using assms by (simp add: LRUCache_upsert_def spec_upsert_def)
next
  case False
  obtain b d where d: "LRUCache_erase k c = (b, d)" by fastforce
  note e = erase_refines [OF assms d]
  have len: "length (data d) = length (lru d)" using e lru_ok_length by blast
  have le: "length (spec_erase k (entries c)) = length (lru d)" using e length_entries [of d] by simp
  obtain d' where d': "(if length (data d) \<ge> capacity d
               then case lru d of [] \<Rightarrow> Inl (UndefinedBehaviour ''begin() of an empty list'')
                 | (n, oldest) # r \<Rightarrow> Inr (d\<lparr>data := omap_erase oldest (data d), lru := r\<rparr>)
               else Inr d) = Inr d'" "lru_ok d'" "capacity d' = capacity c" "length (lru d') < capacity c" "k \<notin> set (map fst (data d'))"
    "entries d' = (if length (entries d) \<ge> capacity c then tl (entries d) else entries d)"
  proof (cases "capacity d \<le> length (data d)")
    case True
    then obtain n q r where r: "lru d = (n, q) # r" using len e False by (cases "lru d") auto
    have "length (lru d) \<le> capacity d" using e by (simp add: lru_ok_def)
    with True r len le e retire_refines [OF _ r refl] show ?thesis
      by (intro that [of "d\<lparr>data := omap_erase q (data d), lru := r\<rparr>"]) (auto simp: omap_erase_def)
  next
    case False
    with e len le show ?thesis by (intro that [of d]) auto
  qed
  from push_refines [OF d'(2,5) _ refl, of v] d' d e False show ?thesis
    by (simp add: LRUCache_upsert_def spec_upsert_def omap_emplace_def)
qed

lemma get_refines:
  assumes "lru_ok c"
  shows "fst (LRUCache_get k c) = map_of (entries c) k \<and> lru_ok (snd (LRUCache_get k c)) \<and>
    entries (snd (LRUCache_get k c)) = spec_get k (entries c) \<and> capacity (snd (LRUCache_get k c)) = capacity c"
proof (cases "map_of (data c) k")
  case None
  then show ?thesis using assms by (simp add: LRUCache_get_def spec_get_def find_entry)
next
  case (Some e)
  then obtain n v where nv: "map_of (data c) k = Some (n, v)" by (cases e) auto
  let ?d = "c\<lparr>lru := list_erase n (lru c), data := omap_erase k (data c)\<rparr>"
  have "LRUCache_erase k c = (True, ?d)" using nv by (simp add: LRUCache_erase_def)
  note e = erase_refines [OF assms this]
  have "length (entries ?d) < length (entries c)"
  proof -
    have "map_of (entries c) k = Some v" using nv assms by (simp add: find_entry)
    then have "(k, v) \<in> set (entries c)" by (rule map_of_SomeD)
    then have "length (spec_erase k (entries c)) < length (entries c)"
      unfolding spec_erase_def by (rule length_filter_less) simp
    then show ?thesis using e by (simp only:)
  qed
  then have "length (lru ?d) < capacity ?d" using assms by (simp add: lru_ok_def)
  note p = push_refines [OF _ _ this refl, of k v]
  have "omap_assign k (next_node c, v) (omap_erase k (data c)) = omap_assign k (next_node c, v) (data c)"
    using assms by (auto simp: lru_ok_def intro!: omap_eqI)
  with p e nv assms show ?thesis by (simp add: LRUCache_get_def spec_get_def find_entry)
qed

section \<open>Sequences of operations\<close>

datatype ('k, 'v) lru_op = Upsert 'k 'v | Erase 'k | Get 'k | Clear

fun lru_apply :: "('k::linorder, 'v) lru_op \<Rightarrow> ('k, 'v) LRUCache \<Rightarrow> ('k, 'v) LRUCache result" where
  "lru_apply (Upsert k v) c = LRUCache_upsert k v c"
| "lru_apply (Erase k) c = Inr (snd (LRUCache_erase k c))"
| "lru_apply (Get k) c = Inr (snd (LRUCache_get k c))"
| "lru_apply Clear c = Inr (LRUCache_clear c)"

fun lru_run :: "('k::linorder, 'v) lru_op list \<Rightarrow> ('k, 'v) LRUCache \<Rightarrow> ('k, 'v) LRUCache result" where
  "lru_run [] c = Inr c"
| "lru_run (x # xs) c = rbind (lru_apply x c) (lru_run xs)"

fun spec_apply :: "nat \<Rightarrow> ('k, 'v) lru_op \<Rightarrow> ('k \<times> 'v) list \<Rightarrow> ('k \<times> 'v) list" where
  "spec_apply cap (Upsert k v) es = spec_upsert cap k v es"
| "spec_apply cap (Erase k) es = spec_erase k es"
| "spec_apply cap (Get k) es = spec_get k es"
| "spec_apply cap Clear es = []"

lemma apply_refines:
  assumes "lru_ok c"
  shows "\<exists>c'. lru_apply x c = Inr c' \<and> lru_ok c' \<and> entries c' = spec_apply (capacity c) x (entries c) \<and> capacity c' = capacity c"
proof (cases x)
  case (Upsert k v)
  then show ?thesis using upsert_refines [OF assms] by simp
next
  case (Erase k)
  then show ?thesis using erase_refines [OF assms, of k "fst (LRUCache_erase k c)" "snd (LRUCache_erase k c)"] by simp
next
  case (Get k)
  then show ?thesis using get_refines [OF assms] by simp
next
  case Clear
  then show ?thesis by (simp add: LRUCache_clear_def lru_ok_def entries_def)
qed

lemma run_refines:
  "lru_ok c \<Longrightarrow> \<exists>c'. lru_run xs c = Inr c' \<and> lru_ok c' \<and> entries c' = fold (spec_apply (capacity c)) xs (entries c) \<and> capacity c' = capacity c"
proof (induction xs arbitrary: c)
  case (Cons x xs)
  obtain d where "lru_apply x c = Inr d" "lru_ok d" "entries d = spec_apply (capacity c) x (entries c)" "capacity d = capacity c"
    using apply_refines [OF Cons.prems] by blast
  with Cons.IH [of d] show ?case by simp
qed simp

lemma mkLRUCache_ok [simp]:
  "lru_ok (mkLRUCache cap)" "entries (mkLRUCache cap) = []" "capacity (mkLRUCache cap) = cap"
  by (simp_all add: lru_ok_def mkLRUCache_def entries_def)

text \<open>
  C36: after any sequence of operations on a new cache no assertion has failed and no iterator was
  used after its node was gone; the cache holds at most its capacity of entries; and it is the
  association list in order of use that the specification describes: a lookup finds the value last
  stored under the key unless it was erased or retired, and an insertion into a full cache retires
  the entry that was used least recently.
\<close>

theorem LRUCache_refines:
  "\<exists>c. lru_run ops (mkLRUCache cap) = Inr c \<and> entries c = fold (spec_apply cap) ops [] \<and>
     LRUCache_size c = length (entries c) \<and> LRUCache_size c \<le> cap \<and>
     fst (LRUCache_get k c) = map_of (entries c) k"
proof -
  from run_refines [OF mkLRUCache_ok(1), of ops cap] obtain c where c: "lru_run ops (mkLRUCache cap) = Inr c" "lru_ok c"
    "entries c = fold (spec_apply cap) ops []" "capacity c = cap" by auto
  have "LRUCache_size c = length (entries c)" using lru_ok_length [OF c(2)] by (simp add: LRUCache_size_def)
  moreover have "LRUCache_size c \<le> cap"
    using lru_ok_length [OF c(2)] c(2,4) by (simp add: LRUCache_size_def lru_ok_def)
  ultimately show ?thesis using c get_refines [OF c(2), of k] by blast
qed

end
