(* ===== verification/Zix_Symbols.thy ===== *)
theory Zix_Symbols
  imports Zix_Prelude
begin

text \<open>
  The chunked vector of libutil (chunked-vector.hh) and the symbol table of the evaluator that is
  built on it (symbol-table.hh). Sizes and indices are the 32-bit integers of the code, so the
  increment \<^verbatim>\<open>size_++\<close> could wrap; the guard of \<^verbatim>\<open>addChunk\<close> is shown to prevent that.
  \<open>ChunkSize\<close> is the template argument. The hash map of the symbol table is an association list,
  for the code never iterates over it.
\<close>

section \<open>ChunkedVector\<close>

record 'a ChunkedVector =
  cv_size :: u32
  cv_chunks :: "'a list list"

definition addChunk :: "u64 \<Rightarrow> 'a ChunkedVector \<Rightarrow> 'a ChunkedVector result" where
  "addChunk ChunkSize v =
     rbind (assert_that (\<not> ucast (cv_size v) \<ge> 0xFFFFFFFF - ChunkSize) ''unreachable'') (\<lambda>_.
       Inr (v\<lparr>cv_chunks := cv_chunks v @ [[]]\<rparr>))"

definition mkChunkedVector :: "u64 \<Rightarrow> 'a ChunkedVector result" where
  "mkChunkedVector ChunkSize = addChunk ChunkSize \<lparr>cv_size = 0, cv_chunks = []\<rparr>"

definition ChunkedVector_add :: "u64 \<Rightarrow> 'a \<Rightarrow> 'a ChunkedVector \<Rightarrow> (u32 \<times> 'a ChunkedVector) result" where
  "ChunkedVector_add ChunkSize value v =
     (let idx = cv_size v; v = v\<lparr>cv_size := cv_size v + 1\<rparr> in
      rbind (if cv_chunks v = [] then Inl (UndefinedBehaviour ''back() of an empty vector'')
             else if length (last (cv_chunks v)) < unat ChunkSize then Inr v
             else addChunk ChunkSize v) (\<lambda>v.
        Inr (idx, v\<lparr>cv_chunks := butlast (cv_chunks v) @ [last (cv_chunks v) @ [value]]\<rparr>)))"

definition ChunkedVector_at :: "u64 \<Rightarrow> 'a ChunkedVector \<Rightarrow> u32 \<Rightarrow> 'a result" where
  "ChunkedVector_at ChunkSize v idx =
     (let i = unat idx div unat ChunkSize; j = unat idx mod unat ChunkSize in
      if i < length (cv_chunks v) \<and> j < length (cv_chunks v ! i) then Inr (cv_chunks v ! i ! j)
      else Inl (UndefinedBehaviour ''index out of range''))"

definition ChunkedVector_forEach :: "('a \<Rightarrow> 's \<Rightarrow> 's) \<Rightarrow> 'a ChunkedVector \<Rightarrow> 's \<Rightarrow> 's" where
  "ChunkedVector_forEach fn v s = fold (\<lambda>c. fold fn c) (cv_chunks v) s"

text \<open>The elements in order, and the shape that every operation keeps.\<close>

definition cv_list :: "'a ChunkedVector \<Rightarrow> 'a list" where
  "cv_list v = concat (cv_chunks v)"

definition cv_ok :: "u64 \<Rightarrow> 'a ChunkedVector \<Rightarrow> bool" where
  "cv_ok ChunkSize v \<longleftrightarrow> cv_chunks v \<noteq> [] \<and>
     (\<forall>c \<in> set (butlast (cv_chunks v)). length c = unat ChunkSize) \<and> length (last (cv_chunks v)) \<le> unat ChunkSize \<and>
     unat (cv_size v) = length (cv_list v) \<and> unat ChunkSize * length (cv_chunks v) < 2 ^ 32 - 1"

definition chunk_ok :: "u64 \<Rightarrow> bool" where
  "chunk_ok ChunkSize \<longleftrightarrow> 0 < ChunkSize \<and> ChunkSize < 0xFFFFFFFF"

lemma unat_upcast: "unat (ucast (s :: u32) :: u64) = unat s"
  by transfer (simp add: take_bit_eq_mod)

lemma guard_iff:
  assumes "chunk_ok ChunkSize"
  shows "ucast (s :: u32) \<ge> 0xFFFFFFFF - ChunkSize \<longleftrightarrow> 2 ^ 32 - 1 \<le> unat s + unat ChunkSize"
proof -
  have "unat (0xFFFFFFFF - ChunkSize) = 0xFFFFFFFF - unat ChunkSize"
    using unat_sub [OF less_imp_le, of ChunkSize "0xFFFFFFFF"] assms by (simp add: chunk_ok_def)
  moreover have "unat ChunkSize < 0xFFFFFFFF" using assms by (simp add: chunk_ok_def word_less_nat_alt)
  ultimately show ?thesis by (simp add: word_le_nat_alt unat_upcast le_diff_conv)
qed

lemma length_full: "\<forall>c \<in> set cs. length c = n \<Longrightarrow> length (concat cs) = n * length cs"
  by (induction cs) auto

lemma nth_concat_full:
  "\<forall>c \<in> set (butlast cs). length c = n \<Longrightarrow> cs \<noteq> [] \<Longrightarrow> length (last cs) \<le> n \<Longrightarrow> 0 < n \<Longrightarrow> i < length (concat cs) \<Longrightarrow>
    i div n < length cs \<and> i mod n < length (cs ! (i div n)) \<and> concat cs ! i = cs ! (i div n) ! (i mod n)"
proof (induction cs arbitrary: i)
  case (Cons c cs)
  show ?case
  proof (cases "cs = []")
    case True
    then show ?thesis using Cons.prems by (cases "i = n") auto
  next
    case False
    then have c: "length c = n" using Cons.prems(1) by simp
    show ?thesis
    proof (cases "i < n")
      case True
      then show ?thesis using c by (simp add: nth_append)
    next
      case F: False
      then have "i - n < length (concat cs)" using c Cons.prems(5) by simp
      with Cons.IH [of "i - n"] Cons.prems False
      have "(i - n) div n < length cs \<and> (i - n) mod n < length (cs ! ((i - n) div n)) \<and>
          concat cs ! (i - n) = cs ! ((i - n) div n) ! ((i - n) mod n)" by simp
      then show ?thesis using c F Cons.prems(4) by (simp add: nth_append le_div_geq le_mod_geq)
    qed
  qed
qed simp

lemma cv_ok_new: "chunk_ok ChunkSize \<Longrightarrow> \<exists>v. mkChunkedVector ChunkSize = Inr v \<and> cv_ok ChunkSize v \<and> cv_list v = []"
  using guard_iff [of ChunkSize 0]
  by (auto simp: mkChunkedVector_def addChunk_def cv_ok_def cv_list_def assert_that_def chunk_ok_def word_less_nat_alt not_le)

lemma cv_length:
  assumes "cv_ok ChunkSize v"
  shows "length (cv_list v) = unat ChunkSize * (length (cv_chunks v) - 1) + length (last (cv_chunks v))"
    "length (cv_list v) < 2 ^ 32 - 1"
proof -
  have cs: "cv_chunks v = butlast (cv_chunks v) @ [last (cv_chunks v)]" using assms by (simp add: cv_ok_def)
  have "length (cv_list v) = length (concat (butlast (cv_chunks v))) + length (last (cv_chunks v))"
    unfolding cv_list_def by (subst cs) simp
  also have "length (concat (butlast (cv_chunks v))) = unat ChunkSize * (length (cv_chunks v) - 1)"
    using assms length_full [of "butlast (cv_chunks v)"] by (simp add: cv_ok_def)
  finally show eq: "length (cv_list v) = unat ChunkSize * (length (cv_chunks v) - 1) + length (last (cv_chunks v))" .
  have "\<dots> \<le> unat ChunkSize * (length (cv_chunks v) - 1) + unat ChunkSize" using assms by (simp add: cv_ok_def)
  also have "\<dots> = unat ChunkSize * length (cv_chunks v)" using assms by (cases "cv_chunks v") (auto simp: cv_ok_def)
  also have "\<dots> < 2 ^ 32 - 1" using assms by (simp add: cv_ok_def)
  finally show "length (cv_list v) < 2 ^ 32 - 1" unfolding eq .
qed

lemma size_suc: "unat (s :: u32) < 2 ^ 32 - 1 \<Longrightarrow> unat (s + 1) = unat s + 1"
  by (simp add: unat_word_ariths)

text \<open>Adding either appends one element or stops the process, and it cannot stop while a chunk fits.\<close>

lemma cv_add:
  assumes "chunk_ok ChunkSize" "cv_ok ChunkSize v"
  shows "(\<exists>v'. ChunkedVector_add ChunkSize x v = Inr (cv_size v, v') \<and> cv_ok ChunkSize v' \<and> cv_list v' = cv_list v @ [x]) \<or>
    ChunkedVector_add ChunkSize x v = Inl (AssertionFailed ''unreachable'') \<and>
      2 ^ 32 - 1 \<le> length (cv_list v) + 1 + unat ChunkSize"
proof -
  have ne: "cv_chunks v \<noteq> []" and sz: "unat (cv_size v) = length (cv_list v)" using assms(2) by (simp_all add: cv_ok_def)
  have suc: "unat (cv_size v + 1) = length (cv_list v) + 1" using size_suc [of "cv_size v"] cv_length(2) [OF assms(2)] sz by simp
  have cs: "cv_chunks v = butlast (cv_chunks v) @ [last (cv_chunks v)]" using ne by simp
  have list: "cv_list v = concat (butlast (cv_chunks v)) @ last (cv_chunks v)" unfolding cv_list_def by (subst cs) simp
  consider (room) "length (last (cv_chunks v)) < unat ChunkSize"
    | (full) "length (last (cv_chunks v)) = unat ChunkSize" "length (cv_list v) + 1 + unat ChunkSize < 2 ^ 32 - 1"
    | (stop) "length (last (cv_chunks v)) = unat ChunkSize" "2 ^ 32 - 1 \<le> length (cv_list v) + 1 + unat ChunkSize"
    using assms(2) by (auto simp: cv_ok_def) linarith
  then show ?thesis
  proof cases
    case room
    with assms(2) ne suc list show ?thesis
      by (auto simp: ChunkedVector_add_def cv_ok_def cv_list_def)
  next
    case full
    have "\<not> ucast (cv_size v + 1) \<ge> 0xFFFFFFFF - ChunkSize" using guard_iff [OF assms(1)] suc full by simp
    moreover have "unat ChunkSize * (length (cv_chunks v) + 1) < 2 ^ 32 - 1"
      using cv_length(1) [OF assms(2)] full ne by (cases "cv_chunks v") (simp_all add: algebra_simps)
    moreover have "\<forall>c \<in> set (cv_chunks v). length c = unat ChunkSize"
    proof -
      have "set (cv_chunks v) = insert (last (cv_chunks v)) (set (butlast (cv_chunks v)))" by (subst cs) simp
      then show ?thesis using assms(2) full(1) by (simp add: cv_ok_def)
    qed
    moreover have "0 < unat ChunkSize" using assms(1) by (simp add: chunk_ok_def word_less_nat_alt)
    ultimately show ?thesis using ne suc full(1) by (auto simp: ChunkedVector_add_def addChunk_def cv_ok_def cv_list_def assert_that_def)
  next
    case stop
    then show ?thesis using guard_iff [OF assms(1)] suc ne by (simp add: ChunkedVector_add_def addChunk_def assert_that_def)
  qed
qed

lemma cv_at:
  assumes "chunk_ok ChunkSize" "cv_ok ChunkSize v" "unat i < length (cv_list v)"
  shows "ChunkedVector_at ChunkSize v i = Inr (cv_list v ! unat i)"
proof -
  have "0 < unat ChunkSize" using assms(1) by (simp add: chunk_ok_def word_less_nat_alt)
  with nth_concat_full [of "cv_chunks v" "unat ChunkSize" "unat i"] assms(2,3) show ?thesis
    by (simp add: ChunkedVector_at_def cv_ok_def cv_list_def)
qed

lemma cv_forEach: "ChunkedVector_forEach fn v s = fold fn (cv_list v) s"
proof -
  have "fold (\<lambda>c. fold fn c) cs s = fold fn (concat cs) s" for cs by (induction cs arbitrary: s) simp_all
  then show ?thesis by (simp add: ChunkedVector_forEach_def cv_list_def)
qed

section \<open>SymbolTable\<close>

text \<open>A \<^verbatim>\<open>Symbol\<close> is its 32-bit id; 0 is the symbol that is not set.\<close>

record SymbolTable =
  st_symbols :: "(string \<times> u32) list"
  st_store :: "string ChunkedVector"

definition symbol_chunk :: u64 where
  "symbol_chunk = 8192"

definition mkSymbolTable :: "SymbolTable result" where
  "mkSymbolTable = rbind (mkChunkedVector symbol_chunk) (\<lambda>v. Inr \<lparr>st_symbols = [], st_store = v\<rparr>)"

definition SymbolTable_create :: "string \<Rightarrow> SymbolTable \<Rightarrow> (u32 \<times> SymbolTable) result" where
  "SymbolTable_create s t =
     (case map_of (st_symbols t) s of
        Some idx \<Rightarrow> Inr (idx + 1, t)
      | None \<Rightarrow>
          rbind (ChunkedVector_add symbol_chunk s (st_store t)) (\<lambda>(idx, v).
            Inr (idx + 1, t\<lparr>st_store := v, st_symbols := (s, idx) # st_symbols t\<rparr>)))"

definition SymbolTable_at :: "SymbolTable \<Rightarrow> u32 \<Rightarrow> string result" where
  "SymbolTable_at t s =
     (if s = 0 \<or> s > cv_size (st_store t) then Inl (AssertionFailed ''unreachable'')
      else ChunkedVector_at symbol_chunk (st_store t) (s - 1))"

definition SymbolTable_resolve :: "SymbolTable \<Rightarrow> u32 list \<Rightarrow> string list result" where
  "SymbolTable_resolve t symbols = rmap (SymbolTable_at t) symbols"

definition SymbolTable_size :: "SymbolTable \<Rightarrow> u32" where
  "SymbolTable_size t = cv_size (st_store t)"

definition SymbolTable_totalSize :: "SymbolTable \<Rightarrow> nat" where
  "SymbolTable_totalSize t = ChunkedVector_forEach (\<lambda>s n. n + length s) (st_store t) 0"

text \<open>Entering a list of strings, one after the other.\<close>

fun create_all :: "string list \<Rightarrow> SymbolTable \<Rightarrow> (u32 list \<times> SymbolTable) result" where
  "create_all [] t = Inr ([], t)"
| "create_all (s # ss) t =
     rbind (SymbolTable_create s t) (\<lambda>(sy, t).
     rbind (create_all ss t) (\<lambda>(syms, t). Inr (sy # syms, t)))"

abbreviation names :: "SymbolTable \<Rightarrow> string list" where
  "names t \<equiv> cv_list (st_store t)"

definition sym_ok :: "SymbolTable \<Rightarrow> bool" where
  "sym_ok t \<longleftrightarrow> cv_ok symbol_chunk (st_store t) \<and> distinct (names t) \<and>
     (\<forall>s idx. map_of (st_symbols t) s = Some idx \<longleftrightarrow> unat idx < length (names t) \<and> names t ! unat idx = s)"

lemma symbol_chunk_ok: "chunk_ok symbol_chunk"
  by (simp add: chunk_ok_def symbol_chunk_def)

lemma sym_new: "sym_ok t \<Longrightarrow> map_of (st_symbols t) s = None \<longleftrightarrow> s \<notin> set (names t)"
proof -
  assume ok: "sym_ok t"
  have "(\<exists>i :: u32. unat i < length (names t) \<and> names t ! unat i = s) \<longleftrightarrow> s \<in> set (names t)"
  proof
    assume "s \<in> set (names t)"
    then obtain k where k: "k < length (names t)" "names t ! k = s" by (auto simp: in_set_conv_nth)
    moreover have "length (names t) < 2 ^ 32 - 1" using ok cv_length(2) [of symbol_chunk "st_store t"] by (simp add: sym_ok_def)
    ultimately have "unat (word_of_nat k :: u32) = k" by (simp add: unat_of_nat take_bit_eq_mod)
    with k show "\<exists>i :: u32. unat i < length (names t) \<and> names t ! unat i = s" by metis
  qed auto
  moreover have "(\<exists>i. map_of (st_symbols t) s = Some i) \<longleftrightarrow> (\<exists>i :: u32. unat i < length (names t) \<and> names t ! unat i = s)"
    using ok by (simp add: sym_ok_def)
  ultimately show ?thesis by (metis option.distinct(1) not_None_eq)
qed

text \<open>The symbol of a string is one more than its index in the table.\<close>

definition is_symbol :: "SymbolTable \<Rightarrow> u32 \<Rightarrow> string \<Rightarrow> bool" where
  "is_symbol t sy s \<longleftrightarrow> (\<exists>k < length (names t). names t ! k = s \<and> unat sy = k + 1)"

lemma sym_create:
  assumes "sym_ok t"
  shows "(\<exists>sy t'. SymbolTable_create s t = Inr (sy, t') \<and> sym_ok t' \<and> is_symbol t' sy s \<and> prefix (names t) (names t') \<and>
      length (names t') \<le> length (names t) + 1) \<or>
    SymbolTable_create s t = Inl (AssertionFailed ''unreachable'') \<and> 2 ^ 32 - 1 \<le> length (names t) + 1 + 8192"
proof (cases "map_of (st_symbols t) s")
  case (Some idx)
  have "length (names t) < 2 ^ 32 - 1" using assms cv_length(2) [of symbol_chunk "st_store t"] by (simp add: sym_ok_def)
  moreover have "unat idx < length (names t)" "names t ! unat idx = s" using assms Some by (auto simp: sym_ok_def)
  ultimately have "is_symbol t (idx + 1) s" using size_suc [of idx] by (auto simp: is_symbol_def)
  moreover have "SymbolTable_create s t = Inr (idx + 1, t)" using Some by (simp add: SymbolTable_create_def)
  ultimately show ?thesis using assms by auto
next
  case None
  have ok: "cv_ok symbol_chunk (st_store t)" "distinct (names t)" using assms by (simp_all add: sym_ok_def)
  have sz: "unat (cv_size (st_store t)) = length (names t)" "length (names t) < 2 ^ 32 - 1"
    using ok(1) cv_length(2) [of symbol_chunk "st_store t"] by (simp_all add: cv_ok_def)
  have new: "s \<notin> set (names t)" using None assms sym_new by blast
  from cv_add [OF symbol_chunk_ok ok(1), of s] show ?thesis
  proof (elim disjE exE conjE)
    fix v
    assume v: "ChunkedVector_add symbol_chunk s (st_store t) = Inr (cv_size (st_store t), v)" "cv_ok symbol_chunk v" "cv_list v = names t @ [s]"
    let ?t = "t\<lparr>st_store := v, st_symbols := (s, cv_size (st_store t)) # st_symbols t\<rparr>"
    have idx: "unat i = length (names t) \<longleftrightarrow> i = cv_size (st_store t)" for i :: u32
      using sz(1) by (metis word_unat_eq_iff)
    have "map_of (st_symbols ?t) s' = Some i \<longleftrightarrow> unat i < length (cv_list v) \<and> cv_list v ! unat i = s'" for s' i
    proof (cases "s' = s")
      case True
      then show ?thesis using v(3) new idx by (auto simp: nth_append less_Suc_eq sz(1))
    next
      case False
      then show ?thesis using v(3) assms by (auto simp: sym_ok_def nth_append less_Suc_eq)
    qed
    then have "sym_ok ?t" using v ok(2) new by (simp add: sym_ok_def)
    moreover have "is_symbol ?t (cv_size (st_store t) + 1) s"
      using v(3) sz size_suc [of "cv_size (st_store t)"] by (auto simp: is_symbol_def intro!: exI [of _ "length (names t)"])
    ultimately show ?thesis using None v by (simp add: SymbolTable_create_def)
  next
    assume "ChunkedVector_add symbol_chunk s (st_store t) = Inl (AssertionFailed ''unreachable'')"
      "2 ^ 32 - 1 \<le> length (names t) + 1 + unat symbol_chunk"
    then show ?thesis using None by (simp add: SymbolTable_create_def symbol_chunk_def)
  qed
qed

lemma is_symbol_later: "is_symbol t sy s \<Longrightarrow> prefix (names t) (names t') \<Longrightarrow> is_symbol t' sy s"
  by (auto simp: is_symbol_def prefix_def nth_append intro: trans_less_add1)

lemma sym_at: "sym_ok t \<Longrightarrow> is_symbol t sy s \<Longrightarrow> SymbolTable_at t sy = Inr s"
proof -
  assume t: "sym_ok t" "is_symbol t sy s"
  then obtain k where k: "k < length (names t)" "names t ! k = s" "unat sy = k + 1" by (auto simp: is_symbol_def)
  then have "sy \<noteq> 0" by auto
  then have "unat (sy - 1) = k" using k(3) by (simp add: unat_minus_one)
  moreover have "\<not> cv_size (st_store t) < sy" using t(1) k by (simp add: sym_ok_def cv_ok_def word_less_nat_alt)
  ultimately show ?thesis
    using cv_at [OF symbol_chunk_ok, of "st_store t" "sy - 1"] t(1) k \<open>sy \<noteq> 0\<close> by (simp add: SymbolTable_at_def sym_ok_def)
qed

lemma is_symbol_inject:
  "sym_ok t \<Longrightarrow> is_symbol t x s \<Longrightarrow> is_symbol t y u \<Longrightarrow> x = y \<longleftrightarrow> s = u"
  by (auto simp: is_symbol_def sym_ok_def word_unat_eq_iff nth_eq_iff_index_eq)

lemma create_all_ok:
  assumes "sym_ok t" "create_all ss t = Inr (syms, t')"
  shows "sym_ok t' \<and> prefix (names t) (names t') \<and> list_all2 (is_symbol t') syms ss"
  using assms
proof (induction ss arbitrary: t syms)
  case (Cons s ss)
  then obtain x t1 xs where step: "SymbolTable_create s t = Inr (x, t1)" "create_all ss t1 = Inr (xs, t')" "syms = x # xs"
    by (auto simp: result_simps)
  from sym_create [OF Cons.prems(1), of s] step(1)
  have t1: "sym_ok t1" "is_symbol t1 x s" "prefix (names t) (names t1)" by auto
  with Cons.IH [OF t1(1) step(2)] step(3) is_symbol_later show ?case by (auto intro: prefix_order.trans)
qed simp

lemma create_all_total:
  "sym_ok t \<Longrightarrow> length (names t) + length ss + 8192 < 2 ^ 32 - 1 \<Longrightarrow> \<exists>r. create_all ss t = Inr r"
proof (induction ss arbitrary: t)
  case (Cons s ss)
  from sym_create [OF Cons.prems(1), of s] Cons.prems(2)
  obtain x t1 where t1: "SymbolTable_create s t = Inr (x, t1)" "sym_ok t1" "length (names t1) \<le> length (names t) + 1" by auto
  with Cons.IH [of t1] Cons.prems(2) obtain r where "create_all ss t1 = Inr r" by auto
  with t1(1) show ?case by (cases r) simp
qed simp

text \<open>
  C31: the symbol table interns strings: after any number of insertions every symbol that was handed
  out still resolves to the string it was made for, and two symbols are equal exactly when their
  strings are equal. No 32-bit index wraps around: the table stops the process instead, and it does
  not stop for any number of strings below \<^verbatim>\<open>2^32 - 8193\<close>.
\<close>

theorem SymbolTable_interns:
  "(\<forall>syms t. rbind mkSymbolTable (create_all ss) = Inr (syms, t) \<longrightarrow>
     SymbolTable_resolve t syms = Inr ss \<and> length syms = length ss \<and>
     (\<forall>i < length ss. \<forall>j < length ss. syms ! i = syms ! j \<longleftrightarrow> ss ! i = ss ! j)) \<and>
   (length ss + 8192 < 2 ^ 32 - 1 \<longrightarrow> (\<exists>syms t. rbind mkSymbolTable (create_all ss) = Inr (syms, t)))"
proof -
  obtain v :: "string ChunkedVector" where v: "mkChunkedVector symbol_chunk = Inr v" "cv_ok symbol_chunk v" "cv_list v = []"
    using cv_ok_new [OF symbol_chunk_ok] by blast
  let ?t = "\<lparr>st_symbols = [], st_store = v\<rparr>"
  have new: "mkSymbolTable = Inr ?t" "sym_ok ?t" using v by (simp_all add: mkSymbolTable_def sym_ok_def)
  have "SymbolTable_resolve t syms = Inr ss \<and> length syms = length ss \<and>
      (\<forall>i < length ss. \<forall>j < length ss. syms ! i = syms ! j \<longleftrightarrow> ss ! i = ss ! j)"
    if "create_all ss ?t = Inr (syms, t)" for syms t
  proof -
    from create_all_ok [OF new(2) that] have ok: "sym_ok t" "list_all2 (is_symbol t) syms ss" by simp_all
    have "rmap (SymbolTable_at t) syms = Inr ss"
      using ok(2) by (induction rule: list_all2_induct) (simp_all add: sym_at [OF ok(1)])
    moreover have "syms ! i = syms ! j \<longleftrightarrow> ss ! i = ss ! j" if "i < length ss" "j < length ss" for i j
      using ok(2) that by (intro is_symbol_inject [OF ok(1)]) (auto simp: list_all2_conv_all_nth)
    ultimately show ?thesis using ok(2) by (auto simp: SymbolTable_resolve_def list_all2_lengthD)
  qed
  moreover have "rbind mkSymbolTable (create_all ss) = create_all ss ?t" by (simp add: new(1))
  moreover have "\<exists>syms t. create_all ss ?t = Inr (syms, t)" if "length ss + 8192 < 2 ^ 32 - 1"
    using create_all_total [OF new(2), of ss] v(3) that by auto
  ultimately show ?thesis by metis
qed

theorem SymbolTable_interns_witness:
  "\<exists>syms t. rbind mkSymbolTable (create_all [''a'', ''b'', ''a'']) = Inr (syms, t) \<and> syms ! 0 = syms ! 2 \<and> syms ! 0 \<noteq> syms ! 1 \<and>
     SymbolTable_resolve t syms = Inr [''a'', ''b'', ''a'']"
proof -
  obtain syms t where r: "rbind mkSymbolTable (create_all [''a'', ''b'', ''a'']) = Inr (syms, t)"
    using SymbolTable_interns [of "[''a'', ''b'', ''a'']"] by auto
  with SymbolTable_interns [of "[''a'', ''b'', ''a'']"]
  have "SymbolTable_resolve t syms = Inr [''a'', ''b'', ''a''] \<and>
    (\<forall>i < 3. \<forall>j < 3. syms ! i = syms ! j \<longleftrightarrow> [''a'', ''b'', ''a''] ! i = [''a'', ''b'', ''a''] ! j)"
    by (simp add: numeral_3_eq_3)
  with r show ?thesis by force
qed

end
