(* ===== verification/Zix_Checked.thy ===== *)
theory Zix_Checked
  imports Zix_Prelude "HOL-Library.Signed_Division"
begin

text \<open>
  Checked arithmetic (checked-arithmetic.hh) on signed integers of any width; the integers of the
  Nix language are \<^verbatim>\<open>Checked<int64_t>\<close>. The built-ins \<^verbatim>\<open>__builtin_add_overflow\<close> and the like
  compute in two's complement and report whether that differs from the exact result; \<^verbatim>\<open>/\<close>
  truncates towards zero.
\<close>

datatype OverflowKind = NoOverflow | Overflow | DivByZero

record 'v Checked_Result =
  cr_value :: 'v
  cr_overflowed :: OverflowKind

definition mkResult :: "'a::len word \<Rightarrow> bool \<Rightarrow> 'a word Checked_Result" where
  "mkResult v overflowed = \<lparr>cr_value = v, cr_overflowed = (if overflowed then Overflow else NoOverflow)\<rparr>"

definition valueChecked :: "'a::len word Checked_Result \<Rightarrow> 'a word option" where
  "valueChecked r = (if cr_overflowed r \<noteq> NoOverflow then None else Some (cr_value r))"

definition valueWrapping :: "'a::len word Checked_Result \<Rightarrow> 'a word result" where
  "valueWrapping r =
     (if cr_overflowed r = DivByZero then Inl (StdException ''DivideByZero'') else Inr (cr_value r))"

definition overflowed :: "'a::len word Checked_Result \<Rightarrow> bool" where
  "overflowed r = (cr_overflowed r = Overflow)"

definition divideByZero :: "'a::len word Checked_Result \<Rightarrow> bool" where
  "divideByZero r = (cr_overflowed r = DivByZero)"

definition checked_add :: "'a::len word \<Rightarrow> 'a word \<Rightarrow> 'a word Checked_Result" where
  "checked_add a b = mkResult (a + b) (sint (a + b) \<noteq> sint a + sint b)"

definition checked_sub :: "'a::len word \<Rightarrow> 'a word \<Rightarrow> 'a word Checked_Result" where
  "checked_sub a b = mkResult (a - b) (sint (a - b) \<noteq> sint a - sint b)"

definition checked_mul :: "'a::len word \<Rightarrow> 'a word \<Rightarrow> 'a word Checked_Result" where
  "checked_mul a b = mkResult (a * b) (sint (a * b) \<noteq> sint a * sint b)"

definition minV :: "'a::len word" where
  "minV = word_of_int (- (2 ^ (LENGTH('a) - 1)))"

definition checked_div :: "'a::len word \<Rightarrow> 'a word \<Rightarrow> 'a word Checked_Result" where
  "checked_div a b =
     (if a = minV \<and> b = - 1 then mkResult minV True
      else if b = 0 then \<lparr>cr_value = 0, cr_overflowed = DivByZero\<rparr>
      else mkResult (word_of_int (sint a sdiv sint b)) False)"

section \<open>The results are exact\<close>

definition fits :: "'a::len itself \<Rightarrow> int \<Rightarrow> bool" where
  "fits t i \<longleftrightarrow> - (2 ^ (LENGTH('a) - 1)) \<le> i \<and> i < 2 ^ (LENGTH('a) - 1)"

lemma fits_sint: "fits TYPE('a) (sint (w :: 'a::len word))"
  using sint_greater_eq [of w] sint_less [of w] by (simp add: fits_def)

lemma sint_of_int: "fits TYPE('a) i \<Longrightarrow> sint (word_of_int i :: 'a::len word) = i"
  unfolding fits_def sint_sbintrunc' by (cases "LENGTH('a)") (auto intro!: signed_take_bit_int_eq_self)

lemma exact_iff: "sint (word_of_int i :: 'a::len word) = i \<longleftrightarrow> fits TYPE('a) i"
  using fits_sint [of "word_of_int i :: 'a word"] sint_of_int [of i] by metis

lemma checked_exact:
  "w = word_of_int i \<Longrightarrow> valueChecked (mkResult w (sint w \<noteq> i)) = (if fits TYPE('a::len) i then Some (word_of_int i :: 'a word) else None)"
  by (simp add: valueChecked_def mkResult_def exact_iff)

lemma word_of_sints:
  "(a :: 'a::len word) + b = word_of_int (sint a + sint b)" "a - b = word_of_int (sint a - sint b)" "a * b = word_of_int (sint a * sint b)"
  by simp_all

lemma sint_minV: "sint (minV :: 'a::len word) = - (2 ^ (LENGTH('a) - 1))"
  unfolding minV_def by (rule sint_of_int) (simp add: fits_def)

lemma sdiv_bound:
  assumes "fits TYPE('a::len) a" "b \<noteq> 0" "\<not> (a = - (2 ^ (LENGTH('a) - 1)) \<and> b = - 1)"
  shows "fits TYPE('a) (a sdiv b)"
proof -
  let ?m = "2 ^ (LENGTH('a) - 1) :: int"
  have abs: "\<bar>a sdiv b\<bar> = \<bar>a\<bar> div \<bar>b\<bar>" using assms(2)
    by (cases "a = 0") (simp_all add: signed_divide_int_def abs_mult abs_sgn_eq pos_imp_zdiv_nonneg_iff)
  have le: "\<bar>a\<bar> \<le> ?m" using assms(1) by (auto simp: fits_def)
  show ?thesis
  proof (cases "\<bar>a sdiv b\<bar> < ?m")
    case True
    then show ?thesis by (auto simp: fits_def)
  next
    case False
    have "\<bar>a\<bar> div \<bar>b\<bar> \<le> \<bar>a\<bar>" using zdiv_mono2 [of "\<bar>a\<bar>" 1 "\<bar>b\<bar>"] assms(2) by simp
    with False abs le have eq: "\<bar>a\<bar> = ?m" "\<bar>a\<bar> div \<bar>b\<bar> = \<bar>a\<bar>" by linarith+
    then have b: "\<bar>b\<bar> = 1" using assms(2) int_div_less_self [of "\<bar>a\<bar>" "\<bar>b\<bar>"]
      by (cases "1 < \<bar>b\<bar>") auto
    with eq assms show ?thesis by (auto simp: fits_def signed_divide_int_def)
  qed
qed

text \<open>
  C32: checked arithmetic is exact: each operation yields a value precisely when the mathematical
  result is representable (for a division, when the divisor is not zero and the quotient fits), and
  the value is then that result; a division by zero and an overflow are told apart.
\<close>

theorem Checked_exact:
  fixes a b :: "'a::len word"
  shows "map_option sint (valueChecked (checked_add a b)) = (if fits TYPE('a) (sint a + sint b) then Some (sint a + sint b) else None) \<and>
    map_option sint (valueChecked (checked_sub a b)) = (if fits TYPE('a) (sint a - sint b) then Some (sint a - sint b) else None) \<and>
    map_option sint (valueChecked (checked_mul a b)) = (if fits TYPE('a) (sint a * sint b) then Some (sint a * sint b) else None) \<and>
    map_option sint (valueChecked (checked_div a b)) =
      (if b \<noteq> 0 \<and> fits TYPE('a) (sint a sdiv sint b) then Some (sint a sdiv sint b) else None) \<and>
    divideByZero (checked_div a b) = (b = 0) \<and> overflowed (checked_div a b) = (b \<noteq> 0 \<and> \<not> fits TYPE('a) (sint a sdiv sint b))"
proof -
  have quot: "sint (word_of_int (sint a sdiv sint b) :: 'a word) = sint a sdiv sint b \<and> fits TYPE('a) (sint a sdiv sint b)"
    if "b \<noteq> 0" "\<not> (a = minV \<and> b = - 1)"
  proof -
    have "sint b = - 1 \<longleftrightarrow> b = - 1" using signed_word_eqI [of b "- 1"] by auto
    moreover have "sint a = - (2 ^ (LENGTH('a) - 1)) \<longleftrightarrow> a = minV"
      using sint_minV [where 'a = 'a] by (metis signed_word_eqI)
    ultimately have "fits TYPE('a) (sint a sdiv sint b)"
      using that by (intro sdiv_bound [OF fits_sint]) (auto simp: signed_eq_0_iff)
    then show ?thesis by (simp add: sint_of_int)
  qed
  have over: "b \<noteq> 0 \<and> \<not> fits TYPE('a) (sint a sdiv sint b)" if "a = minV" "b = - 1"
    using that by (simp add: sint_minV fits_def signed_divide_int_def)
  show ?thesis
  proof (intro conjI)
    show "map_option sint (valueChecked (checked_add a b)) = (if fits TYPE('a) (sint a + sint b) then Some (sint a + sint b) else None)"
      using checked_exact [OF word_of_sints(1), of a b] by (simp add: checked_add_def sint_of_int del: of_int_add)
    show "map_option sint (valueChecked (checked_sub a b)) = (if fits TYPE('a) (sint a - sint b) then Some (sint a - sint b) else None)"
      using checked_exact [OF word_of_sints(2), of a b] by (simp add: checked_sub_def sint_of_int del: of_int_diff)
    show "map_option sint (valueChecked (checked_mul a b)) = (if fits TYPE('a) (sint a * sint b) then Some (sint a * sint b) else None)"
      using checked_exact [OF word_of_sints(3), of a b] by (simp add: checked_mul_def sint_of_int del: of_int_mult)
    show "map_option sint (valueChecked (checked_div a b)) =
        (if b \<noteq> 0 \<and> fits TYPE('a) (sint a sdiv sint b) then Some (sint a sdiv sint b) else None)"
      using quot over by (auto simp: checked_div_def valueChecked_def mkResult_def)
    show "divideByZero (checked_div a b) = (b = 0)"
      by (auto simp: checked_div_def divideByZero_def mkResult_def)
    show "overflowed (checked_div a b) = (b \<noteq> 0 \<and> \<not> fits TYPE('a) (sint a sdiv sint b))"
      using quot over by (auto simp: checked_div_def overflowed_def mkResult_def)
  qed
qed

end
