(* ===== verification/Zix_Positions.thy ===== *)
theory Zix_Positions
  imports Zix_Prelude
begin

text \<open>
  Source positions of the evaluator: the position table (pos-table.hh), which packs a file and an
  offset into one 32-bit number, and the computation of line and column (\<^verbatim>\<open>PosTable::operator[]\<close>
  in nixexpr.cc, \<^verbatim>\<open>Pos::LinesIterator\<close> in position.cc). All arithmetic is done at the widths of the
  code: \<^verbatim>\<open>uint32_t\<close> offsets, \<^verbatim>\<open>size_t\<close> sizes.

  \<open>readFile\<close> is the contents of a \<^verbatim>\<open>SourcePath\<close>, \<open>None\<close> when reading it raises an Error. The
  table of line starts in \<^verbatim>\<open>PosTable::lines\<close> is not part of the state: \<^verbatim>\<open>operator[]\<close> fills a copy
  of its entry, so every lookup finds it empty.
\<close>

section \<open>The position table\<close>

datatype 'p Pos_Origin = NoOrigin | Stdin string | String string | Path 'p

record 'p Origin =
  o_offset :: u32
  o_origin :: "'p Pos_Origin"
  o_size :: u64

type_synonym 'p PosTable = "(u32, 'p Origin) omap"

definition offsetOf :: "'p Origin \<Rightarrow> u32 \<Rightarrow> u32" where
  "offsetOf o' p = p - 1 - o_offset o'"

definition addOrigin :: "'p Pos_Origin \<Rightarrow> u64 \<Rightarrow> 'p PosTable \<Rightarrow> 'p Origin \<times> 'p PosTable" where
  "addOrigin orig sz origins =
     (let offset = (if origins = [] then 0 else ucast (ucast (fst (last origins)) + o_size (snd (last origins)))) in
      if ucast (2 + offset) + sz < ucast offset then (\<lparr>o_offset = offset, o_origin = orig, o_size = 0\<rparr>, origins)
      else let origins = omap_emplace offset \<lparr>o_offset = offset, o_origin = orig, o_size = sz\<rparr> origins in
        (the (map_of origins offset), origins))"

definition PosTable_add :: "'p Origin \<Rightarrow> u64 \<Rightarrow> u32" where
  "PosTable_add orig offset = (if offset > o_size orig then 0 else ucast (ucast (1 + o_offset orig) + offset))"

definition PosTable_resolve :: "'p PosTable \<Rightarrow> u32 \<Rightarrow> 'p Origin option result" where
  "PosTable_resolve origins p =
     (if p = 0 then Inr None
      else let upto = filter (\<lambda>e. fst e \<le> p - 1) origins in
        if upto = [] then Inl (UndefinedBehaviour ''prev(begin())'') else Inr (Some (snd (last upto))))"

definition originOf :: "'p PosTable \<Rightarrow> u32 \<Rightarrow> 'p Pos_Origin result" where
  "originOf origins p =
     rbind (PosTable_resolve origins p) (\<lambda>o'. Inr (case o' of Some x \<Rightarrow> o_origin x | None \<Rightarrow> NoOrigin))"

section \<open>Lines\<close>

record LinesIterator =
  li_input :: string
  li_curLine :: string
  li_pastEnd :: bool

definition line_end :: "char \<Rightarrow> bool" where
  "line_end c = (c = CHR 0x0D \<or> c = CHR 0x0A)"

definition strip_char :: "char \<Rightarrow> string \<Rightarrow> string" where
  "strip_char c s = (if s \<noteq> [] \<and> hd s = c then tl s else s)"

definition LinesIterator_bump :: "bool \<Rightarrow> LinesIterator \<Rightarrow> LinesIterator" where
  "LinesIterator_bump atFirst it =
     (let it = (if \<not> atFirst
                then it\<lparr>li_pastEnd := (li_input it = []),
                        li_input := strip_char (CHR 0x0A) (strip_char (CHR 0x0D) (li_input it))\<rparr>
                else it);
          eol = length (takeWhile (\<lambda>c. \<not> line_end c) (li_input it)) in
      it\<lparr>li_curLine := take eol (li_input it), li_input := drop eol (li_input it)\<rparr>)"

definition mkLinesIterator :: "string \<Rightarrow> LinesIterator" where
  "mkLinesIterator input =
     (let it = \<lparr>li_input = input, li_curLine = [], li_pastEnd = (input = [])\<rparr> in
      if input \<noteq> [] then LinesIterator_bump True it else it)"

text \<open>
  The loop that collects where the lines start. \<^verbatim>\<open>it->data() - begin\<close> is the length of what lies
  before the current line, that is, the length of the source less the current line and the rest.
\<close>

fun line_starts :: "nat \<Rightarrow> string \<Rightarrow> LinesIterator \<Rightarrow> u32 list option" where
  "line_starts 0 src it = None"
| "line_starts (Suc fuel) src it =
     (if li_pastEnd it then Some []
      else map_option (\<lambda>r. word_of_nat (length src - length (li_curLine it) - length (li_input it)) # r)
        (line_starts fuel src (LinesIterator_bump False it)))"

definition getSource :: "('p \<Rightarrow> string option) \<Rightarrow> 'p Pos_Origin \<Rightarrow> string option" where
  "getSource readFile orig =
     (case orig of
        NoOrigin \<Rightarrow> None
      | Stdin s \<Rightarrow> Some (takeWhile (\<lambda>c. c \<noteq> CHR 0x00) s)
      | String s \<Rightarrow> Some (takeWhile (\<lambda>c. c \<noteq> CHR 0x00) s)
      | Path p \<Rightarrow> readFile p)"

record 'p Pos =
  line :: u32
  column :: u32
  p_origin :: "'p Pos_Origin"

definition PosTable_at :: "('p \<Rightarrow> string option) \<Rightarrow> 'p PosTable \<Rightarrow> u32 \<Rightarrow> 'p Pos result option" where
  "PosTable_at readFile origins p =
     (case PosTable_resolve origins p of
        Inl e \<Rightarrow> Some (Inl e)
      | Inr None \<Rightarrow> Some (Inr \<lparr>line = 0, column = 0, p_origin = NoOrigin\<rparr>)
      | Inr (Some orig) \<Rightarrow>
          let offset = offsetOf orig p; src = (case getSource readFile (o_origin orig) of Some s \<Rightarrow> s | None \<Rightarrow> []) in
          map_option (\<lambda>ls.
            let ls = (if ls = [] then [0] else ls); before = filter (\<lambda>l. l \<le> offset) ls in
            Inr \<lparr>line = 1 + word_of_nat (length before - 1), column = 1 + (offset - last before), p_origin = o_origin orig\<rparr>)
          (line_starts (length src + 2) src (mkLinesIterator src)))"

section \<open>Line and column, character by character\<close>

text \<open>
  The reference: a line ends at a line feed and at a carriage return that is not followed by one.
\<close>

definition ends_line :: "char \<Rightarrow> string \<Rightarrow> bool" where
  "ends_line c r \<longleftrightarrow> c = CHR 0x0A \<or> c = CHR 0x0D \<and> \<not> (r \<noteq> [] \<and> hd r = CHR 0x0A)"

fun pos_scan :: "string \<Rightarrow> nat \<Rightarrow> nat \<Rightarrow> nat \<Rightarrow> nat \<times> nat" where
  "pos_scan s 0 l c = (l, c)"
| "pos_scan [] (Suc n) l c = pos_scan [] n l (c + 1)"
| "pos_scan (x # s) (Suc n) l c = (if ends_line x s then pos_scan s n (l + 1) 1 else pos_scan s n l (c + 1))"

fun line_breaks :: "nat \<Rightarrow> string \<Rightarrow> nat list" where
  "line_breaks p [] = []"
| "line_breaks p (c # s) = (if ends_line c s then (p + 1) # line_breaks (p + 1) s else line_breaks (p + 1) s)"

lemma line_breaks_skip: "\<forall>c \<in> set l. \<not> line_end c \<Longrightarrow> line_breaks p (l @ r) = line_breaks (p + length l) r"
  by (induction l arbitrary: p) (auto simp: ends_line_def line_end_def)

lemma line_breaks_after: "x \<in> set (line_breaks p s) \<Longrightarrow> p < x \<and> x \<le> p + length s"
  by (induction s arbitrary: p) (fastforce split: if_splits)+

lemma line_breaks_sorted: "sorted_wrt (<) (line_breaks p s)"
  using line_breaks_after by (induction s arbitrary: p) (fastforce split: if_splits)+

lemma pos_scan_breaks:
  assumes "q \<le> p"
  shows "pos_scan s n l (p - q + 1) =
    (let b = filter (\<lambda>x. x \<le> p + n) (line_breaks p s) in (l + length b, p + n - last (q # b) + 1))"
  using assms
proof (induction s n l "p - q + 1" arbitrary: p q rule: pos_scan.induct)
  case (1 s l)
  have "filter (\<lambda>x. x \<le> p) (line_breaks p s) = []" using line_breaks_after by (fastforce simp: filter_empty_conv)
  then show ?case by simp
next
  case (2 n l)
  then show ?case using "2.hyps" [of "Suc p" q] by (simp add: Suc_diff_le)
next
  case (3 x s n l)
  show ?case
  proof (cases "ends_line x s")
    case True
    then show ?thesis using "3.hyps"(1) [OF True, of "Suc p" "Suc p"] by (simp add: Let_def)
  next
    case False
    then show ?thesis using "3.hyps"(2) [OF False, of "Suc p" q] 3(3) by (simp add: Suc_diff_le)
  qed
qed

text \<open>The iterator stands at the end of a line: its input is empty or begins with a line end.\<close>

lemma line_starts_breaks:
  assumes "src = pre @ li_curLine it @ li_input it" "li_input it = [] \<or> line_end (hd (li_input it))" "\<not> li_pastEnd it"
    "length (li_input it) + 1 < fuel"
  shows "line_starts fuel src it = Some (word_of_nat (length pre) # map word_of_nat (line_breaks (length pre + length (li_curLine it)) (li_input it)))"
  using assms
proof (induction fuel arbitrary: pre it)
  case (Suc fuel)
  show ?case
  proof (cases "li_input it")
    case Nil
    then have "li_pastEnd (LinesIterator_bump False it)" by (simp add: LinesIterator_bump_def Let_def)
    moreover obtain n where "fuel = Suc n" using Suc.prems(4) by (cases fuel) auto
    ultimately show ?thesis using Suc.prems Nil by simp
  next
    case (Cons c r)
    let ?r = "strip_char (CHR 0x0A) (strip_char (CHR 0x0D) (li_input it))"
    let ?it = "LinesIterator_bump False it"
    let ?l = "takeWhile (\<lambda>c. \<not> line_end c) ?r"
    obtain t where t: "li_input it = t @ ?r" "t \<noteq> []"
      "\<And>p. line_breaks p (li_input it) = (p + length t) # line_breaks (p + length t) ?r"
    proof (cases "c = CHR 0x0A")
      case True
      then show ?thesis using that [of "[c]"] Cons by (simp add: strip_char_def ends_line_def)
    next
      case False
      then have c: "c = CHR 0x0D" using Suc.prems(2) Cons by (simp add: line_end_def)
      show ?thesis
      proof (cases "r \<noteq> [] \<and> hd r = CHR 0x0A")
        case True
        then obtain r' where "r = CHR 0x0A # r'" by (cases r) auto
        then show ?thesis using that [of "[c, CHR 0x0A]"] Cons c by (simp add: strip_char_def ends_line_def)
      next
        case False
        then have "strip_char (CHR 0x0A) r = r" by (auto simp: strip_char_def)
        with False show ?thesis using that [of "[c]"] Cons c by (auto simp: strip_char_def ends_line_def)
      qed
    qed
    have it: "li_curLine ?it = ?l" "li_input ?it = dropWhile (\<lambda>c. \<not> line_end c) ?r" "\<not> li_pastEnd ?it"
      using Cons by (simp_all add: LinesIterator_bump_def Let_def takeWhile_eq_take [symmetric] dropWhile_eq_drop [symmetric])
    have "line_starts fuel src ?it = Some (word_of_nat (length (pre @ li_curLine it @ t)) #
        map word_of_nat (line_breaks (length (pre @ li_curLine it @ t) + length (li_curLine ?it)) (li_input ?it)))"
    proof (rule Suc.IH)
      show "src = (pre @ li_curLine it @ t) @ li_curLine ?it @ li_input ?it" using Suc.prems(1) t(1) it by simp
      show "li_input ?it = [] \<or> line_end (hd (li_input ?it))" using hd_dropWhile [of "\<lambda>c. \<not> line_end c" ?r] it(2) by auto
      have "length (li_input ?it) \<le> length ?r" unfolding it(2) by (rule length_dropWhile_le)
      also have "length ?r < length (li_input it)" using arg_cong [OF t(1), of length] t(2) by simp
      finally show "length (li_input ?it) + 1 < fuel" using Suc.prems(4) by simp
    qed (rule it(3))
    moreover have "line_breaks p ?r = line_breaks (p + length (li_curLine ?it)) (li_input ?it)" for p
      using line_breaks_skip [of ?l p "li_input ?it"] it by (auto dest: set_takeWhileD)
    ultimately show ?thesis using Suc.prems(1,3) t(3) by (simp add: add.assoc)
  qed
qed simp

lemma line_starts_all:
  "\<exists>ls. line_starts (length src + 2) src (mkLinesIterator src) = Some ls \<and>
     (if ls = [] then [0] else ls) = map word_of_nat (0 # line_breaks 0 src)"
proof (cases "src = []")
  case True
  then show ?thesis by (simp add: mkLinesIterator_def)
next
  case False
  let ?it = "mkLinesIterator src"
  have it: "li_curLine ?it = takeWhile (\<lambda>c. \<not> line_end c) src" "li_input ?it = dropWhile (\<lambda>c. \<not> line_end c) src" "\<not> li_pastEnd ?it"
    using False by (simp_all add: mkLinesIterator_def LinesIterator_bump_def Let_def takeWhile_eq_take [symmetric] dropWhile_eq_drop [symmetric])
  have fin: "li_input ?it = [] \<or> line_end (hd (li_input ?it))"
    unfolding it using hd_dropWhile [of "\<lambda>c. \<not> line_end c" src] by blast
  have parts: "src = [] @ li_curLine ?it @ li_input ?it" unfolding it by simp
  have "length (li_input ?it) \<le> length src" unfolding it by (rule length_dropWhile_le)
  then have "length (li_input ?it) + 1 < length src + 2" by simp
  from line_starts_breaks [OF parts fin it(3) this]
  have "line_starts (length src + 2) src ?it =
      Some (word_of_nat 0 # map word_of_nat (line_breaks (length (li_curLine ?it)) (li_input ?it)))" by (simp only: list.size add_0)
  moreover have "line_breaks 0 src = line_breaks (length (li_curLine ?it)) (li_input ?it)"
    using line_breaks_skip [of "li_curLine ?it" 0 "li_input ?it"] it by (auto dest: set_takeWhileD)
  ultimately show ?thesis by simp
qed

lemma filter_small:
  "\<forall>x \<in> set xs. x < 2 ^ 32 \<Longrightarrow>
    filter (\<lambda>l. l \<le> (w :: u32)) (map word_of_nat xs) = map word_of_nat (filter (\<lambda>x. x \<le> unat w) xs)"
  by (induction xs) (auto simp: word_le_nat_alt unat_of_nat take_bit_eq_mod)

lemma PosTable_at_scan:
  assumes "PosTable_resolve origins p = Inr (Some orig)"
    and src: "src = (case getSource readFile (o_origin orig) of Some s \<Rightarrow> s | None \<Rightarrow> [])" "length src < 2 ^ 32"
  shows "PosTable_at readFile origins p =
    (let (l, c) = pos_scan src (unat (offsetOf orig p)) 1 1 in
      Some (Inr \<lparr>line = word_of_nat l, column = word_of_nat c, p_origin = o_origin orig\<rparr>))"
proof -
  let ?off = "offsetOf orig p"
  let ?b = "filter (\<lambda>x. x \<le> unat ?off) (line_breaks 0 src)"
  obtain ls where ls: "line_starts (length src + 2) src (mkLinesIterator src) = Some ls"
    "(if ls = [] then [0] else ls) = map word_of_nat (0 # line_breaks 0 src)" using line_starts_all by blast
  have "\<forall>x \<in> set (0 # line_breaks 0 src). x < 2 ^ 32" using line_breaks_after [of _ 0 src] src(2) by force
  from filter_small [OF this, of ?off]
  have before: "filter (\<lambda>l. l \<le> ?off) (if ls = [] then [0] else ls) = map word_of_nat (0 # ?b)" unfolding ls(2) by simp
  have le: "last (0 # ?b) \<le> unat ?off"
  proof -
    have "last (0 # ?b) \<in> set (0 # ?b)" by (rule last_in_set) simp
    then show ?thesis by auto
  qed
  have "?off - word_of_nat (last (0 # ?b)) = word_of_nat (unat ?off - last (0 # ?b))"
    using le by (simp add: of_nat_diff)
  moreover have "last (map word_of_nat (0 # ?b)) = (word_of_nat (last (0 # ?b)) :: u32)" by (rule last_map) simp
  moreover have "pos_scan src (unat ?off) 1 1 = (1 + length ?b, unat ?off - last (0 # ?b) + 1)"
    using pos_scan_breaks [of 0 0 src "unat ?off" 1] by (simp add: Let_def)
  ultimately show ?thesis
    using assms(1) ls(1) before src(1) by (simp add: PosTable_at_def Let_def)
qed

section \<open>Origins do not overlap\<close>

fun addOrigins :: "('p Pos_Origin \<times> u64) list \<Rightarrow> 'p PosTable \<Rightarrow> 'p Origin list \<times> 'p PosTable" where
  "addOrigins [] t = ([], t)"
| "addOrigins ((orig, sz) # os) t =
     (let (o', t) = addOrigin orig sz t; (os, t) = addOrigins os t in (o' # os, t))"

text \<open>The end of the last origin; every origin lies before the next.\<close>

definition table_end :: "'p PosTable \<Rightarrow> nat" where
  "table_end t = (if t = [] then 0 else unat (fst (last t)) + unat (o_size (snd (last t))))"

definition table_ok :: "'p PosTable \<Rightarrow> bool" where
  "table_ok t \<longleftrightarrow> omap_ok t \<and> (\<forall>(k, x) \<in> set t. o_offset x = k \<and> 0 < o_size x) \<and>
     sorted_wrt (\<lambda>(k, x) (k', x'). unat k + unat (o_size x) \<le> unat k') t \<and> table_end t < 2 ^ 32 \<and>
     (t \<noteq> [] \<longrightarrow> fst (hd t) = 0)"

lemma table_end_max: "table_ok t \<Longrightarrow> (k, x) \<in> set t \<Longrightarrow> unat k + unat (o_size x) \<le> table_end t"
proof -
  assume ok: "table_ok t" "(k, x) \<in> set t"
  have "t \<noteq> []" using ok(2) by auto
  then have t: "t = butlast t @ [last t]" "t \<noteq> []" by simp_all
  then have "(k, x) \<in> set (butlast t @ [last t])" using ok(2) by simp
  then consider "(k, x) = last t" | "(k, x) \<in> set (butlast t)" unfolding set_append by auto
  then show ?thesis
  proof cases
    case 1
    then show ?thesis using t(2) by (metis table_end_def fst_conv snd_conv order_refl)
  next
    case 2
    have "sorted_wrt (\<lambda>(k, x) (k', x'). unat k + unat (o_size x) \<le> unat k') (butlast t @ [last t])" using ok(1) t by (simp add: table_ok_def)
    then have "unat k + unat (o_size x) \<le> unat (fst (last t))" using 2 by (auto simp: sorted_wrt_append)
    then show ?thesis using t(2) by (simp add: table_end_def)
  qed
qed

lemma unat_ucast_small: "unat w < 2 ^ 32 \<Longrightarrow> unat (ucast (w :: u64) :: u32) = unat w"
  by (simp add: unsigned_ucast_eq take_bit_nat_eq_self)

lemma unat_ucast_64: "unat (ucast (w :: u32) :: u64) = unat w"
  by transfer (simp add: take_bit_eq_mod)

lemma unat_plus_small: "unat (a :: 'a::len word) + unat b < 2 ^ LENGTH('a) \<Longrightarrow> unat (a + b) = unat a + unat b"
  by (simp add: unat_word_ariths)

lemma addOrigin_ok:
  assumes "table_ok t" "0 < sz" "table_end t + unat sz + 2 \<le> 2 ^ 32" "addOrigin orig sz t = (x, t')"
  shows "t' = t @ [(o_offset x, x)] \<and> o_origin x = orig \<and> o_size x = sz \<and> table_ok t' \<and> table_end t' = table_end t + unat sz"
proof -
  define off :: u32 where "off = (if t = [] then 0 else ucast (ucast (fst (last t)) + o_size (snd (last t))))"
  let ?x = "\<lparr>o_offset = off, o_origin = orig, o_size = sz\<rparr>"
  have te: "table_end t < 2 ^ 32 - 2" using assms(2,3) by (simp add: word_less_nat_alt)
  have off_eq: "unat off = table_end t"
  proof (cases "t = []")
    case False
    then have "unat (ucast (fst (last t)) + o_size (snd (last t)) :: u64) = table_end t"
      using te by (subst unat_plus_small) (simp_all add: unat_ucast_64 table_end_def)
    then show ?thesis using False te by (simp add: unat_ucast_small off_def)
  qed (simp add: table_end_def off_def)
  have "unat (2 + off) = 2 + table_end t" using te off_eq by (subst unat_plus_small) simp_all
  then have "unat (ucast (2 + off) + sz :: u64) = 2 + table_end t + unat sz"
    using assms(3) by (subst unat_plus_small) (simp_all only: unat_ucast_64, simp)
  then have guard: "\<not> ucast (2 + off) + sz < (ucast off :: u64)"
    using off_eq by (simp only: word_less_nat_alt unat_ucast_64)
  have keys: "\<forall>e \<in> set t. fst e < off"
  proof
    fix e
    assume e: "e \<in> set t"
    have "unat (fst e) + unat (o_size (snd e)) \<le> table_end t" using e table_end_max [OF assms(1), of "fst e" "snd e"] by simp
    moreover have "0 < unat (o_size (snd e))" using e assms(1) by (auto simp: table_ok_def word_less_nat_alt)
    ultimately show "fst e < off" using off_eq by (simp only: word_less_nat_alt)
  qed
  have t': "t' = t @ [(off, ?x)]" "x = ?x"
  proof -
    have "omap_emplace off ?x t = t @ [(off, ?x)]" by (rule omap_emplace_snoc [OF keys])
    moreover have "map_of t off = None" using keys by (auto simp: map_of_eq_None_iff)
    ultimately show "t' = t @ [(off, ?x)]" "x = ?x"
      using assms(4) guard by (auto simp: addOrigin_def Let_def map_add_def simp flip: off_def)
  qed
  have "sorted_wrt (\<lambda>(k, x) (k', x'). unat k + unat (o_size x) \<le> unat k') t'"
    using assms(1) table_end_max [OF assms(1)] off_eq unfolding t'(1) by (fastforce simp: table_ok_def sorted_wrt_append)
  moreover have "table_end t' = table_end t + unat sz" using off_eq unfolding t'(1) by (simp add: table_end_def)
  moreover have "fst (hd t') = 0" using assms(1) unfolding t'(1) by (cases t) (auto simp: table_ok_def off_def)
  moreover have "omap_ok t'" using assms(1) keys unfolding t'(1) by (simp add: table_ok_def sorted_wrt_append)
  ultimately have "table_ok t'" using assms(1,2,3) unfolding table_ok_def t'(1) by auto
  then show ?thesis using t' \<open>table_end t' = table_end t + unat sz\<close> by simp
qed

lemma addOrigins_ok:
  assumes "table_ok t" "\<forall>(orig, sz) \<in> set os. 0 < sz" "table_end t + sum_list (map (unat \<circ> snd) os) + 2 \<le> 2 ^ 32"
    "addOrigins os t = (xs, t')"
  shows "table_ok t' \<and> t' = t @ map (\<lambda>x. (o_offset x, x)) xs \<and> map (\<lambda>x. (o_origin x, o_size x)) xs = os"
  using assms
proof (induction os arbitrary: t xs)
  case (Cons e os)
  obtain orig sz where e: "e = (orig, sz)" by (cases e)
  obtain x t1 where x: "addOrigin orig sz t = (x, t1)" by (cases "addOrigin orig sz t")
  obtain ys t2 where ys: "addOrigins os t1 = (ys, t2)" by (cases "addOrigins os t1")
  have step: "t1 = t @ [(o_offset x, x)] \<and> o_origin x = orig \<and> o_size x = sz \<and> table_ok t1 \<and> table_end t1 = table_end t + unat sz"
    using Cons.prems e by (intro addOrigin_ok [OF _ _ _ x]) auto
  have eqs: "xs = x # ys" "t' = t2" using Cons.prems(4) e x ys by simp_all
  have "table_ok t' \<and> t' = t1 @ map (\<lambda>x. (o_offset x, x)) ys \<and> map (\<lambda>x. (o_origin x, o_size x)) ys = os"
    using Cons.prems(2,3) e ys eqs step by (intro Cons.IH) auto
  with eqs step show ?case using e by auto
qed simp

lemma resolve_ok:
  assumes "table_ok t" "(k, x) \<in> set t" "off < o_size x"
  shows "PosTable_resolve t (PosTable_add x off) = Inr (Some x) \<and> unat (offsetOf x (PosTable_add x off)) = unat off"
proof -
  have k: "o_offset x = k" using assms(1,2) by (auto simp: table_ok_def)
  have small: "unat k + unat off + 1 < 2 ^ 32"
    using table_end_max [OF assms(1,2)] assms(1,3) by (simp add: table_ok_def word_less_nat_alt)
  have "unat (1 + k) = 1 + unat k" using small by (subst unat_plus_small) simp_all
  then have "unat (ucast (1 + k) + off :: u64) = 1 + unat k + unat off"
    using small by (subst unat_plus_small) (simp_all only: unat_ucast_64, simp)
  then have p: "unat (PosTable_add x off) = 1 + unat k + unat off"
    using assms(3) k small by (simp add: PosTable_add_def unat_ucast_small)
  then have p0: "PosTable_add x off \<noteq> 0" by auto
  then have idx: "unat (PosTable_add x off - 1) = unat k + unat off" using p by (simp add: unat_minus_one)
  obtain ys zs where t: "t = ys @ (k, x) # zs" using assms(2) by (meson split_list)
  have "filter (\<lambda>e. fst e \<le> PosTable_add x off - 1) zs = []"
    using assms(1,3) idx unfolding t by (auto simp: filter_empty_conv table_ok_def sorted_wrt_append word_le_nat_alt word_less_nat_alt)
  then have "filter (\<lambda>e. fst e \<le> PosTable_add x off - 1) t = filter (\<lambda>e. fst e \<le> PosTable_add x off - 1) ys @ [(k, x)]"
    using idx unfolding t by (simp add: word_le_nat_alt)
  then have "PosTable_resolve t (PosTable_add x off) = Inr (Some x)"
    using p0 by (simp add: PosTable_resolve_def)
  moreover have "unat (offsetOf x (PosTable_add x off)) = unat off"
    using idx unat_sub [of k "PosTable_add x off - 1"] k by (simp add: offsetOf_def word_le_nat_alt)
  ultimately show ?thesis ..
qed


definition example_origins :: "(unit Pos_Origin \<times> u64) list" where
  "example_origins = [(Stdin ''x'', 1), (String [CHR ''a'', CHR 0x0A, CHR ''b''], 3)]"


text \<open>
  The end of a file is not one of its positions: \<^verbatim>\<open>add\<close> accepts the offset just past the last
  byte, but the position it returns resolves to the start of the next file, although the comment in
  \<^verbatim>\<open>addOrigin\<close> says that all origins can point to their end.
\<close>

theorem PosTable_end_is_next_origin:
  "let (os, t) = addOrigins [(Stdin ''x'' :: unit Pos_Origin, 1), (String ''yz'', 2)] [] in
     PosTable_add (os ! 0) 1 \<noteq> 0 \<and> originOf t (PosTable_add (os ! 0) 1) = Inr (String ''yz'') \<and>
     PosTable_at (\<lambda>p. None) t (PosTable_add (os ! 0) 1) = Some (Inr \<lparr>line = 1, column = 1, p_origin = String ''yz''\<rparr>)"
  by code_simp

end
