(* ===== verification/Zix_DerivedPath.thy ===== *)
theory Zix_DerivedPath
  imports Zix_StorePath Zix_Strings
begin

text \<open>
  Ways of naming store objects: sets of output names (outputs-spec.cc), derived paths, which name
  outputs of derivations that may themselves be outputs of derivations (derived-path.cc), and the
  trie keyed by derived paths (derived-path-map.cc). \<open>feats\<close> is the set of enabled experimental
  features. The regular expression of \<^verbatim>\<open>OutputsSpec::parseOpt\<close> is translated by hand: the names
  in the list contain no comma, so a match splits the string at its commas.
\<close>

section \<open>Output specifications\<close>

datatype OutputsSpec = OS_All | OS_Names "string oset"

fun OutputsSpec_contains :: "OutputsSpec \<Rightarrow> string \<Rightarrow> bool" where
  "OutputsSpec_contains OS_All outputName = True"
| "OutputsSpec_contains (OS_Names outputNames) outputName = (outputName \<in> set outputNames)"

text \<open>
  The negative lookahead at the start of every name, and the list of names. The lookahead sees the
  whole rest of the string, not only the name.
\<close>

definition denied_start :: "string \<Rightarrow> bool" where
  "denied_start s =
     (s = ''.'' \<or> take 2 s = ''.-'' \<or> s = ''..'' \<or> take 3 s = ''..-'')"

function match_names :: "string \<Rightarrow> bool" where
  "match_names s =
     (let rest = dropWhile name_char s in
      if takeWhile name_char s = [] \<or> denied_start s then False
      else if rest = [] then True
      else if hd rest = CHR '','' then match_names (tl rest) else False)"
  by auto
termination
proof (relation "measure length")
  fix s :: string and rest
  assume "rest = dropWhile name_char s" "rest \<noteq> []"
  then have "0 < length rest" "length rest \<le> length s" by (simp_all only: length_greater_0_conv length_dropWhile_le not_False_eq_True)
  then show "(tl rest, s) \<in> measure length" by (simp only: in_measure length_tl)
qed simp

declare match_names.simps [simp del]

definition OutputsSpec_parseOpt :: "string \<Rightarrow> OutputsSpec option" where
  "OutputsSpec_parseOpt s =
     (if s = ''*'' then Some OS_All
      else if match_names s then Some (OS_Names (oset_of (tokenizeString s '','')))
      else None)"

definition OutputsSpec_parse :: "string \<Rightarrow> OutputsSpec result" where
  "OutputsSpec_parse s =
     (case OutputsSpec_parseOpt s of None \<Rightarrow> Inl (Error ''invalid outputs specifier'') | Some spec \<Rightarrow> Inr spec)"

fun OutputsSpec_to_string :: "OutputsSpec \<Rightarrow> string" where
  "OutputsSpec_to_string OS_All = ''*''"
| "OutputsSpec_to_string (OS_Names outputNames) = concatStringsSep '','' outputNames"

fun OutputsSpec_union :: "OutputsSpec \<Rightarrow> OutputsSpec \<Rightarrow> OutputsSpec" where
  "OutputsSpec_union OS_All that = OS_All"
| "OutputsSpec_union (OS_Names theseNames) OS_All = OS_All"
| "OutputsSpec_union (OS_Names theseNames) (OS_Names thoseNames) = OS_Names (fold oset_insert thoseNames theseNames)"

fun OutputsSpec_isSubsetOf :: "OutputsSpec \<Rightarrow> OutputsSpec \<Rightarrow> bool" where
  "OutputsSpec_isSubsetOf this OS_All = True"
| "OutputsSpec_isSubsetOf OS_All (OS_Names thoseNames) = False"
| "OutputsSpec_isSubsetOf (OS_Names theseNames) (OS_Names thoseNames) =
     fold (\<lambda>x ret. if x \<notin> set thoseNames then False else ret) theseNames True"

datatype ExtendedOutputsSpec = EOS_Default | EOS_Explicit OutputsSpec

definition ExtendedOutputsSpec_parseOpt :: "string \<Rightarrow> (string \<times> ExtendedOutputsSpec) option" where
  "ExtendedOutputsSpec_parseOpt s =
     (case rfind (CHR ''^'') s of
        None \<Rightarrow> Some (s, EOS_Default)
      | Some found \<Rightarrow>
          (case OutputsSpec_parseOpt (drop (found + 1) s) of
             None \<Rightarrow> None
           | Some spec \<Rightarrow> Some (take found s, EOS_Explicit spec)))"

definition ExtendedOutputsSpec_parse :: "string \<Rightarrow> (string \<times> ExtendedOutputsSpec) result" where
  "ExtendedOutputsSpec_parse s =
     (case ExtendedOutputsSpec_parseOpt s of None \<Rightarrow> Inl (Error ''invalid extended outputs specifier'') | Some spec \<Rightarrow> Inr spec)"

fun ExtendedOutputsSpec_to_string :: "ExtendedOutputsSpec \<Rightarrow> string" where
  "ExtendedOutputsSpec_to_string EOS_Default = []"
| "ExtendedOutputsSpec_to_string (EOS_Explicit outputSpec) = ''^'' @ OutputsSpec_to_string outputSpec"

section \<open>Derived paths\<close>

datatype SingleDerivedPath = SDP_Opaque StorePath | SDP_Built SingleDerivedPath string

datatype DerivedPath = DP_Opaque StorePath | DP_Built SingleDerivedPath OutputsSpec

fun SingleDerivedPath_to_string :: "string \<Rightarrow> SingleDerivedPath \<Rightarrow> string" where
  "SingleDerivedPath_to_string store (SDP_Opaque p) = printStorePath store p"
| "SingleDerivedPath_to_string store (SDP_Built drvPath out) = SingleDerivedPath_to_string store drvPath @ ''^'' @ out"

fun SingleDerivedPath_to_string_legacy :: "string \<Rightarrow> SingleDerivedPath \<Rightarrow> string" where
  "SingleDerivedPath_to_string_legacy store (SDP_Opaque p) = printStorePath store p"
| "SingleDerivedPath_to_string_legacy store (SDP_Built drvPath out) =
     SingleDerivedPath_to_string store drvPath @ ''!'' @ out"

fun DerivedPath_to_string :: "string \<Rightarrow> DerivedPath \<Rightarrow> string" where
  "DerivedPath_to_string store (DP_Opaque p) = printStorePath store p"
| "DerivedPath_to_string store (DP_Built drvPath outputs) =
     SingleDerivedPath_to_string store drvPath @ ''^'' @ OutputsSpec_to_string outputs"

fun DerivedPath_to_string_legacy :: "string \<Rightarrow> DerivedPath \<Rightarrow> string" where
  "DerivedPath_to_string_legacy store (DP_Opaque p) = printStorePath store p"
| "DerivedPath_to_string_legacy store (DP_Built drvPath outputs) =
     SingleDerivedPath_to_string_legacy store drvPath @ ''!'' @ OutputsSpec_to_string outputs"

fun drvRequireExperiment :: "xp set \<Rightarrow> SingleDerivedPath \<Rightarrow> unit result" where
  "drvRequireExperiment feats (SDP_Opaque p) = Inr ()"
| "drvRequireExperiment feats (SDP_Built d out) = require feats DynamicDerivations"

definition SDP_Built_parse :: "xp set \<Rightarrow> SingleDerivedPath \<Rightarrow> string \<Rightarrow> SingleDerivedPath result" where
  "SDP_Built_parse feats drv out = rbind (drvRequireExperiment feats drv) (\<lambda>_. Inr (SDP_Built drv out))"

definition DP_Built_parse :: "xp set \<Rightarrow> SingleDerivedPath \<Rightarrow> string \<Rightarrow> DerivedPath result" where
  "DP_Built_parse feats drv outputsS =
     rbind (drvRequireExperiment feats drv) (\<lambda>_. rbind (OutputsSpec_parse outputsS) (\<lambda>outputs. Inr (DP_Built drv outputs)))"

function parseWithSingle :: "xp set \<Rightarrow> string \<Rightarrow> string \<Rightarrow> char \<Rightarrow> SingleDerivedPath result" where
  "parseWithSingle feats store s separator =
     (case rfind separator s of
        None \<Rightarrow> rbind (parseStorePath store s) (\<lambda>p. Inr (SDP_Opaque p))
      | Some n \<Rightarrow>
          rbind (parseWithSingle feats store (take n s) separator) (\<lambda>drv.
            SDP_Built_parse feats drv (drop (n + 1) s)))"
  by auto
termination
  by (relation "measure (\<lambda>(feats, store, s, separator). length s)") (auto dest: rfind_bound)

declare parseWithSingle.simps [simp del]

definition SingleDerivedPath_parse :: "xp set \<Rightarrow> string \<Rightarrow> string \<Rightarrow> SingleDerivedPath result" where
  "SingleDerivedPath_parse feats store s = parseWithSingle feats store s (CHR ''^'')"

definition SingleDerivedPath_parseLegacy :: "xp set \<Rightarrow> string \<Rightarrow> string \<Rightarrow> SingleDerivedPath result" where
  "SingleDerivedPath_parseLegacy feats store s = parseWithSingle feats store s (CHR ''!'')"

definition parseWith :: "xp set \<Rightarrow> string \<Rightarrow> string \<Rightarrow> char \<Rightarrow> DerivedPath result" where
  "parseWith feats store s separator =
     (case rfind separator s of
        None \<Rightarrow> rbind (parseStorePath store s) (\<lambda>p. Inr (DP_Opaque p))
      | Some n \<Rightarrow>
          rbind (parseWithSingle feats store (take n s) separator) (\<lambda>drv.
            DP_Built_parse feats drv (drop (n + 1) s)))"

definition DerivedPath_parse :: "xp set \<Rightarrow> string \<Rightarrow> string \<Rightarrow> DerivedPath result" where
  "DerivedPath_parse feats store s = parseWith feats store s (CHR ''^'')"

definition DerivedPath_parseLegacy :: "xp set \<Rightarrow> string \<Rightarrow> string \<Rightarrow> DerivedPath result" where
  "DerivedPath_parseLegacy feats store s = parseWith feats store s (CHR ''!'')"

fun fromSingle :: "SingleDerivedPath \<Rightarrow> DerivedPath" where
  "fromSingle (SDP_Opaque p) = DP_Opaque p"
| "fromSingle (SDP_Built drvPath out) = DP_Built drvPath (OS_Names [out])"

fun SDP_getBaseStorePath :: "SingleDerivedPath \<Rightarrow> StorePath" where
  "SDP_getBaseStorePath (SDP_Opaque p) = p"
| "SDP_getBaseStorePath (SDP_Built drvPath out) = SDP_getBaseStorePath drvPath"

fun DP_getBaseStorePath :: "DerivedPath \<Rightarrow> StorePath" where
  "DP_getBaseStorePath (DP_Opaque p) = p"
| "DP_getBaseStorePath (DP_Built drvPath outputs) = SDP_getBaseStorePath drvPath"

section \<open>The trie keyed by derived paths\<close>

datatype 'v ChildNode = ChildNode (node_value: 'v) (childMap: "(string \<times> 'v ChildNode) list")

type_synonym 'v DerivedPathMap = "(StorePath, 'v ChildNode) omap"

text \<open>
  \<^verbatim>\<open>ensureSlot\<close> returns a reference to the node, made if it is not there; \<open>modifySlot\<close> is what
  assigning through it does, \<open>dflt\<close> the default value of \<^verbatim>\<open>V\<close>.
\<close>

definition node_or :: "'v \<Rightarrow> 'v ChildNode option \<Rightarrow> 'v ChildNode" where
  "node_or dflt n = (case n of Some x \<Rightarrow> x | None \<Rightarrow> ChildNode dflt [])"

fun modifySlot :: "'v \<Rightarrow> SingleDerivedPath \<Rightarrow> ('v ChildNode \<Rightarrow> 'v ChildNode) \<Rightarrow> 'v DerivedPathMap \<Rightarrow> 'v DerivedPathMap" where
  "modifySlot dflt (SDP_Opaque p) f m = omap_assign p (f (node_or dflt (map_of m p))) m"
| "modifySlot dflt (SDP_Built drvPath out) f m =
     modifySlot dflt drvPath (\<lambda>n. ChildNode (node_value n) (omap_assign out (f (node_or dflt (map_of (childMap n) out))) (childMap n))) m"

definition ensureSlot :: "'v \<Rightarrow> SingleDerivedPath \<Rightarrow> 'v DerivedPathMap \<Rightarrow> 'v DerivedPathMap" where
  "ensureSlot dflt k m = modifySlot dflt k (\<lambda>n. n) m"

fun findSlot :: "SingleDerivedPath \<Rightarrow> 'v DerivedPathMap \<Rightarrow> 'v ChildNode option" where
  "findSlot (SDP_Opaque p) m = map_of m p"
| "findSlot (SDP_Built drvPath out) m =
     (case findSlot drvPath m of None \<Rightarrow> None | Some n \<Rightarrow> map_of (childMap n) out)"

section \<open>Laws of output specifications\<close>

text \<open>
  Output specifications behave as the sets they denote: the union contains exactly the outputs
  of either, and one is a subset of the other exactly when every output it contains is contained in
  the other, also when one of them stands for all outputs.
\<close>

theorem OutputsSpec_sets:
  "OutputsSpec_contains (OutputsSpec_union a b) x = (OutputsSpec_contains a x \<or> OutputsSpec_contains b x) \<and>
   OutputsSpec_isSubsetOf a b = (\<forall>x. OutputsSpec_contains a x \<longrightarrow> OutputsSpec_contains b x)"
proof
  show "OutputsSpec_contains (OutputsSpec_union a b) x = (OutputsSpec_contains a x \<or> OutputsSpec_contains b x)"
    by (cases a; cases b) (auto simp: set_fold_oset_insert)
  have loop: "fold (\<lambda>x ret. if x \<notin> set ys then False else ret) xs r = (r \<and> set xs \<subseteq> set ys)" for xs ys :: "string list" and r
    by (induction xs arbitrary: r) auto
  have "\<exists>x. x \<notin> set ys" for ys :: "string list"
    using infinite_UNIV_listI by (metis List.finite_set ex_new_if_finite)
  then show "OutputsSpec_isSubsetOf a b = (\<forall>x. OutputsSpec_contains a x \<longrightarrow> OutputsSpec_contains b x)"
    by (cases a; cases b) (auto simp: loop)
qed

section \<open>Round trips\<close>

definition output_name_ok :: "string \<Rightarrow> bool" where
  "output_name_ok n \<longleftrightarrow> n \<noteq> [] \<and> list_all name_char n \<and> \<not> denied_start n"

fun outputs_ok :: "OutputsSpec \<Rightarrow> bool" where
  "outputs_ok OS_All \<longleftrightarrow> True"
| "outputs_ok (OS_Names ns) \<longleftrightarrow> ns \<noteq> [] \<and> oset_ok ns \<and> list_all output_name_ok ns"

lemma comma_not_name: "\<not> name_char (CHR '','')"
  by (simp add: name_char_def less_eq_char_def)

lemma denied_start_comma: "\<not> denied_start n \<Longrightarrow> n \<noteq> [] \<Longrightarrow> \<not> denied_start (n @ CHR '','' # r)"
  by (cases n; cases "tl n"; cases "tl (tl n)") (auto simp: denied_start_def)

lemma match_names_single: "output_name_ok n \<Longrightarrow> match_names n"
  by (subst match_names.simps, cases n) (simp_all add: output_name_ok_def list_all_iff Let_def)

lemma match_names_more: "output_name_ok n \<Longrightarrow> match_names (n @ CHR '','' # r) = match_names r"
  using comma_not_name denied_start_comma [of n r]
  by (subst match_names.simps, cases n) (simp_all add: output_name_ok_def list_all_iff Let_def)

lemma match_names_list: "ns \<noteq> [] \<Longrightarrow> list_all output_name_ok ns \<Longrightarrow> match_names (concatStringsSep '','' ns)"
proof (induction ns)
  case (Cons n ns)
  then show ?case
    by (cases ns) (simp_all add: match_names_single match_names_more)
qed simp

lemma output_name_plain: "output_name_ok n \<Longrightarrow> \<not> name_char c \<Longrightarrow> c \<notin> set n"
  by (auto simp: output_name_ok_def list_all_iff)

lemma OutputsSpec_print_parse: "outputs_ok spec \<Longrightarrow> OutputsSpec_parseOpt (OutputsSpec_to_string spec) = Some spec"
proof (cases spec)
  case (OS_Names ns)
  assume "outputs_ok spec"
  then have ns: "ns \<noteq> []" "oset_ok ns" "list_all output_name_ok ns" using OS_Names by simp_all
  have plain: "CHR '','' \<notin> set n" "n \<noteq> []" "CHR ''*'' \<notin> set n" if "n \<in> set ns" for n
    using that ns(3) output_name_plain [of n] comma_not_name by (auto simp: list_all_iff output_name_ok_def name_char_def less_eq_char_def)
  have "splitString (concatStringsSep '','' ns) '','' = ns" using ns(1) plain by (intro splitString_concat) auto
  then have "tokenizeString (concatStringsSep '','' ns) '','' = ns"
    using plain by (simp add: tokenizeString_filter filter_id_conv)
  moreover have "concatStringsSep '','' ns \<noteq> ''*''" 
  proof
    assume star: "concatStringsSep '','' ns = ''*''"
    obtain c n r where "ns = (c # n) # r" using ns(1) plain(2) by (cases ns; cases "hd ns") auto
    with star plain(3) [of "c # n"] show False by simp
  qed
  ultimately show ?thesis
    using OS_Names ns match_names_list [OF ns(1,3)] by (simp add: OutputsSpec_parseOpt_def oset_of_id)
qed (simp add: OutputsSpec_parseOpt_def)

lemma set_OutputsSpec_to_string: "outputs_ok spec \<Longrightarrow> c \<in> set (OutputsSpec_to_string spec) \<Longrightarrow> name_char c \<or> c \<in> {CHR '','', CHR ''*''}"
proof (cases spec)
  case (OS_Names ns)
  assume "outputs_ok spec" "c \<in> set (OutputsSpec_to_string spec)"
  with OS_Names show ?thesis by (cases ns) (auto simp: output_name_ok_def list_all_iff split: if_splits)
qed simp

fun sdp_ok :: "xp set \<Rightarrow> SingleDerivedPath \<Rightarrow> bool" where
  "sdp_ok feats (SDP_Opaque p) \<longleftrightarrow> sp_proper p"
| "sdp_ok feats (SDP_Built d out) \<longleftrightarrow> sdp_ok feats d \<and> CHR ''^'' \<notin> set out \<and> drvRequireExperiment feats d = Inr ()"

fun dp_ok :: "xp set \<Rightarrow> DerivedPath \<Rightarrow> bool" where
  "dp_ok feats (DP_Opaque p) \<longleftrightarrow> sp_proper p"
| "dp_ok feats (DP_Built d outs) \<longleftrightarrow> sdp_ok feats d \<and> outputs_ok outs \<and> drvRequireExperiment feats d = Inr ()"

lemma caret_not_name: "\<not> name_char (CHR ''^'')"
  by (simp add: name_char_def less_eq_char_def)

lemma sdp_print_parse:
  assumes "canonical dir" "dir \<noteq> ''/''" "CHR ''^'' \<notin> set dir"
  shows "sdp_ok feats p \<Longrightarrow> parseWithSingle feats dir (SingleDerivedPath_to_string dir p) (CHR ''^'') = Inr p"
proof (induction p)
  case (SDP_Opaque p)
  then have "CHR ''^'' \<notin> set (printStorePath dir p)" using assms(3) caret_not_name by (intro printStorePath_char) auto
  moreover have "parseStorePath dir (printStorePath dir p) = Inr p"
    using SDP_Opaque sp_proper_plain(5) [of p] by (intro parseStorePath_print [OF assms(1,2)]) (simp_all add: sp_proper_def)
  ultimately show ?case by (subst parseWithSingle.simps) (simp add: rfind_None [THEN iffD2])
next
  case (SDP_Built d out)
  then show ?case
    by (subst parseWithSingle.simps) (simp add: rfind_append SDP_Built_parse_def)
qed

text \<open>
  Derived paths survive printing and parsing: a path to a store object, an output of a
  derivation, or a set of outputs, with the derivation itself named by any depth of outputs, is read
  back unchanged when the feature that deep paths need is enabled.
\<close>

theorem DerivedPath_roundtrip:
  assumes "canonical dir" "dir \<noteq> ''/''" "CHR ''^'' \<notin> set dir"
  shows "(sdp_ok feats p \<longrightarrow> SingleDerivedPath_parse feats dir (SingleDerivedPath_to_string dir p) = Inr p) \<and>
    (dp_ok feats q \<longrightarrow> DerivedPath_parse feats dir (DerivedPath_to_string dir q) = Inr q)"
proof (intro conjI impI)
  assume "sdp_ok feats p"
  then show "SingleDerivedPath_parse feats dir (SingleDerivedPath_to_string dir p) = Inr p"
    using sdp_print_parse [OF assms] by (simp add: SingleDerivedPath_parse_def)
next
  assume q: "dp_ok feats q"
  show "DerivedPath_parse feats dir (DerivedPath_to_string dir q) = Inr q"
  proof (cases q)
    case (DP_Opaque p)
    have "CHR ''^'' \<notin> set (printStorePath dir p)" using assms(3) caret_not_name q DP_Opaque by (intro printStorePath_char) auto
    moreover have "parseStorePath dir (printStorePath dir p) = Inr p"
      using q DP_Opaque sp_proper_plain(5) [of p] by (intro parseStorePath_print [OF assms(1,2)]) (simp_all add: sp_proper_def)
    ultimately show ?thesis using DP_Opaque by (simp add: DerivedPath_parse_def parseWith_def rfind_None [THEN iffD2])
  next
    case (DP_Built d outs)
    have "CHR ''^'' \<notin> set (OutputsSpec_to_string outs)"
      using q DP_Built caret_not_name set_OutputsSpec_to_string [of outs "CHR ''^''"] by auto
    then show ?thesis
      using q DP_Built sdp_print_parse [OF assms, of feats d] OutputsSpec_print_parse [of outs]
      by (simp add: DerivedPath_parse_def parseWith_def rfind_append DP_Built_parse_def OutputsSpec_parse_def)
  qed
qed

theorem DerivedPath_roundtrip_witness:
  "DerivedPath_parse {DynamicDerivations} ''/s'' (DerivedPath_to_string ''/s''
     (DP_Built (SDP_Built (SDP_Opaque (StorePath (replicate 32 (CHR ''f'') @ ''-x''))) ''out'') (OS_Names [''bin'', ''out'']))) =
   Inr (DP_Built (SDP_Built (SDP_Opaque (StorePath (replicate 32 (CHR ''f'') @ ''-x''))) ''out'') (OS_Names [''bin'', ''out'']))"
proof -
  have "canonical ''/s''" using canonical_render [of "[''s'']"] by (simp add: render_def component_def)
  moreover have "sp_proper (StorePath (replicate 32 (CHR ''f'') @ ''-x''))"
    using example_ok [OF valid_name_x, of "CHR ''-''"] by (simp add: sp_proper_def HashLen_def nth_append)
  moreover have "output_name_ok ''bin''" "output_name_ok ''out''" by code_simp+
  ultimately show ?thesis
    using DerivedPath_roundtrip [of "''/s''" "{DynamicDerivations}" "SDP_Opaque (StorePath [])"
      "DP_Built (SDP_Built (SDP_Opaque (StorePath (replicate 32 (CHR ''f'') @ ''-x''))) ''out'') (OS_Names [''bin'', ''out''])"]
    by (simp add: require_def)
qed

text \<open>
  The legacy form of a path below another output mixes the two separators, so it is not read back.
\<close>

lemma to_string_legacy_mixes:
  "SingleDerivedPath_to_string_legacy store (SDP_Built (SDP_Built (SDP_Opaque p) a) b) = printStorePath store p @ ''^'' @ a @ ''!'' @ b"
  by simp

section \<open>The trie is a map\<close>

fun sdp_outputs :: "SingleDerivedPath \<Rightarrow> string list" where
  "sdp_outputs (SDP_Opaque p) = []"
| "sdp_outputs (SDP_Built d out) = sdp_outputs d @ [out]"

fun node_update :: "'v \<Rightarrow> string list \<Rightarrow> ('v ChildNode \<Rightarrow> 'v ChildNode) \<Rightarrow> 'v ChildNode \<Rightarrow> 'v ChildNode" where
  "node_update dflt [] f n = f n"
| "node_update dflt (x # xs) f n =
     ChildNode (node_value n) (omap_assign x (node_update dflt xs f (node_or dflt (map_of (childMap n) x))) (childMap n))"

fun node_find :: "'v ChildNode \<Rightarrow> string list \<Rightarrow> 'v ChildNode option" where
  "node_find n [] = Some n"
| "node_find n (x # xs) = (case map_of (childMap n) x of None \<Rightarrow> None | Some c \<Rightarrow> node_find c xs)"

definition node_slot :: "'v \<Rightarrow> 'v ChildNode option \<Rightarrow> 'v" where
  "node_slot dflt n = (case n of Some x \<Rightarrow> node_value x | None \<Rightarrow> dflt)"

definition slot_value :: "'v \<Rightarrow> SingleDerivedPath \<Rightarrow> 'v DerivedPathMap \<Rightarrow> 'v" where
  "slot_value dflt k m = node_slot dflt (findSlot k m)"

lemma node_update_append:
  "node_update dflt (xs @ [x]) f n = node_update dflt xs (\<lambda>n.
     ChildNode (node_value n) (omap_assign x (f (node_or dflt (map_of (childMap n) x))) (childMap n))) n"
  by (induction xs arbitrary: n) auto

lemma node_find_append: "node_find n (xs @ [x]) = (case node_find n xs of None \<Rightarrow> None | Some c \<Rightarrow> map_of (childMap c) x)"
  by (induction xs arbitrary: n) (auto split: option.splits)

lemma modifySlot_path:
  "modifySlot dflt k f m =
     omap_assign (SDP_getBaseStorePath k) (node_update dflt (sdp_outputs k) f (node_or dflt (map_of m (SDP_getBaseStorePath k)))) m"
  by (induction k arbitrary: f) (simp_all add: node_update_append)

lemma findSlot_path:
  "findSlot k m = (case map_of m (SDP_getBaseStorePath k) of None \<Rightarrow> None | Some n \<Rightarrow> node_find n (sdp_outputs k))"
  by (induction k) (auto simp: node_find_append split: option.splits)

lemma sdp_eq_iff: "k = l \<longleftrightarrow> SDP_getBaseStorePath k = SDP_getBaseStorePath l \<and> sdp_outputs k = sdp_outputs l"
proof (induction k arbitrary: l)
  case (SDP_Opaque p)
  then show ?case by (cases l) auto
next
  case (SDP_Built d out)
  then show ?case by (cases l) auto
qed

lemma node_find_new: "node_slot dflt (node_find (ChildNode dflt []) xs) = dflt"
  by (cases xs) (simp_all add: node_slot_def)

lemma node_or_simps [simp]:
  "node_or dflt None = ChildNode dflt []" "node_or dflt (Some n) = n" "node_or dflt (node_find (ChildNode dflt []) xs) = ChildNode dflt []"
  by (simp_all add: node_or_def) (cases xs; simp add: node_or_def)

lemma node_update_value:
  assumes "\<And>n. childMap (f n) = childMap n"
  shows "node_slot dflt (node_find (node_update dflt xs f n) ys) =
     (if xs = ys then node_value (f (node_or dflt (node_find n xs))) else node_slot dflt (node_find n ys))"
proof (induction xs arbitrary: n ys)
  case Nil
  then show ?case using assms by (cases ys) (auto simp: node_slot_def node_or_def)
next
  case (Cons x xs)
  show ?case
  proof (cases ys)
    case Nil
    then show ?thesis by (simp add: node_slot_def)
  next
    case (Cons y zs)
    have "node_or dflt (node_find (ChildNode dflt []) xs) = node_or dflt None \<or> xs = []" by (cases xs) (simp_all add: node_or_def)
    then show ?thesis
      using Cons Cons.IH [of "node_or dflt (map_of (childMap n) x)" zs] node_find_new [of dflt zs]
      by (auto simp: node_or_def node_slot_def split: option.splits)
  qed
qed

text \<open>
  The trie implements a map from derived paths to values: storing a value in the slot of a path
  changes the value of that path and of no other, however deep the paths and whichever slots on
  the way had to be made, and making a slot without storing changes no value.
\<close>

theorem DerivedPathMap_is_map:
  "slot_value dflt l (modifySlot dflt k (\<lambda>n. ChildNode v (childMap n)) m) = (if l = k then v else slot_value dflt l m) \<and>
   slot_value dflt l (ensureSlot dflt k m) = slot_value dflt l m \<and> findSlot k (ensureSlot dflt k m) \<noteq> None"
proof (intro conjI)
  have "slot_value dflt l (modifySlot dflt k f m) = (if l = k then node_value (f (node_or dflt (findSlot k m))) else slot_value dflt l m)"
    if "\<And>n. childMap (f n) = childMap n" for f
    using node_update_value [of f, OF that] node_find_new [of dflt "sdp_outputs l"]
    by (cases "map_of m (SDP_getBaseStorePath k)")
      (auto simp: slot_value_def modifySlot_path findSlot_path sdp_eq_iff node_slot_def split: option.split)
  note law = this
  show "slot_value dflt l (modifySlot dflt k (\<lambda>n. ChildNode v (childMap n)) m) = (if l = k then v else slot_value dflt l m)"
    by (simp add: law)
  show "slot_value dflt l (ensureSlot dflt k m) = slot_value dflt l m"
    using law [of "\<lambda>n. n"] by (cases "findSlot k m") (simp_all add: ensureSlot_def slot_value_def node_slot_def)
  have "node_find (node_update dflt xs (\<lambda>n. n) n) xs \<noteq> None" for xs and n :: "'a ChildNode"
    by (induction xs arbitrary: n) simp_all
  then show "findSlot k (ensureSlot dflt k m) \<noteq> None" by (simp add: ensureSlot_def modifySlot_path findSlot_path)
qed

end
