(* ===== verification/Zix_Derivations.thy ===== *)
theory Zix_Derivations
  imports Zix_ContentAddress Zix_DerivedPath
begin

text \<open>
  Derivations (derivations.cc): the data type, the kind of a derivation, and the ATerm text in which
  derivations are stored. \<open>hs\<close> is \<^verbatim>\<open>hashString\<close>, \<open>feats\<close> the set of enabled experimental
  features, \<open>store\<close> the store directory.

  The reader consumes a \<^verbatim>\<open>StringViewStream\<close>; a reader of the model takes the remaining input and
  returns what is left. The loops of the reader are bounded by fuel, one unit more than there are
  characters, and \<open>None\<close> is that the fuel runs out; the theorems show that it never does.
\<close>

section \<open>Derivations\<close>

datatype DerivationOutput =
    DO_InputAddressed StorePath
  | DO_CAFixed ContentAddress
  | DO_CAFloating ContentAddressMethod HashAlgorithm
  | DO_Deferred
  | DO_Impure ContentAddressMethod HashAlgorithm

record BasicDerivation =
  d_outputs :: "(string, DerivationOutput) omap"
  d_inputSrcs :: "StorePath oset"
  d_platform :: string
  d_builder :: string
  d_args :: "string list"
  d_env :: "(string, string) omap"
  d_name :: string

type_synonym InputNode = "string oset ChildNode"

record Derivation = BasicDerivation +
  d_inputDrvs :: "string oset DerivedPathMap"

definition CAFixed_path :: "hash_fun \<Rightarrow> xp set \<Rightarrow> string \<Rightarrow> string \<Rightarrow> string \<Rightarrow> ContentAddress \<Rightarrow> StorePath result" where
  "CAFixed_path hs feats store drvName outputName ca =
     makeFixedOutputPathFromCA hs feats store (outputPathName drvName outputName) (withoutRefs ca)"

fun DerivationOutput_path ::
  "hash_fun \<Rightarrow> xp set \<Rightarrow> string \<Rightarrow> string \<Rightarrow> string \<Rightarrow> DerivationOutput \<Rightarrow> StorePath option result" where
  "DerivationOutput_path hs feats store drvName outputName (DO_InputAddressed p) = Inr (Some p)"
| "DerivationOutput_path hs feats store drvName outputName (DO_CAFixed ca) =
     rbind (CAFixed_path hs feats store drvName outputName ca) (\<lambda>p. Inr (Some p))"
| "DerivationOutput_path hs feats store drvName outputName (DO_CAFloating m ha) = Inr None"
| "DerivationOutput_path hs feats store drvName outputName DO_Deferred = Inr None"
| "DerivationOutput_path hs feats store drvName outputName (DO_Impure m ha) = Inr None"

datatype DerivationType =
    DT_InputAddressed (deferred: bool)
  | DT_ContentAddressed (sandboxed: bool) (fixed_output: bool)
  | DT_Impure

fun isCA :: "DerivationType \<Rightarrow> bool" where
  "isCA (DT_InputAddressed d) = False"
| "isCA (DT_ContentAddressed s f) = True"
| "isCA DT_Impure = True"

fun isFixed :: "DerivationType \<Rightarrow> bool" where
  "isFixed (DT_InputAddressed d) = False"
| "isFixed (DT_ContentAddressed s f) = f"
| "isFixed DT_Impure = False"

fun hasKnownOutputPaths :: "DerivationType \<Rightarrow> bool" where
  "hasKnownOutputPaths (DT_InputAddressed d) = (\<not> d)"
| "hasKnownOutputPaths (DT_ContentAddressed s f) = f"
| "hasKnownOutputPaths DT_Impure = False"

fun isSandboxed :: "DerivationType \<Rightarrow> bool" where
  "isSandboxed (DT_InputAddressed d) = True"
| "isSandboxed (DT_ContentAddressed s f) = s"
| "isSandboxed DT_Impure = False"

fun isImpure :: "DerivationType \<Rightarrow> bool" where
  "isImpure (DT_InputAddressed d) = False"
| "isImpure (DT_ContentAddressed s f) = False"
| "isImpure DT_Impure = True"

definition isBuiltin :: "'a BasicDerivation_scheme \<Rightarrow> bool" where
  "isBuiltin drv = (take 8 (d_builder drv) = ''builtin:'')"

text \<open>The sets of outputs by kind that \<^verbatim>\<open>type()\<close> collects.\<close>

record output_kinds =
  inputAddressedOutputs :: "string oset"
  fixedCAOutputs :: "string oset"
  floatingCAOutputs :: "string oset"
  deferredIAOutputs :: "string oset"
  impureOutputs :: "string oset"
  floatingHashAlgo :: "HashAlgorithm option"

fun classify :: "string \<Rightarrow> DerivationOutput \<Rightarrow> output_kinds \<Rightarrow> output_kinds result" where
  "classify n (DO_InputAddressed p) k = Inr (k\<lparr>inputAddressedOutputs := oset_insert n (inputAddressedOutputs k)\<rparr>)"
| "classify n (DO_CAFixed ca) k = Inr (k\<lparr>fixedCAOutputs := oset_insert n (fixedCAOutputs k)\<rparr>)"
| "classify n (DO_CAFloating m ha) k =
     (let k = k\<lparr>floatingCAOutputs := oset_insert n (floatingCAOutputs k)\<rparr> in
      case floatingHashAlgo k of
        None \<Rightarrow> Inr (k\<lparr>floatingHashAlgo := Some ha\<rparr>)
      | Some ha' \<Rightarrow> if ha' \<noteq> ha then Inl (Error ''all floating outputs must use the same hash algorithm'') else Inr k)"
| "classify n DO_Deferred k = Inr (k\<lparr>deferredIAOutputs := oset_insert n (deferredIAOutputs k)\<rparr>)"
| "classify n (DO_Impure m ha) k = Inr (k\<lparr>impureOutputs := oset_insert n (impureOutputs k)\<rparr>)"

fun classify_all :: "(string \<times> DerivationOutput) list \<Rightarrow> output_kinds \<Rightarrow> output_kinds result" where
  "classify_all [] k = Inr k"
| "classify_all ((n, x) # xs) k = rbind (classify n x k) (classify_all xs)"

definition drv_type :: "'a BasicDerivation_scheme \<Rightarrow> DerivationType result" where
  "drv_type drv =
     rbind (classify_all (d_outputs drv)
       \<lparr>inputAddressedOutputs = [], fixedCAOutputs = [], floatingCAOutputs = [], deferredIAOutputs = [], impureOutputs = [],
        floatingHashAlgo = None\<rparr>) (\<lambda>k.
       let ia = (inputAddressedOutputs k = []); fx = (fixedCAOutputs k = []); fl = (floatingCAOutputs k = []);
           df = (deferredIAOutputs k = []); im = (impureOutputs k = []) in
       if ia \<and> fx \<and> fl \<and> df \<and> im then Inl (Error ''must have at least one output'')
       else if \<not> ia \<and> fx \<and> fl \<and> df \<and> im then Inr (DT_InputAddressed False)
       else if ia \<and> \<not> fx \<and> fl \<and> df \<and> im then
         (if length (fixedCAOutputs k) > 1 then Inl (Error ''only one fixed output is allowed for now'')
          else if hd (fixedCAOutputs k) \<noteq> ''out'' then Inl (Error ''single fixed output must be named out'')
          else Inr (DT_ContentAddressed False True))
       else if ia \<and> fx \<and> \<not> fl \<and> df \<and> im then Inr (DT_ContentAddressed True False)
       else if ia \<and> fx \<and> fl \<and> \<not> df \<and> im then Inr (DT_InputAddressed True)
       else if ia \<and> fx \<and> fl \<and> df \<and> \<not> im then Inr DT_Impure
       else Inl (Error ''can't mix derivation output types''))"

definition outputNames :: "'a BasicDerivation_scheme \<Rightarrow> string oset" where
  "outputNames drv = oset_of (map fst (d_outputs drv))"

definition nameFromPath :: "StorePath \<Rightarrow> string result" where
  "nameFromPath drvPath =
     rbind (requireDerivation drvPath) (\<lambda>_. Inr (take (length (sp_name drvPath) - length drvExtension) (sp_name drvPath)))"

section \<open>Reading the ATerm text\<close>

definition drv_expect :: "string \<Rightarrow> string \<Rightarrow> string result" where
  "drv_expect s str = (if prefix s str then Inr (drop (length s) str) else Inl (FormatError ''expected string''))"

definition escapes :: "char \<Rightarrow> char" where
  "escapes c = (if c = CHR ''n'' then CHR 0x0A else if c = CHR ''r'' then CHR 0x0D else if c = CHR ''t'' then CHR 0x09 else c)"

text \<open>
  \<^verbatim>\<open>parseString\<close>: the first loop finds the end of the content, the second undoes the escapes. When
  the input ends before the closing quote, \<^verbatim>\<open>remove_prefix\<close> is asked for one character more than
  there is.
\<close>

fun scan_content :: "string \<Rightarrow> string \<Rightarrow> bool \<Rightarrow> (string \<times> bool \<times> string) result" where
  "scan_content [] acc esc = Inr (acc, esc, [])"
| "scan_content (c # s) acc esc =
     (if c = CHR 0x22 then Inr (acc, esc, c # s)
      else if c = CHR 0x5C then
        (case s of [] \<Rightarrow> Inl (FormatError ''unterminated string in derivation'') | d # s' \<Rightarrow> scan_content s' (acc @ [c, d]) True)
      else scan_content s (acc @ [c]) esc)"

fun unescape :: "string \<Rightarrow> string result" where
  "unescape [] = Inr []"
| "unescape (c # s) =
     (if c = CHR 0x5C then
        (case s of [] \<Rightarrow> Inl (UndefinedBehaviour ''read past the end'') | d # s' \<Rightarrow> rbind (unescape s') (\<lambda>r. Inr (escapes d # r)))
      else rbind (unescape s) (\<lambda>r. Inr (c # r)))"

definition parseString :: "string \<Rightarrow> (string \<times> string) result" where
  "parseString str =
     rbind (drv_expect [CHR 0x22] str) (\<lambda>str.
     rbind (scan_content str [] False) (\<lambda>(content, escaped, rest).
       if rest = [] then Inl (UndefinedBehaviour ''remove_prefix past the end'')
       else rbind (if escaped then unescape content else Inr content) (\<lambda>res. Inr (res, tl rest))))"

definition validatePath :: "string \<Rightarrow> unit result" where
  "validatePath s = (if s = [] \<or> hd s \<noteq> slash then Inl (FormatError ''bad path in derivation'') else Inr ())"

definition parsePath :: "string \<Rightarrow> (string \<times> string) result" where
  "parsePath str = rbind (parseString str) (\<lambda>(s, str). rbind (validatePath s) (\<lambda>_. Inr (s, str)))"

definition endOfList :: "string \<Rightarrow> bool \<times> string" where
  "endOfList str =
     (if str \<noteq> [] \<and> hd str = CHR '','' then (False, tl str)
      else if str \<noteq> [] \<and> hd str = CHR '']'' then (True, tl str)
      else (False, str))"

text \<open>The loops \<^verbatim>\<open>while (!endOfList(str))\<close>.\<close>

primrec parse_list :: "nat \<Rightarrow> (string \<Rightarrow> ('a \<times> string) result option) \<Rightarrow> string \<Rightarrow> ('a list \<times> string) result option" where
  "parse_list 0 item str = None"
| "parse_list (Suc fuel) item str =
     (let (fin, str) = endOfList str in
      if fin then Some (Inr ([], str))
      else fbind (item str) (\<lambda>(x, str). fbind (parse_list fuel item str) (\<lambda>(xs, str). Some (Inr (x # xs, str)))))"

definition parse_items :: "(string \<Rightarrow> ('a \<times> string) result option) \<Rightarrow> string \<Rightarrow> ('a list \<times> string) result option" where
  "parse_items item str = parse_list (Suc (length str)) item str"

definition parseStrings :: "bool \<Rightarrow> string \<Rightarrow> (string oset \<times> string) result option" where
  "parseStrings arePaths str =
     fbind (Some (drv_expect ''['' str)) (\<lambda>str.
     fbind (parse_items (\<lambda>str. Some (if arePaths then parsePath str else parseString str)) str) (\<lambda>(xs, str).
       Some (Inr (oset_of xs, str))))"

definition parseDerivationOutput :: "xp set \<Rightarrow> string \<Rightarrow> string \<Rightarrow> string \<Rightarrow> string \<Rightarrow> DerivationOutput result" where
  "parseDerivationOutput feats store pathS hashAlgoStr hashS =
     (if hashAlgoStr \<noteq> [] then
        rbind (parsePrefix feats hashAlgoStr) (\<lambda>(method, hashAlgoStr).
        rbind (if method = CAM_Text then require feats DynamicDerivations else Inr ()) (\<lambda>_.
        rbind (parseHashAlgo hashAlgoStr) (\<lambda>hashAlgo.
          if hashS = ''impure'' then
            rbind (require feats ImpureDerivations) (\<lambda>_.
              if pathS \<noteq> [] then Inl (FormatError ''impure derivation output should not specify output path'')
              else Inr (DO_Impure method hashAlgo))
          else if hashS \<noteq> [] then
            rbind (validatePath pathS) (\<lambda>_.
            rbind (parseNonSRIUnprefixed feats hashS hashAlgo) (\<lambda>h.
              Inr (DO_CAFixed \<lparr>ca_method = method, ca_hash = h\<rparr>)))
          else
            rbind (require feats CaDerivations) (\<lambda>_.
              if pathS \<noteq> [] then Inl (FormatError ''content-addressing derivation output should not specify output path'')
              else Inr (DO_CAFloating method hashAlgo)))))
      else if pathS = [] then Inr DO_Deferred
      else rbind (validatePath pathS) (\<lambda>_. rbind (parseStorePath store pathS) (\<lambda>p. Inr (DO_InputAddressed p))))"

definition parseDerivationOutput_stream :: "xp set \<Rightarrow> string \<Rightarrow> string \<Rightarrow> (DerivationOutput \<times> string) result" where
  "parseDerivationOutput_stream feats store str =
     rbind (drv_expect '','' str) (\<lambda>str. rbind (parseString str) (\<lambda>(pathS, str).
     rbind (drv_expect '','' str) (\<lambda>str. rbind (parseString str) (\<lambda>(hashAlgo, str).
     rbind (drv_expect '','' str) (\<lambda>str. rbind (parseString str) (\<lambda>(hash_s, str).
     rbind (drv_expect '')'' str) (\<lambda>str.
     rbind (parseDerivationOutput feats store pathS hashAlgo hash_s) (\<lambda>out. Inr (out, str)))))))))"

datatype DerivationATermVersion = Traditional | VersionDynamicDerivations

primrec parseDerivedPathMapNode :: "nat \<Rightarrow> DerivationATermVersion \<Rightarrow> string \<Rightarrow> (InputNode \<times> string) result option" where
  "parseDerivedPathMapNode 0 version str = None"
| "parseDerivedPathMapNode (Suc fuel) version str =
     (if version = Traditional \<or> str \<noteq> [] \<and> hd str = CHR ''['' then
        fbind (parseStrings False str) (\<lambda>(v, str). Some (Inr (ChildNode v [], str)))
      else if str \<noteq> [] \<and> hd str = CHR ''('' then
        fbind (Some (drv_expect ''('' str)) (\<lambda>str.
        fbind (parseStrings False str) (\<lambda>(v, str).
        fbind (Some (drv_expect '',['' str)) (\<lambda>str.
        fbind (parse_items (\<lambda>str.
            fbind (Some (drv_expect ''('' str)) (\<lambda>str.
            fbind (Some (parseString str)) (\<lambda>(outputName, str).
            fbind (Some (drv_expect '','' str)) (\<lambda>str.
            fbind (parseDerivedPathMapNode fuel version str) (\<lambda>(node, str).
            fbind (Some (drv_expect '')'' str)) (\<lambda>str. Some (Inr ((outputName, node), str)))))))) str) (\<lambda>(kids, str).
        fbind (Some (drv_expect '')'' str)) (\<lambda>str.
          Some (Inr (ChildNode v (fold (\<lambda>(k, n). omap_assign k n) kids []), str)))))))
      else Some (Inl (FormatError ''invalid inputDrvs entry in derivation'')))"

definition parse_output_item :: "xp set \<Rightarrow> string \<Rightarrow> string \<Rightarrow> ((string \<times> DerivationOutput) \<times> string) result option" where
  "parse_output_item feats store str =
     Some (rbind (drv_expect ''('' str) (\<lambda>str.
           rbind (parseString str) (\<lambda>(n, str).
           rbind (parseDerivationOutput_stream feats store str) (\<lambda>(out, str). Inr ((n, out), str)))))"

definition parse_input_item :: "DerivationATermVersion \<Rightarrow> string \<Rightarrow> string \<Rightarrow> ((StorePath \<times> InputNode) \<times> string) result option" where
  "parse_input_item version store str =
     fbind (Some (drv_expect ''('' str)) (\<lambda>str.
     fbind (Some (parsePath str)) (\<lambda>(drvPath, str).
     fbind (Some (drv_expect '','' str)) (\<lambda>str.
     fbind (Some (parseStorePath store drvPath)) (\<lambda>p.
     fbind (parseDerivedPathMapNode (Suc (length str)) version str) (\<lambda>(node, str).
     fbind (Some (drv_expect '')'' str)) (\<lambda>str. Some (Inr ((p, node), str))))))))"

definition parse_env_item :: "string \<Rightarrow> ((string \<times> string) \<times> string) result option" where
  "parse_env_item str =
     Some (rbind (drv_expect ''('' str) (\<lambda>str. rbind (parseString str) (\<lambda>(n, str).
           rbind (drv_expect '','' str) (\<lambda>str. rbind (parseString str) (\<lambda>(v, str).
           rbind (drv_expect '')'' str) (\<lambda>str. Inr ((n, v), str)))))))"

definition parse_version :: "xp set \<Rightarrow> string \<Rightarrow> (DerivationATermVersion \<times> string) result" where
  "parse_version feats str =
     rbind (drv_expect ''D'' str) (\<lambda>str.
       if str \<noteq> [] \<and> hd str = CHR ''e'' then rbind (drv_expect ''erive('' str) (\<lambda>str. Inr (Traditional, str))
       else if str \<noteq> [] \<and> hd str = CHR ''r'' then
         rbind (drv_expect ''rvWithVersion('' str) (\<lambda>str.
         rbind (parseString str) (\<lambda>(versionS, str).
         rbind (if versionS = ''xp-dyn-drv'' then require feats DynamicDerivations
                else Inl (FormatError ''Unknown derivation ATerm format version'')) (\<lambda>_.
         rbind (drv_expect '','' str) (\<lambda>str. Inr (VersionDynamicDerivations, str)))))
       else Inl (Error ''derivation does not start with 'Derive' or 'DrvWithVersion' ''))"

definition parseDerivation :: "xp set \<Rightarrow> string \<Rightarrow> string \<Rightarrow> string \<Rightarrow> Derivation result option" where
  "parseDerivation feats store s name =
     fbind (Some (parse_version feats s)) (\<lambda>(version, str).
     fbind (Some (drv_expect ''['' str)) (\<lambda>str.
     fbind (parse_items (parse_output_item feats store) str) (\<lambda>(outs, str).
     fbind (Some (drv_expect '',['' str)) (\<lambda>str.
     fbind (parse_items (parse_input_item version store) str) (\<lambda>(ins, str).
     fbind (Some (drv_expect '','' str)) (\<lambda>str.
     fbind (parseStrings True str) (\<lambda>(srcs, str).
     fbind (Some (parseStorePathSet store srcs)) (\<lambda>inputSrcs.
     fbind (Some (drv_expect '','' str)) (\<lambda>str.
     fbind (Some (parseString str)) (\<lambda>(platform, str).
     fbind (Some (drv_expect '','' str)) (\<lambda>str.
     fbind (Some (parseString str)) (\<lambda>(builder, str).
     fbind (Some (drv_expect '',['' str)) (\<lambda>str.
     fbind (parse_items (\<lambda>str. Some (parseString str)) str) (\<lambda>(args, str).
     fbind (Some (drv_expect '',['' str)) (\<lambda>str.
     fbind (parse_items parse_env_item str) (\<lambda>(env, str).
     fbind (Some (drv_expect '')'' str)) (\<lambda>str.
       Some (Inr
         \<lparr>d_outputs = fold (\<lambda>(n, out). omap_emplace n out) outs [], d_inputSrcs = inputSrcs, d_platform = platform,
          d_builder = builder, d_args = args, d_env = fold (\<lambda>(n, v). omap_assign n v) env [], d_name = name,
          d_inputDrvs = fold (\<lambda>(p, n). omap_assign p n) ins []\<rparr>))))))))))))))))))"

section \<open>Writing the ATerm text\<close>

definition escape_char :: "char \<Rightarrow> string" where
  "escape_char c =
     (if c = CHR 0x22 \<or> c = CHR 0x5C then [CHR 0x5C, c]
      else if c = CHR 0x0A then [CHR 0x5C, CHR ''n'']
      else if c = CHR 0x0D then [CHR 0x5C, CHR ''r'']
      else if c = CHR 0x09 then [CHR 0x5C, CHR ''t'']
      else [c])"

definition printString :: "string \<Rightarrow> string" where
  "printString s = [CHR 0x22] @ concat (map escape_char s) @ [CHR 0x22]"

definition printUnquotedString :: "string \<Rightarrow> string" where
  "printUnquotedString s = [CHR 0x22] @ s @ [CHR 0x22]"

definition printStrings :: "string list \<Rightarrow> string" where
  "printStrings ss = ''['' @ concatStringsSep '','' (map printString ss) @ '']''"

definition printUnquotedStrings :: "string list \<Rightarrow> string" where
  "printUnquotedStrings ss = ''['' @ concatStringsSep '','' (map printUnquotedString ss) @ '']''"

fun unparseDerivedPathMapNode :: "InputNode \<Rightarrow> string" where
  "unparseDerivedPathMapNode (ChildNode v kids) =
     '','' @
     (if kids = [] then printUnquotedStrings v
      else ''('' @ printUnquotedStrings v @ '',['' @
        concatStringsSep '','' (map (\<lambda>(outputName, childNode).
          ''('' @ printUnquotedString outputName @ unparseDerivedPathMapNode childNode @ '')'') kids) @ ''])'')"

definition hasDynamicDrvDep :: "Derivation \<Rightarrow> bool" where
  "hasDynamicDrvDep drv = list_ex (\<lambda>(p, n). childMap n \<noteq> []) (d_inputDrvs drv)"

definition three :: "string \<Rightarrow> string \<Rightarrow> string \<Rightarrow> string" where
  "three a b c = '','' @ printUnquotedString a @ '','' @ printUnquotedString b @ '','' @ printUnquotedString c"

fun unparse_output :: "hash_fun \<Rightarrow> xp set \<Rightarrow> string \<Rightarrow> bool \<Rightarrow> string \<Rightarrow> string \<Rightarrow> DerivationOutput \<Rightarrow> string result" where
  "unparse_output hs feats store maskOutputs name n (DO_InputAddressed p) =
     Inr (three (if maskOutputs then [] else printStorePath store p) [] [])"
| "unparse_output hs feats store maskOutputs name n (DO_CAFixed ca) =
     rbind (if maskOutputs then Inr [] else rbind (CAFixed_path hs feats store name n ca) (\<lambda>p. Inr (printStorePath store p))) (\<lambda>pathS.
     rbind (printMethodAlgo feats ca) (\<lambda>m.
     rbind (to_string (ca_hash ca) Base16 False) (\<lambda>h. Inr (three pathS m h))))"
| "unparse_output hs feats store maskOutputs name n (DO_CAFloating m ha) =
     rbind (renderPrefix feats m) (\<lambda>p. Inr (three [] (p @ printHashAlgo ha) []))"
| "unparse_output hs feats store maskOutputs name n DO_Deferred = Inr (three [] [] [])"
| "unparse_output hs feats store maskOutputs name n (DO_Impure m ha) =
     rbind (renderPrefix feats m) (\<lambda>p. Inr (three [] (p @ printHashAlgo ha) ''impure''))"

definition unparse_output_item ::
  "hash_fun \<Rightarrow> xp set \<Rightarrow> string \<Rightarrow> bool \<Rightarrow> string \<Rightarrow> string \<times> DerivationOutput \<Rightarrow> string result" where
  "unparse_output_item hs feats store maskOutputs name = (\<lambda>(n, out).
     rbind (unparse_output hs feats store maskOutputs name n out) (\<lambda>t. Inr (''('' @ printUnquotedString n @ t @ '')'')))"

definition unparse_input_item :: "string \<times> InputNode \<Rightarrow> string" where
  "unparse_input_item = (\<lambda>(p, node). ''('' @ printUnquotedString p @ unparseDerivedPathMapNode node @ '')'')"

definition unparse_env_item :: "bool \<Rightarrow> (string, DerivationOutput) omap \<Rightarrow> string \<times> string \<Rightarrow> string" where
  "unparse_env_item maskOutputs outputs = (\<lambda>(n, v).
     ''('' @ printString n @ '','' @ printString (if maskOutputs \<and> n \<in> set (map fst outputs) then [] else v) @ '')'')"

definition unparse ::
  "hash_fun \<Rightarrow> xp set \<Rightarrow> string \<Rightarrow> Derivation \<Rightarrow> bool \<Rightarrow> (string, InputNode) omap option \<Rightarrow> string result" where
  "unparse hs feats store drv maskOutputs actualInputs =
     rbind (rmap (unparse_output_item hs feats store maskOutputs (d_name drv)) (d_outputs drv)) (\<lambda>outs.
       Inr ((if hasDynamicDrvDep drv then ''DrvWithVersion('' @ printUnquotedString ''xp-dyn-drv'' @ '','' else ''Derive('') @
         ''['' @ concatStringsSep '','' outs @ ''],['' @
         concatStringsSep '','' (map unparse_input_item
           (case actualInputs of
              Some ins \<Rightarrow> ins
            | None \<Rightarrow> map (\<lambda>(p, n). (printStorePath store p, n)) (d_inputDrvs drv))) @
         ''],'' @ printUnquotedStrings (printStorePathSet store (d_inputSrcs drv)) @
         '','' @ printUnquotedString (d_platform drv) @
         '','' @ printString (d_builder drv) @
         '','' @ printStrings (d_args drv) @
         '',['' @ concatStringsSep '','' (map (unparse_env_item maskOutputs (d_outputs drv)) (d_env drv)) @ ''])''))"

section \<open>Strings\<close>

definition plain :: "string \<Rightarrow> bool" where
  "plain s \<longleftrightarrow> CHR 0x22 \<notin> set s \<and> CHR 0x5C \<notin> set s"

lemma drv_expect_append [simp]: "drv_expect t (t @ s) = Inr s"
  by (simp add: drv_expect_def)

lemma drv_expect_Cons [simp]:
  "drv_expect [] s = Inr s"
  "drv_expect (c # t) (d # s) = (if c = d then drv_expect t s else Inl (FormatError ''expected string''))"
  by (simp_all add: drv_expect_def)

lemma scan_plain: "plain s \<Longrightarrow> scan_content (s @ CHR 0x22 # r) acc esc = Inr (acc @ s, esc, CHR 0x22 # r)"
  by (induction s arbitrary: acc) (auto simp: plain_def)

definition needs_escape :: "char \<Rightarrow> bool" where
  "needs_escape c \<longleftrightarrow> c \<in> {CHR 0x22, CHR 0x5C, CHR 0x0A, CHR 0x0D, CHR 0x09}"

lemma scan_escaped:
  "scan_content (concat (map escape_char s) @ CHR 0x22 # r) acc esc =
     Inr (acc @ concat (map escape_char s), esc \<or> list_ex needs_escape s, CHR 0x22 # r)"
  by (induction s arbitrary: acc esc) (simp_all add: escape_char_def needs_escape_def)

lemma no_escape: "\<not> list_ex needs_escape s \<Longrightarrow> concat (map escape_char s) = s"
  by (induction s) (simp_all add: escape_char_def needs_escape_def)

lemma unescape_escaped: "unescape (concat (map escape_char s)) = Inr s"
  by (induction s) (auto simp: escape_char_def escapes_def)

interpretation drv_string: codec printString parseString "\<lambda>_. True"
  by unfold_locales (simp add: printString_def parseString_def scan_escaped unescape_escaped no_escape)

interpretation drv_unquoted: codec printUnquotedString parseString plain
  by unfold_locales (simp add: printUnquotedString_def parseString_def scan_plain)

lemmas drv_codecs = drv_string.get_put drv_unquoted.get_put

section \<open>Lists\<close>

text \<open>The text \<open>t\<close> is read as the item \<open>x\<close>, whatever follows.\<close>

definition reads :: "(string \<Rightarrow> ('a \<times> string) result option) \<Rightarrow> string \<Rightarrow> 'a \<Rightarrow> bool" where
  "reads item t x \<longleftrightarrow> (\<forall>r. item (t @ r) = Some (Inr (x, r))) \<and> t \<noteq> [] \<and> hd t \<notin> {CHR '','', CHR '']''}"

lemma parse_list_tail:
  assumes "list_all2 (reads item) ts xs" "length xs < fuel"
  shows "parse_list fuel item (concat (map (\<lambda>t. '','' @ t) ts) @ CHR '']'' # r) = Some (Inr (xs, r))"
  using assms
proof (induction ts xs arbitrary: fuel rule: list_all2_induct)
  case Nil
  then show ?case by (cases fuel) (simp_all add: endOfList_def)
next
  case (Cons t ts x xs)
  then obtain n where "fuel = Suc n" by (cases fuel) auto
  with Cons show ?case by (simp add: endOfList_def reads_def)
qed

lemma parse_list_print:
  assumes "list_all2 (reads item) ts xs" "length xs < fuel"
  shows "parse_list fuel item (concatStringsSep '','' ts @ CHR '']'' # r) = Some (Inr (xs, r))"
proof (cases ts)
  case Nil
  with assms show ?thesis by (cases fuel) (simp_all add: endOfList_def)
next
  case (Cons t us)
  with assms obtain x ys where xs: "xs = x # ys" "reads item t x" "list_all2 (reads item) us ys" by (auto simp: list_all2_Cons1)
  obtain n where n: "fuel = Suc n" using assms(2) by (cases fuel) auto
  have "endOfList (t @ s) = (False, t @ s)" for s using xs(2) by (cases t) (auto simp: reads_def endOfList_def)
  with xs n Cons parse_list_tail [OF xs(3), of n r] assms(2) show ?thesis by (simp add: reads_def)
qed

lemma list_all2_reads_map: "(\<And>x. x \<in> set xs \<Longrightarrow> reads item (put x) x) \<Longrightarrow> list_all2 (reads item) (map put xs) xs"
  by (induction xs) simp_all

lemma length_items: "list_all2 (reads item) ts xs \<Longrightarrow> length xs \<le> length (concatStringsSep '','' ts)"
proof (cases ts)
  case (Cons t us)
  assume rel: "list_all2 (reads item) ts xs"
  have "length zs \<le> length (concat (map (\<lambda>t. '','' @ t) us))" if "list_all2 (reads item) us zs" for us zs
    using that by (induction rule: list_all2_induct) simp_all
  moreover obtain x zs where "xs = x # zs" "t \<noteq> []" "list_all2 (reads item) us zs"
    using rel Cons by (auto simp: list_all2_Cons1 reads_def)
  ultimately show ?thesis using Cons by (cases t) (auto intro: trans_le_add2)
qed simp

lemma parse_list_text:
  assumes "list_all2 (reads item) ts xs"
  shows "parse_items item (concatStringsSep '','' ts @ CHR '']'' # r) = Some (Inr (xs, r))"
  unfolding parse_items_def by (rule parse_list_print [OF assms]) (use length_items [OF assms] in simp)

lemma printed_hd [simp]:
  "printString s \<noteq> []" "hd (printString s) = CHR 0x22" "printUnquotedString s \<noteq> []" "hd (printUnquotedString s) = CHR 0x22"
  by (simp_all add: printString_def printUnquotedString_def)

lemma parseStrings_print:
  assumes "oset_ok v" "list_all plain v"
  shows "parseStrings False (printUnquotedStrings v @ r) = Some (Inr (v, r))"
proof -
  have "list_all2 (reads (\<lambda>str. Some (parseString str))) (map printUnquotedString v) v"
    using assms(2) by (intro list_all2_reads_map) (auto simp: reads_def list_all_iff drv_codecs)
  from parse_list_text [OF this, of r] show ?thesis
    using assms(1) by (simp add: parseStrings_def printUnquotedStrings_def oset_of_id)
qed

fun node_ok :: "InputNode \<Rightarrow> bool" where
  "node_ok (ChildNode v kids) \<longleftrightarrow> oset_ok v \<and> list_all plain v \<and> omap_ok kids \<and> list_all (\<lambda>(k, n). plain k \<and> node_ok n) kids"

lemma fold_assign_id: "omap_ok m \<Longrightarrow> fold (\<lambda>(k, v). omap_assign k v) m [] = m"
  using fold_omap_assign_append [of "[]" m] by simp

definition node_text :: "InputNode \<Rightarrow> string" where
  "node_text n = tl (unparseDerivedPathMapNode n)"

lemma unparse_node: "unparseDerivedPathMapNode n = CHR '','' # node_text n"
  by (cases n) (simp add: node_text_def)

lemma node_text_leaf: "node_text (ChildNode v []) = printUnquotedStrings v"
  by (simp add: node_text_def)

lemma node_text_kids:
  "kids \<noteq> [] \<Longrightarrow> node_text (ChildNode v kids) = ''('' @ printUnquotedStrings v @ '',['' @
     concatStringsSep '','' (map (\<lambda>(k, n). ''('' @ printUnquotedString k @ '','' @ node_text n @ '')'') kids) @ ''])''"
proof -
  assume "kids \<noteq> []"
  moreover have "(\<lambda>(k, n). ''('' @ printUnquotedString k @ unparseDerivedPathMapNode n @ '')'') =
      (\<lambda>(k, n). ''('' @ printUnquotedString k @ '','' @ node_text n @ '')'')"
    by (simp add: unparse_node)
  ultimately show ?thesis unfolding node_text_def [of "ChildNode v kids"] unparseDerivedPathMapNode.simps by simp
qed

lemma length_concatSep: "t \<in> set ts \<Longrightarrow> length t \<le> length (concatStringsSep sep ts)"
proof (induction ts)
  case (Cons u us)
  have "length t \<le> length (concat (map (\<lambda>i. sep @ i) us))" if "t \<in> set us"
    using that by (induction us) auto
  with Cons show ?case by auto
qed simp

lemma parse_node:
  assumes "node_ok n" "length (node_text n) \<le> fuel"
  shows "parseDerivedPathMapNode (Suc fuel) VersionDynamicDerivations (node_text n @ r) = Some (Inr (n, r))"
  using assms
proof (induction n arbitrary: fuel r)
  case (ChildNode v kids)
  have v: "oset_ok v" "list_all plain v" using ChildNode.prems by simp_all
  show ?case
  proof (cases "kids = []")
    case True
    have "hd (printUnquotedStrings v @ r) = CHR ''[''" "printUnquotedStrings v @ r \<noteq> []" by (simp_all add: printUnquotedStrings_def)
    with True v show ?thesis by (simp add: node_text_leaf parseStrings_print)
  next
    case False
    let ?item = "\<lambda>str. fbind (Some (drv_expect ''('' str)) (\<lambda>str.
            fbind (Some (parseString str)) (\<lambda>(outputName, str).
            fbind (Some (drv_expect '','' str)) (\<lambda>str.
            fbind (parseDerivedPathMapNode fuel VersionDynamicDerivations str) (\<lambda>(node, str).
            fbind (Some (drv_expect '')'' str)) (\<lambda>str. Some (Inr ((outputName, node), str)))))))"
    let ?put = "\<lambda>(k, n). ''('' @ printUnquotedString k @ '','' @ node_text n @ '')''"
    have "reads ?item (?put e) e" if e: "e \<in> set kids" for e
    proof -
      obtain k n where kn: "e = (k, n)" by (cases e)
      have "length (?put e) \<le> length (concatStringsSep '','' (map ?put kids))" using e by (intro length_concatSep) auto
      then have "length (node_text n) + 2 < fuel" using ChildNode.prems(2) False kn by (simp add: node_text_kids)
      then obtain m where m: "fuel = Suc m" "length (node_text n) \<le> m" by (cases fuel) auto
      have "parseDerivedPathMapNode fuel VersionDynamicDerivations (node_text n @ r) = Some (Inr (n, r))" for r
        using ChildNode.IH [OF e, of n m r] ChildNode.prems(1) e kn m by (auto simp: list_all_iff simp del: parseDerivedPathMapNode.simps)
      moreover have "plain k" using ChildNode.prems(1) e kn by (auto simp: list_all_iff)
      ultimately show ?thesis using kn by (simp add: reads_def drv_codecs del: parseDerivedPathMapNode.simps)
    qed
    then have "list_all2 (reads ?item) (map ?put kids) kids" by (rule list_all2_reads_map)
    from parse_list_text [OF this, of "CHR '')'' # r"] ChildNode.prems(1) False v show ?thesis
      by (simp add: node_text_kids parseStrings_print fold_assign_id)
  qed
qed

section \<open>Outputs\<close>

lemma makeStorePath_proper:
  assumes "makeStorePath hs feats dir t h name = Inr p" "hash_law feats hs"
  shows "sp_proper p"
proof -
  obtain d c where "hs SHA256 (store_fingerprint dir t h name) = Inr d" "compressHash feats d 20 = Inr c"
    "hash_sized c" "hashSize c = 20" by (rule hash_law_SHA256 [OF assms(2)])
  with assms(1) have "valid_name name" and p: "p = StorePath (print32 c @ ''-'' @ name)"
    by (auto simp: makeStorePath_def mkStorePath_hash_eq split: if_splits)
  moreover have "length (print32 c) = 32" using \<open>hashSize c = 20\<close> by (simp add: base32Len_def)
  then have "sp_baseName p ! HashLen = CHR ''-''" unfolding p by (simp add: nth_append HashLen_def)
  ultimately show ?thesis
    using made_path(1) [OF \<open>hash_sized c\<close> \<open>hashSize c = 20\<close>] by (simp add: sp_proper_def)
qed

lemma made_proper:
  assumes "makeFixedOutputPathFromCA hs feats dir name ca = Inr p" "hash_law feats hs"
  shows "sp_proper p"
  using assms(1) makeStorePath_proper [OF _ assms(2)]
  by (cases ca) (auto simp: makeFixedOutputPath_def makeStorePath_hash_def result_simps split: if_splits)

lemma quotes_not_name: "\<not> name_char (CHR 0x22)" "\<not> name_char (CHR 0x5C)" "slash \<noteq> CHR 0x22" "slash \<noteq> CHR 0x5C"
  by (simp_all add: name_char_def less_eq_char_def)

lemma print_path_plain: "sp_proper p \<Longrightarrow> plain store \<Longrightarrow> plain (printStorePath store p)"
  using printStorePath_char [of p "CHR 0x22" store] printStorePath_char [of p "CHR 0x5C" store] quotes_not_name
  by (simp add: plain_def)

lemma prefix_algo:
  assumes "method_enabled feats m" "renderPrefix feats m = Inr pre"
  shows "parsePrefix feats (pre @ printHashAlgo ha) = Inr (m, printHashAlgo ha)" "plain (pre @ printHashAlgo ha)" "printHashAlgo ha \<noteq> []"
proof -
  show "parsePrefix feats (pre @ printHashAlgo ha) = Inr (m, printHashAlgo ha)"
    using assms printHashAlgo_no_prefix [of ha "[]"]
    by (cases m) (auto simp: parsePrefix_def splitPrefix_def method_enabled_def require_def)
  have "plain (printHashAlgo ha)" "printHashAlgo ha \<noteq> []" by (cases ha; simp add: plain_def)+
  then show "plain (pre @ printHashAlgo ha)" "printHashAlgo ha \<noteq> []"
    using assms by (cases m; auto simp: plain_def require_def split: if_splits)+
qed

definition method_ok :: "xp set \<Rightarrow> ContentAddressMethod \<Rightarrow> bool" where
  "method_ok feats m \<longleftrightarrow> method_enabled feats m \<and> (m = CAM_Text \<longrightarrow> DynamicDerivations \<in> feats)"

fun output_ok :: "xp set \<Rightarrow> DerivationOutput \<Rightarrow> bool" where
  "output_ok feats (DO_InputAddressed p) \<longleftrightarrow> sp_proper p"
| "output_ok feats (DO_CAFixed ca) \<longleftrightarrow> method_ok feats (ca_method ca) \<and> hash_ok (ca_hash ca) \<and> algo_enabled feats (algo (ca_hash ca))"
| "output_ok feats (DO_CAFloating m ha) \<longleftrightarrow> method_ok feats m \<and> CaDerivations \<in> feats"
| "output_ok feats DO_Deferred \<longleftrightarrow> True"
| "output_ok feats (DO_Impure m ha) \<longleftrightarrow> method_ok feats m \<and> ImpureDerivations \<in> feats"

lemma hash16_text:
  assumes "hash_ok h" "to_string h Base16 False = Inr t"
  shows "t = printHash16 h" "plain t" "t \<noteq> []" "t \<noteq> ''impure''"
proof -
  show t: "t = printHash16 h" using assms by (simp add: to_string_eq)
  have "CHR ''i'' \<notin> set base16Chars" "CHR 0x22 \<notin> set base16Chars" "CHR 0x5C \<notin> set base16Chars" by code_simp+
  moreover have "length t \<noteq> 0" using assms(1) unfolding t by (cases "algo h") (auto simp: base16Len_def hash_ok_def)
  then have "t \<noteq> []" by (metis list.size(3))
  ultimately show "plain t" "t \<noteq> []" "t \<noteq> ''impure''" using set_printHash16 [of h] t by (auto simp: plain_def)
qed

text \<open>The three fields of an output, and that they are read back as the output.\<close>

lemma unparse_output_fields:
  assumes "output_ok feats out" "unparse_output hs feats store False name n out = Inr t"
    and st: "hash_law feats hs" "canonical store" "store \<noteq> ''/''" "plain store"
  shows "\<exists>a b c. t = three a b c \<and> plain a \<and> plain b \<and> plain c \<and> parseDerivationOutput feats store a b c = Inr out"
proof -
  have abs: "validatePath (printStorePath store p) = Inr ()" for p
  proof -
    obtain ds where "ds \<noteq> []" "store = joined ds" using st(2,3) by (rule storeDir_cases)
    then show ?thesis by (cases ds) (simp_all add: validatePath_def printStorePath_def)
  qed
  show ?thesis
  proof (cases out)
    case (DO_InputAddressed p)
    then have p: "sp_proper p" using assms(1) by simp
    then have "parseStorePath store (printStorePath store p) = Inr p"
      using sp_proper_plain(5) [of p] by (intro parseStorePath_print [OF st(2,3)]) (simp_all add: sp_proper_def)
    moreover have "printStorePath store p \<noteq> []" by (simp add: printStorePath_def)
    ultimately have "parseDerivationOutput feats store (printStorePath store p) [] [] = Inr out"
      using DO_InputAddressed abs by (simp add: parseDerivationOutput_def)
    moreover have "t = three (printStorePath store p) [] []" using assms(2) DO_InputAddressed by simp
    ultimately show ?thesis using print_path_plain [OF p st(4)] by (metis plain_def empty_iff empty_set)
  next
    case (DO_CAFixed ca)
    then obtain p pre h where p: "CAFixed_path hs feats store name n ca = Inr p" "renderPrefix feats (ca_method ca) = Inr pre"
      "to_string (ca_hash ca) Base16 False = Inr h" "t = three (printStorePath store p) (pre @ printHashAlgo (algo (ca_hash ca))) h"
      using assms(2) by (auto simp: result_simps printMethodAlgo_def)
    have m: "method_enabled feats (ca_method ca)" "hash_ok (ca_hash ca)" "algo_enabled feats (algo (ca_hash ca))"
      using assms(1) DO_CAFixed by (simp_all add: method_ok_def)
    have "sp_proper p" using p(1) made_proper [OF _ st(1)] by (simp add: CAFixed_path_def)
    moreover have "parseNonSRIUnprefixed feats h (algo (ca_hash ca)) = Inr (ca_hash ca)"
      using Hash_parse_digits [OF m(2,3), of Base16] hash16_text [OF m(2) p(3)] by (simp add: parseNonSRIUnprefixed_def)
    ultimately show ?thesis
      using p(4) prefix_algo [OF m(1) p(2)] hash16_text [OF m(2) p(3)] print_path_plain [OF _ st(4)] abs assms(1) DO_CAFixed
      by (intro exI [of _ "printStorePath store p"] exI [of _ "pre @ printHashAlgo (algo (ca_hash ca))"] exI [of _ h])
        (auto simp: parseDerivationOutput_def method_ok_def require_def)
  next
    case (DO_CAFloating m ha)
    then obtain pre where pre: "renderPrefix feats m = Inr pre" "t = three [] (pre @ printHashAlgo ha) []"
      using assms(2) by (auto simp: result_simps)
    then show ?thesis
      using prefix_algo [of feats m pre ha] assms(1) DO_CAFloating
      by (intro exI [of _ "[]"] exI [of _ "pre @ printHashAlgo ha"])
        (auto simp: parseDerivationOutput_def method_ok_def require_def plain_def)
  next
    case DO_Deferred
    then show ?thesis using assms(2) by (intro exI [of _ "[]"]) (simp add: parseDerivationOutput_def plain_def)
  next
    case (DO_Impure m ha)
    then obtain pre where pre: "renderPrefix feats m = Inr pre" "t = three [] (pre @ printHashAlgo ha) ''impure''"
      using assms(2) by (auto simp: result_simps)
    then show ?thesis
      using prefix_algo [of feats m pre ha] assms(1) DO_Impure
      by (intro exI [of _ "[]"] exI [of _ "pre @ printHashAlgo ha"] exI [of _ "''impure''"])
        (auto simp: parseDerivationOutput_def method_ok_def require_def plain_def)
  qed
qed

lemma reads_output:
  assumes "output_ok feats out" "plain n" "unparse_output_item hs feats store False name (n, out) = Inr t"
    and st: "hash_law feats hs" "canonical store" "store \<noteq> ''/''" "plain store"
  shows "reads (parse_output_item feats store) t (n, out)"
proof -
  obtain u where u: "unparse_output hs feats store False name n out = Inr u" "t = ''('' @ printUnquotedString n @ u @ '')''"
    using assms(3) by (auto simp: unparse_output_item_def result_simps)
  obtain a b c where "u = three a b c" "plain a" "plain b" "plain c" "parseDerivationOutput feats store a b c = Inr out"
    using unparse_output_fields [OF assms(1) u(1) st] by blast
  with u(2) assms(2) show ?thesis
    by (simp add: reads_def parse_output_item_def parseDerivationOutput_stream_def three_def drv_codecs)
qed

section \<open>Inputs and environment\<close>

lemma print_path_reads:
  assumes "sp_proper p" "canonical store" "store \<noteq> ''/''" "plain store"
  shows "parsePath (printUnquotedString (printStorePath store p) @ r) = Inr (printStorePath store p, r)"
    "parseStorePath store (printStorePath store p) = Inr p"
proof -
  obtain ds where "ds \<noteq> []" "store = joined ds" using assms(2,3) by (rule storeDir_cases)
  then have "validatePath (printStorePath store p) = Inr ()" by (cases ds) (simp_all add: validatePath_def printStorePath_def)
  then show "parsePath (printUnquotedString (printStorePath store p) @ r) = Inr (printStorePath store p, r)"
    using print_path_plain [OF assms(1,4)] by (simp add: parsePath_def drv_codecs)
  show "parseStorePath store (printStorePath store p) = Inr p"
    using sp_proper_plain(5) [OF assms(1)] assms(1) by (intro parseStorePath_print [OF assms(2,3)]) (simp_all add: sp_proper_def)
qed

definition version_fits :: "DerivationATermVersion \<Rightarrow> InputNode \<Rightarrow> bool" where
  "version_fits version n \<longleftrightarrow> version = VersionDynamicDerivations \<or> childMap n = []"

lemma parse_node_version:
  assumes "node_ok n" "version_fits version n" "length (node_text n) \<le> fuel"
  shows "parseDerivedPathMapNode (Suc fuel) version (node_text n @ r) = Some (Inr (n, r))"
proof (cases version)
  case Traditional
  with assms(2) obtain v where "n = ChildNode v []" by (cases n) (auto simp: version_fits_def)
  with assms(1) Traditional show ?thesis by (simp add: node_text_leaf parseStrings_print)
next
  case VersionDynamicDerivations
  with parse_node [OF assms(1,3)] show ?thesis by simp
qed

lemma reads_input:
  assumes "sp_proper p" "node_ok n" "version_fits version n"
    and st: "canonical store" "store \<noteq> ''/''" "plain store"
  shows "reads (parse_input_item version store) (unparse_input_item (printStorePath store p, n)) (p, n)"
  using print_path_reads [OF assms(1) st] parse_node_version [OF assms(2,3)]
  by (simp add: reads_def parse_input_item_def unparse_input_item_def unparse_node [of n] del: parseDerivedPathMapNode.simps)

lemma reads_env: "reads parse_env_item (unparse_env_item False outs e) e"
  by (cases e) (simp add: reads_def parse_env_item_def unparse_env_item_def drv_codecs)

lemma parse_paths:
  assumes "oset_ok ps" "list_all sp_proper ps" and st: "canonical store" "store \<noteq> ''/''" "plain store"
  shows "parseStrings True (printUnquotedStrings (printStorePathSet store ps) @ r) = Some (Inr (map (printStorePath store) ps, r))"
    "parseStorePathSet store (map (printStorePath store) ps) = Inr ps"
proof -
  have "list_all2 (reads (\<lambda>str. Some (parsePath str))) (map printUnquotedString (map (printStorePath store) ps)) (map (printStorePath store) ps)"
    using assms(2) by (intro list_all2_reads_map) (auto simp: reads_def list_all_iff print_path_reads [OF _ st])
  from parse_list_text [OF this, of r]
  show "parseStrings True (printUnquotedStrings (printStorePathSet store ps) @ r) = Some (Inr (map (printStorePath store) ps, r))"
    using print_sorted [OF assms(1)]
    by (simp add: parseStrings_def printUnquotedStrings_def printStorePathSet_eq [OF assms(1)] oset_of_id)
  have "rmap (parseStorePath store) (map (printStorePath store) ps) = Inr ps"
    using assms(2) by (induction ps) (simp_all add: print_path_reads [OF _ st])
  then show "parseStorePathSet store (map (printStorePath store) ps) = Inr ps"
    by (simp add: parseStorePathSet_def oset_of_id [OF assms(1)])
qed

lemma fold_emplace_id: "omap_ok m \<Longrightarrow> fold (\<lambda>(k, v). omap_emplace k v) m [] = m"
proof -
  have "omap_ok (m @ m') \<Longrightarrow> fold (\<lambda>(k, v). omap_emplace k v) m' m = m @ m'" for m m' :: "('a::linorder \<times> 'b) list"
  proof (induction m' arbitrary: m)
    case (Cons e m')
    then have "omap_emplace (fst e) (snd e) m = m @ [e]"
      by (subst omap_emplace_snoc) (auto simp: sorted_wrt_append)
    then show ?case using Cons by (simp add: case_prod_beta)
  qed simp
  from this [of "[]" m] show "omap_ok m \<Longrightarrow> fold (\<lambda>(k, v). omap_emplace k v) m [] = m" by simp
qed

section \<open>The round trip\<close>

text \<open>
  What the writer relies on: the maps and sets are sorted, the names and the platform, which are
  printed without escaping, have no quote and no backslash, the store paths are of the documented form,
  the features that the outputs need are enabled.
\<close>

definition drv_ok :: "xp set \<Rightarrow> Derivation \<Rightarrow> bool" where
  "drv_ok feats drv \<longleftrightarrow>
     omap_ok (d_outputs drv) \<and> list_all (\<lambda>(n, out). plain n \<and> output_ok feats out) (d_outputs drv) \<and>
     omap_ok (d_inputDrvs drv) \<and> list_all (\<lambda>(p, n). sp_proper p \<and> node_ok n) (d_inputDrvs drv) \<and>
     oset_ok (d_inputSrcs drv) \<and> list_all sp_proper (d_inputSrcs drv) \<and>
     plain (d_platform drv) \<and> omap_ok (d_env drv) \<and>
     (hasDynamicDrvDep drv \<longrightarrow> DynamicDerivations \<in> feats)"

lemma rmap_list_all2: "rmap f xs = Inr ys \<Longrightarrow> list_all2 (\<lambda>y x. f x = Inr y) ys xs"
  by (induction xs arbitrary: ys) (auto simp: result_simps)

definition atermVersion :: "Derivation \<Rightarrow> DerivationATermVersion" where
  "atermVersion drv = (if hasDynamicDrvDep drv then VersionDynamicDerivations else Traditional)"

lemma parse_version_print:
  assumes "drv_ok feats drv"
  shows "parse_version feats ((if hasDynamicDrvDep drv then ''DrvWithVersion('' @ printUnquotedString ''xp-dyn-drv'' @ '','' else ''Derive('') @ r) =
    Inr (atermVersion drv, r)"
proof (cases "hasDynamicDrvDep drv")
  case True
  have "plain ''xp-dyn-drv''" by (simp add: plain_def)
  with True assms show ?thesis by (simp add: parse_version_def atermVersion_def drv_codecs drv_ok_def require_def)
qed (simp add: parse_version_def atermVersion_def)

lemma unparse_parse:
  assumes "drv_ok feats drv" "unparse hs feats store drv False None = Inr s"
    and st: "hash_law feats hs" "canonical store" "store \<noteq> ''/''" "plain store"
  shows "parseDerivation feats store (s @ junk) (d_name drv) = Some (Inr drv)"
proof -
  obtain outs where outs: "rmap (unparse_output_item hs feats store False (d_name drv)) (d_outputs drv) = Inr outs"
    using assms(2) by (auto simp: unparse_def result_simps)
  have o2: "list_all2 (reads (parse_output_item feats store)) outs (d_outputs drv)"
    using rmap_list_all2 [OF outs]
  proof (rule list.rel_mono_strong)
    fix t e assume "t \<in> set outs" "e \<in> set (d_outputs drv)" "unparse_output_item hs feats store False (d_name drv) e = Inr t"
    with assms(1) show "reads (parse_output_item feats store) t e"
      by (cases e) (auto simp: drv_ok_def list_all_iff intro: reads_output [OF _ _ _ st])
  qed
  have i2: "list_all2 (reads (parse_input_item (atermVersion drv) store))
      (map unparse_input_item (map (\<lambda>(p, n). (printStorePath store p, n)) (d_inputDrvs drv))) (d_inputDrvs drv)"
    unfolding map_map o_def
  proof (rule list_all2_reads_map)
    fix e assume e: "e \<in> set (d_inputDrvs drv)"
    obtain p n where pn: "e = (p, n)" by (cases e)
    have "version_fits (atermVersion drv) n"
      using e pn by (auto simp: version_fits_def atermVersion_def hasDynamicDrvDep_def list_ex_iff)
    with assms(1) e pn show "reads (parse_input_item (atermVersion drv) store) (unparse_input_item (case e of (p, n) \<Rightarrow> (printStorePath store p, n))) e"
      using reads_input [OF _ _ _ st(2-)] by (auto simp: drv_ok_def list_all_iff)
  qed
  have a2: "list_all2 (reads (\<lambda>str. Some (parseString str))) (map printString (d_args drv)) (d_args drv)"
    by (intro list_all2_reads_map) (simp add: reads_def drv_codecs)
  have e2: "list_all2 (reads parse_env_item) (map (unparse_env_item False (d_outputs drv)) (d_env drv)) (d_env drv)"
    by (intro list_all2_reads_map) (rule reads_env)
  note lists = parse_list_text [OF o2] parse_list_text [OF i2] parse_list_text [OF a2] parse_list_text [OF e2]
  note ok = assms(1) [unfolded drv_ok_def]
  note paths = parse_paths [OF _ _ st(2-), of "d_inputSrcs drv"]
  have s: "s = (if hasDynamicDrvDep drv then ''DrvWithVersion('' @ printUnquotedString ''xp-dyn-drv'' @ '','' else ''Derive('') @
      ''['' @ concatStringsSep '','' outs @ ''],['' @
      concatStringsSep '','' (map unparse_input_item (map (\<lambda>(p, n). (printStorePath store p, n)) (d_inputDrvs drv))) @
      ''],'' @ printUnquotedStrings (printStorePathSet store (d_inputSrcs drv)) @ '','' @ printUnquotedString (d_platform drv) @
      '','' @ printString (d_builder drv) @ '',['' @ concatStringsSep '','' (map printString (d_args drv)) @ ''],['' @
      concatStringsSep '','' (map (unparse_env_item False (d_outputs drv)) (d_env drv)) @ ''])''"
    using assms(2) outs by (simp add: unparse_def printStrings_def)
  show ?thesis
    unfolding s parseDerivation_def append_assoc parse_version_print [OF assms(1)]
    using ok by (simp add: lists paths drv_codecs fold_emplace_id fold_assign_id del: map_map)
qed

text \<open>
  C9: a derivation is read back unchanged from its text: when the derivation is well formed and
  \<^verbatim>\<open>unparse(store, false)\<close> returns \<open>s\<close>, \<^verbatim>\<open>parseDerivation\<close> of \<open>s\<close> returns the derivation, in the
  traditional format and in the one for dynamic derivations. The hypotheses on \<open>hs\<close> are the documented
  size and algorithm of the hash that it returns.
\<close>

theorem Derivation_roundtrip:
  assumes "drv_ok feats drv" "unparse hs feats store drv False None = Inr s"
    and "hash_law feats hs" "canonical store" "store \<noteq> ''/''" "plain store"
  shows "parseDerivation feats store s (d_name drv) = Some (Inr drv)"
  using unparse_parse [OF assms, of "[]"] by simp

text \<open>A derivation for examples, with an input whose output is itself a derivation.\<close>

definition ex_path :: "string \<Rightarrow> StorePath" where
  "ex_path n = StorePath (replicate 32 (CHR ''f'') @ ''-'' @ n)"

definition ex_drv :: Derivation where
  "ex_drv =
     \<lparr>d_outputs = [(''out'', DO_InputAddressed (ex_path ''x''))], d_inputSrcs = [ex_path ''x''], d_platform = ''x86_64-linux'',
      d_builder = ''/bin/sh'', d_args = [''-c'', [CHR ''a'', CHR 0x0A, CHR 0x22]], d_env = [(''out'', ''y'')], d_name = ''x'',
      d_inputDrvs = [(ex_path ''x'', ChildNode [''dev''] [(''out'', ChildNode [''out''] [])])]\<rparr>"

abbreviation ex_hash :: hash_fun where
  "ex_hash \<equiv> hashString prefix_init prefix_upd prefix_final {DynamicDerivations}"

lemma ex_path_proper: "valid_name n \<Longrightarrow> sp_proper (ex_path n)"
  using example_ok [of n "CHR ''-''"] by (simp add: ex_path_def sp_proper_def HashLen_def nth_append)

lemma ex_drv_ok: "drv_ok {DynamicDerivations} ex_drv"
  by (simp add: drv_ok_def ex_drv_def ex_path_proper [OF valid_name_x] plain_def hasDynamicDrvDep_def)

lemma ex_store: "canonical ''/nix/store''" "''/nix/store'' \<noteq> ''/''" "plain ''/nix/store''"
  using canonical_render [of "[''nix'', ''store'']"] by (simp_all add: render_def component_def plain_def)

lemma ex_unparse: "\<exists>s. unparse ex_hash {DynamicDerivations} ''/nix/store'' ex_drv False None = Inr s"
  by (simp add: unparse_def ex_drv_def unparse_output_item_def)

lemmas ex_law = hash_law_hashString [OF prefix_digest_law, of "{DynamicDerivations}"]

theorem Derivation_roundtrip_witness:
  "\<exists>s. unparse ex_hash {DynamicDerivations} ''/nix/store'' ex_drv False None = Inr s \<and>
     parseDerivation {DynamicDerivations} ''/nix/store'' s ''x'' = Some (Inr ex_drv)"
proof -
  obtain s where s: "unparse ex_hash {DynamicDerivations} ''/nix/store'' ex_drv False None = Inr s" using ex_unparse by blast
  have "d_name ex_drv = ''x''" by (simp add: ex_drv_def)
  with Derivation_roundtrip [OF ex_drv_ok s ex_law ex_store] s show ?thesis by auto
qed

section \<open>The reader always returns\<close>

text \<open>A reader that returns within its fuel and, when it returns an item, has consumed some input.\<close>

definition consumes :: "(string \<Rightarrow> ('a \<times> string) result option) \<Rightarrow> string \<Rightarrow> bool" where
  "consumes item str \<longleftrightarrow> item str \<noteq> None \<and> (\<forall>x r. item str = Some (Inr (x, r)) \<longrightarrow> length r < length str)"

lemma drv_expect_shorter: "drv_expect t s = Inr r \<Longrightarrow> length r + length t = length s"
  by (auto simp: drv_expect_def prefix_def split: if_splits)

lemma scan_content_shorter: "scan_content s acc esc = Inr (x, e, r) \<Longrightarrow> length r \<le> length s"
  by (induction s acc esc arbitrary: x e r rule: scan_content.induct) (fastforce split: if_splits list.splits)+

lemma parseString_shorter: "parseString s = Inr (x, r) \<Longrightarrow> length r < length s"
proof -
  assume "parseString s = Inr (x, r)"
  then obtain s' c e r' where *: "drv_expect [CHR 0x22] s = Inr s'" "scan_content s' [] False = Inr (c, e, r')" "r = tl r'"
    by (auto simp: parseString_def result_simps split: if_splits)
  from drv_expect_shorter [OF *(1)] scan_content_shorter [OF *(2)] *(3) show ?thesis by simp
qed

lemma parsePath_shorter: "parsePath s = Inr (x, r) \<Longrightarrow> length r < length s"
  by (auto simp: parsePath_def result_simps dest!: parseString_shorter)

lemmas shorter = drv_expect_shorter parseString_shorter parsePath_shorter

lemma endOfList_shorter: "length (snd (endOfList s)) \<le> length s" "fst (endOfList s) \<Longrightarrow> length (snd (endOfList s)) < length s"
  unfolding endOfList_def by (auto split: if_splits)

lemma parse_list_consumes:
  assumes "\<And>s. length s \<le> length str \<Longrightarrow> consumes item s" "length str < fuel"
  shows "parse_list fuel item str \<noteq> None \<and> (\<forall>xs r. parse_list fuel item str = Some (Inr (xs, r)) \<longrightarrow> length r < length str)"
  using assms
proof (induction fuel arbitrary: str)
  case (Suc fuel)
  obtain fin s where e: "endOfList str = (fin, s)" by (cases "endOfList str")
  then have len: "length s \<le> length str" "fin \<Longrightarrow> length s < length str" using endOfList_shorter [of str] by simp_all
  show ?case
  proof (cases fin)
    case True
    with e len(2) show ?thesis by simp
  next
    case False
    have item: "consumes item s" by (rule Suc.prems(1) [OF len(1)])
    show ?thesis
    proof (cases "item s")
      case (Some res)
      have "parse_list fuel item r \<noteq> None \<and> (\<forall>xs r'. parse_list fuel item r = Some (Inr (xs, r')) \<longrightarrow> length r' < length r)"
        if "res = Inr (x, r)" for x r
      proof (rule Suc.IH)
        have "length r < length s" using item Some that by (simp add: consumes_def)
        then show "length r < fuel" "\<And>s. length s \<le> length r \<Longrightarrow> consumes item s" using len(1) Suc.prems by auto
      qed
      moreover have "length r < length s" if "res = Inr (x, r)" for x r using item Some that by (simp add: consumes_def)
      ultimately show ?thesis
        using Some False e len(1) by (cases res) (fastforce simp: result_simps)+
    qed (use item in \<open>simp add: consumes_def\<close>)
  qed
qed simp

lemma parse_items_consumes:
  assumes "\<And>s. length s \<le> length str \<Longrightarrow> consumes item s"
  shows "consumes (parse_items item) str"
  using parse_list_consumes [OF assms lessI] by (simp add: consumes_def parse_items_def)

lemma consumes_parseString: "consumes (\<lambda>s. Some (parseString s)) s" "consumes (\<lambda>s. Some (parsePath s)) s"
  by (auto simp: consumes_def shorter)

lemma consumes_parseStrings: "consumes (parseStrings b) str"
proof -
  have "consumes (parse_items (\<lambda>s. Some (if b then parsePath s else parseString s))) s" for s
    by (rule parse_items_consumes) (cases b, simp_all add: consumes_parseString)
  then show ?thesis by (auto simp: consumes_def parseStrings_def result_simps dest!: drv_expect_shorter) fastforce
qed

lemma consumes_node: "length str < fuel \<Longrightarrow> consumes (parseDerivedPathMapNode fuel version) str"
proof (induction fuel arbitrary: str)
  case (Suc fuel)
  let ?item = "\<lambda>str.
            fbind (Some (drv_expect ''('' str)) (\<lambda>str.
            fbind (Some (parseString str)) (\<lambda>(outputName, str).
            fbind (Some (drv_expect '','' str)) (\<lambda>str.
            fbind (parseDerivedPathMapNode fuel version str) (\<lambda>(node, str).
            fbind (Some (drv_expect '')'' str)) (\<lambda>str. Some (Inr ((outputName, node), str)))))))"
  have ih: "\<exists>y. parseDerivedPathMapNode fuel version c = Some y" if "length c < fuel" for c
    using Suc.IH [OF that] by (simp add: consumes_def)
  have ih': "length r < length c" if "parseDerivedPathMapNode fuel version c = Some (Inr (n, r))" "length c < fuel" for c n r
    using Suc.IH [OF that(2)] that(1) by (simp add: consumes_def)
  have item: "consumes ?item s" if s: "length s \<le> fuel" for s
    unfolding consumes_def
    by (auto simp: result_simps dest!: drv_expect_shorter parseString_shorter intro!: ih) (use ih' s in fastforce)+
  have "consumes (parse_items ?item) s" if "length s \<le> fuel" for s
    using that by (intro parse_items_consumes item) simp
  then have kids: "length s \<le> fuel \<Longrightarrow> \<exists>y. parse_items ?item s = Some y"
    "parse_items ?item s = Some (Inr (x, r)) \<Longrightarrow> length s \<le> fuel \<Longrightarrow> length r < length s" for s x r
    by (simp_all add: consumes_def)
  have strs: "parseStrings False c \<noteq> None" "parseStrings False c = Some (Inr (v, r)) \<Longrightarrow> length r < length c" for c v r
    using consumes_parseStrings [of False c] by (simp_all add: consumes_def del: not_None_eq)
  show ?case
    unfolding consumes_def parseDerivedPathMapNode.simps
    using Suc.prems
    by (auto simp: result_simps strs simp del: not_None_eq dest!: drv_expect_shorter strs(2))
      (simp add: kids(1), drule kids(2), simp_all)
qed simp

lemma output_stream_shorter: "parseDerivationOutput_stream feats store s = Inr (x, r) \<Longrightarrow> length r < length s"
  by (auto simp: parseDerivationOutput_stream_def result_simps dest!: drv_expect_shorter parseString_shorter)

lemma consumes_items:
  "consumes (parse_output_item feats store) s" "consumes parse_env_item s" "consumes (parse_input_item version store) s"
proof -
  show "consumes (parse_output_item feats store) s"
    by (auto simp: consumes_def parse_output_item_def result_simps dest!: drv_expect_shorter parseString_shorter output_stream_shorter)
  show "consumes parse_env_item s"
    by (auto simp: consumes_def parse_env_item_def result_simps dest!: drv_expect_shorter parseString_shorter)
  have node: "\<exists>y. parseDerivedPathMapNode (Suc (length c)) version c = Some y"
    "parseDerivedPathMapNode (Suc (length c)) version c = Some (Inr (n, r)) \<Longrightarrow> length r < length c" for c n r
    using consumes_node [OF lessI, of c version] by (simp_all add: consumes_def del: parseDerivedPathMapNode.simps)
  show "consumes (parse_input_item version store) s"
    by (auto simp: consumes_def parse_input_item_def result_simps node(1) simp del: parseDerivedPathMapNode.simps
      dest!: drv_expect_shorter parsePath_shorter node(2))
qed

lemma parse_items_returns: "(\<And>s. consumes item s) \<Longrightarrow> parse_items item str \<noteq> None"
  using parse_items_consumes [of str item] by (simp add: consumes_def)

lemma parseStrings_returns: "parseStrings b str \<noteq> None"
  using consumes_parseStrings [of b str] by (simp add: consumes_def)


section \<open>Text that is not read back\<close>

text \<open>The part of the text after the platform.\<close>

definition drv_tail :: "Derivation \<Rightarrow> string" where
  "drv_tail drv = '','' @ printString (d_builder drv) @ '','' @ printStrings (d_args drv) @ '',['' @
     concatStringsSep '','' (map (unparse_env_item False (d_outputs drv)) (d_env drv)) @ ''])''"

definition with_injected_platform :: "Derivation \<Rightarrow> Derivation \<Rightarrow> Derivation" where
  "with_injected_platform drv other =
     other\<lparr>d_outputs := d_outputs drv, d_inputSrcs := d_inputSrcs drv, d_name := d_name drv, d_inputDrvs := d_inputDrvs drv,
       d_platform := d_platform drv @ [CHR 0x22] @ drv_tail drv\<rparr>"

text \<open>
  The platform of a derivation is written without escaping. A platform that contains a quote can
  therefore carry the rest of another derivation: whatever the builder, the arguments and the environment
  of \<open>other\<close> are, the text of \<open>other\<close> with such a platform is read back as the derivation \<open>drv\<close>.
\<close>

theorem platform_injection:
  assumes "drv_ok feats drv" "unparse hs feats store drv False None = Inr s"
    and "hash_law feats hs" "canonical store" "store \<noteq> ''/''" "plain store"
  shows "\<exists>t. unparse hs feats store (with_injected_platform drv other) False None = Inr t \<and>
    parseDerivation feats store t (d_name drv) = Some (Inr drv)"
proof -
  have "unparse hs feats store (with_injected_platform drv other) False None =
      Inr (s @ [CHR 0x22] @ drv_tail (with_injected_platform drv other))"
    using assms(2)
    by (auto simp: unparse_def result_simps drv_tail_def with_injected_platform_def hasDynamicDrvDep_def printUnquotedString_def)
  with unparse_parse [OF assms] show ?thesis by blast
qed

theorem platform_injection_witness:
  "\<exists>t. unparse ex_hash {DynamicDerivations} ''/nix/store'' (with_injected_platform ex_drv (ex_drv\<lparr>d_builder := ''/bin/evil''\<rparr>)) False None = Inr t \<and>
     parseDerivation {DynamicDerivations} ''/nix/store'' t ''x'' = Some (Inr ex_drv)"
proof -
  obtain s where s: "unparse ex_hash {DynamicDerivations} ''/nix/store'' ex_drv False None = Inr s" using ex_unparse by blast
  have "d_name ex_drv = ''x''" by (simp add: ex_drv_def)
  with platform_injection [OF ex_drv_ok s ex_law ex_store, of "ex_drv\<lparr>d_builder := ''/bin/evil''\<rparr>"] show ?thesis by simp
qed

text \<open>
  A string that ends before its closing quote makes the reader of derivations remove one character
  more from the input than there is, which is undefined behaviour, instead of raising the
  \<^verbatim>\<open>FormatError\<close> of an unterminated string.
\<close>

theorem unterminated_string_undefined:
  "plain s \<longrightarrow> parseDerivation feats store (''Derive([('' @ [CHR 0x22] @ s) name = Some (Inl (UndefinedBehaviour ''remove_prefix past the end''))"
proof
  assume "plain s"
  then have "scan_content s acc esc = Inr (acc @ s, esc, [])" for acc esc
    by (induction s arbitrary: acc) (auto simp: plain_def)
  then have "parseString (CHR 0x22 # s) = Inl (UndefinedBehaviour ''remove_prefix past the end'')" by (simp add: parseString_def)
  then show "parseDerivation feats store (''Derive([('' @ [CHR 0x22] @ s) name = Some (Inl (UndefinedBehaviour ''remove_prefix past the end''))"
    by (simp add: parseDerivation_def parse_version_def parse_items_def endOfList_def parse_output_item_def)
qed

theorem unterminated_string_undefined_witness:
  "parseDerivation {} ''/nix/store'' (''Derive([('' @ [CHR 0x22] @ ''out'') ''x'' = Some (Inl (UndefinedBehaviour ''remove_prefix past the end''))"
  using unterminated_string_undefined [of "''out''" "{}" "''/nix/store''" "''x''"] by (simp add: plain_def)

end
