(* ===== verification/Zix_DrvHash.thy ===== *)
theory Zix_DrvHash
  imports Zix_Derivations "HOL-Library.Product_Lexorder"
begin

text \<open>
  Hashes of derivations modulo fixed-output inputs, and what is computed from them (derivations.cc,
  downstream-placeholder.cc): output paths, the invariants of a derivation, resolved derivations.

  The store is the function \<open>readDrv\<close>, \<^verbatim>\<open>Store::readInvalidDerivation\<close>: the derivation at a path,
  or the exception. The hashes are memoised in the global map \<^verbatim>\<open>drvHashes\<close>; a computation of the
  model takes that map and returns it with the result or the exception, and is \<open>None\<close> when the fuel,
  which bounds the depth of the recursion over input derivations, runs out.
\<close>

section \<open>The memo table\<close>

datatype DrvHash_Kind = KindRegular | KindDeferred

record DrvHash =
  dh_hashes :: "(string, Hash) omap"
  dh_kind :: DrvHash_Kind

type_synonym DrvHashes = "(StorePath, DrvHash) omap"

type_synonym 'a memoised = "(DrvHashes, 'a) sm"

section \<open>Hashing\<close>

definition fixed_output_hash ::
  "hash_fun \<Rightarrow> xp set \<Rightarrow> string \<Rightarrow> string \<Rightarrow> string \<times> DerivationOutput \<Rightarrow> (string \<times> Hash) result" where
  "fixed_output_hash hs feats store name = (\<lambda>(n, out).
     case out of
       DO_CAFixed ca \<Rightarrow>
         rbind (printMethodAlgo feats ca) (\<lambda>m.
         rbind (to_string (ca_hash ca) Base16 False) (\<lambda>h.
         rbind (CAFixed_path hs feats store name n ca) (\<lambda>p.
         rbind (hs SHA256 (''fixed:out:'' @ m @ '':'' @ h @ '':'' @ printStorePath store p)) (\<lambda>d.
           Inr (n, d)))))
     | _ \<Rightarrow> Inl (Error ''bad variant access''))"

fun kind_of_type :: "DerivationType \<Rightarrow> DrvHash_Kind" where
  "kind_of_type (DT_InputAddressed d) = KindRegular"
| "kind_of_type (DT_ContentAddressed s f) = (if f then KindRegular else KindDeferred)"
| "kind_of_type DT_Impure = KindDeferred"

definition insert_input :: "string \<Rightarrow> string \<Rightarrow> (string, InputNode) omap \<Rightarrow> (string, InputNode) omap" where
  "insert_input key outputName inputs2 =
     (let node = node_or [] (map_of inputs2 key) in
      omap_assign key (ChildNode (oset_insert outputName (node_value node)) (childMap node)) inputs2)"

fun add_outputs :: "DrvHash \<Rightarrow> string list \<Rightarrow> (string, InputNode) omap \<Rightarrow> (string, InputNode) omap result" where
  "add_outputs res [] inputs2 = Inr inputs2"
| "add_outputs res (outputName # names) inputs2 =
     (case map_of (dh_hashes res) outputName of
        None \<Rightarrow> Inl (Error ''no hash for output of derivation'')
      | Some h \<Rightarrow> rbind (to_string h Base16 False) (\<lambda>key. add_outputs res names (insert_input key outputName inputs2)))"

fun hash_inputs ::
  "(StorePath \<Rightarrow> DrvHash memoised) \<Rightarrow> (StorePath \<times> InputNode) list \<Rightarrow> DrvHash_Kind \<Rightarrow> (string, InputNode) omap \<Rightarrow>
   (DrvHash_Kind \<times> (string, InputNode) omap) memoised" where
  "hash_inputs path [] kind inputs2 = mlift (Inr (kind, inputs2))"
| "hash_inputs path ((drvPath, node) # inputs) kind inputs2 =
     mbind (path drvPath) (\<lambda>res.
     mbind (mlift (add_outputs res (node_value node) inputs2)) (\<lambda>inputs2.
       hash_inputs path inputs (if dh_kind res = KindDeferred then KindDeferred else kind) inputs2))"

definition hashDerivation_body ::
  "hash_fun \<Rightarrow> xp set \<Rightarrow> string \<Rightarrow> (StorePath \<Rightarrow> DrvHash memoised) \<Rightarrow> Derivation \<Rightarrow> bool \<Rightarrow> DrvHash memoised" where
  "hashDerivation_body hs feats store path drv maskOutputs =
     mbind (mlift (drv_type drv)) (\<lambda>type.
       if isFixed type then
         mlift (rbind (rmap (fixed_output_hash hs feats store (d_name drv)) (d_outputs drv)) (\<lambda>outputHashes.
           Inr \<lparr>dh_hashes = fold (\<lambda>(n, h). omap_assign n h) outputHashes [], dh_kind = KindRegular\<rparr>))
       else
         mbind (hash_inputs path (d_inputDrvs drv) (kind_of_type type) []) (\<lambda>(kind, inputs2).
         mlift (rbind (unparse hs feats store drv maskOutputs (Some inputs2)) (\<lambda>s.
           rbind (hs SHA256 s) (\<lambda>h.
             Inr \<lparr>dh_hashes = fold (\<lambda>(n, _). omap_assign n h) (d_outputs drv) [], dh_kind = kind\<rparr>)))))"

definition pathDerivationModulo ::
  "(Derivation \<Rightarrow> bool \<Rightarrow> DrvHash memoised) \<Rightarrow> (StorePath \<Rightarrow> Derivation result) \<Rightarrow> StorePath \<Rightarrow> DrvHash memoised" where
  "pathDerivationModulo hashDrv readDrv drvPath = (\<lambda>memo.
     case map_of memo drvPath of
       Some h \<Rightarrow> Some (Inr h, memo)
     | None \<Rightarrow>
         mbind (mlift (readDrv drvPath)) (\<lambda>drv.
         mbind (hashDrv drv False) (\<lambda>h memo. Some (Inr h, omap_assign drvPath h memo))) memo)"

primrec hashDerivationModulo ::
  "nat \<Rightarrow> hash_fun \<Rightarrow> xp set \<Rightarrow> string \<Rightarrow> (StorePath \<Rightarrow> Derivation result) \<Rightarrow> Derivation \<Rightarrow> bool \<Rightarrow> DrvHash memoised" where
  "hashDerivationModulo 0 hs feats store readDrv = (\<lambda>drv maskOutputs memo. None)"
| "hashDerivationModulo (Suc fuel) hs feats store readDrv =
     hashDerivation_body hs feats store (pathDerivationModulo (hashDerivationModulo fuel hs feats store readDrv) readDrv)"

definition staticOutputHashes ::
  "nat \<Rightarrow> hash_fun \<Rightarrow> xp set \<Rightarrow> string \<Rightarrow> (StorePath \<Rightarrow> Derivation result) \<Rightarrow> Derivation \<Rightarrow> (string, Hash) omap memoised" where
  "staticOutputHashes fuel hs feats store readDrv drv =
     mbind (hashDerivationModulo fuel hs feats store readDrv drv True) (\<lambda>h. mlift (Inr (dh_hashes h)))"

definition outputsAndOptPaths ::
  "hash_fun \<Rightarrow> xp set \<Rightarrow> string \<Rightarrow> 'a BasicDerivation_scheme \<Rightarrow> (string, DerivationOutput \<times> StorePath option) omap result" where
  "outputsAndOptPaths hs feats store drv =
     rbind (rmap (\<lambda>(n, out). rbind (DerivationOutput_path hs feats store (d_name drv) n out) (\<lambda>p. Inr (n, (out, p)))) (d_outputs drv))
       (\<lambda>xs. Inr (fold (\<lambda>(n, x). omap_emplace n x) xs []))"

section \<open>Placeholders\<close>

definition hashPlaceholder :: "hash_fun \<Rightarrow> string \<Rightarrow> string result" where
  "hashPlaceholder hs outputName =
     rbind (hs SHA256 (''nix-output:'' @ outputName)) (\<lambda>h. rbind (to_string h Nix32 False) (\<lambda>s. Inr (''/'' @ s)))"

definition placeholder_render :: "Hash \<Rightarrow> string result" where
  "placeholder_render h = rbind (to_string h Nix32 False) (\<lambda>s. Inr (''/'' @ s))"

definition unknownCaOutput :: "hash_fun \<Rightarrow> xp set \<Rightarrow> StorePath \<Rightarrow> string \<Rightarrow> Hash result" where
  "unknownCaOutput hs feats drvPath outputName =
     rbind (require feats CaDerivations) (\<lambda>_.
       let drvName = (if 4 \<le> length (sp_name drvPath) then take (length (sp_name drvPath) - 4) (sp_name drvPath) else sp_name drvPath) in
       hs SHA256 (''nix-upstream-output:'' @ hashPart drvPath @ '':'' @ outputPathName drvName outputName))"

definition unknownDerivation :: "hash_fun \<Rightarrow> xp set \<Rightarrow> Hash \<Rightarrow> string \<Rightarrow> Hash result" where
  "unknownDerivation hs feats placeholder outputName =
     rbind (require feats DynamicDerivations) (\<lambda>_.
     rbind (compressHash feats placeholder 20) (\<lambda>compressed.
     rbind (to_string compressed Nix32 False) (\<lambda>s.
       hs SHA256 (''nix-computed-output:'' @ s @ '':'' @ outputName))))"

fun fromSingleDerivedPathBuilt :: "hash_fun \<Rightarrow> xp set \<Rightarrow> SingleDerivedPath \<Rightarrow> string \<Rightarrow> Hash result" where
  "fromSingleDerivedPathBuilt hs feats (SDP_Opaque p) outputName = unknownCaOutput hs feats p outputName"
| "fromSingleDerivedPathBuilt hs feats (SDP_Built d out) outputName =
     rbind (fromSingleDerivedPathBuilt hs feats d out) (\<lambda>h. unknownDerivation hs feats h outputName)"

section \<open>Rewriting and resolving\<close>

primrec omapM :: "('a \<Rightarrow> 'b option) \<Rightarrow> 'a list \<Rightarrow> 'b list option" where
  "omapM f [] = Some []"
| "omapM f (x # xs) = Option.bind (f x) (\<lambda>y. Option.bind (omapM f xs) (\<lambda>ys. Some (y # ys)))"

definition applyRewrites :: "(string, string) omap \<Rightarrow> 'a BasicDerivation_scheme \<Rightarrow> 'a BasicDerivation_scheme option" where
  "applyRewrites rws drv =
     (if rws = [] then Some drv
      else
        Option.bind (rewriteStrings (d_builder drv) rws) (\<lambda>builder.
        Option.bind (omapM (\<lambda>arg. rewriteStrings arg rws) (d_args drv)) (\<lambda>args.
        Option.bind (omapM (\<lambda>(n, v). Option.bind (rewriteStrings n rws) (\<lambda>n. Option.bind (rewriteStrings v rws) (\<lambda>v. Some (n, v)))) (d_env drv)) (\<lambda>newEnv.
          Some (drv\<lparr>d_builder := builder, d_args := args, d_env := fold (\<lambda>(n, v). omap_emplace n v) newEnv []\<rparr>)))))"

definition Derivation_of :: "BasicDerivation \<Rightarrow> Derivation" where
  "Derivation_of bd = BasicDerivation.extend bd (Derivation.fields [])"

fun fill_outputs ::
  "hash_fun \<Rightarrow> xp set \<Rightarrow> string \<Rightarrow> (string, Hash) omap \<Rightarrow> string \<Rightarrow> (string, DerivationOutput) omap \<Rightarrow> (string, string) omap \<Rightarrow>
   ((string, DerivationOutput) omap \<times> (string, string) omap) result" where
  "fill_outputs hs feats store hashes name [] env = Inr ([], env)"
| "fill_outputs hs feats store hashes name ((n, out) # outs) env =
     (if out = DO_Deferred then
        (case map_of hashes n of
           None \<Rightarrow> Inl (Error ''derivation output has no hash'')
         | Some h \<Rightarrow>
             rbind (makeOutputPath hs feats store n h name) (\<lambda>p.
             rbind (fill_outputs hs feats store hashes name outs (omap_assign n (printStorePath store p) env)) (\<lambda>(outs, env).
               Inr ((n, DO_InputAddressed p) # outs, env))))
      else rbind (fill_outputs hs feats store hashes name outs env) (\<lambda>(outs, env). Inr ((n, out) # outs, env)))"

definition rewriteDerivation ::
  "nat \<Rightarrow> hash_fun \<Rightarrow> xp set \<Rightarrow> string \<Rightarrow> (StorePath \<Rightarrow> Derivation result) \<Rightarrow> BasicDerivation \<Rightarrow> (string, string) omap \<Rightarrow>
   BasicDerivation memoised" where
  "rewriteDerivation fuel hs feats store readDrv drv rws =
     (case applyRewrites rws drv of
        None \<Rightarrow> (\<lambda>memo. None)
      | Some drv \<Rightarrow>
          mbind (hashDerivationModulo fuel hs feats store readDrv (Derivation_of drv) True) (\<lambda>hashModulo.
          mlift (rbind (fill_outputs hs feats store (dh_hashes hashModulo) (d_name drv) (d_outputs drv) (d_env drv)) (\<lambda>(outs, env).
            Inr (drv\<lparr>d_outputs := outs, d_env := env\<rparr>)))))"

primrec rfold :: "('a \<Rightarrow> 's \<Rightarrow> 's result) \<Rightarrow> 'a list \<Rightarrow> 's \<Rightarrow> 's result" where
  "rfold f [] s = Inr s"
| "rfold f (x # xs) s = rbind (f x s) (rfold f xs)"

lemma rfold_cong [fundef_cong]:
  "xs = ys \<Longrightarrow> s = t \<Longrightarrow> (\<And>x u. x \<in> set ys \<Longrightarrow> f x u = g x u) \<Longrightarrow> rfold f xs s = rfold g ys t"
proof (induction ys arbitrary: xs s t)
  case (Cons y ys)
  then have "rfold f ys u = rfold g ys u" for u by auto
  then have "rfold f ys = rfold g ys" by blast
  with Cons show ?case by simp
qed simp

type_synonym drv_output_map = "(StorePath \<times> string, StorePath) omap"

function accum_outputs ::
  "(StorePath \<Rightarrow> (string, StorePath option) omap result) \<Rightarrow> StorePath \<Rightarrow> InputNode \<Rightarrow> drv_output_map \<Rightarrow> drv_output_map result" where
  "accum_outputs queryOutputs inputDrv node acc =
     rbind (queryOutputs inputDrv) (\<lambda>outs.
       rfold (\<lambda>(outputName, outputPath) acc.
         case outputPath of
           None \<Rightarrow> Inr acc
         | Some p \<Rightarrow>
             (let acc = omap_assign (inputDrv, outputName) p acc in
              case map_of (childMap node) outputName of
                None \<Rightarrow> Inr acc
              | Some child \<Rightarrow> accum_outputs queryOutputs p child acc)) outs acc)"
  by pat_completeness auto

lemma size_child: "(k, n) \<in> set (childMap node) \<Longrightarrow> size n < size node"
proof (cases node)
  case (ChildNode v kids)
  assume "(k, n) \<in> set (childMap node)"
  then have "(k, n) \<in> set kids" using ChildNode by simp
  then have "size n \<le> size_list (size_prod (\<lambda>_. 0) size) kids"
    by (induction kids) auto
  then show ?thesis using ChildNode by simp
qed

termination accum_outputs
  by (relation "measure (\<lambda>(_, _, node, _). size node)") (auto dest: map_of_SomeD size_child)

definition input_placeholder :: "hash_fun \<Rightarrow> xp set \<Rightarrow> Hash option \<Rightarrow> StorePath \<Rightarrow> string \<Rightarrow> Hash result" where
  "input_placeholder hs feats placeholderOpt inputDrv outputName =
     (case placeholderOpt of
        Some ph \<Rightarrow> unknownDerivation hs feats ph outputName
      | None \<Rightarrow> unknownCaOutput hs feats inputDrv outputName)"

text \<open>A loop whose body may also make the function return false.\<close>

primrec rofold :: "('a \<Rightarrow> 's \<Rightarrow> 's option result) \<Rightarrow> 'a list \<Rightarrow> 's \<Rightarrow> 's option result" where
  "rofold f [] s = Inr (Some s)"
| "rofold f (x # xs) s = rbind (f x s) (\<lambda>r. case r of None \<Rightarrow> Inr None | Some s \<Rightarrow> rofold f xs s)"

lemma rofold_cong [fundef_cong]:
  "xs = ys \<Longrightarrow> s = t \<Longrightarrow> (\<And>x u. x \<in> set ys \<Longrightarrow> f x u = g x u) \<Longrightarrow> rofold f xs s = rofold g ys t"
proof (induction ys arbitrary: xs s t)
  case (Cons y ys)
  then have "rofold f ys u = rofold g ys u" for u by auto
  with Cons show ?case by (simp cong: option.case_cong)
qed simp

type_synonym resolve_state = "StorePath oset \<times> (string, string) omap"

definition resolve_output ::
  "hash_fun \<Rightarrow> xp set \<Rightarrow> string \<Rightarrow> Hash option \<Rightarrow> StorePath \<Rightarrow> drv_output_map \<Rightarrow> string \<Rightarrow> resolve_state \<Rightarrow> resolve_state option result" where
  "resolve_output hs feats store placeholderOpt inputDrv inputDrvOutputs outputName = (\<lambda>(inputSrcs, inputRewrites).
     case map_of inputDrvOutputs (inputDrv, outputName) of
       None \<Rightarrow> Inr None
     | Some actualPath \<Rightarrow>
         rbind
           (if CaDerivations \<in> feats then
              rbind (input_placeholder hs feats placeholderOpt inputDrv outputName) (\<lambda>ph.
              rbind (placeholder_render ph) (\<lambda>k. Inr (omap_emplace k (printStorePath store actualPath) inputRewrites)))
            else Inr inputRewrites) (\<lambda>inputRewrites.
         Inr (Some (oset_insert actualPath inputSrcs, inputRewrites))))"

function tryResolveInput ::
  "hash_fun \<Rightarrow> xp set \<Rightarrow> string \<Rightarrow> drv_output_map \<Rightarrow> Hash option \<Rightarrow> StorePath \<Rightarrow> InputNode \<Rightarrow> resolve_state \<Rightarrow> resolve_state option result" where
  "tryResolveInput hs feats store inputDrvOutputs placeholderOpt inputDrv node st =
     rbind (rofold (resolve_output hs feats store placeholderOpt inputDrv inputDrvOutputs) (node_value node) st) (\<lambda>r.
       case r of
         None \<Rightarrow> Inr None
       | Some st \<Rightarrow>
           rofold (\<lambda>(outputName, childNode) st.
             case map_of inputDrvOutputs (inputDrv, outputName) of
               None \<Rightarrow> Inr None
             | Some actualPath \<Rightarrow>
                 rbind (input_placeholder hs feats placeholderOpt inputDrv outputName) (\<lambda>nextPlaceholder.
                   tryResolveInput hs feats store inputDrvOutputs (Some nextPlaceholder) actualPath childNode st)) (childMap node) st)"
  by pat_completeness auto

termination tryResolveInput
  by (relation "measure (\<lambda>(_, _, _, _, _, _, node, _). size node)") (auto dest: size_child)

definition tryResolve_map ::
  "nat \<Rightarrow> hash_fun \<Rightarrow> xp set \<Rightarrow> string \<Rightarrow> (StorePath \<Rightarrow> Derivation result) \<Rightarrow> Derivation \<Rightarrow> drv_output_map \<Rightarrow>
   BasicDerivation option memoised" where
  "tryResolve_map fuel hs feats store readDrv drv inputDrvOutputs =
     mbind (mlift (rofold (\<lambda>(inputDrv, inputNode). tryResolveInput hs feats store inputDrvOutputs None inputDrv inputNode)
         (d_inputDrvs drv) (d_inputSrcs drv, []))) (\<lambda>r.
       case r of
         None \<Rightarrow> mlift (Inr None)
       | Some (inputSrcs, inputRewrites) \<Rightarrow>
           mbind (rewriteDerivation fuel hs feats store readDrv
               ((BasicDerivation.truncate drv)\<lparr>d_inputSrcs := inputSrcs\<rparr>) inputRewrites) (\<lambda>resolved.
             mlift (Inr (Some resolved))))"

definition tryResolve ::
  "nat \<Rightarrow> hash_fun \<Rightarrow> xp set \<Rightarrow> string \<Rightarrow> (StorePath \<Rightarrow> Derivation result) \<Rightarrow> (StorePath \<Rightarrow> (string, StorePath option) omap result) \<Rightarrow>
   Derivation \<Rightarrow> BasicDerivation option memoised" where
  "tryResolve fuel hs feats store readDrv queryOutputs drv =
     mbind (mlift (rfold (\<lambda>(inputDrv, node). accum_outputs queryOutputs inputDrv node) (d_inputDrvs drv) [])) (\<lambda>inputDrvOutputs.
       tryResolve_map fuel hs feats store readDrv drv inputDrvOutputs)"

section \<open>Invariants\<close>

definition envHasRightPath :: "string \<Rightarrow> (string, string) omap \<Rightarrow> StorePath \<Rightarrow> string \<Rightarrow> unit result" where
  "envHasRightPath store env actual varName =
     (case map_of env varName of
        None \<Rightarrow> Inl (Error ''derivation has incorrect environment variable'')
      | Some v \<Rightarrow> rbind (parseStorePath store v) (\<lambda>p.
          if p \<noteq> actual then Inl (Error ''derivation has incorrect environment variable'') else Inr ()))"

fun check_outputs ::
  "hash_fun \<Rightarrow> xp set \<Rightarrow> string \<Rightarrow> DrvHash memoised \<Rightarrow> string \<Rightarrow> (string, string) omap \<Rightarrow> (string \<times> DerivationOutput) list \<Rightarrow>
   DrvHash option \<Rightarrow> unit memoised" where
  "check_outputs hs feats store hashModulo drvName env [] hashesModulo = mlift (Inr ())"
| "check_outputs hs feats store hashModulo drvName env ((n, out) # outs) hashesModulo =
     (case out of
        DO_InputAddressed path \<Rightarrow>
          mbind (case hashesModulo of Some h \<Rightarrow> mlift (Inr h) | None \<Rightarrow> hashModulo) (\<lambda>h.
          mbind (mlift
            (case map_of (dh_hashes h) n of
               None \<Rightarrow> Inl (Error ''derivation has unexpected output'')
             | Some currentOutputHash \<Rightarrow>
                 rbind (makeOutputPath hs feats store n currentOutputHash drvName) (\<lambda>recomputed.
                   if path \<noteq> recomputed then Inl (Error ''derivation has incorrect output'')
                   else envHasRightPath store env path n))) (\<lambda>_.
          check_outputs hs feats store hashModulo drvName env outs (Some h)))
      | DO_CAFixed ca \<Rightarrow>
          mbind (mlift (rbind (CAFixed_path hs feats store drvName n ca) (\<lambda>path. envHasRightPath store env path n))) (\<lambda>_.
          check_outputs hs feats store hashModulo drvName env outs hashesModulo)
      | _ \<Rightarrow> check_outputs hs feats store hashModulo drvName env outs hashesModulo)"

definition checkInvariants ::
  "nat \<Rightarrow> hash_fun \<Rightarrow> xp set \<Rightarrow> string \<Rightarrow> (StorePath \<Rightarrow> Derivation result) \<Rightarrow> Derivation \<Rightarrow> StorePath \<Rightarrow> unit memoised" where
  "checkInvariants fuel hs feats store readDrv drv drvPath =
     mbind (mlift (assert_that (isDerivation drvPath) ''drvPath.isDerivation()'')) (\<lambda>_.
     let drvName = take (length (sp_name drvPath) - length drvExtension) (sp_name drvPath) in
     if drvName \<noteq> d_name drv then mlift (Inl (Error ''derivation has a name which does not match its path''))
     else
       mbind (mlift (drv_type drv)) (\<lambda>_.
         check_outputs hs feats store (hashDerivationModulo fuel hs feats store readDrv drv True) drvName (d_env drv) (d_outputs drv) None))"

definition writeDerivation ::
  "hash_fun \<Rightarrow> xp set \<Rightarrow> string \<Rightarrow> (string \<Rightarrow> string \<Rightarrow> StorePath oset \<Rightarrow> StorePath result) \<Rightarrow> Derivation \<Rightarrow> bool \<Rightarrow> StorePath result" where
  "writeDerivation hs feats store addTextToStore drv readOnly =
     (let references = fold oset_insert (map fst (d_inputDrvs drv)) (d_inputSrcs drv);
          suffix = d_name drv @ drvExtension in
      rbind (unparse hs feats store drv False None) (\<lambda>contents.
        if readOnly then
          rbind (hs SHA256 contents) (\<lambda>h.
            makeFixedOutputPathFromCA hs feats store suffix (TextInfo h references))
        else addTextToStore contents suffix references))"

section \<open>The memo table does not change the result\<close>

text \<open>
  The reference: the same computation with a function that gives the hash of every input derivation,
  and no table. \<open>path_hash\<close> is the function that the recursion over the graph computes.
\<close>

definition pure_path :: "(StorePath \<Rightarrow> DrvHash result) \<Rightarrow> StorePath \<Rightarrow> DrvHash memoised" where
  "pure_path H p = mlift (H p)"

definition hash_with ::
  "hash_fun \<Rightarrow> xp set \<Rightarrow> string \<Rightarrow> (StorePath \<Rightarrow> DrvHash result) \<Rightarrow> Derivation \<Rightarrow> bool \<Rightarrow> DrvHash result" where
  "hash_with hs feats store H drv msk = fst (the (hashDerivation_body hs feats store (pure_path H) drv msk []))"

primrec path_hash :: "nat \<Rightarrow> hash_fun \<Rightarrow> xp set \<Rightarrow> string \<Rightarrow> (StorePath \<Rightarrow> Derivation result) \<Rightarrow> StorePath \<Rightarrow> DrvHash result" where
  "path_hash 0 hs feats store readDrv p = Inl (Error [])"
| "path_hash (Suc n) hs feats store readDrv p =
     rbind (readDrv p) (\<lambda>drv. hash_with hs feats store (path_hash n hs feats store readDrv) drv False)"

text \<open>The graph of derivations is acyclic: an input has a smaller rank.\<close>

definition ranked :: "(StorePath \<Rightarrow> Derivation result) \<Rightarrow> (StorePath \<Rightarrow> nat) \<Rightarrow> bool" where
  "ranked readDrv rank \<longleftrightarrow> (\<forall>p drv q. readDrv p = Inr drv \<longrightarrow> q \<in> fst ` set (d_inputDrvs drv) \<longrightarrow> rank q < rank p)"

lemma pure_bind: "mbind (pure_path H p) f memo = (case H p of Inl e \<Rightarrow> Some (Inl e, memo) | Inr a \<Rightarrow> f a memo)"
  by (cases "H p") (simp_all add: pure_path_def)

text \<open>On tables that satisfy \<open>ok\<close>, a computation that returns gives \<open>H\<close> and keeps \<open>ok\<close>.\<close>

definition follows :: "('a \<Rightarrow> 'b memoised) \<Rightarrow> ('a \<Rightarrow> 'b result) \<Rightarrow> (DrvHashes \<Rightarrow> bool) \<Rightarrow> 'a set \<Rightarrow> bool" where
  "follows path H ok A \<longleftrightarrow> (\<forall>p \<in> A. \<forall>memo r memo'. ok memo \<longrightarrow> path p memo = Some (r, memo') \<longrightarrow> r = H p \<and> ok memo')"

definition returns :: "('a \<Rightarrow> 'b memoised) \<Rightarrow> (DrvHashes \<Rightarrow> bool) \<Rightarrow> 'a set \<Rightarrow> bool" where
  "returns path ok A \<longleftrightarrow> (\<forall>p \<in> A. \<forall>memo. ok memo \<longrightarrow> path p memo \<noteq> None)"

lemma follows_mono: "follows path H ok A \<Longrightarrow> B \<subseteq> A \<Longrightarrow> follows path H ok B"
  unfolding follows_def by blast

lemma followsD: "follows path H ok A \<Longrightarrow> p \<in> A \<Longrightarrow> ok memo \<Longrightarrow> path p memo = Some (r, memo') \<Longrightarrow> r = H p \<and> ok memo'"
  unfolding follows_def by blast

lemma returns_mono: "returns path ok A \<Longrightarrow> B \<subseteq> A \<Longrightarrow> returns path ok B"
  unfolding returns_def by blast

lemma hash_inputs_follows:
  assumes "follows path H ok (fst ` set xs)" "ok memo" "hash_inputs path xs k m memo = Some (r, memo')"
  shows "hash_inputs (pure_path H) xs k m memo2 = Some (r, memo2) \<and> ok memo'"
  using assms
proof (induction path xs k m arbitrary: memo r rule: hash_inputs.induct)
  case (2 path p node xs k m)
  obtain x memo1 where x: "path p memo = Some (x, memo1)"
    using "2.prems"(3) by (auto simp: mbind_Some)
  then have H: "x = H p" "ok memo1" using followsD [OF "2.prems"(1), of p memo] "2.prems"(2) by auto
  have tl: "follows path H ok (fst ` set xs)" by (rule follows_mono [OF "2.prems"(1)]) auto
  show ?case
  proof (cases x)
    case (Inl e)
    with "2.prems"(3) x H show ?thesis by (auto simp: mbind_Some pure_bind)
  next
    case (Inr res)
    define k' where "k' = (if dh_kind res = KindDeferred then KindDeferred else k)"
    have "mbind (mlift (add_outputs res (node_value node) m)) (hash_inputs path xs k') memo1 = Some (r, memo')"
      using "2.prems"(3) x Inr by (auto simp: mbind_Some k'_def)
    then show ?thesis
      using "2.IH" [OF tl H(2), of res, folded k'_def] H(2) Inr H(1) [symmetric]
      by (cases "add_outputs res (node_value node) m") (auto simp: pure_bind k'_def [symmetric])
  qed
qed simp

lemma hash_inputs_returns:
  assumes "follows path H ok (fst ` set xs)" "returns path ok (fst ` set xs)" "ok memo"
  shows "hash_inputs path xs k m memo \<noteq> None"
  using assms
proof (induction path xs k m arbitrary: memo rule: hash_inputs.induct)
  case (2 path p node xs k m)
  obtain x memo1 where x: "path p memo = Some (x, memo1)"
    using "2.prems"(2,3) by (force simp: returns_def)
  then have H: "ok memo1" using followsD [OF "2.prems"(1), of p memo] "2.prems"(3) by auto
  have tl: "follows path H ok (fst ` set xs)" "returns path ok (fst ` set xs)"
    by (rule follows_mono [OF "2.prems"(1)], auto) (rule returns_mono [OF "2.prems"(2)], auto)
  show ?case
  proof (cases x)
    case (Inr res)
    then show ?thesis
      using x "2.IH" [OF tl H, of res] by (cases "add_outputs res (node_value node) m") (auto simp: mbind_def [of "path p"])
  qed (use x in \<open>simp add: mbind_def\<close>)
qed simp

lemma hash_inputs_pure: "\<exists>r. \<forall>memo. hash_inputs (pure_path H) xs k m memo = Some (r, memo)"
proof -
  have "follows (pure_path H) H (\<lambda>_. True) (fst ` set xs)" "returns (pure_path H) (\<lambda>_. True) (fst ` set xs)"
    by (auto simp: follows_def returns_def pure_path_def)
  with hash_inputs_returns obtain r memo' where "hash_inputs (pure_path H) xs k m [] = Some (r, memo')" by fastforce
  with hash_inputs_follows [of "pure_path H" H "\<lambda>_. True" xs "[]"] show ?thesis
    by (auto simp: follows_def pure_path_def)
qed

lemma body_pure: "hashDerivation_body hs feats store (pure_path H) drv msk memo = Some (hash_with hs feats store H drv msk, memo)"
proof -
  have "\<exists>r. \<forall>memo. hashDerivation_body hs feats store (pure_path H) drv msk memo = Some (r, memo)"
  proof (cases "drv_type drv")
    case (Inr ty)
    obtain x where "\<forall>memo. hash_inputs (pure_path H) (d_inputDrvs drv) (kind_of_type ty) [] memo = Some (x, memo)"
      using hash_inputs_pure by blast
    then show ?thesis
      using Inr by (cases x) (auto simp: hashDerivation_body_def mbind_def split: sum.split)
  qed (simp add: hashDerivation_body_def)
  then show ?thesis by (auto simp: hash_with_def)
qed

lemma body_follows:
  assumes "follows path H ok (fst ` set (d_inputDrvs drv))" "ok memo"
    "hashDerivation_body hs feats store path drv msk memo = Some (r, memo')"
  shows "r = hash_with hs feats store H drv msk \<and> ok memo'"
proof -
  have "hashDerivation_body hs feats store (pure_path H) drv msk [] = Some (r, []) \<and> ok memo'"
  proof (cases "drv_type drv")
    case (Inr ty)
    show ?thesis
    proof (cases "isFixed ty")
      case False
      with Inr assms(3) obtain x memo1 where x: "hash_inputs path (d_inputDrvs drv) (kind_of_type ty) [] memo = Some (x, memo1)"
        by (auto simp: hashDerivation_body_def mbind_Some)
      from hash_inputs_follows [OF assms(1,2) this, of "[]"] x False Inr assms(3) show ?thesis
        by (cases x) (auto simp: hashDerivation_body_def mbind_def)
    qed (use Inr assms in \<open>simp add: hashDerivation_body_def\<close>)
  qed (use assms in \<open>simp add: hashDerivation_body_def\<close>)
  then show ?thesis by (simp add: body_pure)
qed

lemma body_returns:
  assumes "follows path H ok (fst ` set (d_inputDrvs drv))" "returns path ok (fst ` set (d_inputDrvs drv))" "ok memo"
  shows "hashDerivation_body hs feats store path drv msk memo \<noteq> None"
proof (cases "drv_type drv")
  case (Inr ty)
  with hash_inputs_returns [OF assms, of "kind_of_type ty" "[]"] show ?thesis
    by (auto simp: hashDerivation_body_def mbind_def split: sum.split)
qed (simp add: hashDerivation_body_def)

lemma hash_with_cong:
  assumes "\<And>p. p \<in> fst ` set (d_inputDrvs drv) \<Longrightarrow> H p = H' p"
  shows "hash_with hs feats store H drv msk = hash_with hs feats store H' drv msk"
proof -
  have "follows (pure_path H) H' (\<lambda>_. True) (fst ` set (d_inputDrvs drv))"
    using assms by (auto simp: follows_def pure_path_def)
  from body_follows [OF this TrueI body_pure] show ?thesis by simp
qed

lemma path_hash_stable:
  assumes "ranked readDrv rank"
  shows "rank p < n \<Longrightarrow> rank p < m \<Longrightarrow> path_hash n hs feats store readDrv p = path_hash m hs feats store readDrv p"
proof (induction n arbitrary: p m)
  case (Suc n)
  then obtain m' where m: "m = Suc m'" by (cases m) auto
  have "hash_with hs feats store (path_hash n hs feats store readDrv) drv False =
      hash_with hs feats store (path_hash m' hs feats store readDrv) drv False" if drv: "readDrv p = Inr drv" for drv
  proof (rule hash_with_cong)
    fix q assume "q \<in> fst ` set (d_inputDrvs drv)"
    then have "rank q < rank p" using assms drv by (auto simp: ranked_def)
    then show "path_hash n hs feats store readDrv q = path_hash m' hs feats store readDrv q"
      using Suc.prems m by (intro Suc.IH) auto
  qed
  with m show ?case by (cases "readDrv p") simp_all
qed simp

definition graph_hash ::
  "hash_fun \<Rightarrow> xp set \<Rightarrow> string \<Rightarrow> (StorePath \<Rightarrow> Derivation result) \<Rightarrow> (StorePath \<Rightarrow> nat) \<Rightarrow> StorePath \<Rightarrow> DrvHash result" where
  "graph_hash hs feats store readDrv rank p = path_hash (Suc (rank p)) hs feats store readDrv p"

lemma graph_hash_eq:
  assumes "ranked readDrv rank"
  shows "graph_hash hs feats store readDrv rank p =
    rbind (readDrv p) (\<lambda>drv. hash_with hs feats store (graph_hash hs feats store readDrv rank) drv False)"
proof (cases "readDrv p")
  case (Inr drv)
  have "hash_with hs feats store (path_hash (rank p) hs feats store readDrv) drv False =
      hash_with hs feats store (graph_hash hs feats store readDrv rank) drv False"
    using assms Inr unfolding graph_hash_def
    by (intro hash_with_cong path_hash_stable [OF assms]) (auto simp: ranked_def)
  with Inr show ?thesis by (simp add: graph_hash_def)
qed (simp add: graph_hash_def)

definition memo_ok :: "(StorePath \<Rightarrow> DrvHash result) \<Rightarrow> DrvHashes \<Rightarrow> bool" where
  "memo_ok H memo \<longleftrightarrow> (\<forall>p h. map_of memo p = Some h \<longrightarrow> H p = Inr h)"

lemma path_follows:
  assumes "ranked readDrv rank" "H = graph_hash hs feats store readDrv rank"
    and "\<And>drv. follows (hashDrv drv) (hash_with hs feats store H drv) (memo_ok H) UNIV"
  shows "follows (pathDerivationModulo hashDrv readDrv) H (memo_ok H) UNIV"
  unfolding follows_def
proof (intro ballI allI impI)
  fix p memo r memo'
  assume ok: "memo_ok H memo" and eq: "pathDerivationModulo hashDrv readDrv p memo = Some (r, memo')"
  show "r = H p \<and> memo_ok H memo'"
  proof (cases "map_of memo p")
    case None
    note H = graph_hash_eq [OF assms(1), of hs feats store p, folded assms(2)]
    show ?thesis
    proof (cases "readDrv p")
      case (Inr drv)
      with eq None obtain x memo1 where x: "hashDrv drv False memo = Some (x, memo1)"
        by (auto simp: pathDerivationModulo_def mbind_Some)
      from followsD [OF assms(3) UNIV_I ok x] have "x = H p" "memo_ok H memo1" using H Inr by auto
      with x eq None Inr show ?thesis
        by (cases "H p") (auto simp: pathDerivationModulo_def mbind_def memo_ok_def split: if_splits)
    qed (use eq None ok H in \<open>simp add: pathDerivationModulo_def\<close>)
  qed (use eq ok in \<open>auto simp: pathDerivationModulo_def memo_ok_def\<close>)
qed

lemma hashDerivationModulo_follows:
  assumes "ranked readDrv rank" "H = graph_hash hs feats store readDrv rank"
  shows "follows (hashDerivationModulo fuel hs feats store readDrv drv) (hash_with hs feats store H drv) (memo_ok H) UNIV"
proof (induction fuel arbitrary: drv)
  case (Suc fuel)
  note path = follows_mono [OF path_follows [OF assms Suc.IH] subset_UNIV]
  show ?case unfolding follows_def
    using body_follows [OF path] by simp
qed (simp add: follows_def)

lemma hashDerivationModulo_not_None:
  assumes "ranked readDrv rank" "H = graph_hash hs feats store readDrv rank"
  shows "(\<forall>q \<in> fst ` set (d_inputDrvs drv). rank q < fuel) \<Longrightarrow> memo_ok H memo \<Longrightarrow>
    hashDerivationModulo (Suc fuel) hs feats store readDrv drv msk memo \<noteq> None"
proof (induction fuel arbitrary: drv msk memo)
  case 0
  then have "d_inputDrvs drv = []" by auto
  then show ?case
    using body_returns [of "pathDerivationModulo (hashDerivationModulo 0 hs feats store readDrv) readDrv" H "memo_ok H" drv memo] 0
    by (simp add: follows_def returns_def)
next
  case (Suc fuel)
  have "returns (pathDerivationModulo (hashDerivationModulo (Suc fuel) hs feats store readDrv) readDrv) (memo_ok H) (fst ` set (d_inputDrvs drv))"
    unfolding returns_def
  proof (intro ballI allI impI)
    fix q memo
    assume q: "q \<in> fst ` set (d_inputDrvs drv)" and ok: "memo_ok H memo"
    have "hashDerivationModulo (Suc fuel) hs feats store readDrv d False memo \<noteq> None" if "readDrv q = Inr d" for d
    proof (rule Suc.IH [OF _ ok])
      show "\<forall>q' \<in> fst ` set (d_inputDrvs d). rank q' < fuel"
        using that q Suc.prems(1) assms(1) unfolding ranked_def by (meson less_Suc_eq_le order_less_le_trans)
    qed
    then show "pathDerivationModulo (hashDerivationModulo (Suc fuel) hs feats store readDrv) readDrv q memo \<noteq> None"
      by (cases "readDrv q") (auto simp: pathDerivationModulo_def mbind_def split: option.split sum.split simp del: hashDerivationModulo.simps)
  qed
  from body_returns [OF follows_mono [OF path_follows [OF assms hashDerivationModulo_follows [OF assms]] subset_UNIV] this Suc.prems(2)]
  show ?case by (subst hashDerivationModulo.simps)
qed

lemma hashDerivationModulo_eq:
  assumes "ranked readDrv rank" "\<forall>q \<in> fst ` set (d_inputDrvs drv). rank q < fuel"
    and "memo_ok (graph_hash hs feats store readDrv rank) memo"
  obtains memo' where "memo_ok (graph_hash hs feats store readDrv rank) memo'"
    "hashDerivationModulo (Suc fuel) hs feats store readDrv drv msk memo =
       Some (hash_with hs feats store (graph_hash hs feats store readDrv rank) drv msk, memo')"
proof -
  obtain r memo' where r: "hashDerivationModulo (Suc fuel) hs feats store readDrv drv msk memo = Some (r, memo')"
    using hashDerivationModulo_not_None [OF assms(1) refl assms(2,3)] by fastforce
  from followsD [OF hashDerivationModulo_follows [OF assms(1) refl] UNIV_I assms(3) r] r that show thesis by auto
qed

text \<open>The tables that calls leave behind.\<close>

inductive memo_reachable :: "hash_fun \<Rightarrow> xp set \<Rightarrow> string \<Rightarrow> (StorePath \<Rightarrow> Derivation result) \<Rightarrow> DrvHashes \<Rightarrow> bool"
  for hs feats store readDrv where
  empty: "memo_reachable hs feats store readDrv []"
| call: "memo_reachable hs feats store readDrv memo \<Longrightarrow>
    hashDerivationModulo fuel hs feats store readDrv drv msk memo = Some (r, memo') \<Longrightarrow> memo_reachable hs feats store readDrv memo'"

lemma memo_reachable_ok:
  assumes "memo_reachable hs feats store readDrv memo" "ranked readDrv rank"
  shows "memo_ok (graph_hash hs feats store readDrv rank) memo"
  using assms(1)
proof induction
  case (call memo fuel drv msk r memo')
  from followsD [OF hashDerivationModulo_follows [OF assms(2) refl] UNIV_I call.IH call.hyps(2)] show ?case by simp
qed (simp add: memo_ok_def)

text \<open>
  C5: the memo table is transparent: on an acyclic graph of derivations, with any table that earlier
  calls have left behind, also calls that raised an exception, \<^verbatim>\<open>hashDerivationModulo\<close> returns, and
  it returns the hash, or the exception, that it returns with an empty table.
\<close>

theorem hashDerivationModulo_memo:
  assumes "ranked readDrv rank" "\<forall>q \<in> fst ` set (d_inputDrvs drv). rank q < fuel" "memo_reachable hs feats store readDrv memo"
  shows "\<exists>r memo1 memo2. hashDerivationModulo (Suc fuel) hs feats store readDrv drv msk memo = Some (r, memo1) \<and>
    hashDerivationModulo (Suc fuel) hs feats store readDrv drv msk [] = Some (r, memo2)"
  using hashDerivationModulo_eq [OF assms(1,2) memo_reachable_ok [OF assms(3,1)], where msk = msk]
    hashDerivationModulo_eq [OF assms(1,2) memo_reachable_ok [OF memo_reachable.empty assms(1)], where msk = msk]
  by metis

section \<open>What the hash depends on\<close>

definition output_key :: "DrvHash \<Rightarrow> string \<Rightarrow> string option" where
  "output_key res n =
     (case map_of (dh_hashes res) n of
        None \<Rightarrow> None
      | Some h \<Rightarrow> (case to_string h Base16 False of Inr key \<Rightarrow> Some key | Inl _ \<Rightarrow> None))"

text \<open>The inputs as the hash sees them: the hashes of the derivation and the names of the outputs used.\<close>

definition input_views :: "(StorePath \<Rightarrow> DrvHash result) \<Rightarrow> (StorePath \<times> InputNode) list \<Rightarrow> (DrvHash result \<times> string list) set" where
  "input_views H xs = (\<lambda>(p, node). (H p, node_value node)) ` set xs"

definition views_ok :: "(DrvHash result \<times> string list) set \<Rightarrow> bool" where
  "views_ok V \<longleftrightarrow> (\<forall>(r, names) \<in> V. \<exists>res. r = Inr res \<and> (\<forall>n \<in> set names. output_key res n \<noteq> None))"

definition contributions :: "(DrvHash result \<times> string list) set \<Rightarrow> (string \<times> string) set" where
  "contributions V = {(key, n). \<exists>res names. (Inr res, names) \<in> V \<and> n \<in> set names \<and> output_key res n = Some key}"

definition view_kind :: "(DrvHash result \<times> string list) set \<Rightarrow> DrvHash_Kind \<Rightarrow> DrvHash_Kind" where
  "view_kind V k = (if \<exists>res names. (Inr res, names) \<in> V \<and> dh_kind res = KindDeferred then KindDeferred else k)"

definition is_inputs2 :: "(string \<times> string) set \<Rightarrow> (string, InputNode) omap \<Rightarrow> bool" where
  "is_inputs2 C m \<longleftrightarrow> finite C \<and> omap_ok m \<and>
     (\<forall>key. map_of m key = (if \<exists>n. (key, n) \<in> C then Some (ChildNode (sorted_list_of_set {n. (key, n) \<in> C}) []) else None))"

lemma is_inputs2_unique: "is_inputs2 C m \<Longrightarrow> is_inputs2 C m' \<Longrightarrow> m = m'"
  unfolding is_inputs2_def by (intro omap_eqI) auto

lemma oset_insert_sorted_list: "finite A \<Longrightarrow> oset_insert x (sorted_list_of_set A) = sorted_list_of_set (insert x A)"
  by (rule oset_eq) (simp_all del: sorted_list_of_set_insert_remove)

lemma insert_input_ok: "is_inputs2 C m \<Longrightarrow> is_inputs2 (insert (key, n) C) (insert_input key n m)"
proof -
  assume ok: "is_inputs2 C m"
  let ?N = "{n. (key, n) \<in> C}"
  have "?N \<subseteq> snd ` C" by force
  then have fin: "finite ?N" using ok by (auto simp: is_inputs2_def intro: finite_subset)
  have "oset_insert n (node_value (node_or [] (map_of m key))) = sorted_list_of_set (insert n ?N)"
    "childMap (node_or [] (map_of m key)) = []"
    using ok oset_insert_sorted_list [OF fin, of n] by (auto simp: is_inputs2_def node_or_def)
  moreover have "{n'. (key', n') \<in> insert (key, n) C} = (if key' = key then insert n ?N else {n'. (key', n') \<in> C})" for key' by auto
  ultimately show ?thesis using ok by (auto simp: is_inputs2_def insert_input_def Let_def)
qed

lemma add_outputs_result:
  "is_inputs2 C m \<Longrightarrow>
    (if \<forall>n \<in> set names. output_key res n \<noteq> None
     then \<exists>m'. add_outputs res names m = Inr m' \<and> is_inputs2 (C \<union> contributions {(Inr res, names)}) m'
     else \<exists>e. add_outputs res names m = Inl e)"
proof (induction names arbitrary: C m)
  case Nil
  then show ?case by (simp add: contributions_def)
next
  case (Cons n names)
  show ?case
  proof (cases "output_key res n")
    case None
    then show ?thesis by (auto simp: output_key_def split: option.splits sum.splits)
  next
    case (Some key)
    then have step: "add_outputs res (n # names) m = add_outputs res names (insert_input key n m)"
      by (auto simp: output_key_def split: option.splits sum.splits)
    have "insert (key, n) C \<union> contributions {(Inr res, names)} = C \<union> contributions {(Inr res, n # names)}"
      using Some by (auto simp: contributions_def)
    with Cons.IH [OF insert_input_ok [OF Cons.prems, of key n]] Some show ?thesis
      unfolding step by (auto split: if_splits)
  qed
qed

lemma hash_inputs_result:
  "is_inputs2 C m \<Longrightarrow>
    (if views_ok (input_views H xs)
     then \<exists>m'. hash_inputs (pure_path H) xs k m memo = Some (Inr (view_kind (input_views H xs) k, m'), memo) \<and>
       is_inputs2 (C \<union> contributions (input_views H xs)) m'
     else \<exists>e. hash_inputs (pure_path H) xs k m memo = Some (Inl e, memo))"
proof (induction xs arbitrary: C k m)
  case Nil
  then show ?case by (simp add: input_views_def views_ok_def contributions_def view_kind_def)
next
  case (Cons x xs)
  obtain p node where x: "x = (p, node)" by (cases x)
  have V: "input_views H (x # xs) = insert (H p, node_value node) (input_views H xs)" by (simp add: x input_views_def)
  show ?case
  proof (cases "H p")
    case (Inl e)
    then have "\<not> views_ok (input_views H (x # xs))" by (simp add: V views_ok_def)
    with Inl x show ?thesis by (simp add: pure_bind)
  next
    case (Inr res)
    note add = add_outputs_result [OF Cons.prems, of "node_value node" res]
    show ?thesis
    proof (cases "\<forall>n \<in> set (node_value node). output_key res n \<noteq> None")
      case True
      with add obtain m1 where m1: "add_outputs res (node_value node) m = Inr m1"
        "is_inputs2 (C \<union> contributions {(Inr res, node_value node)}) m1" by auto
      define k1 where "k1 = (if dh_kind res = KindDeferred then KindDeferred else k)"
      have ok: "views_ok (input_views H (x # xs)) = views_ok (input_views H xs)" using True Inr by (auto simp: V views_ok_def)
      have kind: "view_kind (input_views H xs) k1 = view_kind (input_views H (x # xs)) k"
        using Inr by (auto simp: V view_kind_def k1_def)
      have con: "C \<union> contributions {(Inr res, node_value node)} \<union> contributions (input_views H xs) = C \<union> contributions (input_views H (x # xs))"
        using Inr by (auto simp: V contributions_def)
      have "hash_inputs (pure_path H) (x # xs) k m memo = hash_inputs (pure_path H) xs k1 m1 memo"
        using m1(1) x Inr by (simp add: pure_bind k1_def)
      with Cons.IH [OF m1(2), of k1, unfolded kind con] show ?thesis unfolding ok by simp
    next
      case False
      then have "\<not> views_ok (input_views H (x # xs))" using Inr by (auto simp: V views_ok_def)
      moreover obtain e where "add_outputs res (node_value node) m = Inl e" using add unfolding if_not_P [OF False] by blast
      ultimately show ?thesis using x Inr by (simp add: pure_bind)
    qed
  qed
qed

text \<open>Two derivations that differ only in their inputs.\<close>

definition same_but_inputs :: "Derivation \<Rightarrow> Derivation \<Rightarrow> bool" where
  "same_but_inputs drv drv' \<longleftrightarrow> drv' = drv\<lparr>d_inputDrvs := d_inputDrvs drv'\<rparr>"

lemma same_but_inputs_unparse:
  assumes "same_but_inputs drv drv'" "hasDynamicDrvDep drv' = hasDynamicDrvDep drv"
  shows "unparse hs feats store drv' msk (Some ins) = unparse hs feats store drv msk (Some ins)" "drv_type drv' = drv_type drv"
    "d_outputs drv' = d_outputs drv" "d_name drv' = d_name drv"
proof -
  obtain xs where "drv' = drv\<lparr>d_inputDrvs := xs\<rparr>" using assms(1) unfolding same_but_inputs_def by blast
  then show "unparse hs feats store drv' msk (Some ins) = unparse hs feats store drv msk (Some ins)" "drv_type drv' = drv_type drv"
    "d_outputs drv' = d_outputs drv" "d_name drv' = d_name drv"
    using assms(2) by (simp_all add: unparse_def drv_type_def)
qed

lemma hash_with_views:
  assumes "same_but_inputs drv drv'" "hasDynamicDrvDep drv' = hasDynamicDrvDep drv"
    and "input_views H (d_inputDrvs drv') = input_views H (d_inputDrvs drv)"
    and "hash_with hs feats store H drv msk = Inr h"
  shows "hash_with hs feats store H drv' msk = Inr h"
proof -
  note eqs = same_but_inputs_unparse [OF assms(1,2)]
  have start: "is_inputs2 {} []" by (simp add: is_inputs2_def)
  have body: "hashDerivation_body hs feats store (pure_path H) drv msk [] = Some (Inr h, [])"
    using body_pure [of hs feats store H drv msk "[]"] assms(4) by simp
  obtain ty where ty: "drv_type drv = Inr ty" using body by (cases "drv_type drv") (auto simp: hashDerivation_body_def)
  have "hashDerivation_body hs feats store (pure_path H) drv' msk [] = Some (Inr h, [])"
  proof (cases "isFixed ty")
    case True
    with body ty show ?thesis by (simp add: hashDerivation_body_def eqs)
  next
    case False
    note ins = hash_inputs_result [OF start, of H _ "kind_of_type ty" "[]"]
    have "views_ok (input_views H (d_inputDrvs drv))"
      using ins [of "d_inputDrvs drv"] body ty False by (auto simp: hashDerivation_body_def mbind_def split: if_splits)
    with ins [of "d_inputDrvs drv"] ins [of "d_inputDrvs drv'"] assms(3) is_inputs2_unique
    have "hash_inputs (pure_path H) (d_inputDrvs drv') (kind_of_type ty) [] [] = hash_inputs (pure_path H) (d_inputDrvs drv) (kind_of_type ty) [] []"
      by (auto split: if_splits)
    with body ty False show ?thesis by (simp add: hashDerivation_body_def eqs mbind_def)
  qed
  then show ?thesis by (simp add: hash_with_def)
qed

lemma hash_with_fixed:
  assumes "drv_type d = Inr ty" "isFixed ty" "d_outputs d' = d_outputs d" "d_name d' = d_name d"
  shows "hash_with hs feats store H d' msk = hash_with hs feats store H d msk'"
proof -
  have "drv_type d' = Inr ty" using assms by (simp add: drv_type_def)
  with assms show ?thesis by (simp add: hash_with_def hashDerivation_body_def)
qed

text \<open>
  C4: the hash of a derivation does not depend on how its fixed-output inputs are made. Let \<open>p\<close> and \<open>p'\<close>
  be two fixed-output derivations with the same name and outputs (the builder, the arguments, the
  environment and the inputs may all differ), and let \<open>drv'\<close> be \<open>drv\<close> with \<open>p'\<close> in the place of \<open>p\<close>.
  When \<^verbatim>\<open>hashDerivationModulo\<close> returns a hash for \<open>drv\<close>, it returns the same for \<open>drv'\<close>, whatever is
  in the memo table.
\<close>

theorem fixed_output_provenance:
  assumes "ranked readDrv rank" "readDrv p = Inr d" "readDrv p' = Inr d'"
    and "drv_type d = Inr ty" "isFixed ty" "d_outputs d' = d_outputs d" "d_name d' = d_name d"
    and "same_but_inputs drv drv'" "set (d_inputDrvs drv') = (\<lambda>(q, n). (if q = p then p' else q, n)) ` set (d_inputDrvs drv)"
    and "\<forall>q \<in> fst ` set (d_inputDrvs drv) \<union> fst ` set (d_inputDrvs drv'). rank q < fuel"
    and "memo_reachable hs feats store readDrv memo" "memo_reachable hs feats store readDrv memo'"
    and "hashDerivationModulo (Suc fuel) hs feats store readDrv drv msk memo = Some (Inr h, memo1)"
  shows "\<exists>memo2. hashDerivationModulo (Suc fuel) hs feats store readDrv drv' msk memo' = Some (Inr h, memo2)"
proof -
  let ?H = "graph_hash hs feats store readDrv rank"
  have "?H p' = ?H p"
    using hash_with_fixed [OF assms(4-7)] by (simp add: graph_hash_eq [OF assms(1)] assms(2,3))
  then have views: "input_views ?H (d_inputDrvs drv') = input_views ?H (d_inputDrvs drv)"
    unfolding input_views_def assms(9) image_image by (intro image_cong) auto
  have "snd ` set (d_inputDrvs drv') = snd ` set (d_inputDrvs drv)" unfolding assms(9) by force
  then have dyn: "hasDynamicDrvDep drv' = hasDynamicDrvDep drv"
    unfolding hasDynamicDrvDep_def list_ex_iff case_prod_beta by (metis (no_types, lifting) image_iff)
  have "hash_with hs feats store ?H drv msk = Inr h"
    using followsD [OF hashDerivationModulo_follows [OF assms(1) refl] UNIV_I memo_reachable_ok [OF assms(11,1)] assms(13)] by simp
  with hash_with_views [OF assms(8) dyn views] have eq: "hash_with hs feats store ?H drv' msk = Inr h" by blast
  have "\<forall>q \<in> fst ` set (d_inputDrvs drv'). rank q < fuel" using assms(10) by blast
  from hashDerivationModulo_eq [OF assms(1) this memo_reachable_ok [OF assms(12,1)], of msk] eq show ?thesis by metis
qed

text \<open>Two ways to fetch a source, and a derivation that uses one of them.\<close>

definition ex_fixed :: "string \<Rightarrow> Derivation" where
  "ex_fixed url =
     \<lparr>d_outputs = [(''out'', DO_CAFixed \<lparr>ca_method = CAM_NixArchive, ca_hash = \<lparr>hashSize = 32, hash = replicate 64 0, algo = SHA256\<rparr>\<rparr>)],
      d_inputSrcs = [], d_platform = ''builtin'', d_builder = ''builtin:fetchurl'', d_args = [], d_env = [(''url'', url)],
      d_name = ''x'', d_inputDrvs = []\<rparr>"

definition ex_store_drvs :: "StorePath \<Rightarrow> Derivation result" where
  "ex_store_drvs p =
     (if p = ex_path ''a.drv'' then Inr (ex_fixed ''http://a'') else if p = ex_path ''b.drv'' then Inr (ex_fixed ''http://b'')
      else Inl (InvalidPath ''path is not valid''))"

definition ex_user :: "StorePath \<Rightarrow> Derivation" where
  "ex_user p =
     \<lparr>d_outputs = [(''out'', DO_Deferred)], d_inputSrcs = [], d_platform = ''x'', d_builder = ''/bin/sh'', d_args = [],
      d_env = [(''out'', [])], d_name = ''x'', d_inputDrvs = [(p, ChildNode [''out''] [])]\<rparr>"

lemma makeStorePath_hash_total:
  assumes "hash_law feats hs" "hash_ok h" "valid_name name"
  shows "\<exists>p. makeStorePath_hash hs feats dir t h name = Inr p"
proof -
  obtain s where s: "to_string h Base16 True = Inr s" using to_string_eq [OF assms(2), of Base16 True] by simp
  obtain d c where "hs SHA256 (store_fingerprint dir t s name) = Inr d" "compressHash feats d 20 = Inr c"
    "hash_sized c" "hashSize c = 20" by (rule hash_law_SHA256 [OF assms(1)])
  with s assms(3) show ?thesis by (simp add: makeStorePath_hash_def makeStorePath_def mkStorePath_hash_eq)
qed

lemma ex_fixed_hash:
  assumes "hash_law {} hs"
  shows "\<exists>h. hash_ok h \<and> hash_with hs {} store H (ex_fixed url) msk = Inr \<lparr>dh_hashes = [(''out'', h)], dh_kind = KindRegular\<rparr>"
proof -
  let ?h = "\<lparr>hashSize = 32, hash = replicate 64 0, algo = SHA256\<rparr>"
  have ok: "hash_ok ?h" by (simp add: hash_ok_def maxHashSize_def)
  obtain s where s: "to_string ?h Base16 False = Inr s" using to_string_eq [OF ok, of Base16 False] by simp
  obtain p where p: "CAFixed_path hs {} store ''x'' ''out'' \<lparr>ca_method = CAM_NixArchive, ca_hash = ?h\<rparr> = Inr p"
    using makeStorePath_hash_total [OF assms ok valid_name_x]
    by (auto simp: CAFixed_path_def makeFixedOutputPath_def outputPathName_def)
  obtain d where d: "hs SHA256 (''fixed:out:'' @ ''r:'' @ ''sha256'' @ '':'' @ s @ '':'' @ printStorePath store p) = Inr d" "hash_ok d"
    by (rule hash_law_SHA256 [OF assms])
  have "fixed_output_hash hs {} store ''x'' (''out'', DO_CAFixed \<lparr>ca_method = CAM_NixArchive, ca_hash = ?h\<rparr>) = Inr (''out'', d)"
    using s p d by (simp add: fixed_output_hash_def printMethodAlgo_def)
  moreover have "drv_type (ex_fixed url) = Inr (DT_ContentAddressed False True)" by (simp add: drv_type_def ex_fixed_def)
  ultimately show ?thesis using d(2) by (simp add: hash_with_def hashDerivation_body_def) (simp add: ex_fixed_def)
qed

lemma ex_user_hash:
  assumes "hash_law {} hs" "H p = Inr \<lparr>dh_hashes = [(''out'', h)], dh_kind = KindRegular\<rparr>" "hash_ok h"
  shows "\<exists>h. hash_with hs {} store H (ex_user p) msk = Inr h"
proof -
  have type: "drv_type (ex_user p) = Inr (DT_InputAddressed True)" by (simp add: drv_type_def ex_user_def)
  have "add_outputs \<lparr>dh_hashes = [(''out'', h)], dh_kind = KindRegular\<rparr> [''out''] [] =
      Inr (insert_input (format_digits Base16 h) ''out'' [])" using to_string_eq [OF assms(3), of Base16 False] by simp
  then have "hash_inputs (pure_path H) (d_inputDrvs (ex_user p)) KindRegular [] memo =
      Some (Inr (KindRegular, insert_input (format_digits Base16 h) ''out'' []), memo)" for memo
    using assms(2) by (simp add: ex_user_def pure_bind)
  moreover obtain s where "unparse hs {} store (ex_user p) msk (Some (insert_input (format_digits Base16 h) ''out'' [])) = Inr s"
    by (simp add: unparse_def ex_user_def unparse_output_item_def)
  moreover obtain d where "hs SHA256 s = Inr d" by (rule hash_law_SHA256 [OF assms(1)])
  ultimately show ?thesis using type by (simp add: hash_with_def hashDerivation_body_def mbind_def)
qed

lemma ex_ranked: "ranked ex_store_drvs (\<lambda>_. 0)"
  by (auto simp: ranked_def ex_store_drvs_def ex_fixed_def split: if_splits)

abbreviation ex_hash0 :: hash_fun where
  "ex_hash0 \<equiv> hashString prefix_init prefix_upd prefix_final {}"

lemma ex_user_returns:
  "\<exists>h memo. hashDerivationModulo 2 ex_hash0 {} ''/nix/store'' ex_store_drvs (ex_user (ex_path ''a.drv'')) True [] = Some (Inr h, memo)"
proof -
  note law = hash_law_hashString [OF prefix_digest_law, of "{}"]
  let ?H = "graph_hash ex_hash0 {} ''/nix/store'' ex_store_drvs (\<lambda>_. 0)"
  obtain h where "hash_ok h" "?H (ex_path ''a.drv'') = Inr \<lparr>dh_hashes = [(''out'', h)], dh_kind = KindRegular\<rparr>"
    using ex_fixed_hash [OF law, of "''/nix/store''" ?H "''http://a''" False]
    by (auto simp: graph_hash_eq [OF ex_ranked] ex_store_drvs_def)
  with ex_user_hash [OF law] obtain h where "hash_with ex_hash0 {} ''/nix/store'' ?H (ex_user (ex_path ''a.drv'')) True = Inr h" by blast
  moreover have "\<forall>q \<in> fst ` set (d_inputDrvs (ex_user (ex_path ''a.drv''))). (\<lambda>_. 0::nat) q < 1" by simp
  from hashDerivationModulo_eq [OF ex_ranked this memo_reachable_ok [OF memo_reachable.empty ex_ranked], where msk = True]
  obtain memo' where "hashDerivationModulo (Suc 1) ex_hash0 {} ''/nix/store'' ex_store_drvs (ex_user (ex_path ''a.drv'')) True [] =
    Some (hash_with ex_hash0 {} ''/nix/store'' ?H (ex_user (ex_path ''a.drv'')) True, memo')" by blast
  ultimately show ?thesis by (simp add: numeral_2_eq_2)
qed

theorem hashDerivationModulo_memo_witness:
  "\<exists>r memo. hashDerivationModulo 2 ex_hash0 {} ''/nix/store'' ex_store_drvs (ex_user (ex_path ''a.drv'')) True [] = Some (Inr r, memo) \<and>
     (\<exists>r' memo1 memo2. hashDerivationModulo 2 ex_hash0 {} ''/nix/store'' ex_store_drvs (ex_user (ex_path ''b.drv'')) True memo = Some (r', memo1) \<and>
       hashDerivationModulo 2 ex_hash0 {} ''/nix/store'' ex_store_drvs (ex_user (ex_path ''b.drv'')) True [] = Some (r', memo2))"
proof -
  obtain r memo where r: "hashDerivationModulo 2 ex_hash0 {} ''/nix/store'' ex_store_drvs (ex_user (ex_path ''a.drv'')) True [] = Some (Inr r, memo)"
    using ex_user_returns by blast
  have "\<forall>q \<in> fst ` set (d_inputDrvs (ex_user (ex_path ''b.drv''))). (\<lambda>_. 0::nat) q < 1" by simp
  from hashDerivationModulo_memo [OF ex_ranked this memo_reachable.call [OF memo_reachable.empty r], of True] r show ?thesis
    by (auto simp: numeral_2_eq_2)
qed

lemma ex_paths_differ: "ex_path ''a.drv'' \<noteq> ex_path ''b.drv''"
  by (simp add: ex_path_def)

theorem fixed_output_provenance_witness:
  "\<exists>h memo1 memo2. hashDerivationModulo 2 ex_hash0 {} ''/nix/store'' ex_store_drvs (ex_user (ex_path ''a.drv'')) True [] = Some (Inr h, memo1) \<and>
     hashDerivationModulo 2 ex_hash0 {} ''/nix/store'' ex_store_drvs (ex_user (ex_path ''b.drv'')) True [] = Some (Inr h, memo2)"
proof -
  obtain h memo where h: "hashDerivationModulo (Suc 1) ex_hash0 {} ''/nix/store'' ex_store_drvs (ex_user (ex_path ''a.drv'')) True [] = Some (Inr h, memo)"
    using ex_user_returns by (auto simp: numeral_2_eq_2)
  have "\<exists>memo2. hashDerivationModulo (Suc 1) ex_hash0 {} ''/nix/store'' ex_store_drvs (ex_user (ex_path ''b.drv'')) True [] = Some (Inr h, memo2)"
  proof (rule fixed_output_provenance [OF ex_ranked _ _ _ _ _ _ _ _ _ memo_reachable.empty memo_reachable.empty h])
    show "ex_store_drvs (ex_path ''a.drv'') = Inr (ex_fixed ''http://a'')" by (simp add: ex_store_drvs_def)
    show "ex_store_drvs (ex_path ''b.drv'') = Inr (ex_fixed ''http://b'')" using ex_paths_differ by (simp add: ex_store_drvs_def)
    show "drv_type (ex_fixed ''http://a'') = Inr (DT_ContentAddressed False True)" by (simp add: drv_type_def ex_fixed_def)
  qed (simp_all add: ex_fixed_def ex_user_def same_but_inputs_def)
  with h show ?thesis by (auto simp: numeral_2_eq_2)
qed

section \<open>Dynamic inputs\<close>

lemma hash_inputs_values:
  "map (\<lambda>(p, n). (p, node_value n)) xs = map (\<lambda>(p, n). (p, node_value n)) ys \<Longrightarrow> hash_inputs path xs = hash_inputs path ys"
proof (induction xs arbitrary: ys)
  case (Cons x xs)
  then obtain p n n' zs where "x = (p, n)" "ys = (p, n') # zs" "node_value n = node_value n'"
    "map (\<lambda>(p, n). (p, node_value n)) xs = map (\<lambda>(p, n). (p, node_value n)) zs" by (cases x) auto
  with Cons.IH [of zs] show ?case by (intro ext) simp
qed simp

text \<open>
  The hash does not depend on which outputs of dynamic derivations are used: two derivations that
  differ only in the children of their input nodes, the outputs of derivations that are themselves
  outputs, have the same hash, and so the same ids of their outputs.
\<close>

theorem hash_ignores_dynamic_inputs:
  assumes "same_but_inputs drv drv'" "hasDynamicDrvDep drv" "hasDynamicDrvDep drv'"
    and "map (\<lambda>(p, n). (p, node_value n)) (d_inputDrvs drv') = map (\<lambda>(p, n). (p, node_value n)) (d_inputDrvs drv)"
  shows "hashDerivationModulo fuel hs feats store readDrv drv' msk = hashDerivationModulo fuel hs feats store readDrv drv msk"
proof -
  have dyn: "hasDynamicDrvDep drv' = hasDynamicDrvDep drv" using assms(2,3) by simp
  have "hashDerivation_body hs feats store path drv' msk = hashDerivation_body hs feats store path drv msk" for path
    unfolding hashDerivation_body_def hash_inputs_values [OF assms(4)] same_but_inputs_unparse [OF assms(1) dyn] ..
  then show ?thesis by (cases fuel) simp_all
qed

definition ex_dynamic :: "string \<Rightarrow> Derivation" where
  "ex_dynamic out = (ex_user (ex_path ''a.drv''))\<lparr>d_inputDrvs := [(ex_path ''a.drv'', ChildNode [] [(''out'', ChildNode [out] [])])]\<rparr>"

theorem hash_ignores_dynamic_inputs_witness:
  "hashDerivationModulo 2 ex_hash0 {} ''/nix/store'' ex_store_drvs (ex_dynamic ''dev'') True =
   hashDerivationModulo 2 ex_hash0 {} ''/nix/store'' ex_store_drvs (ex_dynamic ''out'') True \<and> ex_dynamic ''dev'' \<noteq> ex_dynamic ''out''"
proof
  have dyn: "hasDynamicDrvDep (ex_dynamic out)" for out by (simp add: ex_dynamic_def hasDynamicDrvDep_def)
  have "same_but_inputs (ex_dynamic ''out'') (ex_dynamic ''dev'')" by (simp add: same_but_inputs_def ex_dynamic_def)
  from hash_ignores_dynamic_inputs [OF this dyn dyn]
  show "hashDerivationModulo 2 ex_hash0 {} ''/nix/store'' ex_store_drvs (ex_dynamic ''dev'') True =
     hashDerivationModulo 2 ex_hash0 {} ''/nix/store'' ex_store_drvs (ex_dynamic ''out'') True" by (simp add: ex_dynamic_def)
  have "d_inputDrvs (ex_dynamic ''dev'') \<noteq> d_inputDrvs (ex_dynamic ''out'')" by (simp add: ex_dynamic_def)
  then show "ex_dynamic ''dev'' \<noteq> ex_dynamic ''out''" by metis
qed

section \<open>Filled-in outputs satisfy the invariants\<close>

lemma Derivation_of_fields [simp]:
  "d_outputs (Derivation_of bd) = d_outputs bd" "d_inputSrcs (Derivation_of bd) = d_inputSrcs bd"
  "d_platform (Derivation_of bd) = d_platform bd" "d_builder (Derivation_of bd) = d_builder bd"
  "d_args (Derivation_of bd) = d_args bd" "d_env (Derivation_of bd) = d_env bd" "d_name (Derivation_of bd) = d_name bd"
  "d_inputDrvs (Derivation_of bd) = []"
  by (simp_all add: Derivation_of_def BasicDerivation.defs Derivation.defs)

lemma fill_outputs_result:
  assumes "fill_outputs hs feats store hashes name outs env = Inr (outs', env')" "distinct (map fst outs)"
    and "\<forall>(n, out) \<in> set outs. out = DO_Deferred" "omap_ok env"
  shows "map fst outs' = map fst outs \<and> omap_ok env' \<and> fst ` set env' = fst ` set env \<union> fst ` set outs \<and>
    (\<forall>k. k \<notin> fst ` set outs \<longrightarrow> map_of env' k = map_of env k) \<and>
    (\<forall>(n, out) \<in> set outs'. \<exists>h p. map_of hashes n = Some h \<and> makeOutputPath hs feats store n h name = Inr p \<and>
      out = DO_InputAddressed p \<and> map_of env' n = Some (printStorePath store p))"
  using assms
proof (induction outs arbitrary: env outs')
  case (Cons e outs)
  obtain n where e: "e = (n, DO_Deferred)" using Cons.prems(3) by (cases e) auto
  with Cons.prems(1) obtain h p outs1 where h: "map_of hashes n = Some h" "makeOutputPath hs feats store n h name = Inr p"
    "fill_outputs hs feats store hashes name outs (omap_assign n (printStorePath store p) env) = Inr (outs1, env')"
    "outs' = (n, DO_InputAddressed p) # outs1" by (auto simp: result_simps split: option.splits)
  have "n \<notin> fst ` set outs" using Cons.prems(2) e by auto
  with Cons.IH [OF h(3)] Cons.prems h e show ?case by auto
qed simp

lemma keys_eq: "omap_ok env \<Longrightarrow> omap_ok env' \<Longrightarrow> fst ` set env' = fst ` set env \<Longrightarrow> map fst env' = map fst env"
  by (rule oset_eq) simp_all

lemma unparse_filled:
  assumes "map fst outs' = map fst outs" "\<forall>(n, out) \<in> set outs. out = DO_Deferred" "\<forall>(n, out) \<in> set outs'. \<exists>p. out = DO_InputAddressed p"
    and "omap_ok env" "omap_ok env'" "fst ` set env' = fst ` set env" "\<forall>k. k \<notin> fst ` set outs \<longrightarrow> map_of env' k = map_of env k"
  shows "rmap (unparse_output_item hs feats store True name) outs' = rmap (unparse_output_item hs feats store True name) outs"
    "map (unparse_env_item True outs') env' = map (unparse_env_item True outs) env"
proof -
  have item: "unparse_output_item hs feats store True name (n, out) = Inr (''('' @ printUnquotedString n @ three [] [] [] @ '')'')"
    if "out = DO_Deferred \<or> (\<exists>p. out = DO_InputAddressed p)" for n out
    using that by (auto simp: unparse_output_item_def)
  have "rmap (unparse_output_item hs feats store True name) xs = Inr (map (\<lambda>n. ''('' @ printUnquotedString n @ three [] [] [] @ '')'') (map fst xs))"
    if "\<forall>(n, out) \<in> set xs. out = DO_Deferred \<or> (\<exists>p. out = DO_InputAddressed p)" for xs
    using that unfolding map_map o_def by (intro rmap_Inr) (auto simp: item)
  from this [of outs'] this [of outs] assms(1-3)
  show "rmap (unparse_output_item hs feats store True name) outs' = rmap (unparse_output_item hs feats store True name) outs"
    by fastforce
  have keys: "map fst env' = map fst env" using keys_eq assms(4-6) by blast
  have "map (unparse_env_item True xs) e = map (\<lambda>k. unparse_env_item True outs (k, if k \<in> fst ` set outs then [] else the (map_of e k))) (map fst e)"
    if e: "omap_ok e" and xs: "map fst xs = map fst outs" for e and xs :: "(string, DerivationOutput) omap"
  proof -
    have eq: "fst ` set xs = fst ` set outs" using xs by (metis set_map)
    show ?thesis
      using omap_ok_distinct [OF e] by (force simp: unparse_env_item_def eq)
  qed
  from this [OF assms(5,1)] this [OF assms(4) refl] keys assms(7)
  show "map (unparse_env_item True outs') env' = map (unparse_env_item True outs) env"
    by (auto intro!: map_cong)
qed

lemma classify_deferred:
  "\<forall>(n, out) \<in> set outs. out = DO_Deferred \<Longrightarrow> classify_all outs k = Inr (k\<lparr>deferredIAOutputs := fold oset_insert (map fst outs) (deferredIAOutputs k)\<rparr>)"
  "\<forall>(n, out) \<in> set outs. \<exists>p. out = DO_InputAddressed p \<Longrightarrow> classify_all outs k = Inr (k\<lparr>inputAddressedOutputs := fold oset_insert (map fst outs) (inputAddressedOutputs k)\<rparr>)"
  by (induction outs arbitrary: k) auto

lemma type_deferred:
  "\<forall>(n, out) \<in> set (d_outputs drv). out = DO_Deferred \<Longrightarrow> d_outputs drv \<noteq> [] \<Longrightarrow> drv_type drv = Inr (DT_InputAddressed True)"
  "\<forall>(n, out) \<in> set (d_outputs drv). \<exists>p. out = DO_InputAddressed p \<Longrightarrow> d_outputs drv \<noteq> [] \<Longrightarrow> drv_type drv = Inr (DT_InputAddressed False)"
proof -
  have "fold oset_insert (map fst (d_outputs drv)) [] \<noteq> []" if "d_outputs drv \<noteq> []"
    using that set_fold_oset_insert [of "map fst (d_outputs drv)" "[]"] by (metis Un_empty list.set_map image_is_empty set_empty)
  then show "\<forall>(n, out) \<in> set (d_outputs drv). out = DO_Deferred \<Longrightarrow> d_outputs drv \<noteq> [] \<Longrightarrow> drv_type drv = Inr (DT_InputAddressed True)"
    "\<forall>(n, out) \<in> set (d_outputs drv). \<exists>p. out = DO_InputAddressed p \<Longrightarrow> d_outputs drv \<noteq> [] \<Longrightarrow> drv_type drv = Inr (DT_InputAddressed False)"
    by (simp_all add: drv_type_def classify_deferred)
qed

text \<open>The hash of an input-addressed derivation without inputs.\<close>

lemma hash_no_inputs:
  assumes "drv_type drv = Inr (DT_InputAddressed b)" "d_inputDrvs drv = []"
  shows "hashDerivationModulo (Suc fuel) hs feats store readDrv drv msk memo =
    Some (rbind (unparse hs feats store drv msk (Some [])) (\<lambda>s. rbind (hs SHA256 s) (\<lambda>h.
      Inr \<lparr>dh_hashes = fold (\<lambda>n. omap_assign n h) (map fst (d_outputs drv)) [], dh_kind = KindRegular\<rparr>)), memo)"
  using assms by (simp add: hashDerivation_body_def fold_map comp_def split_def)

lemma check_filled:
  assumes "\<forall>(n, out) \<in> set outs. \<exists>h p. map_of (dh_hashes hm) n = Some h \<and> makeOutputPath hs feats store n h name = Inr p \<and>
      out = DO_InputAddressed p \<and> map_of env n = Some (printStorePath store p) \<and> parseStorePath store (printStorePath store p) = Inr p"
    and "hashModulo memo = Some (Inr hm, memo)" "hm' = None \<or> hm' = Some hm"
  shows "check_outputs hs feats store hashModulo name env outs hm' memo = Some (Inr (), memo)"
  using assms(1,3)
proof (induction outs arbitrary: hm')
  case (Cons e outs)
  then obtain n h p where e: "e = (n, DO_InputAddressed p)" "map_of (dh_hashes hm) n = Some h" "makeOutputPath hs feats store n h name = Inr p"
    "envHasRightPath store env p n = Inr ()" by (cases e) (auto simp: envHasRightPath_def)
  have "(case hm' of Some h \<Rightarrow> mlift (Inr h) | None \<Rightarrow> hashModulo) memo = Some (Inr hm, memo)"
    using Cons.prems(2) assms(2) by auto
  with e Cons show ?case by (simp add: mbind_def [of "case hm' of Some h \<Rightarrow> mlift (Inr h) | None \<Rightarrow> hashModulo"])
qed simp

lemma made_output_parses:
  assumes "hash_law feats hs" "makeOutputPath hs feats store n h name = Inr p" "canonical store" "store \<noteq> ''/''"
  shows "parseStorePath store (printStorePath store p) = Inr p"
proof -
  have "sp_proper p"
    using assms(2) makeStorePath_proper [OF _ assms(1)] by (auto simp: makeOutputPath_def makeStorePath_hash_def result_simps)
  then show ?thesis
    using sp_proper_plain(5) [of p] by (intro parseStorePath_print [OF assms(3,4)]) (simp_all add: sp_proper_def)
qed

lemma applyRewrites_env: "applyRewrites rws drv = Some drv1 \<Longrightarrow> omap_ok (d_env drv) \<Longrightarrow> omap_ok (d_env drv1)"
proof -
  have "omap_ok (fold (\<lambda>(n, v). omap_emplace n v) xs m)" if "omap_ok m" for xs and m :: "(string, string) omap"
    using that by (induction xs arbitrary: m) auto
  then show "applyRewrites rws drv = Some drv1 \<Longrightarrow> omap_ok (d_env drv) \<Longrightarrow> omap_ok (d_env drv1)"
    by (auto simp: applyRewrites_def Option.bind_eq_Some_conv split: if_splits)
qed

lemma applyRewrites_keeps:
  "applyRewrites rws drv = Some drv1 \<Longrightarrow> d_outputs drv1 = d_outputs drv \<and> d_name drv1 = d_name drv"
  by (auto simp: applyRewrites_def Option.bind_eq_Some_conv split: if_splits)

text \<open>
  C6: a derivation whose deferred outputs \<^verbatim>\<open>rewriteDerivation\<close> fills in satisfies the invariants that
  \<^verbatim>\<open>checkInvariants\<close> enforces when a derivation is registered: the output paths are the ones that
  are recomputed from the derivation with its outputs masked, and the environment names them. The hypothesis on the environment
  is that it has a variable for every output, as the evaluator makes it.
\<close>

theorem rewriteDerivation_checkInvariants:
  assumes law: "hash_law feats hs" and st: "canonical store" "store \<noteq> ''/''"
    and ok: "omap_ok (d_outputs drv)" "omap_ok (d_env drv)" "d_outputs drv \<noteq> []"
    and def: "\<forall>(n, out) \<in> set (d_outputs drv). out = DO_Deferred"
    and rw: "applyRewrites rws drv = Some drv1" "fst ` set (d_outputs drv) \<subseteq> fst ` set (d_env drv1)"
    and res: "rewriteDerivation (Suc fuel) hs feats store readDrv drv rws memo = Some (Inr drv', memo')"
    and name: "sp_name drvPath = d_name drv @ drvExtension"
  shows "checkInvariants (Suc fuel) hs feats store readDrv (Derivation_of drv') drvPath memo2 = Some (Inr (), memo2)"
proof -
  note keeps = applyRewrites_keeps [OF rw(1)]
  have type1: "drv_type (Derivation_of drv1) = Inr (DT_InputAddressed True)"
    using keeps ok(3) def by (intro type_deferred(1)) simp_all
  obtain s h where sh: "unparse hs feats store (Derivation_of drv1) True (Some []) = Inr s" "hs SHA256 s = Inr h"
    using res rw(1) by (auto simp: rewriteDerivation_def hash_no_inputs [OF type1] mbind_Some result_simps simp del: hashDerivationModulo.simps)
  define hm where "hm = \<lparr>dh_hashes = fold (\<lambda>n. omap_assign n h) (map fst (d_outputs drv1)) [], dh_kind = KindRegular\<rparr>"
  obtain outs env where fill: "fill_outputs hs feats store (dh_hashes hm) (d_name drv1) (d_outputs drv1) (d_env drv1) = Inr (outs, env)"
    "drv' = drv1\<lparr>d_outputs := outs, d_env := env\<rparr>"
    using res rw(1) sh by (auto simp: rewriteDerivation_def hash_no_inputs [OF type1] mbind_Some result_simps hm_def simp del: hashDerivationModulo.simps)
  have env1: "omap_ok (d_env drv1)" by (rule applyRewrites_env [OF rw(1) ok(2)])
  note f = fill_outputs_result [OF fill(1)]
  have f: "map fst outs = map fst (d_outputs drv1)" "omap_ok env" "fst ` set env = fst ` set (d_env drv1)"
    "\<forall>k. k \<notin> fst ` set (d_outputs drv1) \<longrightarrow> map_of env k = map_of (d_env drv1) k"
    "\<forall>(n, out) \<in> set outs. \<exists>h p. map_of (dh_hashes hm) n = Some h \<and> makeOutputPath hs feats store n h (d_name drv1) = Inr p \<and>
      out = DO_InputAddressed p \<and> map_of env n = Some (printStorePath store p)"
    using f env1 keeps def rw(2) omap_ok_distinct [OF ok(1)] by auto
  have ia: "\<forall>(n, out) \<in> set outs. \<exists>p. out = DO_InputAddressed p" using f(5) by fast
  note same = unparse_filled [OF f(1) _ ia env1 f(2-4)]
  have "unparse hs feats store (Derivation_of drv') True (Some []) = Inr s"
    using sh(1) same def keeps fill(2) by (simp add: unparse_def hasDynamicDrvDep_def)
  moreover have type2: "drv_type (Derivation_of drv') = Inr (DT_InputAddressed False)"
    using ia f(1) keeps ok(3) fill(2) by (intro type_deferred(2)) auto
  moreover have "map fst (d_outputs drv') = map fst (d_outputs drv1)" using f(1) fill(2) by simp
  ultimately have hash: "hashDerivationModulo (Suc fuel) hs feats store readDrv (Derivation_of drv') True memo2 = Some (Inr hm, memo2)"
    using sh(2) by (simp add: hash_no_inputs [OF type2] hm_def del: hashDerivationModulo.simps)
  have "check_outputs hs feats store (hashDerivationModulo (Suc fuel) hs feats store readDrv (Derivation_of drv') True)
      (d_name drv1) env outs None memo2 = Some (Inr (), memo2)"
  proof (rule check_filled [where hm = hm])
    show "\<forall>(n, out) \<in> set outs. \<exists>h p. map_of (dh_hashes hm) n = Some h \<and> makeOutputPath hs feats store n h (d_name drv1) = Inr p \<and>
      out = DO_InputAddressed p \<and> map_of env n = Some (printStorePath store p) \<and> parseStorePath store (printStorePath store p) = Inr p"
      using f(5) made_output_parses [OF law _ st] by fast
  qed (use hash in simp_all)
  then show ?thesis
    using name keeps fill(2) type2
    by (simp add: checkInvariants_def isDerivation_def hasSuffix_def Let_def del: hashDerivationModulo.simps)
qed

definition ex_basic :: BasicDerivation where
  "ex_basic =
     \<lparr>d_outputs = [(''out'', DO_Deferred)], d_inputSrcs = [], d_platform = ''x'', d_builder = ''/bin/sh'', d_args = [],
      d_env = [(''out'', [])], d_name = ''x''\<rparr>"

lemma ex_basic_filled:
  assumes "hash_law {} hs"
  shows "\<exists>drv' memo'. rewriteDerivation (Suc 0) hs {} store readDrv ex_basic [] memo = Some (Inr drv', memo')"
proof -
  have type: "drv_type (Derivation_of ex_basic) = Inr (DT_InputAddressed True)" by (intro type_deferred) (simp_all add: ex_basic_def)
  obtain s where s: "unparse hs {} store (Derivation_of ex_basic) True (Some []) = Inr s"
    by (simp add: unparse_def ex_basic_def unparse_output_item_def)
  obtain h where h: "hs SHA256 s = Inr h" "hash_ok h" by (rule hash_law_SHA256 [OF assms])
  obtain p where p: "makeOutputPath hs {} store ''out'' h ''x'' = Inr p"
    using makeStorePath_hash_total [OF assms h(2) valid_name_x] by (auto simp: makeOutputPath_def outputPathName_def)
  have "applyRewrites [] ex_basic = Some ex_basic" by (simp add: applyRewrites_def)
  with s h p show ?thesis
    by (simp add: rewriteDerivation_def hash_no_inputs [OF type] mbind_def del: hashDerivationModulo.simps) (simp add: ex_basic_def)
qed

theorem rewriteDerivation_checkInvariants_witness:
  "\<exists>drv' memo'. rewriteDerivation (Suc 0) ex_hash0 {} ''/nix/store'' ex_store_drvs ex_basic [] [] = Some (Inr drv', memo') \<and>
     checkInvariants (Suc 0) ex_hash0 {} ''/nix/store'' ex_store_drvs (Derivation_of drv') (ex_path ''x.drv'') [] = Some (Inr (), [])"
proof -
  note law = hash_law_hashString [OF prefix_digest_law, of "{}"]
  obtain drv' memo' where res: "rewriteDerivation (Suc 0) ex_hash0 {} ''/nix/store'' ex_store_drvs ex_basic [] [] = Some (Inr drv', memo')"
    using ex_basic_filled [OF law] by blast
  have "applyRewrites [] ex_basic = Some ex_basic" by (simp add: applyRewrites_def)
  moreover have "sp_name (ex_path ''x.drv'') = d_name ex_basic @ drvExtension"
    by (simp add: ex_path_def sp_name_def HashLen_def ex_basic_def drvExtension_def)
  ultimately have "checkInvariants (Suc 0) ex_hash0 {} ''/nix/store'' ex_store_drvs (Derivation_of drv') (ex_path ''x.drv'') [] = Some (Inr (), [])"
    using rewriteDerivation_checkInvariants [OF law ex_store(1,2) _ _ _ _ _ _ res] by (simp add: ex_basic_def)
  with res show ?thesis by blast
qed

section \<open>Resolved inputs\<close>

text \<open>The outputs that a node of the inputs names, through outputs that are derivations themselves.\<close>

inductive used_output :: "drv_output_map \<Rightarrow> StorePath \<Rightarrow> InputNode \<Rightarrow> StorePath \<Rightarrow> bool" for m where
  direct: "n \<in> set (node_value node) \<Longrightarrow> map_of m (d, n) = Some p \<Longrightarrow> used_output m d node p"
| nested: "(n, child) \<in> set (childMap node) \<Longrightarrow> map_of m (d, n) = Some q \<Longrightarrow> used_output m q child p \<Longrightarrow> used_output m d node p"

inductive_simps used_output_iff: "used_output m d node p"

lemma rofold_adds:
  assumes "rofold f xs st = Inr (Some st')"
    and "\<And>x st st'. x \<in> set xs \<Longrightarrow> f x st = Inr (Some st') \<Longrightarrow> set (fst st') = set (fst st) \<union> A x"
  shows "set (fst st') = set (fst st) \<union> (\<Union>x \<in> set xs. A x)"
  using assms
proof (induction xs arbitrary: st)
  case (Cons x xs)
  from Cons.prems(1) obtain st1 where st1: "f x st = Inr (Some st1)" "rofold f xs st1 = Inr (Some st')"
    by (auto simp: result_simps split: option.splits)
  have "set (fst st1) = set (fst st) \<union> A x" by (rule Cons.prems(2) [OF _ st1(1)]) simp
  moreover have "set (fst st') = set (fst st1) \<union> (\<Union>x \<in> set xs. A x)"
    by (rule Cons.IH [OF st1(2)]) (rule Cons.prems(2), auto)
  ultimately show ?case by auto
qed simp

lemma resolve_output_adds:
  "resolve_output hs feats store ph d m n st = Inr (Some st') \<Longrightarrow> set (fst st') = set (fst st) \<union> {p. map_of m (d, n) = Some p}"
  by (auto simp: resolve_output_def result_simps split: option.splits if_splits prod.splits)

lemma tryResolveInput_adds:
  "tryResolveInput hs feats store m ph d node st = Inr (Some st') \<Longrightarrow> set (fst st') = set (fst st) \<union> {p. used_output m d node p}"
proof (induction hs feats store m ph d node st arbitrary: st' rule: tryResolveInput.induct)
  case (1 hs feats store m ph d node st)
  from "1.prems" obtain st1 where
    st1: "rofold (resolve_output hs feats store ph d m) (node_value node) st = Inr (Some st1)"
    and st2: "rofold (\<lambda>(n, child) st. case map_of m (d, n) of None \<Rightarrow> Inr None
        | Some q \<Rightarrow> rbind (input_placeholder hs feats ph d n) (\<lambda>next. tryResolveInput hs feats store m (Some next) q child st)) (childMap node) st1 = Inr (Some st')"
    by (subst (asm) tryResolveInput.simps) (auto simp: result_simps split: option.splits)
  have "set (fst st1) = set (fst st) \<union> (\<Union>n \<in> set (node_value node). {p. map_of m (d, n) = Some p})"
    by (rule rofold_adds [OF st1]) (rule resolve_output_adds)
  moreover have "set (fst st') = set (fst st1) \<union> (\<Union>e \<in> set (childMap node). {p. \<exists>q. map_of m (d, fst e) = Some q \<and> used_output m q (snd e) p})"
  proof (rule rofold_adds [OF st2])
    fix e u u'
    assume e: "e \<in> set (childMap node)" and eq: "(case e of (n, child) \<Rightarrow> \<lambda>st. case map_of m (d, n) of None \<Rightarrow> Inr None
        | Some q \<Rightarrow> rbind (input_placeholder hs feats ph d n) (\<lambda>next. tryResolveInput hs feats store m (Some next) q child st)) u = Inr (Some u')"
    obtain n child where nc: "e = (n, child)" by (cases e)
    with eq obtain q nxt where q: "map_of m (d, n) = Some q" "input_placeholder hs feats ph d n = Inr nxt"
      "tryResolveInput hs feats store m (Some nxt) q child u = Inr (Some u')" by (auto simp: result_simps split: option.splits)
    have "set (fst u') = set (fst u) \<union> {p. used_output m q child p}"
      using "1.IH" [OF st1 refl e nc [symmetric] q] .
    with q(1) nc show "set (fst u') = set (fst u) \<union> {p. \<exists>q. map_of m (d, fst e) = Some q \<and> used_output m q (snd e) p}" by simp
  qed
  ultimately show ?case by (auto simp: used_output_iff [of m d node])
qed

lemma fill_outputs_names: "fill_outputs hs feats store hashes name outs env = Inr (outs', env') \<Longrightarrow> map fst outs' = map fst outs"
  by (induction outs arbitrary: env outs') (auto simp: result_simps split: if_splits option.splits)

lemma rewriteDerivation_keeps:
  assumes "rewriteDerivation fuel hs feats store readDrv drv rws memo = Some (Inr drv', memo')"
  shows "d_inputSrcs drv' = d_inputSrcs drv \<and> d_name drv' = d_name drv \<and> map fst (d_outputs drv') = map fst (d_outputs drv)"
proof -
  obtain drv1 where drv1: "applyRewrites rws drv = Some drv1" using assms by (auto simp: rewriteDerivation_def split: option.splits)
  then have "d_inputSrcs drv1 = d_inputSrcs drv \<and> d_name drv1 = d_name drv \<and> d_outputs drv1 = d_outputs drv"
    by (auto simp: applyRewrites_def Option.bind_eq_Some_conv split: if_splits)
  with assms drv1 show ?thesis by (auto simp: rewriteDerivation_def mbind_Some result_simps dest: fill_outputs_names)
qed

text \<open>
  Resolving a derivation replaces its input derivations by exactly the outputs that they name: the sources
  of the resolved derivation are the old ones and the paths of the outputs used, also through derivations
  that are outputs themselves, and the name and the outputs stay.
\<close>

theorem tryResolve_inputs:
  assumes "tryResolve_map fuel hs feats store readDrv drv m memo = Some (Inr (Some res), memo')"
  shows "set (d_inputSrcs res) = set (d_inputSrcs drv) \<union> {p. \<exists>(d, node) \<in> set (d_inputDrvs drv). used_output m d node p} \<and>
    d_name res = d_name drv \<and> map fst (d_outputs res) = map fst (d_outputs drv)"
proof -
  obtain srcs rws where
    fold: "rofold (\<lambda>(d, node). tryResolveInput hs feats store m None d node) (d_inputDrvs drv) (d_inputSrcs drv, []) = Inr (Some (srcs, rws))"
    and rw: "rewriteDerivation fuel hs feats store readDrv ((BasicDerivation.truncate drv)\<lparr>d_inputSrcs := srcs\<rparr>) rws memo = Some (Inr res, memo')"
    using assms by (auto simp: tryResolve_map_def mbind_Some split: option.splits)
  have "set (fst st') = set (fst st) \<union> {p. used_output m (fst e) (snd e) p}"
    if "(case e of (d, node) \<Rightarrow> tryResolveInput hs feats store m None d node) st = Inr (Some st')" for e st st'
    using that by (cases e) (auto dest!: tryResolveInput_adds simp del: tryResolveInput.simps)
  from rofold_adds [OF fold this]
  have "set srcs = set (d_inputSrcs drv) \<union> (\<Union>e \<in> set (d_inputDrvs drv). {p. used_output m (fst e) (snd e) p})" by simp
  then show ?thesis using rewriteDerivation_keeps [OF rw] by (auto simp: BasicDerivation.defs)
qed

end
