(* ===== verification/Zix_Exprs.thy ===== *)
theory Zix_Exprs
  imports Zix_Prelude
begin

text \<open>
  The abstract syntax of Nix expressions (\<^verbatim>\<open>libexpr/nixexpr.hh\<close>), the static environments, and the
  pass that resolves every variable before evaluation (\<^verbatim>\<open>bindVars\<close> of \<^verbatim>\<open>nixexpr.cc\<close>): a variable
  of a let, rec or function becomes a number of environments to go up and a displacement there,
  any other variable the nearest enclosing with. The theory also holds the sorted vectors in
  which attributes, formals and static variables are looked up by binary search.

  A symbol is the number the symbol table gave the string (theory \<open>Zix_Symbols\<close>); the order of
  symbols is the order of the numbers, which is how the code sorts attributes. Positions, which
  only decorate error messages, are left out, and so are \<^verbatim>\<open>ExprPos\<close> and doc comments.
\<close>

named_theorems bind_simps \<open>unfolding the resolution of variables\<close>

section \<open>Binary search\<close>

text \<open>
  \<^verbatim>\<open>std::lower_bound\<close>: \<open>lt\<close> tells whether an element is less than the key. The range is given by
  its first position and its length, and is halved until it is empty.
\<close>

function lower_bound_from :: "('a \<Rightarrow> bool) \<Rightarrow> 'a list \<Rightarrow> nat \<Rightarrow> nat \<Rightarrow> nat" where
  "lower_bound_from lt xs first len =
     (if len = 0 then first
      else let half = len div 2; middle = first + half in
        if lt (xs ! middle) then lower_bound_from lt xs (middle + 1) (len - half - 1)
        else lower_bound_from lt xs first half)"
  by pat_completeness auto
termination by (relation "measure (\<lambda>(_, _, _, len). len)") auto

declare lower_bound_from.simps [simp del]

definition std_lower_bound :: "('a \<Rightarrow> bool) \<Rightarrow> 'a list \<Rightarrow> nat" where
  "std_lower_bound lt xs = lower_bound_from lt xs 0 (length xs)"

text \<open>What \<^verbatim>\<open>get\<close> and \<^verbatim>\<open>find\<close> of the sorted vectors share.\<close>

definition sorted_get :: "('k::linorder \<times> 'v) list \<Rightarrow> 'k \<Rightarrow> 'v option" where
  "sorted_get xs name =
     (let i = std_lower_bound (\<lambda>a. fst a < name) xs in
      if i < length xs \<and> fst (xs ! i) = name then Some (snd (xs ! i)) else None)"

section \<open>Expressions\<close>

type_synonym Symbol = nat
type_synonym i64 = "64 word"

text \<open>Double-precision numbers are not interpreted: the operations on them are parameters.\<close>

typedecl NixFloat

text \<open>
  An \<^verbatim>\<open>ExprWith\<close>, as far as a variable looks at it: how many levels above its environment the
  environment of the enclosing with is, and that with itself.
\<close>

datatype WithRef = WithRef (prevWith: nat) (parentWith: "WithRef option")

text \<open>
  The fields \<^verbatim>\<open>fromWith\<close>, \<^verbatim>\<open>level\<close> and \<^verbatim>\<open>displ\<close> of an \<^verbatim>\<open>ExprVar\<close>: not yet set, level and
  displacement, or level and the nearest with.
\<close>

datatype VarRef = Unresolved | Static nat nat | FromWith nat WithRef

datatype AttrKind = Plain | Inherited | InheritedFrom

text \<open>
  An attribute name is a symbol (\<open>Inl\<close>) or an expression (\<open>Inr\<close>). Static attributes are a
  \<^verbatim>\<open>std::map\<close>, a list sorted by symbol; the displacement of an attribute of a let or rec is its
  position in it. A lambda has an argument name, formals, or both; the boolean of the formals is
  the ellipsis.
\<close>

datatype Expr =
    ExprInt i64
  | ExprFloat NixFloat
  | ExprString string
  | ExprPath nat string
  | ExprVar Symbol VarRef
  | ExprInheritFrom nat
  | ExprSelect Expr "(Symbol + Expr) list" "Expr option"
  | ExprOpHasAttr Expr "(Symbol + Expr) list"
  | ExprAttrs bool "(Symbol \<times> AttrKind \<times> Expr) list" "Expr list option" "(Expr \<times> Expr) list"
  | ExprList "Expr list"
  | ExprLambda "Symbol option" "((Symbol \<times> Expr option) list \<times> bool) option" Expr
  | ExprCall Expr "Expr list"
  | ExprLet "(Symbol \<times> AttrKind \<times> Expr) list" "Expr list option" Expr
  | ExprWith Expr Expr
  | ExprIf Expr Expr Expr
  | ExprAssert Expr Expr
  | ExprOpNot Expr
  | ExprOpEq Expr Expr
  | ExprOpNEq Expr Expr
  | ExprOpAnd Expr Expr
  | ExprOpOr Expr Expr
  | ExprOpImpl Expr Expr
  | ExprOpUpdate Expr Expr
  | ExprOpConcatLists Expr Expr
  | ExprConcatStrings bool "Expr list"

type_synonym AttrPath = "(Symbol + Expr) list"
type_synonym AttrDefs = "(Symbol \<times> AttrKind \<times> Expr) list"
type_synonym FormalList = "(Symbol \<times> Expr option) list"

section \<open>Static environments\<close>

text \<open>
  A static environment with its chain of \<^verbatim>\<open>up\<close> pointers is the list of the frames, innermost
  first.
\<close>

record StaticFrame =
  isWith :: "WithRef option"
  vars :: "(Symbol \<times> nat) list"

type_synonym StaticEnv = "StaticFrame list"

definition StaticFrame_sort :: "(Symbol \<times> nat) list \<Rightarrow> (Symbol \<times> nat) list" where
  "StaticFrame_sort vs = sort_key fst vs"

text \<open>Of the variables of the same name, the last one remains.\<close>

fun StaticFrame_deduplicate :: "(Symbol \<times> nat) list \<Rightarrow> (Symbol \<times> nat) list" where
  "StaticFrame_deduplicate (x # y # vs) =
     (if fst x = fst y then StaticFrame_deduplicate (y # vs) else x # StaticFrame_deduplicate (y # vs))"
| "StaticFrame_deduplicate vs = vs"

abbreviation StaticFrame_find :: "StaticFrame \<Rightarrow> Symbol \<Rightarrow> nat option" where
  "StaticFrame_find c \<equiv> sorted_get (vars c)"

text \<open>The variables of a let or rec: the position of each attribute.\<close>

definition attr_frame :: "AttrDefs \<Rightarrow> StaticFrame" where
  "attr_frame attrs = \<lparr>isWith = None, vars = zip (map fst attrs) [0..<length attrs]\<rparr>"

definition lambda_frame :: "Symbol option \<Rightarrow> (FormalList \<times> bool) option \<Rightarrow> StaticFrame" where
  "lambda_frame arg fs =
     (let names = (case arg of None \<Rightarrow> [] | Some a \<Rightarrow> [a]) @ (case fs of None \<Rightarrow> [] | Some (formals, _) \<Rightarrow> map fst formals);
          vs = zip names [0..<length names]
      in \<lparr>isWith = None, vars = (if fs = None then vs else StaticFrame_sort vs)\<rparr>)"

section \<open>Resolving variables\<close>

text \<open>The first loop of \<^verbatim>\<open>ExprVar::bindVars\<close>: a static variable, or the level of the nearest with.\<close>

fun bind_loop :: "Symbol \<Rightarrow> StaticEnv \<Rightarrow> nat \<Rightarrow> nat option \<Rightarrow> (nat \<times> nat) + nat option" where
  "bind_loop name [] level withLevel = Inr withLevel"
| "bind_loop name (curEnv # up) level withLevel =
     (if isWith curEnv \<noteq> None
      then bind_loop name up (level + 1) (if withLevel = None then Some level else withLevel)
      else case StaticFrame_find curEnv name of
        Some displ \<Rightarrow> Inl (level, displ)
      | None \<Rightarrow> bind_loop name up (level + 1) withLevel)"

text \<open>The nearest with, and the level of its environment counted from \<open>level\<close>, 0 if there is none.\<close>

fun nearest_with :: "StaticEnv \<Rightarrow> WithRef option" where
  "nearest_with [] = None"
| "nearest_with (e # up) = (case isWith e of Some w \<Rightarrow> Some w | None \<Rightarrow> nearest_with up)"

fun with_level :: "StaticEnv \<Rightarrow> nat \<Rightarrow> nat" where
  "with_level [] level = 0"
| "with_level (curEnv # up) level = (if isWith curEnv \<noteq> None then level else with_level up (level + 1))"

definition ExprVar_bindVars :: "StaticEnv \<Rightarrow> Symbol \<Rightarrow> VarRef result" where
  "ExprVar_bindVars env name =
     (case bind_loop name env 0 None of
        Inl (level, displ) \<Rightarrow> Inr (Static level displ)
      | Inr None \<Rightarrow> Inl (UndefinedVarError ''undefined variable %1%'')
      | Inr (Some withLevel) \<Rightarrow>
          Inr (case nearest_with env of None \<Rightarrow> Static withLevel 0 | Some w \<Rightarrow> FromWith withLevel w))"

definition with_frame :: "StaticEnv \<Rightarrow> StaticFrame" where
  "with_frame env = \<lparr>isWith = Some (WithRef (with_level env 1) (nearest_with env)), vars = []\<rparr>"

text \<open>The environment of the sources of \<^verbatim>\<open>inherit (from)\<close> has no names.\<close>

definition inherit_frame :: StaticFrame where
  "inherit_frame = \<lparr>isWith = None, vars = []\<rparr>"

definition chooseByKind :: "AttrKind \<Rightarrow> 'a \<Rightarrow> 'a \<Rightarrow> 'a \<Rightarrow> 'a" where
  "chooseByKind kind plain inherited inheritedFrom =
     (case kind of Plain \<Rightarrow> plain | Inherited \<Rightarrow> inherited | InheritedFrom \<Rightarrow> inheritedFrom)"

definition ropt :: "('a \<Rightarrow> 'b result) \<Rightarrow> 'a option \<Rightarrow> 'b option result" where
  "ropt f x = (case x of None \<Rightarrow> Inr None | Some a \<Rightarrow> rbind (f a) (\<lambda>b. Inr (Some b)))"

lemma ropt_cong [fundef_cong]:
  "x = y \<Longrightarrow> (\<And>a. y = Some a \<Longrightarrow> f a = g a) \<Longrightarrow> ropt f x = ropt g y"
  by (auto simp: ropt_def split: option.split)

text \<open>Sizes of the parts of an expression, for the recursion below.\<close>

lemma size_parts [termination_simp]:
  "Inr e \<in> set (path :: AttrPath) \<Longrightarrow> size e < size_list (size_sum (\<lambda>_. 0) size) path + Suc 0"
  "(s, k, e) \<in> set attrs \<Longrightarrow> size e < size_list (size_prod (\<lambda>_. 0) (size_prod (\<lambda>_. 0) size)) (attrs :: AttrDefs) + Suc 0"
  "(e1, e2) \<in> set dyn \<Longrightarrow> size e1 < size_list (size_prod size size) (dyn :: (Expr \<times> Expr) list) + Suc 0"
  "(e1, e2) \<in> set dyn \<Longrightarrow> size e2 < size_list (size_prod size size) (dyn :: (Expr \<times> Expr) list) + Suc 0"
  "(s, Some e) \<in> set formals \<Longrightarrow> size e < size_list (size_prod (\<lambda>_. 0) (size_option size)) (formals :: FormalList) + Suc 0"
  subgoal by (induction path) auto
  subgoal by (induction attrs) auto
  subgoal by (induction dyn) auto
  subgoal by (induction dyn) auto
  subgoal by (induction formals) auto
  done

function bindVars :: "StaticEnv \<Rightarrow> Expr \<Rightarrow> Expr result" where
  "bindVars env (ExprInt n) = Inr (ExprInt n)"
| "bindVars env (ExprFloat nf) = Inr (ExprFloat nf)"
| "bindVars env (ExprString s) = Inr (ExprString s)"
| "bindVars env (ExprPath a s) = Inr (ExprPath a s)"
| "bindVars env (ExprVar name r) = rbind (ExprVar_bindVars env name) (\<lambda>r. Inr (ExprVar name r))"
| "bindVars env (ExprInheritFrom displ) = Inr (ExprInheritFrom displ)"
| "bindVars env (ExprSelect e attrPath def) =
     rbind (bindVars env e) (\<lambda>e.
     rbind (ropt (bindVars env) def) (\<lambda>def.
     rbind (rmap (\<lambda>i. case i of Inl s \<Rightarrow> Inr (Inl s) | Inr x \<Rightarrow> rbind (bindVars env x) (\<lambda>x. Inr (Inr x))) attrPath) (\<lambda>attrPath.
       Inr (ExprSelect e attrPath def))))"
| "bindVars env (ExprOpHasAttr e attrPath) =
     rbind (bindVars env e) (\<lambda>e.
     rbind (rmap (\<lambda>i. case i of Inl s \<Rightarrow> Inr (Inl s) | Inr x \<Rightarrow> rbind (bindVars env x) (\<lambda>x. Inr (Inr x))) attrPath) (\<lambda>attrPath.
       Inr (ExprOpHasAttr e attrPath)))"
| "bindVars env (ExprAttrs recursive attrs inheritFromExprs dynamicAttrs) =
     (let newEnv = (if recursive then attr_frame attrs # env else env) in
      rbind (ropt (rmap (bindVars newEnv)) inheritFromExprs) (\<lambda>inheritFromExprs.
      rbind (rmap (\<lambda>(name, kind, e). rbind (bindVars (chooseByKind kind newEnv env (inherit_frame # newEnv)) e) (\<lambda>e. Inr (name, kind, e))) attrs) (\<lambda>attrs.
      rbind (rmap (\<lambda>(n, v). rbind (bindVars newEnv n) (\<lambda>n. rbind (bindVars newEnv v) (\<lambda>v. Inr (n, v)))) dynamicAttrs) (\<lambda>dynamicAttrs.
        Inr (ExprAttrs recursive attrs inheritFromExprs dynamicAttrs)))))"
| "bindVars env (ExprList elems) = rbind (rmap (bindVars env) elems) (\<lambda>elems. Inr (ExprList elems))"
| "bindVars env (ExprLambda arg formals body) =
     (let newEnv = lambda_frame arg formals # env in
      rbind (ropt (\<lambda>(fs, ellipsis). rbind (rmap (\<lambda>(name, def). rbind (ropt (bindVars newEnv) def) (\<lambda>def. Inr (name, def))) fs)
               (\<lambda>fs. Inr (fs, ellipsis))) formals) (\<lambda>formals.
      rbind (bindVars newEnv body) (\<lambda>body.
        Inr (ExprLambda arg formals body))))"
| "bindVars env (ExprCall fn args) =
     rbind (bindVars env fn) (\<lambda>fn.
     rbind (rmap (bindVars env) args) (\<lambda>args. Inr (ExprCall fn args)))"
| "bindVars env (ExprLet attrs inheritFromExprs body) =
     (let newEnv = attr_frame attrs # env in
      rbind (ropt (rmap (bindVars newEnv)) inheritFromExprs) (\<lambda>inheritFromExprs.
      rbind (rmap (\<lambda>(name, kind, e). rbind (bindVars (chooseByKind kind newEnv env (inherit_frame # newEnv)) e) (\<lambda>e. Inr (name, kind, e))) attrs) (\<lambda>attrs.
      rbind (bindVars newEnv body) (\<lambda>body.
        Inr (ExprLet attrs inheritFromExprs body)))))"
| "bindVars env (ExprWith attrs body) =
     rbind (bindVars env attrs) (\<lambda>attrs.
     rbind (bindVars (with_frame env # env) body) (\<lambda>body. Inr (ExprWith attrs body)))"
| "bindVars env (ExprIf cond thn els) =
     rbind (bindVars env cond) (\<lambda>cond. rbind (bindVars env thn) (\<lambda>thn. rbind (bindVars env els) (\<lambda>els.
       Inr (ExprIf cond thn els))))"
| "bindVars env (ExprAssert cond body) =
     rbind (bindVars env cond) (\<lambda>cond. rbind (bindVars env body) (\<lambda>body. Inr (ExprAssert cond body)))"
| "bindVars env (ExprOpNot e) = rbind (bindVars env e) (\<lambda>e. Inr (ExprOpNot e))"
| "bindVars env (ExprOpEq e1 e2) = rbind (bindVars env e1) (\<lambda>e1. rbind (bindVars env e2) (\<lambda>e2. Inr (ExprOpEq e1 e2)))"
| "bindVars env (ExprOpNEq e1 e2) = rbind (bindVars env e1) (\<lambda>e1. rbind (bindVars env e2) (\<lambda>e2. Inr (ExprOpNEq e1 e2)))"
| "bindVars env (ExprOpAnd e1 e2) = rbind (bindVars env e1) (\<lambda>e1. rbind (bindVars env e2) (\<lambda>e2. Inr (ExprOpAnd e1 e2)))"
| "bindVars env (ExprOpOr e1 e2) = rbind (bindVars env e1) (\<lambda>e1. rbind (bindVars env e2) (\<lambda>e2. Inr (ExprOpOr e1 e2)))"
| "bindVars env (ExprOpImpl e1 e2) = rbind (bindVars env e1) (\<lambda>e1. rbind (bindVars env e2) (\<lambda>e2. Inr (ExprOpImpl e1 e2)))"
| "bindVars env (ExprOpUpdate e1 e2) = rbind (bindVars env e1) (\<lambda>e1. rbind (bindVars env e2) (\<lambda>e2. Inr (ExprOpUpdate e1 e2)))"
| "bindVars env (ExprOpConcatLists e1 e2) = rbind (bindVars env e1) (\<lambda>e1. rbind (bindVars env e2) (\<lambda>e2. Inr (ExprOpConcatLists e1 e2)))"
| "bindVars env (ExprConcatStrings forceString es) = rbind (rmap (bindVars env) es) (\<lambda>es. Inr (ExprConcatStrings forceString es))"
  by pat_completeness auto
termination
  by (relation "measure (\<lambda>(_, e). size e)") (auto simp: termination_simp split: if_splits)

section \<open>Binary search finds what is there\<close>

lemma lower_bound_from_split:
  assumes "first + len \<le> length xs" and "\<And>i j. i < j \<Longrightarrow> j < length xs \<Longrightarrow> lt (xs ! j) \<Longrightarrow> lt (xs ! i)"
    and "\<And>i. i < first \<Longrightarrow> lt (xs ! i)" and "\<And>i. first + len \<le> i \<Longrightarrow> i < length xs \<Longrightarrow> \<not> lt (xs ! i)"
  shows "lower_bound_from lt xs first len \<le> length xs \<and>
    (\<forall>i < lower_bound_from lt xs first len. lt (xs ! i)) \<and>
    (\<forall>i. lower_bound_from lt xs first len \<le> i \<longrightarrow> i < length xs \<longrightarrow> \<not> lt (xs ! i))"
  using assms
proof (induction lt xs first len rule: lower_bound_from.induct)
  case (1 lt xs first len)
  show ?case
  proof (cases "len = 0")
    case False
    define half where "half = len div 2"
    have half: "half < len" using False by (simp add: half_def)
    show ?thesis
    proof (cases "lt (xs ! (first + half))")
      case True
      have below: "lt (xs ! i)" if "i < first + half + 1" for i
        using "1.prems"(2) [of i "first + half"] "1.prems"(1) half True that by (cases "i = first + half") auto
      show ?thesis
        using "1.IH"(1) [OF False half_def refl] "1.prems" half True below
        by (simp add: lower_bound_from.simps [of lt xs first len] Let_def flip: half_def)
    next
      case nlt: False
      have above: "\<not> lt (xs ! i)" if "first + half \<le> i" "i < length xs" for i
        using "1.prems"(2) [of "first + half" i] nlt that by (cases "i = first + half") auto
      show ?thesis
        using "1.IH"(2) [OF False half_def refl] "1.prems" half nlt above
        by (simp add: lower_bound_from.simps [of lt xs first len] Let_def flip: half_def)
    qed
  qed (use "1.prems" in \<open>simp add: lower_bound_from.simps [of lt xs first 0]\<close>)
qed

lemma std_lower_bound_split:
  assumes "\<And>i j. i < j \<Longrightarrow> j < length xs \<Longrightarrow> lt (xs ! j) \<Longrightarrow> lt (xs ! i)"
  shows "std_lower_bound lt xs \<le> length xs" "i < std_lower_bound lt xs \<Longrightarrow> lt (xs ! i)"
    "std_lower_bound lt xs \<le> i \<Longrightarrow> i < length xs \<Longrightarrow> \<not> lt (xs ! i)"
  using lower_bound_from_split [of 0 "length xs" xs lt] assms by (auto simp: std_lower_bound_def)

lemma map_of_first:
  "i < length xs \<Longrightarrow> fst (xs ! i) = k \<Longrightarrow> (\<And>j. j < i \<Longrightarrow> fst (xs ! j) \<noteq> k) \<Longrightarrow> map_of xs k = Some (snd (xs ! i))"
proof (induction xs arbitrary: i)
  case (Cons x xs)
  show ?case
  proof (cases i)
    case 0
    then show ?thesis using Cons.prems by (cases x) auto
  next
    case (Suc n)
    then have "map_of xs k = Some (snd (xs ! n))"
      using Cons.IH [of n] Cons.prems by (metis Suc_less_eq length_Cons nth_Cons_Suc)
    moreover have "fst x \<noteq> k" using Cons.prems(3) [of 0] Suc by simp
    ultimately show ?thesis using Suc by (cases x) auto
  qed
qed simp

lemma sorted_get_map_of [simp]:
  assumes "sorted (map fst xs)"
  shows "sorted_get xs k = map_of xs k"
proof -
  have mono: "i < j \<Longrightarrow> j < length xs \<Longrightarrow> fst (xs ! j) < k \<Longrightarrow> fst (xs ! i) < k" for i j
    using sorted_nth_mono [OF assms, of i j] by simp
  define i where "i = std_lower_bound (\<lambda>a. fst a < k) xs"
  have less: "j < i \<Longrightarrow> fst (xs ! j) < k" for j
    using std_lower_bound_split(2) [of xs "\<lambda>a. fst a < k" j] mono by (auto simp: i_def)
  have geq: "i \<le> j \<Longrightarrow> j < length xs \<Longrightarrow> k \<le> fst (xs ! j)" for j
    using std_lower_bound_split(3) [of xs "\<lambda>a. fst a < k" j] mono by (auto simp: i_def not_less)
  show ?thesis
  proof (cases "i < length xs \<and> fst (xs ! i) = k")
    case True
    then have "map_of xs k = Some (snd (xs ! i))"
      using less by (intro map_of_first) (auto dest: less_imp_neq)
    with True show ?thesis by (simp add: sorted_get_def flip: i_def)
  next
    case False
    have "fst (xs ! j) \<noteq> k" if "j < length xs" for j
      using less [of j] geq [of i] geq [of j] False that sorted_nth_mono [OF assms, of i j] by (cases "j < i") auto
    then have "k \<notin> fst ` set xs" by (metis imageE in_set_conv_nth)
    then have "map_of xs k = None" by (simp add: map_of_eq_None_iff)
    with False show ?thesis by (simp add: sorted_get_def flip: i_def)
  qed
qed

section \<open>What the parser promises\<close>

text \<open>
  The attributes of a set and the formals of a function are sorted and distinct, a function has an
  argument name or formals, and the pseudo-variable of \<^verbatim>\<open>inherit (from)\<close> occurs only as
  the source of an inherited attribute, with the index of one of the sources.
\<close>

definition from_count :: "Expr list option \<Rightarrow> nat" where
  "from_count froms = (case froms of None \<Rightarrow> 0 | Some fs \<Rightarrow> length fs)"

definition inherits_from :: "nat \<Rightarrow> Expr \<Rightarrow> bool" where
  "inherits_from n e =
     (case e of ExprSelect (ExprInheritFrom d) [Inl _] None \<Rightarrow> d < n | _ \<Rightarrow> False)"

definition lambda_size :: "Symbol option \<Rightarrow> (FormalList \<times> bool) option \<Rightarrow> nat" where
  "lambda_size arg fs = (case arg of None \<Rightarrow> 0 | Some _ \<Rightarrow> 1) + (case fs of None \<Rightarrow> 0 | Some (formals, _) \<Rightarrow> length formals)"

function parsed :: "Expr \<Rightarrow> bool" where
  "parsed (ExprInt n) = True"
| "parsed (ExprFloat nf) = True"
| "parsed (ExprString s) = True"
| "parsed (ExprPath a s) = True"
| "parsed (ExprVar name r) = True"
| "parsed (ExprInheritFrom displ) = False"
| "parsed (ExprSelect e attrPath def) =
     (parsed e \<and> list_all (\<lambda>i. case i of Inl _ \<Rightarrow> True | Inr x \<Rightarrow> parsed x) attrPath \<and> (case def of None \<Rightarrow> True | Some d \<Rightarrow> parsed d))"
| "parsed (ExprOpHasAttr e attrPath) = (parsed e \<and> list_all (\<lambda>i. case i of Inl _ \<Rightarrow> True | Inr x \<Rightarrow> parsed x) attrPath)"
| "parsed (ExprAttrs recursive attrs froms dyn) =
     (omap_ok attrs \<and> (case froms of None \<Rightarrow> True | Some fs \<Rightarrow> list_all parsed fs) \<and>
      list_all (\<lambda>(name, kind, e). if kind = InheritedFrom then inherits_from (from_count froms) e else parsed e) attrs \<and>
      list_all (\<lambda>(n, v). parsed n \<and> parsed v) dyn)"
| "parsed (ExprList es) = list_all parsed es"
| "parsed (ExprLambda arg fs body) =
     ((arg \<noteq> None \<or> fs \<noteq> None) \<and> parsed body \<and>
      (case fs of None \<Rightarrow> True | Some (formals, _) \<Rightarrow>
         omap_ok formals \<and> (\<forall>a. arg = Some a \<longrightarrow> a \<notin> fst ` set formals) \<and>
         list_all (\<lambda>(name, def). case def of None \<Rightarrow> True | Some d \<Rightarrow> parsed d) formals))"
| "parsed (ExprCall f es) = (parsed f \<and> list_all parsed es)"
| "parsed (ExprLet attrs froms body) =
     (omap_ok attrs \<and> (case froms of None \<Rightarrow> True | Some fs \<Rightarrow> list_all parsed fs) \<and>
      list_all (\<lambda>(name, kind, e). if kind = InheritedFrom then inherits_from (from_count froms) e else parsed e) attrs \<and> parsed body)"
| "parsed (ExprWith e1 e2) = (parsed e1 \<and> parsed e2)"
| "parsed (ExprIf e1 e2 e3) = (parsed e1 \<and> parsed e2 \<and> parsed e3)"
| "parsed (ExprAssert e1 e2) = (parsed e1 \<and> parsed e2)"
| "parsed (ExprOpNot e) = parsed e"
| "parsed (ExprOpEq e1 e2) = (parsed e1 \<and> parsed e2)"
| "parsed (ExprOpNEq e1 e2) = (parsed e1 \<and> parsed e2)"
| "parsed (ExprOpAnd e1 e2) = (parsed e1 \<and> parsed e2)"
| "parsed (ExprOpOr e1 e2) = (parsed e1 \<and> parsed e2)"
| "parsed (ExprOpImpl e1 e2) = (parsed e1 \<and> parsed e2)"
| "parsed (ExprOpUpdate e1 e2) = (parsed e1 \<and> parsed e2)"
| "parsed (ExprOpConcatLists e1 e2) = (parsed e1 \<and> parsed e2)"
| "parsed (ExprConcatStrings b es) = list_all parsed es"
  by pat_completeness auto
termination by (relation "measure size") (auto simp: termination_simp)

section \<open>Resolved expressions\<close>

text \<open>
  The shape of a run-time environment is the number of values in it and in the environments above
  it. An expression fits a shape when every variable in it reaches an environment and a slot that
  exist, and every chain of withs leads from environment to environment.
\<close>

fun withs_ok :: "nat list \<Rightarrow> WithRef \<Rightarrow> bool" where
  "withs_ok sh (WithRef p par) =
     (case par of None \<Rightarrow> True | Some w \<Rightarrow> p < length sh \<and> 0 < sh ! p \<and> withs_ok (drop p sh) w)"

fun ref_ok :: "nat list \<Rightarrow> VarRef \<Rightarrow> bool" where
  "ref_ok sh Unresolved = False"
| "ref_ok sh (Static l d) = (l < length sh \<and> d < sh ! l)"
| "ref_ok sh (FromWith l w) = (l < length sh \<and> 0 < sh ! l \<and> withs_ok (drop l sh) w)"

function well_bound :: "nat list \<Rightarrow> Expr \<Rightarrow> bool" where
  "well_bound sh (ExprInt n) = True"
| "well_bound sh (ExprFloat nf) = True"
| "well_bound sh (ExprString s) = True"
| "well_bound sh (ExprPath a s) = True"
| "well_bound sh (ExprVar name r) = ref_ok sh r"
| "well_bound sh (ExprInheritFrom d) = (sh \<noteq> [] \<and> d < hd sh)"
| "well_bound sh (ExprSelect e attrPath def) =
     (well_bound sh e \<and> list_all (\<lambda>i. case i of Inl _ \<Rightarrow> True | Inr x \<Rightarrow> well_bound sh x) attrPath \<and> (case def of None \<Rightarrow> True | Some d \<Rightarrow> well_bound sh d))"
| "well_bound sh (ExprOpHasAttr e attrPath) = (well_bound sh e \<and> list_all (\<lambda>i. case i of Inl _ \<Rightarrow> True | Inr x \<Rightarrow> well_bound sh x) attrPath)"
| "well_bound sh (ExprAttrs recursive attrs froms dyn) =
     (let sh' = (if recursive then length attrs # sh else sh) in
      omap_ok attrs \<and> (case froms of None \<Rightarrow> True | Some fs \<Rightarrow> list_all (well_bound sh') fs) \<and>
      list_all (\<lambda>(name, kind, e). (kind = InheritedFrom \<longrightarrow> froms \<noteq> None) \<and> well_bound (chooseByKind kind sh' sh (from_count froms # sh')) e) attrs \<and>
      list_all (\<lambda>(n, v). well_bound sh' n \<and> well_bound sh' v) dyn)"
| "well_bound sh (ExprList es) = list_all (well_bound sh) es"
| "well_bound sh (ExprLambda arg fs body) =
     (let sh' = lambda_size arg fs # sh in
      (arg \<noteq> None \<or> fs \<noteq> None) \<and> well_bound sh' body \<and>
      (case fs of None \<Rightarrow> True | Some (formals, _) \<Rightarrow>
         omap_ok formals \<and>
         list_all (\<lambda>(name, def). case def of None \<Rightarrow> True | Some d \<Rightarrow> well_bound sh' d) formals))"
| "well_bound sh (ExprCall f es) = (well_bound sh f \<and> list_all (well_bound sh) es)"
| "well_bound sh (ExprLet attrs froms body) =
     (let sh' = length attrs # sh in
      omap_ok attrs \<and> (case froms of None \<Rightarrow> True | Some fs \<Rightarrow> list_all (well_bound sh') fs) \<and>
      list_all (\<lambda>(name, kind, e). (kind = InheritedFrom \<longrightarrow> froms \<noteq> None) \<and> well_bound (chooseByKind kind sh' sh (from_count froms # sh')) e) attrs \<and>
      well_bound sh' body)"
| "well_bound sh (ExprWith e1 e2) = (well_bound sh e1 \<and> well_bound (1 # sh) e2)"
| "well_bound sh (ExprIf e1 e2 e3) = (well_bound sh e1 \<and> well_bound sh e2 \<and> well_bound sh e3)"
| "well_bound sh (ExprAssert e1 e2) = (well_bound sh e1 \<and> well_bound sh e2)"
| "well_bound sh (ExprOpNot e) = well_bound sh e"
| "well_bound sh (ExprOpEq e1 e2) = (well_bound sh e1 \<and> well_bound sh e2)"
| "well_bound sh (ExprOpNEq e1 e2) = (well_bound sh e1 \<and> well_bound sh e2)"
| "well_bound sh (ExprOpAnd e1 e2) = (well_bound sh e1 \<and> well_bound sh e2)"
| "well_bound sh (ExprOpOr e1 e2) = (well_bound sh e1 \<and> well_bound sh e2)"
| "well_bound sh (ExprOpImpl e1 e2) = (well_bound sh e1 \<and> well_bound sh e2)"
| "well_bound sh (ExprOpUpdate e1 e2) = (well_bound sh e1 \<and> well_bound sh e2)"
| "well_bound sh (ExprOpConcatLists e1 e2) = (well_bound sh e1 \<and> well_bound sh e2)"
| "well_bound sh (ExprConcatStrings b es) = list_all (well_bound sh) es"
  by pat_completeness auto
termination by (relation "measure (\<lambda>(_, e). size e)") (auto simp: termination_simp)

section \<open>Resolution is lexical\<close>

text \<open>
  The static environments \<^verbatim>\<open>bindVars\<close> builds: each frame's variables are sorted by name and
  have a slot in the environment, and the frame of a with records the with that encloses it.
\<close>

fun static_ok :: "StaticEnv \<Rightarrow> nat list \<Rightarrow> bool" where
  "static_ok [] [] = True"
| "static_ok (c # env) (n # sh) =
     (static_ok env sh \<and>
      (case isWith c of
         Some w \<Rightarrow> n = 1 \<and> w = WithRef (with_level env 1) (nearest_with env)
       | None \<Rightarrow> sorted (map fst (vars c)) \<and> (\<forall>(x, d) \<in> set (vars c). d < n)))"
| "static_ok _ _ = False"

abbreviation binds :: "StaticFrame \<Rightarrow> Symbol \<Rightarrow> bool" where
  "binds c name \<equiv> isWith c = None \<and> name \<in> fst ` set (vars c)"

lemma static_ok_length: "static_ok env sh \<Longrightarrow> length env = length sh"
  by (induction env sh rule: static_ok.induct) auto

lemma static_ok_nth:
  "static_ok env sh \<Longrightarrow> k < length env \<Longrightarrow> isWith (env ! k) = None \<Longrightarrow>
    sorted (map fst (vars (env ! k))) \<and> (\<forall>(x, d) \<in> set (vars (env ! k)). d < sh ! k)"
  by (induction env sh arbitrary: k rule: static_ok.induct) (auto simp: nth_Cons split: option.splits nat.splits)

lemma with_level_shift: "nearest_with env = Some w \<Longrightarrow> with_level env (Suc n) = Suc (with_level env n)"
  by (induction env arbitrary: n) (auto split: option.splits)

lemma nearest_with_ok:
  "static_ok env sh \<Longrightarrow> nearest_with env = Some w \<Longrightarrow>
    \<exists>k < length sh. with_level env 0 = k \<and> sh ! k = 1 \<and> isWith (env ! k) = Some w \<and>
      (\<forall>j < k. isWith (env ! j) = None) \<and> withs_ok (drop k sh) w"
proof (induction env sh arbitrary: w rule: static_ok.induct)
  case (2 c env n sh)
  show ?case
  proof (cases "isWith c")
    case None
    with "2.prems" have "static_ok env sh" "nearest_with env = Some w" by simp_all
    from "2.IH" [OF this] this obtain k where k: "k < length sh" "with_level env 0 = k" "sh ! k = 1" "isWith (env ! k) = Some w"
      "\<forall>j < k. isWith (env ! j) = None" "withs_ok (drop k sh) w" "with_level env 1 = Suc k"
      using with_level_shift [of env w 0] by auto
    then show ?thesis using None by (intro exI [of _ "Suc k"]) (auto simp: nth_Cons split: nat.splits)
  next
    case (Some w')
    with "2.prems" have w: "w = WithRef (with_level env 1) (nearest_with env)" "n = 1" by auto
    have "withs_ok (n # sh) w"
    proof (cases "nearest_with env")
      case (Some v)
      with "2.IH" [of v] "2.prems" obtain k where k: "k < length sh" "with_level env 0 = k" "sh ! k = 1" "withs_ok (drop k sh) v" by auto
      with w Some show ?thesis using with_level_shift [of env v 0] by simp
    qed (simp add: w)
    with Some "2.prems" w show ?thesis by (auto simp del: withs_ok.simps)
  qed
qed auto

lemma bind_loop_Inl:
  "static_ok env sh \<Longrightarrow> bind_loop name env n wl = Inl (level, displ) \<Longrightarrow>
    \<exists>k < length env. level = n + k \<and> isWith (env ! k) = None \<and> map_of (vars (env ! k)) name = Some displ \<and>
      (\<forall>j < k. \<not> binds (env ! j) name)"
proof (induction env sh arbitrary: n wl rule: static_ok.induct)
  case (2 c env m sh)
  show ?case
  proof (cases "isWith c = None \<and> map_of (vars c) name \<noteq> None")
    case True
    with 2 show ?thesis by (intro exI [of _ 0]) (auto split: option.splits)
  next
    case False
    with 2 have "\<exists>wl. bind_loop name env (Suc n) wl = Inl (level, displ)" "static_ok env sh"
      by (auto split: option.splits if_splits)
    then obtain k where "k < length env" "level = Suc n + k" "isWith (env ! k) = None"
      "map_of (vars (env ! k)) name = Some displ" "\<forall>j < k. \<not> binds (env ! j) name"
      using "2.IH" by blast
    moreover from False have "\<not> binds c name" by (auto simp: map_of_eq_None_iff)
    ultimately show ?thesis by (intro exI [of _ "Suc k"]) (auto simp: nth_Cons split: nat.splits)
  qed
qed auto

lemma bind_loop_Inr:
  "static_ok env sh \<Longrightarrow> bind_loop name env n wl = Inr wl' \<Longrightarrow>
    (\<forall>c \<in> set env. \<not> binds c name) \<and>
    wl' = (case wl of Some l \<Rightarrow> Some l | None \<Rightarrow> (case nearest_with env of None \<Rightarrow> None | Some _ \<Rightarrow> Some (with_level env n)))"
proof (induction env sh arbitrary: n wl rule: static_ok.induct)
  case (2 c env m sh)
  then have ok: "static_ok env sh" by auto
  show ?case
  proof (cases "isWith c")
    case None
    with 2 have "map_of (vars c) name = None" "bind_loop name env (Suc n) wl = Inr wl'" by (auto split: option.splits)
    with "2.IH" [OF ok, of "Suc n" wl] None show ?thesis by (auto simp: map_of_eq_None_iff split: option.splits)
  next
    case (Some w)
    with 2 have "bind_loop name env (Suc n) (if wl = None then Some n else wl) = Inr wl'" by simp
    from "2.IH" [OF ok this] Some show ?thesis by (auto split: option.splits)
  qed
qed (auto split: option.splits)

lemma ExprVar_bindVars_ok:
  assumes "static_ok env sh" and "ExprVar_bindVars env name = Inr r"
  shows "ref_ok sh r"
proof (cases "bind_loop name env 0 None")
  case (Inl x)
  obtain l d where x: "x = (l, d)" by fastforce
  from bind_loop_Inl [OF assms(1) Inl [unfolded x]]
  have "l < length env" "isWith (env ! l) = None" "(name, d) \<in> set (vars (env ! l))" by (auto dest: map_of_SomeD)
  with static_ok_nth [OF assms(1), of l] static_ok_length [OF assms(1)] show ?thesis
    using assms(2) Inl x by (auto simp: ExprVar_bindVars_def)
next
  case (Inr wl)
  from bind_loop_Inr [OF assms(1) Inr] nearest_with_ok [OF assms(1)] show ?thesis
    using assms(2) Inr by (auto simp: ExprVar_bindVars_def split: option.splits)
qed

text \<open>
  The frames of let, rec and lambda: what they bind, and at which slot.
\<close>

lemma attr_frame_ok:
  assumes "omap_ok attrs" "static_ok env sh"
  shows "static_ok (attr_frame attrs # env) (length attrs # sh)"
  using assms by (auto simp: attr_frame_def strict_sorted_iff dest: set_zip_rightD)

lemma lambda_frame_ok:
  assumes "static_ok env sh"
  shows "static_ok (lambda_frame arg fs # env) (lambda_size arg fs # sh)"
  using assms
  by (auto simp: lambda_frame_def lambda_size_def Let_def StaticFrame_sort_def dest!: set_zip_rightD split: option.splits prod.splits)

lemma with_frame_ok: "static_ok env sh \<Longrightarrow> static_ok (with_frame env # env) (1 # sh)"
  by (simp add: with_frame_def)

lemma inherit_frame_ok: "static_ok env sh \<Longrightarrow> static_ok (inherit_frame # env) (n # sh)"
  by (simp add: inherit_frame_def)

lemma rmap_Inr_iff: "rmap f xs = Inr ys \<longleftrightarrow> list_all2 (\<lambda>x y. f x = Inr y) xs ys"
  by (induction xs arbitrary: ys) (auto simp: result_simps list_all2_Cons1)

lemma ropt_Inr [result_simps]:
  "ropt f x = Inr y \<longleftrightarrow> (case x of None \<Rightarrow> y = None | Some a \<Rightarrow> (\<exists>b. f a = Inr b \<and> y = Some b))"
  by (auto simp: ropt_def result_simps split: option.splits)

lemma list_all_via:
  assumes "list_all2 P xs ys" "\<And>x y. x \<in> set xs \<Longrightarrow> P x y \<Longrightarrow> Q y"
  shows "list_all Q ys"
  using assms by (induction rule: list_all2_induct) auto

lemma map_fst_via:
  assumes "list_all2 P xs ys" "\<And>x y. P x y \<Longrightarrow> fst x = fst y"
  shows "map fst ys = map fst xs"
  using assms by (induction rule: list_all2_induct) auto

lemma bind_path_ok:
  assumes "rmap (\<lambda>i. case i of Inl s \<Rightarrow> Inr (Inl s) | Inr x \<Rightarrow> rbind (bindVars env x) (\<lambda>x. Inr (Inr x))) path = Inr path'"
    and "\<And>x y. Inr x \<in> set path \<Longrightarrow> bindVars env x = Inr y \<Longrightarrow> well_bound sh y"
  shows "list_all (\<lambda>i. case i of Inl _ \<Rightarrow> True | Inr x \<Rightarrow> well_bound sh x) path'"
  by (rule list_all_via [OF assms(1) [unfolded rmap_Inr_iff]]) (auto simp: result_simps split: sum.splits intro: assms(2))

lemma inherits_from_bound:
  assumes "inherits_from n e"
  shows "bindVars env e = Inr e" "well_bound (n # sh) e" "0 < n"
proof -
  from assms obtain d s where "e = ExprSelect (ExprInheritFrom d) [Inl s] None" "d < n"
    by (auto simp: inherits_from_def split: Expr.splits list.splits sum.splits option.splits)
  then show "bindVars env e = Inr e" "well_bound (n # sh) e" "0 < n" by (auto simp: ropt_def)
qed

lemma bind_attrs_ok:
  assumes "rmap (\<lambda>(name, kind, e). rbind (bindVars (chooseByKind kind newEnv env (inherit_frame # newEnv)) e) (\<lambda>e. Inr (name, kind, e))) attrs = Inr attrs'"
    and "static_ok env sh" "static_ok newEnv sh'"
    and "list_all (\<lambda>(name, kind, e). if kind = InheritedFrom then inherits_from (from_count froms) e else parsed e) attrs"
    and IH: "\<And>name kind e e' sh. (name, kind, e) \<in> set attrs \<Longrightarrow>
      bindVars (chooseByKind kind newEnv env (inherit_frame # newEnv)) e = Inr e' \<Longrightarrow> parsed e \<Longrightarrow>
      static_ok (chooseByKind kind newEnv env (inherit_frame # newEnv)) sh \<Longrightarrow> well_bound sh e'"
  shows "map fst attrs' = map fst attrs" "length attrs' = length attrs"
    "list_all (\<lambda>(name, kind, e). (kind = InheritedFrom \<longrightarrow> froms \<noteq> None) \<and> well_bound (chooseByKind kind sh' sh (from_count froms # sh')) e) attrs'"
proof -
  note all2 = assms(1) [unfolded rmap_Inr_iff]
  show "map fst attrs' = map fst attrs" by (rule map_fst_via [OF all2]) (auto simp: result_simps)
  show "length attrs' = length attrs" using all2 by (simp add: list_all2_lengthD)
  have "(kind = InheritedFrom \<longrightarrow> froms \<noteq> None) \<and> well_bound (chooseByKind kind sh' sh (from_count froms # sh')) e'"
    if mem: "(name, kind, e) \<in> set attrs" and bound: "bindVars (chooseByKind kind newEnv env (inherit_frame # newEnv)) e = Inr e'"
    for name kind e e'
  proof (cases "kind = InheritedFrom")
    case True
    with mem assms(4) have "inherits_from (from_count froms) e" by (auto simp: list_all_iff)
    from inherits_from_bound [OF this] bound True show ?thesis by (auto simp: chooseByKind_def from_count_def split: option.splits)
  next
    case False
    with mem assms(4) have "parsed e" by (auto simp: list_all_iff)
    with False IH [OF mem bound] assms(2, 3) show ?thesis by (cases kind) (auto simp: chooseByKind_def)
  qed
  then show "list_all (\<lambda>(name, kind, e). (kind = InheritedFrom \<longrightarrow> froms \<noteq> None) \<and> well_bound (chooseByKind kind sh' sh (from_count froms # sh')) e) attrs'"
    by (intro list_all_via [OF all2]) (auto simp: result_simps)
qed

lemma bind_froms_ok:
  assumes "ropt (rmap (bindVars env)) froms = Inr froms'" and "case froms of None \<Rightarrow> True | Some fs \<Rightarrow> list_all parsed fs"
    and IH: "\<And>fs e e'. froms = Some fs \<Longrightarrow> e \<in> set fs \<Longrightarrow> bindVars env e = Inr e' \<Longrightarrow> parsed e \<Longrightarrow> well_bound sh e'"
  shows "from_count froms' = from_count froms" "froms' = None \<longleftrightarrow> froms = None"
    "case froms' of None \<Rightarrow> True | Some fs \<Rightarrow> list_all (well_bound sh) fs"
proof -
  show "case froms' of None \<Rightarrow> True | Some fs \<Rightarrow> list_all (well_bound sh) fs"
  proof (cases froms)
    case (Some fs)
    with assms(1) obtain fs' where fs': "froms' = Some fs'" "rmap (bindVars env) fs = Inr fs'" by (auto simp: result_simps)
    have "list_all (well_bound sh) fs'"
      by (rule list_all_via [OF fs'(2) [unfolded rmap_Inr_iff]]) (use assms(2) IH Some in \<open>auto simp: list_all_iff\<close>)
    with fs'(1) show ?thesis by simp
  qed (use assms(1) in \<open>simp add: result_simps\<close>)
qed (use assms(1) in \<open>auto simp: result_simps from_count_def rmap_length split: option.splits\<close>)

lemma bind_list_ok:
  assumes "rmap (bindVars env) es = Inr es'" "\<And>e e'. e \<in> set es \<Longrightarrow> bindVars env e = Inr e' \<Longrightarrow> well_bound sh e'"
  shows "list_all (well_bound sh) es'"
  by (rule list_all_via [OF assms(1) [unfolded rmap_Inr_iff]]) (auto intro: assms(2))

lemma bind_dynamic_ok:
  assumes "rmap (\<lambda>(n, v). rbind (bindVars env n) (\<lambda>n. rbind (bindVars env v) (\<lambda>v. Inr (n, v)))) dyn = Inr dyn'"
    and "\<And>n v n' v'. (n, v) \<in> set dyn \<Longrightarrow> bindVars env n = Inr n' \<Longrightarrow> bindVars env v = Inr v' \<Longrightarrow> well_bound sh n' \<and> well_bound sh v'"
  shows "list_all (\<lambda>(n, v). well_bound sh n \<and> well_bound sh v) dyn'"
  by (rule list_all_via [OF assms(1) [unfolded rmap_Inr_iff]]) (auto simp: result_simps dest: assms(2))

lemma bind_formals_ok:
  assumes "rmap (\<lambda>(name, def). rbind (ropt (bindVars env) def) (\<lambda>def. Inr (name, def))) fs = Inr fs'"
    and "\<And>name d e'. (name, Some d) \<in> set fs \<Longrightarrow> bindVars env d = Inr e' \<Longrightarrow> well_bound sh e'"
  shows "list_all (\<lambda>(name, def). case def of None \<Rightarrow> True | Some d \<Rightarrow> well_bound sh d) fs'" "map fst fs' = map fst fs" "length fs' = length fs"
proof -
  note all2 = assms(1) [unfolded rmap_Inr_iff]
  show "list_all (\<lambda>(name, def). case def of None \<Rightarrow> True | Some d \<Rightarrow> well_bound sh d) fs'"
    by (rule list_all_via [OF all2]) (auto simp: result_simps split: option.splits intro: assms(2))
  show "map fst fs' = map fst fs" by (rule map_fst_via [OF all2]) (auto simp: result_simps)
  show "length fs' = length fs" using all2 by (simp add: list_all2_lengthD)
qed

lemma bindVars_well_bound:
  "bindVars env e = Inr e' \<Longrightarrow> parsed e \<Longrightarrow> static_ok env sh \<Longrightarrow> well_bound sh e'"
proof (induction env e arbitrary: e' sh rule: bindVars.induct)
  case (5 env name r)
  then show ?case by (auto simp: result_simps ExprVar_bindVars_ok)
next
  case (7 env e path def)
  then obtain x path' def' where x: "bindVars env e = Inr x" "ropt (bindVars env) def = Inr def'"
    "rmap (\<lambda>i. case i of Inl s \<Rightarrow> Inr (Inl s) | Inr x \<Rightarrow> rbind (bindVars env x) (\<lambda>x. Inr (Inr x))) path = Inr path'"
    "e' = ExprSelect x path' def'"
    by (auto simp: result_simps)
  have "list_all (\<lambda>i. case i of Inl _ \<Rightarrow> True | Inr x \<Rightarrow> well_bound sh x) path'"
    by (rule bind_path_ok [OF x(3)]) (use 7 x in \<open>fastforce simp: list_all_iff\<close>)
  moreover have "case def' of None \<Rightarrow> True | Some d \<Rightarrow> well_bound sh d"
    using x(1, 2) 7(2, 5, 6) by (auto simp: result_simps split: option.splits)
  ultimately show ?case using 7 x by auto
next
  case (8 env e path)
  then obtain x path' where x: "bindVars env e = Inr x"
    "rmap (\<lambda>i. case i of Inl s \<Rightarrow> Inr (Inl s) | Inr x \<Rightarrow> rbind (bindVars env x) (\<lambda>x. Inr (Inr x))) path = Inr path'"
    "e' = ExprOpHasAttr x path'"
    by (auto simp: result_simps)
  have "list_all (\<lambda>i. case i of Inl _ \<Rightarrow> True | Inr x \<Rightarrow> well_bound sh x) path'"
    by (rule bind_path_ok [OF x(2)]) (use 8 x in \<open>fastforce simp: list_all_iff\<close>)
  then show ?case using 8 x by auto
next
  case (9 env recursive attrs froms dyn)
  define newEnv where "newEnv = (if recursive then attr_frame attrs # env else env)"
  define sh' where "sh' = (if recursive then length attrs # sh else sh)"
  note IH = 9(1-4) [OF newEnv_def]
  from 9(5) obtain froms' attrs' dyn' where x: "ropt (rmap (bindVars newEnv)) froms = Inr froms'"
    "rmap (\<lambda>(name, kind, e). rbind (bindVars (chooseByKind kind newEnv env (inherit_frame # newEnv)) e) (\<lambda>e. Inr (name, kind, e))) attrs = Inr attrs'"
    "rmap (\<lambda>(n, v). rbind (bindVars newEnv n) (\<lambda>n. rbind (bindVars newEnv v) (\<lambda>v. Inr (n, v)))) dyn = Inr dyn'"
    "e' = ExprAttrs recursive attrs' froms' dyn'"
    by (auto simp: result_simps Let_def simp flip: newEnv_def)
  have newOk: "static_ok newEnv sh'"
    using 9(6, 7) attr_frame_ok by (auto simp: newEnv_def sh'_def)
  have fr: "from_count froms' = from_count froms" "froms' = None \<longleftrightarrow> froms = None"
    "case froms' of None \<Rightarrow> True | Some fs \<Rightarrow> list_all (well_bound sh') fs"
    using bind_froms_ok [OF x(1), of sh'] 9(6) IH(1) newOk by simp_all
  have "list_all (\<lambda>(name, kind, e). if kind = InheritedFrom then inherits_from (from_count froms) e else parsed e) attrs"
    using 9(6) by simp
  note at = bind_attrs_ok [OF x(2) 9(7) newOk this IH(2) [OF x(1) _ refl refl]]
  have "list_all (\<lambda>(n, v). well_bound sh' n \<and> well_bound sh' v) dyn'"
  proof (rule bind_dynamic_ok [OF x(3)])
    fix n v n' v'
    assume d: "(n, v) \<in> set dyn" "bindVars newEnv n = Inr n'" "bindVars newEnv v = Inr v'"
    with 9(6) have "parsed n" "parsed v" by (auto simp: list_all_iff)
    with d IH(3) [OF x(1, 2) d(1) refl d(2)] IH(4) [OF x(1, 2) d(1) refl d(2) d(3)] newOk
    show "well_bound sh' n' \<and> well_bound sh' v'" by blast
  qed
  with fr at 9(6) show ?case by (auto simp: x(4) sh'_def)
next
  case (10 env es)
  then obtain es' where es': "rmap (bindVars env) es = Inr es'" "e' = ExprList es'" by (auto simp: result_simps)
  have "list_all (well_bound sh) es'" by (rule bind_list_ok [OF es'(1)]) (use 10 in \<open>auto simp: list_all_iff\<close>)
  with es'(2) show ?case by simp
next
  case (11 env arg fs body)
  define newEnv where "newEnv = lambda_frame arg fs # env"
  define sh' where "sh' = lambda_size arg fs # sh"
  note IH = 11(1, 2) [OF newEnv_def]
  from 11(3) obtain fs' body' where x: "ropt (\<lambda>(fs, ellipsis). rbind (rmap (\<lambda>(name, def). rbind (ropt (bindVars newEnv) def) (\<lambda>def. Inr (name, def))) fs)
               (\<lambda>fs. Inr (fs, ellipsis))) fs = Inr fs'"
    "bindVars newEnv body = Inr body'" "e' = ExprLambda arg fs' body'"
    by (auto simp: result_simps Let_def simp flip: newEnv_def)
  have newOk: "static_ok newEnv sh'"
    using 11(5) lambda_frame_ok by (auto simp: newEnv_def sh'_def)
  have body: "well_bound sh' body'" using IH(2) [OF x(1, 2)] 11(4) newOk by simp
  show ?case
  proof (cases fs)
    case None
    with x body 11(4) show ?thesis by (auto simp: result_simps sh'_def)
  next
    case (Some a)
    obtain fl el where a: "a = (fl, el)" by fastforce
    from x(1) Some a obtain fl' where fl': "rmap (\<lambda>(name, def). rbind (ropt (bindVars newEnv) def) (\<lambda>def. Inr (name, def))) fl = Inr fl'"
      "fs' = Some (fl', el)"
      by (auto simp: result_simps)
    have def_ok: "well_bound sh' d'" if "(name, Some d) \<in> set fl" "bindVars newEnv d = Inr d'" for name d d'
      using IH(1) [OF Some a [symmetric] that(1) refl refl that(2) _ newOk] that(1) 11(4) Some a by (auto simp: list_all_iff)
    have fl: "list_all (\<lambda>(name, def). case def of None \<Rightarrow> True | Some d \<Rightarrow> well_bound sh' d) fl'" "map fst fl' = map fst fl" "length fl' = length fl"
      using bind_formals_ok [OF fl'(1), of sh'] def_ok by blast+
    have "lambda_size arg (Some (fl', el)) # sh = sh'" using fl(3) by (simp add: sh'_def lambda_size_def Some a)
    with fl body 11(4) Some a show ?thesis by (simp add: x(3) fl'(2))
  qed
next
  case (12 env f es)
  then obtain f' es' where es': "bindVars env f = Inr f'" "rmap (bindVars env) es = Inr es'" "e' = ExprCall f' es'"
    by (auto simp: result_simps)
  have "list_all (well_bound sh) es'" by (rule bind_list_ok [OF es'(2)]) (use 12 es'(1) in \<open>auto simp: list_all_iff\<close>)
  with es' 12 show ?case by simp
next
  case (13 env attrs froms body)
  define newEnv where "newEnv = attr_frame attrs # env"
  define sh' where "sh' = length attrs # sh"
  note IH = 13(1-3) [OF newEnv_def]
  from 13(4) obtain froms' attrs' body' where x: "ropt (rmap (bindVars newEnv)) froms = Inr froms'"
    "rmap (\<lambda>(name, kind, e). rbind (bindVars (chooseByKind kind newEnv env (inherit_frame # newEnv)) e) (\<lambda>e. Inr (name, kind, e))) attrs = Inr attrs'"
    "bindVars newEnv body = Inr body'" "e' = ExprLet attrs' froms' body'"
    by (auto simp: result_simps Let_def simp flip: newEnv_def)
  have newOk: "static_ok newEnv sh'"
    using 13(5, 6) attr_frame_ok by (auto simp: newEnv_def sh'_def)
  have fr: "from_count froms' = from_count froms" "froms' = None \<longleftrightarrow> froms = None"
    "case froms' of None \<Rightarrow> True | Some fs \<Rightarrow> list_all (well_bound sh') fs"
    using bind_froms_ok [OF x(1), of sh'] 13(5) IH(1) newOk by simp_all
  have "list_all (\<lambda>(name, kind, e). if kind = InheritedFrom then inherits_from (from_count froms) e else parsed e) attrs"
    using 13(5) by simp
  note at = bind_attrs_ok [OF x(2) 13(6) newOk this IH(2) [OF x(1) _ refl refl]]
  have "well_bound sh' body'" using IH(3) [OF x(1, 2, 3)] 13(5) newOk by simp
  with fr at 13(5) show ?case by (auto simp: x(4) sh'_def)
next
  case (14 env e1 e2)
  then show ?case using with_frame_ok by (auto simp: result_simps)
next
  case (25 env b es)
  then obtain es' where es': "rmap (bindVars env) es = Inr es'" "e' = ExprConcatStrings b es'" by (auto simp: result_simps)
  have "list_all (well_bound sh) es'" by (rule bind_list_ok [OF es'(1)]) (use 25 in \<open>auto simp: list_all_iff\<close>)
  with es'(2) show ?case by simp
qed (auto simp: result_simps)

text \<open>The two ways in which a variable is resolved exclude each other, and so do two levels.\<close>

lemma binds_map_of: "binds c name \<longleftrightarrow> isWith c = None \<and> (\<exists>d. map_of (vars c) name = Some d)"
  by (metis (no_types) domD domI dom_map_of_conv_image_fst)

lemma least_unique:
  "k < n \<Longrightarrow> P k \<Longrightarrow> (\<And>j. j < k \<Longrightarrow> \<not> P j) \<Longrightarrow> l < n \<Longrightarrow> P l \<Longrightarrow> (\<And>j. j < l \<Longrightarrow> \<not> P j) \<Longrightarrow> l = (k :: nat)"
  by (meson linorder_neqE_nat)

text \<open>
  C8: Resolving a variable is lexical scoping. Given a static environment as \<^verbatim>\<open>bindVars\<close> builds it, a
  variable is resolved to level and displacement exactly when that level is the innermost let, rec
  or function that binds the name (any with on the way notwithstanding); it is left to a with
  exactly when no let, rec or function binds it, and then to the innermost with; it is an
  undefined variable exactly when nothing binds it and there is no with.
\<close>

theorem bindVars_lexical:
  assumes ok: "static_ok env sh"
  shows "(ExprVar_bindVars env name = Inr (Static l d) \<longleftrightarrow>
      l < length env \<and> isWith (env ! l) = None \<and> map_of (vars (env ! l)) name = Some d \<and> (\<forall>j < l. \<not> binds (env ! j) name)) \<and>
    (ExprVar_bindVars env name = Inr (FromWith l w) \<longleftrightarrow>
      l < length env \<and> isWith (env ! l) = Some w \<and> (\<forall>j < l. isWith (env ! j) = None) \<and> (\<forall>c \<in> set env. \<not> binds c name)) \<and>
    (ExprVar_bindVars env name = Inl e \<longleftrightarrow>
      e = UndefinedVarError ''undefined variable %1%'' \<and> (\<forall>c \<in> set env. \<not> binds c name \<and> isWith c = None)) \<and>
    ExprVar_bindVars env name \<noteq> Inr Unresolved"
proof (cases "bind_loop name env 0 None")
  case (Inl x)
  obtain l' d' where x: "x = (l', d')" by fastforce
  from bind_loop_Inl [OF ok Inl [unfolded x]]
  have l': "l' < length env" "isWith (env ! l') = None" "map_of (vars (env ! l')) name = Some d'" "\<forall>j < l'. \<not> binds (env ! j) name"
    by auto
  have "binds (env ! l') name" using l'(2, 3) unfolding binds_map_of by simp
  moreover have "l = l'" if "l < length env" "binds (env ! l) name" "\<forall>j < l. \<not> binds (env ! j) name"
    using least_unique [of l' "length env" "\<lambda>j. binds (env ! j) name" l] l'(1, 4) that calculation by blast
  ultimately show ?thesis using Inl x l' binds_map_of [of "env ! l" name] nth_mem [of l' env] by (auto simp: ExprVar_bindVars_def)
next
  case (Inr wl)
  note none = bind_loop_Inr [OF ok Inr]
  have nb: "\<not> binds (env ! j) name" if "j < length env" for j using none that by auto
  show ?thesis
  proof (cases "nearest_with env")
    case None
    then have "\<forall>c \<in> set env. isWith c = None" by (induction env) (auto split: option.splits)
    with None none Inr nb binds_map_of [of "env ! l" name] show ?thesis by (auto simp: ExprVar_bindVars_def)
  next
    case (Some v)
    from nearest_with_ok [OF ok Some] static_ok_length [OF ok] obtain k where
      k: "k < length env" "with_level env 0 = k" "isWith (env ! k) = Some v" "\<forall>j < k. isWith (env ! j) = None" by auto
    have "l = k" if "l < length env" "isWith (env ! l) = Some w" "\<forall>j < l. isWith (env ! j) = None"
      using least_unique [of k "length env" "\<lambda>j. isWith (env ! j) \<noteq> None" l] k that by auto
    moreover have "ExprVar_bindVars env name = Inr (FromWith k v)" using Some none Inr k(2) by (simp add: ExprVar_bindVars_def)
    moreover have "\<exists>c \<in> set env. isWith c \<noteq> None" using k(1, 3) nth_mem by fastforce
    moreover have "l < length env \<Longrightarrow> \<not> (isWith (env ! l) = None \<and> (\<exists>d. map_of (vars (env ! l)) name = Some d))"
      using nb [of l] unfolding binds_map_of .
    ultimately show ?thesis using none k by auto
  qed
qed

theorem bindVars_lexical_witness:
  "ExprVar_bindVars [\<lparr>isWith = Some (WithRef 0 None), vars = []\<rparr>, \<lparr>isWith = None, vars = [(3, 0), (7, 1)]\<rparr>] 7 = Inr (Static 1 1) \<and>
   ExprVar_bindVars [\<lparr>isWith = Some (WithRef 0 None), vars = []\<rparr>, \<lparr>isWith = None, vars = [(3, 0), (7, 1)]\<rparr>] 9 = Inr (FromWith 0 (WithRef 0 None))"
  using bindVars_lexical [of "[\<lparr>isWith = Some (WithRef 0 None), vars = []\<rparr>, \<lparr>isWith = None, vars = [(3, 0), (7, 1)]\<rparr>]" "[1, 2]" 7 1 1]
    bindVars_lexical [of "[\<lparr>isWith = Some (WithRef 0 None), vars = []\<rparr>, \<lparr>isWith = None, vars = [(3, 0), (7, 1)]\<rparr>]" "[1, 2]" 9 0 _ "WithRef 0 None"]
  by (simp add: less_Suc_eq)

end
