(* ===== verification/Zix_Context.thy ===== *)
theory Zix_Context
  imports Zix_DerivedPath "HOL-Library.Product_Lexorder"
begin

text \<open>
  String contexts (\<^verbatim>\<open>libexpr/value/context.hh\<close>, \<^verbatim>\<open>context.cc\<close>): the store objects a string of the
  evaluator refers to, and their encoding as strings inside a string value. A context is a
  \<^verbatim>\<open>std::set\<close> of elements, ordered by alternative and then by content.
\<close>

datatype NixStringContextElem =
    NSC_Opaque StorePath
  | NSC_DrvDeep StorePath
  | NSC_Built SingleDerivedPath string

section \<open>Encoding\<close>

fun toStringRest :: "SingleDerivedPath \<Rightarrow> string" where
  "toStringRest (SDP_Opaque p) = sp_baseName p"
| "toStringRest (SDP_Built drvPath out) = out @ ''!'' @ toStringRest drvPath"

fun NSC_to_string :: "NixStringContextElem \<Rightarrow> string" where
  "NSC_to_string (NSC_Built drvPath out) = ''!'' @ toStringRest (SDP_Built drvPath out)"
| "NSC_to_string (NSC_Opaque p) = toStringRest (SDP_Opaque p)"
| "NSC_to_string (NSC_DrvDeep drvPath) = ''='' @ sp_baseName drvPath"

text \<open>\<open>split_bang\<close> is \<^verbatim>\<open>find("!")\<close> with the two \<^verbatim>\<open>substr\<close> calls around it.\<close>

definition split_bang :: "string \<Rightarrow> (string \<times> string) option" where
  "split_bang s =
     (if CHR ''!'' \<in> set s
      then Some (takeWhile (\<lambda>c. c \<noteq> CHR ''!'') s, tl (dropWhile (\<lambda>c. c \<noteq> CHR ''!'') s)) else None)"

lemma split_bang_length [termination_simp]: "split_bang s = Some (a, b) \<Longrightarrow> length b < length s"
proof -
  assume "split_bang s = Some (a, b)"
  then have "b = tl (dropWhile (\<lambda>c. c \<noteq> CHR ''!'') s)" "s \<noteq> []" by (auto simp: split_bang_def split: if_splits)
  moreover have "length (dropWhile (\<lambda>c. c \<noteq> CHR ''!'') s) \<le> length s" by (rule length_dropWhile_le)
  ultimately show ?thesis by (cases "dropWhile (\<lambda>c. c \<noteq> CHR ''!'') s") auto
qed

function parseRest :: "xp set \<Rightarrow> string \<Rightarrow> SingleDerivedPath result" where
  "parseRest feats s =
     (case split_bang s of
        None \<Rightarrow> rbind (mkStorePath s) (\<lambda>p. Inr (SDP_Opaque p))
      | Some (out, s) \<Rightarrow>
          rbind (parseRest feats s) (\<lambda>drv.
          rbind (drvRequireExperiment feats drv) (\<lambda>_. Inr (SDP_Built drv out))))"
  by pat_completeness auto
termination by (relation "measure (\<lambda>(_, s). length s)") (auto simp: termination_simp)

declare parseRest.simps [simp del]

fun NSC_of :: "SingleDerivedPath \<Rightarrow> NixStringContextElem" where
  "NSC_of (SDP_Opaque p) = NSC_Opaque p"
| "NSC_of (SDP_Built drvPath out) = NSC_Built drvPath out"

definition NSC_parse :: "xp set \<Rightarrow> string \<Rightarrow> NixStringContextElem result" where
  "NSC_parse feats s =
     (case s of
        [] \<Rightarrow> Inl (Error ''String context element should never be an empty string'')
      | c # rest \<Rightarrow>
          if c = CHR ''!'' then
            (if CHR ''!'' \<notin> set rest
             then Inl (Error ''String content element beginning with ! should have a second !'')
             else rbind (parseRest feats rest) (\<lambda>p. Inr (NSC_of p)))
          else if c = CHR ''='' then rbind (mkStorePath rest) (\<lambda>p. Inr (NSC_DrvDeep p))
          else if CHR ''!'' \<in> set s
            then Inl (Error ''String content element not beginning with ! should not have a second !'')
          else rbind (parseRest feats s) (\<lambda>p. Inr (NSC_of p)))"

section \<open>Order\<close>

text \<open>
  \<^verbatim>\<open>GENERATE_CMP\<close> and the comparison of variants: the alternative first, then the content. A built
  path compares the derivation before the output, so a chain of outputs compares its length, its
  store path, and then the outputs from the inside.
\<close>

fun sdp_key :: "SingleDerivedPath \<Rightarrow> string list" where
  "sdp_key (SDP_Opaque p) = [sp_baseName p]"
| "sdp_key (SDP_Built drvPath out) = sdp_key drvPath @ [out]"

fun nsc_key :: "NixStringContextElem \<Rightarrow> nat \<times> nat \<times> string list" where
  "nsc_key (NSC_Opaque p) = (0, 0, [sp_baseName p])"
| "nsc_key (NSC_DrvDeep p) = (1, 0, [sp_baseName p])"
| "nsc_key (NSC_Built drvPath out) = (2, length (sdp_key drvPath), sdp_key drvPath @ [out])"

lemma sdp_key_nonempty [simp]: "sdp_key p \<noteq> []"
  by (cases p) auto

lemma sdp_key_inj: "sdp_key p = sdp_key q \<longleftrightarrow> p = q"
proof (induction p arbitrary: q)
  case (SDP_Opaque p)
  then show ?case by (cases q) (auto simp: Cons_eq_append_conv intro: StorePath.expand)
next
  case (SDP_Built d out)
  then show ?case by (cases q) (auto simp: append_eq_Cons_conv)
qed

lemma nsc_key_inj: "nsc_key a = nsc_key b \<Longrightarrow> a = b"
  by (cases a; cases b) (auto simp: sdp_key_inj intro: StorePath.expand)

instantiation NixStringContextElem :: linorder
begin

definition less_eq_NixStringContextElem :: "NixStringContextElem \<Rightarrow> NixStringContextElem \<Rightarrow> bool" where
  "less_eq_NixStringContextElem a b \<longleftrightarrow> nsc_key a \<le> nsc_key b"

definition less_NixStringContextElem :: "NixStringContextElem \<Rightarrow> NixStringContextElem \<Rightarrow> bool" where
  "less_NixStringContextElem a b \<longleftrightarrow> nsc_key a < nsc_key b"

instance
  by standard (auto simp: less_eq_NixStringContextElem_def less_NixStringContextElem_def intro: nsc_key_inj)

end

type_synonym NixStringContext = "NixStringContextElem oset"

section \<open>Round trip\<close>

text \<open>
  What an element must satisfy to be read back: its store paths are proper, its output names do not
  contain the separator, and deep paths have their feature enabled.
\<close>

fun sdp_encodable :: "xp set \<Rightarrow> SingleDerivedPath \<Rightarrow> bool" where
  "sdp_encodable feats (SDP_Opaque p) \<longleftrightarrow> sp_proper p"
| "sdp_encodable feats (SDP_Built d out) \<longleftrightarrow> sdp_encodable feats d \<and> CHR ''!'' \<notin> set out \<and> drvRequireExperiment feats d = Inr ()"

fun nsc_encodable :: "xp set \<Rightarrow> NixStringContextElem \<Rightarrow> bool" where
  "nsc_encodable feats (NSC_Opaque p) \<longleftrightarrow> sp_proper p"
| "nsc_encodable feats (NSC_DrvDeep p) \<longleftrightarrow> sp_proper p"
| "nsc_encodable feats (NSC_Built d out) \<longleftrightarrow> sdp_encodable feats (SDP_Built d out)"

lemma split_bang_append: "CHR ''!'' \<notin> set a \<Longrightarrow> split_bang (a @ CHR ''!'' # b) = Some (a, b)"
  by (auto simp: split_bang_def takeWhile_append dropWhile_append)

lemma sp_proper_encodes:
  assumes "sp_proper p"
  shows "CHR ''!'' \<notin> set (sp_baseName p)" "sp_baseName p \<noteq> []" "hd (sp_baseName p) \<noteq> CHR ''=''" "mkStorePath (sp_baseName p) = Inr p"
proof -
  have len: "HashLen < length (sp_baseName p)" and chars: "list_all (\<lambda>c. c \<in> set nix32Chars) (take HashLen (sp_baseName p))"
    using assms by (auto simp: sp_proper_def storePath_ok_def hashPart_def list_all_iff)
  then show "sp_baseName p \<noteq> []" by auto
  then have "hd (sp_baseName p) \<in> set nix32Chars" using chars by (cases "sp_baseName p") (auto simp: HashLen_def)
  then show "hd (sp_baseName p) \<noteq> CHR ''=''" by (auto simp: nix32Chars_def)
  show "CHR ''!'' \<notin> set (sp_baseName p)"
    using sp_proper_name_char [OF assms] by (auto simp: list_all_iff name_char_def less_eq_char_def)
  show "mkStorePath (sp_baseName p) = Inr p" using assms by (simp add: mkStorePath_Inr sp_proper_def)
qed

lemma parseRest_toStringRest: "sdp_encodable feats p \<Longrightarrow> parseRest feats (toStringRest p) = Inr p"
proof (induction p)
  case (SDP_Opaque p)
  then show ?case using sp_proper_encodes [of p] by (simp add: parseRest.simps split_bang_def)
next
  case (SDP_Built d out)
  then show ?case by (simp add: parseRest.simps [of feats "out @ _"] split_bang_append)
qed

text \<open>
  C39: Every element of a string context survives its encoding in a string value: a store path, a
  derivation with its closure, and an output of a derivation that is itself named by any depth of
  outputs are read back unchanged.
\<close>

theorem NSC_roundtrip:
  assumes "nsc_encodable feats e"
  shows "NSC_parse feats (NSC_to_string e) = Inr e"
proof (cases e)
  case (NSC_Opaque p)
  then have p: "sp_proper p" using assms by simp
  then obtain c r where "sp_baseName p = c # r" using sp_proper_encodes(2) by (cases "sp_baseName p") auto
  with sp_proper_encodes [OF p] parseRest_toStringRest [of feats "SDP_Opaque p"] p NSC_Opaque show ?thesis
    by (auto simp: NSC_parse_def)
next
  case (NSC_DrvDeep p)
  then show ?thesis using assms sp_proper_encodes [of p] by (simp add: NSC_parse_def)
next
  case (NSC_Built d out)
  then show ?thesis using assms parseRest_toStringRest [of feats "SDP_Built d out"] by (simp add: NSC_parse_def)
qed

theorem NSC_roundtrip_witness:
  "NSC_parse {DynamicDerivations} (NSC_to_string (NSC_Built (SDP_Built (SDP_Opaque (StorePath (replicate 32 (CHR ''f'') @ ''-x''))) ''out'') ''dev'')) =
   Inr (NSC_Built (SDP_Built (SDP_Opaque (StorePath (replicate 32 (CHR ''f'') @ ''-x''))) ''out'') ''dev'')"
proof -
  have "sp_proper (StorePath (replicate 32 (CHR ''f'') @ ''-x''))"
    using example_ok [OF valid_name_x, of "CHR ''-''"] by (simp add: sp_proper_def HashLen_def nth_append)
  then show ?thesis by (intro NSC_roundtrip) (simp add: require_def)
qed

end
