(* ===== verification/Zix_Eval.thy ===== *)
theory Zix_Eval
  imports Zix_Exprs Zix_Context Zix_CanonPath Zix_Checked Zix_Strings
begin

text \<open>
  The evaluator (\<^verbatim>\<open>libexpr/eval.cc\<close>, \<^verbatim>\<open>eval-inline.hh\<close>, \<^verbatim>\<open>value.hh\<close>, \<^verbatim>\<open>attr-set.hh\<close>). Values and
  environments live on a heap: a \<^verbatim>\<open>Value *\<close> is an index into the list of values, an \<^verbatim>\<open>Env *\<close> an
  index into the list of environments, and a slot of an environment that is still null is
  \<open>None\<close>. Dereferencing a null or out-of-range pointer is \<open>UndefinedBehaviour\<close> in the model.

  The functions of the evaluator call each other without bound, so each is defined once with its
  recursive calls as an argument (\<open>evalops\<close>), and \<open>evaluator\<close> at the end ties the knot: with fuel
  \<open>n + 1\<close> the recursive calls have fuel \<open>n\<close>. A primitive operation is a parameter, a function of
  the same recursive calls. Not modelled: garbage collection, statistics, the debugger, error
  traces and positions, external values.
\<close>

section \<open>Values and the heap\<close>

type_synonym vid = nat
type_synonym eid = nat
type_synonym Bindings = "(Symbol \<times> vid) list"

datatype "Value" =
    VInt i64
  | VFloat NixFloat
  | VBool bool
  | VString string "string list"
  | VPath nat string
  | VNull
  | VAttrs Bindings
  | VList "vid list"
  | VThunk eid Expr
  | VApp vid vid
  | VBlackhole
  | VLambda eid "Symbol option" "(FormalList \<times> bool) option" Expr
  | VPrimOp nat
  | VPrimOpApp vid vid

datatype ValueType = nThunk | nInt | nFloat | nBool | nString | nPath | nNull | nAttrs | nList | nFunction

fun value_type :: "Value \<Rightarrow> ValueType" where
  "value_type (VInt _) = nInt"
| "value_type (VFloat _) = nFloat"
| "value_type (VBool _) = nBool"
| "value_type (VString _ _) = nString"
| "value_type (VPath _ _) = nPath"
| "value_type VNull = nNull"
| "value_type (VAttrs _) = nAttrs"
| "value_type (VList _) = nList"
| "value_type (VThunk _ _) = nThunk"
| "value_type (VApp _ _) = nThunk"
| "value_type VBlackhole = nThunk"
| "value_type (VLambda _ _ _ _) = nFunction"
| "value_type (VPrimOp _) = nFunction"
| "value_type (VPrimOpApp _ _) = nFunction"

record Env =
  env_up :: "eid option"
  env_values :: "vid option list"

text \<open>The symbols are the strings in the order in which they were entered (theory \<open>Zix_Symbols\<close>).\<close>

record EvalState =
  es_values :: "Value list"
  es_envs :: "Env list"
  es_symbols :: "string list"
  es_callDepth :: nat

type_synonym 'a ev = "(EvalState, 'a) sm"

abbreviation mret :: "'a \<Rightarrow> ('s, 'a) sm" where
  "mret a \<equiv> mlift (Inr a)"

abbreviation mfail :: "exn \<Rightarrow> ('s, 'a) sm" where
  "mfail e \<equiv> mlift (Inl e)"

abbreviation null_deref :: "('s, 'a) sm" where
  "null_deref \<equiv> mfail (UndefinedBehaviour ''invalid pointer'')"

definition allocValue :: "Value \<Rightarrow> vid ev" where
  "allocValue v = (\<lambda>st. Some (Inr (length (es_values st)), st\<lparr>es_values := es_values st @ [v]\<rparr>))"

definition readValue :: "vid \<Rightarrow> Value ev" where
  "readValue v = (\<lambda>st. if v < length (es_values st) then mret (es_values st ! v) st else null_deref st)"

definition writeValue :: "vid \<Rightarrow> Value \<Rightarrow> unit ev" where
  "writeValue v w = (\<lambda>st. if v < length (es_values st) then mret () (st\<lparr>es_values := (es_values st)[v := w]\<rparr>) else null_deref st)"

text \<open>\<^verbatim>\<open>allocEnv\<close>: the slots are cleared.\<close>

definition allocEnv :: "nat \<Rightarrow> eid \<Rightarrow> eid ev" where
  "allocEnv n up = (\<lambda>st. Some (Inr (length (es_envs st)),
     st\<lparr>es_envs := es_envs st @ [\<lparr>env_up = Some up, env_values = replicate n None\<rparr>]\<rparr>))"

definition readSlot :: "eid \<Rightarrow> nat \<Rightarrow> vid option ev" where
  "readSlot e displ = (\<lambda>st.
     if e < length (es_envs st) \<and> displ < length (env_values (es_envs st ! e))
     then mret (env_values (es_envs st ! e) ! displ) st else null_deref st)"

definition writeSlot :: "eid \<Rightarrow> nat \<Rightarrow> vid \<Rightarrow> unit ev" where
  "writeSlot e displ v = (\<lambda>st.
     if e < length (es_envs st) \<and> displ < length (env_values (es_envs st ! e))
     then mret () (st\<lparr>es_envs := (es_envs st)[e := (es_envs st ! e)\<lparr>env_values := (env_values (es_envs st ! e))[displ := Some v]\<rparr>]\<rparr>)
     else null_deref st)"

text \<open>\<^verbatim>\<open>for (; l; --l, env = env->up) ;\<close>\<close>

fun env_walk :: "nat \<Rightarrow> eid \<Rightarrow> eid ev" where
  "env_walk 0 e = mret e"
| "env_walk (Suc l) e = (\<lambda>st.
     if e < length (es_envs st) then (case env_up (es_envs st ! e) of None \<Rightarrow> null_deref st | Some u \<Rightarrow> env_walk l u st)
     else null_deref st)"

text \<open>\<^verbatim>\<open>symbols.create\<close>: the number of a string that is there, or the next one.\<close>

fun index_of :: "'a \<Rightarrow> 'a list \<Rightarrow> nat option" where
  "index_of x [] = None"
| "index_of x (y # ys) = (if x = y then Some 0 else map_option Suc (index_of x ys))"

definition createSymbol :: "string \<Rightarrow> Symbol ev" where
  "createSymbol s = (\<lambda>st.
     case index_of s (es_symbols st) of
       Some i \<Rightarrow> mret (i + 1) st
     | None \<Rightarrow> mret (length (es_symbols st) + 1) (st\<lparr>es_symbols := es_symbols st @ [s]\<rparr>))"

text \<open>The symbols the constructor of \<^verbatim>\<open>EvalState\<close> enters first, in its order.\<close>

definition initial_symbols :: "string list" where
  "initial_symbols =
     [''<with>'', ''outPath'', ''drvPath'', ''type'', ''meta'', ''name'', ''value'', ''system'', ''__overrides'',
      ''outputs'', ''outputName'', ''__ignoreNulls'', ''file'', ''line'', ''column'', ''__functor'', ''__toString'',
      ''right'', ''wrong'', ''__structuredAttrs'', ''allowedReferences'', ''allowedRequisites'', ''disallowedReferences'',
      ''disallowedRequisites'', ''maxSize'', ''maxClosureSize'', ''builder'', ''args'', ''__contentAddressed'',
      ''__impure'', ''outputHash'', ''outputHashAlgo'', ''outputHashMode'', ''recurseForDerivations'', ''description'',
      ''self'', '''', ''startSet'', ''operator'', ''key'', ''path'', ''prefix'', ''outputSpecified'',
      ''__sub'', ''__lessThan'', ''__mul'', ''__div'', ''or'', ''__findFile'', ''__nixPath'', ''body'']"

definition sOutPath :: Symbol where "sOutPath = 2"
definition sType :: Symbol where "sType = 4"
definition sOverrides :: Symbol where "sOverrides = 9"
definition sFunctor :: Symbol where "sFunctor = 16"
definition sToString :: Symbol where "sToString = 17"
definition sWrong :: Symbol where "sWrong = 19"
definition sRight :: Symbol where "sRight = 18"
definition sValue :: Symbol where "sValue = 7"
definition sName :: Symbol where "sName = 6"

section \<open>Recursive calls and parameters\<close>

text \<open>
  A \<^verbatim>\<open>Value &\<close> is a cell of the heap or a variable of the C++ function that calls; nothing else
  refers to the latter.
\<close>

datatype lval = Cell vid | Temp "Value"

record evalops =
  o_eval :: "eid \<Rightarrow> Expr \<Rightarrow> Value ev"
  o_callFunction :: "lval \<Rightarrow> vid list \<Rightarrow> Value ev"
  o_callLoop :: "Value \<Rightarrow> vid list \<Rightarrow> Value ev"
  o_eqValues :: "lval \<Rightarrow> lval \<Rightarrow> bool ev"
  o_compareValues :: "vid \<Rightarrow> vid \<Rightarrow> bool ev"
  o_assertEqValues :: "lval \<Rightarrow> lval \<Rightarrow> unit ev"
  o_coerceToString :: "bool \<Rightarrow> bool \<Rightarrow> bool \<Rightarrow> lval \<Rightarrow> NixStringContext \<Rightarrow> (string \<times> NixStringContext) ev"
  o_forceDeep :: "lval \<Rightarrow> vid list \<Rightarrow> vid list ev"
  o_autoCall :: "Bindings \<Rightarrow> lval \<Rightarrow> Value ev"

text \<open>
  What the evaluator takes from elsewhere: the settings, the store directory, the import of a
  source path into the store, floating-point arithmetic, the reading of an \<^verbatim>\<open>int\<close> by
  \<^verbatim>\<open>boost::lexical_cast\<close>, the hash functions, and the table of primitive operations
  with their arities.
\<close>

record PrimOp =
  po_arity :: nat
  po_fun :: "evalops \<Rightarrow> vid list \<Rightarrow> Value ev"

record EvalParams =
  ep_maxCallDepth :: nat
  ep_features :: "xp set"
  ep_storeDir :: string
  ep_fetchToStore :: "nat \<Rightarrow> string \<Rightarrow> StorePath result"
  ep_floatOfInt :: "i64 \<Rightarrow> NixFloat"
  ep_floatAdd :: "NixFloat \<Rightarrow> NixFloat \<Rightarrow> NixFloat"
  ep_floatSub :: "NixFloat \<Rightarrow> NixFloat \<Rightarrow> NixFloat"
  ep_floatMul :: "NixFloat \<Rightarrow> NixFloat \<Rightarrow> NixFloat"
  ep_floatDiv :: "NixFloat \<Rightarrow> NixFloat \<Rightarrow> NixFloat"
  ep_floatLess :: "NixFloat \<Rightarrow> NixFloat \<Rightarrow> bool"
  ep_floatEq :: "NixFloat \<Rightarrow> NixFloat \<Rightarrow> bool"
  ep_floatString :: "NixFloat \<Rightarrow> string"
  ep_lexicalCast :: "string \<Rightarrow> int option"
  ep_hash :: "HashAlgorithm \<Rightarrow> string \<Rightarrow> Hash result"
  ep_primOps :: "nat \<Rightarrow> PrimOp option"

primrec mmap :: "('a \<Rightarrow> ('s, 'b) sm) \<Rightarrow> 'a list \<Rightarrow> ('s, 'b list) sm" where
  "mmap f [] = mret []"
| "mmap f (x # xs) = mbind (f x) (\<lambda>y. mbind (mmap f xs) (\<lambda>ys. mret (y # ys)))"

primrec mfold :: "('a \<Rightarrow> 'b \<Rightarrow> ('s, 'b) sm) \<Rightarrow> 'a list \<Rightarrow> 'b \<Rightarrow> ('s, 'b) sm" where
  "mfold f [] b = mret b"
| "mfold f (x # xs) b = mbind (f x b) (mfold f xs)"

text \<open>Undoing something when an exception passes (\<^verbatim>\<open>catch (...) { ...; throw; }\<close>) or at every exit.\<close>

definition on_throw :: "('s, 'a) sm \<Rightarrow> ('s \<Rightarrow> 's) \<Rightarrow> ('s, 'a) sm" where
  "on_throw m h = (\<lambda>s. case m s of Some (Inl e, s) \<Rightarrow> Some (Inl e, h s) | r \<Rightarrow> r)"

definition at_exit :: "('s, 'a) sm \<Rightarrow> ('s \<Rightarrow> 's) \<Rightarrow> ('s, 'a) sm" where
  "at_exit m h = (\<lambda>s. map_option (\<lambda>(r, s). (r, h s)) (m s))"

section \<open>Forcing\<close>

text \<open>
  \<^verbatim>\<open>forceValue\<close> on a cell: a thunk is replaced by a black hole while it is evaluated, and put back
  when evaluation throws; a delayed application is not.
\<close>

definition forceCell :: "evalops \<Rightarrow> vid \<Rightarrow> unit ev" where
  "forceCell ops v =
     mbind (readValue v) (\<lambda>w.
     case w of
       VThunk env e \<Rightarrow>
         mbind (writeValue v VBlackhole) (\<lambda>_.
         mbind (on_throw (o_eval ops env e) (\<lambda>st. st\<lparr>es_values := (es_values st)[v := VThunk env e]\<rparr>)) (\<lambda>w.
           writeValue v w))
     | VBlackhole \<Rightarrow> mfail (InfiniteRecursionError ''infinite recursion encountered'')
     | VApp left right \<Rightarrow> mbind (o_callFunction ops (Cell left) [right]) (writeValue v)
     | _ \<Rightarrow> mret ())"

definition forceValue :: "evalops \<Rightarrow> lval \<Rightarrow> Value ev" where
  "forceValue ops lv =
     (case lv of
        Cell v \<Rightarrow> mbind (forceCell ops v) (\<lambda>_. readValue v)
      | Temp w \<Rightarrow>
          (case w of
             VThunk env e \<Rightarrow> o_eval ops env e
           | VBlackhole \<Rightarrow> mfail (InfiniteRecursionError ''infinite recursion encountered'')
           | VApp left right \<Rightarrow> o_callFunction ops (Cell left) [right]
           | _ \<Rightarrow> mret w))"

definition forceAttrs :: "evalops \<Rightarrow> lval \<Rightarrow> Bindings ev" where
  "forceAttrs ops lv = mbind (forceValue ops lv) (\<lambda>v.
     case v of VAttrs bs \<Rightarrow> mret bs | _ \<Rightarrow> mfail (TypeError ''expected a set but found %1%: %2%''))"

definition forceList :: "evalops \<Rightarrow> lval \<Rightarrow> vid list ev" where
  "forceList ops lv = mbind (forceValue ops lv) (\<lambda>v.
     case v of VList vs \<Rightarrow> mret vs | _ \<Rightarrow> mfail (TypeError ''expected a list but found %1%: %2%''))"

definition forceInt :: "evalops \<Rightarrow> lval \<Rightarrow> i64 ev" where
  "forceInt ops lv = mbind (forceValue ops lv) (\<lambda>v.
     case v of VInt n \<Rightarrow> mret n | _ \<Rightarrow> mfail (TypeError ''expected an integer but found %1%: %2%''))"

definition forceFloat :: "EvalParams \<Rightarrow> evalops \<Rightarrow> lval \<Rightarrow> NixFloat ev" where
  "forceFloat p ops lv = mbind (forceValue ops lv) (\<lambda>v.
     case v of
       VInt n \<Rightarrow> mret (ep_floatOfInt p n)
     | VFloat f \<Rightarrow> mret f
     | _ \<Rightarrow> mfail (TypeError ''expected a float but found %1%: %2%''))"

definition forceBool :: "evalops \<Rightarrow> lval \<Rightarrow> bool ev" where
  "forceBool ops lv = mbind (forceValue ops lv) (\<lambda>v.
     case v of VBool b \<Rightarrow> mret b | _ \<Rightarrow> mfail (TypeError ''expected a Boolean but found %1%: %2%''))"

definition forceString :: "evalops \<Rightarrow> lval \<Rightarrow> (string \<times> string list) ev" where
  "forceString ops lv = mbind (forceValue ops lv) (\<lambda>v.
     case v of VString s ctx \<Rightarrow> mret (s, ctx) | _ \<Rightarrow> mfail (TypeError ''expected a string but found %1%: %2%''))"

definition forceStringNoCtx :: "evalops \<Rightarrow> lval \<Rightarrow> string ev" where
  "forceStringNoCtx ops lv = mbind (forceString ops lv) (\<lambda>(s, ctx).
     if ctx \<noteq> [] then mfail (EvalError ''the string is not allowed to refer to a store path'') else mret s)"

definition forceFunction :: "evalops \<Rightarrow> lval \<Rightarrow> Value ev" where
  "forceFunction ops lv = mbind (forceValue ops lv) (\<lambda>v.
     if value_type v \<noteq> nFunction \<and> \<not> (case v of VAttrs bs \<Rightarrow> sorted_get bs sFunctor \<noteq> None | _ \<Rightarrow> False)
     then mfail (TypeError ''expected a function but found %1%: %2%'') else mret v)"

definition copyContext :: "EvalParams \<Rightarrow> string list \<Rightarrow> NixStringContext \<Rightarrow> NixStringContext ev" where
  "copyContext p ctx context = mfold (\<lambda>c context. mbind (mlift (NSC_parse (ep_features p) c)) (\<lambda>e. mret (oset_insert e context))) ctx context"

text \<open>\<^verbatim>\<open>mkString\<close> with a context: its elements as strings, in the order of the set.\<close>

definition mkString :: "string \<Rightarrow> NixStringContext \<Rightarrow> Value" where
  "mkString s context = VString s (map NSC_to_string context)"

section \<open>Variables and thunks\<close>

definition lookupSlot :: "eid \<Rightarrow> VarRef \<Rightarrow> vid option ev" where
  "lookupSlot env r =
     (case r of
        Static level displ \<Rightarrow> mbind (env_walk level env) (\<lambda>e. readSlot e displ)
      | FromWith level w \<Rightarrow> mbind (env_walk level env) (\<lambda>_. mret None)
      | Unresolved \<Rightarrow> null_deref)"

text \<open>The loop of \<^verbatim>\<open>lookupVar\<close> over the enclosing withs.\<close>

fun lookupWith :: "evalops \<Rightarrow> Symbol \<Rightarrow> WithRef \<Rightarrow> eid \<Rightarrow> vid ev" where
  "lookupWith ops name (WithRef prev par) env =
     mbind (readSlot env 0) (\<lambda>s.
     case s of
       None \<Rightarrow> null_deref
     | Some v \<Rightarrow>
         mbind (forceAttrs ops (Cell v)) (\<lambda>bs.
         case sorted_get bs name of
           Some j \<Rightarrow> mret j
         | None \<Rightarrow>
             (case par of
                None \<Rightarrow> mfail (UndefinedVarError ''undefined variable %1%'')
              | Some w \<Rightarrow> mbind (env_walk prev env) (lookupWith ops name w))))"

definition lookupVar :: "evalops \<Rightarrow> eid \<Rightarrow> Symbol \<Rightarrow> VarRef \<Rightarrow> vid ev" where
  "lookupVar ops env name r =
     (case r of
        FromWith level w \<Rightarrow> mbind (env_walk level env) (lookupWith ops name w)
      | _ \<Rightarrow> mbind (lookupSlot env r) (\<lambda>s. case s of None \<Rightarrow> null_deref | Some v \<Rightarrow> mret v))"

text \<open>
  \<^verbatim>\<open>maybeThunk\<close>: a variable whose slot is set is looked up at once, a constant needs no thunk.
  (The code returns a pointer to the constant inside the expression; the model allocates a cell
  with the constant, which nothing ever changes.)
\<close>

definition maybeThunk :: "eid \<Rightarrow> Expr \<Rightarrow> vid ev" where
  "maybeThunk env e =
     (case e of
        ExprVar name r \<Rightarrow> mbind (lookupSlot env r) (\<lambda>s. case s of Some v \<Rightarrow> mret v | None \<Rightarrow> allocValue (VThunk env e))
      | ExprInheritFrom displ \<Rightarrow>
          mbind (lookupSlot env (Static 0 displ)) (\<lambda>s. case s of Some v \<Rightarrow> mret v | None \<Rightarrow> allocValue (VThunk env e))
      | ExprInt n \<Rightarrow> allocValue (VInt n)
      | ExprFloat nf \<Rightarrow> allocValue (VFloat nf)
      | ExprString s \<Rightarrow> allocValue (VString s [])
      | ExprPath a s \<Rightarrow> allocValue (VPath a s)
      | ExprList [] \<Rightarrow> allocValue (VList [])
      | _ \<Rightarrow> allocValue (VThunk env e))"

definition getName :: "evalops \<Rightarrow> eid \<Rightarrow> Symbol + Expr \<Rightarrow> Symbol ev" where
  "getName ops env name =
     (case name of
        Inl s \<Rightarrow> mret s
      | Inr e \<Rightarrow> mbind (o_eval ops env e) (\<lambda>v. mbind (forceStringNoCtx ops (Temp v)) createSymbol))"

definition evalBool :: "evalops \<Rightarrow> eid \<Rightarrow> Expr \<Rightarrow> bool ev" where
  "evalBool ops env e = mbind (o_eval ops env e) (\<lambda>v.
     case v of VBool b \<Rightarrow> mret b | _ \<Rightarrow> mfail (TypeError ''expected a Boolean but found %1%: %2%''))"

definition evalAttrs :: "evalops \<Rightarrow> eid \<Rightarrow> Expr \<Rightarrow> Bindings ev" where
  "evalAttrs ops env e = mbind (o_eval ops env e) (\<lambda>v.
     case v of VAttrs bs \<Rightarrow> mret bs | _ \<Rightarrow> mfail (TypeError ''expected a set but found %1%: %2%''))"

section \<open>Sets, lists and strings\<close>

text \<open>\<^verbatim>\<open>buildInheritFromEnv\<close>; \<open>fill\<close> is its loop.\<close>

fun fill_inherit :: "eid \<Rightarrow> eid \<Rightarrow> nat \<Rightarrow> Expr list \<Rightarrow> unit ev" where
  "fill_inherit inheritEnv up displ [] = mret ()"
| "fill_inherit inheritEnv up displ (e # es) =
     mbind (maybeThunk up e) (\<lambda>v. mbind (writeSlot inheritEnv displ v) (\<lambda>_. fill_inherit inheritEnv up (displ + 1) es))"

definition buildInheritFromEnv :: "eid \<Rightarrow> Expr list option \<Rightarrow> eid option ev" where
  "buildInheritFromEnv up froms =
     (case froms of
        None \<Rightarrow> mret None
      | Some es \<Rightarrow> mbind (allocEnv (length es) up) (\<lambda>inheritEnv. mbind (fill_inherit inheritEnv up 0 es) (\<lambda>_. mret (Some inheritEnv))))"

text \<open>
  The loops over the static attributes of a rec, let or plain set. \<open>slots\<close> is the environment that
  receives the values (not for a plain set), \<open>thunks\<close> whether \<^verbatim>\<open>__overrides\<close> forbids the shortcut
  of \<^verbatim>\<open>maybeThunk\<close>.
\<close>

fun bind_attrs :: "eid option \<Rightarrow> bool \<Rightarrow> eid \<Rightarrow> eid \<Rightarrow> eid option \<Rightarrow> nat \<Rightarrow> AttrDefs \<Rightarrow> Bindings ev" where
  "bind_attrs slots thunks plain inherited inheritEnv displ [] = mret []"
| "bind_attrs slots thunks plain inherited inheritEnv displ ((name, kind, e) # attrs) =
     (case chooseByKind kind (Some plain) (Some inherited) inheritEnv of
        None \<Rightarrow> null_deref
      | Some env \<Rightarrow>
          mbind (if thunks \<and> kind \<noteq> Inherited then allocValue (VThunk env e) else maybeThunk env e) (\<lambda>v.
          mbind (case slots of None \<Rightarrow> mret () | Some env2 \<Rightarrow> writeSlot env2 displ v) (\<lambda>_.
          mbind (bind_attrs slots thunks plain inherited inheritEnv (displ + 1) attrs) (\<lambda>bs.
            mret ((name, v) # bs)))))"

text \<open>The attributes of \<^verbatim>\<open>__overrides\<close> replace those of the rec, or are added at the end.\<close>

fun override_loop :: "eid \<Rightarrow> AttrDefs \<Rightarrow> Bindings \<Rightarrow> Bindings \<Rightarrow> Bindings ev" where
  "override_loop env2 attrs [] bindings = mret bindings"
| "override_loop env2 attrs ((name, v) # os) bindings =
     (case index_of name (map fst attrs) of
        Some j \<Rightarrow> mbind (writeSlot env2 j v) (\<lambda>_. override_loop env2 attrs os (bindings[j := (name, v)]))
      | None \<Rightarrow> override_loop env2 attrs os (bindings @ [(name, v)]))"

definition apply_overrides :: "evalops \<Rightarrow> eid \<Rightarrow> AttrDefs \<Rightarrow> Bindings \<Rightarrow> (Bindings \<times> bool) ev" where
  "apply_overrides ops env2 attrs bindings =
     (case index_of sOverrides (map fst attrs) of
        None \<Rightarrow> mret (bindings, False)
      | Some displ \<Rightarrow>
          mbind (forceAttrs ops (Cell (snd (bindings ! displ)))) (\<lambda>os.
          mbind (override_loop env2 attrs os bindings) (\<lambda>bindings. mret (bindings, True))))"

definition Bindings_sort :: "Bindings \<Rightarrow> Bindings" where
  "Bindings_sort bs = sort_key fst bs"

fun dynamic_loop :: "evalops \<Rightarrow> eid \<Rightarrow> (Expr \<times> Expr) list \<Rightarrow> Bindings \<Rightarrow> bool \<Rightarrow> (Bindings \<times> bool) ev" where
  "dynamic_loop ops env [] bindings srt = mret (bindings, srt)"
| "dynamic_loop ops env ((nameExpr, valueExpr) # dyn) bindings srt =
     mbind (o_eval ops env nameExpr) (\<lambda>w.
     mbind (forceValue ops (Temp w)) (\<lambda>nameVal.
     if nameVal = VNull then dynamic_loop ops env dyn bindings srt
     else
       mbind (forceStringNoCtx ops (Temp nameVal)) (\<lambda>s.
       mbind (createSymbol s) (\<lambda>nameSym.
       let bindings = (if srt then Bindings_sort bindings else bindings) in
       if sorted_get bindings nameSym \<noteq> None
       then mfail (EvalError ''dynamic attribute %1% already defined at %2%'')
       else mbind (maybeThunk env valueExpr) (\<lambda>v. dynamic_loop ops env dyn (bindings @ [(nameSym, v)]) True)))))"

definition ExprAttrs_eval :: "evalops \<Rightarrow> eid \<Rightarrow> bool \<Rightarrow> AttrDefs \<Rightarrow> Expr list option \<Rightarrow> (Expr \<times> Expr) list \<Rightarrow> Value ev" where
  "ExprAttrs_eval ops env recursive attrs inheritFromExprs dynamicAttrs =
     mbind
       (if recursive then
          mbind (allocEnv (length attrs) env) (\<lambda>env2.
          mbind (buildInheritFromEnv env2 inheritFromExprs) (\<lambda>inheritEnv.
          mbind (bind_attrs (Some env2) (sOverrides \<in> fst ` set attrs) env2 env inheritEnv 0 attrs) (\<lambda>bindings.
          mbind (apply_overrides ops env2 attrs bindings) (\<lambda>(bindings, srt). mret (env2, bindings, srt)))))
        else
          mbind (buildInheritFromEnv env inheritFromExprs) (\<lambda>inheritEnv.
          mbind (bind_attrs None False env env inheritEnv 0 attrs) (\<lambda>bindings. mret (env, bindings, False))))
       (\<lambda>(dynamicEnv, bindings, srt).
     mbind (dynamic_loop ops dynamicEnv dynamicAttrs bindings srt) (\<lambda>(bindings, srt).
       mret (VAttrs (if srt then Bindings_sort bindings else bindings))))"

definition ExprLet_eval :: "evalops \<Rightarrow> eid \<Rightarrow> AttrDefs \<Rightarrow> Expr list option \<Rightarrow> Expr \<Rightarrow> Value ev" where
  "ExprLet_eval ops env attrs inheritFromExprs body =
     mbind (allocEnv (length attrs) env) (\<lambda>env2.
     mbind (buildInheritFromEnv env2 inheritFromExprs) (\<lambda>inheritEnv.
     mbind (bind_attrs (Some env2) False env2 env inheritEnv 0 attrs) (\<lambda>_.
       o_eval ops env2 body)))"

text \<open>\<^verbatim>\<open>ExprSelect::eval\<close>: one step of the attribute path, \<open>None\<close> when the default takes over.\<close>

definition select_step :: "evalops \<Rightarrow> eid \<Rightarrow> bool \<Rightarrow> Symbol + Expr \<Rightarrow> lval \<Rightarrow> vid option ev" where
  "select_step ops env hasDef i vAttrs =
     mbind (getName ops env i) (\<lambda>name.
     if hasDef then
       mbind (forceValue ops vAttrs) (\<lambda>v. mret (case v of VAttrs bs \<Rightarrow> sorted_get bs name | _ \<Rightarrow> None))
     else
       mbind (forceAttrs ops vAttrs) (\<lambda>bs.
       case sorted_get bs name of
         None \<Rightarrow> mfail (EvalError ''attribute %1% missing'')
       | Some j \<Rightarrow> mret (Some j)))"

fun select_loop :: "evalops \<Rightarrow> eid \<Rightarrow> Expr option \<Rightarrow> AttrPath \<Rightarrow> lval \<Rightarrow> Value ev" where
  "select_loop ops env def [] vAttrs = forceValue ops vAttrs"
| "select_loop ops env def (i # path) vAttrs =
     mbind (select_step ops env (def \<noteq> None) i vAttrs) (\<lambda>j.
     case j of
       Some v \<Rightarrow> select_loop ops env def path (Cell v)
     | None \<Rightarrow> (case def of Some d \<Rightarrow> o_eval ops env d | None \<Rightarrow> null_deref))"

fun hasAttr_loop :: "evalops \<Rightarrow> eid \<Rightarrow> AttrPath \<Rightarrow> lval \<Rightarrow> bool ev" where
  "hasAttr_loop ops env [] vAttrs = mret True"
| "hasAttr_loop ops env (i # path) vAttrs =
     mbind (forceValue ops vAttrs) (\<lambda>v.
     mbind (getName ops env i) (\<lambda>name.
     case v of
       VAttrs bs \<Rightarrow> (case sorted_get bs name of Some j \<Rightarrow> hasAttr_loop ops env path (Cell j) | None \<Rightarrow> mret False)
     | _ \<Rightarrow> mret False))"

text \<open>The merge of \<^verbatim>\<open>//\<close>: on a common name the second set wins.\<close>

fun update_merge :: "Bindings \<Rightarrow> Bindings \<Rightarrow> Bindings" where
  "update_merge (i # xs) (j # ys) =
     (if fst i = fst j then j # update_merge xs ys
      else if fst i < fst j then i # update_merge xs (j # ys)
      else j # update_merge (i # xs) ys)"
| "update_merge xs [] = xs"
| "update_merge [] ys = ys"

definition ExprOpUpdate_eval :: "evalops \<Rightarrow> eid \<Rightarrow> Expr \<Rightarrow> Expr \<Rightarrow> Value ev" where
  "ExprOpUpdate_eval ops env e1 e2 =
     mbind (evalAttrs ops env e1) (\<lambda>b1.
     mbind (evalAttrs ops env e2) (\<lambda>b2.
     mret (VAttrs (if b1 = [] then b2 else if b2 = [] then b1 else update_merge b1 b2))))"

text \<open>\<^verbatim>\<open>concatLists\<close>: the result shares the elements; a single non-empty list is returned as it is.\<close>

definition concatLists :: "evalops \<Rightarrow> lval list \<Rightarrow> Value ev" where
  "concatLists ops lvs = mbind (mmap (forceList ops) lvs) (\<lambda>ls. mret (VList (concat ls)))"

definition copyPathToStore :: "EvalParams \<Rightarrow> nat \<Rightarrow> string \<Rightarrow> NixStringContext \<Rightarrow> (string \<times> NixStringContext) ev" where
  "copyPathToStore p accessor path context =
     (if suffix ''.drv'' path then mfail (EvalError ''file names are not allowed to end in %1%'')
      else mbind (mlift (ep_fetchToStore p accessor path)) (\<lambda>dstPath.
        mret (printStorePath (ep_storeDir p) dstPath, oset_insert (NSC_Opaque dstPath) context)))"

text \<open>The address of a value: its cell, or a new one for a variable of the caller.\<close>

definition cell_of :: "lval \<Rightarrow> Value \<Rightarrow> vid ev" where
  "cell_of lv v = (case lv of Cell i \<Rightarrow> mret i | Temp _ \<Rightarrow> allocValue v)"

definition int_string :: "i64 \<Rightarrow> string" where
  "int_string n = (if sint n < 0 then ''-'' @ to_decimal (nat (- sint n)) else to_decimal (nat (sint n)))"

text \<open>
  The loop over a list in \<^verbatim>\<open>coerceToString\<close>: a space after every element but the last, unless the
  element is the empty list.
\<close>

fun coerce_list :: "evalops \<Rightarrow> bool \<Rightarrow> bool \<Rightarrow> bool \<Rightarrow> vid list \<Rightarrow> NixStringContext \<Rightarrow> (string \<times> NixStringContext) ev" where
  "coerce_list ops coerceMore copyToStore canonicalizePath [] context = mret ([], context)"
| "coerce_list ops coerceMore copyToStore canonicalizePath (v # vs) context =
     mbind (o_coerceToString ops coerceMore copyToStore canonicalizePath (Cell v) context) (\<lambda>(s, context).
     mbind (readValue v) (\<lambda>w.
     mbind (coerce_list ops coerceMore copyToStore canonicalizePath vs context) (\<lambda>(rest, context).
       mret (s @ (if vs \<noteq> [] \<and> w \<noteq> VList [] then '' '' else []) @ rest, context))))"

definition coerceToString :: "EvalParams \<Rightarrow> evalops \<Rightarrow> bool \<Rightarrow> bool \<Rightarrow> bool \<Rightarrow> lval \<Rightarrow> NixStringContext \<Rightarrow> (string \<times> NixStringContext) ev" where
  "coerceToString p ops coerceMore copyToStore canonicalizePath lv context =
     mbind (forceValue ops lv) (\<lambda>v.
     case v of
       VString s ctx \<Rightarrow> mbind (copyContext p ctx context) (\<lambda>context. mret (s, context))
     | VPath accessor path \<Rightarrow>
         if \<not> canonicalizePath \<and> \<not> copyToStore then mret (path, context)
         else if copyToStore then copyPathToStore p accessor path context
         else mret (path, context)
     | VAttrs bs \<Rightarrow>
         (case sorted_get bs sToString of
            Some f \<Rightarrow>
              mbind (cell_of lv v) (\<lambda>self.
              mbind (o_callFunction ops (Cell f) [self]) (\<lambda>v1.
                o_coerceToString ops coerceMore copyToStore True (Temp v1) context))
          | None \<Rightarrow>
              (case sorted_get bs sOutPath of
                 None \<Rightarrow> mfail (TypeError ''cannot coerce %1% to a string: %2%'')
               | Some i \<Rightarrow> o_coerceToString ops coerceMore copyToStore canonicalizePath (Cell i) context))
     | _ \<Rightarrow>
         if coerceMore then
           (case v of
              VBool b \<Rightarrow> mret (if b then ''1'' else [], context)
            | VInt n \<Rightarrow> mret (int_string n, context)
            | VFloat f \<Rightarrow> mret (ep_floatString p f, context)
            | VNull \<Rightarrow> mret ([], context)
            | VList vs \<Rightarrow> coerce_list ops coerceMore copyToStore canonicalizePath vs context
            | _ \<Rightarrow> mfail (TypeError ''cannot coerce %1% to a string: %2%''))
         else mfail (TypeError ''cannot coerce %1% to a string: %2%''))"

fun concat_loop :: "EvalParams \<Rightarrow> evalops \<Rightarrow> eid \<Rightarrow> Expr list \<Rightarrow> bool \<Rightarrow> ValueType \<Rightarrow> i64 \<Rightarrow> NixFloat \<Rightarrow> string \<Rightarrow> NixStringContext \<Rightarrow>
    (ValueType \<times> i64 \<times> NixFloat \<times> string \<times> NixStringContext) ev" where
  "concat_loop p ops env [] first firstType n nf s context = mret (firstType, n, nf, s, context)"
| "concat_loop p ops env (e # es) first firstType n nf s context =
     mbind (o_eval ops env e) (\<lambda>v.
     let firstType = (if first then value_type v else firstType) in
     if firstType = nInt then
       (case v of
          VInt m \<Rightarrow>
            (case valueChecked (checked_add n m) of
               Some n \<Rightarrow> concat_loop p ops env es False nInt n nf s context
             | None \<Rightarrow> mfail (EvalError ''integer overflow in adding %1% + %2%''))
        | VFloat f \<Rightarrow> concat_loop p ops env es False nFloat n (ep_floatAdd p (ep_floatOfInt p n) f) s context
        | _ \<Rightarrow> mfail (EvalError ''cannot add %1% to an integer''))
     else if firstType = nFloat then
       (case v of
          VInt m \<Rightarrow> concat_loop p ops env es False nFloat n (ep_floatAdd p nf (ep_floatOfInt p m)) s context
        | VFloat f \<Rightarrow> concat_loop p ops env es False nFloat n (ep_floatAdd p nf f) s context
        | _ \<Rightarrow> mfail (EvalError ''cannot add %1% to a float''))
     else
       mbind (o_coerceToString ops False (firstType = nString) (\<not> first) (Temp v) context) (\<lambda>(part, context).
         concat_loop p ops env es False firstType n nf (s @ part) context))"

definition ExprConcatStrings_eval :: "EvalParams \<Rightarrow> evalops \<Rightarrow> eid \<Rightarrow> bool \<Rightarrow> Expr list \<Rightarrow> Value ev" where
  "ExprConcatStrings_eval p ops env forceStr es =
     mbind (concat_loop p ops env es (\<not> forceStr) nString 0 (ep_floatOfInt p 0) [] []) (\<lambda>(firstType, n, nf, s, context).
     if firstType = nInt then mret (VInt n)
     else if firstType = nFloat then mret (VFloat nf)
     else if firstType = nPath then
       (if context \<noteq> [] then mfail (EvalError ''a string that refers to a store path cannot be appended to a path'')
        else mbind (mlift (CanonPath s)) (\<lambda>path. mret (VPath 0 path)))
     else mret (mkString s context))"

section \<open>Equality\<close>

definition EvalState_isDerivation :: "evalops \<Rightarrow> Value \<Rightarrow> bool ev" where
  "EvalState_isDerivation ops v =
     (case v of
        VAttrs bs \<Rightarrow>
          (case sorted_get bs sType of
             None \<Rightarrow> mret False
           | Some i \<Rightarrow> mbind (forceValue ops (Cell i)) (\<lambda>w. mret (case w of VString s _ \<Rightarrow> s = ''derivation'' | _ \<Rightarrow> False)))
      | _ \<Rightarrow> mret False)"

definition same_address :: "lval \<Rightarrow> lval \<Rightarrow> bool" where
  "same_address a b = (case (a, b) of (Cell i, Cell j) \<Rightarrow> i = j | _ \<Rightarrow> False)"

fun eq_list :: "evalops \<Rightarrow> vid list \<Rightarrow> vid list \<Rightarrow> bool ev" where
  "eq_list ops (a # as) (b # bs) = mbind (o_eqValues ops (Cell a) (Cell b)) (\<lambda>r. if \<not> r then mret False else eq_list ops as bs)"
| "eq_list ops _ _ = mret True"

fun eq_attrs :: "evalops \<Rightarrow> Bindings \<Rightarrow> Bindings \<Rightarrow> bool ev" where
  "eq_attrs ops (i # is') (j # js) =
     (if fst i \<noteq> fst j then mret False
      else mbind (o_eqValues ops (Cell (snd i)) (Cell (snd j))) (\<lambda>r. if \<not> r then mret False else eq_attrs ops is' js))"
| "eq_attrs ops _ _ = mret True"

text \<open>The derivations' \<^verbatim>\<open>outPath\<close> attributes, when both sets are derivations and have one.\<close>

definition derivation_outPaths :: "evalops \<Rightarrow> Bindings \<Rightarrow> Bindings \<Rightarrow> (vid \<times> vid) option ev" where
  "derivation_outPaths ops b1 b2 =
     mbind (EvalState_isDerivation ops (VAttrs b1)) (\<lambda>d1.
     mbind (if d1 then EvalState_isDerivation ops (VAttrs b2) else mret False) (\<lambda>d2.
     mret (if d2 then
         (case (sorted_get b1 sOutPath, sorted_get b2 sOutPath) of (Some i, Some j) \<Rightarrow> Some (i, j) | _ \<Rightarrow> None) else None)))"

definition eq_forced :: "EvalParams \<Rightarrow> evalops \<Rightarrow> Value \<Rightarrow> Value \<Rightarrow> bool ev" where
  "eq_forced p ops v1 v2 =
     (case v1 of
        VInt n \<Rightarrow> (case v2 of VFloat f \<Rightarrow> mret (ep_floatEq p (ep_floatOfInt p n) f) | VInt m \<Rightarrow> mret (n = m) | _ \<Rightarrow> mret False)
      | VFloat f \<Rightarrow> (case v2 of VInt n \<Rightarrow> mret (ep_floatEq p f (ep_floatOfInt p n)) | VFloat g \<Rightarrow> mret (ep_floatEq p f g) | _ \<Rightarrow> mret False)
      | VBool a \<Rightarrow> mret (case v2 of VBool b \<Rightarrow> a = b | _ \<Rightarrow> False)
      | VString a _ \<Rightarrow> mret (case v2 of VString b _ \<Rightarrow> a = b | _ \<Rightarrow> False)
      | VPath a s \<Rightarrow> mret (case v2 of VPath b t \<Rightarrow> a = b \<and> s = t | _ \<Rightarrow> False)
      | VNull \<Rightarrow> mret (v2 = VNull)
      | VList as \<Rightarrow> (case v2 of VList bs \<Rightarrow> if length as \<noteq> length bs then mret False else eq_list ops as bs | _ \<Rightarrow> mret False)
      | VAttrs as \<Rightarrow>
          (case v2 of
             VAttrs bs \<Rightarrow>
               mbind (derivation_outPaths ops as bs) (\<lambda>r.
               case r of
                 Some (i, j) \<Rightarrow> o_eqValues ops (Cell i) (Cell j)
               | None \<Rightarrow> if length as \<noteq> length bs then mret False else eq_attrs ops as bs)
           | _ \<Rightarrow> mret False)
      | _ \<Rightarrow> if value_type v1 = nThunk \<and> value_type v2 = nThunk then mfail (AssertionFailed ''false'') else mret False)"

definition eqValues :: "EvalParams \<Rightarrow> evalops \<Rightarrow> lval \<Rightarrow> lval \<Rightarrow> bool ev" where
  "eqValues p ops lv1 lv2 =
     mbind (forceValue ops lv1) (\<lambda>v1.
     mbind (forceValue ops lv2) (\<lambda>v2.
     if same_address lv1 lv2 then mret True else eq_forced p ops v1 v2))"

text \<open>
  \<^verbatim>\<open>CompareValues\<close> (primops.cc), the order of the comparison operators. It does not force its
  arguments. The loop over two lists ends at the first pair of elements that are not equal.
\<close>

fun compare_list :: "evalops \<Rightarrow> vid list \<Rightarrow> vid list \<Rightarrow> bool ev" where
  "compare_list ops xs [] = mret False"
| "compare_list ops [] (y # ys) = mret True"
| "compare_list ops (x # xs) (y # ys) =
     mbind (o_eqValues ops (Cell x) (Cell y)) (\<lambda>b. if b then compare_list ops xs ys else o_compareValues ops x y)"

definition compare_plain :: "EvalParams \<Rightarrow> Value \<Rightarrow> Value \<Rightarrow> bool result" where
  "compare_plain p v1 v2 =
     (case (v1, v2) of
        (VFloat f, VInt n) \<Rightarrow> Inr (ep_floatLess p f (ep_floatOfInt p n))
      | (VInt n, VFloat f) \<Rightarrow> Inr (ep_floatLess p (ep_floatOfInt p n) f)
      | (VInt n, VInt m) \<Rightarrow> Inr (n <s m)
      | (VFloat f, VFloat g) \<Rightarrow> Inr (ep_floatLess p f g)
      | (VString s _, VString t _) \<Rightarrow> Inr (s < t)
      | (VPath _ s, VPath _ t) \<Rightarrow> Inr (s < t)
      | _ \<Rightarrow> Inl (EvalError (if value_type v1 \<noteq> value_type v2 then ''cannot compare %s with %s''
          else ''cannot compare %s with %s; values of that type are incomparable'')))"

definition CompareValues :: "EvalParams \<Rightarrow> evalops \<Rightarrow> vid \<Rightarrow> vid \<Rightarrow> bool ev" where
  "CompareValues p ops a b =
     mbind (readValue a) (\<lambda>v1. mbind (readValue b) (\<lambda>v2.
     case (v1, v2) of
       (VList xs, VList ys) \<Rightarrow> compare_list ops xs ys
     | _ \<Rightarrow> mlift (compare_plain p v1 v2)))"

fun assert_list :: "evalops \<Rightarrow> vid list \<Rightarrow> vid list \<Rightarrow> unit ev" where
  "assert_list ops (a # as) (b # bs) = mbind (o_assertEqValues ops (Cell a) (Cell b)) (\<lambda>_. assert_list ops as bs)"
| "assert_list ops _ _ = mret ()"

text \<open>On different names the code finds out which set lacks which.\<close>

fun assert_attrs :: "evalops \<Rightarrow> Bindings \<Rightarrow> Bindings \<Rightarrow> Bindings \<Rightarrow> Bindings \<Rightarrow> unit ev" where
  "assert_attrs ops b1 b2 (i # is') (j # js) =
     (if fst i \<noteq> fst j then
        (if sorted_get b2 (fst i) = None then mfail (AssertionError ''attribute name is contained in the left set, but not in the right'')
         else if sorted_get b1 (fst j) = None then mfail (AssertionError ''attribute name is missing in the left set, but is contained in the right'')
         else mfail (AssertionFailed ''false''))
      else mbind (o_assertEqValues ops (Cell (snd i)) (Cell (snd j))) (\<lambda>_. assert_attrs ops b1 b2 is' js))"
| "assert_attrs ops _ _ _ _ = mret ()"

definition is_number :: "Value \<Rightarrow> bool" where
  "is_number v \<longleftrightarrow> value_type v = nInt \<or> value_type v = nFloat"

definition assert_forced :: "EvalParams \<Rightarrow> evalops \<Rightarrow> lval \<Rightarrow> lval \<Rightarrow> Value \<Rightarrow> Value \<Rightarrow> unit ev" where
  "assert_forced p ops lv1 lv2 v1 v2 =
     (if is_number v1 \<and> is_number v2 then
        mbind (eqValues p ops lv1 lv2) (\<lambda>r. if r then mret () else mfail (AssertionError ''number is not equal to number''))
      else if value_type v1 \<noteq> value_type v2 then mfail (AssertionError ''%s of value %s is not equal to %s of value %s'')
      else case v1 of
        VBool a \<Rightarrow> if v2 \<noteq> VBool a then mfail (AssertionError ''boolean is not equal to boolean'') else mret ()
      | VString a _ \<Rightarrow>
          (case v2 of
             VString b _ \<Rightarrow> if a \<noteq> b then mfail (AssertionError ''string is not equal to string'') else mret ()
           | _ \<Rightarrow> null_deref)
      | VPath a s \<Rightarrow>
          (case v2 of
             VPath b t \<Rightarrow>
               if a \<noteq> b then mfail (AssertionError ''path is not equal to path because their accessors are different'')
               else if s \<noteq> t then mfail (AssertionError ''path is not equal to path'') else mret ()
           | _ \<Rightarrow> null_deref)
      | VNull \<Rightarrow> mret ()
      | VList as \<Rightarrow>
          (case v2 of
             VList bs \<Rightarrow>
               if length as \<noteq> length bs then mfail (AssertionError ''list of size is not equal to list of size'')
               else assert_list ops as bs
           | _ \<Rightarrow> null_deref)
      | VAttrs as \<Rightarrow>
          (case v2 of
             VAttrs bs \<Rightarrow>
               mbind (derivation_outPaths ops as bs) (\<lambda>r.
               case r of
                 Some (i, j) \<Rightarrow> o_assertEqValues ops (Cell i) (Cell j)
               | None \<Rightarrow>
                   if length as \<noteq> length bs then mfail (AssertionError ''attribute names of attribute set differ'')
                   else assert_attrs ops as bs as bs)
           | _ \<Rightarrow> null_deref)
      | _ \<Rightarrow>
          if value_type v1 = nFunction
          then mfail (AssertionError ''distinct functions and immediate comparisons of identical functions compare as unequal'')
          else mfail (AssertionFailed ''false''))"

definition assertEqValues :: "EvalParams \<Rightarrow> evalops \<Rightarrow> lval \<Rightarrow> lval \<Rightarrow> unit ev" where
  "assertEqValues p ops lv1 lv2 =
     mbind (forceValue ops lv1) (\<lambda>v1.
     mbind (forceValue ops lv2) (\<lambda>v2.
     if same_address lv1 lv2 then mret ()
     else assert_forced p ops (case lv1 of Cell i \<Rightarrow> lv1 | Temp _ \<Rightarrow> Temp v1) (case lv2 of Cell i \<Rightarrow> lv2 | Temp _ \<Rightarrow> Temp v2) v1 v2))"

section \<open>Function calls\<close>

text \<open>
  The formals of a lambda: the attribute of that name, or the default; \<open>used\<close> counts the attributes.
\<close>

fun bind_formals :: "eid \<Rightarrow> nat \<Rightarrow> Bindings \<Rightarrow> FormalList \<Rightarrow> nat \<Rightarrow> nat ev" where
  "bind_formals env2 displ bs [] used = mret used"
| "bind_formals env2 displ bs ((name, def) # formals) used =
     (case sorted_get bs name of
        None \<Rightarrow>
          (case def of
             None \<Rightarrow> mfail (TypeError ''function %1% called without required argument %2%'')
           | Some d \<Rightarrow> mbind (maybeThunk env2 d) (\<lambda>v. mbind (writeSlot env2 displ v) (\<lambda>_. bind_formals env2 (displ + 1) bs formals used)))
      | Some v \<Rightarrow> mbind (writeSlot env2 displ v) (\<lambda>_. bind_formals env2 (displ + 1) bs formals (used + 1)))"

text \<open>
  The environment of a call. (The code allocates it before it forces the argument; nothing refers
  to it before it is filled.)
\<close>

definition enterLambda :: "evalops \<Rightarrow> eid \<Rightarrow> Symbol option \<Rightarrow> (FormalList \<times> bool) option \<Rightarrow> vid \<Rightarrow> eid ev" where
  "enterLambda ops env arg fs v =
     (case fs of
        None \<Rightarrow>
          mbind (allocEnv (if arg = None then 0 else 1) env) (\<lambda>env2.
          mbind (writeSlot env2 0 v) (\<lambda>_. mret env2))
      | Some (formals, ellipsis) \<Rightarrow>
          mbind (forceAttrs ops (Cell v)) (\<lambda>bs.
          mbind (allocEnv ((if arg = None then 0 else 1) + length formals) env) (\<lambda>env2.
          mbind (if arg = None then mret 0 else mbind (writeSlot env2 0 v) (\<lambda>_. mret 1)) (\<lambda>displ.
          mbind (bind_formals env2 displ bs formals 0) (\<lambda>attrsUsed.
          if \<not> ellipsis \<and> attrsUsed \<noteq> length bs then
            (if list_ex (\<lambda>b. sorted_get formals (fst b) = None) bs
             then mfail (TypeError ''function %1% called with unexpected argument %2%'')
             else mfail (AssertionFailed ''unreachable''))
          else mret env2)))))"

definition makeAppChain :: "Value \<Rightarrow> vid list \<Rightarrow> Value ev" where
  "makeAppChain vCur args = mfold (\<lambda>arg v. mbind (allocValue v) (\<lambda>fun2. mret (VPrimOpApp fun2 arg))) args vCur"

text \<open>
  Following the \<^verbatim>\<open>left\<close> pointers of a partial application: the primitive operation and the arguments
  so far. The chain is at most as long as the heap; a cycle is never left.
\<close>

fun papp_walk :: "nat \<Rightarrow> Value list \<Rightarrow> Value \<Rightarrow> (nat \<times> vid list) result option" where
  "papp_walk fuel V (VPrimOp i) = Some (Inr (i, []))"
| "papp_walk 0 V (VPrimOpApp left right) = None"
| "papp_walk (Suc fuel) V (VPrimOpApp left right) =
     (if left < length V
      then fbind (papp_walk fuel V (V ! left)) (\<lambda>(i, args). Some (Inr (i, args @ [right])))
      else Some (Inl (UndefinedBehaviour ''invalid pointer'')))"
| "papp_walk fuel V _ = Some (Inl (AssertionFailed ''primOp->isPrimOp()''))"

definition papp_args :: "Value \<Rightarrow> (nat \<times> vid list) ev" where
  "papp_args v = (\<lambda>st. map_option (\<lambda>r. (r, st)) (papp_walk (length (es_values st) + 1) (es_values st) v))"

definition maxPrimOpArity :: nat where
  "maxPrimOpArity = 8"

text \<open>
  One round of the loop of \<^verbatim>\<open>callFunction\<close>; the next round is \<open>o_callLoop\<close>. The number of arguments
  that are left is an unsigned subtraction in the code, very large when it wraps.
\<close>

definition callLoop :: "EvalParams \<Rightarrow> evalops \<Rightarrow> Value \<Rightarrow> vid list \<Rightarrow> Value ev" where
  "callLoop p ops vCur args =
     (case args of
        [] \<Rightarrow> mret vCur
      | arg # rest \<Rightarrow>
          (case vCur of
             VLambda env a fs body \<Rightarrow>
               mbind (enterLambda ops env a fs arg) (\<lambda>env2.
               mbind (o_eval ops env2 body) (\<lambda>v. o_callLoop ops v rest))
           | VPrimOp i \<Rightarrow>
               (case ep_primOps p i of
                  None \<Rightarrow> null_deref
                | Some fn \<Rightarrow>
                    if length args < po_arity fn then makeAppChain vCur args
                    else mbind (po_fun fn ops (take (po_arity fn) args)) (\<lambda>v. o_callLoop ops v (drop (po_arity fn) args)))
           | VPrimOpApp left right \<Rightarrow>
               mbind (papp_args vCur) (\<lambda>(i, vArgs).
               case ep_primOps p i of
                 None \<Rightarrow> null_deref
               | Some fn \<Rightarrow>
                   if po_arity fn < length vArgs \<or> length args < po_arity fn - length vArgs then makeAppChain vCur args
                   else if po_arity fn > maxPrimOpArity then null_deref
                   else mbind (po_fun fn ops (vArgs @ take (po_arity fn - length vArgs) args))
                     (\<lambda>v. o_callLoop ops v (drop (po_arity fn - length vArgs) args)))
           | VAttrs bs \<Rightarrow>
               (case sorted_get bs sFunctor of
                  Some functor \<Rightarrow>
                    mbind (allocValue vCur) (\<lambda>self.
                    mbind (o_callFunction ops (Cell functor) [self, arg]) (\<lambda>v. o_callLoop ops v rest))
                | None \<Rightarrow> mfail (TypeError ''attempt to call something which is not a function but %1%: %2%''))
           | _ \<Rightarrow> mfail (TypeError ''attempt to call something which is not a function but %1%: %2%'')))"

text \<open>\<^verbatim>\<open>addCallDepth\<close> checks the depth and counts the call; its destructor takes the count back.\<close>

definition callFunction :: "EvalParams \<Rightarrow> evalops \<Rightarrow> lval \<Rightarrow> vid list \<Rightarrow> Value ev" where
  "callFunction p ops fn args = (\<lambda>st.
     if es_callDepth st > ep_maxCallDepth p then mfail (EvalError ''stack overflow; max-call-depth exceeded'') st
     else at_exit (mbind (forceValue ops fn) (\<lambda>vCur. o_callLoop ops vCur args))
       (\<lambda>st. st\<lparr>es_callDepth := es_callDepth st - 1\<rparr>) (st\<lparr>es_callDepth := es_callDepth st + 1\<rparr>))"

text \<open>The automatic arguments a function accepts.\<close>

fun auto_args :: "Bindings \<Rightarrow> FormalList \<Rightarrow> Bindings ev" where
  "auto_args args [] = mret []"
| "auto_args args ((name, def) # formals) =
     (case sorted_get args name of
        Some v \<Rightarrow> mbind (auto_args args formals) (\<lambda>bs. mret ((name, v) # bs))
      | None \<Rightarrow>
          if def = None then mfail (MissingArgumentError ''cannot evaluate a function that has an argument without a value'')
          else auto_args args formals)"

definition autoCallFunction :: "evalops \<Rightarrow> Bindings \<Rightarrow> lval \<Rightarrow> Value ev" where
  "autoCallFunction ops args fn =
     mbind (forceValue ops fn) (\<lambda>v.
     case v of
       VAttrs bs \<Rightarrow>
         (case sorted_get bs sFunctor of
            Some found \<Rightarrow>
              mbind (cell_of fn v) (\<lambda>self.
              mbind (o_callFunction ops (Cell found) [self]) (\<lambda>w.
              mbind (allocValue w) (\<lambda>c.
              mbind (forceValue ops (Cell c)) (\<lambda>_. o_autoCall ops args (Cell c)))))
          | None \<Rightarrow> mret v)
     | VLambda env a (Some (formals, ellipsis)) body \<Rightarrow>
         mbind (if ellipsis then mret args else auto_args args formals) (\<lambda>attrs.
         mbind (allocValue (VAttrs (Bindings_sort attrs))) (\<lambda>arg.
           o_callFunction ops (case fn of Cell i \<Rightarrow> Cell i | Temp _ \<Rightarrow> Temp v) [arg]))
     | _ \<Rightarrow> mret v)"

definition ExprCall_eval :: "evalops \<Rightarrow> eid \<Rightarrow> Expr \<Rightarrow> Expr list \<Rightarrow> Value ev" where
  "ExprCall_eval ops env f es =
     mbind (o_eval ops env f) (\<lambda>vFun.
     mbind (mmap (maybeThunk env) es) (\<lambda>vArgs. o_callFunction ops (Temp vFun) vArgs))"

definition ExprWith_eval :: "evalops \<Rightarrow> eid \<Rightarrow> Expr \<Rightarrow> Expr \<Rightarrow> Value ev" where
  "ExprWith_eval ops env attrs body =
     mbind (allocEnv 1 env) (\<lambda>env2.
     mbind (maybeThunk env attrs) (\<lambda>v.
     mbind (writeSlot env2 0 v) (\<lambda>_. o_eval ops env2 body)))"

definition ExprAssert_eval :: "evalops \<Rightarrow> eid \<Rightarrow> Expr \<Rightarrow> Expr \<Rightarrow> Value ev" where
  "ExprAssert_eval ops env c body =
     mbind (evalBool ops env c) (\<lambda>b.
     if \<not> b then
       mbind (case c of
           ExprOpEq e1 e2 \<Rightarrow>
             mbind (o_eval ops env e1) (\<lambda>v1. mbind (o_eval ops env e2) (\<lambda>v2. o_assertEqValues ops (Temp v1) (Temp v2)))
         | _ \<Rightarrow> mret ()) (\<lambda>_. mfail (AssertionError ''assertion %1% failed''))
     else o_eval ops env body)"

text \<open>\<^verbatim>\<open>forceValueDeep\<close>: \<open>seen\<close> are the addresses met so far.\<close>

definition forceDeep :: "evalops \<Rightarrow> lval \<Rightarrow> vid list \<Rightarrow> vid list ev" where
  "forceDeep ops lv seen =
     (if (case lv of Cell i \<Rightarrow> i \<in> set seen | Temp _ \<Rightarrow> False) then mret seen
      else
        mbind (forceValue ops lv) (\<lambda>v.
        let seen = (case lv of Cell i \<Rightarrow> i # seen | Temp _ \<Rightarrow> seen) in
        case v of
          VAttrs bs \<Rightarrow> mfold (\<lambda>b seen. o_forceDeep ops (Cell (snd b)) seen) bs seen
        | VList vs \<Rightarrow> mfold (\<lambda>v2 seen. o_forceDeep ops (Cell v2) seen) vs seen
        | _ \<Rightarrow> mret seen))"

section \<open>Expressions\<close>

definition evalExpr :: "EvalParams \<Rightarrow> evalops \<Rightarrow> eid \<Rightarrow> Expr \<Rightarrow> Value ev" where
  "evalExpr p ops env e =
     (case e of
        ExprInt n \<Rightarrow> mret (VInt n)
      | ExprFloat nf \<Rightarrow> mret (VFloat nf)
      | ExprString s \<Rightarrow> mret (VString s [])
      | ExprPath a s \<Rightarrow> mret (VPath a s)
      | ExprVar name r \<Rightarrow> mbind (lookupVar ops env name r) (\<lambda>v. forceValue ops (Cell v))
      | ExprInheritFrom displ \<Rightarrow> mbind (lookupVar ops env 0 (Static 0 displ)) (\<lambda>v. forceValue ops (Cell v))
      | ExprSelect e1 path def \<Rightarrow> mbind (o_eval ops env e1) (\<lambda>v. select_loop ops env def path (Temp v))
      | ExprOpHasAttr e1 path \<Rightarrow> mbind (o_eval ops env e1) (\<lambda>v. mbind (hasAttr_loop ops env path (Temp v)) (\<lambda>b. mret (VBool b)))
      | ExprAttrs recursive attrs froms dyn \<Rightarrow> ExprAttrs_eval ops env recursive attrs froms dyn
      | ExprList es \<Rightarrow> mbind (mmap (maybeThunk env) es) (\<lambda>vs. mret (VList vs))
      | ExprLambda arg fs body \<Rightarrow> mret (VLambda env arg fs body)
      | ExprCall f es \<Rightarrow> ExprCall_eval ops env f es
      | ExprLet attrs froms body \<Rightarrow> ExprLet_eval ops env attrs froms body
      | ExprWith attrs body \<Rightarrow> ExprWith_eval ops env attrs body
      | ExprIf c e1 e2 \<Rightarrow> mbind (evalBool ops env c) (\<lambda>b. o_eval ops env (if b then e1 else e2))
      | ExprAssert c body \<Rightarrow> ExprAssert_eval ops env c body
      | ExprOpNot e1 \<Rightarrow> mbind (evalBool ops env e1) (\<lambda>b. mret (VBool (\<not> b)))
      | ExprOpEq e1 e2 \<Rightarrow>
          mbind (o_eval ops env e1) (\<lambda>v1. mbind (o_eval ops env e2) (\<lambda>v2.
          mbind (o_eqValues ops (Temp v1) (Temp v2)) (\<lambda>b. mret (VBool b))))
      | ExprOpNEq e1 e2 \<Rightarrow>
          mbind (o_eval ops env e1) (\<lambda>v1. mbind (o_eval ops env e2) (\<lambda>v2.
          mbind (o_eqValues ops (Temp v1) (Temp v2)) (\<lambda>b. mret (VBool (\<not> b)))))
      | ExprOpAnd e1 e2 \<Rightarrow> mbind (evalBool ops env e1) (\<lambda>b1. if b1 then mbind (evalBool ops env e2) (\<lambda>b2. mret (VBool b2)) else mret (VBool False))
      | ExprOpOr e1 e2 \<Rightarrow> mbind (evalBool ops env e1) (\<lambda>b1. if b1 then mret (VBool True) else mbind (evalBool ops env e2) (\<lambda>b2. mret (VBool b2)))
      | ExprOpImpl e1 e2 \<Rightarrow> mbind (evalBool ops env e1) (\<lambda>b1. if \<not> b1 then mret (VBool True) else mbind (evalBool ops env e2) (\<lambda>b2. mret (VBool b2)))
      | ExprOpUpdate e1 e2 \<Rightarrow> ExprOpUpdate_eval ops env e1 e2
      | ExprOpConcatLists e1 e2 \<Rightarrow>
          mbind (o_eval ops env e1) (\<lambda>v1. mbind (o_eval ops env e2) (\<lambda>v2. concatLists ops [Temp v1, Temp v2]))
      | ExprConcatStrings forceStr es \<Rightarrow> ExprConcatStrings_eval p ops env forceStr es)"

primrec evaluator :: "EvalParams \<Rightarrow> nat \<Rightarrow> evalops" where
  "evaluator p 0 =
     \<lparr>o_eval = (\<lambda>_ _ _. None), o_callFunction = (\<lambda>_ _ _. None), o_callLoop = (\<lambda>_ _ _. None), o_eqValues = (\<lambda>_ _ _. None), o_compareValues = (\<lambda>_ _ _. None),
      o_assertEqValues = (\<lambda>_ _ _. None), o_coerceToString = (\<lambda>_ _ _ _ _ _. None), o_forceDeep = (\<lambda>_ _ _. None), o_autoCall = (\<lambda>_ _ _. None)\<rparr>"
| "evaluator p (Suc n) =
     (let ops = evaluator p n in
     \<lparr>o_eval = evalExpr p ops, o_callFunction = callFunction p ops, o_callLoop = callLoop p ops, o_eqValues = eqValues p ops,
      o_compareValues = CompareValues p ops,
      o_assertEqValues = assertEqValues p ops, o_coerceToString = coerceToString p ops, o_forceDeep = forceDeep ops,
      o_autoCall = autoCallFunction ops\<rparr>)"

text \<open>\<^verbatim>\<open>EvalState::eval\<close>: an expression in the base environment, which is the first one.\<close>

definition eval :: "EvalParams \<Rightarrow> nat \<Rightarrow> Expr \<Rightarrow> Value ev" where
  "eval p fuel e = o_eval (evaluator p fuel) 0 e"

end
