(* ===== verification/Zix_EvalSafe.thy ===== *)
theory Zix_EvalSafe
  imports Zix_Eval
begin

text \<open>
  Memory safety of the evaluator: an expression that the parser produced and \<^verbatim>\<open>bindVars\<close>
  resolved is evaluated without following an invalid or null pointer, without reading an
  environment slot out of range, and without a failing assertion. The heap invariant is relative
  to the environments and values that are in use (\<open>world\<close>): a call that throws while its
  environment is being filled leaves behind environments and thunks that nothing refers to.
\<close>

named_theorems safe_intros \<open>rules for the safety of evaluator functions\<close>
named_theorems grow_intros \<open>facts that survive as the heap grows\<close>

section \<open>The heap invariant\<close>

definition whnf :: "Value \<Rightarrow> bool" where
  "whnf v \<longleftrightarrow> value_type v \<noteq> nThunk"

text \<open>The shape of an environment: the number of its slots and of those above it.\<close>

function env_shape :: "Env list \<Rightarrow> eid \<Rightarrow> nat list" where
  "env_shape E e =
     (if e < length E
      then length (env_values (E ! e)) # (case env_up (E ! e) of Some u \<Rightarrow> if u < e then env_shape E u else [] | None \<Rightarrow> [])
      else [])"
  by pat_completeness auto
termination by (relation "measure snd") auto

declare env_shape.simps [simp del]

text \<open>
  The environments and the values in use, and among the latter the links of partial applications.
\<close>

record world =
  LE :: "eid set"
  LV :: "vid set"
  LP :: "vid set"

text \<open>
  A partial application is a chain of links that leads down to a primitive operation; each link is
  older than the one before.
\<close>

inductive papp :: "world \<Rightarrow> Value list \<Rightarrow> nat \<Rightarrow> Value \<Rightarrow> nat \<Rightarrow> vid list \<Rightarrow> bool" for w V where
  papp_op: "papp w V b (VPrimOp i) i []"
| papp_app: "l < b \<Longrightarrow> l < length V \<Longrightarrow> l \<in> LP w \<Longrightarrow> r \<in> LV w \<Longrightarrow> papp w V l (V ! l) i args \<Longrightarrow> papp w V b (VPrimOpApp l r) i (args @ [r])"

fun value_ok :: "(nat \<Rightarrow> nat option) \<Rightarrow> world \<Rightarrow> EvalState \<Rightarrow> Value \<Rightarrow> bool" where
  "value_ok ar w st (VAttrs bs) \<longleftrightarrow> omap_ok bs \<and> snd ` set bs \<subseteq> LV w"
| "value_ok ar w st (VList vs) \<longleftrightarrow> set vs \<subseteq> LV w"
| "value_ok ar w st (VThunk e x) \<longleftrightarrow> e \<in> LE w \<and> well_bound (env_shape (es_envs st) e) x"
| "value_ok ar w st (VApp l r) \<longleftrightarrow> l \<in> LV w \<and> r \<in> LV w"
| "value_ok ar w st (VLambda e a fs b) \<longleftrightarrow> e \<in> LE w \<and> well_bound (env_shape (es_envs st) e) (ExprLambda a fs b)"
| "value_ok ar w st (VPrimOp i) \<longleftrightarrow> ar i \<noteq> None"
| "value_ok ar w st (VPrimOpApp l r) \<longleftrightarrow>
     (\<exists>i args n. papp w (es_values st) (length (es_values st)) (VPrimOpApp l r) i args \<and> ar i = Some n \<and> length args < n)"
| "value_ok ar w st _ \<longleftrightarrow> True"

text \<open>The slots of the environments in \<open>I\<close> are still being filled.\<close>

definition env_ok :: "world \<Rightarrow> eid set \<Rightarrow> eid \<Rightarrow> Env \<Rightarrow> bool" where
  "env_ok w I e env \<longleftrightarrow>
     (case env_up env of None \<Rightarrow> True | Some u \<Rightarrow> u < e \<and> u \<in> LE w) \<and>
     set (env_values env) \<subseteq> Some ` LV w \<union> (if e \<in> I then {None} else {})"

text \<open>The strings of the symbols are distinct, and those of the constructor come first.\<close>

definition symbols_ok :: "EvalState \<Rightarrow> bool" where
  "symbols_ok st \<longleftrightarrow> distinct (es_symbols st) \<and> take (length initial_symbols) (es_symbols st) = initial_symbols"

lemma symbols_ok_update [simp]:
  "symbols_ok (st\<lparr>es_values := v\<rparr>) = symbols_ok st" "symbols_ok (st\<lparr>es_envs := e\<rparr>) = symbols_ok st" "symbols_ok (st\<lparr>es_callDepth := d\<rparr>) = symbols_ok st"
  by (simp_all add: symbols_ok_def)

definition heap_part :: "(nat \<Rightarrow> nat option) \<Rightarrow> world \<Rightarrow> eid set \<Rightarrow> EvalState \<Rightarrow> bool" where
  "heap_part ar w I st \<longleftrightarrow>
     (\<forall>e \<in> LE w. e < length (es_envs st) \<and> env_ok w I e (es_envs st ! e)) \<and>
     (\<forall>v \<in> LV w. v < length (es_values st) \<and> value_ok ar w st (es_values st ! v)) \<and>
     LP w \<subseteq> LV w \<and> (\<forall>l \<in> LP w. whnf (es_values st ! l)) \<and> symbols_ok st"

abbreviation heap_ok :: "(nat \<Rightarrow> nat option) \<Rightarrow> world \<Rightarrow> EvalState \<Rightarrow> bool" where
  "heap_ok ar w st \<equiv> heap_part ar w {} st"

text \<open>
  How a heap may change: it grows, an environment keeps its parent and its size, a link of a
  partial application stays what it is, and new links are new cells.
\<close>

definition grows :: "world \<Rightarrow> EvalState \<Rightarrow> world \<Rightarrow> EvalState \<Rightarrow> bool" where
  "grows w st w' st' \<longleftrightarrow>
     LE w \<subseteq> LE w' \<and> LV w \<subseteq> LV w' \<and> LP w \<subseteq> LP w' \<and>
     length (es_values st) \<le> length (es_values st') \<and> length (es_envs st) \<le> length (es_envs st') \<and>
     (\<forall>l \<in> LP w. es_values st' ! l = es_values st ! l) \<and> (\<forall>l \<in> LP w'. l \<in> LP w \<or> length (es_values st) \<le> l) \<and>
     (\<forall>e \<in> LE w. env_up (es_envs st' ! e) = env_up (es_envs st ! e) \<and>
        length (env_values (es_envs st' ! e)) = length (env_values (es_envs st ! e)))"

lemma grows_refl [simp]: "grows w st w st"
  by (simp add: grows_def)

lemma grows_trans:
  assumes "grows w st w1 st1" "grows w1 st1 w2 st2"
  shows "grows w st w2 st2"
  using assms unfolding grows_def by (auto dest: subsetD)

lemma grows_LE [grow_intros]: "grows w st w' st' \<Longrightarrow> e \<in> LE w \<Longrightarrow> e \<in> LE w'"
  by (auto simp: grows_def)

lemma grows_LV [grow_intros]: "grows w st w' st' \<Longrightarrow> v \<in> LV w \<Longrightarrow> v \<in> LV w'"
  by (auto simp: grows_def)

lemma heap_LE: "heap_part ar w I st \<Longrightarrow> e \<in> LE w \<Longrightarrow> e < length (es_envs st) \<and> env_ok w I e (es_envs st ! e)"
  by (simp add: heap_part_def)

lemma heap_LV: "heap_part ar w I st \<Longrightarrow> v \<in> LV w \<Longrightarrow> v < length (es_values st) \<and> value_ok ar w st (es_values st ! v)"
  by (simp add: heap_part_def)

lemma grows_shape:
  assumes "grows w st w' st'" "heap_part ar w I st" "e \<in> LE w"
  shows "env_shape (es_envs st') e = env_shape (es_envs st) e"
  using assms(3)
proof (induction e rule: less_induct)
  case (less e)
  let ?E = "es_envs st" and ?E' = "es_envs st'"
  have e: "e < length ?E" "env_ok w I e (?E ! e)" using heap_LE [OF assms(2) less.prems] by auto
  then have "e < length ?E'" using assms(1) by (simp add: grows_def)
  moreover have "env_up (?E' ! e) = env_up (?E ! e)" "length (env_values (?E' ! e)) = length (env_values (?E ! e))"
    using assms(1) less.prems by (auto simp: grows_def)
  moreover have "env_shape ?E' u = env_shape ?E u" if "env_up (?E ! e) = Some u" for u
    using e(2) that less.IH [of u] by (auto simp: env_ok_def)
  ultimately show ?case
    using e by (simp add: env_shape.simps [of ?E' e] env_shape.simps [of ?E e] split: option.split)
qed

lemma papp_whnf: "papp w V b v i args \<Longrightarrow> whnf v"
  by (induction rule: papp.induct) (simp_all add: whnf_def)

lemma papp_mono:
  assumes "papp w V b v i args"
    and "LV w \<subseteq> LV w'" "LP w \<subseteq> LP w'" "length V \<le> length V'" "\<And>x. x \<in> LP w \<Longrightarrow> V' ! x = V ! x" "b \<le> b'"
  shows "papp w' V' b' v i args"
  using assms(1, 6)
proof (induction arbitrary: b' rule: papp.induct)
  case (papp_app l b r i args)
  have "V' ! l = V ! l" using assms(5) papp_app by blast
  moreover have "papp w' V' l (V ! l) i args" using papp_app.IH by simp
  ultimately show ?case using papp_app assms(2, 3, 4) by (intro papp.papp_app) auto
qed (rule papp.papp_op)

lemma value_ok_grows [grow_intros]:
  assumes "grows w st w' st'" "heap_part ar w I st" "value_ok ar w st v"
  shows "value_ok ar w' st' v"
proof (cases v)
  case (VPrimOpApp l r)
  then obtain i args n where "papp w (es_values st) (length (es_values st)) v i args" "ar i = Some n" "length args < n"
    using assms(3) by auto
  moreover from this(1) have "papp w' (es_values st') (length (es_values st')) v i args"
    by (rule papp_mono) (use assms(1) in \<open>auto simp: grows_def\<close>)
  ultimately show ?thesis using VPrimOpApp by auto
qed (use assms grows_shape [OF assms(1, 2)] in \<open>auto simp: grows_def\<close>)

lemma well_bound_grows [grow_intros]:
  "grows w st w' st' \<Longrightarrow> heap_part ar w I st \<Longrightarrow> e \<in> LE w \<Longrightarrow> well_bound (env_shape (es_envs st) e) x \<Longrightarrow> well_bound (env_shape (es_envs st') e) x"
  by (simp add: grows_shape)

section \<open>Safe computations\<close>

text \<open>
  The exceptions of the language. An assertion never fails, and there is no undefined behaviour,
  with one exception: \<^verbatim>\<open>builtins.elemAt\<close> checks the low 32 bits of the index it accesses the list with.
\<close>

fun proper :: "exn \<Rightarrow> bool" where
  "proper (AssertionFailed _) \<longleftrightarrow> False"
| "proper (UndefinedBehaviour s) \<longleftrightarrow> s = ''listElems()[n]''"
| "proper _ \<longleftrightarrow> True"

text \<open>
  A computation is safe when, whatever it returns, the heap it leaves is well-formed, an exception
  is one of the code's, and a result satisfies \<open>Q\<close>.
\<close>

definition safe :: "(nat \<Rightarrow> nat option) \<Rightarrow> world \<Rightarrow> 'a ev \<Rightarrow> EvalState \<Rightarrow> ('a \<Rightarrow> world \<Rightarrow> EvalState \<Rightarrow> bool) \<Rightarrow> bool" where
  "safe ar w m st Q \<longleftrightarrow>
     (\<forall>r st'. m st = Some (r, st') \<longrightarrow>
        (\<exists>w'. heap_ok ar w' st' \<and> grows w st w' st' \<and> (case r of Inl e \<Rightarrow> proper e | Inr a \<Rightarrow> Q a w' st')))"

lemma safeI_None: "m st = None \<Longrightarrow> safe ar w m st Q"
  by (simp add: safe_def)

lemma safe_ret [safe_intros]: "heap_ok ar w st \<Longrightarrow> Q a w st \<Longrightarrow> safe ar w (mret a) st Q"
  by (auto simp: safe_def intro!: exI [of _ w])

lemma safe_fail [safe_intros]: "heap_ok ar w st \<Longrightarrow> proper e \<Longrightarrow> safe ar w (mfail e) st Q"
  by (auto simp: safe_def intro!: exI [of _ w])

lemma safe_lift: "heap_ok ar w st \<Longrightarrow> (\<And>e. r = Inl e \<Longrightarrow> proper e) \<Longrightarrow> (\<And>a. r = Inr a \<Longrightarrow> Q a w st) \<Longrightarrow> safe ar w (mlift r) st Q"
  by (cases r) (auto intro: safe_ret safe_fail)

lemma safe_bind:
  assumes "safe ar w m st Q'" "\<And>a w1 st1. heap_ok ar w1 st1 \<Longrightarrow> grows w st w1 st1 \<Longrightarrow> Q' a w1 st1 \<Longrightarrow> safe ar w1 (f a) st1 Q"
  shows "safe ar w (mbind m f) st Q"
  unfolding safe_def
proof (intro allI impI)
  fix r st'
  assume "mbind m f st = Some (r, st')"
  then consider (err) e where "m st = Some (Inl e, st')" "r = Inl e" | (ok) a st1 where "m st = Some (Inr a, st1)" "f a st1 = Some (r, st')"
    by (auto simp: mbind_Some)
  then show "\<exists>w'. heap_ok ar w' st' \<and> grows w st w' st' \<and> (case r of Inl e \<Rightarrow> proper e | Inr a \<Rightarrow> Q a w' st')"
  proof cases
    case err
    with assms(1) show ?thesis by (fastforce simp: safe_def)
  next
    case ok
    with assms(1) obtain w1 where w1: "heap_ok ar w1 st1" "grows w st w1 st1" "Q' a w1 st1" by (fastforce simp: safe_def)
    with assms(2) [OF this] ok(2) obtain w' where "heap_ok ar w' st'" "grows w1 st1 w' st'" "case r of Inl e \<Rightarrow> proper e | Inr a \<Rightarrow> Q a w' st'"
      by (auto simp: safe_def)
    with w1(2) show ?thesis by (blast intro: grows_trans)
  qed
qed

lemma safe_mono:
  assumes "safe ar w m st Q'" "\<And>a w1 st1. heap_ok ar w1 st1 \<Longrightarrow> grows w st w1 st1 \<Longrightarrow> Q' a w1 st1 \<Longrightarrow> Q a w1 st1"
  shows "safe ar w m st Q"
  unfolding safe_def
proof (intro allI impI)
  fix r st'
  assume "m st = Some (r, st')"
  with assms(1) obtain w' where w': "heap_ok ar w' st'" "grows w st w' st'" "case r of Inl e \<Rightarrow> proper e | Inr a \<Rightarrow> Q' a w' st'"
    by (auto simp: safe_def)
  with assms(2) [OF w'(1, 2)] show "\<exists>w'. heap_ok ar w' st' \<and> grows w st w' st' \<and> (case r of Inl e \<Rightarrow> proper e | Inr a \<Rightarrow> Q a w' st')"
    by (auto split: sum.splits)
qed

lemma grows_alloc: "heap_part ar w I st \<Longrightarrow> grows w st (w\<lparr>LV := insert (length (es_values st)) (LV w)\<rparr>) (st\<lparr>es_values := es_values st @ [v]\<rparr>)"
  by (auto simp: grows_def heap_part_def nth_append)

lemma heap_alloc:
  assumes "heap_part ar w I st" "value_ok ar w st v"
  shows "heap_part ar (w\<lparr>LV := insert (length (es_values st)) (LV w)\<rparr>) I (st\<lparr>es_values := es_values st @ [v]\<rparr>)"
proof -
  let ?w = "w\<lparr>LV := insert (length (es_values st)) (LV w)\<rparr>" and ?st = "st\<lparr>es_values := es_values st @ [v]\<rparr>"
  have g: "grows w st ?w ?st" using assms(1) by (rule grows_alloc)
  show ?thesis
    unfolding heap_part_def
  proof (intro conjI ballI)
    fix x assume "x \<in> LV ?w"
    then consider "x = length (es_values st)" | "x \<in> LV w" by auto
    then show "x < length (es_values ?st)" "value_ok ar ?w ?st (es_values ?st ! x)"
      using value_ok_grows [OF g assms] heap_LV [OF assms(1), of x] value_ok_grows [OF g assms(1), of "es_values st ! x"]
      by (cases; simp add: nth_append)+
  next
    fix e assume "e \<in> LE ?w"
    then have "e < length (es_envs st) \<and> env_ok w I e (es_envs st ! e)" using heap_LE [OF assms(1)] by simp
    then show "e < length (es_envs ?st)" "env_ok ?w I e (es_envs ?st ! e)" by (auto simp: env_ok_def split: option.splits)
  next
    show "LP ?w \<subseteq> LV ?w" using assms(1) by (auto simp: heap_part_def)
    fix l assume "l \<in> LP ?w"
    then have "l \<in> LP w" "l < length (es_values st)" using assms(1) by (auto simp: heap_part_def)
    then show "whnf (es_values ?st ! l)" using assms(1) by (simp add: heap_part_def nth_append)
  qed (use assms(1) in \<open>simp add: heap_part_def\<close>)
qed

lemma safe_alloc:
  assumes "heap_ok ar w st" "value_ok ar w st v"
  shows "safe ar w (allocValue v) st (\<lambda>i w' st'. i \<in> LV w')"
  using heap_alloc [OF assms] grows_alloc [OF assms(1)] by (auto simp: safe_def allocValue_def)

lemma safe_read:
  assumes "heap_ok ar w st" "v \<in> LV w" "value_ok ar w st (es_values st ! v) \<Longrightarrow> Q (es_values st ! v) w st"
  shows "safe ar w (readValue v) st Q"
  using assms heap_LV [OF assms(1, 2)] by (auto simp: safe_def readValue_def intro!: exI [of _ w])

lemma heap_write:
  assumes "heap_ok ar w st" "v \<in> LV w" "v \<notin> LP w" "value_ok ar w st x"
  shows "heap_ok ar w (st\<lparr>es_values := (es_values st)[v := x]\<rparr>)" "grows w st w (st\<lparr>es_values := (es_values st)[v := x]\<rparr>)"
proof -
  let ?st = "st\<lparr>es_values := (es_values st)[v := x]\<rparr>"
  show g: "grows w st w ?st" using assms(3) by (auto simp: grows_def intro!: nth_list_update_neq)
  show "heap_ok ar w ?st"
    unfolding heap_part_def
  proof (intro conjI ballI)
    fix y assume y: "y \<in> LV w"
    then show "y < length (es_values ?st)" using heap_LV [OF assms(1)] by simp
    show "value_ok ar w ?st (es_values ?st ! y)"
      using value_ok_grows [OF g assms(1)] heap_LV [OF assms(1) y] assms(4) by (cases "y = v") simp_all
  next
    fix l assume "l \<in> LP w"
    with assms(1, 3) have "l \<noteq> v" "whnf (es_values st ! l)" by (auto simp: heap_part_def)
    then show "whnf (es_values ?st ! l)" by simp
  qed (use assms(1) in \<open>auto simp: heap_part_def\<close>)
qed

lemma not_link: "heap_ok ar w st \<Longrightarrow> \<not> whnf (es_values st ! v) \<Longrightarrow> v \<notin> LP w"
  by (auto simp: heap_part_def)

lemma not_link_grows: "grows w st w' st' \<Longrightarrow> heap_ok ar w st \<Longrightarrow> v \<in> LV w \<Longrightarrow> v \<notin> LP w \<Longrightarrow> v \<notin> LP w'"
  using heap_LV by (fastforce simp: grows_def)

lemma safe_write:
  assumes "heap_ok ar w st" "v \<in> LV w" "v \<notin> LP w" "value_ok ar w st x"
    and "Q () w (st\<lparr>es_values := (es_values st)[v := x]\<rparr>)"
  shows "safe ar w (writeValue v x) st Q"
  using heap_write [OF assms(1-4)] heap_LV [OF assms(1, 2)] assms(5) by (auto simp: safe_def writeValue_def)

text \<open>What the recursive calls promise.\<close>

definition res :: "(nat \<Rightarrow> nat option) \<Rightarrow> Value \<Rightarrow> world \<Rightarrow> EvalState \<Rightarrow> bool" where
  "res ar v w st \<longleftrightarrow> value_ok ar w st v \<and> whnf v"

abbreviation any :: "'a \<Rightarrow> world \<Rightarrow> EvalState \<Rightarrow> bool" where
  "any \<equiv> \<lambda>_ _ _. True"

fun lval_ok :: "(nat \<Rightarrow> nat option) \<Rightarrow> world \<Rightarrow> EvalState \<Rightarrow> lval \<Rightarrow> bool" where
  "lval_ok ar w st (Cell v) \<longleftrightarrow> v \<in> LV w"
| "lval_ok ar w st (Temp x) \<longleftrightarrow> value_ok ar w st x"

definition bs_ok :: "world \<Rightarrow> Bindings \<Rightarrow> bool" where
  "bs_ok w bs \<longleftrightarrow> omap_ok bs \<and> snd ` set bs \<subseteq> LV w"

definition expr_ok :: "world \<Rightarrow> EvalState \<Rightarrow> eid \<Rightarrow> Expr \<Rightarrow> bool" where
  "expr_ok w st env e \<longleftrightarrow> env \<in> LE w \<and> well_bound (env_shape (es_envs st) env) e"

definition ops_safe :: "(nat \<Rightarrow> nat option) \<Rightarrow> evalops \<Rightarrow> bool" where
  "ops_safe ar ops \<longleftrightarrow>
     (\<forall>w st env e. heap_ok ar w st \<longrightarrow> expr_ok w st env e \<longrightarrow> safe ar w (o_eval ops env e) st (res ar)) \<and>
     (\<forall>w st lv args. heap_ok ar w st \<longrightarrow> lval_ok ar w st lv \<longrightarrow> set args \<subseteq> LV w \<longrightarrow> safe ar w (o_callFunction ops lv args) st (res ar)) \<and>
     (\<forall>w st v args. heap_ok ar w st \<longrightarrow> res ar v w st \<longrightarrow> set args \<subseteq> LV w \<longrightarrow> safe ar w (o_callLoop ops v args) st (res ar)) \<and>
     (\<forall>w st a b. heap_ok ar w st \<longrightarrow> lval_ok ar w st a \<longrightarrow> lval_ok ar w st b \<longrightarrow> safe ar w (o_eqValues ops a b) st any) \<and>
     (\<forall>w st a b. heap_ok ar w st \<longrightarrow> lval_ok ar w st a \<longrightarrow> lval_ok ar w st b \<longrightarrow> safe ar w (o_assertEqValues ops a b) st any) \<and>
     (\<forall>w st a b. heap_ok ar w st \<longrightarrow> a \<in> LV w \<longrightarrow> b \<in> LV w \<longrightarrow> safe ar w (o_compareValues ops a b) st any) \<and>
     (\<forall>w st f g h lv c. heap_ok ar w st \<longrightarrow> lval_ok ar w st lv \<longrightarrow> safe ar w (o_coerceToString ops f g h lv c) st any) \<and>
     (\<forall>w st lv seen. heap_ok ar w st \<longrightarrow> lval_ok ar w st lv \<longrightarrow> safe ar w (o_forceDeep ops lv seen) st any) \<and>
     (\<forall>w st bs lv. heap_ok ar w st \<longrightarrow> bs_ok w bs \<longrightarrow> lval_ok ar w st lv \<longrightarrow> safe ar w (o_autoCall ops bs lv) st (res ar))"

lemma ops_safeD [safe_intros]:
  assumes "ops_safe ar ops" "heap_ok ar w st"
  shows "expr_ok w st env e \<Longrightarrow> safe ar w (o_eval ops env e) st (res ar)"
    and "lval_ok ar w st lv \<Longrightarrow> set args \<subseteq> LV w \<Longrightarrow> safe ar w (o_callFunction ops lv args) st (res ar)"
    and "res ar v w st \<Longrightarrow> set args \<subseteq> LV w \<Longrightarrow> safe ar w (o_callLoop ops v args) st (res ar)"
    and "lval_ok ar w st a \<Longrightarrow> lval_ok ar w st b \<Longrightarrow> safe ar w (o_eqValues ops a b) st any"
    and "lval_ok ar w st a \<Longrightarrow> lval_ok ar w st b \<Longrightarrow> safe ar w (o_assertEqValues ops a b) st any"
    and "lval_ok ar w st lv \<Longrightarrow> safe ar w (o_coerceToString ops f g h lv c) st any"
    and "lval_ok ar w st lv \<Longrightarrow> safe ar w (o_forceDeep ops lv seen) st any"
    and "bs_ok w bs \<Longrightarrow> lval_ok ar w st lv \<Longrightarrow> safe ar w (o_autoCall ops bs lv) st (res ar)"
    and "u \<in> LV w \<Longrightarrow> v2 \<in> LV w \<Longrightarrow> safe ar w (o_compareValues ops u v2) st any"
  using assms unfolding ops_safe_def by simp_all

lemma lval_ok_grows [grow_intros]: "grows w st w' st' \<Longrightarrow> heap_part ar w I st \<Longrightarrow> lval_ok ar w st lv \<Longrightarrow> lval_ok ar w' st' lv"
  by (cases lv) (auto intro: grow_intros)

lemma bs_ok_grows [grow_intros]: "grows w st w' st' \<Longrightarrow> bs_ok w bs \<Longrightarrow> bs_ok w' bs"
  by (auto simp: bs_ok_def grows_def)

lemma expr_ok_grows [grow_intros]: "grows w st w' st' \<Longrightarrow> heap_part ar w I st \<Longrightarrow> expr_ok w st env e \<Longrightarrow> expr_ok w' st' env e"
  by (auto simp: expr_ok_def intro: grow_intros)

lemma res_grows [grow_intros]: "grows w st w' st' \<Longrightarrow> heap_part ar w I st \<Longrightarrow> res ar v w st \<Longrightarrow> res ar v w' st'"
  by (auto simp: res_def intro: grow_intros)

lemma set_LV_grows [grow_intros]: "grows w st w' st' \<Longrightarrow> set vs \<subseteq> LV w \<Longrightarrow> set vs \<subseteq> LV w'"
  by (auto simp: grows_def)

lemma res_value [simp]:
  "res ar (VAttrs bs) w st \<longleftrightarrow> bs_ok w bs" "res ar (VList vs) w st \<longleftrightarrow> set vs \<subseteq> LV w"
  "res ar (VInt n) w st" "res ar (VFloat f) w st" "res ar (VBool b) w st" "res ar VNull w st" "res ar (VString s c) w st" "res ar (VPath a s) w st"
  by (auto simp: res_def whnf_def bs_ok_def)

lemma bs_ok_get: "bs_ok w bs \<Longrightarrow> sorted_get bs name = Some v \<Longrightarrow> v \<in> LV w"
  by (fastforce simp: bs_ok_def strict_sorted_iff dest: map_of_SomeD)

section \<open>Forcing\<close>

lemma forceCell_safe:
  assumes ops: "ops_safe ar ops" and inv: "heap_ok ar w st" and v: "v \<in> LV w"
  shows "safe ar w (forceCell ops v) st (\<lambda>_ w' st'. whnf (es_values st' ! v))"
proof -
  have len: "v < length (es_values st)" and ok: "value_ok ar w st (es_values st ! v)" using heap_LV [OF inv v] by auto
  have writes: "safe ar w1 (writeValue v x) st1 (\<lambda>_ w' st'. whnf (es_values st' ! v))"
    if "heap_ok ar w1 st1" "grows w st w1 st1" "res ar x w1 st1" "v \<notin> LP w" for w1 st1 x
    using that not_link_grows [OF that(2) inv v] len grows_LV [OF that(2) v]
    by (intro safe_write) (auto simp: res_def grows_def)
  have "safe ar w (case es_values st ! v of
       VThunk env e \<Rightarrow>
         mbind (writeValue v VBlackhole) (\<lambda>_.
         mbind (on_throw (o_eval ops env e) (\<lambda>st. st\<lparr>es_values := (es_values st)[v := VThunk env e]\<rparr>)) (\<lambda>w.
           writeValue v w))
     | VBlackhole \<Rightarrow> mfail (InfiniteRecursionError ''infinite recursion encountered'')
     | VApp left right \<Rightarrow> mbind (o_callFunction ops (Cell left) [right]) (writeValue v)
     | _ \<Rightarrow> mret ()) st (\<lambda>_ w' st'. whnf (es_values st' ! v))"
  proof (cases "es_values st ! v")
    case (VThunk env e)
    have nl: "v \<notin> LP w" by (rule not_link [OF inv]) (simp add: VThunk whnf_def)
    define st1 where "st1 = st\<lparr>es_values := (es_values st)[v := VBlackhole]\<rparr>"
    have st1: "heap_ok ar w st1" "grows w st w st1" using heap_write [OF inv v nl, of VBlackhole] by (simp_all add: st1_def)
    have x: "expr_ok w st1 env e" using ok VThunk st1 inv by (intro expr_ok_grows [OF st1(2) inv]) (simp add: expr_ok_def)
    have "safe ar w (on_throw (o_eval ops env e) (\<lambda>st. st\<lparr>es_values := (es_values st)[v := VThunk env e]\<rparr>)) st1 (res ar)"
      unfolding safe_def
    proof (intro allI impI)
      fix r st'
      assume "on_throw (o_eval ops env e) (\<lambda>st. st\<lparr>es_values := (es_values st)[v := VThunk env e]\<rparr>) st1 = Some (r, st')"
      then obtain st2 where run: "o_eval ops env e st1 = Some (r, st2)"
        and st': "st' = (case r of Inl _ \<Rightarrow> st2\<lparr>es_values := (es_values st2)[v := VThunk env e]\<rparr> | Inr _ \<Rightarrow> st2)"
        by (auto simp: on_throw_def split: option.splits prod.splits sum.splits)
      from ops_safeD(1) [OF ops st1(1) x] run obtain w2 where
        w2: "heap_ok ar w2 st2" "grows w st1 w2 st2" "case r of Inl e \<Rightarrow> proper e | Inr a \<Rightarrow> res ar a w2 st2" by (auto simp: safe_def)
      have undo: "heap_ok ar w2 (st2\<lparr>es_values := (es_values st2)[v := VThunk env e]\<rparr>)"
        "grows w2 st2 w2 (st2\<lparr>es_values := (es_values st2)[v := VThunk env e]\<rparr>)"
        using grows_LV [OF w2(2) v] not_link_grows [OF w2(2) st1(1) v nl] expr_ok_grows [OF w2(2) st1(1) x]
        by (intro heap_write [OF w2(1)]; simp add: expr_ok_def)+
      show "\<exists>w'. heap_ok ar w' st' \<and> grows w st1 w' st' \<and> (case r of Inl e \<Rightarrow> proper e | Inr a \<Rightarrow> res ar a w' st')"
        using w2 undo grows_trans [OF w2(2) undo(2)] st' by (intro exI [of _ w2]) (auto split: sum.splits)
    qed
    note run = this
    have "safe ar w (writeValue v VBlackhole) st (\<lambda>_ w' st'. w' = w \<and> st' = st1)"
      by (rule safe_write [OF inv v nl]) (simp_all add: st1_def)
    then show ?thesis
      unfolding VThunk Value.case
      by (rule safe_bind) (auto intro!: safe_bind [OF run] writes nl intro: grows_trans [OF st1(2)])
  next
    case VBlackhole
    then show ?thesis using inv by (auto intro: safe_intros)
  next
    case (VApp l r)
    then have "v \<notin> LP w" "l \<in> LV w" "r \<in> LV w" using ok not_link [OF inv, of v] by (auto simp: whnf_def)
    then show ?thesis using VApp ops inv
      by (auto intro!: safe_bind [OF ops_safeD(2) [OF ops inv]] writes)
  qed (use inv in \<open>auto intro!: safe_ret simp: whnf_def\<close>)
  then show ?thesis unfolding forceCell_def using inv v by (intro safe_bind [OF safe_read]) auto
qed

lemma forceValue_safe [safe_intros]:
  assumes "ops_safe ar ops" "heap_ok ar w st" "lval_ok ar w st lv"
  shows "safe ar w (forceValue ops lv) st (res ar)"
proof (cases lv)
  case (Cell v)
  have "safe ar w (mbind (forceCell ops v) (\<lambda>_. readValue v)) st (res ar)"
    using assms Cell by (intro safe_bind [OF forceCell_safe] safe_read) (auto simp: res_def intro: grow_intros)
  then show ?thesis by (simp add: forceValue_def Cell)
next
  case (Temp x)
  then show ?thesis using assms
    by (cases x) (auto simp: forceValue_def expr_ok_def res_def whnf_def intro!: safe_ret safe_fail ops_safeD, blast)
qed

lemma force_safe [safe_intros]:
  assumes "ops_safe ar ops" "heap_ok ar w st" "lval_ok ar w st lv"
  shows "safe ar w (forceAttrs ops lv) st (\<lambda>bs w' st'. bs_ok w' bs)"
    and "safe ar w (forceList ops lv) st (\<lambda>vs w' st'. set vs \<subseteq> LV w')"
    and "safe ar w (forceInt ops lv) st any"
    and "safe ar w (forceFloat p ops lv) st any"
    and "safe ar w (forceBool ops lv) st any"
    and "safe ar w (forceString ops lv) st any"
    and "safe ar w (forceFunction ops lv) st (res ar)"
  unfolding forceAttrs_def forceList_def forceInt_def forceFloat_def forceBool_def forceString_def forceFunction_def
  by (rule safe_bind [OF forceValue_safe [OF assms]]; auto split: Value.split intro!: safe_ret safe_fail)+

lemma forceStringNoCtx_safe [safe_intros]:
  assumes "ops_safe ar ops" "heap_ok ar w st" "lval_ok ar w st lv"
  shows "safe ar w (forceStringNoCtx ops lv) st any"
  unfolding forceStringNoCtx_def by (rule safe_bind [OF force_safe(6) [OF assms]]) (auto intro!: safe_ret safe_fail)

section \<open>Filling environments\<close>

text \<open>
  Between the allocation of an environment and the moment all its slots are set, nothing is
  evaluated: cells are added, and only environments from \<open>n\<close> on are written to.
\<close>

definition quiet :: "nat \<Rightarrow> EvalState \<Rightarrow> EvalState \<Rightarrow> bool" where
  "quiet n st st' \<longleftrightarrow>
     length (es_values st) \<le> length (es_values st') \<and> (\<forall>v < length (es_values st). es_values st' ! v = es_values st ! v) \<and>
     length (es_envs st) \<le> length (es_envs st') \<and> (\<forall>e < n. es_envs st' ! e = es_envs st ! e) \<and> es_symbols st' = es_symbols st"

lemma quiet_refl [simp]: "quiet n st st"
  by (simp add: quiet_def)

lemma quiet_trans: "quiet n st st1 \<Longrightarrow> quiet n st1 st2 \<Longrightarrow> quiet n st st2"
  by (auto simp: quiet_def)

lemma quiet_heap:
  assumes "heap_ok ar w st" "quiet (length (es_envs st)) st st'"
  shows "heap_ok ar w st'" "grows w st w st'"
proof -
  show g: "grows w st w st'"
    unfolding grows_def
  proof (intro conjI ballI)
    fix l assume "l \<in> LP w"
    then have "l < length (es_values st)" using assms(1) by (auto simp: heap_part_def)
    then show "es_values st' ! l = es_values st ! l" using assms(2) by (simp add: quiet_def)
  next
    fix e assume "e \<in> LE w"
    then have "e < length (es_envs st)" using heap_LE [OF assms(1)] by simp
    then show "env_up (es_envs st' ! e) = env_up (es_envs st ! e)" "length (env_values (es_envs st' ! e)) = length (env_values (es_envs st ! e))"
      using assms(2) by (simp_all add: quiet_def)
  qed (use assms(2) in \<open>auto simp: quiet_def\<close>)
  show "heap_ok ar w st'"
    using assms value_ok_grows [OF g assms(1)] by (auto simp: heap_part_def quiet_def symbols_ok_def)
qed

definition builds :: "nat \<Rightarrow> (nat \<Rightarrow> nat option) \<Rightarrow> world \<Rightarrow> 'a ev \<Rightarrow> EvalState \<Rightarrow> eid set \<Rightarrow> ('a \<Rightarrow> world \<Rightarrow> EvalState \<Rightarrow> bool) \<Rightarrow> bool" where
  "builds n ar w m st I Q \<longleftrightarrow>
     (\<forall>r st'. m st = Some (r, st') \<longrightarrow> quiet n st st' \<and>
        (case r of
           Inl e \<Rightarrow> proper e
         | Inr a \<Rightarrow> (\<exists>w'. heap_part ar w' I st' \<and> grows w st w' st' \<and> Q a w' st')))"

lemma builds_ret: "heap_part ar w I st \<Longrightarrow> Q a w st \<Longrightarrow> builds n ar w (mret a) st I Q"
  by (auto simp: builds_def intro!: exI [of _ w])

lemma builds_fail: "proper e \<Longrightarrow> builds n ar w (mfail e) st I Q"
  by (auto simp: builds_def)

lemma builds_bind:
  assumes "builds n ar w m st I Q'" "\<And>a w1 st1. heap_part ar w1 I st1 \<Longrightarrow> grows w st w1 st1 \<Longrightarrow> Q' a w1 st1 \<Longrightarrow> builds n ar w1 (f a) st1 I' Q"
  shows "builds n ar w (mbind m f) st I' Q"
  unfolding builds_def
proof (intro allI impI)
  fix r st'
  assume "mbind m f st = Some (r, st')"
  then consider (err) e where "m st = Some (Inl e, st')" "r = Inl e" | (ok) a st1 where "m st = Some (Inr a, st1)" "f a st1 = Some (r, st')"
    by (auto simp: mbind_Some)
  then show "quiet n st st' \<and> (case r of Inl e \<Rightarrow> proper e | Inr a \<Rightarrow> (\<exists>w'. heap_part ar w' I' st' \<and> grows w st w' st' \<and> Q a w' st'))"
  proof cases
    case err
    with assms(1) show ?thesis by (auto simp: builds_def)
  next
    case ok
    with assms(1) obtain w1 where w1: "heap_part ar w1 I st1" "grows w st w1 st1" "Q' a w1 st1" "quiet n st st1" by (auto simp: builds_def)
    with assms(2) [OF w1(1-3)] ok(2) have "quiet n st1 st'"
      "case r of Inl e \<Rightarrow> proper e | Inr a \<Rightarrow> (\<exists>w'. heap_part ar w' I' st' \<and> grows w1 st1 w' st' \<and> Q a w' st')"
      by (auto simp: builds_def)
    with w1 show ?thesis by (auto split: sum.splits intro: grows_trans quiet_trans)
  qed
qed

lemma builds_safe:
  assumes "builds (length (es_envs st)) ar w m st {} Q" "heap_ok ar w st"
  shows "safe ar w m st Q"
  unfolding safe_def
proof (intro allI impI)
  fix r st'
  assume "m st = Some (r, st')"
  with assms(1) have "quiet (length (es_envs st)) st st'"
    "case r of Inl e \<Rightarrow> proper e | Inr a \<Rightarrow> (\<exists>w'. heap_ok ar w' st' \<and> grows w st w' st' \<and> Q a w' st')" by (auto simp: builds_def)
  with quiet_heap [OF assms(2)] show "\<exists>w'. heap_ok ar w' st' \<and> grows w st w' st' \<and> (case r of Inl e \<Rightarrow> proper e | Inr a \<Rightarrow> Q a w' st')"
    by (cases r) auto
qed

lemma env_shape_LE:
  assumes "heap_part ar w I st" "e \<in> LE w"
  shows "env_shape (es_envs st) e =
    length (env_values (es_envs st ! e)) # (case env_up (es_envs st ! e) of Some u \<Rightarrow> env_shape (es_envs st) u | None \<Rightarrow> [])"
  using heap_LE [OF assms] by (subst env_shape.simps) (auto simp: env_ok_def split: option.splits)

lemma env_walk_ok:
  assumes "heap_part ar w I st" "e \<in> LE w" "l < length (env_shape (es_envs st) e)"
  shows "\<exists>e'. env_walk l e st = Some (Inr e', st) \<and> e' \<in> LE w \<and> env_shape (es_envs st) e' = drop l (env_shape (es_envs st) e)"
  using assms(2, 3)
proof (induction l arbitrary: e)
  case (Suc l)
  note sh = env_shape_LE [OF assms(1) Suc.prems(1)] and e = heap_LE [OF assms(1) Suc.prems(1)]
  with Suc.prems obtain u where u: "env_up (es_envs st ! e) = Some u" by (cases "env_up (es_envs st ! e)") auto
  with e have "u \<in> LE w" by (simp add: env_ok_def)
  with Suc.IH [of u] Suc.prems sh u e show ?case by auto
qed simp

lemma readSlot_ok:
  assumes "heap_part ar w I st" "e \<in> LE w" "d < hd (env_shape (es_envs st) e)"
  shows "\<exists>s. readSlot e d st = Some (Inr s, st) \<and> (case s of Some v \<Rightarrow> v \<in> LV w | None \<Rightarrow> e \<in> I)"
proof -
  have d: "d < length (env_values (es_envs st ! e))" using assms(3) env_shape_LE [OF assms(1, 2)] by simp
  have "env_values (es_envs st ! e) ! d \<in> Some ` LV w \<union> (if e \<in> I then {None} else {})"
    using heap_LE [OF assms(1, 2)] nth_mem [OF d] unfolding env_ok_def by blast
  with heap_LE [OF assms(1, 2)] d show ?thesis
    by (auto simp: readSlot_def split: option.splits if_splits)
qed

lemma drop_hd: "l < length xs \<Longrightarrow> hd (drop l xs) = xs ! l"
  by (simp add: hd_drop_conv_nth)

lemma lookupSlot_ok:
  assumes "heap_part ar w I st" "env \<in> LE w" "ref_ok (env_shape (es_envs st) env) r"
  shows "\<exists>s. lookupSlot env r st = Some (Inr s, st) \<and> (\<forall>v. s = Some v \<longrightarrow> v \<in> LV w) \<and> (I = {} \<longrightarrow> (\<exists>l d. r = Static l d) \<longrightarrow> s \<noteq> None)"
proof (cases r)
  case (Static l d)
  then obtain e where e: "env_walk l env st = Some (Inr e, st)" "e \<in> LE w" "env_shape (es_envs st) e = drop l (env_shape (es_envs st) env)"
    using env_walk_ok [OF assms(1, 2)] assms(3) by auto
  then have "d < hd (env_shape (es_envs st) e)" using assms(3) Static by (simp add: drop_hd)
  from readSlot_ok [OF assms(1) e(2) this] e(1) Static show ?thesis
    by (auto simp: lookupSlot_def mbind_def split: option.splits)
next
  case (FromWith l wr)
  with env_walk_ok [OF assms(1, 2), of l] assms(3) show ?thesis by (auto simp: lookupSlot_def mbind_def)
qed (use assms in simp)

lemma alloc_builds:
  assumes "heap_part ar w I st" "value_ok ar w st v"
  shows "builds n ar w (allocValue v) st I (\<lambda>i w' st'. i \<in> LV w' \<and> es_envs st' = es_envs st)"
  using heap_alloc [OF assms] grows_alloc [OF assms(1)] by (auto simp: builds_def allocValue_def quiet_def nth_append)

lemma maybeThunk_builds:
  assumes "heap_part ar w I st" "expr_ok w st env e"
  shows "builds n ar w (maybeThunk env e) st I (\<lambda>v w' st'. v \<in> LV w' \<and> es_envs st' = es_envs st)"
proof -
  have thunk: "builds n ar w (allocValue (VThunk env e)) st I (\<lambda>v w' st'. v \<in> LV w' \<and> es_envs st' = es_envs st)"
    using assms by (intro alloc_builds) (auto simp: expr_ok_def)
  have look: "builds n ar w (mbind (lookupSlot env r) (\<lambda>s. case s of Some v \<Rightarrow> mret v | None \<Rightarrow> allocValue (VThunk env e))) st I
      (\<lambda>v w' st'. v \<in> LV w' \<and> es_envs st' = es_envs st)"
    if ref: "ref_ok (env_shape (es_envs st) env) r" for r
  proof -
    from lookupSlot_ok [OF assms(1) _ ref] assms(2) obtain s where
      s: "lookupSlot env r st = Some (Inr s, st)" "\<forall>v. s = Some v \<longrightarrow> v \<in> LV w" by (auto simp: expr_ok_def)
    then have "builds n ar w (lookupSlot env r) st I (\<lambda>s' w' st'. s' = s \<and> w' = w \<and> st' = st)"
      using assms(1) by (auto simp: builds_def)
    then show ?thesis
      by (rule builds_bind) (use s assms(1) thunk in \<open>auto split: option.split intro: builds_ret\<close>)
  qed
  show ?thesis
  proof (cases e)
    case (ExprInheritFrom d)
    then have "ref_ok (env_shape (es_envs st) env) (Static 0 d)"
      using assms(2) by (auto simp: expr_ok_def hd_conv_nth)
    from look [OF this, unfolded ExprInheritFrom] show ?thesis by (simp add: maybeThunk_def ExprInheritFrom)
  next
    case (ExprList es)
    then show ?thesis using thunk assms(1) by (cases es) (auto simp: maybeThunk_def intro!: alloc_builds)
  qed (use assms look thunk in \<open>auto simp: maybeThunk_def expr_ok_def intro!: alloc_builds\<close>)
qed

text \<open>An environment of which the first \<open>k\<close> slots are set.\<close>

definition filled :: "EvalState \<Rightarrow> eid \<Rightarrow> nat \<Rightarrow> nat \<Rightarrow> bool" where
  "filled st e k m \<longleftrightarrow> e < length (es_envs st) \<and> length (env_values (es_envs st ! e)) = m \<and> (\<forall>d < k. env_values (es_envs st ! e) ! d \<noteq> None)"

lemma allocEnv_builds:
  assumes "heap_part ar w I st" "up \<in> LE w" "n \<le> length (es_envs st)"
  shows "builds n ar w (allocEnv m up) st (insert (length (es_envs st)) I)
    (\<lambda>e w' st'. e = length (es_envs st) \<and> e \<in> LE w' \<and> filled st' e 0 m \<and> env_shape (es_envs st') e = m # env_shape (es_envs st) up \<and>
      (\<forall>e k m. filled st e k m \<longrightarrow> filled st' e k m))"
proof -
  let ?e = "length (es_envs st)"
  let ?w = "w\<lparr>LE := insert ?e (LE w)\<rparr>" and ?st = "st\<lparr>es_envs := es_envs st @ [\<lparr>env_up = Some up, env_values = replicate m None\<rparr>]\<rparr>"
  have g: "grows w st ?w ?st" using heap_LE [OF assms(1)] by (auto simp: grows_def nth_append)
  have "heap_part ar ?w (insert ?e I) ?st"
    unfolding heap_part_def
  proof (intro conjI ballI)
    fix e assume "e \<in> LE ?w"
    then consider "e = ?e" | "e \<in> LE w" by auto
    then show "e < length (es_envs ?st)" "env_ok ?w (insert ?e I) e (es_envs ?st ! e)"
      using heap_LE [OF assms(1), of e] heap_LE [OF assms(1, 2)] assms(2)
      by (cases; auto simp: env_ok_def nth_append split: option.splits if_splits)+
  next
    fix v assume "v \<in> LV ?w"
    then show "v < length (es_values ?st)" "value_ok ar ?w ?st (es_values ?st ! v)"
      using heap_LV [OF assms(1), of v] value_ok_grows [OF g assms(1)] by auto
  qed (use assms(1) in \<open>auto simp: heap_part_def\<close>)
  moreover have "env_shape (es_envs ?st) ?e = m # env_shape (es_envs st) up"
    using grows_shape [OF g assms(1, 2)] heap_LE [OF assms(1, 2)] by (subst env_shape.simps) simp
  ultimately show ?thesis using g assms(3)
    by (auto simp: builds_def allocEnv_def quiet_def nth_append filled_def intro!: exI [of _ ?w])
qed

lemma writeSlot_builds:
  assumes "heap_part ar w I st" "e \<in> I" "e \<in> LE w" "n \<le> e" "v \<in> LV w" "filled st e d m" "d < m"
  shows "builds n ar w (writeSlot e d v) st I (\<lambda>_ w' st'. w' = w \<and> filled st' e (Suc d) m \<and>
    (\<forall>e' k m. e' \<noteq> e \<longrightarrow> filled st' e' k m = filled st e' k m))"
proof -
  let ?env = "es_envs st ! e"
  let ?st = "st\<lparr>es_envs := (es_envs st)[e := ?env\<lparr>env_values := (env_values ?env)[d := Some v]\<rparr>]\<rparr>"
  have e: "e < length (es_envs st)" "env_ok w I e ?env" using heap_LE [OF assms(1, 3)] by auto
  have g: "grows w st w ?st" using e by (auto simp: grows_def nth_list_update)
  have "heap_part ar w I ?st"
    unfolding heap_part_def
  proof (intro conjI ballI)
    fix e' assume e': "e' \<in> LE w"
    then show "e' < length (es_envs ?st)" using heap_LE [OF assms(1)] by simp
    show "env_ok w I e' (es_envs ?st ! e')"
      using heap_LE [OF assms(1) e'] e assms(2, 5) set_update_subset_insert [of "env_values ?env" d "Some v"]
      by (cases "e' = e") (auto simp: env_ok_def split: option.splits if_splits)
  next
    fix x assume "x \<in> LV w"
    then show "x < length (es_values ?st)" "value_ok ar w ?st (es_values ?st ! x)"
      using heap_LV [OF assms(1), of x] value_ok_grows [OF g assms(1)] by auto
  qed (use assms(1) in \<open>auto simp: heap_part_def\<close>)
  moreover have "quiet n st ?st" using assms(4) by (auto simp: quiet_def)
  moreover have "filled ?st e (Suc d) m" using assms(6, 7) e by (auto simp: filled_def nth_list_update)
  moreover have "filled ?st e' k m' = filled st e' k m'" if "e' \<noteq> e" for e' k m' using that by (auto simp: filled_def)
  ultimately show ?thesis using g e assms(6, 7) by (auto simp: builds_def writeSlot_def filled_def)
qed

lemma filled_done:
  assumes "heap_part ar w (insert e I) st" "filled st e m m"
  shows "heap_part ar w I st"
proof -
  have none: "None \<notin> set (env_values (es_envs st ! e))" using assms(2) by (auto simp: filled_def in_set_conv_nth)
  have "env_ok w I x (es_envs st ! x)" if "x \<in> LE w" for x
  proof (cases "x = e")
    case True
    with heap_LE [OF assms(1) that] none show ?thesis by (auto simp: env_ok_def split: if_splits)
  next
    case False
    with heap_LE [OF assms(1) that] show ?thesis by (simp add: env_ok_def)
  qed
  with assms(1) show ?thesis by (auto simp: heap_part_def)
qed

lemma filled_envs: "es_envs st' = es_envs st \<Longrightarrow> filled st' = filled st"
  by (simp add: filled_def fun_eq_iff)

lemma builds_mono:
  assumes "builds n ar w m st I Q'" "\<And>a w' st'. heap_part ar w' I st' \<Longrightarrow> grows w st w' st' \<Longrightarrow> Q' a w' st' \<Longrightarrow> heap_part ar w' I' st' \<and> Q a w' st'"
  shows "builds n ar w m st I' Q"
  using assms unfolding builds_def by (fastforce split: sum.splits)

lemma fill_inherit_builds:
  assumes "heap_part ar w I st" "inh \<in> I" "inh \<in> LE w" "n \<le> inh" "filled st inh displ m" "displ + length es = m"
    and "\<And>e. e \<in> set es \<Longrightarrow> expr_ok w st up e"
  shows "builds n ar w (fill_inherit inh up displ es) st I (\<lambda>_ w' st'. filled st' inh m m \<and> (\<forall>e' k m. e' \<noteq> inh \<longrightarrow> filled st' e' k m = filled st e' k m))"
  using assms
proof (induction es arbitrary: w st displ)
  case Nil
  then show ?case unfolding fill_inherit.simps by (intro builds_ret) auto
next
  case (Cons e es)
  show ?case
    unfolding fill_inherit.simps
  proof (rule builds_bind [OF maybeThunk_builds [OF Cons.prems(1)]])
    show "expr_ok w st up e" using Cons.prems(7) by simp
    fix v w1 st1
    assume 1: "heap_part ar w1 I st1" "grows w st w1 st1" "v \<in> LV w1 \<and> es_envs st1 = es_envs st"
    then have f1: "filled st1 = filled st" by (intro filled_envs) simp
    show "builds n ar w1 (mbind (writeSlot inh displ v) (\<lambda>_. fill_inherit inh up (displ + 1) es)) st1 I
      (\<lambda>_ w' st'. filled st' inh m m \<and> (\<forall>e' k m. e' \<noteq> inh \<longrightarrow> filled st' e' k m = filled st e' k m))"
    proof (rule builds_bind [OF writeSlot_builds [OF 1(1) Cons.prems(2)]])
      show "inh \<in> LE w1" "n \<le> inh" "v \<in> LV w1" "filled st1 inh displ m" "displ < m"
        using Cons.prems 1 f1 by (auto intro: grow_intros)
      fix x w2 st2
      assume 2: "heap_part ar w2 I st2" "grows w1 st1 w2 st2"
        "w2 = w1 \<and> filled st2 inh (Suc displ) m \<and> (\<forall>e' k m. e' \<noteq> inh \<longrightarrow> filled st2 e' k m = filled st1 e' k m)"
      have "expr_ok w2 st2 up e" if "e \<in> set es" for e
        using that Cons.prems(1, 7) 1(1, 2) 2(2) by (meson expr_ok_grows list.set_intros(2))
      with Cons.IH [of w2 st2 "displ + 1"] Cons.prems 1 2 f1
      show "builds n ar w2 (fill_inherit inh up (displ + 1) es) st2 I
        (\<lambda>_ w' st'. filled st' inh m m \<and> (\<forall>e' k m. e' \<noteq> inh \<longrightarrow> filled st' e' k m = filled st e' k m))"
        by (auto intro: grow_intros)
    qed
  qed
qed

lemma buildInheritFromEnv_builds:
  assumes "heap_part ar w I st" "up \<in> LE w" "n \<le> length (es_envs st)"
    and "case froms of None \<Rightarrow> True | Some fs \<Rightarrow> list_all (well_bound (env_shape (es_envs st) up)) fs"
  shows "builds n ar w (buildInheritFromEnv up froms) st I (\<lambda>r w' st'.
    (case r of None \<Rightarrow> froms = None | Some e \<Rightarrow> froms \<noteq> None \<and> e \<in> LE w' \<and> env_shape (es_envs st') e = from_count froms # env_shape (es_envs st) up) \<and>
    (\<forall>e k m. filled st e k m \<longrightarrow> filled st' e k m))"
proof (cases froms)
  case None
  then show ?thesis using assms(1) by (auto simp: buildInheritFromEnv_def intro: builds_ret)
next
  case (Some es)
  let ?inh = "length (es_envs st)"
  show ?thesis
    unfolding buildInheritFromEnv_def Some option.case
  proof (rule builds_bind [OF allocEnv_builds [OF assms(1-3)]])
    fix inh w1 st1
    assume 1: "heap_part ar w1 (insert ?inh I) st1" "grows w st w1 st1"
      "inh = ?inh \<and> inh \<in> LE w1 \<and> filled st1 inh 0 (length es) \<and> env_shape (es_envs st1) inh = length es # env_shape (es_envs st) up \<and>
       (\<forall>e k m. filled st e k m \<longrightarrow> filled st1 e k m)"
    have exprs: "expr_ok w1 st1 up e" if "e \<in> set es" for e
      using that assms(4) Some by (intro expr_ok_grows [OF 1(2) assms(1)]) (auto simp: expr_ok_def assms(2) list_all_iff)
    have keep: "filled st' e k m" if "filled st e k m" "\<forall>e' k m. e' \<noteq> inh \<longrightarrow> filled st' e' k m = filled st1 e' k m" for st' e k m
      using that 1(3) by (metis filled_def less_irrefl_nat)
    have "builds n ar w1 (fill_inherit inh up 0 es) st1 I (\<lambda>_ w' st'. grows w1 st1 w' st' \<and> (\<forall>e k m. filled st e k m \<longrightarrow> filled st' e k m))"
      by (rule builds_mono [OF fill_inherit_builds [OF 1(1), of inh n 0 "length es" es up]])
        (use 1 exprs assms(3) keep in \<open>auto intro: filled_done\<close>)
    then show "builds n ar w1 (mbind (fill_inherit inh up 0 es) (\<lambda>_. mret (Some inh))) st1 I (\<lambda>r w' st'.
      (case r of None \<Rightarrow> Some es = None | Some e \<Rightarrow> Some es \<noteq> None \<and> e \<in> LE w' \<and>
         env_shape (es_envs st') e = from_count (Some es) # env_shape (es_envs st) up) \<and>
      (\<forall>e k m. filled st e k m \<longrightarrow> filled st' e k m))"
      by (rule builds_bind) (use 1 grows_shape [OF _ 1(1), of _ _ inh] in \<open>auto intro!: builds_ret simp: from_count_def intro: grow_intros\<close>)
  qed
qed

text \<open>The environment in which the value of an attribute is delayed, and that its expression fits there.\<close>

definition attr_ok :: "world \<Rightarrow> EvalState \<Rightarrow> eid \<Rightarrow> eid \<Rightarrow> eid option \<Rightarrow> AttrKind \<Rightarrow> Expr \<Rightarrow> bool" where
  "attr_ok w st plain inherited inheritEnv kind e \<longleftrightarrow>
     (\<exists>env. chooseByKind kind (Some plain) (Some inherited) inheritEnv = Some env \<and> expr_ok w st env e)"

lemma attr_ok_grows: "grows w st w' st' \<Longrightarrow> heap_part ar w I st \<Longrightarrow> attr_ok w st a b c k e \<Longrightarrow> attr_ok w' st' a b c k e"
  by (auto simp: attr_ok_def intro: grow_intros)

lemma bind_attrs_builds:
  assumes "heap_part ar w I st" "\<And>name kind e. (name, kind, e) \<in> set attrs \<Longrightarrow> attr_ok w st plain inherited inheritEnv kind e"
    and "\<And>env2. slots = Some env2 \<Longrightarrow> env2 \<in> I \<and> env2 \<in> LE w \<and> n \<le> env2 \<and> filled st env2 displ m \<and> displ + length attrs = m"
  shows "builds n ar w (bind_attrs slots thunks plain inherited inheritEnv displ attrs) st I
    (\<lambda>bs w' st'. map fst bs = map fst attrs \<and> snd ` set bs \<subseteq> LV w' \<and> (\<forall>env2. slots = Some env2 \<longrightarrow> filled st' env2 m m))"
  using assms
proof (induction attrs arbitrary: w st displ)
  case Nil
  then show ?case unfolding bind_attrs.simps by (intro builds_ret) auto
next
  case (Cons x attrs)
  obtain name kind e where x: "x = (name, kind, e)" by (cases x)
  obtain env where env: "chooseByKind kind (Some plain) (Some inherited) inheritEnv = Some env" "expr_ok w st env e"
    using Cons.prems(2) [of name kind e] by (auto simp: x attr_ok_def)
  let ?Q = "\<lambda>bs w' st'. map fst bs = map fst (x # attrs) \<and> snd ` set bs \<subseteq> LV w' \<and> (\<forall>env2. slots = Some env2 \<longrightarrow> filled st' env2 m m)"
  have cell: "builds n ar w (if thunks \<and> kind \<noteq> Inherited then allocValue (VThunk env e) else maybeThunk env e) st I
    (\<lambda>v w' st'. v \<in> LV w' \<and> es_envs st' = es_envs st)"
    using maybeThunk_builds [OF Cons.prems(1) env(2)] alloc_builds [OF Cons.prems(1), of "VThunk env e"] env(2)
    by (auto simp: expr_ok_def)
  have slot: "builds n ar w1 (case slots of None \<Rightarrow> mret () | Some env2 \<Rightarrow> writeSlot env2 displ v) st1 I
      (\<lambda>_ w' st'. v \<in> LV w' \<and> (\<forall>env2. slots = Some env2 \<longrightarrow> filled st' env2 (Suc displ) m))"
    if "heap_part ar w1 I st1" "grows w st w1 st1" "v \<in> LV w1 \<and> es_envs st1 = es_envs st" for v w1 st1
  proof (cases slots)
    case None
    then show ?thesis using that by (auto intro: builds_ret)
  next
    case (Some env2)
    note p = Cons.prems(3) [OF Some]
    have "filled st1 env2 displ m" using p filled_envs [of st1 st] that(3) by simp
    then have "builds n ar w1 (writeSlot env2 displ v) st1 I (\<lambda>_ w' st'. w' = w1 \<and> filled st' env2 (Suc displ) m \<and>
        (\<forall>e' k m. e' \<noteq> env2 \<longrightarrow> filled st' e' k m = filled st1 e' k m))"
      using that p by (intro writeSlot_builds) (auto intro: grow_intros)
    then show ?thesis unfolding Some option.case by (rule builds_mono) (use that(3) in auto)
  qed
  have rest: "builds n ar w2 (mbind (bind_attrs slots thunks plain inherited inheritEnv (displ + 1) attrs) (\<lambda>bs. mret ((name, v) # bs))) st2 I ?Q"
    if 2: "heap_part ar w2 I st2" "grows w st w2 st2" "v \<in> LV w2" "\<forall>env2. slots = Some env2 \<longrightarrow> filled st2 env2 (Suc displ) m" for v w2 st2
  proof (rule builds_bind [OF Cons.IH [OF 2(1), of "displ + 1"]])
    show "attr_ok w2 st2 plain inherited inheritEnv kind' e'" if "(name', kind', e') \<in> set attrs" for name' kind' e'
      using that Cons.prems(2) by (intro attr_ok_grows [OF 2(2) Cons.prems(1)]) auto
    show "env2 \<in> I \<and> env2 \<in> LE w2 \<and> n \<le> env2 \<and> filled st2 env2 (displ + 1) m \<and> displ + 1 + length attrs = m" if "slots = Some env2" for env2
      using that Cons.prems(3) 2 by (auto intro: grow_intros)
    fix bs w3 st3
    assume 3: "heap_part ar w3 I st3" "grows w2 st2 w3 st3"
      "map fst bs = map fst attrs \<and> snd ` set bs \<subseteq> LV w3 \<and> (\<forall>env2. slots = Some env2 \<longrightarrow> filled st3 env2 m m)"
    have "v \<in> LV w3" using 2(3) 3(2) by (rule grows_LV [rotated])
    with 3 x show "builds n ar w3 (mret ((name, v) # bs)) st3 I ?Q" by (intro builds_ret) simp_all
  qed
  show ?case
    unfolding x bind_attrs.simps env(1) option.case
    by (rule builds_bind [OF cell], rule builds_bind [OF slot]) (use rest x in \<open>auto intro: grows_trans\<close>)
qed

lemma bs_ok_of: "map fst bs = map fst attrs \<Longrightarrow> omap_ok attrs \<Longrightarrow> snd ` set bs \<subseteq> LV w \<Longrightarrow> bs_ok w bs"
  by (simp add: bs_ok_def)

lemma attrs_ok_shape:
  assumes "list_all (\<lambda>(name, kind, e). (kind = InheritedFrom \<longrightarrow> froms \<noteq> None) \<and> well_bound (chooseByKind kind sh' sh (from_count froms # sh')) e) attrs"
    and "plain \<in> LE w" "inherited \<in> LE w" "env_shape (es_envs st) plain = sh'" "env_shape (es_envs st) inherited = sh"
    and "case inheritEnv of None \<Rightarrow> froms = None | Some e \<Rightarrow> froms \<noteq> None \<and> e \<in> LE w \<and> env_shape (es_envs st) e = from_count froms # sh'"
    and "(name, kind, e) \<in> set attrs"
  shows "attr_ok w st plain inherited inheritEnv kind e"
  using assms by (cases kind; cases inheritEnv) (auto simp: attr_ok_def chooseByKind_def expr_ok_def list_all_iff)

text \<open>The part that let and rec share: a new environment with the attributes.\<close>

definition rec_scope :: "bool \<Rightarrow> eid \<Rightarrow> AttrDefs \<Rightarrow> Expr list option \<Rightarrow> (eid \<times> Bindings) ev" where
  "rec_scope thunks env attrs froms =
     mbind (allocEnv (length attrs) env) (\<lambda>env2.
     mbind (buildInheritFromEnv env2 froms) (\<lambda>inheritEnv.
     mbind (bind_attrs (Some env2) thunks env2 env inheritEnv 0 attrs) (\<lambda>bs. mret (env2, bs))))"

definition scope_ok :: "nat list \<Rightarrow> nat list \<Rightarrow> AttrDefs \<Rightarrow> Expr list option \<Rightarrow> bool" where
  "scope_ok sh sh' attrs froms \<longleftrightarrow>
     omap_ok attrs \<and> (case froms of None \<Rightarrow> True | Some fs \<Rightarrow> list_all (well_bound sh') fs) \<and>
     list_all (\<lambda>(name, kind, e). (kind = InheritedFrom \<longrightarrow> froms \<noteq> None) \<and> well_bound (chooseByKind kind sh' sh (from_count froms # sh')) e) attrs"

lemma rec_scope_builds:
  assumes heap: "heap_ok ar w st" and env: "env \<in> LE w" and sh: "env_shape (es_envs st) env = sh" and scope: "scope_ok sh (length attrs # sh) attrs froms"
  shows "builds (length (es_envs st)) ar w (rec_scope thunks env attrs froms) st {} (\<lambda>r w' st'.
    fst r \<in> LE w' \<and> env_shape (es_envs st') (fst r) = length attrs # sh \<and> map fst (snd r) = map fst attrs \<and> snd ` set (snd r) \<subseteq> LV w')"
  (is "builds ?n _ _ _ _ _ ?Q")
  unfolding rec_scope_def
proof (rule builds_bind [OF allocEnv_builds [OF heap env order.refl]])
  fix env2 w1 st1
  assume 1: "heap_part ar w1 {?n} st1" "grows w st w1 st1"
    "env2 = ?n \<and> env2 \<in> LE w1 \<and> filled st1 env2 0 (length attrs) \<and> env_shape (es_envs st1) env2 = length attrs # env_shape (es_envs st) env \<and>
      (\<forall>e k m. filled st e k m \<longrightarrow> filled st1 e k m)"
  have len: "?n \<le> length (es_envs st1)" using 1(2) by (simp add: grows_def)
  have fr: "case froms of None \<Rightarrow> True | Some fs \<Rightarrow> list_all (well_bound (env_shape (es_envs st1) env2)) fs"
    using 1(3) scope sh by (auto simp: scope_ok_def split: option.splits)
  show "builds ?n ar w1 (mbind (buildInheritFromEnv env2 froms) (\<lambda>inheritEnv.
      mbind (bind_attrs (Some env2) thunks env2 env inheritEnv 0 attrs) (\<lambda>bs. mret (env2, bs)))) st1 {} ?Q"
  proof (rule builds_bind [OF buildInheritFromEnv_builds [OF 1(1) _ len fr]])
    show "env2 \<in> LE w1" using 1(3) by blast
    fix inh w2 st2
    assume 2: "heap_part ar w2 {?n} st2" "grows w1 st1 w2 st2"
      "(case inh of None \<Rightarrow> froms = None | Some e \<Rightarrow> froms \<noteq> None \<and> e \<in> LE w2 \<and>
          env_shape (es_envs st2) e = from_count froms # env_shape (es_envs st1) env2) \<and>
       (\<forall>e k m. filled st1 e k m \<longrightarrow> filled st2 e k m)"
    have env2: "env2 \<in> LE w2" "env_shape (es_envs st2) env2 = length attrs # sh" "filled st2 env2 0 (length attrs)"
      using 1(3) 2 grows_shape [OF 2(2) 1(1)] sh by (auto intro: grow_intros)
    have env': "env \<in> LE w2" "env_shape (es_envs st2) env = sh"
      using env sh grows_trans [OF 1(2) 2(2)] grows_shape [OF _ heap env] by (auto intro: grow_intros)
    have attrs: "attr_ok w2 st2 env2 env inh kind e" if "(name, kind, e) \<in> set attrs" for name kind e
      by (rule attrs_ok_shape [OF _ env2(1) env'(1) env2(2) env'(2) _ that, where froms = froms])
        (use scope 1(3) 2(3) sh in \<open>auto simp: scope_ok_def split: option.splits\<close>)
    have "builds ?n ar w2 (bind_attrs (Some env2) thunks env2 env inh 0 attrs) st2 {}
      (\<lambda>bs w' st'. map fst bs = map fst attrs \<and> snd ` set bs \<subseteq> LV w' \<and> grows w2 st2 w' st')"
      by (rule builds_mono [OF bind_attrs_builds [OF 2(1) attrs, where slots = "Some env2" and m = "length attrs" and displ = 0]])
        (use 1(3) env2 in \<open>auto intro: filled_done\<close>)
    then show "builds ?n ar w2 (mbind (bind_attrs (Some env2) thunks env2 env inh 0 attrs) (\<lambda>bs. mret (env2, bs))) st2 {} ?Q"
    proof (rule builds_bind)
      fix bs w3 st3
      assume 3: "heap_part ar w3 {} st3" "grows w2 st2 w3 st3" "map fst bs = map fst attrs \<and> snd ` set bs \<subseteq> LV w3 \<and> grows w2 st2 w3 st3"
      with grows_shape [OF 3(2) 2(1) env2(1)] grows_LE [OF 3(2) env2(1)] env2(2)
      show "builds ?n ar w3 (mret (env2, bs)) st3 {} ?Q" by (intro builds_ret) simp_all
    qed
  qed
qed

lemma ExprLet_safe:
  assumes "ops_safe ar ops" "heap_ok ar w st" "expr_ok w st env (ExprLet attrs froms body)"
  shows "safe ar w (ExprLet_eval ops env attrs froms body) st (res ar)"
proof -
  have "ExprLet_eval ops env attrs froms body = mbind (rec_scope False env attrs froms) (\<lambda>r. o_eval ops (fst r) body)"
    by (simp add: ExprLet_eval_def rec_scope_def mbind_assoc)
  moreover have "safe ar w (rec_scope False env attrs froms) st (\<lambda>r w' st'. expr_ok w' st' (fst r) body)"
    using assms(2, 3)
    by (intro safe_mono [OF builds_safe [OF rec_scope_builds [OF assms(2) _ refl]]]) (auto simp: expr_ok_def scope_ok_def Let_def)
  ultimately show ?thesis using assms(1) by (auto intro!: safe_bind ops_safeD)
qed

section \<open>Attribute sets\<close>

text \<open>Writing to a slot of an environment that is complete.\<close>

lemma writeSlot_safe:
  assumes "heap_ok ar w st" "e \<in> LE w" "d < hd (env_shape (es_envs st) e)" "v \<in> LV w"
  shows "safe ar w (writeSlot e d v) st (\<lambda>_ w' st'. w' = w)"
proof -
  let ?env = "es_envs st ! e"
  let ?st = "st\<lparr>es_envs := (es_envs st)[e := ?env\<lparr>env_values := (env_values ?env)[d := Some v]\<rparr>]\<rparr>"
  have e: "e < length (es_envs st)" "env_ok w {} e ?env" using heap_LE [OF assms(1, 2)] by auto
  have d: "d < length (env_values ?env)" using assms(3) env_shape_LE [OF assms(1, 2)] by simp
  have g: "grows w st w ?st" using e by (auto simp: grows_def nth_list_update)
  have "heap_ok ar w ?st"
    unfolding heap_part_def
  proof (intro conjI ballI)
    fix e' assume e': "e' \<in> LE w"
    then show "e' < length (es_envs ?st)" using heap_LE [OF assms(1)] by simp
    show "env_ok w {} e' (es_envs ?st ! e')"
      using heap_LE [OF assms(1) e'] e assms(4) set_update_subset_insert [of "env_values ?env" d "Some v"]
      by (cases "e' = e") (auto simp: env_ok_def split: option.splits)
  next
    fix x assume "x \<in> LV w"
    then show "x < length (es_values ?st)" "value_ok ar w ?st (es_values ?st ! x)"
      using heap_LV [OF assms(1), of x] value_ok_grows [OF g assms(1)] by auto
  qed (use assms(1) in \<open>auto simp: heap_part_def\<close>)
  with g e d show ?thesis by (auto simp: safe_def writeSlot_def)
qed

text \<open>The attributes collected so far: the names are distinct, and sorted unless a sort is due.\<close>

definition bs_pre :: "world \<Rightarrow> Bindings \<Rightarrow> bool \<Rightarrow> bool" where
  "bs_pre w bs srt \<longleftrightarrow> distinct (map fst bs) \<and> snd ` set bs \<subseteq> LV w \<and> (\<not> srt \<longrightarrow> sorted (map fst bs))"

lemma bs_pre_grows: "grows w st w' st' \<Longrightarrow> bs_pre w bs srt \<Longrightarrow> bs_pre w' bs srt"
  by (auto simp: bs_pre_def grows_def)

lemma bs_pre_sort: "bs_pre w bs srt \<Longrightarrow> bs_ok w (if srt then Bindings_sort bs else bs)"
  by (auto simp: bs_pre_def bs_ok_def strict_sorted_iff Bindings_sort_def distinct_map)

lemma index_of_Some: "index_of x xs = Some i \<Longrightarrow> i < length xs \<and> xs ! i = x"
  by (induction xs arbitrary: i) (auto split: if_splits)

lemma index_of_None: "index_of x xs = None \<longleftrightarrow> x \<notin> set xs"
  by (induction xs) auto

lemma override_loop_safe:
  assumes "heap_ok ar w st" "env2 \<in> LE w" "length attrs \<le> hd (env_shape (es_envs st) env2)" "snd ` set os \<subseteq> LV w" "distinct (map fst os)"
    and "map fst bindings = map fst attrs @ extra" "snd ` set bindings \<subseteq> LV w" "distinct (map fst attrs @ extra)" "fst ` set os \<inter> set extra = {}"
  shows "safe ar w (override_loop env2 attrs os bindings) st (\<lambda>bs w' st'. w' = w \<and> bs_pre w bs True)"
  using assms
proof (induction os arbitrary: st bindings extra)
  case Nil
  then show ?case unfolding override_loop.simps by (intro safe_ret) (auto simp: bs_pre_def)
next
  case (Cons x os)
  obtain name v where x: "x = (name, v)" by (cases x)
  have v: "v \<in> LV w" using Cons.prems(4) x by auto
  show ?case
  proof (cases "index_of name (map fst attrs)")
    case None
    then have "name \<notin> set (map fst attrs)" by (simp add: index_of_None)
    with Cons.IH [OF Cons.prems(1-3), of "bindings @ [(name, v)]" "extra @ [name]"] Cons.prems x v None show ?thesis
      by auto
  next
    case (Some j)
    then have j: "j < length attrs" "map fst attrs ! j = name" using index_of_Some by fastforce+
    have len: "length attrs \<le> length bindings" using arg_cong [OF Cons.prems(6), of length] by simp
    have names: "map fst (bindings[j := (name, v)]) = map fst attrs @ extra"
      using j len Cons.prems(6) list_update_id [of "map fst attrs" j] by (simp add: map_update list_update_append)
    have vals: "snd ` set (bindings[j := (name, v)]) \<subseteq> LV w"
      using image_mono [OF set_update_subset_insert [of bindings j "(name, v)"], of snd] Cons.prems(7) v by (simp, blast)
    have "safe ar w (mbind (writeSlot env2 j v) (\<lambda>_. override_loop env2 attrs os (bindings[j := (name, v)]))) st
      (\<lambda>bs w' st'. w' = w \<and> bs_pre w bs True)"
    proof (rule safe_bind [OF writeSlot_safe [OF Cons.prems(1, 2) _ v]])
      show "j < hd (env_shape (es_envs st) env2)" using j Cons.prems(3) by simp
      fix a w1 st1
      assume 1: "heap_ok ar w1 st1" "grows w st w1 st1" "w1 = w"
      with Cons.IH [of st1 "bindings[j := (name, v)]" extra] Cons.prems names vals grows_shape [OF 1(2) Cons.prems(1, 2)] x
      show "safe ar w1 (override_loop env2 attrs os (bindings[j := (name, v)])) st1 (\<lambda>bs w' st'. w' = w \<and> bs_pre w bs True)" by auto
    qed
    then show ?thesis using Some x by simp
  qed
qed

lemma apply_overrides_safe:
  assumes ops: "ops_safe ar ops" and heap: "heap_ok ar w st" and env2: "env2 \<in> LE w" "hd (env_shape (es_envs st) env2) = length attrs"
    and bs: "map fst bindings = map fst attrs" "snd ` set bindings \<subseteq> LV w" "omap_ok attrs"
  shows "safe ar w (apply_overrides ops env2 attrs bindings) st (\<lambda>r w' st'. bs_pre w' (fst r) (snd r))"
proof (cases "index_of sOverrides (map fst attrs)")
  case None
  then show ?thesis using heap bs by (simp add: apply_overrides_def bs_pre_def strict_sorted_iff safe_ret)
next
  case (Some displ)
  have "displ < length bindings" using index_of_Some [OF Some] bs(1) by (metis length_map)
  then have c: "snd (bindings ! displ) \<in> LV w" using bs(2) by (meson image_subset_iff nth_mem)
  have "safe ar w (mbind (forceAttrs ops (Cell (snd (bindings ! displ)))) (\<lambda>os.
      mbind (override_loop env2 attrs os bindings) (\<lambda>bindings. mret (bindings, True)))) st (\<lambda>r w' st'. bs_pre w' (fst r) (snd r))"
  proof (rule safe_bind [OF force_safe(1) [OF ops heap]])
    show "lval_ok ar w st (Cell (snd (bindings ! displ)))" using c by simp
    fix os w1 st1
    assume 1: "heap_ok ar w1 st1" "grows w st w1 st1" "bs_ok w1 os"
    have "safe ar w1 (override_loop env2 attrs os bindings) st1 (\<lambda>bs w' st'. w' = w1 \<and> bs_pre w1 bs True)"
      by (rule override_loop_safe [OF 1(1), where extra = "[]"])
        (use 1 env2 bs grows_shape [OF 1(2) heap env2(1)] grows_LE [OF 1(2) env2(1)] in \<open>auto simp: bs_ok_def strict_sorted_iff grows_def\<close>)
    then show "safe ar w1 (mbind (override_loop env2 attrs os bindings) (\<lambda>bindings. mret (bindings, True))) st1 (\<lambda>r w' st'. bs_pre w' (fst r) (snd r))"
      by (rule safe_bind) (auto intro!: safe_ret)
  qed
  then show ?thesis by (simp add: apply_overrides_def Some)
qed

lemma index_of_nth: "distinct xs \<Longrightarrow> k < length xs \<Longrightarrow> index_of (xs ! k) xs = Some k"
proof (induction xs arbitrary: k)
  case (Cons x xs)
  then show ?case by (cases k) auto
qed simp

lemma initial_symbol:
  assumes "symbols_ok st" "k < length initial_symbols"
  shows "k < length (es_symbols st)" "es_symbols st ! k = initial_symbols ! k"
proof -
  have "length (take (length initial_symbols) (es_symbols st)) = length initial_symbols" using assms(1) by (simp add: symbols_ok_def)
  then show "k < length (es_symbols st)" using assms(2) by simp
  have "take (length initial_symbols) (es_symbols st) ! k = initial_symbols ! k" using assms(1) by (simp add: symbols_ok_def)
  then show "es_symbols st ! k = initial_symbols ! k" using assms(2) by simp
qed

lemma createSymbol_safe:
  assumes heap: "heap_ok ar w st"
  shows "safe ar w (createSymbol s) st (\<lambda>r w' st'. w' = w \<and> (\<forall>k < length initial_symbols. r = Suc k \<longleftrightarrow> s = initial_symbols ! k))"
proof (cases "index_of s (es_symbols st)")
  case None
  let ?st = "st\<lparr>es_symbols := es_symbols st @ [s]\<rparr>"
  have ok: "symbols_ok st" using heap by (simp add: heap_part_def)
  have g: "grows w st w ?st" by (auto simp: grows_def)
  have new: "s \<notin> set (es_symbols st)" using None by (simp add: index_of_None)
  have "length initial_symbols \<le> length (es_symbols st)" using ok by (metis length_take min.cobounded1 symbols_ok_def)
  then have "symbols_ok ?st" using ok new by (auto simp: symbols_ok_def)
  then have "heap_ok ar w ?st" using heap value_ok_grows [OF g heap] by (auto simp: heap_part_def)
  moreover have "s \<noteq> initial_symbols ! k \<and> length (es_symbols st) + 1 \<noteq> Suc k" if "k < length initial_symbols" for k
    using initial_symbol [OF ok that] new nth_mem by fastforce
  ultimately show ?thesis using g None by (auto simp: safe_def createSymbol_def)
next
  case (Some i)
  have ok: "symbols_ok st" using heap by (simp add: heap_part_def)
  have "i = k \<longleftrightarrow> s = initial_symbols ! k" if "k < length initial_symbols" for k
    using initial_symbol [OF ok that] index_of_Some [OF Some] index_of_nth [of "es_symbols st" k] ok Some by (auto simp: symbols_ok_def)
  with Some heap show ?thesis by (auto simp: safe_def createSymbol_def)
qed

lemma maybeThunk_safe:
  assumes "heap_ok ar w st" "expr_ok w st env e"
  shows "safe ar w (maybeThunk env e) st (\<lambda>v w' st'. v \<in> LV w')"
  by (rule safe_mono [OF builds_safe [OF maybeThunk_builds [OF assms] assms(1)]]) simp

lemma getName_safe:
  assumes "ops_safe ar ops" "heap_ok ar w st" "env \<in> LE w" "case i of Inl _ \<Rightarrow> True | Inr x \<Rightarrow> well_bound (env_shape (es_envs st) env) x"
  shows "safe ar w (getName ops env i) st any"
proof (cases i)
  case (Inl s)
  then show ?thesis using assms(2) by (auto simp: getName_def intro: safe_ret)
next
  case (Inr x)
  have "safe ar w (mbind (o_eval ops env x) (\<lambda>v. mbind (forceStringNoCtx ops (Temp v)) createSymbol)) st any"
  proof (rule safe_bind [OF ops_safeD(1) [OF assms(1, 2)]])
    show "expr_ok w st env x" using assms(3, 4) Inr by (simp add: expr_ok_def)
    fix v w1 st1
    assume "heap_ok ar w1 st1" "res ar v w1 st1"
    then show "safe ar w1 (mbind (forceStringNoCtx ops (Temp v)) createSymbol) st1 any"
      using assms(1) by (intro safe_bind [OF forceStringNoCtx_safe] safe_mono [OF createSymbol_safe]) (auto simp: res_def)
  qed
  then show ?thesis by (simp add: getName_def Inr)
qed

text \<open>Adding a name that is not there yet.\<close>

lemma bs_pre_insert:
  assumes "bs_pre w bs srt" "bs' = (if srt then Bindings_sort bs else bs)" "sorted_get bs' name = None" "v \<in> LV w"
  shows "bs_pre w (bs' @ [(name, v)]) True"
proof -
  have ok: "bs_ok w bs'" using bs_pre_sort [OF assms(1)] assms(2) by simp
  then have "map_of bs' name = None" using assms(3) by (simp add: bs_ok_def strict_sorted_iff)
  then have "name \<notin> fst ` set bs'" by (simp add: map_of_eq_None_iff)
  with ok assms(4) show ?thesis by (simp add: bs_pre_def bs_ok_def strict_sorted_iff)
qed

lemma dynamic_loop_safe:
  assumes "ops_safe ar ops"
  shows "heap_ok ar w st \<Longrightarrow> env \<in> LE w \<Longrightarrow> (\<And>n v. (n, v) \<in> set dyn \<Longrightarrow> expr_ok w st env n \<and> expr_ok w st env v) \<Longrightarrow> bs_pre w bs srt \<Longrightarrow>
    safe ar w (dynamic_loop ops env dyn bs srt) st (\<lambda>r w' st'. bs_pre w' (fst r) (snd r))"
proof (induction dyn arbitrary: w st bs srt)
  case Nil
  then show ?case unfolding dynamic_loop.simps by (intro safe_ret) auto
next
  case (Cons x dyn)
  obtain nameExpr valueExpr where x: "x = (nameExpr, valueExpr)" by (cases x)
  let ?Q = "\<lambda>r w' st'. bs_pre w' (fst r) (snd r)"
  have rest: "safe ar w1 (dynamic_loop ops env dyn bs' srt') st1 ?Q"
    if "heap_ok ar w1 st1" "grows w st w1 st1" "bs_pre w1 bs' srt'" for w1 st1 bs' srt'
  proof (rule Cons.IH [OF that(1) _ _ that(3)])
    show "env \<in> LE w1" using Cons.prems(2) that(2) by (auto intro: grow_intros)
    show "expr_ok w1 st1 env n \<and> expr_ok w1 st1 env v" if "(n, v) \<in> set dyn" for n v
      using that Cons.prems(3) expr_ok_grows [OF \<open>grows w st w1 st1\<close> Cons.prems(1)] by (meson list.set_intros(2))
  qed
  have add: "safe ar w1 (mbind (createSymbol s) (\<lambda>nameSym.
       let bindings = (if srt then Bindings_sort bs else bs) in
       if sorted_get bindings nameSym \<noteq> None
       then mfail (EvalError ''dynamic attribute %1% already defined at %2%'')
       else mbind (maybeThunk env valueExpr) (\<lambda>v. dynamic_loop ops env dyn (bindings @ [(nameSym, v)]) True))) st1 ?Q"
    if 1: "heap_ok ar w1 st1" "grows w st w1 st1" for w1 st1 s
  proof (rule safe_bind [OF createSymbol_safe [OF 1(1)]])
    fix sy w2 st2
    assume 2: "heap_ok ar w2 st2" "grows w1 st1 w2 st2" "w2 = w1 \<and> (\<forall>k < length initial_symbols. sy = Suc k \<longleftrightarrow> s = initial_symbols ! k)"
    define bs' where "bs' = (if srt then Bindings_sort bs else bs)"
    have g: "grows w st w2 st2" using 1(2) 2(2) by (rule grows_trans)
    have "safe ar w2 (mbind (maybeThunk env valueExpr) (\<lambda>v. dynamic_loop ops env dyn (bs' @ [(sy, v)]) True)) st2 ?Q" if "sorted_get bs' sy = None"
    proof (rule safe_bind [OF maybeThunk_safe [OF 2(1)]])
      show "expr_ok w2 st2 env valueExpr" using Cons.prems(3) [of nameExpr valueExpr] x by (intro expr_ok_grows [OF g Cons.prems(1)]) simp
      fix v w3 st3
      assume 3: "heap_ok ar w3 st3" "grows w2 st2 w3 st3" "v \<in> LV w3"
      have g3: "grows w st w3 st3" using g 3(2) by (rule grows_trans)
      from bs_pre_insert [OF bs_pre_grows [OF g3 Cons.prems(4)] bs'_def that 3(3)]
      show "safe ar w3 (dynamic_loop ops env dyn (bs' @ [(sy, v)]) True) st3 ?Q" by (rule rest [OF 3(1) g3])
    qed
    then show "safe ar w2 (let bindings = (if srt then Bindings_sort bs else bs) in
       if sorted_get bindings sy \<noteq> None
       then mfail (EvalError ''dynamic attribute %1% already defined at %2%'')
       else mbind (maybeThunk env valueExpr) (\<lambda>v. dynamic_loop ops env dyn (bindings @ [(sy, v)]) True)) st2 ?Q"
      unfolding Let_def bs'_def [symmetric] using 2(1) by (auto intro: safe_fail)
  qed
  show ?case
    unfolding x dynamic_loop.simps
  proof (rule safe_bind [OF ops_safeD(1) [OF assms Cons.prems(1)]])
    show "expr_ok w st env nameExpr" using Cons.prems(3) x by auto
    fix n w1 st1
    assume 1: "heap_ok ar w1 st1" "grows w st w1 st1" "res ar n w1 st1"
    show "safe ar w1 (mbind (forceValue ops (Temp n)) (\<lambda>nameVal.
      if nameVal = VNull then dynamic_loop ops env dyn bs srt
      else mbind (forceStringNoCtx ops (Temp nameVal)) (\<lambda>s. mbind (createSymbol s) (\<lambda>nameSym.
       let bindings = (if srt then Bindings_sort bs else bs) in
       if sorted_get bindings nameSym \<noteq> None
       then mfail (EvalError ''dynamic attribute %1% already defined at %2%'')
       else mbind (maybeThunk env valueExpr) (\<lambda>v. dynamic_loop ops env dyn (bindings @ [(nameSym, v)]) True))))) st1 ?Q"
    proof (rule safe_bind [OF forceValue_safe [OF assms 1(1)]])
      show "lval_ok ar w1 st1 (Temp n)" using 1(3) by (simp add: res_def)
      fix nameVal w2 st2
      assume 2: "heap_ok ar w2 st2" "grows w1 st1 w2 st2" "res ar nameVal w2 st2"
      have g: "grows w st w2 st2" using 1(2) 2(2) by (rule grows_trans)
      show "safe ar w2 (if nameVal = VNull then dynamic_loop ops env dyn bs srt
        else mbind (forceStringNoCtx ops (Temp nameVal)) (\<lambda>s. mbind (createSymbol s) (\<lambda>nameSym.
         let bindings = (if srt then Bindings_sort bs else bs) in
         if sorted_get bindings nameSym \<noteq> None
         then mfail (EvalError ''dynamic attribute %1% already defined at %2%'')
         else mbind (maybeThunk env valueExpr) (\<lambda>v. dynamic_loop ops env dyn (bindings @ [(nameSym, v)]) True)))) st2 ?Q"
      proof (cases "nameVal = VNull")
        case True
        then show ?thesis using rest [OF 2(1) g bs_pre_grows [OF g Cons.prems(4)]] by simp
      next
        case False
        have "lval_ok ar w2 st2 (Temp nameVal)" using 2(3) by (simp add: res_def)
        then show ?thesis
          unfolding if_not_P [OF False]
          by (rule safe_bind [OF forceStringNoCtx_safe [OF assms 2(1)]]) (rule add, assumption, erule grows_trans [OF g])
      qed
    qed
  qed
qed

lemma plain_scope_builds:
  assumes heap: "heap_ok ar w st" and env: "env \<in> LE w" and sh: "env_shape (es_envs st) env = sh" and scope: "scope_ok sh sh attrs froms"
  shows "builds (length (es_envs st)) ar w
    (mbind (buildInheritFromEnv env froms) (\<lambda>inheritEnv. mbind (bind_attrs None False env env inheritEnv 0 attrs) (\<lambda>bs. mret (env, bs)))) st {}
    (\<lambda>r w' st'. fst r = env \<and> map fst (snd r) = map fst attrs \<and> snd ` set (snd r) \<subseteq> LV w')"
  (is "builds ?n _ _ _ _ _ ?Q")
proof (rule builds_bind [OF buildInheritFromEnv_builds [OF heap env order.refl]])
  show "case froms of None \<Rightarrow> True | Some fs \<Rightarrow> list_all (well_bound (env_shape (es_envs st) env)) fs"
    using scope sh by (auto simp: scope_ok_def split: option.splits)
  fix inh w2 st2
  assume 2: "heap_part ar w2 {} st2" "grows w st w2 st2"
    "(case inh of None \<Rightarrow> froms = None | Some e \<Rightarrow> froms \<noteq> None \<and> e \<in> LE w2 \<and>
        env_shape (es_envs st2) e = from_count froms # env_shape (es_envs st) env) \<and>
     (\<forall>e k m. filled st e k m \<longrightarrow> filled st2 e k m)"
  have env': "env \<in> LE w2" "env_shape (es_envs st2) env = sh"
    using env sh 2(2) grows_shape [OF _ heap env] by (auto intro: grow_intros)
  have attrs: "attr_ok w2 st2 env env inh kind e" if "(name, kind, e) \<in> set attrs" for name kind e
    by (rule attrs_ok_shape [OF _ env'(1) env'(1) env'(2) env'(2) _ that, where froms = froms])
      (use scope 2(3) sh in \<open>auto simp: scope_ok_def split: option.splits\<close>)
  have "builds ?n ar w2 (bind_attrs None False env env inh 0 attrs) st2 {}
    (\<lambda>bs w' st'. map fst bs = map fst attrs \<and> snd ` set bs \<subseteq> LV w')"
    by (rule builds_mono [OF bind_attrs_builds [OF 2(1) attrs, where slots = None and m = 0 and displ = 0]]) auto
  then show "builds ?n ar w2 (mbind (bind_attrs None False env env inh 0 attrs) (\<lambda>bs. mret (env, bs))) st2 {} ?Q"
    by (rule builds_bind) (intro builds_ret, simp_all)
qed

lemma ExprAttrs_safe:
  assumes ops: "ops_safe ar ops" and heap: "heap_ok ar w st" and e: "expr_ok w st env (ExprAttrs recursive attrs froms dyn)"
  shows "safe ar w (ExprAttrs_eval ops env recursive attrs froms dyn) st (res ar)"
proof -
  define sh where "sh = env_shape (es_envs st) env"
  define sh' where "sh' = (if recursive then length attrs # sh else sh)"
  have env: "env \<in> LE w" and scope: "scope_ok sh sh' attrs froms" and dyn: "\<And>n v. (n, v) \<in> set dyn \<Longrightarrow> well_bound sh' n \<and> well_bound sh' v"
    using e by (auto simp: expr_ok_def scope_ok_def Let_def list_all_iff sh_def sh'_def split: option.splits)
  have om: "omap_ok attrs" using scope by (simp add: scope_ok_def)
  define scoped where "scoped =
    (if recursive then
       mbind (rec_scope (sOverrides \<in> fst ` set attrs) env attrs froms) (\<lambda>r.
       mbind (apply_overrides ops (fst r) attrs (snd r)) (\<lambda>(bindings, srt). mret (fst r, bindings, srt)))
     else
       mbind (mbind (buildInheritFromEnv env froms) (\<lambda>inheritEnv. mbind (bind_attrs None False env env inheritEnv 0 attrs) (\<lambda>bs. mret (env, bs))))
         (\<lambda>r. mret (env, snd r, False)))"
  have eval: "ExprAttrs_eval ops env recursive attrs froms dyn =
     mbind scoped (\<lambda>(dynamicEnv, bindings, srt). mbind (dynamic_loop ops dynamicEnv dyn bindings srt) (\<lambda>(bindings, srt).
       mret (VAttrs (if srt then Bindings_sort bindings else bindings))))"
    by (cases recursive) (simp_all add: ExprAttrs_eval_def scoped_def rec_scope_def mbind_assoc del: mlift_app)
  have "safe ar w scoped st (\<lambda>r w' st'. fst r \<in> LE w' \<and> env_shape (es_envs st') (fst r) = sh' \<and> bs_pre w' (fst (snd r)) (snd (snd r)))"
    (is "safe _ _ _ _ ?Q")
  proof (cases recursive)
    case True
    have "safe ar w (rec_scope (sOverrides \<in> fst ` set attrs) env attrs froms) st (\<lambda>r w' st'.
      fst r \<in> LE w' \<and> env_shape (es_envs st') (fst r) = sh' \<and> map fst (snd r) = map fst attrs \<and> snd ` set (snd r) \<subseteq> LV w')"
      using scope True by (intro safe_mono [OF builds_safe [OF rec_scope_builds [OF heap env sh_def [symmetric]] heap]]) (simp_all add: sh'_def)
    then show ?thesis
      unfolding scoped_def if_P [OF True]
    proof (rule safe_bind)
      fix r w1 st1
      assume 1: "heap_ok ar w1 st1" "fst r \<in> LE w1 \<and> env_shape (es_envs st1) (fst r) = sh' \<and> map fst (snd r) = map fst attrs \<and> snd ` set (snd r) \<subseteq> LV w1"
      then have hd: "hd (env_shape (es_envs st1) (fst r)) = length attrs" using True by (simp add: sh'_def)
      have r: "fst r \<in> LE w1" "map fst (snd r) = map fst attrs" "snd ` set (snd r) \<subseteq> LV w1" using 1(2) by auto
      show "safe ar w1 (mbind (apply_overrides ops (fst r) attrs (snd r)) (\<lambda>(bindings, srt). mret (fst r, bindings, srt))) st1 ?Q"
      proof (rule safe_bind [OF apply_overrides_safe [OF ops 1(1) r(1) hd r(2, 3) om]])
        fix q w2 st2
        assume 2: "heap_ok ar w2 st2" "grows w1 st1 w2 st2" "bs_pre w2 (fst q) (snd q)"
        with grows_LE [OF 2(2) r(1)] grows_shape [OF 2(2) 1(1) r(1)] 1(2)
        show "safe ar w2 (case q of (bindings, srt) \<Rightarrow> mret (fst r, bindings, srt)) st2 ?Q" by (cases q) (auto intro!: safe_ret)
      qed
    qed
  next
    case False
    have sc: "scope_ok sh sh attrs froms" using scope False by (simp add: sh'_def)
    show ?thesis
      unfolding scoped_def if_not_P [OF False]
    proof (rule safe_bind [OF builds_safe [OF plain_scope_builds [OF heap env sh_def [symmetric] sc] heap]])
      fix r w1 st1
      assume 1: "heap_ok ar w1 st1" "grows w st w1 st1" "fst r = env \<and> map fst (snd r) = map fst attrs \<and> snd ` set (snd r) \<subseteq> LV w1"
      with grows_LE [OF 1(2) env] grows_shape [OF 1(2) heap env] om
      show "safe ar w1 (mret (env, snd r, False)) st1 ?Q" using False by (intro safe_ret) (auto simp: bs_pre_def strict_sorted_iff sh_def sh'_def)
    qed
  qed
  then show ?thesis
    unfolding eval
  proof (rule safe_bind)
    fix r w1 st1
    assume 1: "heap_ok ar w1 st1" "fst r \<in> LE w1 \<and> env_shape (es_envs st1) (fst r) = sh' \<and> bs_pre w1 (fst (snd r)) (snd (snd r))"
    have "safe ar w1 (dynamic_loop ops (fst r) dyn (fst (snd r)) (snd (snd r))) st1 (\<lambda>r w' st'. bs_pre w' (fst r) (snd r))"
      by (rule dynamic_loop_safe [OF ops 1(1)]) (use 1(2) dyn in \<open>auto simp: expr_ok_def\<close>)
    then have "safe ar w1 (mbind (dynamic_loop ops (fst r) dyn (fst (snd r)) (snd (snd r)))
        (\<lambda>(bindings, srt). mret (VAttrs (if srt then Bindings_sort bindings else bindings)))) st1 (res ar)"
    proof (rule safe_bind)
      fix q w2 st2
      assume 2: "heap_ok ar w2 st2" "bs_pre w2 (fst q) (snd q)"
      obtain bs srt where q: "q = (bs, srt)" by (cases q)
      with bs_pre_sort [OF 2(2)] show "safe ar w2 (case q of (bindings, srt) \<Rightarrow> mret (VAttrs (if srt then Bindings_sort bindings else bindings))) st2 (res ar)"
        unfolding q prod.case by (intro safe_ret [OF 2(1)]) (cases srt; simp)
    qed
    then show "safe ar w1 (case r of (dynamicEnv, bindings, srt) \<Rightarrow> mbind (dynamic_loop ops dynamicEnv dyn bindings srt)
        (\<lambda>(bindings, srt). mret (VAttrs (if srt then Bindings_sort bindings else bindings)))) st1 (res ar)"
      by (cases r) auto
  qed
qed

end
