(* ===== verification/Zix_EvalSound.thy ===== *)
theory Zix_EvalSound
  imports Zix_EvalSafe
begin

text \<open>
  Memory safety of the evaluator, continued: variables, selection, strings, equality and calls,
  and the induction over the fuel that ties the recursive calls (theory \<open>Zix_EvalSafe\<close> has the
  heap invariant and the rules).
\<close>

section \<open>Variables and selection\<close>

lemma env_walk_safe:
  assumes "heap_ok ar w st" "e \<in> LE w" "l < length (env_shape (es_envs st) e)"
  shows "safe ar w (env_walk l e) st (\<lambda>e' w' st'. w' = w \<and> st' = st \<and> e' \<in> LE w \<and> env_shape (es_envs st) e' = drop l (env_shape (es_envs st) e))"
  using env_walk_ok [OF assms] assms(1) by (auto simp: safe_def)

lemma readSlot_safe:
  assumes "heap_ok ar w st" "e \<in> LE w" "d < hd (env_shape (es_envs st) e)"
  shows "safe ar w (readSlot e d) st (\<lambda>s w' st'. w' = w \<and> st' = st \<and> (\<exists>v \<in> LV w. s = Some v))"
  using readSlot_ok [OF assms] assms(1) by (auto simp: safe_def split: option.splits)

lemma lookupWith_safe:
  assumes "ops_safe ar ops"
  shows "heap_ok ar w st \<Longrightarrow> env \<in> LE w \<Longrightarrow> 0 < hd (env_shape (es_envs st) env) \<Longrightarrow> withs_ok (env_shape (es_envs st) env) wr \<Longrightarrow>
    safe ar w (lookupWith ops name wr env) st (\<lambda>v w' st'. v \<in> LV w')"
proof (induction wr arbitrary: w st env)
  case (WithRef prev par)
  have next_with: "safe ar w2 (case par of
                None \<Rightarrow> mfail (UndefinedVarError ''undefined variable %1%'')
              | Some w \<Rightarrow> mbind (env_walk prev env) (lookupWith ops name w)) st2 (\<lambda>v w' st'. v \<in> LV w')"
    if 2: "heap_ok ar w2 st2" "grows w st w2 st2" for w2 st2
  proof (cases par)
    case None
    then show ?thesis using 2(1) by (auto intro: safe_fail simp del: mlift_app)
  next
    case (Some wr)
    have env: "env \<in> LE w2" "env_shape (es_envs st2) env = env_shape (es_envs st) env"
      using grows_LE [OF 2(2) WithRef.prems(2)] grows_shape [OF 2(2) WithRef.prems(1, 2)] by auto
    have p: "prev < length (env_shape (es_envs st) env)" "0 < env_shape (es_envs st) env ! prev" "withs_ok (drop prev (env_shape (es_envs st) env)) wr"
      using WithRef.prems(4) Some by auto
    have "safe ar w2 (mbind (env_walk prev env) (lookupWith ops name wr)) st2 (\<lambda>v w' st'. v \<in> LV w')"
      by (rule safe_bind [OF env_walk_safe [OF 2(1) env(1)]])
        (use p env Some in \<open>auto intro!: WithRef.IH simp: drop_hd\<close>)
    then show ?thesis by (simp add: Some)
  qed
  show ?case
    unfolding lookupWith.simps
  proof (rule safe_bind [OF readSlot_safe [OF WithRef.prems(1-3)]])
    fix s w1 st1
    assume "heap_ok ar w1 st1" and s: "w1 = w \<and> st1 = st \<and> (\<exists>v \<in> LV w. s = Some v)"
    then obtain v where v: "s = Some v" "v \<in> LV w" by auto
    have "safe ar w (mbind (forceAttrs ops (Cell v)) (\<lambda>bs.
         case sorted_get bs name of
           Some j \<Rightarrow> mret j
         | None \<Rightarrow>
             (case par of
                None \<Rightarrow> mfail (UndefinedVarError ''undefined variable %1%'')
              | Some w \<Rightarrow> mbind (env_walk prev env) (lookupWith ops name w)))) st (\<lambda>v w' st'. v \<in> LV w')"
    proof (rule safe_bind [OF force_safe(1) [OF assms WithRef.prems(1)]])
      show "lval_ok ar w st (Cell v)" using v by simp
      fix bs w2 st2
      assume 2: "heap_ok ar w2 st2" "grows w st w2 st2" "bs_ok w2 bs"
      show "safe ar w2 (case sorted_get bs name of
           Some j \<Rightarrow> mret j
         | None \<Rightarrow>
             (case par of
                None \<Rightarrow> mfail (UndefinedVarError ''undefined variable %1%'')
              | Some w \<Rightarrow> mbind (env_walk prev env) (lookupWith ops name w))) st2 (\<lambda>v w' st'. v \<in> LV w')"
        using next_with [OF 2(1, 2)] bs_ok_get [OF 2(3), of name] by (cases "sorted_get bs name") (auto simp del: mlift_app intro: safe_ret [OF 2(1)])
    qed
    with s v show "safe ar w1 (case s of
       None \<Rightarrow> null_deref
     | Some v \<Rightarrow>
         mbind (forceAttrs ops (Cell v)) (\<lambda>bs.
         case sorted_get bs name of
           Some j \<Rightarrow> mret j
         | None \<Rightarrow>
             (case par of
                None \<Rightarrow> mfail (UndefinedVarError ''undefined variable %1%'')
              | Some w \<Rightarrow> mbind (env_walk prev env) (lookupWith ops name w)))) st1 (\<lambda>v w' st'. v \<in> LV w')"
      by simp
  qed
qed

lemma lookupVar_safe:
  assumes "ops_safe ar ops" "heap_ok ar w st" "env \<in> LE w" "ref_ok (env_shape (es_envs st) env) r"
  shows "safe ar w (lookupVar ops env name r) st (\<lambda>v w' st'. v \<in> LV w')"
proof (cases r)
  case (FromWith l wr)
  then have "safe ar w (mbind (env_walk l env) (lookupWith ops name wr)) st (\<lambda>v w' st'. v \<in> LV w')"
    using assms by (intro safe_bind [OF env_walk_safe [OF assms(2, 3)]]) (auto intro!: lookupWith_safe simp: drop_hd)
  then show ?thesis by (simp add: lookupVar_def FromWith)
next
  case (Static l d)
  from lookupSlot_ok [OF assms(2-4)] Static obtain v where "lookupSlot env r st = Some (Inr (Some v), st)" "v \<in> LV w" by auto
  then show ?thesis using assms(2) by (auto simp: lookupVar_def Static safe_def mbind_def)
qed (use assms in simp)

abbreviation path_ok :: "EvalState \<Rightarrow> eid \<Rightarrow> AttrPath \<Rightarrow> bool" where
  "path_ok st env path \<equiv> list_all (\<lambda>i. case i of Inl _ \<Rightarrow> True | Inr x \<Rightarrow> well_bound (env_shape (es_envs st) env) x) path"

lemma select_step_safe:
  assumes ops: "ops_safe ar ops" and heap: "heap_ok ar w st" and env: "env \<in> LE w" and lv: "lval_ok ar w st lv"
    and i: "case i of Inl _ \<Rightarrow> True | Inr x \<Rightarrow> well_bound (env_shape (es_envs st) env) x"
  shows "safe ar w (select_step ops env hasDef i lv) st (\<lambda>r w' st'. (\<forall>v. r = Some v \<longrightarrow> v \<in> LV w') \<and> (r = None \<longrightarrow> hasDef))"
  unfolding select_step_def
proof (rule safe_bind [OF getName_safe [OF ops heap env i]])
  fix name w1 st1
  assume 1: "heap_ok ar w1 st1" "grows w st w1 st1"
  note lv1 = lval_ok_grows [OF 1(2) heap lv]
  show "safe ar w1 (if hasDef then mbind (forceValue ops lv) (\<lambda>v. mret (case v of VAttrs bs \<Rightarrow> sorted_get bs name | _ \<Rightarrow> None))
     else mbind (forceAttrs ops lv) (\<lambda>bs. case sorted_get bs name of None \<Rightarrow> mfail (EvalError ''attribute %1% missing'') | Some j \<Rightarrow> mret (Some j)))
    st1 (\<lambda>r w' st'. (\<forall>v. r = Some v \<longrightarrow> v \<in> LV w') \<and> (r = None \<longrightarrow> hasDef))"
  proof (cases hasDef)
    case True
    show ?thesis
      unfolding if_P [OF True]
      by (rule safe_bind [OF forceValue_safe [OF ops 1(1) lv1]], intro safe_ret) (auto simp: True dest: bs_ok_get split: Value.splits)
  next
    case False
    show ?thesis
      unfolding if_not_P [OF False]
      by (rule safe_bind [OF force_safe(1) [OF ops 1(1) lv1]])
        (auto simp del: mlift_app intro!: safe_ret safe_fail dest: bs_ok_get split: option.split)
  qed
qed

lemma select_loop_safe:
  assumes ops: "ops_safe ar ops"
  shows "heap_ok ar w st \<Longrightarrow> env \<in> LE w \<Longrightarrow> lval_ok ar w st lv \<Longrightarrow> path_ok st env path \<Longrightarrow>
    (case def of None \<Rightarrow> True | Some d \<Rightarrow> well_bound (env_shape (es_envs st) env) d) \<Longrightarrow>
    safe ar w (select_loop ops env def path lv) st (res ar)"
proof (induction path arbitrary: w st lv)
  case Nil
  then show ?case using ops by (simp add: forceValue_safe)
next
  case (Cons i path)
  have i: "case i of Inl _ \<Rightarrow> True | Inr x \<Rightarrow> well_bound (env_shape (es_envs st) env) x" using Cons.prems(4) by simp
  show ?case
    unfolding select_loop.simps
  proof (rule safe_bind [OF select_step_safe [OF ops Cons.prems(1-3) i]])
    fix r w1 st1
    assume 1: "heap_ok ar w1 st1" "grows w st w1 st1" "(\<forall>v. r = Some v \<longrightarrow> v \<in> LV w1) \<and> (r = None \<longrightarrow> def \<noteq> None)"
    have env: "env \<in> LE w1" "env_shape (es_envs st1) env = env_shape (es_envs st) env"
      using grows_LE [OF 1(2) Cons.prems(2)] grows_shape [OF 1(2) Cons.prems(1, 2)] by auto
    show "safe ar w1 (case r of Some v \<Rightarrow> select_loop ops env def path (Cell v)
        | None \<Rightarrow> (case def of Some d \<Rightarrow> o_eval ops env d | None \<Rightarrow> null_deref)) st1 (res ar)"
    proof (cases r)
      case None
      then show ?thesis using 1 ops env Cons.prems(5) by (auto intro!: ops_safeD simp: expr_ok_def)
    next
      case (Some v)
      have "safe ar w1 (select_loop ops env def path (Cell v)) st1 (res ar)"
        by (rule Cons.IH [OF 1(1) env(1), unfolded env(2)]) (use 1(3) Some Cons.prems(4, 5) in simp_all)
      then show ?thesis by (simp add: Some)
    qed
  qed
qed

lemma hasAttr_loop_safe:
  assumes ops: "ops_safe ar ops"
  shows "heap_ok ar w st \<Longrightarrow> env \<in> LE w \<Longrightarrow> lval_ok ar w st lv \<Longrightarrow> path_ok st env path \<Longrightarrow>
    safe ar w (hasAttr_loop ops env path lv) st any"
proof (induction path arbitrary: w st lv)
  case Nil
  then show ?case unfolding hasAttr_loop.simps by (intro safe_ret) auto
next
  case (Cons i path)
  show ?case
    unfolding hasAttr_loop.simps
  proof (rule safe_bind [OF forceValue_safe [OF ops Cons.prems(1, 3)]])
    fix v w1 st1
    assume 1: "heap_ok ar w1 st1" "grows w st w1 st1" "res ar v w1 st1"
    have env: "env \<in> LE w1" "env_shape (es_envs st1) env = env_shape (es_envs st) env"
      using grows_LE [OF 1(2) Cons.prems(2)] grows_shape [OF 1(2) Cons.prems(1, 2)] by auto
    show "safe ar w1 (mbind (getName ops env i) (\<lambda>name.
     case v of
       VAttrs bs \<Rightarrow> (case sorted_get bs name of Some j \<Rightarrow> hasAttr_loop ops env path (Cell j) | None \<Rightarrow> mret False)
     | _ \<Rightarrow> mret False)) st1 any"
    proof (rule safe_bind [OF getName_safe [OF ops 1(1) env(1)]])
      show "case i of Inl _ \<Rightarrow> True | Inr x \<Rightarrow> well_bound (env_shape (es_envs st1) env) x" using Cons.prems(4) unfolding env(2) by simp
      fix name w2 st2
      assume 2: "heap_ok ar w2 st2" "grows w1 st1 w2 st2"
      have env2: "env \<in> LE w2" "env_shape (es_envs st2) env = env_shape (es_envs st) env"
        using grows_LE [OF 2(2) env(1)] grows_shape [OF 2(2) 1(1) env(1)] env by auto
      have v: "res ar v w2 st2" using res_grows [OF 2(2) 1(1, 3)] .
      have "safe ar w2 (hasAttr_loop ops env path (Cell j)) st2 any" if "v = VAttrs bs" "sorted_get bs name = Some j" for bs j
        by (rule Cons.IH [OF 2(1) env2(1), unfolded env2(2)]) (use Cons.prems(4) v that in \<open>auto dest: bs_ok_get\<close>)
      then show "safe ar w2 (case v of
         VAttrs bs \<Rightarrow> (case sorted_get bs name of Some j \<Rightarrow> hasAttr_loop ops env path (Cell j) | None \<Rightarrow> mret False)
       | _ \<Rightarrow> mret False) st2 any"
        using safe_ret [OF 2(1), of any] by (auto split: Value.split option.split simp del: mlift_app)
    qed
  qed
qed

section \<open>Sets, lists and strings\<close>

lemma update_merge_set: "set (update_merge a b) \<subseteq> set a \<union> set b"
  by (induction a b rule: update_merge.induct) auto

lemma update_merge_above:
  "(\<forall>x \<in> set a. k < fst x) \<Longrightarrow> (\<forall>x \<in> set b. k < fst x) \<Longrightarrow> \<forall>x \<in> set (update_merge a b). k < fst x"
  using update_merge_set [of a b] by blast

lemma update_merge_ok: "omap_ok a \<Longrightarrow> omap_ok b \<Longrightarrow> omap_ok (update_merge a b)"
proof (induction a b rule: update_merge.induct)
  case (1 i xs j ys)
  consider "fst i = fst j" | "fst i < fst j" | "fst j < fst i" by fastforce
  then show ?case
  proof cases
    case 1
    then have "\<forall>x \<in> set (update_merge xs ys). fst j < fst x" using "1.prems" by (intro update_merge_above) auto
    with 1 "1.IH"(1) "1.prems" show ?thesis by simp
  next
    case 2
    then have "\<forall>x \<in> set (update_merge xs (j # ys)). fst i < fst x" using "1.prems" by (intro update_merge_above) auto
    with 2 "1.IH"(2) "1.prems" show ?thesis by simp
  next
    case 3
    then have "\<forall>x \<in> set (update_merge (i # xs) ys). fst j < fst x" using "1.prems" by (intro update_merge_above) auto
    with 3 "1.IH"(3) "1.prems" show ?thesis by simp
  qed
qed auto

lemma bs_ok_merge:
  assumes "bs_ok w a" "bs_ok w b"
  shows "bs_ok w (update_merge a b)"
proof -
  have "snd ` set (update_merge a b) \<subseteq> snd ` set a \<union> snd ` set b"
    using image_mono [OF update_merge_set, of snd a b] by (simp only: image_Un)
  also have "\<dots> \<subseteq> LV w" using assms unfolding bs_ok_def by (intro Un_least) simp_all
  finally show ?thesis using assms update_merge_ok by (simp add: bs_ok_def)
qed

lemma ExprOpUpdate_safe:
  assumes ops: "ops_safe ar ops" and heap: "heap_ok ar w st" and e: "expr_ok w st env e1" "expr_ok w st env e2"
  shows "safe ar w (ExprOpUpdate_eval ops env e1 e2) st (res ar)"
proof -
  have ev: "safe ar w1 (evalAttrs ops env e) st1 (\<lambda>bs w' st'. bs_ok w' bs)" if "heap_ok ar w1 st1" "expr_ok w1 st1 env e" for e w1 st1
    unfolding evalAttrs_def by (rule safe_bind [OF ops_safeD(1) [OF ops that]]) (auto simp del: mlift_app split: Value.split intro!: safe_ret safe_fail)
  show ?thesis
    unfolding ExprOpUpdate_eval_def
  proof (rule safe_bind [OF ev [OF heap e(1)]])
    fix b1 w1 st1
    assume 1: "heap_ok ar w1 st1" "grows w st w1 st1" "bs_ok w1 b1"
    show "safe ar w1 (mbind (evalAttrs ops env e2) (\<lambda>b2.
      mret (VAttrs (if b1 = [] then b2 else if b2 = [] then b1 else update_merge b1 b2)))) st1 (res ar)"
    proof (rule safe_bind [OF ev [OF 1(1) expr_ok_grows [OF 1(2) heap e(2)]]])
      fix b2 w2 st2
      assume 2: "heap_ok ar w2 st2" "grows w1 st1 w2 st2" "bs_ok w2 b2"
      have "bs_ok w2 b1" using 1(3) 2(2) by (rule bs_ok_grows [rotated])
      with bs_ok_merge [OF this 2(3)] 2 show "safe ar w2 (mret (VAttrs (if b1 = [] then b2 else if b2 = [] then b1 else update_merge b1 b2))) st2 (res ar)"
        by (intro safe_ret) auto
    qed
  qed
qed

text \<open>A loop that keeps an invariant which survives the growth of the heap.\<close>

lemma mfold_safe:
  assumes "\<And>x b w1 st1. x \<in> set xs \<Longrightarrow> heap_ok ar w1 st1 \<Longrightarrow> grows w st w1 st1 \<Longrightarrow> P b w1 st1 \<Longrightarrow> safe ar w1 (f x b) st1 P"
  shows "heap_ok ar w st \<Longrightarrow> P b w st \<Longrightarrow> safe ar w (mfold f xs b) st P"
proof -
  have "heap_ok ar w1 st1 \<Longrightarrow> grows w st w1 st1 \<Longrightarrow> P b w1 st1 \<Longrightarrow> set ys \<subseteq> set xs \<Longrightarrow> safe ar w1 (mfold f ys b) st1 P" for w1 st1 b ys
  proof (induction ys arbitrary: w1 st1 b)
    case Nil
    then show ?case unfolding mfold.simps by (intro safe_ret)
  next
    case (Cons y ys)
    show ?case
      unfolding mfold.simps
      by (rule safe_bind [OF assms]) (use Cons in \<open>auto intro: grows_trans\<close>)
  qed
  then show "heap_ok ar w st \<Longrightarrow> P b w st \<Longrightarrow> safe ar w (mfold f xs b) st P" by simp
qed

lemma mmap_safe:
  assumes "\<And>x w1 st1. x \<in> set xs \<Longrightarrow> heap_ok ar w1 st1 \<Longrightarrow> grows w st w1 st1 \<Longrightarrow> safe ar w1 (f x) st1 P"
    and mono: "\<And>y w1 st1 w2 st2. heap_ok ar w1 st1 \<Longrightarrow> grows w1 st1 w2 st2 \<Longrightarrow> P y w1 st1 \<Longrightarrow> P y w2 st2"
  shows "heap_ok ar w st \<Longrightarrow> safe ar w (mmap f xs) st (\<lambda>ys w' st'. length ys = length xs \<and> (\<forall>y \<in> set ys. P y w' st'))"
proof -
  have "heap_ok ar w1 st1 \<Longrightarrow> grows w st w1 st1 \<Longrightarrow> set ys \<subseteq> set xs \<Longrightarrow>
    safe ar w1 (mmap f ys) st1 (\<lambda>zs w' st'. length zs = length ys \<and> (\<forall>y \<in> set zs. P y w' st'))" for w1 st1 ys
  proof (induction ys arbitrary: w1 st1)
    case Nil
    then show ?case unfolding mmap.simps by (intro safe_ret) auto
  next
    case (Cons x ys)
    show ?case
      unfolding mmap.simps
    proof (rule safe_bind [OF assms(1)])
      fix y w2 st2
      assume 2: "heap_ok ar w2 st2" "grows w1 st1 w2 st2" "P y w2 st2"
      show "safe ar w2 (mbind (mmap f ys) (\<lambda>ys. mret (y # ys))) st2 (\<lambda>zs w' st'. length zs = length (x # ys) \<and> (\<forall>y \<in> set zs. P y w' st'))"
      proof (rule safe_bind [OF Cons.IH])
        fix zs w3 st3
        assume 3: "heap_ok ar w3 st3" "grows w2 st2 w3 st3" "length zs = length ys \<and> (\<forall>y \<in> set zs. P y w3 st3)"
        show "safe ar w3 (mret (y # zs)) st3 (\<lambda>zs w' st'. length zs = length (x # ys) \<and> (\<forall>y \<in> set zs. P y w' st'))"
          using 3 mono [OF 2(1) 3(2) 2(3)] by (intro safe_ret) auto
      qed (use 2 Cons.prems in \<open>auto intro: grows_trans\<close>)
    qed (use Cons.prems in auto)
  qed
  then show "heap_ok ar w st \<Longrightarrow> safe ar w (mmap f xs) st (\<lambda>ys w' st'. length ys = length xs \<and> (\<forall>y \<in> set ys. P y w' st'))" by simp
qed

lemma concatLists_safe:
  assumes ops: "ops_safe ar ops" and heap: "heap_ok ar w st" and lvs: "\<And>lv. lv \<in> set lvs \<Longrightarrow> lval_ok ar w st lv"
  shows "safe ar w (concatLists ops lvs) st (res ar)"
  unfolding concatLists_def
proof (rule safe_bind [OF mmap_safe [where P = "\<lambda>vs w' st'. set vs \<subseteq> LV w'"]])
  show "safe ar w1 (forceList ops lv) st1 (\<lambda>vs w' st'. set vs \<subseteq> LV w')" if "lv \<in> set lvs" "heap_ok ar w1 st1" "grows w st w1 st1" for lv w1 st1
    using that lvs by (intro force_safe(2) [OF ops that(2)] lval_ok_grows [OF that(3) heap])
  fix ls w1 st1
  assume 1: "heap_ok ar w1 st1" "length ls = length lvs \<and> (\<forall>vs \<in> set ls. set vs \<subseteq> LV w1)"
  then show "safe ar w1 (mret (VList (concat ls))) st1 (res ar)" by (intro safe_ret) (simp_all, blast)
qed (use heap in \<open>auto dest: grows_LV\<close>)

lemma maybeThunks_safe:
  assumes heap: "heap_ok ar w st" and es: "\<And>e. e \<in> set es \<Longrightarrow> expr_ok w st env e"
  shows "safe ar w (mmap (maybeThunk env) es) st (\<lambda>vs w' st'. set vs \<subseteq> LV w')"
  by (rule safe_mono [OF mmap_safe [where P = "\<lambda>v w' st'. v \<in> LV w'"]])
    (use es in \<open>auto intro!: maybeThunk_safe heap dest: grows_LV expr_ok_grows [OF _ heap]\<close>)

text \<open>
  The import of source paths and the hash functions raise exceptions of the code only, and a digest
  has the length of its algorithm.
\<close>

definition outside_law :: "EvalParams \<Rightarrow> bool" where
  "outside_law p \<longleftrightarrow> (\<forall>a s e. ep_fetchToStore p a s = Inl e \<longrightarrow> proper e) \<and> (\<forall>ha s. case ep_hash p ha s of Inl e \<Rightarrow> proper e | Inr h \<Rightarrow> hash_ok h)"

lemma rbind_eq_Inl [result_simps]: "rbind m f = Inl e \<longleftrightarrow> m = Inl e \<or> (\<exists>a. m = Inr a \<and> f a = Inl e)"
  by (cases m) auto

lemma require_proper: "require feats x = Inl e \<Longrightarrow> proper e"
  by (auto simp: require_def split: if_splits)

lemma mkStorePath_exn_proper: "mkStorePath s = Inl e \<Longrightarrow> proper e"
  by (auto simp: mkStorePath_def Let_def checkPathName_def checkName_def rbind_eq_Inl split: if_splits)

lemma parseRest_proper: "parseRest feats s = Inl e \<Longrightarrow> proper e"
proof (induction feats s rule: parseRest.induct)
  case (1 feats s)
  show ?case
  proof (cases "split_bang s")
    case None
    then show ?thesis using "1.prems" mkStorePath_exn_proper by (auto simp: parseRest.simps [of feats s] rbind_eq_Inl)
  next
    case (Some x)
    then obtain out t where x: "split_bang s = Some (out, t)" by (cases x) auto
    show ?thesis
    proof (cases "parseRest feats t")
      case (Inl e')
      then show ?thesis using 1 x by (auto simp: parseRest.simps [of feats s])
    next
      case (Inr d)
      then show ?thesis using "1.prems" x require_proper by (cases d) (auto simp: parseRest.simps [of feats s] rbind_eq_Inl)
    qed
  qed
qed

lemma NSC_parse_proper: "NSC_parse feats s = Inl e \<Longrightarrow> proper e"
  by (auto simp: NSC_parse_def rbind_eq_Inl split: list.splits if_splits intro: parseRest_proper mkStorePath_exn_proper)

lemma copyContext_safe: "heap_ok ar w st \<Longrightarrow> safe ar w (copyContext p ctx context) st any"
  unfolding copyContext_def
proof (rule mfold_safe)
  fix x b w1 st1
  assume "heap_ok ar w1 st1"
  then show "safe ar w1 (mbind (mlift (NSC_parse (ep_features p) x)) (\<lambda>e. mret (oset_insert e b))) st1 any"
    by (intro safe_bind [OF safe_lift [where Q = any]]) (auto simp del: mlift_app intro: NSC_parse_proper safe_ret)
qed auto

lemma copyPathToStore_safe:
  assumes "outside_law p" "heap_ok ar w st"
  shows "safe ar w (copyPathToStore p a s context) st any"
proof -
  have "safe ar w (mbind (mlift (ep_fetchToStore p a s)) (\<lambda>dstPath.
      mret (printStorePath (ep_storeDir p) dstPath, oset_insert (NSC_Opaque dstPath) context))) st any"
    by (rule safe_bind [OF safe_lift [where Q = any]]) (use assms in \<open>auto simp: outside_law_def simp del: mlift_app intro: safe_ret\<close>)
  then show ?thesis using assms(2) by (auto simp: copyPathToStore_def simp del: mlift_app intro: safe_fail)
qed

lemma cell_of_safe:
  assumes "heap_ok ar w st" "value_ok ar w st v" "\<And>i. lv = Cell i \<Longrightarrow> i \<in> LV w"
  shows "safe ar w (cell_of lv v) st (\<lambda>i w' st'. i \<in> LV w')"
  using assms by (cases lv) (auto simp: cell_of_def simp del: mlift_app intro: safe_ret safe_alloc)

lemma coerce_list_safe:
  assumes ops: "ops_safe ar ops"
  shows "heap_ok ar w st \<Longrightarrow> set vs \<subseteq> LV w \<Longrightarrow> safe ar w (coerce_list ops m c k vs ctx0) st any"
proof (induction vs arbitrary: w st ctx0)
  case Nil
  then show ?case unfolding coerce_list.simps by (intro safe_ret) auto
next
  case (Cons v vs)
  show ?case
    unfolding coerce_list.simps
  proof (rule safe_bind [OF ops_safeD(6) [OF ops Cons.prems(1)]])
    show "lval_ok ar w st (Cell v)" using Cons.prems(2) by simp
    fix r w1 st1
    assume 1: "heap_ok ar w1 st1" "grows w st w1 st1"
    obtain s :: string and ctx :: NixStringContext where r: "r = (s, ctx)" by (cases r)
    have LV: "set (v # vs) \<subseteq> LV w1" using Cons.prems(2) 1(2) by (rule set_LV_grows [rotated])
    have "safe ar w1 (mbind (readValue v) (\<lambda>x. mbind (coerce_list ops m c k vs ctx) (\<lambda>(rest, context).
       mret (s @ (if vs \<noteq> [] \<and> x \<noteq> VList [] then '' '' else []) @ rest, context)))) st1 any"
    proof (rule safe_bind [OF safe_read [where Q = any]])
      fix x w2 st2
      assume 2: "heap_ok ar w2 st2" "grows w1 st1 w2 st2"
      have "set vs \<subseteq> LV w2" using set_LV_grows [OF 2(2) LV] by simp
      then show "safe ar w2 (mbind (coerce_list ops m c k vs ctx) (\<lambda>(rest, context).
         mret (s @ (if vs \<noteq> [] \<and> x \<noteq> VList [] then '' '' else []) @ rest, context))) st2 any"
        by (intro safe_bind [OF Cons.IH [OF 2(1)]]) (auto simp del: mlift_app intro!: safe_ret split: prod.split)
    qed (use 1 LV in auto)
    then show "safe ar w1 (case r of (s, context) \<Rightarrow> mbind (readValue v) (\<lambda>x. mbind (coerce_list ops m c k vs context) (\<lambda>(rest, context).
       mret (s @ (if vs \<noteq> [] \<and> x \<noteq> VList [] then '' '' else []) @ rest, context)))) st1 any"
      by (simp add: r)
  qed
qed

lemma coerceToString_safe:
  assumes ops: "ops_safe ar ops" and fetch: "outside_law p" and heap: "heap_ok ar w st" and lv: "lval_ok ar w st lv"
  shows "safe ar w (coerceToString p ops m cp canon lv context) st any"
  unfolding coerceToString_def
proof (rule safe_bind [OF forceValue_safe [OF ops heap lv]], goal_cases)
  case (1 v w1 st1)
  note h = 1(1) and rules = safe_fail [OF 1(1)] safe_ret [OF 1(1)]
  show ?case
  proof (cases v)
    case (VString s ctx)
    have "safe ar w1 (mbind (copyContext p ctx context) (\<lambda>context. mret (s, context))) st1 any"
      by (rule safe_bind [OF copyContext_safe [OF h]]) (auto simp del: mlift_app intro: safe_ret)
    then show ?thesis by (simp add: VString)
  next
    case (VPath a s)
    then show ?thesis by (auto simp del: mlift_app intro!: rules copyPathToStore_safe [OF fetch h])
  next
    case (VAttrs bs)
    have bs: "bs_ok w1 bs" "value_ok ar w1 st1 v" using 1(3) VAttrs by (auto simp: res_def bs_ok_def)
    have cell: "lv = Cell i \<Longrightarrow> i \<in> LV w1" for i using lv grows_LV [OF 1(2)] by auto
    show ?thesis
    proof (cases "sorted_get bs sToString")
      case (Some f)
      have f: "f \<in> LV w1" using bs_ok_get [OF bs(1) Some] .
      have "safe ar w1 (mbind (cell_of lv v) (\<lambda>self. mbind (o_callFunction ops (Cell f) [self]) (\<lambda>v1.
          o_coerceToString ops m cp True (Temp v1) context))) st1 any"
      proof (rule safe_bind [OF cell_of_safe [OF h bs(2) cell]], assumption)
        fix self w2 st2
        assume 2: "heap_ok ar w2 st2" "grows w1 st1 w2 st2" "self \<in> LV w2"
        show "safe ar w2 (mbind (o_callFunction ops (Cell f) [self]) (\<lambda>v1. o_coerceToString ops m cp True (Temp v1) context)) st2 any"
          by (rule safe_bind [OF ops_safeD(2) [OF ops 2(1)]]) (use 2 grows_LV [OF 2(2) f] ops in \<open>auto intro!: ops_safeD simp: res_def\<close>)
      qed
      then show ?thesis by (simp add: VAttrs Some)
    next
      case None
      then show ?thesis using bs_ok_get [OF bs(1)] by (auto simp: VAttrs simp del: mlift_app split: option.split intro!: rules ops_safeD(6) [OF ops h])
    qed
  next
    case (VList vs)
    then show ?thesis using 1(3) by (auto simp del: mlift_app intro!: rules coerce_list_safe [OF ops h])
  qed (auto simp del: mlift_app intro!: rules)
qed

lemma concat_loop_safe:
  assumes ops: "ops_safe ar ops"
  shows "heap_ok ar w st \<Longrightarrow> (\<And>e. e \<in> set es \<Longrightarrow> expr_ok w st env e) \<Longrightarrow> safe ar w (concat_loop p ops env es first ty n nf s ctx0) st any"
proof (induction es arbitrary: w st first ty n nf s ctx0)
  case Nil
  then show ?case unfolding concat_loop.simps by (intro safe_ret) auto
next
  case (Cons e es)
  show ?case
    unfolding concat_loop.simps
  proof (rule safe_bind [OF ops_safeD(1) [OF ops Cons.prems(1)]], goal_cases)
    case 1
    show ?case using Cons.prems(2) by simp
  next
    case (2 v w1 st1)
    have rest: "safe ar w2 (concat_loop p ops env es first ty n nf s ctx0) st2 any"
      if "heap_ok ar w2 st2" "grows w1 st1 w2 st2" for w2 st2 first ty n nf s ctx0
      using Cons.prems(1, 2) expr_ok_grows [OF grows_trans [OF 2(2) that(2)] Cons.prems(1)] by (intro Cons.IH [OF that(1)]) auto
    note here = rest [OF 2(1) grows_refl]
    have str: "safe ar w1 (mbind (o_coerceToString ops False b b' (Temp u) ctx0) (\<lambda>(part, context).
         concat_loop p ops env es False t n nf (s @ part) context)) st1 any" if "v = u" for u b b' t
      by (rule safe_bind [OF ops_safeD(6) [OF ops 2(1)]]) (use 2(3) that rest in \<open>auto simp: res_def\<close>)
    show ?case
      by (cases v) (auto simp: Let_def simp del: mlift_app split: option.split intro!: here str safe_fail [OF 2(1)])
  qed
qed

lemma ExprConcatStrings_safe:
  assumes ops: "ops_safe ar ops" and heap: "heap_ok ar w st" and es: "\<And>e. e \<in> set es \<Longrightarrow> expr_ok w st env e"
  shows "safe ar w (ExprConcatStrings_eval p ops env b es) st (res ar)"
  unfolding ExprConcatStrings_eval_def
  by (rule safe_bind [OF concat_loop_safe [OF ops heap es]])
    (auto simp: CanonPath_eq mkString_def split: prod.splits intro!: safe_ret safe_fail simp del: mlift_app)

section \<open>Equality\<close>

lemma EvalState_isDerivation_safe:
  assumes "ops_safe ar ops" "heap_ok ar w st" "res ar v w st"
  shows "safe ar w (EvalState_isDerivation ops v) st any"
proof -
  have "safe ar w (mbind (forceValue ops (Cell i)) (\<lambda>x. mret (case x of VString s _ \<Rightarrow> s = ''derivation'' | _ \<Rightarrow> False))) st any" if "i \<in> LV w" for i
    by (rule safe_bind [OF forceValue_safe [OF assms(1, 2)]]) (use that in \<open>auto simp del: mlift_app intro: safe_ret\<close>)
  then show ?thesis using assms
    by (cases v) (auto simp: EvalState_isDerivation_def simp del: mlift_app split: option.split dest: bs_ok_get intro!: safe_ret)
qed

lemma derivation_outPaths_safe:
  assumes "ops_safe ar ops" "heap_ok ar w st" "bs_ok w a" "bs_ok w b"
  shows "safe ar w (derivation_outPaths ops a b) st (\<lambda>r w' st'. \<forall>i j. r = Some (i, j) \<longrightarrow> i \<in> LV w' \<and> j \<in> LV w')"
  unfolding derivation_outPaths_def
proof (rule safe_bind [OF EvalState_isDerivation_safe [OF assms(1, 2)]], goal_cases)
  case (2 d w1 st1)
  have b1: "bs_ok w1 a" "bs_ok w1 b" using assms(3, 4) bs_ok_grows [OF 2(2)] by auto
  show ?case
  proof (rule safe_bind [where Q' = any], goal_cases)
    case 1
    then show ?case using 2(1) b1 assms(1) by (auto simp del: mlift_app intro!: EvalState_isDerivation_safe safe_ret)
  next
    case (2 d' w2 st2)
    have "bs_ok w2 a" "bs_ok w2 b" using b1 bs_ok_grows [OF 2(2)] by auto
    with 2(1) show ?case by (intro safe_ret) (auto dest: bs_ok_get split: option.splits if_splits)
  qed
qed (use assms in simp)

lemma eq_list_safe:
  assumes ops: "ops_safe ar ops"
  shows "heap_ok ar w st \<Longrightarrow> set as \<subseteq> LV w \<Longrightarrow> set bs \<subseteq> LV w \<Longrightarrow> safe ar w (eq_list ops as bs) st any"
proof (induction as bs arbitrary: w st rule: list_induct2')
  case (4 a as b bs)
  show ?case
    unfolding eq_list.simps
  proof (rule safe_bind [OF ops_safeD(4) [OF ops "4.prems"(1)]], goal_cases)
    case (3 r w1 st1)
    have "set as \<subseteq> LV w1" "set bs \<subseteq> LV w1" using "4.prems"(2, 3) set_LV_grows [OF 3(2)] by auto
    then show ?case using 3(1) "4.IH" by (auto simp del: mlift_app intro!: safe_ret)
  qed (use "4.prems" in auto)
qed (auto simp del: mlift_app intro: safe_ret)

lemma eq_attrs_safe:
  assumes ops: "ops_safe ar ops"
  shows "heap_ok ar w st \<Longrightarrow> snd ` set as \<subseteq> LV w \<Longrightarrow> snd ` set bs \<subseteq> LV w \<Longrightarrow> safe ar w (eq_attrs ops as bs) st any"
proof (induction as bs arbitrary: w st rule: list_induct2')
  case (4 a as b bs)
  have "safe ar w (mbind (o_eqValues ops (Cell (snd a)) (Cell (snd b))) (\<lambda>r. if \<not> r then mret False else eq_attrs ops as bs)) st any"
  proof (rule safe_bind [OF ops_safeD(4) [OF ops "4.prems"(1)]], goal_cases)
    case (3 r w1 st1)
    have "LV w \<subseteq> LV w1" using 3(2) by (simp add: grows_def)
    then have "snd ` set as \<subseteq> LV w1" "snd ` set bs \<subseteq> LV w1" using "4.prems"(2, 3) by auto
    from "4.IH" [OF 3(1) this] show ?case using 3(1) by (auto simp del: mlift_app intro!: safe_ret)
  qed (use "4.prems" in auto)
  then show ?case using "4.prems"(1) by (auto simp del: mlift_app intro: safe_ret)
qed (auto simp del: mlift_app intro: safe_ret)

lemma eq_forced_safe:
  assumes ops: "ops_safe ar ops" and heap: "heap_ok ar w st" and v: "res ar v1 w st" "res ar v2 w st"
  shows "safe ar w (eq_forced p ops v1 v2) st any"
proof -
  note rules = safe_ret [OF heap, where Q = any] safe_fail [OF heap, where Q = any]
  have attrs: "safe ar w (mbind (derivation_outPaths ops as bs) (\<lambda>r.
               case r of
                 Some (i, j) \<Rightarrow> o_eqValues ops (Cell i) (Cell j)
               | None \<Rightarrow> if length as \<noteq> length bs then mret False else eq_attrs ops as bs)) st any"
    if ok: "bs_ok w as" "bs_ok w bs" for as bs
  proof (rule safe_bind [OF derivation_outPaths_safe [OF ops heap ok]], goal_cases)
    case (1 r w1 st1)
    have "snd ` set as \<subseteq> LV w1" "snd ` set bs \<subseteq> LV w1"
      using ok bs_ok_grows [OF 1(2)] unfolding bs_ok_def by blast+
    from eq_attrs_safe [OF ops 1(1) this] show ?case
      using 1 by (auto simp del: mlift_app split: option.split intro!: safe_ret ops_safeD(4) [OF ops 1(1)])
  qed
  show ?thesis
  proof (cases v1)
    case (VList as)
    then show ?thesis using v by (cases v2) (auto simp: eq_forced_def simp del: mlift_app intro!: rules eq_list_safe [OF ops heap])
  next
    case (VAttrs as)
    show ?thesis
    proof (cases "\<exists>bs. v2 = VAttrs bs")
      case True
      then obtain bs where bs: "v2 = VAttrs bs" ..
      show ?thesis unfolding eq_forced_def VAttrs bs Value.case by (rule attrs) (use v VAttrs bs in simp_all)
    qed (use VAttrs in \<open>cases v2; simp add: eq_forced_def rules del: mlift_app\<close>)
  qed (use v in \<open>auto simp: eq_forced_def res_def whnf_def simp del: mlift_app split: Value.split intro!: rules\<close>)
qed

lemma eqValues_safe:
  assumes ops: "ops_safe ar ops" and heap: "heap_ok ar w st" and lv: "lval_ok ar w st a" "lval_ok ar w st b"
  shows "safe ar w (eqValues p ops a b) st any"
  unfolding eqValues_def
proof (rule safe_bind [OF forceValue_safe [OF ops heap lv(1)]], goal_cases)
  case (1 v1 w1 st1)
  show ?case
  proof (rule safe_bind [OF forceValue_safe [OF ops 1(1) lval_ok_grows [OF 1(2) heap lv(2)]]], goal_cases)
    case (1 v2 w2 st2)
    then show ?case using res_grows [OF 1(2)] \<open>heap_ok ar w1 st1\<close> \<open>res ar v1 w1 st1\<close>
      by (auto simp del: mlift_app intro!: safe_ret eq_forced_safe [OF ops])
  qed
qed

lemma assert_list_safe:
  assumes ops: "ops_safe ar ops"
  shows "heap_ok ar w st \<Longrightarrow> set as \<subseteq> LV w \<Longrightarrow> set bs \<subseteq> LV w \<Longrightarrow> safe ar w (assert_list ops as bs) st any"
proof (induction as bs arbitrary: w st rule: list_induct2')
  case (4 a as b bs)
  show ?case
    unfolding assert_list.simps
  proof (rule safe_bind [OF ops_safeD(5) [OF ops "4.prems"(1)]], goal_cases)
    case (3 r w1 st1)
    then show ?case using "4.prems"(2, 3) set_LV_grows [OF 3(2)] by (intro "4.IH") auto
  qed (use "4.prems" in auto)
qed (auto simp del: mlift_app intro: safe_ret)

text \<open>Two sorted sets whose names agree up to a point and differ there: the smaller name is in one set only.\<close>

lemma differing_name:
  assumes ok: "omap_ok (p1 @ i # a)" "omap_ok (p2 @ j # b)" and "map fst p1 = map fst p2" "fst i < fst j"
  shows "sorted_get (p2 @ j # b) (fst i) = None"
proof -
  have s: "sorted_wrt (<) (map fst p1 @ fst i # map fst a)" "sorted_wrt (<) (map fst p1 @ fst j # map fst b)" using ok assms(3) by simp_all
  have "fst i \<notin> set (map fst p1)" "fst i \<notin> set (map fst b)" "fst i \<noteq> fst j"
    using s assms(4) by (auto simp: sorted_wrt_append dest!: bspec)
  then have "map_of (p2 @ j # b) (fst i) = None" using assms(3) by (simp only: map_of_eq_None_iff set_map [symmetric]) simp
  then show ?thesis using ok(2) by (simp add: strict_sorted_iff)
qed

lemma assert_attrs_safe:
  assumes ops: "ops_safe ar ops" and ok: "omap_ok b1" "omap_ok b2"
  shows "heap_ok ar w st \<Longrightarrow> snd ` set as \<subseteq> LV w \<Longrightarrow> snd ` set bs \<subseteq> LV w \<Longrightarrow> b1 = p1 @ as \<Longrightarrow> b2 = p2 @ bs \<Longrightarrow> map fst p1 = map fst p2 \<Longrightarrow>
    safe ar w (assert_attrs ops b1 b2 as bs) st any"
proof (induction as bs arbitrary: w st p1 p2 rule: list_induct2')
  case (4 i as j bs)
  show ?case
  proof (cases "fst i = fst j")
    case True
    have "safe ar w (mbind (o_assertEqValues ops (Cell (snd i)) (Cell (snd j))) (\<lambda>_. assert_attrs ops b1 b2 as bs)) st any"
    proof (rule safe_bind [OF ops_safeD(5) [OF ops "4.prems"(1)]], goal_cases)
      case (3 r w1 st1)
      have "LV w \<subseteq> LV w1" using 3(2) by (simp add: grows_def)
      then have "snd ` set as \<subseteq> LV w1" "snd ` set bs \<subseteq> LV w1" using "4.prems"(2, 3) by auto
      then show ?case using "4.prems" True by (intro "4.IH" [OF 3(1), of "p1 @ [i]" "p2 @ [j]"]) simp_all
    qed (use "4.prems" in auto)
    then show ?thesis using True by simp
  next
    case False
    have "sorted_get b2 (fst i) = None \<or> sorted_get b1 (fst j) = None"
    proof (cases "fst i < fst j")
      case True
      from differing_name [OF ok [unfolded "4.prems"(4, 5)] "4.prems"(6) True] show ?thesis unfolding "4.prems"(5) ..
    next
      case ge: False
      then have "fst j < fst i" using False by simp
      from differing_name [OF ok(2, 1) [unfolded "4.prems"(4, 5)] "4.prems"(6) [symmetric] this] show ?thesis unfolding "4.prems"(4) ..
    qed
    then show ?thesis using False by (auto simp del: mlift_app intro!: safe_fail [OF "4.prems"(1)])
  qed
qed (auto simp del: mlift_app intro: safe_ret)

lemma assert_forced_safe:
  assumes ops: "ops_safe ar ops" and heap: "heap_ok ar w st" and lv: "lval_ok ar w st a" "lval_ok ar w st b"
    and v: "res ar v1 w st" "res ar v2 w st"
  shows "safe ar w (assert_forced p ops a b v1 v2) st any"
proof -
  note rules = safe_ret [OF heap] safe_fail [OF heap]
  have number: "safe ar w (mbind (eqValues p ops a b) (\<lambda>r. if r then mret () else mfail (AssertionError ''number is not equal to number''))) st any"
    by (rule safe_bind [OF eqValues_safe [OF ops heap lv]]) (auto simp del: mlift_app intro!: safe_ret safe_fail)
  have attrs: "safe ar w (mbind (derivation_outPaths ops as bs) (\<lambda>r.
               case r of
                 Some (i, j) \<Rightarrow> o_assertEqValues ops (Cell i) (Cell j)
               | None \<Rightarrow>
                   if length as \<noteq> length bs then mfail (AssertionError ''attribute names of attribute set differ'')
                   else assert_attrs ops as bs as bs)) st any"
    if ok: "bs_ok w as" "bs_ok w bs" for as bs
  proof (rule safe_bind [OF derivation_outPaths_safe [OF ops heap ok]], goal_cases)
    case (1 r w1 st1)
    have ok1: "bs_ok w1 as" "bs_ok w1 bs" using ok bs_ok_grows [OF 1(2)] by auto
    then have "safe ar w1 (assert_attrs ops as bs as bs) st1 any"
      by (intro assert_attrs_safe [OF ops _ _ 1(1), where ?p1.0 = "[]" and ?p2.0 = "[]"]) (simp_all add: bs_ok_def)
    then show ?case
      using 1 by (auto simp del: mlift_app split: option.split intro!: safe_fail ops_safeD(5) [OF ops 1(1)])
  qed
  show ?thesis
  proof (cases "is_number v1 \<and> is_number v2 \<or> value_type v1 \<noteq> value_type v2")
    case True
    then show ?thesis using number by (auto simp: assert_forced_def simp del: mlift_app intro!: rules)
  next
    case False
    then have ty: "value_type v1 = value_type v2" "\<not> (is_number v1 \<and> is_number v2)" by auto
    show ?thesis
    proof (cases v1)
      case (VAttrs as)
      then obtain bs where bs: "v2 = VAttrs bs" using ty by (cases v2) simp_all
      show ?thesis
        unfolding assert_forced_def if_not_P [OF ty(2)] using attrs [of as bs] v VAttrs bs by simp
    next
      case (VList as)
      then obtain bs where "v2 = VList bs" using ty by (cases v2) simp_all
      then show ?thesis
        unfolding assert_forced_def if_not_P [OF ty(2)] using v VList by (auto simp del: mlift_app intro!: rules assert_list_safe [OF ops heap])
    qed (use ty v in \<open>cases v2; auto simp: assert_forced_def is_number_def res_def whnf_def simp del: mlift_app intro!: rules\<close>)+
  qed
qed

lemma assertEqValues_safe:
  assumes ops: "ops_safe ar ops" and heap: "heap_ok ar w st" and lv: "lval_ok ar w st a" "lval_ok ar w st b"
  shows "safe ar w (assertEqValues p ops a b) st any"
  unfolding assertEqValues_def
proof (rule safe_bind [OF forceValue_safe [OF ops heap lv(1)]], goal_cases)
  case (1 v1 w1 st1)
  note one = this
  show ?case
  proof (rule safe_bind [OF forceValue_safe [OF ops 1(1) lval_ok_grows [OF 1(2) heap lv(2)]]], goal_cases)
    case (1 v2 w2 st2)
    have v1: "res ar v1 w2 st2" using res_grows [OF 1(2) one(1, 3)] .
    have "lval_ok ar w2 st2 a" "lval_ok ar w2 st2 b"
      using lval_ok_grows [OF grows_trans [OF one(2) 1(2)] heap] lv by auto
    then have "lval_ok ar w2 st2 (case a of Cell i \<Rightarrow> a | Temp _ \<Rightarrow> Temp v1)" "lval_ok ar w2 st2 (case b of Cell i \<Rightarrow> b | Temp _ \<Rightarrow> Temp v2)"
      using v1 1(3) by (cases a; simp add: res_def; cases b; simp add: res_def)+
    from assert_forced_safe [OF ops 1(1) this v1 1(3)] show ?case using 1(1) by (auto simp del: mlift_app intro: safe_ret)
  qed
qed

section \<open>Calls\<close>

definition found :: "Bindings \<Rightarrow> FormalList \<Rightarrow> nat" where
  "found bs formals = length (filter (\<lambda>f. sorted_get bs (fst f) \<noteq> None) formals)"

lemma bind_formals_builds:
  assumes "heap_part ar w I st" "env2 \<in> I" "env2 \<in> LE w" "n \<le> env2" "filled st env2 displ m" "displ + length formals = m" "bs_ok w bs"
    and "\<And>name d. (name, Some d) \<in> set formals \<Longrightarrow> well_bound (env_shape (es_envs st) env2) d"
  shows "builds n ar w (bind_formals env2 displ bs formals used) st I (\<lambda>r w' st'. filled st' env2 m m \<and> r = used + found bs formals)"
  using assms
proof (induction formals arbitrary: w st displ used)
  case Nil
  then show ?case unfolding bind_formals.simps by (intro builds_ret) (auto simp: found_def)
next
  case (Cons x formals)
  obtain name def where x: "x = (name, def)" by (cases x)
  have rest: "builds n ar w2 (mbind (writeSlot env2 displ v) (\<lambda>_. bind_formals env2 (displ + 1) bs formals used')) st2 I
      (\<lambda>r w' st'. filled st' env2 m m \<and> r = used' + found bs formals)"
    if 2: "heap_part ar w2 I st2" "grows w st w2 st2" "v \<in> LV w2" "filled st2 env2 displ m" for w2 st2 v used'
  proof -
    have "displ < m" using Cons.prems(6) by simp
    note wr = writeSlot_builds [OF 2(1) Cons.prems(2) grows_LE [OF 2(2) Cons.prems(3)] Cons.prems(4) 2(3, 4) this]
    show ?thesis
    proof (rule builds_bind [OF wr], goal_cases)
      case (1 a w3 st3)
      have g: "grows w st w3 st3" using grows_trans [OF 2(2) 1(2)] .
      have sh: "env_shape (es_envs st3) env2 = env_shape (es_envs st) env2" using grows_shape [OF g Cons.prems(1, 3)] .
      show ?case
        by (rule Cons.IH [OF 1(1) Cons.prems(2) grows_LE [OF g Cons.prems(3)] Cons.prems(4) _ _ bs_ok_grows [OF g Cons.prems(7)], unfolded sh])
          (use 1(3) Cons.prems(6, 8) in auto)
    qed
  qed
  show ?case
  proof (cases "sorted_get bs name")
    case (Some v)
    from rest [OF Cons.prems(1) grows_refl bs_ok_get [OF Cons.prems(7) Some] Cons.prems(5), of "used + 1"]
    show ?thesis by (simp add: x Some found_def)
  next
    case None
    show ?thesis
    proof (cases def)
      case (Some d)
      have e: "expr_ok w st env2 d" using Cons.prems(3, 8) x Some by (auto simp: expr_ok_def)
      have "builds n ar w (mbind (maybeThunk env2 d) (\<lambda>v. mbind (writeSlot env2 displ v) (\<lambda>_. bind_formals env2 (displ + 1) bs formals used))) st I
        (\<lambda>r w' st'. filled st' env2 m m \<and> r = used + found bs formals)"
      proof (rule builds_bind [OF maybeThunk_builds [OF Cons.prems(1) e]], goal_cases)
        case (1 v w1 st1)
        then show ?case using Cons.prems(5) filled_envs [of st1 st] by (intro rest) simp_all
      qed
      then show ?thesis by (simp add: x None Some found_def)
    qed (use None x in \<open>auto simp del: mlift_app intro: builds_fail\<close>)
  qed
qed

text \<open>When every attribute is a formal argument, all of them have been counted.\<close>

lemma found_all:
  assumes "omap_ok bs" "omap_ok formals" "\<not> list_ex (\<lambda>b. sorted_get formals (fst b) = None) bs"
  shows "found bs formals = length bs"
proof -
  have d: "distinct (map fst bs)" "distinct (map fst formals)" and s: "sorted (map fst bs)" "sorted (map fst formals)"
    using assms(1, 2) by (auto simp: strict_sorted_iff)
  let ?F = "filter (\<lambda>f. sorted_get bs (fst f) \<noteq> None) formals"
  have sub: "fst ` set bs \<subseteq> fst ` set formals"
    using assms(3) s(2) by (force simp: list_ex_iff map_of_eq_None_iff)
  have "set (map fst ?F) = {k \<in> fst ` set formals. sorted_get bs k \<noteq> None}" by auto
  also have "\<dots> = {k \<in> fst ` set formals. k \<in> fst ` set bs}" using s(1) map_of_eq_None_iff [of bs] by simp
  also have "\<dots> = fst ` set bs" using sub by blast
  finally have "set (map fst ?F) = fst ` set bs" .
  moreover have "distinct (map fst ?F)" using d(2) by (rule distinct_map_filter)
  ultimately have "length (map fst ?F) = card (fst ` set bs)" by (metis distinct_card)
  also have "\<dots> = length bs" using distinct_card [OF d(1)] by simp
  finally show ?thesis by (simp add: found_def)
qed

text \<open>The environment of a call of a function with formals, once the argument is known to be a set.\<close>

definition formals_scope :: "eid \<Rightarrow> Symbol option \<Rightarrow> FormalList \<Rightarrow> bool \<Rightarrow> vid \<Rightarrow> Bindings \<Rightarrow> eid ev" where
  "formals_scope env arg formals ellipsis v bs =
     mbind (allocEnv ((if arg = None then 0 else 1) + length formals) env) (\<lambda>env2.
     mbind (if arg = None then mret 0 else mbind (writeSlot env2 0 v) (\<lambda>_. mret 1)) (\<lambda>displ.
     mbind (bind_formals env2 displ bs formals 0) (\<lambda>attrsUsed.
     if \<not> ellipsis \<and> attrsUsed \<noteq> length bs then
       (if list_ex (\<lambda>b. sorted_get formals (fst b) = None) bs
        then mfail (TypeError ''function %1% called with unexpected argument %2%'')
        else mfail (AssertionFailed ''unreachable''))
     else mret env2)))"

lemma slot_arg_builds:
  assumes "heap_part ar w I st" "env2 \<in> I" "env2 \<in> LE w" "n \<le> env2" "v \<in> LV w" "filled st env2 0 m" "(if arg = None then 0 else 1) + k = m"
  shows "builds n ar w (if arg = None then mret 0 else mbind (writeSlot env2 0 v) (\<lambda>_. mret 1)) st I
    (\<lambda>displ w' st'. filled st' env2 displ m \<and> displ + k = m)"
proof (cases arg)
  case None
  then show ?thesis using assms by (auto simp del: mlift_app intro: builds_ret)
next
  case (Some x)
  then have "0 < m" using assms(7) by simp
  have "builds n ar w (mbind (writeSlot env2 0 v) (\<lambda>_. mret 1)) st I (\<lambda>displ w' st'. filled st' env2 displ m \<and> displ + k = m)"
    by (rule builds_bind [OF writeSlot_builds [OF assms(1-6) \<open>0 < m\<close>]]) (use assms(7) Some in \<open>auto simp del: mlift_app intro: builds_ret\<close>)
  then show ?thesis using Some by simp
qed

lemma formals_scope_builds:
  assumes heap: "heap_ok ar w st" and env: "env \<in> LE w" and v: "v \<in> LV w" and bs: "bs_ok w bs" and om: "omap_ok formals"
    and sh: "lambda_size arg (Some (formals, ellipsis)) # env_shape (es_envs st) env = sh" and body: "well_bound sh body"
    and defs: "\<And>name d. (name, Some d) \<in> set formals \<Longrightarrow> well_bound sh d"
  shows "builds (length (es_envs st)) ar w (formals_scope env arg formals ellipsis v bs) st {} (\<lambda>env2 w' st'. expr_ok w' st' env2 body)"
  unfolding formals_scope_def
proof (rule builds_bind [OF allocEnv_builds [OF heap env order.refl]], goal_cases)
  case (1 env2 w2 st2)
  note two = this
  let ?n = "length (es_envs st)" and ?m = "(if arg = None then 0 else 1) + length formals"
  have m: "?m = lambda_size arg (Some (formals, ellipsis))" by (cases arg) (simp_all add: lambda_size_def)
  have e2: "env2 = ?n" "env2 \<in> LE w2" "filled st2 env2 0 ?m" "env_shape (es_envs st2) env2 = sh" using 1(3) sh m by auto
  show ?case
  proof (rule builds_bind [OF slot_arg_builds [OF 1(1) _ e2(2) _ grows_LV [OF 1(2) v] e2(3) refl]], goal_cases)
    case (3 displ w3 st3)
    note three = this
    have e3: "env2 \<in> LE w3" "env_shape (es_envs st3) env2 = sh" using e2 grows_LE [OF 3(2)] grows_shape [OF 3(2) two(1)] by auto
    have bs3: "bs_ok w3 bs" using bs_ok_grows [OF 3(2) bs_ok_grows [OF two(2) bs]] .
    have "builds ?n ar w3 (bind_formals env2 displ bs formals 0) st3 {} (\<lambda>r w' st'. grows w3 st3 w' st' \<and> r = found bs formals)"
      by (rule builds_mono [OF bind_formals_builds [OF 3(1) _ e3(1) _ _ _ bs3, where m = ?m, unfolded e3(2)]])
        (use 3(3) e2 defs in \<open>auto intro: filled_done\<close>)
    then show ?case
    proof (rule builds_bind, goal_cases)
      case (1 used w4 st4)
      have e4: "expr_ok w4 st4 env2 body"
        using grows_LE [OF 1(2) e3(1)] grows_shape [OF 1(2) three(1) e3(1)] e3 body by (simp add: expr_ok_def)
      have "\<not> (\<not> list_ex (\<lambda>b. sorted_get formals (fst b) = None) bs \<and> used \<noteq> length bs)"
        using 1(3) found_all [of bs formals] bs om by (auto simp: bs_ok_def)
      then show ?case using e4 1(1) by (auto simp del: mlift_app intro!: builds_ret builds_fail)
    qed
  qed (use e2 in auto)
qed

lemma enterLambda_safe:
  assumes ops: "ops_safe ar ops" and heap: "heap_ok ar w st" and v: "v \<in> LV w"
    and lam: "expr_ok w st env (ExprLambda arg fs body)"
  shows "safe ar w (enterLambda ops env arg fs v) st (\<lambda>env2 w' st'. expr_ok w' st' env2 body)"
proof (cases fs)
  case None
  have env: "env \<in> LE w" and arg: "arg \<noteq> None" and body: "well_bound (1 # env_shape (es_envs st) env) body"
    using lam None by (auto simp: expr_ok_def lambda_size_def split: option.splits)
  have "builds (length (es_envs st)) ar w (mbind (allocEnv 1 env) (\<lambda>env2. mbind (writeSlot env2 0 v) (\<lambda>_. mret env2))) st {}
    (\<lambda>env2 w' st'. expr_ok w' st' env2 body)"
  proof (rule builds_bind [OF allocEnv_builds [OF heap env order.refl]], goal_cases)
    case (1 env2 w1 st1)
    then have e2: "env2 = length (es_envs st)" "env2 \<in> LE w1" "filled st1 env2 0 1" "env_shape (es_envs st1) env2 = 1 # env_shape (es_envs st) env"
      by auto
    have "builds (length (es_envs st)) ar w1 (writeSlot env2 0 v) st1 {} (\<lambda>_ w' st'. grows w1 st1 w' st')"
      by (rule builds_mono [OF writeSlot_builds [OF 1(1) _ e2(2) _ grows_LV [OF 1(2) v] e2(3)]])
        (use e2 in \<open>auto intro: filled_done\<close>)
    then show ?case
    proof (rule builds_bind, goal_cases)
      case (1 u w2 st2)
      with e2 body grows_LE [OF 1(2) e2(2)] grows_shape [OF 1(2) \<open>heap_part ar w1 {length (es_envs st)} st1\<close> e2(2)]
      show ?case by (intro builds_ret) (simp_all add: expr_ok_def)
    qed
  qed
  from builds_safe [OF this heap] show ?thesis using arg by (auto simp: enterLambda_def None)
next
  case (Some a)
  obtain formals ellipsis where a: "a = (formals, ellipsis)" by (cases a)
  define sh where "sh = lambda_size arg fs # env_shape (es_envs st) env"
  have env: "env \<in> LE w" and body: "well_bound sh body" and om: "omap_ok formals"
    and defs: "\<And>name d. (name, Some d) \<in> set formals \<Longrightarrow> well_bound sh d"
    using lam Some a by (auto simp: expr_ok_def sh_def list_all_iff Let_def)
  have "safe ar w (mbind (forceAttrs ops (Cell v)) (formals_scope env arg formals ellipsis v)) st (\<lambda>env2 w' st'. expr_ok w' st' env2 body)"
  proof (rule safe_bind [OF force_safe(1) [OF ops heap]], goal_cases)
    case (2 bs w1 st1)
    have "lambda_size arg (Some (formals, ellipsis)) # env_shape (es_envs st1) env = sh"
      using grows_shape [OF 2(2) heap env] by (simp add: sh_def Some a)
    from builds_safe [OF formals_scope_builds [OF 2(1) grows_LE [OF 2(2) env] grows_LV [OF 2(2) v] 2(3) om this body] 2(1)] defs
    show ?case by simp
  qed (use v in simp)
  moreover have "enterLambda ops env arg fs v = mbind (forceAttrs ops (Cell v)) (formals_scope env arg formals ellipsis v)"
    by (simp add: enterLambda_def Some a formals_scope_def [abs_def] del: mlift_app)
  ultimately show ?thesis by simp
qed

text \<open>A partial application is walked to its end within the fuel.\<close>

lemma papp_walk_ok: "papp w V b v i args \<Longrightarrow> b \<le> fuel \<Longrightarrow> papp_walk fuel V v = Some (Inr (i, args)) \<and> set args \<subseteq> LV w"
proof (induction arbitrary: fuel rule: papp.induct)
  case (papp_app l b r i args)
  then obtain f where "fuel = Suc f" "l \<le> f" by (cases fuel) auto
  with papp_app show ?case by auto
qed simp

definition partial :: "(nat \<Rightarrow> nat option) \<Rightarrow> Value \<Rightarrow> world \<Rightarrow> EvalState \<Rightarrow> nat \<Rightarrow> bool" where
  "partial ar v w st k \<longleftrightarrow> (\<exists>i args n. papp w (es_values st) (length (es_values st)) v i args \<and> ar i = Some n \<and> length args + k < n)"

lemma partial_res:
  assumes "partial ar v w st k"
  shows "res ar v w st"
proof -
  from assms obtain i args n where p: "papp w (es_values st) (length (es_values st)) v i args" "ar i = Some n" "length args < n"
    by (auto simp: partial_def)
  from p(1) have "value_ok ar w st v" by cases (use p in \<open>auto, blast\<close>)
  with papp_whnf [OF p(1)] show ?thesis by (simp add: res_def)
qed

lemma papp_args_safe:
  assumes "heap_ok ar w st" "res ar (VPrimOpApp l r) w st"
  shows "safe ar w (papp_args (VPrimOpApp l r)) st (\<lambda>x w' st'. w' = w \<and> st' = st \<and> set (snd x) \<subseteq> LV w \<and>
    papp w (es_values st) (length (es_values st)) (VPrimOpApp l r) (fst x) (snd x) \<and> (\<exists>n. ar (fst x) = Some n \<and> length (snd x) < n))"
proof -
  from assms(2) obtain i args n where p: "papp w (es_values st) (length (es_values st)) (VPrimOpApp l r) i args" "ar i = Some n" "length args < n"
    by (auto simp: res_def)
  from papp_walk_ok [OF p(1), of "length (es_values st) + 1"] p assms(1) show ?thesis by (auto simp: safe_def papp_args_def)
qed

lemma value_ok_link:
  assumes "value_ok ar w st v" "LP w \<subseteq> L"
  shows "value_ok ar (w\<lparr>LP := L\<rparr>) st v"
proof (cases v)
  case (VPrimOpApp l r)
  with assms(1) obtain i args n where p: "papp w (es_values st) (length (es_values st)) v i args" "ar i = Some n" "length args < n" by auto
  have "papp (w\<lparr>LP := L\<rparr>) (es_values st) (length (es_values st)) v i args" by (rule papp_mono [OF p(1)]) (use assms(2) in simp_all)
  with p VPrimOpApp show ?thesis by auto
qed (use assms in auto)

lemma alloc_link_safe:
  assumes "heap_ok ar w st" "partial ar v w st (Suc k)" "arg \<in> LV w"
  shows "safe ar w (mbind (allocValue v) (\<lambda>fun2. mret (VPrimOpApp fun2 arg))) st (\<lambda>v w' st'. partial ar v w' st' k)"
proof -
  let ?i = "length (es_values st)"
  let ?u = "w\<lparr>LV := insert ?i (LV w)\<rparr>" and ?st = "st\<lparr>es_values := es_values st @ [v]\<rparr>"
  let ?w = "?u\<lparr>LP := insert ?i (LP w)\<rparr>"
  from assms(2) obtain i args n where p: "papp w (es_values st) ?i v i args" "ar i = Some n" "length args + Suc k < n"
    by (auto simp: partial_def)
  have ok: "value_ok ar w st v" and wh: "whnf v" using partial_res [OF assms(2)] by (simp_all add: res_def)
  have h0: "heap_ok ar ?u ?st" using heap_alloc [OF assms(1) ok] .
  have g: "grows w st ?w ?st" using grows_alloc [OF assms(1), of v] by (auto simp: grows_def)
  have "heap_ok ar ?w ?st"
    unfolding heap_part_def
  proof (intro conjI ballI)
    fix x assume "x \<in> LV ?w"
    then have "x \<in> LV ?u" by simp
    from heap_LV [OF h0 this] show "x < length (es_values ?st)" "value_ok ar ?w ?st (es_values ?st ! x)"
      by (auto intro: value_ok_link)
  next
    fix e assume "e \<in> LE ?w"
    then have "e \<in> LE ?u" by simp
    from heap_LE [OF h0 this] show "e < length (es_envs ?st)" "env_ok ?w {} e (es_envs ?st ! e)" by (auto simp: env_ok_def split: option.splits)
  next
    fix l assume "l \<in> LP ?w"
    then have "l = ?i \<or> l \<in> LP ?u" by simp
    then show "whnf (es_values ?st ! l)" using h0 wh by (auto simp: heap_part_def)
  next
    show "LP ?w \<subseteq> LV ?w" using assms(1) by (auto simp: heap_part_def)
  qed (use assms(1) in \<open>simp add: heap_part_def\<close>)
  moreover have "papp ?w (es_values ?st) ?i v i args"
    by (rule papp_mono [OF p(1)]) (use g in \<open>auto simp: grows_def\<close>)
  then have "papp ?w (es_values ?st) (length (es_values ?st)) (VPrimOpApp ?i arg) i (args @ [arg])"
    using assms(3) by (intro papp_app) auto
  then have "partial ar (VPrimOpApp ?i arg) ?w ?st k" using p(2, 3) unfolding partial_def by fastforce
  ultimately show ?thesis using g by (auto simp: safe_def mbind_def allocValue_def)
qed

lemma makeAppChain_safe:
  assumes "heap_ok ar w st" "partial ar v w st (length args)" "set args \<subseteq> LV w"
  shows "safe ar w (makeAppChain v args) st (res ar)"
proof -
  have "heap_ok ar w st \<Longrightarrow> partial ar v w st (length args) \<Longrightarrow> set args \<subseteq> LV w \<Longrightarrow>
    safe ar w (mfold (\<lambda>arg v. mbind (allocValue v) (\<lambda>fun2. mret (VPrimOpApp fun2 arg))) args v) st (\<lambda>v w' st'. partial ar v w' st' 0)"
  proof (induction args arbitrary: v w st)
    case Nil
    then show ?case unfolding mfold.simps by (intro safe_ret) simp_all
  next
    case (Cons a args)
    show ?case
      unfolding mfold.simps
    proof (rule safe_bind [OF alloc_link_safe [OF Cons.prems(1), where k = "length args"]], goal_cases)
      case (3 v' w1 st1)
      then show ?case using set_LV_grows [OF 3(2) Cons.prems(3)] by (intro Cons.IH) simp_all
    qed (use Cons.prems in simp_all)
  qed
  from safe_mono [OF this [OF assms]] show ?thesis unfolding makeAppChain_def using partial_res by blast
qed

text \<open>
  What the evaluator relies on from a primitive operation: given safe recursive calls and as many
  arguments as its arity, which is at most \<^verbatim>\<open>maxPrimOpArity\<close>, it is safe.
\<close>

definition arity_of :: "EvalParams \<Rightarrow> nat \<Rightarrow> nat option" where
  "arity_of p i = map_option po_arity (ep_primOps p i)"

definition primOps_safe :: "EvalParams \<Rightarrow> bool" where
  "primOps_safe p \<longleftrightarrow>
     (\<forall>i fn. ep_primOps p i = Some fn \<longrightarrow> po_arity fn \<le> maxPrimOpArity \<and>
        (\<forall>ops w st args. ops_safe (arity_of p) ops \<longrightarrow> heap_ok (arity_of p) w st \<longrightarrow> set args \<subseteq> LV w \<longrightarrow> length args = po_arity fn \<longrightarrow>
           safe (arity_of p) w (po_fun fn ops args) st (res (arity_of p))))"

lemma primOps_safeD:
  assumes "primOps_safe p" "ep_primOps p i = Some fn" "ops_safe (arity_of p) ops" "heap_ok (arity_of p) w st" "set args \<subseteq> LV w" "length args = po_arity fn"
  shows "safe (arity_of p) w (po_fun fn ops args) st (res (arity_of p))"
  using assms unfolding primOps_safe_def by blast

lemma call_primOp_safe:
  assumes p: "primOps_safe p" "ep_primOps p i = Some fn" and ops: "ops_safe (arity_of p) ops" and heap: "heap_ok (arity_of p) w st"
    and args: "set vArgs \<subseteq> LV w" "set rest \<subseteq> LV w" "length vArgs = po_arity fn"
  shows "safe (arity_of p) w (mbind (po_fun fn ops vArgs) (\<lambda>v. o_callLoop ops v rest)) st (res (arity_of p))"
  by (rule safe_bind [OF primOps_safeD [OF p ops heap args(1, 3)]])
    (auto intro!: ops_safeD(3) [OF ops] dest: set_LV_grows [OF _ args(2)])

lemma set_take_drop_LV: "set args \<subseteq> LV w \<Longrightarrow> set (take n args) \<subseteq> LV w" "set args \<subseteq> LV w \<Longrightarrow> set (drop n args) \<subseteq> LV w"
  by (auto dest: in_set_takeD in_set_dropD)

lemma call_papp_safe:
  assumes p: "primOps_safe p" and ops: "ops_safe (arity_of p) ops" and heap: "heap_ok (arity_of p) w st"
    and v: "res (arity_of p) (VPrimOpApp l r) w st" and args: "set args \<subseteq> LV w"
  shows "safe (arity_of p) w (mbind (papp_args (VPrimOpApp l r)) (\<lambda>(i, vArgs).
               case ep_primOps p i of
                 None \<Rightarrow> null_deref
               | Some fn \<Rightarrow>
                   if po_arity fn < length vArgs \<or> length args < po_arity fn - length vArgs then makeAppChain (VPrimOpApp l r) args
                   else if po_arity fn > maxPrimOpArity then null_deref
                   else mbind (po_fun fn ops (vArgs @ take (po_arity fn - length vArgs) args))
                     (\<lambda>v. o_callLoop ops v (drop (po_arity fn - length vArgs) args)))) st (res (arity_of p))"
proof (rule safe_bind [OF papp_args_safe [OF heap v]], goal_cases)
  case (1 x w1 st1)
  obtain i vArgs where x: "x = (i, vArgs)" by (cases x)
  with 1 have w: "w1 = w" "st1 = st" "set vArgs \<subseteq> LV w" "papp w (es_values st) (length (es_values st)) (VPrimOpApp l r) i vArgs"
    and "\<exists>n. arity_of p i = Some n \<and> length vArgs < n" by auto
  then obtain fn where fn: "ep_primOps p i = Some fn" "length vArgs < po_arity fn" by (auto simp: arity_of_def)
  have max: "po_arity fn \<le> maxPrimOpArity" using p fn(1) unfolding primOps_safe_def by blast
  show ?case
  proof (cases "length args < po_arity fn - length vArgs")
    case True
    then have "partial (arity_of p) (VPrimOpApp l r) w st (length args)" using fn w(4) by (fastforce simp: partial_def arity_of_def)
    from makeAppChain_safe [OF heap this args] show ?thesis using True fn w x by simp
  next
    case False
    have "set (vArgs @ take (po_arity fn - length vArgs) args) \<subseteq> LV w" using w(3) set_take_drop_LV(1) [OF args] by simp
    from call_primOp_safe [OF p fn(1) ops heap this set_take_drop_LV(2) [OF args]] False fn max show ?thesis using w x by simp
  qed
qed

lemma callLoop_safe:
  assumes p: "primOps_safe p" and ops: "ops_safe (arity_of p) ops" and heap: "heap_ok (arity_of p) w st"
    and v: "res (arity_of p) vCur w st" and args: "set args \<subseteq> LV w"
  shows "safe (arity_of p) w (callLoop p ops vCur args) st (res (arity_of p))"
proof (cases args)
  case Nil
  then show ?thesis using heap v by (auto simp: callLoop_def simp del: mlift_app intro: safe_ret)
next
  case (Cons arg rest)
  have a: "arg \<in> LV w" "set rest \<subseteq> LV w" using args Cons by auto
  let ?ar = "arity_of p"
  show ?thesis
  proof (cases vCur)
    case (VLambda env x fs body)
    have lam: "expr_ok w st env (ExprLambda x fs body)" using v VLambda by (simp add: res_def expr_ok_def)
    have "safe ?ar w (mbind (enterLambda ops env x fs arg) (\<lambda>env2. mbind (o_eval ops env2 body) (\<lambda>v. o_callLoop ops v rest))) st (res ?ar)"
    proof (rule safe_bind [OF enterLambda_safe [OF ops heap a(1) lam]], goal_cases)
      case (1 env2 w1 st1)
      have "set rest \<subseteq> LV w1" using set_LV_grows [OF 1(2) a(2)] .
      then show ?case using 1 by (intro safe_bind [OF ops_safeD(1) [OF ops]]) (auto intro!: ops_safeD(3) [OF ops] dest: set_LV_grows)
    qed
    then show ?thesis by (simp add: callLoop_def Cons VLambda)
  next
    case (VPrimOp i)
    then obtain fn where fn: "ep_primOps p i = Some fn" using v by (auto simp: res_def arity_of_def)
    show ?thesis
    proof (cases "length args < po_arity fn")
      case True
      then have "partial ?ar vCur w st (length args)" using fn VPrimOp papp_op by (fastforce simp: partial_def arity_of_def)
      from makeAppChain_safe [OF heap this args] show ?thesis using True fn VPrimOp Cons by (simp add: callLoop_def)
    next
      case False
      from call_primOp_safe [OF p fn ops heap set_take_drop_LV [OF args]] False show ?thesis
        using fn VPrimOp Cons by (simp add: callLoop_def)
    qed
  next
    case (VPrimOpApp l r)
    from call_papp_safe [OF p ops heap v [unfolded VPrimOpApp] args [unfolded Cons]]
    show ?thesis unfolding callLoop_def Cons VPrimOpApp list.case Value.case .
  next
    case (VAttrs bs)
    have bs: "bs_ok w bs" "value_ok ?ar w st vCur" using v VAttrs by (auto simp: res_def bs_ok_def)
    have "safe ?ar w (mbind (allocValue vCur) (\<lambda>self. mbind (o_callFunction ops (Cell f) [self, arg]) (\<lambda>v. o_callLoop ops v rest))) st (res ?ar)"
      if "sorted_get bs sFunctor = Some f" for f
    proof (rule safe_bind [OF safe_alloc [OF heap bs(2)]], goal_cases)
      case (1 self w1 st1)
      have "f \<in> LV w1" "arg \<in> LV w1" "set rest \<subseteq> LV w1" using 1(2) bs_ok_get [OF bs(1) that] a by (auto intro: grow_intros dest: grows_LV)
      then show ?case using 1 by (intro safe_bind [OF ops_safeD(2) [OF ops]]) (auto intro!: ops_safeD(3) [OF ops] dest: set_LV_grows)
    qed
    then show ?thesis using heap by (auto simp: callLoop_def Cons VAttrs simp del: mlift_app split: option.split intro: safe_fail)
  qed (use heap Cons in \<open>auto simp: callLoop_def simp del: mlift_app intro: safe_fail\<close>)
qed

text \<open>The call depth is not part of the heap.\<close>

lemma value_ok_depth [simp]: "value_ok ar w (st\<lparr>es_callDepth := d\<rparr>) v = value_ok ar w st v"
  by (cases v) auto

lemma heap_ok_depth [simp]: "heap_part ar w I (st\<lparr>es_callDepth := d\<rparr>) = heap_part ar w I st"
  by (simp add: heap_part_def)

lemma grows_depth [simp]: "grows w (st\<lparr>es_callDepth := d\<rparr>) w' st' = grows w st w' st'" "grows w st w' (st'\<lparr>es_callDepth := d\<rparr>) = grows w st w' st'"
  by (simp_all add: grows_def)

lemma lval_ok_depth [simp]: "lval_ok ar w (st\<lparr>es_callDepth := d\<rparr>) lv = lval_ok ar w st lv"
  by (cases lv) auto

lemma safe_at_depth:
  assumes "safe ar w m (st\<lparr>es_callDepth := d\<rparr>) (res ar)"
  shows "safe ar w (at_exit m (\<lambda>st. st\<lparr>es_callDepth := f st\<rparr>)) (st\<lparr>es_callDepth := d\<rparr>) (res ar)"
proof -
  have res: "res ar v w' (st'\<lparr>es_callDepth := d'\<rparr>) = res ar v w' st'" for v w' st' d' by (simp add: res_def)
  show ?thesis
    unfolding safe_def
  proof (intro allI impI)
    fix r st'
    assume "at_exit m (\<lambda>st. st\<lparr>es_callDepth := f st\<rparr>) (st\<lparr>es_callDepth := d\<rparr>) = Some (r, st')"
    then obtain st1 where st1: "m (st\<lparr>es_callDepth := d\<rparr>) = Some (r, st1)" "st' = st1\<lparr>es_callDepth := f st1\<rparr>"
      by (auto simp: at_exit_def)
    with assms obtain w' where "heap_ok ar w' st1" "grows w st w' st1" "case r of Inl e \<Rightarrow> proper e | Inr a \<Rightarrow> res ar a w' st1"
      by (auto simp: safe_def)
    then show "\<exists>w'. heap_ok ar w' st' \<and> grows w (st\<lparr>es_callDepth := d\<rparr>) w' st' \<and> (case r of Inl e \<Rightarrow> proper e | Inr a \<Rightarrow> res ar a w' st')"
      unfolding st1(2) by (auto simp: res split: sum.splits)
  qed
qed

lemma callFunction_safe:
  assumes ops: "ops_safe ar ops" and heap: "heap_ok ar w st" and lv: "lval_ok ar w st lv" and args: "set args \<subseteq> LV w"
  shows "safe ar w (callFunction p ops lv args) st (res ar)"
proof (cases "es_callDepth st > ep_maxCallDepth p")
  case True
  then show ?thesis using heap by (auto simp: callFunction_def safe_def)
next
  case False
  let ?st = "st\<lparr>es_callDepth := es_callDepth st + 1\<rparr>"
  have "safe ar w (mbind (forceValue ops lv) (\<lambda>vCur. o_callLoop ops vCur args)) ?st (res ar)"
    by (rule safe_bind [OF forceValue_safe [OF ops]]) (use heap lv args in \<open>auto intro!: ops_safeD(3) [OF ops] dest: grows_LV\<close>)
  from safe_at_depth [OF this, of "\<lambda>st. es_callDepth st - 1"] show ?thesis
    using False unfolding callFunction_def safe_def by simp
qed

lemma auto_args_safe:
  assumes "heap_ok ar w st" "bs_ok w args" "omap_ok formals"
  shows "safe ar w (auto_args args formals) st (\<lambda>bs w' st'. w' = w \<and> st' = st \<and> omap_ok bs \<and> set bs \<subseteq> set args \<and> fst ` set bs \<subseteq> fst ` set formals)"
  using assms(3)
proof (induction formals)
  case Nil
  then show ?case unfolding auto_args.simps using assms(1) by (intro safe_ret) auto
next
  case (Cons x formals)
  obtain name def where x: "x = (name, def)" by (cases x)
  have IH: "safe ar w (auto_args args formals) st (\<lambda>bs w' st'. w' = w \<and> st' = st \<and> omap_ok bs \<and> set bs \<subseteq> set args \<and> fst ` set bs \<subseteq> fst ` set formals)"
    using Cons by simp
  show ?case
  proof (cases "sorted_get args name")
    case None
    have "safe ar w (auto_args args formals) st (\<lambda>bs w' st'. w' = w \<and> st' = st \<and> omap_ok bs \<and> set bs \<subseteq> set args \<and> fst ` set bs \<subseteq> fst ` set (x # formals))"
      by (rule safe_mono [OF IH]) auto
    then show ?thesis using None x assms(1) by (auto simp del: mlift_app intro: safe_fail)
  next
    case (Some v)
    then have mem: "(name, v) \<in> set args" using assms(2) by (auto simp: bs_ok_def strict_sorted_iff dest: map_of_SomeD)
    have "safe ar w (mbind (auto_args args formals) (\<lambda>bs. mret ((name, v) # bs))) st
      (\<lambda>bs w' st'. w' = w \<and> st' = st \<and> omap_ok bs \<and> set bs \<subseteq> set args \<and> fst ` set bs \<subseteq> fst ` set (x # formals))"
    proof (rule safe_bind [OF IH], goal_cases)
      case (1 bs w1 st1)
      have "\<forall>f \<in> set formals. name < fst f" using Cons.prems x by simp
      moreover have "fst ` set bs \<subseteq> fst ` set formals" using 1(3) by blast
      ultimately have "\<forall>b \<in> set bs. name < fst b" by (metis image_iff subset_iff)
      with 1 mem x show ?case by (intro safe_ret) auto
    qed
    then show ?thesis using Some x by simp
  qed
qed

lemma autoCall_safe:
  assumes ops: "ops_safe ar ops" and heap: "heap_ok ar w st" and args: "bs_ok w args" and lv: "lval_ok ar w st lv"
  shows "safe ar w (autoCallFunction ops args lv) st (res ar)"
  unfolding autoCallFunction_def
proof (rule safe_bind [OF forceValue_safe [OF ops heap lv]], goal_cases)
  case (1 v w1 st1)
  note one = this
  have ok: "value_ok ar w1 st1 v" using 1(3) by (simp add: res_def)
  have lv1: "lval_ok ar w1 st1 lv" using lval_ok_grows [OF 1(2) heap lv] .
  have args1: "bs_ok w1 args" using bs_ok_grows [OF 1(2) args] .
  have self_call: "safe ar w1 (mbind (cell_of lv v) (\<lambda>self.
              mbind (o_callFunction ops (Cell f) [self]) (\<lambda>w.
              mbind (allocValue w) (\<lambda>c.
              mbind (forceValue ops (Cell c)) (\<lambda>_. o_autoCall ops args (Cell c)))))) st1 (res ar)" if f: "f \<in> LV w1" for f
  proof (rule safe_bind [OF cell_of_safe [OF 1(1) ok]], goal_cases)
    case (2 self w2 st2)
    note two = this
    show ?case
    proof (rule safe_bind [OF ops_safeD(2) [OF ops 2(1)]], goal_cases)
      case (3 v2 w3 st3)
      note three = this
      show ?case
      proof (rule safe_bind [OF safe_alloc [OF 3(1)]], goal_cases)
        case (2 c w4 st4)
        note four = this
        have args4: "bs_ok w4 args" using args1 two(2) three(2) 2(2) by (meson bs_ok_grows)
        show ?case
          by (rule safe_bind [OF forceValue_safe [OF ops 2(1)]])
            (use four args4 in \<open>auto intro!: ops_safeD(8) [OF ops] dest: grows_LV bs_ok_grows\<close>)
      qed (use 3(3) in \<open>simp add: res_def\<close>)
    qed (use 2(3) grows_LV [OF 2(2) f] in simp_all)
  qed (use lv1 in simp)
  have call: "safe ar w1 (mbind (if ellipsis then mret args else auto_args args formals) (\<lambda>attrs.
         mbind (allocValue (VAttrs (Bindings_sort attrs))) (\<lambda>arg.
           o_callFunction ops (case lv of Cell i \<Rightarrow> Cell i | Temp _ \<Rightarrow> Temp v) [arg]))) st1 (res ar)" if om: "omap_ok formals" for formals ellipsis
  proof (rule safe_bind [where Q' = "\<lambda>bs w' st'. w' = w1 \<and> st' = st1 \<and> omap_ok bs \<and> set bs \<subseteq> set args"], goal_cases)
    case 1
    have "safe ar w1 (auto_args args formals) st1 (\<lambda>bs w' st'. w' = w1 \<and> st' = st1 \<and> omap_ok bs \<and> set bs \<subseteq> set args)"
      by (rule safe_mono [OF auto_args_safe [OF one(1) args1 om]]) simp
    then show ?case using one(1) args1 by (auto simp: bs_ok_def simp del: mlift_app intro!: safe_ret)
  next
    case (2 bs w2 st2)
    have w2: "w2 = w1" "st2 = st1" "omap_ok bs" "snd ` set bs \<subseteq> LV w1" using 2(3) args1 unfolding bs_ok_def by blast+
    have "value_ok ar w2 st2 (VAttrs (Bindings_sort bs))"
      using w2 bs_pre_sort [of w1 bs True] by (auto simp: bs_pre_def strict_sorted_iff bs_ok_def Bindings_sort_def)
    then show ?case
    proof (rule safe_bind [OF safe_alloc [OF 2(1)]], goal_cases)
      case (1 arg w3 st3)
      have "lval_ok ar w3 st3 (case lv of Cell i \<Rightarrow> Cell i | Temp _ \<Rightarrow> Temp v)"
        using 1(2) w2 lv1 ok one(1) by (cases lv) (auto intro: grow_intros dest: grows_LV value_ok_grows)
      with 1 show ?case by (intro ops_safeD(2) [OF ops]) auto
    qed
  qed
  show ?case
  proof (cases v)
    case (VAttrs bs)
    then have "bs_ok w1 bs" using 1(3) by simp
    from self_call [OF bs_ok_get [OF this]] show ?thesis
      using 1 VAttrs by (auto simp del: mlift_app split: option.split intro: safe_ret)
  next
    case (VLambda env x fs body)
    have "omap_ok formals" if "fs = Some (formals, ellipsis)" for formals ellipsis using ok VLambda that by (auto simp: Let_def)
    from call [OF this] show ?thesis using 1 VLambda by (auto simp del: mlift_app split: option.split prod.split intro: safe_ret)
  qed (use 1 in \<open>auto simp del: mlift_app intro!: safe_ret\<close>)
qed

lemma forceDeep_safe:
  assumes ops: "ops_safe ar ops" and heap: "heap_ok ar w st" and lv: "lval_ok ar w st lv"
  shows "safe ar w (forceDeep ops lv seen) st any"
proof (cases "case lv of Cell i \<Rightarrow> i \<in> set seen | Temp _ \<Rightarrow> False")
  case True
  then show ?thesis using heap by (auto simp: forceDeep_def simp del: mlift_app intro: safe_ret)
next
  case False
  show ?thesis
    unfolding forceDeep_def if_not_P [OF False]
  proof (rule safe_bind [OF forceValue_safe [OF ops heap lv]], goal_cases)
    case (1 v w1 st1)
    have deep: "safe ar w1 (mfold (\<lambda>x seen. o_forceDeep ops (Cell (f x)) seen) xs seen) st1 any" if "f ` set xs \<subseteq> LV w1" for f :: "'b \<Rightarrow> vid" and xs seen
    proof (rule mfold_safe [OF _ 1(1)], goal_cases)
      case (1 x b w2 st2)
      then have "f x \<in> LV w2" using that grows_LV by blast
      with 1 show ?case by (intro ops_safeD(7) [OF ops]) auto
    qed simp
    show ?case
      using 1 deep [of snd] deep [of "\<lambda>x. x"] by (auto simp: Let_def bs_ok_def simp del: mlift_app split: Value.split intro!: safe_ret)
  qed
qed

lemma compare_list_safe:
  assumes ops: "ops_safe ar ops"
  shows "heap_ok ar w st \<Longrightarrow> set xs \<subseteq> LV w \<Longrightarrow> set ys \<subseteq> LV w \<Longrightarrow> safe ar w (compare_list ops xs ys) st any"
proof (induction xs ys arbitrary: w st rule: list_induct2')
  case (4 x xs y ys)
  have "safe ar w (o_eqValues ops (Cell x) (Cell y)) st any" by (rule ops_safeD(4) [OF ops]) (use 4 in auto)
  then show ?case
    unfolding compare_list.simps
  proof (rule safe_bind, goal_cases)
    case (1 b w1 st1)
    with "4.prems" have "x \<in> LV w1" "y \<in> LV w1" "set xs \<subseteq> LV w1" "set ys \<subseteq> LV w1" by (auto dest: grows_LV)
    with 1 show ?case by (auto intro!: "4.IH" ops_safeD(9) [OF ops])
  qed
qed (auto simp del: mlift_app intro!: safe_ret)

lemma compare_plain_proper: "compare_plain p v1 v2 = Inl e \<Longrightarrow> proper e"
  by (cases v1) (auto simp: compare_plain_def split: Value.splits)

lemma CompareValues_safe:
  assumes ops: "ops_safe ar ops" and heap: "heap_ok ar w st" and a: "a \<in> LV w" "b \<in> LV w"
  shows "safe ar w (CompareValues p ops a b) st any"
  unfolding CompareValues_def
proof (rule safe_bind [where Q' = "\<lambda>v w' st'. w' = w \<and> st' = st \<and> value_ok ar w st v"], goal_cases)
  case (2 v1 w1 st1)
  then have w1: "w1 = w" "st1 = st" "value_ok ar w st v1" by auto
  show ?case
    unfolding w1(1, 2)
  proof (rule safe_bind [where Q' = "\<lambda>v w' st'. w' = w \<and> st' = st \<and> value_ok ar w st v"], goal_cases)
    case (2 v2 w2 st2)
    then have v2: "value_ok ar w st v2" "w2 = w" "st2 = st" by auto
    have "safe ar w (mlift (compare_plain p v1 v2)) st any"
      by (rule safe_lift [OF heap]) (auto dest: compare_plain_proper)
    with w1 v2 heap show ?case
      by (auto simp del: mlift_app split: Value.split intro!: compare_list_safe [OF ops])
  qed (use a heap in \<open>auto intro: safe_read\<close>)
qed (use a heap in \<open>auto intro: safe_read\<close>)

section \<open>Every expression\<close>

lemma evalBool_safe:
  assumes "ops_safe ar ops" "heap_ok ar w st" "expr_ok w st env e"
  shows "safe ar w (evalBool ops env e) st any"
  unfolding evalBool_def
  by (rule safe_bind [OF ops_safeD(1) [OF assms]]) (auto simp del: mlift_app split: Value.split intro!: safe_ret safe_fail)

lemma eval2_safe:
  assumes ops: "ops_safe ar ops" and heap: "heap_ok ar w st" and e: "expr_ok w st env e1" "expr_ok w st env e2"
    and f: "\<And>v1 v2 w' st'. heap_ok ar w' st' \<Longrightarrow> grows w st w' st' \<Longrightarrow> res ar v1 w' st' \<Longrightarrow> res ar v2 w' st' \<Longrightarrow> safe ar w' (f v1 v2) st' Q"
  shows "safe ar w (mbind (o_eval ops env e1) (\<lambda>v1. mbind (o_eval ops env e2) (f v1))) st Q"
proof (rule safe_bind [OF ops_safeD(1) [OF ops heap e(1)]], goal_cases)
  case (1 v1 w1 st1)
  show ?case
  proof (rule safe_bind [OF ops_safeD(1) [OF ops 1(1) expr_ok_grows [OF 1(2) heap e(2)]]], goal_cases)
    case (1 v2 w2 st2)
    with \<open>heap_ok ar w1 st1\<close> \<open>grows w st w1 st1\<close> \<open>res ar v1 w1 st1\<close> show ?case
      by (intro f) (auto intro: grows_trans res_grows)
  qed
qed

lemma evalBools_safe:
  assumes ops: "ops_safe ar ops" and heap: "heap_ok ar w st" and e: "expr_ok w st env e1" "expr_ok w st env e2"
  shows "safe ar w (mbind (evalBool ops env e1) (\<lambda>b1. if P b1 then mret (VBool c) else mbind (evalBool ops env e2) (\<lambda>b2. mret (VBool b2)))) st (res ar)"
proof (rule safe_bind [OF evalBool_safe [OF ops heap e(1)]], goal_cases)
  case (1 b w1 st1)
  have "safe ar w1 (mbind (evalBool ops env e2) (\<lambda>b2. mret (VBool b2))) st1 (res ar)"
    by (rule safe_bind [OF evalBool_safe [OF ops 1(1) expr_ok_grows [OF 1(2) heap e(2)]]]) (auto simp del: mlift_app intro!: safe_ret)
  then show ?case using 1 by (auto simp del: mlift_app intro!: safe_ret)
qed

lemma ExprWith_safe:
  assumes ops: "ops_safe ar ops" and heap: "heap_ok ar w st" and e: "expr_ok w st env (ExprWith attrs body)"
  shows "safe ar w (ExprWith_eval ops env attrs body) st (res ar)"
proof -
  have env: "env \<in> LE w" and attrs: "expr_ok w st env attrs" and body: "well_bound (1 # env_shape (es_envs st) env) body"
    using e by (auto simp: expr_ok_def)
  let ?Q = "\<lambda>env2 w' st'. expr_ok w' st' env2 body"
  have "builds (length (es_envs st)) ar w (mbind (allocEnv 1 env) (\<lambda>env2. mbind (maybeThunk env attrs) (\<lambda>v. mbind (writeSlot env2 0 v) (\<lambda>_. mret env2)))) st {} ?Q"
  proof (rule builds_bind [OF allocEnv_builds [OF heap env order.refl]], goal_cases)
    case (1 env2 w1 st1)
    note one = this
    then have e2: "env2 = length (es_envs st)" "env2 \<in> LE w1" "filled st1 env2 0 1" "env_shape (es_envs st1) env2 = 1 # env_shape (es_envs st) env"
      by auto
    show ?case
    proof (rule builds_bind [OF maybeThunk_builds [OF 1(1) expr_ok_grows [OF 1(2) heap attrs]]], goal_cases)
      case (1 v w2 st2)
      have f2: "filled st2 env2 0 1" using e2(3) filled_envs [of st2 st1] 1(3) by simp
      have sh: "env_shape (es_envs st2) env2 = 1 # env_shape (es_envs st) env" using e2(4) 1(3) by simp
      have "builds (length (es_envs st)) ar w2 (writeSlot env2 0 v) st2 {} (\<lambda>_ w' st'. grows w2 st2 w' st')"
        by (rule builds_mono [OF writeSlot_builds [OF 1(1) _ grows_LE [OF 1(2) e2(2)] _ _ f2]]) (use e2 1(3) in \<open>auto intro: filled_done\<close>)
      then show ?case
      proof (rule builds_bind, goal_cases)
        case (1 u w3 st3)
        with sh body grows_LE [OF 1(2)] grows_LE [OF \<open>grows w1 st1 w2 st2\<close> e2(2)]
          grows_shape [OF 1(2) \<open>heap_part ar w2 _ st2\<close>]
        show ?case by (intro builds_ret) (simp_all add: expr_ok_def)
      qed
    qed
  qed
  from builds_safe [OF this heap] have "safe ar w (mbind (mbind (allocEnv 1 env) (\<lambda>env2. mbind (maybeThunk env attrs) (\<lambda>v. mbind (writeSlot env2 0 v) (\<lambda>_. mret env2))))
      (\<lambda>env2. o_eval ops env2 body)) st (res ar)"
    by (rule safe_bind) (auto intro!: ops_safeD(1) [OF ops])
  then show ?thesis by (simp add: ExprWith_eval_def mbind_assoc)
qed

lemma ExprAssert_safe:
  assumes ops: "ops_safe ar ops" and heap: "heap_ok ar w st" and e: "expr_ok w st env (ExprAssert c body)"
  shows "safe ar w (ExprAssert_eval ops env c body) st (res ar)"
proof -
  have c: "expr_ok w st env c" "expr_ok w st env body" using e by (auto simp: expr_ok_def)
  have fails: "safe ar w1 (mbind (case c of
                ExprOpEq e1 e2 \<Rightarrow>
                  mbind (o_eval ops env e1) (\<lambda>v1. mbind (o_eval ops env e2) (\<lambda>v2. o_assertEqValues ops (Temp v1) (Temp v2)))
              | _ \<Rightarrow> mret ()) (\<lambda>_. mfail (AssertionError ''assertion %1% failed''))) st1 (res ar)"
    if "heap_ok ar w1 st1" "grows w st w1 st1" for w1 st1
  proof (rule safe_bind [where Q' = any], goal_cases)
    case 1
    have "expr_ok w1 st1 env c" using expr_ok_grows [OF that(2) heap c(1)] .
    with that show ?case
      by (auto simp del: mlift_app split: Expr.split simp: expr_ok_def res_def intro!: safe_ret eval2_safe [OF ops] ops_safeD(5) [OF ops])
  qed (simp del: mlift_app add: safe_fail)
  show ?thesis unfolding ExprAssert_eval_def
    by (rule safe_bind [OF evalBool_safe [OF ops heap c(1)]])
      (use fails c expr_ok_grows [OF _ heap c(2)] in \<open>auto intro!: ops_safeD(1) [OF ops]\<close>)
qed

lemma evalExpr_safe:
  assumes ops: "ops_safe ar ops" and heap: "heap_ok ar w st" and e: "expr_ok w st env e"
  shows "safe ar w (evalExpr p ops env e) st (res ar)"
proof -
  have env: "env \<in> LE w" using e by (simp add: expr_ok_def)
  have shape: "env_shape (es_envs st1) env = env_shape (es_envs st) env" if "grows w st w1 st1" for w1 st1
    using grows_shape [OF that heap env] .
  have var: "safe ar w (mbind (lookupVar ops env name r) (\<lambda>v. forceValue ops (Cell v))) st (res ar)"
    if "ref_ok (env_shape (es_envs st) env) r" for name r
    by (rule safe_bind [OF lookupVar_safe [OF ops heap env that]]) (auto intro!: forceValue_safe [OF ops])
  have eqs: "safe ar w (mbind (o_eval ops env e1) (\<lambda>v1. mbind (o_eval ops env e2) (\<lambda>v2. mbind (o_eqValues ops (Temp v1) (Temp v2)) (\<lambda>b. mret (VBool (f b)))))) st (res ar)"
    if "expr_ok w st env e1" "expr_ok w st env e2" for e1 e2 f
    by (rule eval2_safe [OF ops heap that], rule safe_bind [OF ops_safeD(4) [OF ops]]) (auto simp: res_def whnf_def simp del: mlift_app intro!: safe_ret)
  show ?thesis
  proof (cases e)
    case (ExprVar name r)
    with e var show ?thesis by (simp add: evalExpr_def expr_ok_def)
  next
    case (ExprInheritFrom d)
    with e show ?thesis by (auto simp: evalExpr_def expr_ok_def neq_Nil_conv intro!: var)
  next
    case (ExprSelect e1 path def)
    with e have e1: "expr_ok w st env e1" and path: "path_ok st env path" "case def of None \<Rightarrow> True | Some d \<Rightarrow> well_bound (env_shape (es_envs st) env) d"
      by (auto simp: expr_ok_def)
    show ?thesis unfolding ExprSelect evalExpr_def Expr.case
    proof (rule safe_bind [OF ops_safeD(1) [OF ops heap e1]], goal_cases)
      case (1 v w1 st1)
      from path [folded shape [OF 1(2)]] grows_LE [OF 1(2) env] 1(3) show ?case by (intro select_loop_safe [OF ops 1(1)]) (simp_all add: res_def)
    qed
  next
    case (ExprOpHasAttr e1 path)
    with e have e1: "expr_ok w st env e1" and path: "path_ok st env path" by (auto simp: expr_ok_def)
    show ?thesis unfolding ExprOpHasAttr evalExpr_def Expr.case
    proof (rule safe_bind [OF ops_safeD(1) [OF ops heap e1]], goal_cases)
      case (1 v w1 st1)
      from path [folded shape [OF 1(2)]] grows_LE [OF 1(2) env] 1(3) show ?case
        by (intro safe_bind [OF hasAttr_loop_safe [OF ops 1(1)]]) (auto simp: res_def whnf_def simp del: mlift_app intro!: safe_ret)
    qed
  next
    case (ExprList es)
    with e have "\<And>x. x \<in> set es \<Longrightarrow> expr_ok w st env x" by (auto simp: expr_ok_def list_all_iff)
    from maybeThunks_safe [OF heap this] show ?thesis unfolding ExprList evalExpr_def Expr.case
      by (rule safe_bind) (auto simp del: mlift_app intro!: safe_ret)
  next
    case (ExprLambda arg fs body)
    with e have "value_ok ar w st (VLambda env arg fs body)" by (simp add: expr_ok_def)
    then show ?thesis unfolding ExprLambda evalExpr_def Expr.case by (intro safe_ret [OF heap]) (simp add: res_def whnf_def)
  next
    case (ExprCall f es)
    with e have f: "expr_ok w st env f" and es: "\<And>x. x \<in> set es \<Longrightarrow> expr_ok w st env x" by (auto simp: expr_ok_def list_all_iff)
    show ?thesis unfolding ExprCall evalExpr_def Expr.case ExprCall_eval_def
    proof (rule safe_bind [OF ops_safeD(1) [OF ops heap f]], goal_cases)
      case (1 v w1 st1)
      show ?case
        by (rule safe_bind [OF maybeThunks_safe [OF 1(1) expr_ok_grows [OF 1(2) heap es]]])
          (use 1 value_ok_grows [OF _ 1(1)] in \<open>auto simp: res_def intro!: ops_safeD(2) [OF ops]\<close>)
    qed
  next
    case (ExprIf c e1 e2)
    with e have c: "expr_ok w st env c" and b: "\<And>b. expr_ok w st env (if b then e1 else e2)" by (auto simp: expr_ok_def)
    show ?thesis unfolding ExprIf evalExpr_def Expr.case
      by (rule safe_bind [OF evalBool_safe [OF ops heap c]]) (intro ops_safeD(1) [OF ops] expr_ok_grows [OF _ heap b])
  next
    case (ExprOpNot e1)
    with e have e1: "expr_ok w st env e1" by (simp add: expr_ok_def)
    show ?thesis unfolding ExprOpNot evalExpr_def Expr.case
      by (rule safe_bind [OF evalBool_safe [OF ops heap e1]]) (auto simp del: mlift_app intro!: safe_ret)
  next
    case (ExprOpConcatLists e1 e2)
    with e have "expr_ok w st env e1" "expr_ok w st env e2" by (auto simp: expr_ok_def)
    then show ?thesis unfolding ExprOpConcatLists evalExpr_def Expr.case
      by (rule eval2_safe [OF ops heap]) (auto simp: res_def intro!: concatLists_safe [OF ops])
  next
    case (ExprOpAnd e1 e2)
    have "(\<lambda>b1. if b1 then mbind (evalBool ops env e2) (\<lambda>b2. mret (VBool b2)) else mret (VBool False)) =
      (\<lambda>b1. if \<not> b1 then mret (VBool False) else mbind (evalBool ops env e2) (\<lambda>b2. mret (VBool b2)))" by (rule ext) simp
    with e ExprOpAnd evalBools_safe [OF ops heap, where P = Not and c = False] show ?thesis by (simp add: evalExpr_def expr_ok_def)
  next
    case (ExprAssert c body)
    then show ?thesis using ExprAssert_safe [OF ops heap] e by (simp add: evalExpr_def)
  next
    case (ExprWith attrs body)
    then show ?thesis using ExprWith_safe [OF ops heap] e by (simp add: evalExpr_def)
  next
    case (ExprOpOr e1 e2)
    then show ?thesis using evalBools_safe [OF ops heap, where P = "\<lambda>b. b"] e by (simp add: evalExpr_def expr_ok_def)
  next
    case (ExprOpImpl e1 e2)
    then show ?thesis using evalBools_safe [OF ops heap, where P = Not] e by (simp add: evalExpr_def expr_ok_def)
  qed (use e heap ExprAttrs_safe [OF ops heap] ExprLet_safe [OF ops heap] ExprOpUpdate_safe [OF ops heap] ExprConcatStrings_safe [OF ops heap] eqs [where f = "\<lambda>b. b"] eqs [where f = Not]
    in \<open>auto simp: evalExpr_def expr_ok_def list_all_iff simp del: mlift_app intro: safe_ret\<close>)
qed

theorem evaluator_safe:
  assumes "primOps_safe p" "outside_law p"
  shows "ops_safe (arity_of p) (evaluator p n)"
proof (induction n)
  case 0
  then show ?case by (simp add: ops_safe_def safe_def)
next
  case (Suc n)
  note laws = evalExpr_safe [OF Suc] callFunction_safe [OF Suc] callLoop_safe [OF assms(1) Suc] eqValues_safe [OF Suc]
    assertEqValues_safe [OF Suc] coerceToString_safe [OF Suc assms(2)] forceDeep_safe [OF Suc] autoCall_safe [OF Suc] CompareValues_safe [OF Suc]
  show ?case
    unfolding evaluator.simps Let_def ops_safe_def evalops.simps by (intro conjI allI impI laws)
qed

end
