(* ===== verification/Zix_Names.thy ===== *)
theory Zix_Names
  imports Zix_Prelude "HOL-Library.Product_Lexorder"
begin

text \<open>
  Derivation names and versions (names.cc): splitting a name from its version, the components of a
  version and the order of versions. The reading of an \<^verbatim>\<open>int\<close> by \<^verbatim>\<open>boost::lexical_cast\<close> is an argument.
  The order is shown to be an instance of the contract of a comparator.
\<close>

section \<open>Names\<close>

text \<open>\<^verbatim>\<open>isalpha\<close> and \<^verbatim>\<open>isdigit\<close> in the C locale.\<close>

definition c_isalpha :: "char \<Rightarrow> bool" where
  "c_isalpha c \<longleftrightarrow> (CHR ''a'' \<le> c \<and> c \<le> CHR ''z'') \<or> (CHR ''A'' \<le> c \<and> c \<le> CHR ''Z'')"

definition c_isdigit :: "char \<Rightarrow> bool" where
  "c_isdigit c \<longleftrightarrow> CHR ''0'' \<le> c \<and> c \<le> CHR ''9''"

record DrvName =
  dn_fullName :: string
  dn_name :: string
  dn_version :: string

text \<open>The loop of the constructor: \<open>i\<close> is the position of the rest in the full name.\<close>

fun DrvName_loop :: "string \<Rightarrow> nat \<Rightarrow> string \<Rightarrow> DrvName" where
  "DrvName_loop s i (a # b # rest) =
     (if a = CHR ''-'' \<and> \<not> c_isalpha b then \<lparr>dn_fullName = s, dn_name = take i s, dn_version = drop (i + 1) s\<rparr>
      else DrvName_loop s (i + 1) (b # rest))"
| "DrvName_loop s i _ = \<lparr>dn_fullName = s, dn_name = s, dn_version = []\<rparr>"

definition mkDrvName :: "string \<Rightarrow> DrvName" where
  "mkDrvName s = DrvName_loop s 0 s"

section \<open>Versions\<close>

definition is_separator :: "char \<Rightarrow> bool" where
  "is_separator c \<longleftrightarrow> c = CHR ''.'' \<or> c = CHR ''-''"

text \<open>The next component and what is left of the string.\<close>

definition nextComponent :: "string \<Rightarrow> string \<times> string" where
  "nextComponent p =
     (let p = dropWhile is_separator p in
      case p of
        [] \<Rightarrow> ([], [])
      | c # _ \<Rightarrow>
          let part = (if c_isdigit c then c_isdigit else (\<lambda>c. \<not> c_isdigit c \<and> \<not> is_separator c))
          in (takeWhile part p, dropWhile part p))"

definition componentsLT :: "(string \<Rightarrow> int option) \<Rightarrow> string \<Rightarrow> string \<Rightarrow> bool" where
  "componentsLT lexcast c1 c2 =
     (let n1 = lexcast c1; n2 = lexcast c2 in
      if n1 \<noteq> None \<and> n2 \<noteq> None then the n1 < the n2
      else if c1 = [] \<and> n2 \<noteq> None then True
      else if c1 = ''pre'' \<and> c2 \<noteq> ''pre'' then True
      else if c2 = ''pre'' then False
      else if n2 \<noteq> None then True
      else if n1 \<noteq> None then False
      else c1 < c2)"

lemma nextComponent_shorter: "p \<noteq> [] \<Longrightarrow> length (snd (nextComponent p)) < length p"
proof -
  assume "p \<noteq> []"
  have le: "length (dropWhile P xs) \<le> length xs" for P and xs :: string by (rule length_dropWhile_le)
  show ?thesis
  proof (cases "dropWhile is_separator p")
    case (Cons c q)
    then have "\<not> is_separator c" by (metis dropWhile_eq_Cons_conv)
    then have "length (snd (nextComponent p)) \<le> length q" using le Cons by (auto simp: nextComponent_def Let_def)
    moreover have "length (c # q) \<le> length p" using le [of is_separator p] Cons by simp
    ultimately show ?thesis by simp
  next
    case Nil
    show ?thesis using \<open>p \<noteq> []\<close> unfolding nextComponent_def Nil by simp
  qed
qed

lemma nextComponent_Nil [simp]: "nextComponent [] = ([], [])"
  by (simp add: nextComponent_def)

lemma nextComponent_le: "length (snd (nextComponent p)) \<le> length p"
  using nextComponent_shorter [of p] by (cases "p = []") auto

function compareVersions :: "(string \<Rightarrow> int option) \<Rightarrow> string \<Rightarrow> string \<Rightarrow> ordering" where
  "compareVersions lexcast p1 p2 =
     (if p1 = [] \<and> p2 = [] then Equal
      else
        let (c1, r1) = nextComponent p1; (c2, r2) = nextComponent p2 in
        if componentsLT lexcast c1 c2 then Less
        else if componentsLT lexcast c2 c1 then Greater
        else compareVersions lexcast r1 r2)"
  by pat_completeness auto
termination
proof (relation "measure (\<lambda>(_, p1, p2). length p1 + length p2)", goal_cases)
  case (2 lexcast p1 p2 x c1 r1 y c2 r2)
  from 2 have "r1 = snd (nextComponent p1)" "r2 = snd (nextComponent p2)" by (metis snd_conv)+
  with 2 nextComponent_shorter [of p1] nextComponent_shorter [of p2] nextComponent_le [of p1] nextComponent_le [of p2]
  show ?case by (auto; linarith)
qed simp

declare compareVersions.simps [simp del]

text \<open>The loop of \<^verbatim>\<open>builtins.splitVersion\<close>.\<close>

function splitVersion :: "string \<Rightarrow> string list" where
  "splitVersion p =
     (if p = [] then []
      else let (c, r) = nextComponent p in if c = [] then [] else c # splitVersion r)"
  by pat_completeness auto
termination
proof (relation "measure length", goal_cases)
  case (2 p x c r)
  then have "r = snd (nextComponent p)" by (metis snd_conv)
  with 2 nextComponent_shorter show ?case by simp
qed simp

declare splitVersion.simps [simp del]

section \<open>The order of versions\<close>

text \<open>
  The rank of a component: \<open>pre\<close> is before all, then come the components that are no numbers, in the
  order of strings, then the numbers. A version is the sequence of the ranks of its components, and
  empty ones after its end.
\<close>

definition component_rank :: "(string \<Rightarrow> int option) \<Rightarrow> string \<Rightarrow> nat \<times> int \<times> string" where
  "component_rank lexcast c =
     (if c = ''pre'' then (0, 0, []) else case lexcast c of Some n \<Rightarrow> (2, n, []) | None \<Rightarrow> (1, 0, c))"

primrec component :: "string \<Rightarrow> nat \<Rightarrow> string" where
  "component p 0 = fst (nextComponent p)"
| "component p (Suc n) = component (snd (nextComponent p)) n"

abbreviation rank_at :: "(string \<Rightarrow> int option) \<Rightarrow> string \<Rightarrow> nat \<Rightarrow> nat \<times> int \<times> string" where
  "rank_at lexcast p n \<equiv> component_rank lexcast (component p n)"

lemma component_Nil [simp]: "component [] n = []"
  by (induction n) simp_all

lemma componentsLT_rank:
  assumes "lexcast [] = None" "lexcast ''pre'' = None"
  shows "componentsLT lexcast c1 c2 \<longleftrightarrow> component_rank lexcast c1 < component_rank lexcast c2"
  using assms by (auto simp: componentsLT_def component_rank_def Let_def less_prod_def split: option.splits)

lemma nat_0_Suc:
  fixes P :: "nat \<Rightarrow> bool"
  shows "(\<exists>n. P n) \<longleftrightarrow> P 0 \<or> (\<exists>n. P (Suc n))" "(\<forall>n. P n) \<longleftrightarrow> P 0 \<and> (\<forall>n. P (Suc n))"
  by (metis not0_implies_Suc)+

lemma first_difference:
  "(\<exists>n. (\<forall>m < n. f m = g m) \<and> R (f n) (g n)) \<longleftrightarrow>
   R (f 0) (g 0) \<or> f 0 = g 0 \<and> (\<exists>n. (\<forall>m < n. f (Suc m) = g (Suc m)) \<and> R (f (Suc n)) (g (Suc n)))"
  (is "(\<exists>n. ?P n) \<longleftrightarrow> _ \<or> _ \<and> (\<exists>n. ?Q n)")
proof -
  have "?P (Suc n) \<longleftrightarrow> f 0 = g 0 \<and> ?Q n" for n by (auto simp: less_Suc_eq_0_disj)
  then show ?thesis by (subst nat_0_Suc(1)) simp
qed

lemma compareVersions_step:
  assumes "lexcast [] = None" "lexcast ''pre'' = None"
  shows "compareVersions lexcast p q =
    (if p = [] \<and> q = [] then Equal
     else if rank_at lexcast p 0 < rank_at lexcast q 0 then Less
     else if rank_at lexcast q 0 < rank_at lexcast p 0 then Greater
     else compareVersions lexcast (snd (nextComponent p)) (snd (nextComponent q)))"
  by (subst compareVersions.simps) (simp add: componentsLT_rank [OF assms] Let_def split: prod.split)

lemma versions_induct [case_names Nil step]:
  assumes "P [] []" and "\<And>p q. p \<noteq> [] \<or> q \<noteq> [] \<Longrightarrow> P (snd (nextComponent p)) (snd (nextComponent q)) \<Longrightarrow> P p q"
  shows "P p q"
proof (induction "length p + length q" arbitrary: p q rule: less_induct)
  case less
  show ?case
  proof (cases "p = [] \<and> q = []")
    case False
    then have "length (snd (nextComponent p)) + length (snd (nextComponent q)) < length p + length q"
      using nextComponent_shorter [of p] nextComponent_shorter [of q] nextComponent_le [of p] nextComponent_le [of q] by force
    from less [OF this] False assms(2) show ?thesis by blast
  qed (use assms(1) in simp)
qed

lemma compareVersions_Less:
  assumes "lexcast [] = None" "lexcast ''pre'' = None"
  shows "compareVersions lexcast p q = Less \<longleftrightarrow> (\<exists>n. (\<forall>m < n. rank_at lexcast p m = rank_at lexcast q m) \<and> rank_at lexcast p n < rank_at lexcast q n)"
proof (induction p q rule: versions_induct)
  case (step p q)
  show ?case
    by (subst first_difference, subst compareVersions_step [OF assms]) (use step in auto)
qed (simp add: compareVersions_step [OF assms])

lemma compareVersions_flip:
  assumes "lexcast [] = None" "lexcast ''pre'' = None"
  shows "compareVersions lexcast q p = flip (compareVersions lexcast p q)"
proof (induction p q rule: versions_induct)
  case (step p q)
  then show ?case
    by (subst (1 2) compareVersions_step [OF assms]) auto
qed (simp add: compareVersions_step [OF assms])

lemma compareVersions_Equal:
  assumes "lexcast [] = None" "lexcast ''pre'' = None"
  shows "compareVersions lexcast p q = Equal \<longleftrightarrow> (\<forall>n. rank_at lexcast p n = rank_at lexcast q n)"
proof (induction p q rule: versions_induct)
  case (step p q)
  show ?case
    by (subst nat_0_Suc(2), subst compareVersions_step [OF assms]) (use step in auto)
qed (simp add: compareVersions_step [OF assms])

lemma compareVersions_comparator:
  assumes "lexcast [] = None" "lexcast ''pre'' = None"
  shows "comparator (compareVersions lexcast)"
proof
  fix x y z
  show "compareVersions lexcast y x = flip (compareVersions lexcast x y)" by (rule compareVersions_flip [OF assms])
  show "compareVersions lexcast x z = compareVersions lexcast y z" if "compareVersions lexcast x y = Equal"
  proof -
    have eq: "rank_at lexcast x n = rank_at lexcast y n" for n using that by (simp add: compareVersions_Equal [OF assms])
    have "compareVersions lexcast x z = r \<longleftrightarrow> compareVersions lexcast y z = r" for r
    proof (cases r)
      case Greater
      have "(flip a = Greater) = (a = Less)" for a by (cases a) auto
      with eq Greater show ?thesis
        by (subst (1 2) compareVersions_flip [OF assms]) (simp add: compareVersions_Less [OF assms])
    qed (use eq in \<open>simp_all add: compareVersions_Less [OF assms] compareVersions_Equal [OF assms]\<close>)
    then show ?thesis by blast
  qed
  show "compareVersions lexcast x z = Less" if xy: "compareVersions lexcast x y = Less" and yz: "compareVersions lexcast y z = Less"
  proof -
    from xy obtain i where i: "\<forall>m < i. rank_at lexcast x m = rank_at lexcast y m" "rank_at lexcast x i < rank_at lexcast y i"
      unfolding compareVersions_Less [OF assms] by blast
    from yz obtain j where j: "\<forall>m < j. rank_at lexcast y m = rank_at lexcast z m" "rank_at lexcast y j < rank_at lexcast z j"
      unfolding compareVersions_Less [OF assms] by blast
    have "rank_at lexcast x (min i j) < rank_at lexcast z (min i j)"
      using i j by (cases i j rule: linorder_cases) (auto simp: min_def)
    with i(1) j(1) show ?thesis unfolding compareVersions_Less [OF assms] by (intro exI [of _ "min i j"]) auto
  qed
qed

text \<open>
  C12: Versions are compared component by component, and the components by their rank: \<open>pre\<close> is before
  all, a component that is no number before one that is, strings as strings and numbers as numbers;
  a version that has ended goes on with empty components. The first difference decides. This is a
  total preorder: the comparison obeys the laws of a comparator.
\<close>

theorem compareVersions_order:
  assumes "lexcast [] = None" "lexcast ''pre'' = None"
  shows "comparator (compareVersions lexcast) \<and>
    (compareVersions lexcast v1 v2 = Less \<longleftrightarrow>
      (\<exists>n. (\<forall>m < n. rank_at lexcast v1 m = rank_at lexcast v2 m) \<and> rank_at lexcast v1 n < rank_at lexcast v2 n)) \<and>
    (compareVersions lexcast v1 v2 = Equal \<longleftrightarrow> (\<forall>n. rank_at lexcast v1 n = rank_at lexcast v2 n))"
  using compareVersions_comparator [OF assms] compareVersions_Less [OF assms] compareVersions_Equal [OF assms] by blast

definition small_lexcast :: "string \<Rightarrow> int option" where
  "small_lexcast s = map_of [(''1'', 1), (''2'', 2), (''10'', 10)] s"

theorem compareVersions_order_witness:
  "comparator (compareVersions small_lexcast) \<and> compareVersions small_lexcast ''1.2'' ''1.10'' = Less"
proof -
  have laws: "small_lexcast [] = None" "small_lexcast ''pre'' = None" by code_simp+
  have "rank_at small_lexcast ''1.2'' 0 = rank_at small_lexcast ''1.10'' 0 \<and> rank_at small_lexcast ''1.2'' 1 < rank_at small_lexcast ''1.10'' 1"
    by code_simp
  then have "\<exists>n. (\<forall>m < n. rank_at small_lexcast ''1.2'' m = rank_at small_lexcast ''1.10'' m) \<and> rank_at small_lexcast ''1.2'' n < rank_at small_lexcast ''1.10'' n"
    by (intro exI [of _ 1]) (metis less_one)
  with compareVersions_order [OF laws, of "''1.2''" "''1.10''"] show ?thesis by blast
qed

text \<open>
  A component of digits that does not fit in an \<^verbatim>\<open>int\<close> is not a number, so it is before every number.
\<close>

lemma large_number_first:
  assumes "lexcast ''20240101000000'' = None" "lexcast ''1'' = Some 1"
  shows "compareVersions lexcast ''20240101000000'' ''1'' = Less"
proof -
  have first: "nextComponent ''20240101000000'' = (''20240101000000'', [])" "nextComponent ''1'' = (''1'', [])" by code_simp+
  show ?thesis by (subst compareVersions.simps) (simp add: first componentsLT_def assms)
qed

section \<open>Splitting names\<close>

text \<open>
  The version begins after the first dash that is followed by something that is not a letter.
\<close>

lemma DrvName_loop_exact:
  assumes "s = pre @ rest" "i = length pre" "\<And>k. k < i \<Longrightarrow> k + 1 < length s \<Longrightarrow> s ! k = CHR ''-'' \<Longrightarrow> c_isalpha (s ! (k + 1))"
  shows "DrvName_loop s i rest = d \<Longrightarrow> dn_fullName d = s \<and>
    (dn_name d = s \<and> dn_version d = [] \<and> (\<forall>k. k + 1 < length s \<longrightarrow> s ! k = CHR ''-'' \<longrightarrow> c_isalpha (s ! (k + 1))) \<or>
     (\<exists>c v. s = dn_name d @ CHR ''-'' # dn_version d \<and> dn_version d = c # v \<and> \<not> c_isalpha c \<and>
       (\<forall>k < length (dn_name d). s ! k = CHR ''-'' \<longrightarrow> c_isalpha (s ! (k + 1)))))"
  using assms
proof (induction s i rest arbitrary: pre rule: DrvName_loop.induct, goal_cases)
  case (1 s i a b rest pre)
  have at: "s ! i = a" "s ! (i + 1) = b" "i + 1 < length s" using 1(3, 4) by (auto simp: nth_append)
  show ?case
  proof (cases "a = CHR ''-'' \<and> \<not> c_isalpha b")
    case True
    have "s ! k = CHR ''-'' \<longrightarrow> c_isalpha (s ! (k + 1))" if "k < i" for k
      using 1(5) [OF that] that at(3) by simp
    with True 1(2, 3, 4) show ?thesis by auto
  next
    case False
    then have "DrvName_loop s (i + 1) (b # rest) = d" using 1(2) by (simp only: DrvName_loop.simps if_not_P simp_thms)
    moreover have "c_isalpha (s ! (k + 1))" if "k < i + 1" "k + 1 < length s" "s ! k = CHR ''-''" for k
      using 1(5) [of k] that at False by (cases "k = i") auto
    ultimately show ?thesis using 1(1) [OF False, of "pre @ [a]"] 1(3, 4) by simp
  qed
next
  case (2 s i)
  then show ?case by auto
next
  case (3 s i v)
  have "c_isalpha (s ! (k + 1))" if "k + 1 < length s" "s ! k = CHR ''-''" for k
    using 3(4) [of k] that 3(2, 3) by simp
  with 3(1) show ?case by auto
qed

lemma mkDrvName_exact:
  "dn_fullName (mkDrvName s) = s \<and>
    (dn_name (mkDrvName s) = s \<and> dn_version (mkDrvName s) = [] \<and> (\<forall>k. k + 1 < length s \<longrightarrow> s ! k = CHR ''-'' \<longrightarrow> c_isalpha (s ! (k + 1))) \<or>
     (\<exists>c v. s = dn_name (mkDrvName s) @ CHR ''-'' # dn_version (mkDrvName s) \<and> dn_version (mkDrvName s) = c # v \<and> \<not> c_isalpha c \<and>
       (\<forall>k < length (dn_name (mkDrvName s)). s ! k = CHR ''-'' \<longrightarrow> c_isalpha (s ! (k + 1)))))"
  using DrvName_loop_exact [of s "[]" s 0 "mkDrvName s"] by (simp add: mkDrvName_def)

end
