(* ===== verification/Zix_PrimOps.thy ===== *)
theory Zix_PrimOps
  imports Zix_EvalSound Zix_Names Zix_DrvHash
begin

text \<open>
  Primitive operations of the language (primops.cc): types, control, sets, lists, arithmetic and
  strings. Each takes the cells of its arguments. Theory \<open>Zix_PrimSafe\<close> has the table of them and
  shows that they keep the invariant of the heap, theory \<open>Zix_Builtins\<close> what some of them compute.
\<close>

abbreviation arg :: "vid list \<Rightarrow> nat \<Rightarrow> lval" where
  "arg args i \<equiv> Cell (args ! i)"

text \<open>
  \<^verbatim>\<open>state.symbols[sym]\<close>. Only the table makes symbols, so the string of a symbol is always there.
\<close>

definition symbolName :: "Symbol \<Rightarrow> string ev" where
  "symbolName s = (\<lambda>st. mret (if 1 \<le> s \<and> s \<le> length (es_symbols st) then es_symbols st ! (s - 1) else []) st)"

text \<open>A handler for exceptions: \<^verbatim>\<open>try { m } catch (...) { h }\<close>.\<close>

definition mcatch :: "('s, 'a) sm \<Rightarrow> (exn \<Rightarrow> ('s, 'a) sm) \<Rightarrow> ('s, 'a) sm" where
  "mcatch m h = (\<lambda>s. case m s of Some (Inl e, s) \<Rightarrow> h e s | r \<Rightarrow> r)"

section \<open>Types and control\<close>

definition type_name :: "ValueType \<Rightarrow> string result" where
  "type_name t =
     (case t of
        nInt \<Rightarrow> Inr ''int'' | nBool \<Rightarrow> Inr ''bool'' | nString \<Rightarrow> Inr ''string'' | nPath \<Rightarrow> Inr ''path'' | nNull \<Rightarrow> Inr ''null''
      | nAttrs \<Rightarrow> Inr ''set'' | nList \<Rightarrow> Inr ''list'' | nFunction \<Rightarrow> Inr ''lambda'' | nFloat \<Rightarrow> Inr ''float''
      | nThunk \<Rightarrow> Inl (AssertionFailed ''unreachable''))"

definition prim_typeOf :: "evalops \<Rightarrow> vid list \<Rightarrow> Value ev" where
  "prim_typeOf ops args = mbind (forceValue ops (arg args 0)) (\<lambda>v. mbind (mlift (type_name (value_type v))) (\<lambda>t. mret (VString t [])))"

text \<open>\<^verbatim>\<open>isNull\<close>, \<^verbatim>\<open>isFunction\<close>, \<^verbatim>\<open>isInt\<close> and the like.\<close>

definition prim_isType :: "ValueType \<Rightarrow> evalops \<Rightarrow> vid list \<Rightarrow> Value ev" where
  "prim_isType t ops args = mbind (forceValue ops (arg args 0)) (\<lambda>v. mret (VBool (value_type v = t)))"

definition prim_abort :: "evalops \<Rightarrow> vid list \<Rightarrow> Value ev" where
  "prim_abort ops args = mbind (o_coerceToString ops False True True (arg args 0) []) (\<lambda>(s, _). mfail (Abort s))"

definition prim_throw :: "evalops \<Rightarrow> vid list \<Rightarrow> Value ev" where
  "prim_throw ops args = mbind (o_coerceToString ops False True True (arg args 0) []) (\<lambda>(s, _). mfail (ThrownError s))"

definition prim_addErrorContext :: "evalops \<Rightarrow> vid list \<Rightarrow> Value ev" where
  "prim_addErrorContext ops args =
     mcatch (forceValue ops (arg args 1)) (\<lambda>e.
       if caught_as_Error e then mbind (o_coerceToString ops False False True (arg args 0) []) (\<lambda>_. mfail e)
       else mfail e)"

text \<open>
  The class \<^verbatim>\<open>ThrownError\<close> derives from \<^verbatim>\<open>AssertionError\<close>. (The code shares the cells of its constants
  true and false; here they are new ones.)
\<close>

fun is_AssertionError :: "exn \<Rightarrow> bool" where
  "is_AssertionError (AssertionError _) \<longleftrightarrow> True"
| "is_AssertionError (ThrownError _) \<longleftrightarrow> True"
| "is_AssertionError _ \<longleftrightarrow> False"

definition prim_tryEval :: "evalops \<Rightarrow> vid list \<Rightarrow> Value ev" where
  "prim_tryEval ops args =
     mbind (mcatch (mbind (forceValue ops (arg args 0)) (\<lambda>_. mret True)) (\<lambda>e. if is_AssertionError e then mret False else mfail e)) (\<lambda>ok.
     mbind (if ok then mret (args ! 0) else allocValue (VBool False)) (\<lambda>c.
     mbind (createSymbol ''success'') (\<lambda>success.
     mbind (allocValue (VBool ok)) (\<lambda>b. mret (VAttrs (Bindings_sort [(sValue, c), (success, b)]))))))"

definition prim_seq :: "evalops \<Rightarrow> vid list \<Rightarrow> Value ev" where
  "prim_seq ops args = mbind (forceValue ops (arg args 0)) (\<lambda>_. forceValue ops (arg args 1))"

definition prim_deepSeq :: "evalops \<Rightarrow> vid list \<Rightarrow> Value ev" where
  "prim_deepSeq ops args = mbind (o_forceDeep ops (arg args 0) []) (\<lambda>_. forceValue ops (arg args 1))"

definition prim_second :: "evalops \<Rightarrow> vid list \<Rightarrow> Value ev" where
  "prim_second ops args = forceValue ops (arg args 1)"

section \<open>Sets\<close>

definition getAttr :: "Symbol \<Rightarrow> Bindings \<Rightarrow> vid ev" where
  "getAttr s bs = (case sorted_get bs s of Some v \<Rightarrow> mret v | None \<Rightarrow> mfail (TypeError ''attribute %s missing''))"

text \<open>The names of a set are distinct, so every sorting algorithm orders them the same way.\<close>

definition prim_attrNames :: "evalops \<Rightarrow> vid list \<Rightarrow> Value ev" where
  "prim_attrNames ops args =
     mbind (forceAttrs ops (arg args 0)) (\<lambda>bs.
     mbind (mmap (\<lambda>b. mbind (symbolName (fst b)) (\<lambda>n. mbind (allocValue (VString n [])) (\<lambda>c. mret (n, c)))) bs) (\<lambda>cells.
     mret (VList (map snd (sort_key fst cells)))))"

definition prim_attrValues :: "evalops \<Rightarrow> vid list \<Rightarrow> Value ev" where
  "prim_attrValues ops args =
     mbind (forceAttrs ops (arg args 0)) (\<lambda>bs.
     mbind (mmap (\<lambda>b. mbind (symbolName (fst b)) (\<lambda>n. mret (n, snd b))) bs) (\<lambda>cells.
     mret (VList (map snd (sort_key fst cells)))))"

definition prim_getAttr :: "evalops \<Rightarrow> vid list \<Rightarrow> Value ev" where
  "prim_getAttr ops args =
     mbind (forceStringNoCtx ops (arg args 0)) (\<lambda>attr.
     mbind (forceAttrs ops (arg args 1)) (\<lambda>bs.
     mbind (createSymbol attr) (\<lambda>s.
     mbind (getAttr s bs) (\<lambda>i. forceValue ops (Cell i)))))"

definition prim_hasAttr :: "evalops \<Rightarrow> vid list \<Rightarrow> Value ev" where
  "prim_hasAttr ops args =
     mbind (forceStringNoCtx ops (arg args 0)) (\<lambda>attr.
     mbind (forceAttrs ops (arg args 1)) (\<lambda>bs.
     mbind (createSymbol attr) (\<lambda>s. mret (VBool (sorted_get bs s \<noteq> None)))))"

text \<open>\<^verbatim>\<open>std::set_difference\<close> of the attributes and the sorted names.\<close>

fun set_difference :: "Bindings \<Rightarrow> Symbol list \<Rightarrow> Bindings" where
  "set_difference [] names = []"
| "set_difference bs [] = bs"
| "set_difference (b # bs) (n # names) =
     (if fst b < n then b # set_difference bs (n # names)
      else if n < fst b then set_difference (b # bs) names
      else set_difference bs names)"

definition prim_removeAttrs :: "evalops \<Rightarrow> vid list \<Rightarrow> Value ev" where
  "prim_removeAttrs ops args =
     mbind (forceAttrs ops (arg args 0)) (\<lambda>bs.
     mbind (forceList ops (arg args 1)) (\<lambda>vs.
     mbind (mmap (\<lambda>v. mbind (forceStringNoCtx ops (Cell v)) createSymbol) vs) (\<lambda>names.
     mret (VAttrs (set_difference bs (sort names))))))"

text \<open>The loop of \<^verbatim>\<open>listToAttrs\<close>; a name that has been seen is skipped.\<close>

fun listToAttrs_loop :: "evalops \<Rightarrow> vid list \<Rightarrow> Symbol list \<Rightarrow> Bindings \<Rightarrow> Bindings ev" where
  "listToAttrs_loop ops [] seen attrs = mret attrs"
| "listToAttrs_loop ops (v2 # vs) seen attrs =
     mbind (forceAttrs ops (Cell v2)) (\<lambda>bs.
     mbind (getAttr sName bs) (\<lambda>j.
     mbind (forceStringNoCtx ops (Cell j)) (\<lambda>name.
     mbind (createSymbol name) (\<lambda>s.
     if s \<in> set seen then listToAttrs_loop ops vs seen attrs
     else mbind (getAttr sValue bs) (\<lambda>j2. listToAttrs_loop ops vs (s # seen) (attrs @ [(s, j2)]))))))"

definition prim_listToAttrs :: "evalops \<Rightarrow> vid list \<Rightarrow> Value ev" where
  "prim_listToAttrs ops args =
     mbind (forceList ops (arg args 0)) (\<lambda>vs.
     mbind (listToAttrs_loop ops vs [] []) (\<lambda>attrs. mret (VAttrs (Bindings_sort attrs))))"

text \<open>The smaller set is walked, and each of its names looked up in the larger one.\<close>

definition intersect_attrs :: "Bindings \<Rightarrow> Bindings \<Rightarrow> Bindings" where
  "intersect_attrs left right =
     (if length left < length right
      then concat (map (\<lambda>l. case sorted_get right (fst l) of Some r \<Rightarrow> [(fst l, r)] | None \<Rightarrow> []) left)
      else concat (map (\<lambda>r. case sorted_get left (fst r) of Some _ \<Rightarrow> [r] | None \<Rightarrow> []) right))"

definition prim_intersectAttrs :: "evalops \<Rightarrow> vid list \<Rightarrow> Value ev" where
  "prim_intersectAttrs ops args =
     mbind (forceAttrs ops (arg args 0)) (\<lambda>left.
     mbind (forceAttrs ops (arg args 1)) (\<lambda>right. mret (VAttrs (intersect_attrs left right))))"

definition prim_catAttrs :: "evalops \<Rightarrow> vid list \<Rightarrow> Value ev" where
  "prim_catAttrs ops args =
     mbind (forceStringNoCtx ops (arg args 0)) (\<lambda>name.
     mbind (createSymbol name) (\<lambda>attrName.
     mbind (forceList ops (arg args 1)) (\<lambda>vs.
     mbind (mmap (\<lambda>v2. mbind (forceAttrs ops (Cell v2)) (\<lambda>bs.
       mret (case sorted_get bs attrName of Some i \<Rightarrow> [i] | None \<Rightarrow> []))) vs) (\<lambda>found.
     mret (VList (concat found))))))"

definition prim_functionArgs :: "evalops \<Rightarrow> vid list \<Rightarrow> Value ev" where
  "prim_functionArgs ops args =
     mbind (forceValue ops (arg args 0)) (\<lambda>v.
     case v of
       VPrimOp _ \<Rightarrow> mret (VAttrs [])
     | VPrimOpApp _ _ \<Rightarrow> mret (VAttrs [])
     | VLambda _ _ None _ \<Rightarrow> mret (VAttrs [])
     | VLambda _ _ (Some (formals, _)) _ \<Rightarrow>
         mbind (mmap (\<lambda>f. mbind (allocValue (VBool (snd f \<noteq> None))) (\<lambda>c. mret (fst f, c))) formals) (\<lambda>attrs.
         mret (VAttrs (Bindings_sort attrs)))
     | _ \<Rightarrow> mfail (TypeError ''functionArgs requires a function''))"

text \<open>The application of a function to a name and a value, both calls delayed.\<close>

definition apply_named :: "vid \<Rightarrow> Symbol \<Rightarrow> vid \<Rightarrow> (Symbol \<times> vid) ev" where
  "apply_named f s v =
     mbind (symbolName s) (\<lambda>n.
     mbind (allocValue (VString n [])) (\<lambda>vName.
     mbind (allocValue (VApp f vName)) (\<lambda>vFun2.
     mbind (allocValue (VApp vFun2 v)) (\<lambda>c. mret (s, c)))))"

definition prim_mapAttrs :: "evalops \<Rightarrow> vid list \<Rightarrow> Value ev" where
  "prim_mapAttrs ops args =
     mbind (forceAttrs ops (arg args 1)) (\<lambda>bs.
     mbind (mmap (\<lambda>b. apply_named (args ! 0) (fst b) (snd b)) bs) (\<lambda>attrs. mret (VAttrs attrs)))"

text \<open>
  A \<^verbatim>\<open>std::map\<close> from names to lists of values, and a value appended to one of the lists. (Of the cells
  of an attribute, \<^verbatim>\<open>zipAttrsWith\<close> allocates that of the list last.)
\<close>

definition push_at :: "Symbol \<Rightarrow> vid \<Rightarrow> (Symbol \<times> vid list) list \<Rightarrow> (Symbol \<times> vid list) list" where
  "push_at s v m = omap_assign s ((case map_of m s of Some vs \<Rightarrow> vs | None \<Rightarrow> []) @ [v]) m"

definition prim_zipAttrsWith :: "evalops \<Rightarrow> vid list \<Rightarrow> Value ev" where
  "prim_zipAttrsWith ops args =
     mbind (forceFunction ops (arg args 0)) (\<lambda>_.
     mbind (forceList ops (arg args 1)) (\<lambda>vs.
     mbind (mmap (\<lambda>v. forceAttrs ops (Cell v)) vs) (\<lambda>bss.
     mbind (mmap (\<lambda>item. mbind (allocValue (VList (snd item))) (apply_named (args ! 0) (fst item)))
       (fold (\<lambda>b m. push_at (fst b) (snd b) m) (concat bss) [])) (\<lambda>attrs.
     mret (VAttrs attrs)))))"

section \<open>Lists\<close>

text \<open>
  The index is compared as \<^verbatim>\<open>unsigned int\<close>, but the list is accessed with all of its 64 bits.
\<close>

definition prim_elemAt :: "evalops \<Rightarrow> vid list \<Rightarrow> Value ev" where
  "prim_elemAt ops args =
     mbind (forceInt ops (arg args 1)) (\<lambda>n.
     mbind (forceList ops (arg args 0)) (\<lambda>vs.
     if n <s 0 \<or> unat (ucast n :: 32 word) \<ge> length vs
     then mfail (EvalError ''builtins.elemAt called with index %d on a list of size %d'')
     else if unat n \<ge> length vs then mfail (UndefinedBehaviour ''listElems()[n]'')
     else forceValue ops (Cell (vs ! unat n))))"

definition prim_head :: "evalops \<Rightarrow> vid list \<Rightarrow> Value ev" where
  "prim_head ops args =
     mbind (forceList ops (arg args 0)) (\<lambda>vs.
     case vs of [] \<Rightarrow> mfail (EvalError ''builtins.head called on an empty list'') | v # _ \<Rightarrow> forceValue ops (Cell v))"

definition prim_tail :: "evalops \<Rightarrow> vid list \<Rightarrow> Value ev" where
  "prim_tail ops args =
     mbind (forceList ops (arg args 0)) (\<lambda>vs.
     case vs of [] \<Rightarrow> mfail (EvalError ''builtins.tail called on an empty list'') | _ # vs \<Rightarrow> mret (VList vs))"

definition prim_map :: "evalops \<Rightarrow> vid list \<Rightarrow> Value ev" where
  "prim_map ops args =
     mbind (forceList ops (arg args 1)) (\<lambda>vs.
     if vs = [] then mret (VList vs)
     else
       mbind (forceFunction ops (arg args 0)) (\<lambda>_.
       mbind (mmap (\<lambda>v. allocValue (VApp (args ! 0) v)) vs) (\<lambda>cs. mret (VList cs))))"

text \<open>The call of a predicate on an element.\<close>

definition call_pred :: "evalops \<Rightarrow> vid \<Rightarrow> vid \<Rightarrow> bool ev" where
  "call_pred ops f v = mbind (o_callFunction ops (Cell f) [v]) (\<lambda>r. forceBool ops (Temp r))"

fun filter_loop :: "evalops \<Rightarrow> vid \<Rightarrow> vid list \<Rightarrow> vid list ev" where
  "filter_loop ops f [] = mret []"
| "filter_loop ops f (v # vs) =
     mbind (call_pred ops f v) (\<lambda>b. mbind (filter_loop ops f vs) (\<lambda>ws. mret (if b then v # ws else ws)))"

definition prim_filter :: "evalops \<Rightarrow> vid list \<Rightarrow> Value ev" where
  "prim_filter ops args =
     mbind (forceList ops (arg args 1)) (\<lambda>vs.
     if vs = [] then mret (VList vs)
     else mbind (forceFunction ops (arg args 0)) (\<lambda>_. mbind (filter_loop ops (args ! 0) vs) (\<lambda>ws. mret (VList ws))))"

fun elem_loop :: "evalops \<Rightarrow> vid \<Rightarrow> vid list \<Rightarrow> bool ev" where
  "elem_loop ops x [] = mret False"
| "elem_loop ops x (v # vs) = mbind (o_eqValues ops (Cell x) (Cell v)) (\<lambda>b. if b then mret True else elem_loop ops x vs)"

definition prim_elem :: "evalops \<Rightarrow> vid list \<Rightarrow> Value ev" where
  "prim_elem ops args =
     mbind (forceList ops (arg args 1)) (\<lambda>vs. mbind (elem_loop ops (args ! 0) vs) (\<lambda>b. mret (VBool b)))"

definition prim_concatLists :: "evalops \<Rightarrow> vid list \<Rightarrow> Value ev" where
  "prim_concatLists ops args = mbind (forceList ops (arg args 0)) (\<lambda>vs. concatLists ops (map Cell vs))"

definition prim_length :: "evalops \<Rightarrow> vid list \<Rightarrow> Value ev" where
  "prim_length ops args = mbind (forceList ops (arg args 0)) (\<lambda>vs. mret (VInt (of_nat (length vs))))"

text \<open>Every result but the last is put into a new cell, the accumulator of the next call.\<close>

fun foldl_loop :: "evalops \<Rightarrow> vid \<Rightarrow> vid \<Rightarrow> vid \<Rightarrow> vid list \<Rightarrow> Value ev" where
  "foldl_loop ops f vCur v [] = o_callFunction ops (Cell f) [vCur, v]"
| "foldl_loop ops f vCur v (v2 # vs) =
     mbind (o_callFunction ops (Cell f) [vCur, v]) (\<lambda>r. mbind (allocValue r) (\<lambda>c. foldl_loop ops f c v2 vs))"

definition prim_foldlStrict :: "evalops \<Rightarrow> vid list \<Rightarrow> Value ev" where
  "prim_foldlStrict ops args =
     mbind (forceFunction ops (arg args 0)) (\<lambda>_.
     mbind (forceList ops (arg args 2)) (\<lambda>vs.
     case vs of
       [] \<Rightarrow> forceValue ops (arg args 1)
     | v # vs \<Rightarrow> mbind (foldl_loop ops (args ! 0) (args ! 1) v vs) (\<lambda>r. forceValue ops (Temp r))))"

fun anyOrAll_loop :: "bool \<Rightarrow> evalops \<Rightarrow> vid \<Rightarrow> vid list \<Rightarrow> Value ev" where
  "anyOrAll_loop is_any ops f [] = mret (VBool (\<not> is_any))"
| "anyOrAll_loop is_any ops f (v # vs) =
     mbind (call_pred ops f v) (\<lambda>b. if b = is_any then mret (VBool is_any) else anyOrAll_loop is_any ops f vs)"

definition anyOrAll :: "bool \<Rightarrow> evalops \<Rightarrow> vid list \<Rightarrow> Value ev" where
  "anyOrAll is_any ops args =
     mbind (forceFunction ops (arg args 0)) (\<lambda>_.
     mbind (forceList ops (arg args 1)) (\<lambda>vs. anyOrAll_loop is_any ops (args ! 0) vs))"

definition prim_genList :: "evalops \<Rightarrow> vid list \<Rightarrow> Value ev" where
  "prim_genList ops args =
     mbind (forceInt ops (arg args 1)) (\<lambda>len.
     if len <s 0 then mfail (EvalError ''cannot create list of size %1%'')
     else
       mbind (forceFunction ops (arg args 0)) (\<lambda>_.
       mbind (mmap (\<lambda>n. mbind (allocValue (VInt (of_nat n))) (\<lambda>a. allocValue (VApp (args ! 0) a))) [0..<unat len]) (\<lambda>cs.
       mret (VList cs))))"

fun partition_loop :: "evalops \<Rightarrow> vid \<Rightarrow> vid list \<Rightarrow> (vid list \<times> vid list) ev" where
  "partition_loop ops f [] = mret ([], [])"
| "partition_loop ops f (v # vs) =
     mbind (forceValue ops (Cell v)) (\<lambda>_.
     mbind (call_pred ops f v) (\<lambda>b.
     mbind (partition_loop ops f vs) (\<lambda>(right, wrong). mret (if b then (v # right, wrong) else (right, v # wrong)))))"

definition prim_partition :: "evalops \<Rightarrow> vid list \<Rightarrow> Value ev" where
  "prim_partition ops args =
     mbind (forceFunction ops (arg args 0)) (\<lambda>_.
     mbind (forceList ops (arg args 1)) (\<lambda>vs.
     mbind (partition_loop ops (args ! 0) vs) (\<lambda>(right, wrong).
     mbind (allocValue (VList right)) (\<lambda>r.
     mbind (allocValue (VList wrong)) (\<lambda>w. mret (VAttrs (Bindings_sort [(sRight, r), (sWrong, w)])))))))"

fun groupBy_loop :: "evalops \<Rightarrow> vid \<Rightarrow> vid list \<Rightarrow> (Symbol \<times> vid list) list \<Rightarrow> (Symbol \<times> vid list) list ev" where
  "groupBy_loop ops f [] m = mret m"
| "groupBy_loop ops f (v # vs) m =
     mbind (o_callFunction ops (Cell f) [v]) (\<lambda>r.
     mbind (forceStringNoCtx ops (Temp r)) (\<lambda>name.
     mbind (createSymbol name) (\<lambda>s. groupBy_loop ops f vs (push_at s v m))))"

definition prim_groupBy :: "evalops \<Rightarrow> vid list \<Rightarrow> Value ev" where
  "prim_groupBy ops args =
     mbind (forceFunction ops (arg args 0)) (\<lambda>_.
     mbind (forceList ops (arg args 1)) (\<lambda>vs.
     mbind (groupBy_loop ops (args ! 0) vs []) (\<lambda>m.
     mbind (mmap (\<lambda>item. mbind (allocValue (VList (snd item))) (\<lambda>c. mret (fst item, c))) m) (\<lambda>attrs. mret (VAttrs attrs)))))"

definition prim_concatMap :: "evalops \<Rightarrow> vid list \<Rightarrow> Value ev" where
  "prim_concatMap ops args =
     mbind (forceFunction ops (arg args 0)) (\<lambda>_.
     mbind (forceList ops (arg args 1)) (\<lambda>vs.
     mbind (mmap (\<lambda>v. mbind (o_callFunction ops (arg args 0) [v]) (\<lambda>r. forceList ops (Temp r))) vs) (\<lambda>lists.
     mret (VList (concat lists)))))"

section \<open>Arithmetic\<close>

text \<open>An operation on two numbers: on floats when one of them is, else on integers with a check for overflow.\<close>

definition arith :: "EvalParams \<Rightarrow> (NixFloat \<Rightarrow> NixFloat \<Rightarrow> NixFloat) \<Rightarrow> (i64 \<Rightarrow> i64 \<Rightarrow> i64 Checked_Result) \<Rightarrow> evalops \<Rightarrow> vid list \<Rightarrow> Value ev" where
  "arith p fop iop ops args =
     mbind (forceValue ops (arg args 0)) (\<lambda>v1.
     mbind (forceValue ops (arg args 1)) (\<lambda>v2.
     if value_type v1 = nFloat \<or> value_type v2 = nFloat then
       mbind (forceFloat p ops (arg args 0)) (\<lambda>f1.
       mbind (forceFloat p ops (arg args 1)) (\<lambda>f2. mret (VFloat (fop f1 f2))))
     else
       mbind (forceInt ops (arg args 0)) (\<lambda>i1.
       mbind (forceInt ops (arg args 1)) (\<lambda>i2.
       case valueChecked (iop i1 i2) of
         Some n \<Rightarrow> mret (VInt n)
       | None \<Rightarrow> mfail (EvalError ''integer overflow'')))))"

definition prim_add :: "EvalParams \<Rightarrow> evalops \<Rightarrow> vid list \<Rightarrow> Value ev" where
  "prim_add p = arith p (ep_floatAdd p) checked_add"

definition prim_sub :: "EvalParams \<Rightarrow> evalops \<Rightarrow> vid list \<Rightarrow> Value ev" where
  "prim_sub p = arith p (ep_floatSub p) checked_sub"

definition prim_mul :: "EvalParams \<Rightarrow> evalops \<Rightarrow> vid list \<Rightarrow> Value ev" where
  "prim_mul p = arith p (ep_floatMul p) checked_mul"

definition prim_div :: "EvalParams \<Rightarrow> evalops \<Rightarrow> vid list \<Rightarrow> Value ev" where
  "prim_div p ops args =
     mbind (forceValue ops (arg args 0)) (\<lambda>_.
     mbind (forceValue ops (arg args 1)) (\<lambda>_.
     mbind (forceFloat p ops (arg args 1)) (\<lambda>f2.
     if ep_floatEq p f2 (ep_floatOfInt p 0) then mfail (EvalError ''division by zero'')
     else arith p (ep_floatDiv p) checked_div ops args)))"

definition bitwise :: "(i64 \<Rightarrow> i64 \<Rightarrow> i64) \<Rightarrow> evalops \<Rightarrow> vid list \<Rightarrow> Value ev" where
  "bitwise f ops args =
     mbind (forceInt ops (arg args 0)) (\<lambda>i1. mbind (forceInt ops (arg args 1)) (\<lambda>i2. mret (VInt (f i1 i2))))"

definition prim_lessThan :: "evalops \<Rightarrow> vid list \<Rightarrow> Value ev" where
  "prim_lessThan ops args =
     mbind (forceValue ops (arg args 0)) (\<lambda>_.
     mbind (forceValue ops (arg args 1)) (\<lambda>_.
     mbind (o_compareValues ops (args ! 0) (args ! 1)) (\<lambda>b. mret (VBool b))))"

section \<open>Strings\<close>

definition prim_toString :: "evalops \<Rightarrow> vid list \<Rightarrow> Value ev" where
  "prim_toString ops args = mbind (o_coerceToString ops True False True (arg args 0) []) (\<lambda>(s, context). mret (mkString s context))"

text \<open>
  The start is compared as \<^verbatim>\<open>unsigned int\<close>; \<^verbatim>\<open>substr\<close> throws \<^verbatim>\<open>std::out_of_range\<close> when it is after the end.
\<close>

definition substr :: "string \<Rightarrow> nat \<Rightarrow> nat \<Rightarrow> string result" where
  "substr s pos n = (if pos > length s then Inl (StdException ''out_of_range'') else Inr (take n (drop pos s)))"

definition substring_from :: "evalops \<Rightarrow> vid \<Rightarrow> i64 \<Rightarrow> i64 \<Rightarrow> Value ev" where
  "substring_from ops v start len =
     mbind (o_coerceToString ops False True True (Cell v) []) (\<lambda>(s, context).
     mbind (if unat (ucast start :: 32 word) \<ge> length s then mret [] else mlift (substr s (unat start) (unat len))) (\<lambda>r.
     mret (mkString r context)))"

definition prim_substring :: "evalops \<Rightarrow> vid list \<Rightarrow> Value ev" where
  "prim_substring ops args =
     mbind (forceInt ops (arg args 0)) (\<lambda>start.
     if start <s 0 then mfail (EvalError ''negative start position in substring'')
     else
       mbind (forceInt ops (arg args 1)) (\<lambda>len.
       if len = 0 then
         mbind (forceValue ops (arg args 2)) (\<lambda>v.
         case v of VString _ ctx \<Rightarrow> mret (VString [] ctx) | _ \<Rightarrow> substring_from ops (args ! 2) start len)
       else substring_from ops (args ! 2) start (if len <s 0 then 2 ^ 63 - 1 else len)))"

definition prim_stringLength :: "evalops \<Rightarrow> vid list \<Rightarrow> Value ev" where
  "prim_stringLength ops args =
     mbind (o_coerceToString ops False True True (arg args 0) []) (\<lambda>(s, _). mret (VInt (of_nat (length s))))"

definition forceStringCtx :: "EvalParams \<Rightarrow> evalops \<Rightarrow> lval \<Rightarrow> NixStringContext \<Rightarrow> (string \<times> NixStringContext) ev" where
  "forceStringCtx p ops lv context =
     mbind (forceString ops lv) (\<lambda>(s, ctx). mbind (copyContext p ctx context) (\<lambda>context. mret (s, context)))"

definition prim_hashString :: "EvalParams \<Rightarrow> evalops \<Rightarrow> vid list \<Rightarrow> Value ev" where
  "prim_hashString p ops args =
     mbind (forceStringNoCtx ops (arg args 0)) (\<lambda>a.
     mbind (mlift (parseHashAlgo a)) (\<lambda>ha.
     mbind (forceStringCtx p ops (arg args 1) []) (\<lambda>(s, _).
     mbind (mlift (rbind (ep_hash p ha s) (\<lambda>h. to_string h Base16 False))) (\<lambda>t. mret (VString t [])))))"

fun concat_sep :: "evalops \<Rightarrow> string \<Rightarrow> vid list \<Rightarrow> bool \<Rightarrow> string \<Rightarrow> NixStringContext \<Rightarrow> (string \<times> NixStringContext) ev" where
  "concat_sep ops sep [] first r context = mret (r, context)"
| "concat_sep ops sep (v # vs) first r context =
     mbind (o_coerceToString ops False True True (Cell v) context) (\<lambda>(s, context).
     concat_sep ops sep vs False ((if first then r else r @ sep) @ s) context)"

definition prim_concatStringsSep :: "EvalParams \<Rightarrow> evalops \<Rightarrow> vid list \<Rightarrow> Value ev" where
  "prim_concatStringsSep p ops args =
     mbind (forceStringCtx p ops (arg args 0) []) (\<lambda>(sep, context).
     mbind (forceList ops (arg args 1)) (\<lambda>vs.
     mbind (concat_sep ops sep vs True [] context) (\<lambda>(r, context). mret (mkString r context))))"

text \<open>
  The first of the strings to replace that is at position \<open>i\<close>. \<open>cache\<close> holds the replacements that
  have been evaluated.
\<close>

fun match_at :: "string list \<Rightarrow> string \<Rightarrow> nat \<Rightarrow> nat \<Rightarrow> (nat \<times> string) option" where
  "match_at [] s i j = None"
| "match_at (f # fs) s i j = (if take (length f) (drop i s) = f then Some (j, f) else match_at fs s i (j + 1))"

definition replacement :: "EvalParams \<Rightarrow> evalops \<Rightarrow> vid list \<Rightarrow> nat \<Rightarrow> (nat \<times> string) list \<Rightarrow> NixStringContext \<Rightarrow> (string \<times> (nat \<times> string) list \<times> NixStringContext) ev" where
  "replacement p ops to j cache context =
     (case map_of cache j of
        Some t \<Rightarrow> mret (t, cache, context)
      | None \<Rightarrow>
          mbind (forceStringCtx p ops (Cell (to ! j)) []) (\<lambda>(t, ctx).
          mret (t, (j, t) # cache, fold oset_insert ctx context)))"

function replace_loop :: "EvalParams \<Rightarrow> evalops \<Rightarrow> string list \<Rightarrow> vid list \<Rightarrow> string \<Rightarrow> nat \<Rightarrow> (nat \<times> string) list \<Rightarrow> string \<Rightarrow> NixStringContext \<Rightarrow> (string \<times> NixStringContext) ev" where
  "replace_loop p ops froms to s i cache r context =
     (if i > length s then mret (r, context)
      else case match_at froms s i 0 of
        None \<Rightarrow> replace_loop p ops froms to s (i + 1) cache (if i < length s then r @ [s ! i] else r) context
      | Some (j, f) \<Rightarrow>
          mbind (replacement p ops to j cache context) (\<lambda>(t, cache, context).
          if f = [] then replace_loop p ops froms to s (i + 1) cache (if i < length s then r @ t @ [s ! i] else r @ t) context
          else replace_loop p ops froms to s (i + length f) cache (r @ t) context))"
  by pat_completeness auto
termination
proof (relation "measure (\<lambda>(_, _, _, _, s, i, _). Suc (length s) - i)", goal_cases)
  case (4 p ops froms to s i cache r ctx m j f)
  then have "0 < length f" by simp
  with 4 show ?case by (simp add: Suc_diff_le; linarith)
qed (simp_all add: Suc_diff_le)

declare replace_loop.simps [simp del]

definition prim_replaceStrings :: "EvalParams \<Rightarrow> evalops \<Rightarrow> vid list \<Rightarrow> Value ev" where
  "prim_replaceStrings p ops args =
     mbind (forceList ops (arg args 0)) (\<lambda>froms.
     mbind (forceList ops (arg args 1)) (\<lambda>to.
     if length froms \<noteq> length to
     then mfail (EvalError ''from and to arguments passed to builtins.replaceStrings have different lengths'')
     else
       mbind (mmap (\<lambda>v. forceString ops (Cell v)) froms) (\<lambda>fs.
       mbind (forceStringCtx p ops (arg args 2) []) (\<lambda>(s, context).
       mbind (replace_loop p ops (map fst fs) to s 0 [] [] context) (\<lambda>(r, context). mret (mkString r context))))))"

definition prim_parseDrvName :: "evalops \<Rightarrow> vid list \<Rightarrow> Value ev" where
  "prim_parseDrvName ops args =
     mbind (forceStringNoCtx ops (arg args 0)) (\<lambda>name.
     mbind (allocValue (VString (dn_name (mkDrvName name)) [])) (\<lambda>n.
     mbind (createSymbol ''version'') (\<lambda>version.
     mbind (allocValue (VString (dn_version (mkDrvName name)) [])) (\<lambda>v.
     mret (VAttrs (Bindings_sort [(sName, n), (version, v)]))))))"

definition prim_compareVersions :: "EvalParams \<Rightarrow> evalops \<Rightarrow> vid list \<Rightarrow> Value ev" where
  "prim_compareVersions p ops args =
     mbind (forceStringNoCtx ops (arg args 0)) (\<lambda>version1.
     mbind (forceStringNoCtx ops (arg args 1)) (\<lambda>version2.
     mret (VInt (case compareVersions (ep_lexicalCast p) version1 version2 of Less \<Rightarrow> - 1 | Greater \<Rightarrow> 1 | Equal \<Rightarrow> 0))))"

definition prim_splitVersion :: "evalops \<Rightarrow> vid list \<Rightarrow> Value ev" where
  "prim_splitVersion ops args =
     mbind (forceStringNoCtx ops (arg args 0)) (\<lambda>version.
     mbind (mmap (\<lambda>c. allocValue (VString c [])) (splitVersion version)) (\<lambda>cs. mret (VList cs)))"

text \<open>\<^verbatim>\<open>legacyBaseNameOf\<close> removes one slash at the end only.\<close>

definition legacyBaseNameOf :: "string \<Rightarrow> string" where
  "legacyBaseNameOf path =
     (if path = [] then []
      else
        let l = (if last path = slash \<and> length path > 1 then length path - 2 else length path - 1);
            pos = (case rfind slash (take (l + 1) path) of None \<Rightarrow> 0 | Some pos \<Rightarrow> pos + 1)
        in take (l + 1 - pos) (drop pos path))"

definition prim_baseNameOf :: "evalops \<Rightarrow> vid list \<Rightarrow> Value ev" where
  "prim_baseNameOf ops args =
     mbind (o_coerceToString ops False False True (arg args 0) []) (\<lambda>(s, context). mret (mkString (legacyBaseNameOf s) context))"

definition prim_dirOf :: "evalops \<Rightarrow> vid list \<Rightarrow> Value ev" where
  "prim_dirOf ops args =
     mbind (forceValue ops (arg args 0)) (\<lambda>v.
     case v of
       VPath a path \<Rightarrow> (case parent path of None \<Rightarrow> mret (VPath a path) | Some dir \<Rightarrow> mret (VPath a dir))
     | _ \<Rightarrow> mbind (o_coerceToString ops False False True (arg args 0) []) (\<lambda>(s, context). mret (mkString (fs_dirOf s) context)))"

definition prim_placeholder :: "EvalParams \<Rightarrow> evalops \<Rightarrow> vid list \<Rightarrow> Value ev" where
  "prim_placeholder p ops args =
     mbind (forceStringNoCtx ops (arg args 0)) (\<lambda>outputName.
     mbind (mlift (hashPlaceholder (ep_hash p) outputName)) (\<lambda>s. mret (VString s [])))"

end
