(* ===== verification/Zix_PrimSafe.thy ===== *)
theory Zix_PrimSafe
  imports Zix_PrimOps
begin

text \<open>
  The primitive operations are safe. A small logic hides the heap: a computation that needs some
  cells to be in use leaves them in use, together with those of its result. The table of the
  primitive operations and the safety of evaluation with it are at the end.
\<close>

named_theorems live_intros \<open>steps of primitive operations\<close>

section \<open>Computations on cells in use\<close>

definition lives :: "(nat \<Rightarrow> nat option) \<Rightarrow> vid set \<Rightarrow> 'a ev \<Rightarrow> ('a \<Rightarrow> vid set) \<Rightarrow> ('a \<Rightarrow> bool) \<Rightarrow> bool" where
  "lives ar L m C P \<longleftrightarrow> (\<forall>w st. heap_ok ar w st \<longrightarrow> L \<subseteq> LV w \<longrightarrow> safe ar w m st (\<lambda>a w' st'. C a \<subseteq> LV w' \<and> P a))"

definition yields :: "(nat \<Rightarrow> nat option) \<Rightarrow> vid set \<Rightarrow> Value ev \<Rightarrow> bool" where
  "yields ar L m \<longleftrightarrow> (\<forall>w st. heap_ok ar w st \<longrightarrow> L \<subseteq> LV w \<longrightarrow> safe ar w m st (res ar))"

lemma grows_live: "grows w st w' st' \<Longrightarrow> L \<subseteq> LV w \<Longrightarrow> L \<subseteq> LV w'"
  by (auto simp: grows_def)

lemma lives_bind:
  assumes "lives ar L m C P" "\<And>a. P a \<Longrightarrow> lives ar (L \<union> C a) (f a) C' P'"
  shows "lives ar L (mbind m f) C' P'"
  unfolding lives_def
proof (intro allI impI)
  fix w st
  assume *: "heap_ok ar w st" "L \<subseteq> LV w"
  then have "safe ar w m st (\<lambda>a w' st'. C a \<subseteq> LV w' \<and> P a)" using assms(1) by (simp add: lives_def)
  then show "safe ar w (mbind m f) st (\<lambda>a w' st'. C' a \<subseteq> LV w' \<and> P' a)"
  proof (rule safe_bind, goal_cases)
    case (1 a w1 st1)
    then have "L \<union> C a \<subseteq> LV w1" using grows_live [OF 1(2) *(2)] by simp
    with 1 assms(2) show ?case by (simp add: lives_def)
  qed
qed

lemma yields_bind:
  assumes "lives ar L m C P" "\<And>a. P a \<Longrightarrow> yields ar (L \<union> C a) (f a)"
  shows "yields ar L (mbind m f)"
  unfolding yields_def
proof (intro allI impI)
  fix w st
  assume *: "heap_ok ar w st" "L \<subseteq> LV w"
  then have "safe ar w m st (\<lambda>a w' st'. C a \<subseteq> LV w' \<and> P a)" using assms(1) by (simp add: lives_def)
  then show "safe ar w (mbind m f) st (res ar)"
  proof (rule safe_bind, goal_cases)
    case (1 a w1 st1)
    then have "L \<union> C a \<subseteq> LV w1" using grows_live [OF 1(2) *(2)] by simp
    with 1 assms(2) show ?case by (simp add: yields_def)
  qed
qed

lemma lives_mono:
  assumes "lives ar L m C P" "L \<subseteq> L'" "\<And>a. P a \<Longrightarrow> C' a \<subseteq> C a \<union> L' \<and> P' a"
  shows "lives ar L' m C' P'"
  unfolding lives_def
proof (intro allI impI)
  fix w st
  assume *: "heap_ok ar w st" "L' \<subseteq> LV w"
  have "safe ar w m st (\<lambda>a w' st'. C a \<subseteq> LV w' \<and> P a)" using assms(1, 2) * by (auto simp: lives_def)
  then show "safe ar w m st (\<lambda>a w' st'. C' a \<subseteq> LV w' \<and> P' a)"
    by (rule safe_mono) (use assms(3) grows_live [OF _ *(2)] in blast)
qed

lemma lives_ret: "C a \<subseteq> L \<Longrightarrow> P a \<Longrightarrow> lives ar L (mret a) C P"
  unfolding lives_def by (auto simp del: mlift_app intro!: safe_ret)

lemma lives_fail [live_intros]: "proper e \<Longrightarrow> lives ar L (mfail e) C P"
  unfolding lives_def by (auto simp del: mlift_app intro!: safe_fail)

lemma yields_fail [live_intros]: "proper e \<Longrightarrow> yields ar L (mfail e)"
  unfolding yields_def by (auto simp del: mlift_app intro!: safe_fail)

lemma yields_ret [live_intros]:
  "yields ar L (mret (VInt n))" "yields ar L (mret (VFloat f))" "yields ar L (mret (VBool b))" "yields ar L (mret (VString s c))"
  "yields ar L (mret (VPath a s))" "yields ar L (mret (mkString s c'))"
  "set vs \<subseteq> L \<Longrightarrow> yields ar L (mret (VList vs))"
  "omap_ok bs \<Longrightarrow> snd ` set bs \<subseteq> L \<Longrightarrow> yields ar L (mret (VAttrs bs))"
  unfolding yields_def by (auto simp: mkString_def bs_ok_def simp del: mlift_app intro!: safe_ret)

lemma lives_lift: "(\<And>e. r = Inl e \<Longrightarrow> proper e) \<Longrightarrow> lives ar L (mlift r) (\<lambda>_. {}) (\<lambda>a. r = Inr a)"
  unfolding lives_def by (auto intro!: safe_lift)

lemma lives_mmap [live_intros]:
  assumes "\<And>x. x \<in> set xs \<Longrightarrow> lives ar L (f x) C (P x)"
  shows "lives ar L (mmap f xs) (\<lambda>ys. \<Union> (C ` set ys)) (list_all2 P xs)"
  using assms
proof (induction xs)
  case (Cons x xs)
  have "lives ar L (mbind (f x) (\<lambda>y. mbind (mmap f xs) (\<lambda>ys. mret (y # ys)))) (\<lambda>ys. \<Union> (C ` set ys)) (list_all2 P (x # xs))"
  proof (rule lives_bind [OF Cons.prems], goal_cases)
    case (2 y)
    have "lives ar L (mmap f xs) (\<lambda>ys. \<Union> (C ` set ys)) (list_all2 P xs)" using Cons by simp
    then have "lives ar (L \<union> C y) (mmap f xs) (\<lambda>ys. \<Union> (C ` set ys)) (list_all2 P xs)" by (rule lives_mono) auto
    then show ?case by (rule lives_bind) (use 2 in \<open>auto intro!: lives_ret\<close>)
  qed simp
  then show ?case by simp
qed (auto simp del: mlift_app intro!: lives_ret)

section \<open>The steps of the evaluator\<close>

lemma live_of_safe:
  assumes "\<And>w st. heap_ok ar w st \<Longrightarrow> L \<subseteq> LV w \<Longrightarrow> safe ar w m st Q'"
    "\<And>a w st. heap_ok ar w st \<Longrightarrow> Q' a w st \<Longrightarrow> C a \<subseteq> LV w \<and> P a"
  shows "lives ar L m C P"
  unfolding lives_def by (intro allI impI, rule safe_mono [OF assms(1)]) (use assms(2) in blast)+

text \<open>What is known of a value without looking at the heap.\<close>

definition plain :: "Value \<Rightarrow> bool" where
  "plain v \<longleftrightarrow> whnf v \<and> (\<forall>e a fs b l. v = VLambda e a (Some (fs, l)) b \<longrightarrow> omap_ok fs)"

lemma res_plain: "res ar v w st \<Longrightarrow> plain v"
  by (auto simp: plain_def res_def Let_def)

lemma lives_force [live_intros]:
  assumes "ops_safe ar ops" "c \<in> L"
  shows "lives ar L (forceValue ops (Cell c)) (\<lambda>_. {}) plain"
    and "lives ar L (forceList ops (Cell c)) set (\<lambda>_. True)"
    and "lives ar L (forceInt ops (Cell c)) (\<lambda>_. {}) (\<lambda>_. True)"
    and "lives ar L (forceFloat p ops (Cell c)) (\<lambda>_. {}) (\<lambda>_. True)"
    and "lives ar L (forceBool ops (Cell c)) (\<lambda>_. {}) (\<lambda>_. True)"
    and "lives ar L (forceString ops (Cell c)) (\<lambda>_. {}) (\<lambda>_. True)"
    and "lives ar L (forceStringNoCtx ops (Cell c)) (\<lambda>_. {}) (\<lambda>_. True)"
    and "lives ar L (forceFunction ops (Cell c)) (\<lambda>_. {}) (\<lambda>_. True)"
    and "lives ar L (o_coerceToString ops f g h (Cell c) x) (\<lambda>_. {}) (\<lambda>_. True)"
    and "lives ar L (o_forceDeep ops (Cell c) seen) (\<lambda>_. {}) (\<lambda>_. True)"
  using assms
  by (auto intro!: live_of_safe [OF forceValue_safe] live_of_safe [OF force_safe(2)]
      live_of_safe [OF force_safe(3)] live_of_safe [OF force_safe(4)] live_of_safe [OF force_safe(5)] live_of_safe [OF force_safe(6)]
      live_of_safe [OF force_safe(7)] live_of_safe [OF forceStringNoCtx_safe] live_of_safe [OF ops_safeD(6)] live_of_safe [OF ops_safeD(7)]
      simp: res_plain)

lemma lives_forceAttrs [live_intros]:
  assumes "ops_safe ar ops" "c \<in> L"
  shows "lives ar L (forceAttrs ops (Cell c)) (\<lambda>bs. snd ` set bs) omap_ok"
  by (rule live_of_safe [OF force_safe(1)]) (use assms in \<open>auto simp only: bs_ok_def lval_ok.simps\<close>)

lemma yields_force [live_intros]:
  assumes "ops_safe ar ops" "c \<in> L"
  shows "yields ar L (forceValue ops (Cell c))"
  unfolding yields_def using assms by (auto intro!: forceValue_safe)

lemma lives_alloc [live_intros]:
  "lives ar L (allocValue (VInt n)) (\<lambda>c. {c}) (\<lambda>_. True)" "lives ar L (allocValue (VBool b)) (\<lambda>c. {c}) (\<lambda>_. True)"
  "lives ar L (allocValue (VString s x)) (\<lambda>c. {c}) (\<lambda>_. True)"
  "f \<in> L \<Longrightarrow> v \<in> L \<Longrightarrow> lives ar L (allocValue (VApp f v)) (\<lambda>c. {c}) (\<lambda>_. True)"
  "set vs \<subseteq> L \<Longrightarrow> lives ar L (allocValue (VList vs)) (\<lambda>c. {c}) (\<lambda>_. True)"
  by (auto intro!: live_of_safe [OF safe_alloc])

lemma lives_createSymbol [live_intros]:
  "lives ar L (createSymbol s) (\<lambda>_. {}) (\<lambda>r. \<forall>k < length initial_symbols. r = Suc k \<longleftrightarrow> s = initial_symbols ! k)"
  unfolding lives_def by (auto intro!: safe_mono [OF createSymbol_safe])

lemma lives_symbolName [live_intros]: "lives ar L (symbolName s) (\<lambda>_. {}) (\<lambda>_. True)"
  by (auto simp: lives_def safe_def symbolName_def)

lemma lives_getAttr [live_intros]: "omap_ok bs \<Longrightarrow> snd ` set bs \<subseteq> L \<Longrightarrow> lives ar L (getAttr s bs) (\<lambda>c. {c}) (\<lambda>_. True)"
proof (cases "sorted_get bs s")
  case (Some v)
  assume "omap_ok bs" "snd ` set bs \<subseteq> L"
  with Some have "v \<in> L" by (auto simp: strict_sorted_iff image_subset_iff dest!: map_of_SomeD)
  then show ?thesis using Some by (simp del: mlift_app add: getAttr_def lives_ret)
qed (simp del: mlift_app add: getAttr_def lives_fail)

text \<open>Calls, and the results that are put in a variable.\<close>

lemma call_then:
  assumes ops: "ops_safe ar ops" and L: "f \<in> L" "set vs \<subseteq> L"
    and g: "\<And>r w st. heap_ok ar w st \<Longrightarrow> L \<subseteq> LV w \<Longrightarrow> res ar r w st \<Longrightarrow> safe ar w (g r) st (\<lambda>a w' st'. C a \<subseteq> LV w' \<and> P a)"
  shows "lives ar L (mbind (o_callFunction ops (Cell f) vs) g) C P"
  unfolding lives_def
proof (intro allI impI, rule safe_bind [OF ops_safeD(2) [OF ops]], goal_cases)
  case (4 w st r w1 st1)
  from 4(3) show ?case by (rule g) (use 4 grows_live in auto)
qed (use L in auto)

lemma lives_call_pred [live_intros]:
  assumes "ops_safe ar ops" "f \<in> L" "v \<in> L"
  shows "lives ar L (call_pred ops f v) (\<lambda>_. {}) (\<lambda>_. True)"
  unfolding call_pred_def using assms
  by (intro call_then) (auto intro!: safe_mono [OF force_safe(5)] simp: res_def)

lemma lives_forceStringCtx [live_intros]:
  assumes "ops_safe ar ops" "c \<in> L"
  shows "lives ar L (forceStringCtx p ops (Cell c) x) (\<lambda>_. {}) (\<lambda>_. True)"
  unfolding forceStringCtx_def
proof (rule lives_bind [OF lives_force(6) [OF assms]], goal_cases)
  case (1 a)
  have "lives ar L (mbind (copyContext p ctx x) (\<lambda>context. mret (s, context))) (\<lambda>_. {}) (\<lambda>_. True)" for s ctx
    by (rule lives_bind [OF live_of_safe [OF copyContext_safe, where C = "\<lambda>_. {}" and P = "\<lambda>_. True"]]) (auto simp del: mlift_app intro!: lives_ret)
  then show ?case by (cases a) simp
qed

section \<open>The primitive operations\<close>

lemma yields_case_pair [live_intros]: "(\<And>a b. x = (a, b) \<Longrightarrow> yields ar L (f a b)) \<Longrightarrow> yields ar L (case x of (a, b) \<Rightarrow> f a b)"
  by (cases x) simp

lemma yields_if [live_intros]: "(b \<Longrightarrow> yields ar L m) \<Longrightarrow> (\<not> b \<Longrightarrow> yields ar L n) \<Longrightarrow> yields ar L (if b then m else n)"
  by simp

lemma type_name_plain: "plain v \<Longrightarrow> type_name (value_type v) \<noteq> Inl e"
  by (cases v) (auto simp: type_name_def plain_def whnf_def)

lemma control_yields:
  assumes "ops_safe ar ops"
  shows "length args = 1 \<Longrightarrow> yields ar (set args) (prim_typeOf ops args)"
    and "length args = 1 \<Longrightarrow> yields ar (set args) (prim_isType t ops args)"
    and "length args = 1 \<Longrightarrow> yields ar (set args) (prim_abort ops args)"
    and "length args = 1 \<Longrightarrow> yields ar (set args) (prim_throw ops args)"
    and "length args = 2 \<Longrightarrow> yields ar (set args) (prim_seq ops args)"
    and "length args = 2 \<Longrightarrow> yields ar (set args) (prim_deepSeq ops args)"
    and "length args = 2 \<Longrightarrow> yields ar (set args) (prim_second ops args)"
  unfolding prim_typeOf_def prim_isType_def prim_abort_def prim_throw_def prim_seq_def prim_deepSeq_def prim_second_def
  using assms by (auto intro!: yields_bind live_intros lives_lift simp del: mlift_app simp: type_name_plain)

lemma safe_catch:
  assumes "safe ar w m st Q" "\<And>e w1 st1. heap_ok ar w1 st1 \<Longrightarrow> grows w st w1 st1 \<Longrightarrow> proper e \<Longrightarrow> safe ar w1 (h e) st1 Q"
  shows "safe ar w (mcatch m h) st Q"
  unfolding safe_def
proof (intro allI impI)
  fix r st'
  assume run: "mcatch m h st = Some (r, st')"
  then obtain r1 st1 where m: "m st = Some (r1, st1)" by (auto simp: mcatch_def split: option.splits)
  with assms(1) obtain w1 where w1: "heap_ok ar w1 st1" "grows w st w1 st1" "case r1 of Inl e \<Rightarrow> proper e | Inr a \<Rightarrow> Q a w1 st1"
    by (auto simp: safe_def)
  show "\<exists>w'. heap_ok ar w' st' \<and> grows w st w' st' \<and> (case r of Inl e \<Rightarrow> proper e | Inr a \<Rightarrow> Q a w' st')"
  proof (cases r1)
    case (Inl e)
    with run m have "h e st1 = Some (r, st')" by (simp add: mcatch_def)
    with assms(2) [OF w1(1, 2)] w1(3) Inl obtain w2 where "heap_ok ar w2 st'" "grows w1 st1 w2 st'" "case r of Inl e \<Rightarrow> proper e | Inr a \<Rightarrow> Q a w2 st'"
      unfolding safe_def by fastforce
    with w1(2) grows_trans show ?thesis by blast
  next
    case (Inr a)
    with run m w1 show ?thesis by (auto simp: mcatch_def)
  qed
qed

lemma lives_catch [live_intros]:
  assumes "lives ar L m C P" "\<And>e. proper e \<Longrightarrow> lives ar L (h e) C P"
  shows "lives ar L (mcatch m h) C P"
  using assms unfolding lives_def by (auto intro!: safe_catch dest: grows_live)

lemma yields_catch [live_intros]:
  assumes "yields ar L m" "\<And>e. proper e \<Longrightarrow> yields ar L (h e)"
  shows "yields ar L (mcatch m h)"
  using assms unfolding yields_def by (auto intro!: safe_catch dest: grows_live)

lemma addErrorContext_yields:
  assumes "ops_safe ar ops" "length args = 2"
  shows "yields ar (set args) (prim_addErrorContext ops args)"
  unfolding prim_addErrorContext_def using assms by (auto intro!: yields_bind live_intros simp del: mlift_app)

lemma Bindings_sort_pair:
  "a \<noteq> b \<Longrightarrow> omap_ok (Bindings_sort [(a, x), (b, y)])" "set (Bindings_sort bs) = set bs"
  by (auto simp: Bindings_sort_def)

lemma symbol_differs:
  assumes "\<forall>k < length initial_symbols. r = Suc k \<longleftrightarrow> s = initial_symbols ! k"
  shows "s \<noteq> ''value'' \<Longrightarrow> r \<noteq> sValue" "s \<noteq> ''name'' \<Longrightarrow> r \<noteq> sName"
proof -
  have "6 < length initial_symbols" "initial_symbols ! 6 = ''value''" "5 < length initial_symbols" "initial_symbols ! 5 = ''name''" by code_simp+
  with spec [OF assms, of 6] spec [OF assms, of 5] show "s \<noteq> ''value'' \<Longrightarrow> r \<noteq> sValue" "s \<noteq> ''name'' \<Longrightarrow> r \<noteq> sName"
    by (simp_all add: sValue_def sName_def)
qed

lemma tryEval_yields:
  assumes "ops_safe ar ops" "length args = 1"
  shows "yields ar (set args) (prim_tryEval ops args)"
proof -
  have mem: "args ! 0 \<in> set args" using assms(2) by simp
  have tried: "lives ar (set args) (mcatch (mbind (forceValue ops (arg args 0)) (\<lambda>_. mret True)) (\<lambda>e. if is_AssertionError e then mret False else mfail e)) (\<lambda>_. {}) (\<lambda>_. True)"
    using assms(1) mem by (auto intro!: lives_catch lives_bind [OF lives_force(1)] lives_ret lives_fail simp del: mlift_app)
  have cell: "lives ar L (if ok then mret (args ! 0) else allocValue (VBool False)) (\<lambda>c. {c}) (\<lambda>_. True)" if "set args \<subseteq> L" for ok L
    using mem that by (auto simp del: mlift_app intro!: lives_ret lives_alloc)
  show ?thesis
    unfolding prim_tryEval_def
    by (rule yields_bind [OF tried], rule yields_bind [OF cell], simp, rule yields_bind [OF lives_createSymbol], rule yields_bind [OF lives_alloc(2)])
      (auto simp del: mlift_app simp: Bindings_sort_pair intro!: yields_ret dest!: symbol_differs(1))
qed

lemma set_difference_set: "set (set_difference bs names) \<subseteq> set bs"
  by (induction bs names rule: set_difference.induct) auto

lemma set_difference_filter:
  "omap_ok bs \<Longrightarrow> sorted names \<Longrightarrow> set_difference bs names = filter (\<lambda>b. fst b \<notin> set names) bs"
proof (induction bs names rule: set_difference.induct)
  case (3 b bs n names)
  have above: "\<forall>m \<in> set names. n \<le> m" "\<forall>c \<in> set bs. fst b < fst c" using "3.prems" by (auto simp: less_le)
  consider "fst b < n" | "n < fst b" | "fst b = n" by linarith
  then show ?case
  proof cases
    case 1
    with above have "fst b \<notin> set (n # names)" by auto
    with 1 "3.IH"(1) [OF 1] "3.prems" show ?thesis by auto
  next
    case 2
    then have "\<forall>c \<in> set (b # bs). fst c \<noteq> n" using above by fastforce
    then have "filter (\<lambda>c. fst c \<notin> set (n # names)) (b # bs) = filter (\<lambda>c. fst c \<notin> set names) (b # bs)" by (intro filter_cong) auto
    with 2 "3.IH"(2) "3.prems" show ?thesis by auto
  next
    case 3
    then have "\<forall>c \<in> set bs. fst c \<noteq> n" using above by fastforce
    then have "filter (\<lambda>c. fst c \<notin> set (n # names)) bs = filter (\<lambda>c. fst c \<notin> set names) bs" by (intro filter_cong) auto
    with 3 "3.IH"(3) "3.prems" show ?thesis by auto
  qed
qed auto

lemma omap_ok_filter: "omap_ok bs \<Longrightarrow> omap_ok (filter P bs)"
  by (induction bs) auto

lemma omap_ok_sort: "distinct (map fst bs) \<Longrightarrow> omap_ok (Bindings_sort bs)"
  by (auto simp: Bindings_sort_def strict_sorted_iff distinct_map)

lemma lives_listToAttrs [live_intros]:
  assumes ops: "ops_safe ar ops"
  shows "set vs \<subseteq> L \<Longrightarrow> snd ` set attrs \<subseteq> L \<Longrightarrow> distinct (map fst attrs) \<Longrightarrow> fst ` set attrs \<subseteq> set seen \<Longrightarrow>
    lives ar L (listToAttrs_loop ops vs seen attrs) (\<lambda>bs. snd ` set bs) (\<lambda>bs. distinct (map fst bs))"
proof (induction vs arbitrary: L seen attrs)
  case Nil
  then show ?case unfolding listToAttrs_loop.simps by (intro lives_ret) auto
next
  case (Cons v vs)
  have v: "v \<in> L" using Cons.prems(1) by simp
  show ?case
    unfolding listToAttrs_loop.simps
  proof (rule lives_bind [OF lives_forceAttrs [OF ops v]], rule lives_bind [OF lives_getAttr], assumption, blast,
      rule lives_bind [OF lives_force(7) [OF ops]], blast, rule lives_bind [OF lives_createSymbol], goal_cases)
    case (1 bs j name s)
    let ?L = "L \<union> snd ` set bs \<union> {j} \<union> {} \<union> {}"
    have "lives ar ?L (mbind (getAttr sValue bs) (\<lambda>j2. listToAttrs_loop ops vs (s # seen) (attrs @ [(s, j2)]))) (\<lambda>bs. snd ` set bs) (\<lambda>bs. distinct (map fst bs))"
      if "s \<notin> set seen"
    proof (rule lives_bind [OF lives_getAttr [OF 1(1)]], blast, goal_cases)
      case (1 j2)
      have "s \<notin> fst ` set attrs" using that Cons.prems(4) by blast
      then show ?case using Cons.prems by (intro Cons.IH) auto
    qed
    moreover have "lives ar ?L (listToAttrs_loop ops vs seen attrs) (\<lambda>bs. snd ` set bs) (\<lambda>bs. distinct (map fst bs))"
      using Cons.prems by (intro Cons.IH) auto
    ultimately show ?case by simp
  qed
qed

lemma walk_lookup:
  fixes g :: "Symbol \<Rightarrow> vid option"
  defines "walk \<equiv> \<lambda>xs :: Bindings. concat (map (\<lambda>l. case g (fst l) of Some r \<Rightarrow> [(fst l, r)] | None \<Rightarrow> []) xs)"
  shows "omap_ok xs \<Longrightarrow> omap_ok (walk xs) \<and> map_of (walk xs) = g |` (fst ` set xs)"
proof -
  have keys: "fst ` set (walk xs) \<subseteq> fst ` set xs" for xs by (force simp: walk_def split: option.splits)
  show "omap_ok xs \<Longrightarrow> omap_ok (walk xs) \<and> map_of (walk xs) = g |` (fst ` set xs)"
  proof (induction xs)
    case (Cons x xs)
    then have IH: "omap_ok (walk xs)" "map_of (walk xs) = g |` (fst ` set xs)" and x: "\<forall>y \<in> fst ` set xs. fst x < y" by auto
    have "\<forall>y \<in> set (walk xs). fst x < fst y" using x keys [of xs] by blast
    with IH x show ?case by (cases "g (fst x)") (auto simp: walk_def restrict_map_def fun_eq_iff)
  qed (simp add: walk_def)
qed

lemma intersect_attrs_filter:
  assumes "omap_ok left" "omap_ok right"
  shows "intersect_attrs left right = filter (\<lambda>r. fst r \<in> fst ` set left) right"
proof (cases "length left < length right")
  case True
  note walk = walk_lookup [OF assms(1), of "map_of right"]
  have "map_of (filter (\<lambda>r. fst r \<in> fst ` set left) right) k = (map_of right |` (fst ` set left)) k" for k
    by (induction right) (auto simp: restrict_map_def)
  then have "concat (map (\<lambda>l. case map_of right (fst l) of Some r \<Rightarrow> [(fst l, r)] | None \<Rightarrow> []) left) = filter (\<lambda>r. fst r \<in> fst ` set left) right"
    using walk by (intro omap_eqI) (auto intro: omap_ok_filter [OF assms(2)])
  with True assms show ?thesis by (simp add: intersect_attrs_def strict_sorted_iff)
next
  case False
  have look: "(case map_of left (fst r) of Some _ \<Rightarrow> [r] | None \<Rightarrow> []) = (if fst r \<in> fst ` set left then [r] else [])" for r
    using map_of_eq_None_iff [of left "fst r"] by (cases "map_of left (fst r)") simp_all
  have "concat (map (\<lambda>r. if Q r then [r] else []) xs) = filter Q xs" for Q and xs :: Bindings by (induction xs) auto
  then have "concat (map (\<lambda>r. case map_of left (fst r) of Some _ \<Rightarrow> [r] | None \<Rightarrow> []) right) = filter (\<lambda>r. fst r \<in> fst ` set left) right"
    unfolding look .
  with False assms show ?thesis by (simp add: intersect_attrs_def strict_sorted_iff)
qed

lemma lives_apply_named [live_intros]:
  assumes "f \<in> L" "v \<in> L"
  shows "lives ar L (apply_named f s v) (\<lambda>b. {snd b}) (\<lambda>b. fst b = s)"
  unfolding apply_named_def
proof (rule lives_bind [OF lives_symbolName], rule lives_bind [OF lives_alloc(3)], goal_cases)
  case (1 n vName)
  show ?case
  proof (rule lives_bind [OF lives_alloc(4)], goal_cases)
    case (3 vFun2)
    show ?case by (rule lives_bind [OF lives_alloc(4)]) (use assms in \<open>auto simp del: mlift_app intro!: lives_ret\<close>)
  qed (use assms in auto)
qed

lemma all2_fst: "list_all2 (\<lambda>x y. fst y = fst x) xs ys \<Longrightarrow> map fst ys = map fst xs"
  by (induction rule: list_all2_induct) auto

lemma yields_bindings: "omap_ok (bs :: (Symbol \<times> 'a) list) \<Longrightarrow> list_all2 (\<lambda>x y. fst y = fst x) bs attrs \<Longrightarrow> (\<Union>b \<in> set attrs. {snd b}) \<subseteq> L \<Longrightarrow> yields ar L (mret (VAttrs attrs))"
  using yields_ret(8) [of attrs L ar] all2_fst [of bs attrs] by (auto simp: image_subset_iff)

lemma set_omap_assign: "set (omap_assign k v m) \<subseteq> insert (k, v) (set m)"
  by (induction m) auto

lemma push_at_ok:
  assumes "omap_ok m" "\<And>x. x \<in> set m \<Longrightarrow> set (snd x) \<subseteq> L" "v \<in> L"
  shows "omap_ok (push_at s v m)" "x \<in> set (push_at s v m) \<Longrightarrow> set (snd x) \<subseteq> L"
proof -
  show "omap_ok (push_at s v m)" using assms(1) by (simp add: push_at_def)
  define old where "old = (case map_of m s of Some vs \<Rightarrow> vs | None \<Rightarrow> [])"
  have "set old \<subseteq> L" unfolding old_def using assms(2) [OF map_of_SomeD, of s] by (cases "map_of m s") auto
  moreover have "x = (s, old @ [v]) \<or> x \<in> set m" if "x \<in> set (push_at s v m)"
    using subsetD [OF set_omap_assign that [unfolded push_at_def, folded old_def]] by simp
  ultimately show "set (snd x) \<subseteq> L" if "x \<in> set (push_at s v m)" using that assms(2) [of x] assms(3) by auto
qed

lemma fold_push_at:
  "omap_ok m \<Longrightarrow> (\<And>x. x \<in> set m \<Longrightarrow> set (snd x) \<subseteq> L) \<Longrightarrow> snd ` set bs \<subseteq> L \<Longrightarrow>
    omap_ok (fold (\<lambda>b m. push_at (fst b) (snd b) m) bs m) \<and> (\<forall>x \<in> set (fold (\<lambda>b m. push_at (fst b) (snd b) m) bs m). set (snd x) \<subseteq> L)"
proof (induction bs arbitrary: m)
  case (Cons b bs)
  have "snd b \<in> L" using Cons.prems(3) by simp
  note push = push_at_ok [OF Cons.prems(1, 2) this, where s = "fst b"]
  from Cons.IH [OF push] Cons.prems(3) show ?case by simp
qed auto

lemma names_yields:
  assumes "ops_safe ar ops"
  shows "length args = 1 \<Longrightarrow> yields ar (set args) (prim_attrNames ops args)"
    and "length args = 1 \<Longrightarrow> yields ar (set args) (prim_attrValues ops args)"
    and "length args = 2 \<Longrightarrow> yields ar (set args) (prim_getAttr ops args)"
    and "length args = 2 \<Longrightarrow> yields ar (set args) (prim_hasAttr ops args)"
    and "length args = 2 \<Longrightarrow> yields ar (set args) (prim_removeAttrs ops args)"
    and "length args = 1 \<Longrightarrow> yields ar (set args) (prim_listToAttrs ops args)"
    and "length args = 2 \<Longrightarrow> yields ar (set args) (prim_intersectAttrs ops args)"
proof -
  show "yields ar (set args) (prim_getAttr ops args)" "yields ar (set args) (prim_hasAttr ops args)" if "length args = 2"
    unfolding prim_getAttr_def prim_hasAttr_def using assms that by (auto intro!: yields_bind live_intros simp del: mlift_app)
  show "yields ar (set args) (prim_attrNames ops args)" if "length args = 1"
    unfolding prim_attrNames_def
  proof (rule yields_bind [OF lives_forceAttrs [OF assms]], use that in simp, rule yields_bind [OF lives_mmap [where C = "\<lambda>b. {snd b}" and P = "\<lambda>_ _. True"]], goal_cases)
    case (1 bs b)
    show ?case by (rule lives_bind [OF lives_symbolName], rule lives_bind [OF lives_alloc(3)], rule lives_ret) auto
  qed (auto intro!: yields_ret simp del: mlift_app)
  show "yields ar (set args) (prim_attrValues ops args)" if "length args = 1"
    unfolding prim_attrValues_def
  proof (rule yields_bind [OF lives_forceAttrs [OF assms]], use that in simp, rule yields_bind [OF lives_mmap [where C = "\<lambda>b. {snd b}" and P = "\<lambda>_ _. True"]], goal_cases)
    case (1 bs b)
    then show ?case by (intro lives_bind [OF lives_symbolName] lives_ret) auto
  qed (auto intro!: yields_ret simp del: mlift_app)
  show "yields ar (set args) (prim_removeAttrs ops args)" if "length args = 2"
    unfolding prim_removeAttrs_def
  proof (rule yields_bind [OF lives_forceAttrs [OF assms]], use that in simp, rule yields_bind [OF lives_force(2) [OF assms]], use that in simp,
      rule yields_bind [OF lives_mmap [where C = "\<lambda>_. {}" and P = "\<lambda>_ _. True"]], goal_cases)
    case (1 bs vs v)
    then show ?case by (intro lives_bind [OF lives_force(7) [OF assms]] lives_mono [OF lives_createSymbol]) auto
  next
    case (2 bs vs names)
    then show ?case using set_difference_set [of bs "sort names"]
      by (auto simp: set_difference_filter simp del: mlift_app intro!: yields_ret omap_ok_filter)
  qed
  show "yields ar (set args) (prim_listToAttrs ops args)" if "length args = 1"
    unfolding prim_listToAttrs_def
    by (rule yields_bind [OF lives_force(2) [OF assms]], use that in simp, rule yields_bind [OF lives_listToAttrs [OF assms]])
      (auto simp: Bindings_sort_pair(2) omap_ok_sort simp del: mlift_app intro!: yields_ret)
  show "yields ar (set args) (prim_intersectAttrs ops args)" if "length args = 2"
    unfolding prim_intersectAttrs_def
    by (rule yields_bind [OF lives_forceAttrs [OF assms]], use that in simp, rule yields_bind [OF lives_forceAttrs [OF assms]], use that in simp)
      (auto simp: intersect_attrs_filter simp del: mlift_app intro!: yields_ret omap_ok_filter)
qed

lemma sets_yields:
  assumes "ops_safe ar ops"
  shows "length args = 2 \<Longrightarrow> yields ar (set args) (prim_catAttrs ops args)"
    and "length args = 1 \<Longrightarrow> yields ar (set args) (prim_functionArgs ops args)"
    and "length args = 2 \<Longrightarrow> yields ar (set args) (prim_mapAttrs ops args)"
    and "length args = 2 \<Longrightarrow> yields ar (set args) (prim_zipAttrsWith ops args)"
proof -
  show "yields ar (set args) (prim_catAttrs ops args)" if "length args = 2"
    unfolding prim_catAttrs_def
  proof (rule yields_bind [OF lives_force(7) [OF assms]], use that in simp, rule yields_bind [OF lives_createSymbol],
      rule yields_bind [OF lives_force(2) [OF assms]], use that in simp, rule yields_bind [OF lives_mmap [where C = set and P = "\<lambda>_ _. True"]], goal_cases)
    case (1 name s vs v)
    have "map_of bs s = Some x \<Longrightarrow> x \<in> snd ` set bs" for x and bs :: Bindings by (metis map_of_SomeD image_iff snd_conv)
    with 1 show ?case
      by (intro lives_bind [OF lives_forceAttrs [OF assms]] lives_ret) (auto simp: strict_sorted_iff split: option.splits)
  qed (auto simp del: mlift_app intro!: yields_ret)
  show "yields ar (set args) (prim_functionArgs ops args)" if "length args = 1"
    unfolding prim_functionArgs_def
  proof (rule yields_bind [OF lives_force(1) [OF assms]], use that in simp, goal_cases)
    case (1 v)
    have "yields ar (set args \<union> {}) (mbind (mmap (\<lambda>f. mbind (allocValue (VBool (snd f \<noteq> None))) (\<lambda>c. mret (fst f, c))) formals) (\<lambda>attrs. mret (VAttrs (Bindings_sort attrs))))"
      if "omap_ok formals" for formals :: FormalList
    proof (rule yields_bind [OF lives_mmap [where C = "\<lambda>b. {snd b}" and P = "\<lambda>x y. fst y = fst x"]], goal_cases)
      case (1 f)
      show ?case by (intro lives_bind [OF lives_alloc(2)] lives_ret) auto
    next
      case (2 attrs)
      then have "map fst attrs = map fst formals" by (induction rule: list_all2_induct) auto
      then have "distinct (map fst attrs)" using that by (simp add: strict_sorted_iff)
      then show ?case by (intro yields_ret omap_ok_sort) (auto simp: Bindings_sort_pair(2))
    qed
    with 1 show ?case by (auto simp: plain_def simp del: mlift_app split: Value.split option.split intro!: yields_ret yields_fail)
  qed
  show "yields ar (set args) (prim_mapAttrs ops args)" if "length args = 2"
    unfolding prim_mapAttrs_def
    by (rule yields_bind [OF lives_forceAttrs [OF assms]], use that in simp,
        rule yields_bind [OF lives_mmap [OF lives_apply_named]], use that in simp, blast, rule yields_bindings) auto
  show "yields ar (set args) (prim_zipAttrsWith ops args)" if "length args = 2"
    unfolding prim_zipAttrsWith_def
  proof (rule yields_bind [OF lives_force(8) [OF assms]], use that in simp, rule yields_bind [OF lives_force(2) [OF assms]], use that in simp,
      rule yields_bind [OF lives_mmap [where C = "\<lambda>bs. snd ` set bs" and P = "\<lambda>_. omap_ok"]], goal_cases)
    case (1 f vs v)
    then show ?case by (intro lives_forceAttrs [OF assms]) auto
  next
    case (2 f vs bss)
    let ?m = "fold (\<lambda>b m. push_at (fst b) (snd b) m) (concat bss) []" and ?L = "set args \<union> {} \<union> set vs \<union> (\<Union>bs \<in> set bss. snd ` set bs)"
    have m: "omap_ok ?m" "\<forall>x \<in> set ?m. set (snd x) \<subseteq> ?L" using fold_push_at [of "[]" ?L "concat bss"] by auto
    have "lives ar ?L (mbind (allocValue (VList (snd item))) (apply_named (args ! 0) (fst item))) (\<lambda>b. {snd b}) (\<lambda>b. fst b = fst item)" if "item \<in> set ?m" for item
      by (rule lives_bind [OF lives_alloc(5)], use m that in blast, rule lives_apply_named) (use \<open>length args = 2\<close> in auto)
    then show ?case by (intro yields_bind [OF lives_mmap] yields_bindings [OF m(1)]) auto
  qed
qed

lemma lives_filter [live_intros]:
  assumes "ops_safe ar ops"
  shows "f \<in> L \<Longrightarrow> set vs \<subseteq> L \<Longrightarrow> lives ar L (filter_loop ops f vs) set (\<lambda>_. True)"
proof (induction vs)
  case (Cons v vs)
  then have IH: "lives ar L (filter_loop ops f vs) set (\<lambda>_. True)" by simp
  show ?case unfolding filter_loop.simps
    by (rule lives_bind [OF lives_call_pred [OF assms]], use Cons.prems in simp, use Cons.prems in simp, rule lives_bind [OF lives_mono [OF IH]])
      (use Cons.prems in \<open>auto simp del: mlift_app intro!: lives_ret\<close>)
qed (auto simp del: mlift_app intro!: lives_ret)

lemma lives_elem [live_intros]:
  assumes "ops_safe ar ops"
  shows "x \<in> L \<Longrightarrow> set vs \<subseteq> L \<Longrightarrow> lives ar L (elem_loop ops x vs) (\<lambda>_. {}) (\<lambda>_. True)"
proof (induction vs)
  case (Cons v vs)
  have "lives ar L (o_eqValues ops (Cell x) (Cell v)) (\<lambda>_. {}) (\<lambda>_. True)"
    by (rule live_of_safe [OF ops_safeD(4) [OF assms]]) (use Cons.prems in auto)
  then show ?case unfolding elem_loop.simps
    by (rule lives_bind) (use Cons in \<open>auto simp del: mlift_app intro!: lives_ret\<close>)
qed (auto simp del: mlift_app intro!: lives_ret)

lemma yields_anyOrAll [live_intros]:
  assumes "ops_safe ar ops"
  shows "f \<in> L \<Longrightarrow> set vs \<subseteq> L \<Longrightarrow> yields ar L (anyOrAll_loop b ops f vs)"
proof (induction vs)
  case (Cons v vs)
  then show ?case unfolding anyOrAll_loop.simps
    by (intro yields_bind [OF lives_call_pred [OF assms]]) (auto simp del: mlift_app intro!: yields_ret)
qed (auto simp del: mlift_app intro!: yields_ret)

lemma lives_partition [live_intros]:
  assumes "ops_safe ar ops"
  shows "f \<in> L \<Longrightarrow> set vs \<subseteq> L \<Longrightarrow> lives ar L (partition_loop ops f vs) (\<lambda>r. set (fst r) \<union> set (snd r)) (\<lambda>_. True)"
proof (induction vs)
  case (Cons v vs)
  then have IH: "lives ar L (partition_loop ops f vs) (\<lambda>r. set (fst r) \<union> set (snd r)) (\<lambda>_. True)" by simp
  show ?case unfolding partition_loop.simps
    by (rule lives_bind [OF lives_force(1) [OF assms]], use Cons.prems in simp, rule lives_bind [OF lives_call_pred [OF assms]], use Cons.prems in simp, use Cons.prems in simp,
        rule lives_bind [OF lives_mono [OF IH, where C' = "\<lambda>r. set (fst r) \<union> set (snd r)" and P' = "\<lambda>_. True"]])
      (use Cons.prems in \<open>auto simp del: mlift_app split: if_splits intro!: lives_ret\<close>)
qed (auto simp del: mlift_app intro!: lives_ret)

lemma lives_groupBy [live_intros]:
  assumes "ops_safe ar ops"
  shows "f \<in> L \<Longrightarrow> set vs \<subseteq> L \<Longrightarrow> omap_ok m \<Longrightarrow> (\<And>x. x \<in> set m \<Longrightarrow> set (snd x) \<subseteq> L) \<Longrightarrow>
    lives ar L (groupBy_loop ops f vs m) (\<lambda>m. \<Union> (set ` snd ` set m)) omap_ok"
proof (induction vs arbitrary: m)
  case (Cons v vs)
  have name: "lives ar L (mbind (o_callFunction ops (Cell f) [v]) (\<lambda>r. forceStringNoCtx ops (Temp r))) (\<lambda>_. {}) (\<lambda>_. True)"
    by (rule call_then [OF assms]) (use Cons.prems assms in \<open>auto intro!: safe_mono [OF forceStringNoCtx_safe] simp: res_def\<close>)
  have "lives ar L (mbind (mbind (o_callFunction ops (Cell f) [v]) (\<lambda>r. forceStringNoCtx ops (Temp r))) (\<lambda>name.
     mbind (createSymbol name) (\<lambda>s. groupBy_loop ops f vs (push_at s v m)))) (\<lambda>m. \<Union> (set ` snd ` set m)) omap_ok"
  proof (rule lives_bind [OF name], rule lives_bind [OF lives_createSymbol], goal_cases)
    case (1 name s)
    have "v \<in> L" using Cons.prems(2) by simp
    note push = push_at_ok [OF Cons.prems(3, 4) this, where s = s]
    have "lives ar L (groupBy_loop ops f vs (push_at s v m)) (\<lambda>m. \<Union> (set ` snd ` set m)) omap_ok"
      using Cons.prems(1, 2) by (intro Cons.IH push) auto
    then show ?case by simp
  qed
  then show ?case by (simp add: mbind_assoc)
qed (auto simp del: mlift_app intro!: lives_ret)

lemma yields_foldl [live_intros]:
  assumes ops: "ops_safe ar ops"
  shows "f \<in> L \<Longrightarrow> c \<in> L \<Longrightarrow> v \<in> L \<Longrightarrow> set vs \<subseteq> L \<Longrightarrow> yields ar L (foldl_loop ops f c v vs)"
proof (induction vs arbitrary: L c v)
  case Nil
  then show ?case unfolding foldl_loop.simps yields_def by (auto intro!: ops_safeD(2) [OF ops])
next
  case (Cons v2 vs)
  have "lives ar L (mbind (o_callFunction ops (Cell f) [c, v]) allocValue) (\<lambda>c. {c}) (\<lambda>_. True)"
    by (rule call_then [OF ops]) (use Cons.prems in \<open>auto intro!: safe_mono [OF safe_alloc] simp: res_def\<close>)
  then have "yields ar L (mbind (mbind (o_callFunction ops (Cell f) [c, v]) allocValue) (\<lambda>c. foldl_loop ops f c v2 vs))"
  proof (rule yields_bind, goal_cases)
    case (1 c)
    show ?case by (rule Cons.IH) (use Cons.prems in auto)
  qed
  then show ?case by (simp add: mbind_assoc)
qed

lemma yields_force_result:
  assumes "ops_safe ar ops" "yields ar L m"
  shows "yields ar L (mbind m (\<lambda>r. forceValue ops (Temp r)))"
  unfolding yields_def
proof (intro allI impI)
  fix w st
  assume "heap_ok ar w st" "L \<subseteq> LV w"
  with assms(2) have "safe ar w m st (res ar)" by (simp add: yields_def)
  then show "safe ar w (mbind m (\<lambda>r. forceValue ops (Temp r))) st (res ar)"
    by (rule safe_bind) (use assms(1) in \<open>auto simp: res_def intro!: forceValue_safe\<close>)
qed

lemma yields_concatLists [live_intros]:
  assumes "ops_safe ar ops" "set vs \<subseteq> L"
  shows "yields ar L (concatLists ops (map Cell vs))"
  unfolding yields_def
proof (intro allI impI)
  fix w st
  assume "heap_ok ar w st" "L \<subseteq> LV w"
  moreover from this assms(2) have "lval_ok ar w st lv" if "lv \<in> set (map Cell vs)" for lv using that by auto
  ultimately show "safe ar w (concatLists ops (map Cell vs)) st (res ar)" by (intro concatLists_safe [OF assms(1)])
qed

lemma lists_yields:
  assumes ops: "ops_safe ar ops"
  shows "length args = 2 \<Longrightarrow> yields ar (set args) (prim_elemAt ops args)"
    and "length args = 1 \<Longrightarrow> yields ar (set args) (prim_head ops args)"
    and "length args = 1 \<Longrightarrow> yields ar (set args) (prim_tail ops args)"
    and "length args = 2 \<Longrightarrow> yields ar (set args) (prim_filter ops args)"
    and "length args = 2 \<Longrightarrow> yields ar (set args) (prim_elem ops args)"
    and "length args = 1 \<Longrightarrow> yields ar (set args) (prim_concatLists ops args)"
    and "length args = 1 \<Longrightarrow> yields ar (set args) (prim_length ops args)"
    and "length args = 2 \<Longrightarrow> yields ar (set args) (anyOrAll b ops args)"
  unfolding prim_elemAt_def prim_head_def prim_tail_def prim_filter_def prim_elem_def prim_concatLists_def prim_length_def anyOrAll_def
  using ops by (auto intro!: yields_bind live_intros simp del: mlift_app split: list.split)

lemma calls_yields:
  assumes ops: "ops_safe ar ops"
  shows "length args = 2 \<Longrightarrow> yields ar (set args) (prim_map ops args)"
    and "length args = 3 \<Longrightarrow> yields ar (set args) (prim_foldlStrict ops args)"
    and "length args = 2 \<Longrightarrow> yields ar (set args) (prim_genList ops args)"
    and "length args = 2 \<Longrightarrow> yields ar (set args) (prim_partition ops args)"
    and "length args = 2 \<Longrightarrow> yields ar (set args) (prim_groupBy ops args)"
    and "length args = 2 \<Longrightarrow> yields ar (set args) (prim_concatMap ops args)"
proof -
  show "yields ar (set args) (prim_foldlStrict ops args)" if "length args = 3"
    unfolding prim_foldlStrict_def
    by (rule yields_bind [OF lives_force(8) [OF ops]], use that in simp, rule yields_bind [OF lives_force(2) [OF ops]], use that in simp)
      (use ops that in \<open>auto split: list.split intro!: yields_force_result yields_foldl yields_force\<close>)
  show "yields ar (set args) (prim_map ops args)" if "length args = 2"
    unfolding prim_map_def
  proof (rule yields_bind [OF lives_force(2) [OF ops]], use that in simp, rule yields_if, goal_cases)
    case (2 vs)
    show ?case
      by (rule yields_bind [OF lives_force(8) [OF ops]], use that in simp, rule yields_bind [OF lives_mmap [OF lives_alloc(4)]])
        (use that in \<open>auto simp del: mlift_app intro!: yields_ret\<close>)
  qed (auto simp del: mlift_app intro!: yields_ret)
  show "yields ar (set args) (prim_genList ops args)" if "length args = 2"
    unfolding prim_genList_def
  proof (rule yields_bind [OF lives_force(3) [OF ops]], use that in simp, rule yields_if, goal_cases)
    case (2 n)
    show ?case
    proof (rule yields_bind [OF lives_force(8) [OF ops]], use that in simp, rule yields_bind [OF lives_mmap [where C = "\<lambda>c. {c}" and P = "\<lambda>_ _. True"]], goal_cases)
      case (1 f x)
      show ?case by (rule lives_bind [OF lives_alloc(1)], rule lives_alloc(4)) (use that in auto)
    qed (auto simp del: mlift_app intro!: yields_ret)
  qed (auto simp del: mlift_app intro!: yields_fail)
  show "yields ar (set args) (prim_partition ops args)" if "length args = 2"
    unfolding prim_partition_def
    by (rule yields_bind [OF lives_force(8) [OF ops]], use that in simp, rule yields_bind [OF lives_force(2) [OF ops]], use that in simp,
        rule yields_bind [OF lives_partition [OF ops]], use that in simp, blast, rule yields_case_pair,
        rule yields_bind [OF lives_alloc(5)], force, rule yields_bind [OF lives_alloc(5)], force, rule yields_ret)
      (auto simp: Bindings_sort_pair sRight_def sWrong_def)
  show "yields ar (set args) (prim_groupBy ops args)" if "length args = 2"
    unfolding prim_groupBy_def
  proof (rule yields_bind [OF lives_force(8) [OF ops]], use that in simp, rule yields_bind [OF lives_force(2) [OF ops]], use that in simp,
      rule yields_bind [OF lives_groupBy [OF ops]], goal_cases)
    case (5 f vs m)
    show ?case
    proof (rule yields_bind [OF lives_mmap [where C = "\<lambda>b. {snd b}" and P = "\<lambda>x y. fst y = fst x"]], goal_cases)
      case (1 item)
      show ?case by (rule lives_bind [OF lives_alloc(5)]) (use 1 in \<open>auto simp del: mlift_app intro!: lives_ret\<close>)
    qed (rule yields_bindings [OF 5(3)], auto)
  qed (use that in auto)
  show "yields ar (set args) (prim_concatMap ops args)" if "length args = 2"
    unfolding prim_concatMap_def
  proof (rule yields_bind [OF lives_force(8) [OF ops]], use that in simp, rule yields_bind [OF lives_force(2) [OF ops]], use that in simp,
      rule yields_bind [OF lives_mmap [where C = set and P = "\<lambda>_ _. True"]], goal_cases)
    case (1 f vs v)
    then show ?case by (intro call_then [OF ops]) (use that ops in \<open>auto intro!: safe_mono [OF force_safe(2)] simp: res_def\<close>)
  qed (auto simp del: mlift_app intro!: yields_ret)
qed

lemma yields_option [live_intros]: "(x = None \<Longrightarrow> yields ar L m) \<Longrightarrow> (\<And>a. x = Some a \<Longrightarrow> yields ar L (f a)) \<Longrightarrow> yields ar L (case x of None \<Rightarrow> m | Some a \<Rightarrow> f a)"
  by (cases x) auto

lemma yields_arith [live_intros]:
  assumes "ops_safe ar ops" "args ! 0 \<in> L" "args ! 1 \<in> L"
  shows "yields ar L (arith p fop iop ops args)"
  unfolding arith_def using assms by (auto intro!: yields_bind live_intros simp del: mlift_app)

lemma lives_compare [live_intros]:
  assumes "ops_safe ar ops" "a \<in> L" "b \<in> L"
  shows "lives ar L (o_compareValues ops a b) (\<lambda>_. {}) (\<lambda>_. True)"
  by (rule live_of_safe [OF ops_safeD(9) [OF assms(1)]]) (use assms in auto)

lemma arith_yields:
  assumes "ops_safe ar ops" "length args = 2"
  shows "yields ar (set args) (prim_add p ops args)" "yields ar (set args) (prim_sub p ops args)" "yields ar (set args) (prim_mul p ops args)"
    "yields ar (set args) (prim_div p ops args)" "yields ar (set args) (bitwise f ops args)" "yields ar (set args) (prim_lessThan ops args)"
  unfolding prim_add_def prim_sub_def prim_mul_def prim_div_def bitwise_def prim_lessThan_def
  using assms by (auto intro!: yields_bind live_intros simp del: mlift_app)

lemma yields_substring_from [live_intros]:
  assumes "ops_safe ar ops" "v \<in> L"
  shows "yields ar L (substring_from ops v start len)"
proof -
  have "lives ar M (if unat (ucast start :: 32 word) \<ge> length s then mret [] else mlift (substr s (unat start) (unat len))) (\<lambda>_. {}) (\<lambda>_. True)" for s M
    by (auto simp del: mlift_app simp: substr_def intro!: lives_ret lives_fail)
  then show ?thesis
    unfolding substring_from_def using assms by (auto intro!: yields_bind live_intros simp del: mlift_app split del: if_split)
qed

lemma lives_concat_sep [live_intros]:
  assumes "ops_safe ar ops"
  shows "set vs \<subseteq> L \<Longrightarrow> lives ar L (concat_sep ops sep vs first r ctx) (\<lambda>_. {}) (\<lambda>_. True)"
proof (induction vs arbitrary: first r ctx)
  case (Cons v vs)
  show ?case unfolding concat_sep.simps
  proof (rule lives_bind [OF lives_force(9) [OF assms]], goal_cases)
    case (2 a)
    then show ?case using Cons by (cases a) auto
  qed (use Cons.prems in simp)
qed (auto simp del: mlift_app intro!: lives_ret)

lemma match_at_bound: "match_at fs s i j = Some (k, f) \<Longrightarrow> j \<le> k \<and> k < j + length fs"
  by (induction fs s i j rule: match_at.induct) (auto split: if_splits)

lemma lives_replacement:
  assumes "ops_safe ar ops" "j < length to" "set to \<subseteq> L"
  shows "lives ar L (replacement p ops to j cache ctx) (\<lambda>_. {}) (\<lambda>_. True)"
proof (cases "map_of cache j")
  case None
  have "lives ar L (mbind (forceStringCtx p ops (Cell (to ! j)) []) (\<lambda>(t, c). mret (t, (j, t) # cache, fold oset_insert c ctx))) (\<lambda>_. {}) (\<lambda>_. True)"
    by (rule lives_bind [OF lives_forceStringCtx [OF assms(1)]]) (use assms in \<open>auto simp del: mlift_app intro!: lives_ret\<close>)
  then show ?thesis using None by (simp add: replacement_def)
qed (simp del: mlift_app add: replacement_def lives_ret)

lemma lives_replace [live_intros]:
  assumes "ops_safe ar ops" "set to \<subseteq> L" "length to = length froms"
  shows "lives ar L (replace_loop p ops froms to s i cache r ctx) (\<lambda>_. {}) (\<lambda>_. True)"
  using assms
proof (induction p ops froms to s i cache r ctx rule: replace_loop.induct)
  case (1 p ops froms to s i cache r ctx)
  show ?case
  proof (cases "i > length s")
    case True
    then show ?thesis by (subst replace_loop.simps) (simp del: mlift_app add: lives_ret)
  next
    case False
    show ?thesis
    proof (cases "match_at froms s i 0")
      case None
      with False 1 show ?thesis by (subst replace_loop.simps) simp
    next
      case (Some m)
      obtain j f where m: "m = (j, f)" by fastforce
      have "lives ar L (mbind (replacement p ops to j cache ctx) (\<lambda>(t, cache, ctx).
          if f = [] then replace_loop p ops froms to s (i + 1) cache (if i < length s then r @ t @ [s ! i] else r @ t) ctx
          else replace_loop p ops froms to s (i + length f) cache (r @ t) ctx)) (\<lambda>_. {}) (\<lambda>_. True)"
      proof (rule lives_bind [OF lives_replacement], goal_cases)
        case (4 x)
        obtain t cache' ctx' where x: "x = (t, cache', ctx')" by (cases x)
        show ?case unfolding x prod.case
          using "1.IH"(2) [OF False Some m [symmetric]] "1.IH"(3) [OF False Some m [symmetric]] "1.prems" by auto
      qed (use "1.prems" match_at_bound [of froms s i 0 j f] Some m in auto)
      then show ?thesis using False Some m by (subst replace_loop.simps) simp
    qed
  qed
qed

lemma strings_yields:
  assumes ops: "ops_safe ar ops"
  shows "length args = 1 \<Longrightarrow> yields ar (set args) (prim_toString ops args)"
    and "length args = 3 \<Longrightarrow> yields ar (set args) (prim_substring ops args)"
    and "length args = 1 \<Longrightarrow> yields ar (set args) (prim_stringLength ops args)"
    and "length args = 2 \<Longrightarrow> yields ar (set args) (prim_concatStringsSep p ops args)"
    and "length args = 2 \<Longrightarrow> yields ar (set args) (prim_compareVersions p ops args)"
    and "length args = 1 \<Longrightarrow> yields ar (set args) (prim_baseNameOf ops args)"
  unfolding prim_toString_def prim_substring_def prim_stringLength_def prim_concatStringsSep_def prim_compareVersions_def prim_baseNameOf_def
  using ops by (auto intro!: yields_bind live_intros simp del: mlift_app split: Value.split option.split)

lemma parseHashAlgo_proper: "parseHashAlgo s = Inl e \<Longrightarrow> proper e"
  by (auto simp: parseHashAlgo_def split: option.splits)

lemma hash_text_proper:
  assumes "outside_law p"
  shows "rbind (ep_hash p ha s) (\<lambda>h. to_string h f b) = Inl e \<Longrightarrow> proper e" "hashPlaceholder (ep_hash p) s = Inl e \<Longrightarrow> proper e"
  using assms by (auto simp: outside_law_def hashPlaceholder_def to_string_eq result_simps split: sum.splits)

lemma names_and_hashes_yields:
  assumes ops: "ops_safe ar ops" and law: "outside_law p"
  shows "length args = 1 \<Longrightarrow> yields ar (set args) (prim_dirOf ops args)"
    and "length args = 2 \<Longrightarrow> yields ar (set args) (prim_hashString p ops args)"
    and "length args = 3 \<Longrightarrow> yields ar (set args) (prim_replaceStrings p ops args)"
    and "length args = 1 \<Longrightarrow> yields ar (set args) (prim_parseDrvName ops args)"
    and "length args = 1 \<Longrightarrow> yields ar (set args) (prim_splitVersion ops args)"
    and "length args = 1 \<Longrightarrow> yields ar (set args) (prim_placeholder p ops args)"
proof -
  show "yields ar (set args) (prim_dirOf ops args)" if "length args = 1"
    unfolding prim_dirOf_def
  proof (rule yields_bind [OF lives_force(1) [OF ops]], use that in simp, goal_cases)
    case (1 v)
    have "yields ar (set args \<union> {}) (mbind (o_coerceToString ops False False True (arg args 0) []) (\<lambda>(s, context). mret (mkString (fs_dirOf s) context)))"
      using ops that by (auto intro!: yields_bind live_intros simp del: mlift_app)
    then show ?case by (auto simp del: mlift_app split: Value.split option.split intro!: yields_ret)
  qed
  show "yields ar (set args) (prim_hashString p ops args)" if "length args = 2"
    unfolding prim_hashString_def
    by (rule yields_bind [OF lives_force(7) [OF ops]], use that in simp, rule yields_bind [OF lives_lift], erule parseHashAlgo_proper,
        rule yields_bind [OF lives_forceStringCtx [OF ops]], use that in simp, rule yields_case_pair, rule yields_bind [OF lives_lift])
      (auto simp del: mlift_app intro!: yields_ret hash_text_proper(1) [OF law])
  show "yields ar (set args) (prim_placeholder p ops args)" if "length args = 1"
    unfolding prim_placeholder_def
    by (rule yields_bind [OF lives_force(7) [OF ops]], use that in simp, rule yields_bind [OF lives_lift])
      (auto simp del: mlift_app intro!: yields_ret hash_text_proper(2) [OF law])
  show "yields ar (set args) (prim_splitVersion ops args)" if "length args = 1"
    unfolding prim_splitVersion_def
    by (rule yields_bind [OF lives_force(7) [OF ops]], use that in simp, rule yields_bind [OF lives_mmap [OF lives_alloc(3)]])
      (auto simp del: mlift_app intro!: yields_ret)
  show "yields ar (set args) (prim_parseDrvName ops args)" if "length args = 1"
    unfolding prim_parseDrvName_def
    by (rule yields_bind [OF lives_force(7) [OF ops]], use that in simp, rule yields_bind [OF lives_alloc(3)],
        rule yields_bind [OF lives_createSymbol], rule yields_bind [OF lives_alloc(3)])
      (auto simp del: mlift_app simp: Bindings_sort_pair intro!: yields_ret dest!: symbol_differs(2))
  show "yields ar (set args) (prim_replaceStrings p ops args)" if "length args = 3"
    unfolding prim_replaceStrings_def
  proof (rule yields_bind [OF lives_force(2) [OF ops]], use that in simp, rule yields_bind [OF lives_force(2) [OF ops]], use that in simp,
      rule yields_if, goal_cases)
    case (2 froms to)
    show ?case
    proof (rule yields_bind [OF lives_mmap [where C = "\<lambda>_. {}" and P = "\<lambda>_ _. True"]], goal_cases)
      case (1 v)
      then show ?case by (intro lives_mono [OF lives_force(6) [OF ops]]) auto
    next
      case (2 fs)
      then have len: "length to = length (map fst fs)" using \<open>\<not> length froms \<noteq> length to\<close> by (simp add: list_all2_lengthD)
      show ?case
        by (rule yields_bind [OF lives_forceStringCtx [OF ops]], use that in simp, rule yields_case_pair,
            rule yields_bind [OF lives_replace [OF ops _ len]]) (auto simp del: mlift_app intro!: yields_case_pair yields_ret)
    qed
  qed (auto simp del: mlift_app intro!: yields_fail)
qed

section \<open>The table of the primitive operations\<close>

unbundle bit_operations_syntax

definition primOp :: "string \<Rightarrow> nat \<Rightarrow> (evalops \<Rightarrow> vid list \<Rightarrow> Value ev) \<Rightarrow> string \<times> PrimOp" where
  "primOp name arity f = (name, \<lparr>po_arity = arity, po_fun = f\<rparr>)"

text \<open>
  The registered primitive operations that are modelled, in the order of the file, after
  \<^verbatim>\<open>__traceVerbose\<close> with tracing off.
\<close>

definition primOps :: "EvalParams \<Rightarrow> (string \<times> PrimOp) list" where
  "primOps p =
     [
      primOp ''__traceVerbose'' 2 prim_second, primOp ''__typeOf'' 1 prim_typeOf, primOp ''isNull'' 1 (prim_isType nNull),
      primOp ''__isFunction'' 1 (prim_isType nFunction), primOp ''__isInt'' 1 (prim_isType nInt), primOp ''__isFloat'' 1 (prim_isType nFloat),
      primOp ''__isString'' 1 (prim_isType nString), primOp ''__isBool'' 1 (prim_isType nBool), primOp ''__isPath'' 1 (prim_isType nPath),
      primOp ''abort'' 1 prim_abort, primOp ''throw'' 1 prim_throw, primOp ''__addErrorContext'' 2 prim_addErrorContext,
      primOp ''__tryEval'' 1 prim_tryEval, primOp ''__seq'' 2 prim_seq, primOp ''__deepSeq'' 2 prim_deepSeq,
      primOp ''placeholder'' 1 (prim_placeholder p), primOp ''baseNameOf'' 1 prim_baseNameOf, primOp ''dirOf'' 1 prim_dirOf,
      primOp ''__attrNames'' 1 prim_attrNames, primOp ''__attrValues'' 1 prim_attrValues, primOp ''__getAttr'' 2 prim_getAttr,
      primOp ''__hasAttr'' 2 prim_hasAttr, primOp ''__isAttrs'' 1 (prim_isType nAttrs), primOp ''removeAttrs'' 2 prim_removeAttrs,
      primOp ''__listToAttrs'' 1 prim_listToAttrs, primOp ''__intersectAttrs'' 2 prim_intersectAttrs, primOp ''__catAttrs'' 2 prim_catAttrs,
      primOp ''__functionArgs'' 1 prim_functionArgs, primOp ''__mapAttrs'' 2 prim_mapAttrs, primOp ''__zipAttrsWith'' 2 prim_zipAttrsWith,
      primOp ''__isList'' 1 (prim_isType nList), primOp ''__elemAt'' 2 prim_elemAt, primOp ''__head'' 1 prim_head,
      primOp ''__tail'' 1 prim_tail, primOp ''map'' 2 prim_map, primOp ''__filter'' 2 prim_filter,
      primOp ''__elem'' 2 prim_elem, primOp ''__concatLists'' 1 prim_concatLists, primOp ''__length'' 1 prim_length,
      primOp (''__foldl'' @ [CHR 0x27]) 3 prim_foldlStrict, primOp ''__any'' 2 (anyOrAll True), primOp ''__all'' 2 (anyOrAll False),
      primOp ''__genList'' 2 prim_genList, primOp ''__partition'' 2 prim_partition, primOp ''__groupBy'' 2 prim_groupBy,
      primOp ''__concatMap'' 2 prim_concatMap, primOp ''__add'' 2 (prim_add p), primOp ''__sub'' 2 (prim_sub p),
      primOp ''__mul'' 2 (prim_mul p), primOp ''__div'' 2 (prim_div p), primOp ''__bitAnd'' 2 (bitwise (AND)),
      primOp ''__bitOr'' 2 (bitwise (OR)), primOp ''__bitXor'' 2 (bitwise (XOR)), primOp ''__lessThan'' 2 prim_lessThan,
      primOp ''toString'' 1 prim_toString, primOp ''__substring'' 3 prim_substring, primOp ''__stringLength'' 1 prim_stringLength,
      primOp ''__hashString'' 2 (prim_hashString p), primOp ''__concatStringsSep'' 2 (prim_concatStringsSep p), primOp ''__replaceStrings'' 3 (prim_replaceStrings p),
      primOp ''__parseDrvName'' 1 prim_parseDrvName, primOp ''__compareVersions'' 2 (prim_compareVersions p), primOp ''__splitVersion'' 1 prim_splitVersion]"

definition with_primOps :: "EvalParams \<Rightarrow> EvalParams" where
  "with_primOps p = p\<lparr>ep_primOps := (\<lambda>i. if i < length (primOps p) then Some (snd (primOps p ! i)) else None)\<rparr>"

definition primOp_safe :: "PrimOp \<Rightarrow> bool" where
  "primOp_safe fn \<longleftrightarrow> po_arity fn \<le> maxPrimOpArity \<and>
     (\<forall>ar ops args. ops_safe ar ops \<longrightarrow> length args = po_arity fn \<longrightarrow> yields ar (set args) (po_fun fn ops args))"

lemma primOp_safeI:
  assumes "arity \<le> 8" "\<And>ar ops args. ops_safe ar ops \<Longrightarrow> length args = arity \<Longrightarrow> yields ar (set args) (f ops args)"
  shows "primOp_safe (snd (primOp name arity f))"
  using assms by (simp add: primOp_safe_def primOp_def maxPrimOpArity_def)

lemma table_safe:
  assumes "outside_law p"
  shows "list_all (\<lambda>x. primOp_safe (snd x)) (primOps p)"
  unfolding primOps_def list.pred_inject
  by (intro conjI primOp_safeI control_yields addErrorContext_yields tryEval_yields names_yields sets_yields lists_yields calls_yields
      arith_yields strings_yields names_and_hashes_yields [OF _ assms] TrueI) (assumption | simp)+

lemma with_primOps_safe:
  assumes "outside_law p"
  shows "primOps_safe (with_primOps p)"
  unfolding primOps_safe_def
proof (intro allI impI)
  fix i fn
  assume "ep_primOps (with_primOps p) i = Some fn"
  then have "\<exists>x \<in> set (primOps p). fn = snd x" by (auto simp: with_primOps_def split: if_splits)
  then have "primOp_safe fn" using table_safe [OF assms] by (auto simp: list_all_iff)
  then show "po_arity fn \<le> maxPrimOpArity \<and>
    (\<forall>ops w st args. ops_safe (arity_of (with_primOps p)) ops \<longrightarrow> heap_ok (arity_of (with_primOps p)) w st \<longrightarrow> set args \<subseteq> LV w \<longrightarrow> length args = po_arity fn \<longrightarrow>
       safe (arity_of (with_primOps p)) w (po_fun fn ops args) st (res (arity_of (with_primOps p))))"
    by (simp add: primOp_safe_def yields_def)
qed

end
