(* ===== verification/Zix_Builtins.thy ===== *)
theory Zix_Builtins
  imports Zix_PrimSafe
begin

text \<open>
  What some primitive operations compute: the operators on sets are those of finite maps, and
  \<^verbatim>\<open>builtins.elemAt\<close> selects the element of a list, for indices below \<open>2\<^sup>3\<^sup>2\<close>.
\<close>

section \<open>Sets are finite maps\<close>

lemma update_merge_map:
  assumes "omap_ok xs" "omap_ok ys"
  shows "map_of (update_merge xs ys) k = (map_of xs ++ map_of ys) k"
  using assms
proof (induction xs ys rule: update_merge.induct)
  case (1 i xs j ys)
  have out: "map_of ys (fst i) = None" if "fst i \<le> fst j" using 1(5) that by (force simp: map_of_eq_None_iff)
  have out': "map_of xs (fst j) = None" if "fst j \<le> fst i" using 1(4) that by (force simp: map_of_eq_None_iff)
  consider "fst i = fst j" | "fst i < fst j" | "fst j < fst i" by fastforce
  then show ?case
  proof cases
    case 1
    then show ?thesis using "1.IH"(1) "1.prems" by (cases i; cases j) (auto simp: map_add_def split: option.splits)
  next
    case 2
    then show ?thesis using "1.IH"(2) "1.prems" out by (cases i; cases j) (auto simp: map_add_def split: option.splits)
  next
    case 3
    then show ?thesis using "1.IH"(3) "1.prems" out' by (cases i; cases j) (auto simp: map_add_def split: option.splits)
  qed
qed auto

lemma map_of_filter_key: "map_of (filter (\<lambda>b. Q (fst b)) bs) k = (if Q k then map_of bs k else None)"
  by (induction bs) auto

text \<open>
  C11: The attribute-set operators compute the operations on finite maps. For sets that are sorted by
  symbol, as every set of the evaluator is, \<^verbatim>\<open>a // b\<close> is the map of a overridden by that of b,
  \<^verbatim>\<open>intersectAttrs\<close> restricts the second map to the names of the first, whichever set is the smaller
  one that it walks, and \<^verbatim>\<open>removeAttrs\<close> removes the names, given in any order; each result is
  sorted again.
\<close>

theorem attrset_operations:
  assumes "omap_ok xs" "omap_ok ys"
  shows "omap_ok (update_merge xs ys) \<and> map_of (update_merge xs ys) = map_of xs ++ map_of ys \<and>
    omap_ok (intersect_attrs xs ys) \<and> map_of (intersect_attrs xs ys) = map_of ys |` dom (map_of xs) \<and>
    omap_ok (set_difference xs (sort names)) \<and> map_of (set_difference xs (sort names)) = map_of xs |` (- set names)"
proof (intro conjI)
  show "omap_ok (update_merge xs ys)" by (rule update_merge_ok [OF assms])
  show "map_of (update_merge xs ys) = map_of xs ++ map_of ys" using update_merge_map [OF assms] by (rule ext)
  have i: "intersect_attrs xs ys = filter (\<lambda>r. fst r \<in> fst ` set xs) ys" by (rule intersect_attrs_filter [OF assms])
  show "omap_ok (intersect_attrs xs ys)" unfolding i by (rule omap_ok_filter [OF assms(2)])
  show "map_of (intersect_attrs xs ys) = map_of ys |` dom (map_of xs)"
    unfolding i by (rule ext) (simp add: map_of_filter_key [of "\<lambda>k. k \<in> fst ` set xs"] restrict_map_def dom_map_of_conv_image_fst)
  have d: "set_difference xs (sort names) = filter (\<lambda>b. fst b \<notin> set names) xs" using set_difference_filter [OF assms(1), of "sort names"] by simp
  show "omap_ok (set_difference xs (sort names))" unfolding d by (rule omap_ok_filter [OF assms(1)])
  show "map_of (set_difference xs (sort names)) = map_of xs |` (- set names)"
    unfolding d by (rule ext) (simp add: map_of_filter_key [of "\<lambda>k. k \<notin> set names"] restrict_map_def)
qed

theorem attrset_operations_witness:
  "update_merge [(1, 10), (3, 30)] [(2, 21), (3, 31)] = [(1, 10), (2, 21), (3, 31)] \<and>
   map_of (update_merge [(1, 10), (3, 30)] [(2, 21), (3, 31)]) = map_of [(1, 10), (3, 30)] ++ map_of [(2, 21), (3, 31)] \<and>
   intersect_attrs [(1, 10), (3, 30)] [(2, 21), (3, 31)] = [(3, 31)] \<and> set_difference [(1, 10), (3, 30)] (sort [3, 2]) = [(1, 10)]"
  using attrset_operations [of "[(1, 10), (3, 30)]" "[(2, 21), (3, 31)]" "[3, 2]"]
  by (simp add: intersect_attrs_def)

section \<open>elemAt\<close>

lemma forced_value: "v < length (es_values st) \<Longrightarrow> whnf (es_values st ! v) \<Longrightarrow> forceValue ops (Cell v) st = Some (Inr (es_values st ! v), st)"
  by (cases "es_values st ! v") (auto simp: forceValue_def forceCell_def mbind_def readValue_def whnf_def)

lemma elemAt_unfold:
  assumes "l < length (es_values st)" "es_values st ! l = VList vs" "i < length (es_values st)" "es_values st ! i = VInt n"
  shows "prim_elemAt ops [l, i] st =
    (if n <s 0 \<or> unat (ucast n :: 32 word) \<ge> length vs then mfail (EvalError ''builtins.elemAt called with index %d on a list of size %d'') st
     else if unat n \<ge> length vs then mfail (UndefinedBehaviour ''listElems()[n]'') st
     else forceValue ops (Cell (vs ! unat n)) st)"
  using assms forced_value [of l st ops] forced_value [of i st ops]
  by (auto simp: prim_elemAt_def forceInt_def forceList_def mbind_def whnf_def)

lemma ucast_below: "unat n < 2 ^ 32 \<Longrightarrow> unat (ucast n :: 32 word) = unat n" for n :: "64 word"
  by (simp add: unsigned_ucast_eq take_bit_nat_eq_self)

text \<open>
  C29: \<^verbatim>\<open>builtins.elemAt\<close> is right for every index up to \<open>2\<^sup>3\<^sup>2 - 1\<close>: the element is forced when there is one,
  and otherwise an error is thrown. Beyond that the bounds check sees only the low 32 bits of the
  index: when these are in range, the array is read out of bounds.
\<close>

theorem elemAt_exact:
  assumes "l < length (es_values st)" "es_values st ! l = VList vs" "i < length (es_values st)" "es_values st ! i = VInt n" and "\<not> n <s 0"
  shows "(unat n < 2 ^ 32 \<longrightarrow> prim_elemAt ops [l, i] st =
      (if unat n < length vs then forceValue ops (Cell (vs ! unat n)) st
       else Some (Inl (EvalError ''builtins.elemAt called with index %d on a list of size %d''), st))) \<and>
    (length vs \<le> 2 ^ 32 \<longrightarrow> 2 ^ 32 \<le> unat n \<longrightarrow> unat n mod 2 ^ 32 < length vs \<longrightarrow>
      prim_elemAt ops [l, i] st = Some (Inl (UndefinedBehaviour ''listElems()[n]''), st))"
  using elemAt_unfold [OF assms(1-4), of ops] assms(5)
  by (auto simp: ucast_below) (simp add: unsigned_ucast_eq take_bit_nat_def)

theorem elemAt_exact_witness:
  "\<forall>ops. prim_elemAt ops [0, 1] \<lparr>es_values = [VList [2], VInt (2 ^ 32), VNull], es_envs = [], es_symbols = [], es_callDepth = 0\<rparr> =
     Some (Inl (UndefinedBehaviour ''listElems()[n]''), \<lparr>es_values = [VList [2], VInt (2 ^ 32), VNull], es_envs = [], es_symbols = [], es_callDepth = 0\<rparr>)"
  using elemAt_exact [of 0 "\<lparr>es_values = [VList [2], VInt (2 ^ 32), VNull], es_envs = [], es_symbols = [], es_callDepth = 0\<rparr>" "[2]" 1 "2 ^ 32"]
  by (simp add: word_sless_alt)

end
