(* ===== verification/Zix_EvalRestores.thy ===== *)
theory Zix_EvalRestores
  imports Zix_Builtins
begin

text \<open>
  Evaluation restores what it changes on the way (\<^verbatim>\<open>forceValue\<close> of \<^verbatim>\<open>eval-inline.hh\<close>,
  \<^verbatim>\<open>addCallDepth\<close> of \<^verbatim>\<open>eval.cc\<close>): whether it returns or throws, no cell is left a black hole that was
  not one before, and the call depth is what it was. So an expression whose evaluation failed can
  be evaluated again, and \<^verbatim>\<open>tryEval\<close> does not disturb what follows. Nothing is assumed of the heap.
\<close>

named_theorems clean_intros \<open>computations that restore the heap\<close>

section \<open>Computations that restore the heap\<close>

definition holes :: "EvalState \<Rightarrow> vid set" where
  "holes st = {v. v < length (es_values st) \<and> es_values st ! v = VBlackhole}"

definition restores :: "'a ev \<Rightarrow> ('a \<Rightarrow> bool) \<Rightarrow> bool" where
  "restores m P \<longleftrightarrow> (\<forall>st r st'. m st = Some (r, st') \<longrightarrow>
     holes st' = holes st \<and> es_callDepth st' = es_callDepth st \<and> (\<forall>a. r = Inr a \<longrightarrow> P a))"

abbreviation clean :: "'a ev \<Rightarrow> bool" where
  "clean m \<equiv> restores m (\<lambda>_. True)"

abbreviation cleanv :: "Value ev \<Rightarrow> bool" where
  "cleanv m \<equiv> restores m whnf"

lemma restores_bind:
  assumes "restores m P" "\<And>a. P a \<Longrightarrow> restores (f a) Q"
  shows "restores (mbind m f) Q"
  unfolding restores_def
proof (intro allI impI)
  fix st r st'
  assume "mbind m f st = Some (r, st')"
  then consider (err) e where "m st = Some (Inl e, st')" "r = Inl e" | (ok) a st1 where "m st = Some (Inr a, st1)" "f a st1 = Some (r, st')"
    by (auto simp: mbind_Some)
  then show "holes st' = holes st \<and> es_callDepth st' = es_callDepth st \<and> (\<forall>a. r = Inr a \<longrightarrow> Q a)"
  proof cases
    case err
    then show ?thesis using assms(1) by (simp add: restores_def)
  next
    case ok
    then have "holes st1 = holes st" "es_callDepth st1 = es_callDepth st" "P a" using assms(1) by (simp_all add: restores_def)
    then show ?thesis using assms(2) [of a] ok(2) by (simp add: restores_def)
  qed
qed

lemma clean_bind: "clean m \<Longrightarrow> (\<And>a. restores (f a) Q) \<Longrightarrow> restores (mbind m f) Q"
  by (rule restores_bind)

lemmas clean_bindv = restores_bind [where P = whnf]

lemma clean_mono: "restores m P \<Longrightarrow> clean m"
  by (simp add: restores_def)

lemma restores_lift: "(\<And>a. r = Inr a \<Longrightarrow> P a) \<Longrightarrow> restores (mlift r) P"
  by (simp add: restores_def)

lemma clean_lift: "clean (mlift r)" "restores (mfail e) P" "P a \<Longrightarrow> restores (mret a) P"
  by (simp_all add: restores_def)

lemmas clean_ret [clean_intros] = clean_lift(1, 2) clean_lift(3) [where P = whnf]

lemma clean_None: "restores (\<lambda>_. None) P"
  by (simp add: restores_def)

lemma whnf_simps [simp]:
  "whnf (VInt n)" "whnf (VFloat f)" "whnf (VBool b)" "whnf (VString s cs)" "whnf (VPath ac p)" "whnf VNull" "whnf (VAttrs bs)" "whnf (VList vs)"
  "whnf (VLambda e a fs x)" "whnf (VPrimOp i)" "whnf (VPrimOpApp l r)" "\<not> whnf (VThunk e x)" "\<not> whnf (VApp l r)" "\<not> whnf VBlackhole" "whnf (mkString s ctx)"
  by (simp_all add: whnf_def mkString_def)

lemma holes_append: "w \<noteq> VBlackhole \<Longrightarrow> holes (st\<lparr>es_values := es_values st @ [w]\<rparr>) = holes st"
  by (auto simp: holes_def nth_append less_Suc_eq)

lemma holes_write: "w \<noteq> VBlackhole \<Longrightarrow> holes (st\<lparr>es_values := (es_values st)[v := w]\<rparr>) = holes st - {v}"
  by (rule set_eqI, rename_tac x, case_tac "x = v") (auto simp: holes_def)

lemma holes_hole: "v < length (es_values st) \<Longrightarrow> holes (st\<lparr>es_values := (es_values st)[v := VBlackhole]\<rparr>) = insert v (holes st)"
  by (auto simp: holes_def nth_list_update)

lemma holes_update [simp]:
  "holes (st\<lparr>es_envs := e\<rparr>) = holes st" "holes (st\<lparr>es_symbols := s\<rparr>) = holes st" "holes (st\<lparr>es_callDepth := d\<rparr>) = holes st"
  by (simp_all add: holes_def)

lemma clean_alloc [clean_intros]: "w \<noteq> VBlackhole \<Longrightarrow> clean (allocValue w)"
  by (auto simp: restores_def allocValue_def holes_append)

lemma clean_read [clean_intros]: "clean (readValue v)" "clean (readSlot e d)" "clean (writeSlot e d c)" "clean (allocEnv n up)" "clean (createSymbol s)" "clean (papp_args x)"
  by (auto simp: restores_def readValue_def readSlot_def writeSlot_def allocEnv_def createSymbol_def papp_args_def split: if_splits option.splits)

lemma clean_walk [clean_intros]: "clean (env_walk n e)"
proof (induction n arbitrary: e)
  case (Suc n)
  then show ?case by (fastforce simp: restores_def split: if_splits option.splits)
qed (auto intro: clean_intros)

lemma clean_mmap [clean_intros]: "(\<And>x. x \<in> set xs \<Longrightarrow> clean (f x)) \<Longrightarrow> clean (mmap f xs)"
  by (induction xs) (auto intro!: clean_bind clean_lift(1) simp del: mlift_app)

lemma restores_mfold: "(\<And>x b. x \<in> set xs \<Longrightarrow> P b \<Longrightarrow> restores (f x b) P) \<Longrightarrow> P b \<Longrightarrow> restores (mfold f xs b) P"
  by (induction xs arbitrary: b) (auto intro!: restores_bind [where P = P] clean_lift(3) simp del: mlift_app)

lemma clean_mfold [clean_intros]: "(\<And>x b. x \<in> set xs \<Longrightarrow> clean (f x b)) \<Longrightarrow> clean (mfold f xs b)"
  by (rule restores_mfold) auto

section \<open>Case distinctions\<close>

lemma clean_if [clean_intros]: "(b \<Longrightarrow> restores m P) \<Longrightarrow> (\<not> b \<Longrightarrow> restores n P) \<Longrightarrow> restores (if b then m else n) P"
  by simp

lemma clean_option [clean_intros]: "(x = None \<Longrightarrow> restores m P) \<Longrightarrow> (\<And>a. x = Some a \<Longrightarrow> restores (f a) P) \<Longrightarrow> restores (case x of None \<Rightarrow> m | Some a \<Rightarrow> f a) P"
  by (cases x) auto

lemma clean_prod [clean_intros]: "(\<And>a b. x = (a, b) \<Longrightarrow> restores (f a b) P) \<Longrightarrow> restores (case x of (a, b) \<Rightarrow> f a b) P"
  by (cases x) auto

lemma clean_sum [clean_intros]: "(\<And>a. restores (f a) P) \<Longrightarrow> (\<And>b. restores (g b) P) \<Longrightarrow> restores (case x of Inl a \<Rightarrow> f a | Inr b \<Rightarrow> g b) P"
  by (cases x) auto

lemma clean_list [clean_intros]: "(x = [] \<Longrightarrow> restores m P) \<Longrightarrow> (\<And>a xs. x = a # xs \<Longrightarrow> restores (f a xs) P) \<Longrightarrow> restores (case x of [] \<Rightarrow> m | a # xs \<Rightarrow> f a xs) P"
  by (cases x) auto

lemma clean_lval [clean_intros]: "(\<And>v. lv = Cell v \<Longrightarrow> restores (f v) P) \<Longrightarrow> (\<And>w. lv = Temp w \<Longrightarrow> restores (g w) P) \<Longrightarrow> restores (case lv of Cell v \<Rightarrow> f v | Temp w \<Rightarrow> g w) P"
  by (cases lv) auto

lemma clean_Let [clean_intros]: "(\<And>a. a = x \<Longrightarrow> restores (f a) P) \<Longrightarrow> restores (Let x f) P"
  by (simp add: Let_def)

lemma clean_VarRef [clean_intros]:
  "(\<And>l d. restores (f1 l d) P) \<Longrightarrow> (\<And>l w. restores (f2 l w) P) \<Longrightarrow> restores f3 P \<Longrightarrow>
   restores (case x of Static l d \<Rightarrow> f1 l d | FromWith l w \<Rightarrow> f2 l w | Unresolved \<Rightarrow> f3) P"
  by (cases x) auto

lemma clean_Value [clean_intros]:
  "(\<And>n. v = VInt n \<Longrightarrow> restores (f1 n) P) \<Longrightarrow> (\<And>n. v = VFloat n \<Longrightarrow> restores (f2 n) P) \<Longrightarrow> (\<And>n. v = VBool n \<Longrightarrow> restores (f3 n) P) \<Longrightarrow>
   (\<And>s c. v = VString s c \<Longrightarrow> restores (f4 s c) P) \<Longrightarrow> (\<And>a s. v = VPath a s \<Longrightarrow> restores (f5 a s) P) \<Longrightarrow> (v = VNull \<Longrightarrow> restores f6 P) \<Longrightarrow>
   (\<And>bs. v = VAttrs bs \<Longrightarrow> restores (f7 bs) P) \<Longrightarrow> (\<And>vs. v = VList vs \<Longrightarrow> restores (f8 vs) P) \<Longrightarrow> (\<And>e x. v = VThunk e x \<Longrightarrow> restores (f9 e x) P) \<Longrightarrow>
   (\<And>l r. v = VApp l r \<Longrightarrow> restores (f10 l r) P) \<Longrightarrow> (v = VBlackhole \<Longrightarrow> restores f11 P) \<Longrightarrow> (\<And>e a fs b. v = VLambda e a fs b \<Longrightarrow> restores (f12 e a fs b) P) \<Longrightarrow>
   (\<And>i. v = VPrimOp i \<Longrightarrow> restores (f13 i) P) \<Longrightarrow> (\<And>l r. v = VPrimOpApp l r \<Longrightarrow> restores (f14 l r) P) \<Longrightarrow>
   restores (case v of VInt n \<Rightarrow> f1 n | VFloat n \<Rightarrow> f2 n | VBool n \<Rightarrow> f3 n | VString s c \<Rightarrow> f4 s c | VPath a s \<Rightarrow> f5 a s | VNull \<Rightarrow> f6 | VAttrs bs \<Rightarrow> f7 bs
     | VList vs \<Rightarrow> f8 vs | VThunk e x \<Rightarrow> f9 e x | VApp l r \<Rightarrow> f10 l r | VBlackhole \<Rightarrow> f11 | VLambda e a fs b \<Rightarrow> f12 e a fs b | VPrimOp i \<Rightarrow> f13 i | VPrimOpApp l r \<Rightarrow> f14 l r) P"
  by (cases v) auto

section \<open>The evaluator\<close>

definition ops_clean :: "evalops \<Rightarrow> bool" where
  "ops_clean ops \<longleftrightarrow>
     (\<forall>env e. cleanv (o_eval ops env e)) \<and> (\<forall>fn args. cleanv (o_callFunction ops fn args)) \<and>
     (\<forall>v args. whnf v \<longrightarrow> cleanv (o_callLoop ops v args)) \<and> (\<forall>a b. clean (o_eqValues ops a b)) \<and> (\<forall>a b. clean (o_compareValues ops a b)) \<and>
     (\<forall>a b. clean (o_assertEqValues ops a b)) \<and> (\<forall>x y z v c. clean (o_coerceToString ops x y z v c)) \<and>
     (\<forall>v s. clean (o_forceDeep ops v s)) \<and> (\<forall>a f. cleanv (o_autoCall ops a f))"

lemma ops_cleanD:
  assumes "ops_clean ops"
  shows "cleanv (o_eval ops env e)" "cleanv (o_callFunction ops fn args)" "whnf v \<Longrightarrow> cleanv (o_callLoop ops v args)" "cleanv (o_autoCall ops as fn)"
    and "clean (o_eval ops env e)" "clean (o_callFunction ops fn args)" "whnf v \<Longrightarrow> clean (o_callLoop ops v args)"
    and "clean (o_eqValues ops a b)" "clean (o_compareValues ops x y)" "clean (o_assertEqValues ops a b)" "clean (o_coerceToString ops p1 p2 p3 fn c)" "clean (o_forceDeep ops fn seen)"
  using assms unfolding ops_clean_def by (auto intro: clean_mono [where P = whnf])

text \<open>
  Forcing a thunk makes its cell a black hole only for the time of the evaluation: an exception
  puts the thunk back, a result replaces it.
\<close>

lemma forceCell_thunk:
  assumes ops: "ops_clean ops" and v: "v < length (es_values st)" "es_values st ! v = VThunk env e" and run: "forceCell ops v st = Some (r, st')"
  shows "holes st' = holes st \<and> es_callDepth st' = es_callDepth st \<and> v < length (es_values st') \<and>
    (case r of Inl _ \<Rightarrow> es_values st' ! v = VThunk env e | Inr _ \<Rightarrow> whnf (es_values st' ! v))"
proof -
  let ?st = "st\<lparr>es_values := (es_values st)[v := VBlackhole]\<rparr>"
  obtain r1 st1 where eval: "o_eval ops env e ?st = Some (r1, st1)"
    using run v by (cases "o_eval ops env e ?st") (auto simp: forceCell_def mbind_def readValue_def writeValue_def on_throw_def)
  then have *: "holes st1 = insert v (holes st)" "es_callDepth st1 = es_callDepth st" "\<And>w. r1 = Inr w \<Longrightarrow> whnf w"
    using ops_cleanD(1) [OF ops, of env e] holes_hole [OF v(1)] by (auto simp: restores_def)
  then have v1: "v < length (es_values st1)" by (auto simp: holes_def)
  have old: "v \<notin> holes st" using v(2) by (simp add: holes_def)
  show ?thesis
  proof (cases r1)
    case (Inl x)
    then have "st' = st1\<lparr>es_values := (es_values st1)[v := VThunk env e]\<rparr>" "r = Inl x"
      using run v eval by (auto simp: forceCell_def mbind_def readValue_def writeValue_def on_throw_def)
    then show ?thesis using * v1 old holes_write [of "VThunk env e" st1 v] by auto
  next
    case (Inr w)
    then have st': "st' = st1\<lparr>es_values := (es_values st1)[v := w]\<rparr>" "r = Inr ()"
      using run v eval v1 by (auto simp: forceCell_def mbind_def readValue_def writeValue_def on_throw_def)
    have "w \<noteq> VBlackhole" using *(3) [OF Inr] by auto
    then show ?thesis using * Inr v1 old holes_write [of w st1 v] st' by auto
  qed
qed

lemma forceCell_restores:
  assumes ops: "ops_clean ops" and run: "forceCell ops v st = Some (r, st')"
  shows "holes st' = holes st \<and> es_callDepth st' = es_callDepth st \<and> (\<forall>x. r = Inr x \<longrightarrow> v < length (es_values st') \<and> whnf (es_values st' ! v))"
proof (cases "v < length (es_values st)")
  case True
  show ?thesis
  proof (cases "es_values st ! v")
    case (VThunk env e)
    with forceCell_thunk [OF ops True this run] show ?thesis by auto
  next
    case (VApp l x)
    obtain r1 st1 where call: "o_callFunction ops (Cell l) [x] st = Some (r1, st1)"
      using run True VApp by (cases "o_callFunction ops (Cell l) [x] st") (auto simp: forceCell_def mbind_def readValue_def)
    then have *: "holes st1 = holes st" "es_callDepth st1 = es_callDepth st" "\<And>w. r1 = Inr w \<Longrightarrow> whnf w"
      using ops_cleanD(2) [OF ops, of "Cell l" "[x]"] by (auto simp: restores_def)
    have old: "v \<notin> holes st" using VApp by (simp add: holes_def)
    show ?thesis
    proof (cases r1)
      case (Inr w)
      moreover have "w \<noteq> VBlackhole" using *(3) [OF Inr] by auto
      ultimately show ?thesis using run True VApp call * old holes_write [of w st1 v]
        by (auto simp: forceCell_def mbind_def readValue_def writeValue_def split: if_splits)
    qed (use run True VApp call * in \<open>auto simp: forceCell_def mbind_def readValue_def\<close>)
  qed (use run True in \<open>auto simp: forceCell_def mbind_def readValue_def\<close>)
qed (use run in \<open>auto simp: forceCell_def mbind_def readValue_def\<close>)

lemma forceValue_cleanv:
  assumes "ops_clean ops"
  shows "cleanv (forceValue ops lv)"
proof (cases lv)
  case (Cell v)
  have "holes st' = holes st \<and> es_callDepth st' = es_callDepth st \<and> (\<forall>a. r = Inr a \<longrightarrow> whnf a)"
    if "forceValue ops (Cell v) st = Some (r, st')" for st r st'
    using that forceCell_restores [OF assms, of v st] by (auto simp: forceValue_def mbind_Some readValue_def split: if_splits)
  then show ?thesis using Cell by (simp add: restores_def)
next
  case (Temp w)
  then show ?thesis using ops_cleanD [OF assms] by (cases w) (auto simp: forceValue_def simp del: mlift_app intro: clean_intros)
qed

lemma forceValue_clean: "ops_clean ops \<Longrightarrow> clean (forceValue ops lv)"
  by (rule clean_mono [OF forceValue_cleanv])

lemmas force_clean = forceValue_cleanv forceValue_clean

text \<open>The rules in the order in which they are tried: those that know that a result is a value first.\<close>

lemmas clean_steps = restores_bind force_clean ops_cleanD

lemma clean_forces:
  assumes "ops_clean ops"
  shows "clean (forceAttrs ops lv)" "clean (forceList ops lv)" "clean (forceInt ops lv)" "clean (forceFloat p ops lv)" "clean (forceBool ops lv)"
    "clean (forceString ops lv)" "clean (forceStringNoCtx ops lv)" "cleanv (forceFunction ops lv)"
  unfolding forceAttrs_def forceList_def forceInt_def forceFloat_def forceBool_def forceString_def forceStringNoCtx_def forceFunction_def
  by (rule clean_steps clean_intros assms | assumption | simp)+

lemma clean_copyContext [clean_intros]: "clean (copyContext p ctx context)"
  unfolding copyContext_def by (rule clean_steps clean_intros | simp)+

lemma clean_lookupSlot [clean_intros]: "clean (lookupSlot env r)"
  unfolding lookupSlot_def by (rule clean_steps clean_intros | simp)+

lemma clean_maybeThunk [clean_intros]: "clean (maybeThunk env e)"
  unfolding maybeThunk_def by (cases e) (auto simp del: mlift_app intro!: clean_bind clean_intros split: list.split)

lemma clean_lookupWith: "ops_clean ops \<Longrightarrow> clean (lookupWith ops name w env)"
proof (induction ops name w env rule: lookupWith.induct)
  case (1 ops name prev par env)
  show ?case
  proof (cases par)
    case None
    show ?thesis unfolding lookupWith.simps None by (rule clean_steps clean_intros clean_forces 1(2) | simp)+
  next
    case (Some w)
    show ?thesis unfolding lookupWith.simps Some option.case
      by (rule clean_steps clean_intros clean_forces 1(2) | (rule 1(1) [OF _ Some 1(2)], assumption) | simp)+
  qed
qed

lemma clean_lookupVar:
  assumes "ops_clean ops"
  shows "clean (lookupVar ops env name r)"
  unfolding lookupVar_def by (rule clean_steps clean_intros clean_lookupWith assms | simp)+

lemma clean_getName:
  assumes "ops_clean ops"
  shows "clean (getName ops env name)" "clean (evalBool ops env e)" "clean (evalAttrs ops env e)"
  unfolding getName_def evalBool_def evalAttrs_def by (rule clean_steps clean_intros clean_forces assms | simp)+

lemma clean_fill_inherit [clean_intros]: "clean (fill_inherit ie up d es)"
  by (induction ie up d es rule: fill_inherit.induct) (auto simp del: mlift_app intro!: clean_bind clean_intros)

lemma clean_buildInheritFromEnv [clean_intros]: "clean (buildInheritFromEnv up froms)"
  unfolding buildInheritFromEnv_def by (rule clean_steps clean_intros | simp)+

lemma clean_bind_attrs [clean_intros]: "clean (bind_attrs slots thunks pl inh ie d attrs)"
  by (induction slots thunks pl inh ie d attrs rule: bind_attrs.induct) (auto simp del: mlift_app intro!: clean_bind clean_intros)

lemma clean_override_loop [clean_intros]: "clean (override_loop env2 attrs os bs)"
  by (induction env2 attrs os bs rule: override_loop.induct) (auto simp del: mlift_app intro!: clean_bind clean_intros)

lemma clean_dynamic_loop: "ops_clean ops \<Longrightarrow> clean (dynamic_loop ops env dyn bs srt)"
proof (induction ops env dyn bs srt rule: dynamic_loop.induct)
  case (2 ops env n v dyn bs srt)
  show ?case unfolding dynamic_loop.simps
    by (rule clean_steps clean_intros clean_forces 2 | assumption | simp)+
qed (rule clean_steps clean_intros | simp)+

lemma clean_sets:
  assumes "ops_clean ops"
  shows "cleanv (ExprAttrs_eval ops env recursive attrs froms dyn)" "cleanv (ExprLet_eval ops env attrs froms body)" "cleanv (ExprOpUpdate_eval ops env e1 e2)" "cleanv (concatLists ops lvs)"
  unfolding ExprAttrs_eval_def ExprLet_eval_def ExprOpUpdate_eval_def concatLists_def apply_overrides_def
  by (rule clean_steps clean_intros clean_forces clean_getName clean_dynamic_loop assms | assumption | simp)+

lemma clean_select_step:
  assumes "ops_clean ops"
  shows "clean (select_step ops env hasDef i lv)"
  unfolding select_step_def by (rule clean_steps clean_intros clean_forces clean_getName assms | simp)+

lemma clean_select_loop: "ops_clean ops \<Longrightarrow> cleanv (select_loop ops env def path lv)"
proof (induction ops env def path lv rule: select_loop.induct)
  case (2 ops env def i path lv)
  show ?case unfolding select_loop.simps by (rule clean_steps clean_intros clean_select_step 2 | assumption | simp)+
qed (simp add: forceValue_cleanv)

lemma clean_hasAttr_loop: "ops_clean ops \<Longrightarrow> clean (hasAttr_loop ops env path lv)"
proof (induction ops env path lv rule: hasAttr_loop.induct)
  case (2 ops env i path lv)
  show ?case unfolding hasAttr_loop.simps by (rule clean_steps clean_intros clean_getName 2 | assumption | simp)+
qed (rule clean_steps clean_intros | simp)+

lemma clean_cell_of [clean_intros]: "w \<noteq> VBlackhole \<Longrightarrow> clean (cell_of lv w)"
  unfolding cell_of_def by (rule clean_steps clean_intros | simp)+

lemma clean_copyPathToStore [clean_intros]: "clean (copyPathToStore p a path context)"
  unfolding copyPathToStore_def by (rule clean_steps clean_intros | simp)+

lemma clean_coerce_list: "ops_clean ops \<Longrightarrow> clean (coerce_list ops a b c vs ctx)"
proof (induction ops a b c vs ctx rule: coerce_list.induct)
  case (2 ops a b c v vs ctx)
  show ?case unfolding coerce_list.simps by (rule clean_steps clean_intros 2 | simp)+
qed (rule clean_steps clean_intros | simp)+

lemma clean_coerceToString:
  assumes "ops_clean ops"
  shows "clean (coerceToString p ops a b c lv context)"
  unfolding coerceToString_def by (rule clean_steps clean_intros clean_coerce_list assms | assumption | simp)+

lemma clean_concat_loop: "ops_clean ops \<Longrightarrow> clean (concat_loop p ops env es first t n nf s ctx)"
proof (induction p ops env es first t n nf s ctx rule: concat_loop.induct)
  case (2 p ops env e es first t n nf s ctx)
  show ?case unfolding concat_loop.simps
    by (rule clean_steps clean_intros 2 | assumption | simp)+
qed (rule clean_steps clean_intros | simp)+

lemma clean_concatStrings:
  assumes "ops_clean ops"
  shows "cleanv (ExprConcatStrings_eval p ops env forceStr es)"
  unfolding ExprConcatStrings_eval_def by (rule clean_steps clean_intros clean_concat_loop assms | assumption | simp)+

lemma clean_eq_list: "ops_clean ops \<Longrightarrow> clean (eq_list ops xs bs)"
proof (induction ops xs bs rule: eq_list.induct)
  case (1 ops a xs b bs)
  show ?case unfolding eq_list.simps by (rule clean_steps clean_intros 1 | assumption | simp)+
qed (simp_all add: clean_lift del: mlift_app)

lemma clean_eq_attrs: "ops_clean ops \<Longrightarrow> clean (eq_attrs ops xs bs)"
proof (induction ops xs bs rule: eq_attrs.induct)
  case (1 ops i xs j bs)
  show ?case unfolding eq_attrs.simps by (rule clean_steps clean_intros 1 | assumption | simp)+
qed (simp_all add: clean_lift del: mlift_app)

lemma clean_outPaths:
  assumes "ops_clean ops"
  shows "clean (EvalState_isDerivation ops v)" "clean (derivation_outPaths ops b1 b2)"
proof -
  show d: "clean (EvalState_isDerivation ops v)" for v unfolding EvalState_isDerivation_def by (rule clean_steps clean_intros assms | assumption | simp)+
  show "clean (derivation_outPaths ops b1 b2)" unfolding derivation_outPaths_def by (rule clean_steps clean_intros d | assumption | simp)+
qed

lemma clean_eqValues:
  assumes "ops_clean ops"
  shows "clean (eq_forced p ops v1 v2)" "clean (eqValues p ops lv1 lv2)"
proof -
  show f: "clean (eq_forced p ops v1 v2)" for v1 v2
    unfolding eq_forced_def by (rule clean_steps clean_intros clean_outPaths clean_eq_list clean_eq_attrs assms | assumption | simp)+
  show "clean (eqValues p ops lv1 lv2)" unfolding eqValues_def by (rule clean_steps clean_intros f assms | assumption | simp)+
qed

lemma clean_compare_list: "ops_clean ops \<Longrightarrow> clean (compare_list ops xs ys)"
proof (induction ops xs ys rule: compare_list.induct)
  case (3 ops x xs y ys)
  show ?case unfolding compare_list.simps by (assumption | rule clean_steps clean_intros 3 | simp)+
qed (simp_all add: clean_lift del: mlift_app)

lemma clean_CompareValues:
  assumes "ops_clean ops"
  shows "clean (CompareValues p ops a b)"
  unfolding CompareValues_def
  by (intro clean_bind clean_read) (auto simp del: mlift_app split: Value.split intro!: clean_lift(1) clean_compare_list [OF assms])

lemma clean_assert_list: "ops_clean ops \<Longrightarrow> clean (assert_list ops xs bs)"
proof (induction ops xs bs rule: assert_list.induct)
  case (1 ops a xs b bs)
  show ?case unfolding assert_list.simps by (rule clean_steps clean_intros 1 | assumption | simp)+
qed (simp_all add: clean_lift del: mlift_app)

lemma clean_assert_attrs: "ops_clean ops \<Longrightarrow> clean (assert_attrs ops b1 b2 xs bs)"
proof (induction ops b1 b2 xs bs rule: assert_attrs.induct)
  case (1 ops b1 b2 i xs j bs)
  show ?case unfolding assert_attrs.simps by (rule clean_steps clean_intros 1 | assumption | simp)+
qed (simp_all add: clean_lift del: mlift_app)

lemma clean_assertEqValues:
  assumes "ops_clean ops"
  shows "clean (assertEqValues p ops lv1 lv2)"
  unfolding assertEqValues_def assert_forced_def
  by (rule clean_steps clean_intros clean_outPaths clean_eqValues clean_assert_list clean_assert_attrs assms | assumption | simp)+

section \<open>Calls\<close>

lemma clean_bind_formals [clean_intros]: "clean (bind_formals env2 displ bs formals used)"
  by (induction env2 displ bs formals used rule: bind_formals.induct) (auto simp del: mlift_app intro!: clean_bind clean_intros)

lemma clean_enterLambda:
  assumes "ops_clean ops"
  shows "clean (enterLambda ops env a fs v)"
  unfolding enterLambda_def by (rule clean_steps clean_intros clean_forces assms | assumption | simp)+

lemma cleanv_makeAppChain [clean_intros]: "whnf v \<Longrightarrow> cleanv (makeAppChain v args)"
  unfolding makeAppChain_def by (rule restores_mfold) (auto simp del: mlift_app intro!: clean_bind clean_intros)

definition primOps_clean :: "EvalParams \<Rightarrow> bool" where
  "primOps_clean p \<longleftrightarrow> (\<forall>i fn ops args. ep_primOps p i = Some fn \<longrightarrow> ops_clean ops \<longrightarrow> length args = po_arity fn \<longrightarrow> cleanv (po_fun fn ops args))"

lemma clean_callLoop:
  assumes p: "primOps_clean p" and ops: "ops_clean ops" and v: "whnf vCur"
  shows "cleanv (callLoop p ops vCur args)"
proof -
  have op: "cleanv (mbind (po_fun fn ops xs) (\<lambda>v. o_callLoop ops v ys))" if "ep_primOps p i = Some fn" "length xs = po_arity fn" for i fn xs ys
    using p that ops unfolding primOps_clean_def by (blast intro: restores_bind [where P = whnf] ops_cleanD(3))
  show ?thesis
    unfolding callLoop_def using v
    by (auto simp del: mlift_app split: list.split Value.split option.split
        intro!: clean_intros clean_bind op restores_bind [OF ops_cleanD(1) [OF ops]] restores_bind [OF ops_cleanD(2) [OF ops]] ops_cleanD(3) [OF ops] clean_enterLambda [OF ops])
qed

lemma clean_callFunction:
  assumes ops: "ops_clean ops"
  shows "cleanv (callFunction p ops fn args)"
proof -
  have "cleanv (mbind (forceValue ops fn) (\<lambda>vCur. o_callLoop ops vCur args))" by (rule restores_bind [OF forceValue_cleanv [OF ops] ops_cleanD(3) [OF ops]])
  then show ?thesis by (fastforce simp: restores_def callFunction_def at_exit_def split: if_splits)
qed

lemma clean_auto_args [clean_intros]: "clean (auto_args args formals)"
  by (induction args formals rule: auto_args.induct) (auto simp del: mlift_app intro!: clean_bind clean_intros)

lemma clean_autoCall:
  assumes "ops_clean ops"
  shows "cleanv (autoCallFunction ops args fn)"
  unfolding autoCallFunction_def by (assumption | rule clean_steps clean_intros assms | (simp; fail) | clarsimp)+

lemma clean_forceDeep:
  assumes "ops_clean ops"
  shows "clean (forceDeep ops lv seen)"
  unfolding forceDeep_def by (rule clean_steps clean_intros assms | assumption | simp)+

lemma clean_ExprAssert:
  assumes "ops_clean ops"
  shows "cleanv (ExprAssert_eval ops env c body)"
proof -
  have "clean (case c of ExprOpEq e1 e2 \<Rightarrow> mbind (o_eval ops env e1) (\<lambda>v1. mbind (o_eval ops env e2) (\<lambda>v2. o_assertEqValues ops (Temp v1) (Temp v2))) | _ \<Rightarrow> mret ())"
    by (cases c) (auto simp del: mlift_app intro!: clean_bind ops_cleanD [OF assms] clean_lift)
  then show ?thesis unfolding ExprAssert_eval_def by (intro clean_bind clean_getName clean_intros ops_cleanD assms) auto
qed

lemma clean_calls:
  assumes "ops_clean ops"
  shows "cleanv (ExprCall_eval ops env f es)" "cleanv (ExprWith_eval ops env attrs body)"
  unfolding ExprCall_eval_def ExprWith_eval_def by (rule clean_steps clean_intros assms | assumption | simp)+

lemma clean_evalExpr:
  assumes "ops_clean ops"
  shows "cleanv (evalExpr p ops env e)"
  unfolding evalExpr_def
  by (cases e; simp only: Expr.case)
    (rule clean_steps clean_intros clean_getName clean_lookupVar clean_select_loop clean_hasAttr_loop clean_sets clean_calls clean_ExprAssert clean_concatStrings assms | assumption | simp)+

theorem evaluator_clean:
  assumes "primOps_clean p"
  shows "ops_clean (evaluator p n)"
proof (induction n)
  case (Suc n)
  note laws = clean_evalExpr [OF Suc] clean_callFunction [OF Suc] clean_callLoop [OF assms Suc] clean_eqValues(2) [OF Suc]
    clean_CompareValues [OF Suc] clean_assertEqValues [OF Suc] clean_coerceToString [OF Suc] clean_forceDeep [OF Suc] clean_autoCall [OF Suc]
  show ?case unfolding evaluator.simps Let_def ops_clean_def evalops.simps by (intro conjI allI impI laws)
qed (simp add: ops_clean_def clean_None)

section \<open>The primitive operations\<close>

lemma restores_catch: "restores m P \<Longrightarrow> (\<And>e. restores (h e) P) \<Longrightarrow> restores (mcatch m h) P"
  by (fastforce simp: restores_def mcatch_def split: option.splits sum.splits)

lemma clean_symbolName [clean_intros]: "clean (symbolName s)" "clean (getAttr k bs)"
  by (auto simp: restores_def symbolName_def getAttr_def split: option.splits)

lemma clean_apply_named [clean_intros]: "clean (apply_named f s v)"
  unfolding apply_named_def by (rule clean_steps clean_intros | simp)+

lemma clean_control:
  assumes "ops_clean ops"
  shows "cleanv (prim_typeOf ops args)" "cleanv (prim_isType t ops args)" "cleanv (prim_abort ops args)" "cleanv (prim_throw ops args)" "cleanv (prim_addErrorContext ops args)"
    "cleanv (prim_tryEval ops args)" "cleanv (prim_seq ops args)" "cleanv (prim_deepSeq ops args)" "cleanv (prim_second ops args)"
  unfolding prim_typeOf_def prim_isType_def prim_abort_def prim_throw_def prim_addErrorContext_def prim_tryEval_def prim_seq_def prim_deepSeq_def prim_second_def
  by (rule clean_steps restores_catch clean_intros assms | assumption | simp)+

lemma clean_listToAttrs_loop: "ops_clean ops \<Longrightarrow> clean (listToAttrs_loop ops vs seen attrs)"
proof (induction ops vs seen attrs rule: listToAttrs_loop.induct)
  case (2 ops v vs seen attrs)
  show ?case unfolding listToAttrs_loop.simps by (assumption | rule clean_steps clean_intros clean_forces 2 | simp)+
qed (simp add: clean_lift del: mlift_app)

lemma clean_attrs:
  assumes "ops_clean ops"
  shows "cleanv (prim_attrNames ops args)" "cleanv (prim_attrValues ops args)" "cleanv (prim_getAttr ops args)" "cleanv (prim_hasAttr ops args)" "cleanv (prim_removeAttrs ops args)"
    "cleanv (prim_listToAttrs ops args)" "cleanv (prim_intersectAttrs ops args)" "cleanv (prim_catAttrs ops args)" "cleanv (prim_functionArgs ops args)"
    "cleanv (prim_mapAttrs ops args)" "cleanv (prim_zipAttrsWith ops args)"
  unfolding prim_attrNames_def prim_attrValues_def prim_getAttr_def prim_hasAttr_def prim_removeAttrs_def prim_listToAttrs_def prim_intersectAttrs_def prim_catAttrs_def
    prim_functionArgs_def prim_mapAttrs_def prim_zipAttrsWith_def
  by (assumption | rule clean_steps clean_intros clean_forces clean_listToAttrs_loop assms | simp)+

lemma clean_call_pred:
  assumes "ops_clean ops"
  shows "clean (call_pred ops f v)"
  unfolding call_pred_def by (rule clean_steps clean_intros clean_forces assms | simp)+

lemma clean_list_loops:
  assumes "ops_clean ops"
  shows "clean (filter_loop ops f vs)" "clean (elem_loop ops x vs)" "cleanv (foldl_loop ops f c v vs)" "cleanv (anyOrAll_loop b ops f vs)"
    "clean (partition_loop ops f vs)" "clean (groupBy_loop ops f vs m)"
proof -
  show "clean (filter_loop ops f vs)" by (induction vs) (auto simp del: mlift_app intro!: clean_bind clean_call_pred [OF assms] clean_intros)
  show "clean (elem_loop ops x vs)" by (induction vs) (auto simp del: mlift_app intro!: clean_bind ops_cleanD [OF assms] clean_intros)
  show "cleanv (foldl_loop ops f c v vs)"
    by (induction vs arbitrary: c v) (auto simp del: mlift_app intro!: restores_bind [OF ops_cleanD(2) [OF assms]] clean_bind ops_cleanD [OF assms] clean_alloc)
  show "cleanv (anyOrAll_loop b ops f vs)" by (induction vs) (auto simp del: mlift_app intro!: clean_bind clean_call_pred [OF assms] clean_intros)
  show "clean (partition_loop ops f vs)"
    by (induction vs) (auto simp del: mlift_app intro!: clean_bind clean_call_pred [OF assms] forceValue_clean [OF assms] clean_intros)
  show "clean (groupBy_loop ops f vs m)"
    by (induction vs arbitrary: m) (auto simp del: mlift_app intro!: clean_bind clean_forces [OF assms] ops_cleanD [OF assms] clean_intros)
qed

lemma clean_lists:
  assumes "ops_clean ops"
  shows "cleanv (prim_elemAt ops args)" "cleanv (prim_head ops args)" "cleanv (prim_tail ops args)" "cleanv (prim_map ops args)" "cleanv (prim_filter ops args)" "cleanv (prim_elem ops args)"
    "cleanv (prim_concatLists ops args)" "cleanv (prim_length ops args)" "cleanv (prim_foldlStrict ops args)" "cleanv (anyOrAll b ops args)" "cleanv (prim_genList ops args)"
    "cleanv (prim_partition ops args)" "cleanv (prim_groupBy ops args)" "cleanv (prim_concatMap ops args)"
  unfolding prim_elemAt_def prim_head_def prim_tail_def prim_map_def prim_filter_def prim_elem_def prim_concatLists_def prim_length_def prim_foldlStrict_def anyOrAll_def prim_genList_def
    prim_partition_def prim_groupBy_def prim_concatMap_def
  by (assumption | rule clean_steps clean_intros clean_forces clean_list_loops clean_sets assms | simp)+

lemma clean_arith:
  assumes "ops_clean ops"
  shows "cleanv (prim_add p ops args)" "cleanv (prim_sub p ops args)" "cleanv (prim_mul p ops args)" "cleanv (prim_div p ops args)" "cleanv (bitwise f ops args)" "cleanv (prim_lessThan ops args)"
  unfolding prim_add_def prim_sub_def prim_mul_def prim_div_def arith_def bitwise_def prim_lessThan_def
  by (assumption | rule clean_steps clean_intros clean_forces assms | simp)+

lemma clean_string_loops:
  assumes "ops_clean ops"
  shows "cleanv (substring_from ops v start len)" "clean (forceStringCtx p ops lv ctx)" "clean (replacement p ops to j cache ctx)" "clean (concat_sep ops sep vs first r ctx)"
proof -
  show "cleanv (substring_from ops v start len)" unfolding substring_from_def by (assumption | rule clean_steps clean_intros assms | simp)+
  show f: "clean (forceStringCtx p ops lv ctx)" for lv ctx unfolding forceStringCtx_def by (assumption | rule clean_steps clean_intros clean_forces assms | simp)+
  show "clean (replacement p ops to j cache ctx)" unfolding replacement_def by (assumption | rule clean_steps clean_intros f assms | simp)+
  show "clean (concat_sep ops sep vs first r ctx)"
    by (induction vs arbitrary: first r ctx) (auto simp del: mlift_app intro!: clean_bind ops_cleanD [OF assms] clean_intros)
qed

lemma clean_replace_loop: "ops_clean ops \<Longrightarrow> clean (replace_loop p ops froms to s i cache r ctx)"
proof (induction p ops froms to s i cache r ctx rule: replace_loop.induct)
  case (1 p ops froms to s i cache r ctx)
  show ?case unfolding replace_loop.simps [of p ops froms to s i]
    by (assumption | rule clean_steps clean_intros clean_string_loops 1 | (rule sym, assumption))+
qed

lemma clean_strings:
  assumes "ops_clean ops"
  shows "cleanv (prim_toString ops args)" "cleanv (prim_substring ops args)" "cleanv (prim_stringLength ops args)" "cleanv (prim_hashString p ops args)" "cleanv (prim_concatStringsSep p ops args)"
    "cleanv (prim_replaceStrings p ops args)" "cleanv (prim_parseDrvName ops args)" "cleanv (prim_compareVersions p ops args)" "cleanv (prim_splitVersion ops args)"
    "cleanv (prim_baseNameOf ops args)" "cleanv (prim_dirOf ops args)" "cleanv (prim_placeholder p ops args)"
  unfolding prim_toString_def prim_substring_def prim_stringLength_def prim_hashString_def prim_concatStringsSep_def prim_replaceStrings_def prim_parseDrvName_def
    prim_compareVersions_def prim_splitVersion_def prim_baseNameOf_def prim_dirOf_def prim_placeholder_def
  by (assumption | rule clean_steps clean_intros clean_forces clean_string_loops clean_replace_loop assms | simp)+

lemma table_clean: "list_all (\<lambda>x. \<forall>ops args. ops_clean ops \<longrightarrow> cleanv (po_fun (snd x) ops args)) (primOps p)"
  unfolding primOps_def list.pred_inject by (simp add: primOp_def clean_control clean_attrs clean_lists clean_arith clean_strings)

lemma with_primOps_clean: "primOps_clean (with_primOps p)"
proof -
  have "\<exists>x \<in> set (primOps p). fn = snd x" if "ep_primOps (with_primOps p) i = Some fn" for i fn
    using that by (auto simp: with_primOps_def split: if_splits)
  then show ?thesis using table_clean [of p] unfolding primOps_clean_def list_all_iff by blast
qed

section \<open>Exception safety\<close>

text \<open>Parameters for examples: no store, no floating point, hashes that are all zeros.\<close>

definition example_params :: EvalParams where
  "example_params =
     \<lparr>ep_maxCallDepth = 10000, ep_features = {}, ep_storeDir = ''/nix/store'', ep_fetchToStore = (\<lambda>_ _. Inl (EvalError ''no store'')),
      ep_floatOfInt = (\<lambda>_. undefined), ep_floatAdd = (\<lambda>x _. x), ep_floatSub = (\<lambda>x _. x), ep_floatMul = (\<lambda>x _. x), ep_floatDiv = (\<lambda>x _. x),
      ep_floatLess = (\<lambda>_ _. False), ep_floatEq = (\<lambda>_ _. True), ep_floatString = (\<lambda>_. []), ep_lexicalCast = (\<lambda>_. None),
      ep_hash = (\<lambda>ha _. Inr (zero_hash ha)), ep_primOps = (\<lambda>_. None)\<rparr>"

text \<open>
  C2: Forcing a thunk is exception safe and memoises. With all the modelled primitive operations, and
  whatever the heap is: when the evaluation throws, the thunk is back in its cell, so that it can be
  forced again; when it returns, the cell holds a value, and forcing it once more returns that value
  and changes nothing. In both cases the black holes are those of before and the call depth is what
  it was.
\<close>

theorem force_exception_safe:
  assumes "v < length (es_values st)" "es_values st ! v = VThunk env e" "forceCell (evaluator (with_primOps p) n) v st = Some (r, st')"
  shows "holes st' = holes st \<and> es_callDepth st' = es_callDepth st \<and> v < length (es_values st') \<and>
    (case r of
       Inl _ \<Rightarrow> es_values st' ! v = VThunk env e
     | Inr _ \<Rightarrow> whnf (es_values st' ! v) \<and> (\<forall>ops. forceValue ops (Cell v) st' = Some (Inr (es_values st' ! v), st')))"
  using forceCell_thunk [OF evaluator_clean [OF with_primOps_clean] assms] by (auto simp: forced_value split: sum.splits)

definition example_heap :: EvalState where
  "example_heap =
     \<lparr>es_values = [VThunk 0 (ExprAssert (ExprOpEq (ExprInt 1) (ExprInt 2)) (ExprInt 3)), VThunk 0 (ExprIf (ExprOpEq (ExprInt 1) (ExprInt 1)) (ExprInt 4) (ExprInt 5))],
      es_envs = [\<lparr>env_up = None, env_values = []\<rparr>], es_symbols = initial_symbols, es_callDepth = 0\<rparr>"

lemmas evaluator_steps = evaluator.simps Let_def evalops.simps forceCell_def readValue_def writeValue_def on_throw_def mbind_def evalExpr_def Expr.case ExprAssert_eval_def
  evalBool_def eqValues_def eq_forced_def assertEqValues_def assert_forced_def is_number_def forceValue_def same_address_def

lemma example_force:
  "forceCell (evaluator (with_primOps example_params) 4) 0 example_heap = Some (Inl (AssertionError ''number is not equal to number''), example_heap)"
  "\<exists>st'. forceCell (evaluator (with_primOps example_params) 4) 1 example_heap = Some (Inr (), st') \<and> es_values st' ! 1 = VInt 4"
  by (simp_all add: eval_nat_numeral evaluator_steps example_heap_def)

theorem force_exception_safe_witness:
  "(\<exists>x st'. forceCell (evaluator (with_primOps example_params) 4) 0 example_heap = Some (Inl x, st') \<and> holes st' = holes example_heap \<and> es_values st' ! 0 = es_values example_heap ! 0) \<and>
   (\<exists>st'. forceCell (evaluator (with_primOps example_params) 4) 1 example_heap = Some (Inr (), st') \<and> holes st' = holes example_heap \<and> whnf (es_values st' ! 1))"
proof
  show "\<exists>x st'. forceCell (evaluator (with_primOps example_params) 4) 0 example_heap = Some (Inl x, st') \<and> holes st' = holes example_heap \<and> es_values st' ! 0 = es_values example_heap ! 0"
    using force_exception_safe [OF _ _ example_force(1)] example_force(1) by (auto simp: example_heap_def)
  from example_force(2) obtain st' where run: "forceCell (evaluator (with_primOps example_params) 4) 1 example_heap = Some (Inr (), st')" by blast
  then show "\<exists>st'. forceCell (evaluator (with_primOps example_params) 4) 1 example_heap = Some (Inr (), st') \<and> holes st' = holes example_heap \<and> whnf (es_values st' ! 1)"
    using force_exception_safe [OF _ _ run] by (auto simp: example_heap_def)
qed

end
