(* ===== verification/Zix_BaseEnv.thy ===== *)
theory Zix_BaseEnv
  imports Zix_EvalRestores
begin

text \<open>
  The base environment (\<^verbatim>\<open>EvalState::createBaseEnv\<close>, \<^verbatim>\<open>addConstant\<close> and \<^verbatim>\<open>addPrimOp\<close> of
  \<^verbatim>\<open>libexpr/primops.cc\<close> and \<^verbatim>\<open>eval.cc\<close>) and the evaluation of a whole expression in it. The slots of
  \<^verbatim>\<open>baseEnv\<close> that are not in use are null in the code and absent in the model. Not modelled: the
  constant \<^verbatim>\<open>derivation\<close>, whose value is the evaluation of a file, and the two primitive operations
  of \<^verbatim>\<open>allow-unsafe-native-code-during-evaluation\<close>.
\<close>

section \<open>Constants and primitive operations\<close>

record BaseState =
  bs_eval :: EvalState
  bs_vars :: "(Symbol \<times> nat) list"
  bs_displ :: nat
  bs_internal :: "(string \<times> vid) list"

definition in_eval :: "'a ev \<Rightarrow> (BaseState, 'a) sm" where
  "in_eval m = (\<lambda>b. case m (bs_eval b) of None \<Rightarrow> None | Some (r, st) \<Rightarrow> Some (r, b\<lparr>bs_eval := st\<rparr>))"

definition BASE_ENV_SIZE :: nat where
  "BASE_ENV_SIZE = 128"

definition strip :: "string \<Rightarrow> string" where
  "strip name = (if take 2 name = ''__'' then drop 2 name else name)"

text \<open>\<^verbatim>\<open>staticBaseEnv->vars.emplace_back(name, baseEnvDispl); baseEnv.values[baseEnvDispl++] = v\<close>\<close>

definition install_var :: "Symbol \<Rightarrow> vid \<Rightarrow> (BaseState, unit) sm" where
  "install_var name v = (\<lambda>b.
     if bs_displ b < BASE_ENV_SIZE
     then mret () (b\<lparr>bs_vars := bs_vars b @ [(name, bs_displ b)], bs_displ := bs_displ b + 1,
                     bs_eval := (bs_eval b)\<lparr>es_envs := (es_envs (bs_eval b))
                       [0 := (es_envs (bs_eval b) ! 0)\<lparr>env_values := env_values (es_envs (bs_eval b) ! 0) @ [Some v]\<rparr>]\<rparr>\<rparr>)
     else mfail (UndefinedBehaviour ''baseEnv.values[baseEnvDispl++]'') b)"

definition getBuiltins :: "vid ev" where
  "getBuiltins = mbind (readSlot 0 0) (\<lambda>r. case r of None \<Rightarrow> null_deref | Some v \<Rightarrow> mret v)"

definition push_builtin :: "string \<Rightarrow> vid \<Rightarrow> unit ev" where
  "push_builtin name v =
     mbind getBuiltins (\<lambda>builtins.
     mbind (createSymbol name) (\<lambda>s.
     mbind (readValue builtins) (\<lambda>x.
       case x of
         VAttrs bs \<Rightarrow> if length bs < BASE_ENV_SIZE then writeValue builtins (VAttrs (bs @ [(s, v)])) else mfail (AssertionFailed ''size_ < capacity_'')
       | _ \<Rightarrow> null_deref)))"

text \<open>\<^verbatim>\<open>EvalState::addConstant\<close>, for a value that is on the heap and for one that is copied there.\<close>

definition addConstant_at :: "bool \<Rightarrow> string \<Rightarrow> vid \<Rightarrow> ValueType \<Rightarrow> bool \<Rightarrow> (BaseState, unit) sm" where
  "addConstant_at pureEval name v type impureOnly =
     (if pureEval \<and> impureOnly then mret ()
      else mbind (in_eval (readValue v)) (\<lambda>x.
        if value_type x \<noteq> nThunk \<and> value_type x \<noteq> type then mfail (AssertionFailed ''info.type == gotType'')
        else mbind (in_eval (createSymbol name)) (\<lambda>s.
          mbind (install_var s v) (\<lambda>_. in_eval (push_builtin (strip name) v)))))"

definition addConstant :: "bool \<Rightarrow> string \<Rightarrow> Value \<Rightarrow> ValueType \<Rightarrow> bool \<Rightarrow> (BaseState, vid) sm" where
  "addConstant pureEval name x type impureOnly =
     mbind (in_eval (allocValue x)) (\<lambda>v2. mbind (addConstant_at pureEval name v2 type impureOnly) (\<lambda>_. mret v2))"

text \<open>\<^verbatim>\<open>Value::mkPrimOp\<close> with \<^verbatim>\<open>PrimOp::check\<close>; a primitive operation is its number in the table.\<close>

definition mkPrimOp :: "nat \<Rightarrow> nat \<Rightarrow> Value result" where
  "mkPrimOp i arity = (if arity > maxPrimOpArity then Inl (Error ''primop arity must not exceed %1%'') else Inr (VPrimOp i))"

record RegisteredPrimOp =
  rp_name :: string
  rp_index :: nat
  rp_arity :: nat
  rp_internal :: bool

definition addPrimOp :: "bool \<Rightarrow> RegisteredPrimOp \<Rightarrow> (BaseState, vid) sm" where
  "addPrimOp pureEval op =
     (if rp_arity op = 0
      then mbind (mlift (mkPrimOp (rp_index op) 1)) (\<lambda>x.
           mbind (in_eval (allocValue x)) (\<lambda>vPrimOp.
           addConstant pureEval (rp_name op) (VApp vPrimOp vPrimOp) nThunk False))
      else mbind (in_eval (createSymbol (rp_name op))) (\<lambda>envName.
           mbind (mlift (mkPrimOp (rp_index op) (rp_arity op))) (\<lambda>x.
           mbind (in_eval (allocValue x)) (\<lambda>v.
           mbind (if rp_internal op
                  then (\<lambda>b. mret () (b\<lparr>bs_internal := bs_internal b @ [(strip (rp_name op), v)]\<rparr>))
                  else mbind (install_var envName v) (\<lambda>_. in_eval (push_builtin (strip (rp_name op)) v))) (\<lambda>_.
           mret v)))))"

section \<open>createBaseEnv\<close>

record BaseConfig =
  bc_pureEval :: bool
  bc_time :: i64
  bc_currentSystem :: string
  bc_nixVersion :: string
  bc_zixVersion :: string
  bc_storeDir :: string
  bc_lookupPath :: "(string \<times> string) list"

text \<open>The global constants, with their types, and whether they are only for impure evaluation.\<close>

definition base_constants :: "BaseConfig \<Rightarrow> (string \<times> Value \<times> ValueType \<times> bool) list" where
  "base_constants cfg =
     [(''builtins'', VAttrs [], nAttrs, False), (''true'', VBool True, nBool, False), (''false'', VBool False, nBool, False), (''null'', VNull, nNull, False),
      (''__currentTime'', VInt (bc_time cfg), nInt, True), (''__currentSystem'', VString (bc_currentSystem cfg) [], nString, True),
      (''__nixVersion'', VString (bc_nixVersion cfg) [], nString, False), (''__zixVersion'', VString (bc_zixVersion cfg) [], nString, False),
      (''__storeDir'', VString (bc_storeDir cfg) [], nString, False), (''__langVersion'', VInt 6, nInt, False)]"

definition add_constants :: "bool \<Rightarrow> (string \<times> Value \<times> ValueType \<times> bool) list \<Rightarrow> (BaseState, unit) sm" where
  "add_constants pureEval cs = mfold (\<lambda>(name, x, type, impureOnly) _. mbind (addConstant pureEval name x type impureOnly) (\<lambda>_. mret ())) cs ()"

definition add_primOps :: "bool \<Rightarrow> RegisteredPrimOp list \<Rightarrow> (BaseState, unit) sm" where
  "add_primOps pureEval ops = mfold (\<lambda>op _. mbind (addPrimOp pureEval op) (\<lambda>_. mret ())) ops ()"

definition lookupPath_element :: "string \<times> string \<Rightarrow> vid ev" where
  "lookupPath_element i =
     mbind (createSymbol ''path'') (\<lambda>sp. mbind (allocValue (VString (snd i) [])) (\<lambda>cp.
     mbind (createSymbol ''prefix'') (\<lambda>sx. mbind (allocValue (VString (fst i) [])) (\<lambda>cx.
     allocValue (VAttrs (Bindings_sort [(sp, cp), (sx, cx)]))))))"

definition sort_builtins :: "unit ev" where
  "sort_builtins = mbind getBuiltins (\<lambda>builtins. mbind (readValue builtins) (\<lambda>x.
     case x of VAttrs bs \<Rightarrow> writeValue builtins (VAttrs (Bindings_sort bs)) | _ \<Rightarrow> null_deref))"

text \<open>The arguments are \<^verbatim>\<open>__traceVerbose\<close> and the registered operations that are enabled.\<close>

definition createBaseEnv :: "BaseConfig \<Rightarrow> RegisteredPrimOp \<Rightarrow> RegisteredPrimOp list \<Rightarrow> (BaseState, unit) sm" where
  "createBaseEnv cfg traceVerbose registered =
     mbind (add_constants (bc_pureEval cfg) (base_constants cfg)) (\<lambda>_.
     mbind (add_primOps (bc_pureEval cfg) [traceVerbose]) (\<lambda>_.
     mbind (in_eval (mmap lookupPath_element (bc_lookupPath cfg))) (\<lambda>es.
     mbind (add_constants (bc_pureEval cfg) [(''__nixPath'', VList es, nList, False)]) (\<lambda>_.
     mbind (add_primOps (bc_pureEval cfg) registered) (\<lambda>_.
     mbind (in_eval sort_builtins) (\<lambda>_.
     (\<lambda>b. mret () (b\<lparr>bs_vars := StaticFrame_sort (bs_vars b)\<rparr>))))))))"

text \<open>The state after the constructor has entered its symbols and allocated \<^verbatim>\<open>baseEnv\<close>.\<close>

definition initial_state :: BaseState where
  "initial_state =
     \<lparr>bs_eval = \<lparr>es_values = [], es_envs = [\<lparr>env_up = None, env_values = []\<rparr>], es_symbols = initial_symbols, es_callDepth = 0\<rparr>,
      bs_vars = [], bs_displ = 0, bs_internal = []\<rparr>"

definition staticBaseEnv :: "BaseState \<Rightarrow> StaticEnv" where
  "staticBaseEnv b = [\<lparr>isWith = None, vars = bs_vars b\<rparr>]"

text \<open>The registration of the modelled operations: each with its number in the table.\<close>

definition register_primOps :: "(string \<times> PrimOp) list \<Rightarrow> RegisteredPrimOp list" where
  "register_primOps tab = map (\<lambda>(i, name, op). \<lparr>rp_name = name, rp_index = i, rp_arity = po_arity op, rp_internal = False\<rparr>) (zip [0..<length tab] tab)"

section \<open>The invariant of the construction\<close>

definition sym_named :: "EvalState \<Rightarrow> Symbol \<Rightarrow> string \<Rightarrow> bool" where
  "sym_named st s n \<longleftrightarrow> 0 < s \<and> s \<le> length (es_symbols st) \<and> es_symbols st ! (s - 1) = n"

fun base_value :: "(nat \<Rightarrow> nat option) \<Rightarrow> nat \<Rightarrow> Value \<Rightarrow> bool" where
  "base_value ar n (VAttrs bs) \<longleftrightarrow> omap_ok bs \<and> snd ` set bs \<subseteq> {..<n}"
| "base_value ar n (VList vs) \<longleftrightarrow> set vs \<subseteq> {..<n}"
| "base_value ar n (VApp l r) \<longleftrightarrow> l < n \<and> r < n"
| "base_value ar n (VPrimOp i) \<longleftrightarrow> ar i \<noteq> None"
| "base_value ar n (VThunk _ _) \<longleftrightarrow> False"
| "base_value ar n (VLambda _ _ _ _) \<longleftrightarrow> False"
| "base_value ar n (VPrimOpApp _ _) \<longleftrightarrow> False"
| "base_value ar n _ \<longleftrightarrow> True"

lemma base_value_mono: "base_value ar n v \<Longrightarrow> n \<le> m \<Longrightarrow> base_value ar m v"
  by (cases v) force+

text \<open>
  The variables so far are \<open>names\<close>, the cell of each is the one of the attribute of \<^verbatim>\<open>builtins\<close>
  with the stripped name, and \<^verbatim>\<open>builtins\<close>, the first cell, is the only value not yet well-formed.
\<close>

definition base_inv :: "(nat \<Rightarrow> nat option) \<Rightarrow> string list \<Rightarrow> vid list \<Rightarrow> BaseState \<Rightarrow> bool" where
  "base_inv ar names slots b \<longleftrightarrow>
     es_envs (bs_eval b) = [\<lparr>env_up = None, env_values = map Some slots\<rparr>] \<and> bs_displ b = length slots \<and> set slots \<subseteq> {..<length (es_values (bs_eval b))} \<and>
     map snd (bs_vars b) = [0..<length slots] \<and> list_all2 (sym_named (bs_eval b)) (map fst (bs_vars b)) names \<and>
     (slots \<noteq> [] \<longrightarrow> (\<exists>bs. es_values (bs_eval b) ! hd slots = VAttrs bs \<and> map snd bs = slots \<and> list_all2 (sym_named (bs_eval b)) (map fst bs) (map strip names))) \<and>
     (\<forall>v < length (es_values (bs_eval b)). slots = [] \<or> v \<noteq> hd slots \<longrightarrow> base_value ar (length (es_values (bs_eval b))) (es_values (bs_eval b) ! v)) \<and>
     symbols_ok (bs_eval b)"

definition runs :: "('s, 'a) sm \<Rightarrow> 's \<Rightarrow> ('a \<Rightarrow> 's \<Rightarrow> bool) \<Rightarrow> bool" where
  "runs m b Q \<longleftrightarrow> (\<exists>a b'. m b = Some (Inr a, b') \<and> Q a b')"

lemma runs_bind: "runs m b Q' \<Longrightarrow> (\<And>a b'. Q' a b' \<Longrightarrow> runs (f a) b' Q) \<Longrightarrow> runs (mbind m f) b Q"
  by (fastforce simp: runs_def mbind_def)

lemma runs_ret: "Q a b \<Longrightarrow> runs (mret a) b Q"
  by (simp add: runs_def)

lemma runs_mono: "runs m b Q' \<Longrightarrow> (\<And>a b'. Q' a b' \<Longrightarrow> Q a b') \<Longrightarrow> runs m b Q"
  by (auto simp: runs_def)

abbreviation cells :: "BaseState \<Rightarrow> Value list" where
  "cells b \<equiv> es_values (bs_eval b)"

lemma base_inv_length: "base_inv ar names slots b \<Longrightarrow> length slots = length names"
  unfolding base_inv_def using length_map [of snd "bs_vars b"] by (auto dest: list_all2_lengthD)

lemma runs_alloc:
  assumes inv: "base_inv ar names slots b" and x: "base_value ar (length (cells b)) x"
  shows "runs (in_eval (allocValue x)) b (\<lambda>v b'. base_inv ar names slots b' \<and> v = length (cells b) \<and> cells b' = cells b @ [x] \<and> es_symbols (bs_eval b') = es_symbols (bs_eval b))"
proof -
  let ?b = "b\<lparr>bs_eval := bs_eval b\<lparr>es_values := cells b @ [x]\<rparr>\<rparr>"
  have hd: "slots \<noteq> [] \<Longrightarrow> hd slots < length (cells b)" using inv by (cases slots) (auto simp: base_inv_def)
  have sym: "sym_named (bs_eval ?b) = sym_named (bs_eval b)" by (intro ext) (simp add: sym_named_def)
  have "base_value ar (length (cells ?b)) (cells ?b ! v)" if "v < length (cells ?b)" "slots = [] \<or> v \<noteq> hd slots" for v
    using that inv x by (cases "v < length (cells b)") (auto simp: base_inv_def nth_append less_Suc_eq intro: base_value_mono)
  then have "base_inv ar names slots ?b"
    using inv hd unfolding base_inv_def sym by (auto simp: nth_append less_Suc_eq)
  then show ?thesis by (auto simp: runs_def in_eval_def allocValue_def)
qed

lemma sym_named_append:
  assumes "sym_named st s n"
  shows "sym_named (st\<lparr>es_symbols := es_symbols st @ xs\<rparr>) s n"
  using assms by (auto simp: sym_named_def nth_append)

lemma createSymbol_runs:
  assumes "symbols_ok st"
  shows "\<exists>s xs. createSymbol n st = Some (Inr s, st\<lparr>es_symbols := es_symbols st @ xs\<rparr>) \<and> symbols_ok (st\<lparr>es_symbols := es_symbols st @ xs\<rparr>) \<and>
     sym_named (st\<lparr>es_symbols := es_symbols st @ xs\<rparr>) s n"
proof (cases "index_of n (es_symbols st)")
  case None
  have "length initial_symbols \<le> length (es_symbols st)" using assms by (metis length_take min.cobounded1 symbols_ok_def)
  then show ?thesis using None assms None [unfolded index_of_None]
    by (intro exI [of _ "length (es_symbols st) + 1"] exI [of _ "[n]"]) (auto simp: createSymbol_def symbols_ok_def sym_named_def nth_append)
next
  case (Some i)
  then show ?thesis using assms index_of_Some [OF Some]
    by (intro exI [of _ "i + 1"] exI [of _ "[]"]) (auto simp: createSymbol_def sym_named_def)
qed

lemma list_all2_sym_append: "list_all2 (sym_named st) ss ns \<Longrightarrow> list_all2 (sym_named (st\<lparr>es_symbols := es_symbols st @ xs\<rparr>)) ss ns"
  by (erule list_all2_mono) (rule sym_named_append)

lemma base_inv_symbols:
  assumes "base_inv ar names slots b" "symbols_ok ((bs_eval b)\<lparr>es_symbols := es_symbols (bs_eval b) @ xs\<rparr>)"
  shows "base_inv ar names slots (b\<lparr>bs_eval := (bs_eval b)\<lparr>es_symbols := es_symbols (bs_eval b) @ xs\<rparr>\<rparr>)"
  using assms unfolding base_inv_def by (auto intro: list_all2_sym_append)

lemma runs_createSymbol:
  assumes "base_inv ar names slots b"
  shows "runs (in_eval (createSymbol n)) b (\<lambda>s b'. base_inv ar names slots b' \<and> sym_named (bs_eval b') s n \<and> cells b' = cells b \<and>
     (\<exists>xs. es_symbols (bs_eval b') = es_symbols (bs_eval b) @ xs))"
proof -
  have "symbols_ok (bs_eval b)" using assms by (simp add: base_inv_def)
  from createSymbol_runs [OF this, of n] obtain s xs where
    "createSymbol n (bs_eval b) = Some (Inr s, (bs_eval b)\<lparr>es_symbols := es_symbols (bs_eval b) @ xs\<rparr>)"
    "symbols_ok ((bs_eval b)\<lparr>es_symbols := es_symbols (bs_eval b) @ xs\<rparr>)" "sym_named ((bs_eval b)\<lparr>es_symbols := es_symbols (bs_eval b) @ xs\<rparr>) s n"
    by blast
  then show ?thesis using base_inv_symbols [OF assms] by (auto simp: runs_def in_eval_def)
qed

lemma sym_named_only_symbols: "sym_named (st\<lparr>es_values := v\<rparr>) = sym_named st" "sym_named (st\<lparr>es_envs := e\<rparr>) = sym_named st"
  by (auto simp: sym_named_def fun_eq_iff)

text \<open>A variable and its attribute of \<^verbatim>\<open>builtins\<close> are added together.\<close>

lemma runs_install:
  assumes inv: "base_inv ar names slots b" and v: "v < length (cells b)" "slots = [] \<Longrightarrow> cells b ! v = VAttrs []"
    and s: "sym_named (bs_eval b) s name" and len: "length names < BASE_ENV_SIZE"
  shows "runs (mbind (install_var s v) (\<lambda>_. in_eval (push_builtin (strip name) v))) b
     (\<lambda>_ b'. base_inv ar (names @ [name]) (slots @ [v]) b' \<and> length (cells b') = length (cells b) \<and> (\<exists>xs. es_symbols (bs_eval b') = es_symbols (bs_eval b) @ xs))"
proof -
  let ?st = "bs_eval b" and ?c = "hd (slots @ [v])"
  obtain bs where bs: "cells b ! ?c = VAttrs bs" "map snd bs = slots" "list_all2 (sym_named ?st) (map fst bs) (map strip names)"
    using inv v(2) by (cases "slots = []") (auto simp: base_inv_def)
  have lenb: "length bs = length names" using bs(2) base_inv_length [OF inv] by (metis length_map)
  have c: "?c < length (cells b)" using inv v(1) by (cases slots) (auto simp: base_inv_def)
  let ?st1 = "?st\<lparr>es_envs := [\<lparr>env_up = None, env_values = map Some (slots @ [v])\<rparr>]\<rparr>"
  have "symbols_ok ?st1" using inv by (simp add: base_inv_def)
  from createSymbol_runs [OF this, of "strip name"] obtain s2 xs where s2: "createSymbol (strip name) ?st1 = Some (Inr s2, ?st1\<lparr>es_symbols := es_symbols ?st1 @ xs\<rparr>)"
    "symbols_ok (?st1\<lparr>es_symbols := es_symbols ?st1 @ xs\<rparr>)" "sym_named (?st1\<lparr>es_symbols := es_symbols ?st1 @ xs\<rparr>) s2 (strip name)" by blast
  let ?st2 = "?st1\<lparr>es_symbols := es_symbols ?st1 @ xs, es_values := (cells b)[?c := VAttrs (bs @ [(s2, v)])]\<rparr>"
  let ?b = "b\<lparr>bs_vars := bs_vars b @ [(s, bs_displ b)], bs_displ := bs_displ b + 1, bs_eval := ?st2\<rparr>"
  have slot: "map Some (slots @ [v]) ! 0 = Some ?c" by (cases slots) auto
  have "mbind (install_var s v) (\<lambda>_. in_eval (push_builtin (strip name) v)) b = Some (Inr (), ?b)"
    using inv s2(1) len lenb bs(1) c slot base_inv_length [OF inv]
    by (simp add: install_var_def mbind_def in_eval_def push_builtin_def getBuiltins_def readSlot_def base_inv_def readValue_def writeValue_def)
  moreover have "base_inv ar (names @ [name]) (slots @ [v]) ?b"
  proof -
    have sym: "sym_named ?st2 = sym_named (?st\<lparr>es_symbols := es_symbols ?st @ xs\<rparr>)" "sym_named ?st2 s2 (strip name)"
      using s2(3) by (auto simp: sym_named_def fun_eq_iff)
    have vals: "base_value ar (length (cells ?b)) (cells ?b ! x)" if "x < length (cells b)" "x \<noteq> ?c" for x
      using that inv by (cases slots) (auto simp: base_inv_def)
    have "list_all2 (sym_named ?st2) (map fst (bs_vars ?b)) (names @ [name])"
      using inv list_all2_sym_append [of ?st _ _ xs] sym_named_append [OF s, of xs] unfolding sym(1) by (auto simp: base_inv_def intro!: list_all2_appendI)
    moreover have "list_all2 (sym_named ?st2) (map fst (bs @ [(s2, v)])) (map strip (names @ [name]))"
      using list_all2_sym_append [OF bs(3), of xs] sym unfolding sym(1) by (auto intro!: list_all2_appendI)
    moreover have "symbols_ok ?st2" using s2(2) by simp
    ultimately show ?thesis using inv v(1) c bs(2) vals unfolding base_inv_def by auto
  qed
  ultimately show ?thesis by (auto simp: runs_def)
qed

lemma install_at:
  assumes "base_inv ar names slots b" "v < length (cells b)" "names = [] \<Longrightarrow> cells b ! v = VAttrs []" "sym_named (bs_eval b) s name" "length names < BASE_ENV_SIZE"
  shows "runs (mbind (install_var s v) (\<lambda>_. in_eval (push_builtin (strip name) v))) b
     (\<lambda>_ b'. \<exists>slots'. base_inv ar (names @ [name]) slots' b' \<and> length (cells b) \<le> length (cells b'))"
  by (rule runs_mono [OF runs_install [OF assms(1, 2) _ assms(4, 5)]]) (use assms(3) base_inv_length [OF assms(1)] in auto)

text \<open>What is added keeps the invariant and extends the names by \<open>new\<close>; the heap only grows.\<close>

definition adds :: "(nat \<Rightarrow> nat option) \<Rightarrow> string list \<Rightarrow> BaseState \<Rightarrow> string list \<Rightarrow> (BaseState, 'a) sm \<Rightarrow> bool" where
  "adds ar names b new m \<longleftrightarrow> runs m b (\<lambda>_ b'. \<exists>slots. base_inv ar (names @ new) slots b' \<and> length (cells b) \<le> length (cells b'))"

lemma adds_bind_ret: "adds ar names b new m \<Longrightarrow> adds ar names b new (mbind m (\<lambda>_. mret c))"
  unfolding adds_def by (erule runs_bind) (simp add: runs_ret)

lemma addConstant_adds:
  assumes inv: "base_inv ar names slots b" and x: "base_value ar (length (cells b)) x" "value_type x \<in> {nThunk, type}"
    and first: "names = [] \<Longrightarrow> x = VAttrs [] \<and> \<not> impureOnly" and len: "length names < BASE_ENV_SIZE"
  shows "adds ar names b (if pureEval \<and> impureOnly then [] else [name]) (addConstant pureEval name x type impureOnly)"
  unfolding addConstant_def adds_def
proof (rule runs_bind [OF runs_alloc [OF inv x(1)]], rule runs_bind, goal_cases)
  case (1 v b1)
  then have inv1: "base_inv ar names slots b1" and v: "v = length (cells b)" "cells b1 = cells b @ [x]" by auto
  have read: "runs (in_eval (readValue v)) b1 (\<lambda>y b'. y = x \<and> b' = b1)" using v by (simp add: runs_def in_eval_def readValue_def)
  show "runs (addConstant_at pureEval name v type impureOnly) b1
     (\<lambda>_ b'. \<exists>slots. base_inv ar (names @ (if pureEval \<and> impureOnly then [] else [name])) slots b' \<and> length (cells b) \<le> length (cells b'))"
  proof (cases "pureEval \<and> impureOnly")
    case True
    then show ?thesis using inv1 v by (auto simp: addConstant_at_def simp del: mlift_app intro!: runs_ret)
  next
    case False
    have "runs (mbind (in_eval (createSymbol name)) (\<lambda>s. mbind (install_var s v) (\<lambda>_. in_eval (push_builtin (strip name) v)))) b1
       (\<lambda>_ b'. \<exists>slots. base_inv ar (names @ [name]) slots b' \<and> length (cells b) \<le> length (cells b'))"
    proof (rule runs_bind [OF runs_createSymbol [OF inv1]], goal_cases)
      case (1 s b2)
      then show ?case by (intro runs_mono [OF install_at [of ar names slots b2]]) (use v len first in auto)
    qed
    then show ?thesis using False x(2) unfolding addConstant_at_def by (auto intro!: runs_bind [OF read])
  qed
qed (auto simp del: mlift_app intro!: runs_ret)

definition registers :: "(nat \<Rightarrow> nat option) \<Rightarrow> RegisteredPrimOp \<Rightarrow> bool" where
  "registers ar op \<longleftrightarrow> ar (rp_index op) \<noteq> None \<and> rp_arity op \<le> maxPrimOpArity"

definition visible :: "RegisteredPrimOp \<Rightarrow> bool" where
  "visible op \<longleftrightarrow> rp_arity op = 0 \<or> \<not> rp_internal op"

lemma mkPrimOp_runs: "arity \<le> maxPrimOpArity \<Longrightarrow> runs (mlift (mkPrimOp i arity)) b (\<lambda>x b'. x = VPrimOp i \<and> b' = b)"
  by (simp add: runs_def mkPrimOp_def)

lemma addPrimOp_adds:
  assumes inv: "base_inv ar names slots b" and op: "registers ar op" and names: "names \<noteq> []" and len: "length names < BASE_ENV_SIZE"
  shows "adds ar names b (if visible op then [rp_name op] else []) (addPrimOp pureEval op)"
proof (cases "rp_arity op = 0")
  case True
  have "runs (addPrimOp pureEval op) b (\<lambda>_ b'. \<exists>slots. base_inv ar (names @ [rp_name op]) slots b' \<and> length (cells b) \<le> length (cells b'))"
    unfolding addPrimOp_def True if_True simp_thms
  proof (rule runs_bind [OF mkPrimOp_runs], simp add: maxPrimOpArity_def, goal_cases)
    case (1 x b1)
    then have x: "base_value ar (length (cells b)) x" "b1 = b" using op by (auto simp: registers_def)
    show ?case unfolding x(2)
    proof (rule runs_bind [OF runs_alloc [OF inv x(1)]], goal_cases)
      case (1 v b2)
      then have "adds ar names b2 [rp_name op] (addConstant pureEval (rp_name op) (VApp v v) nThunk False)"
        using addConstant_adds [of ar names slots b2 "VApp v v" nThunk False pureEval "rp_name op"] names len by auto
      then show ?case unfolding adds_def by (rule runs_mono) (use 1 in auto)
    qed
  qed
  then show ?thesis using True by (simp add: adds_def visible_def)
next
  case False
  then have vis: "visible op \<longleftrightarrow> \<not> rp_internal op" by (simp add: visible_def)
  show ?thesis unfolding addPrimOp_def adds_def vis using False
  proof (simp only: if_False, intro runs_bind [OF runs_createSymbol [OF inv]], goal_cases)
    case (1 s b1)
    then have inv1: "base_inv ar names slots b1" and s: "sym_named (bs_eval b1) s (rp_name op)" "cells b1 = cells b" by auto
    show ?case
    proof (rule runs_bind [OF mkPrimOp_runs], use op in \<open>simp add: registers_def\<close>, goal_cases)
      case (1 x b2)
      then have x: "base_value ar (length (cells b1)) x" "b2 = b1" using op by (auto simp: registers_def)
      show ?case unfolding x(2)
      proof (rule runs_bind [OF runs_alloc [OF inv1 x(1)]], rule runs_bind, goal_cases)
        case (1 v b3)
        then have inv3: "base_inv ar names slots b3" and v: "v < length (cells b3)" "sym_named (bs_eval b3) s (rp_name op)" "length (cells b) \<le> length (cells b3)"
          using s by (auto simp: sym_named_def)
        show "runs (if rp_internal op then \<lambda>b. mret () (b\<lparr>bs_internal := bs_internal b @ [(strip (rp_name op), v)]\<rparr>)
              else mbind (install_var s v) (\<lambda>_. in_eval (push_builtin (strip (rp_name op)) v))) b3
             (\<lambda>_ b'. \<exists>slots. base_inv ar (names @ (if \<not> rp_internal op then [rp_name op] else [])) slots b' \<and> length (cells b) \<le> length (cells b'))"
        proof (cases "rp_internal op")
          case True
          moreover have "base_inv ar names slots (b3\<lparr>bs_internal := bs_internal b3 @ [(strip (rp_name op), v)]\<rparr>)" using inv3 by (simp add: base_inv_def)
          ultimately show ?thesis using v(3) by (auto simp: runs_def)
        next
          case False
          then show ?thesis using v(3) names runs_mono [OF install_at [OF inv3 v(1) _ v(2) len]] by fastforce
        qed
      qed (auto simp del: mlift_app intro!: runs_ret)
    qed
  qed
qed

section \<open>The whole construction\<close>

definition const_names :: "bool \<Rightarrow> (string \<times> Value \<times> ValueType \<times> bool) list \<Rightarrow> string list" where
  "const_names pureEval cs = map fst (filter (\<lambda>(_, _, _, impureOnly). \<not> (pureEval \<and> impureOnly)) cs)"

definition op_names :: "RegisteredPrimOp list \<Rightarrow> string list" where
  "op_names ops = map rp_name (filter visible ops)"

lemma adds_mfold:
  assumes keep: "\<And>names b names' b'. P names b \<Longrightarrow> length (cells b) \<le> length (cells b') \<Longrightarrow> P (names @ names') b'" and one: "\<And>x. length (new x) \<le> 1"
  shows "(\<And>x names slots b. x \<in> set xs \<Longrightarrow> base_inv ar names slots b \<Longrightarrow> P names b \<Longrightarrow> length names < BASE_ENV_SIZE \<Longrightarrow> adds ar names b (new x) (f x ())) \<Longrightarrow>
    base_inv ar names slots b \<Longrightarrow> P names b \<Longrightarrow> length names + length xs \<le> BASE_ENV_SIZE \<Longrightarrow> adds ar names b (concat (map new xs)) (mfold f xs ())"
proof (induction xs arbitrary: names slots b)
  case Nil
  then show ?case by (auto simp: adds_def simp del: mlift_app intro!: runs_ret)
next
  case (Cons x xs)
  have "adds ar names b (new x) (f x ())" by (rule Cons.prems(1) [OF _ Cons.prems(2, 3)]) (use Cons.prems(4) in auto)
  then show ?case unfolding adds_def mfold.simps
  proof (rule runs_bind, goal_cases)
    case (1 u b1)
    then obtain slots1 where inv1: "base_inv ar (names @ new x) slots1 b1" and grow: "length (cells b) \<le> length (cells b1)" by blast
    have "adds ar (names @ new x) b1 (concat (map new xs)) (mfold f xs ())"
      using Cons.prems(4) one [of x] by (intro Cons.IH [OF Cons.prems(1) inv1 keep [OF Cons.prems(3) grow]]) auto
    then show ?case unfolding adds_def unit_eq [of u] by (rule runs_mono) (use grow in \<open>auto intro: order_trans\<close>)
  qed
qed

lemma concat_map_single: "concat (map (\<lambda>x. if Q x then [g x] else []) xs) = map g (filter Q xs)"
  by (induction xs) auto

lemma add_primOps_adds:
  assumes "base_inv ar names slots b" "names \<noteq> []" "length names + length ops \<le> BASE_ENV_SIZE" "\<And>op. op \<in> set ops \<Longrightarrow> registers ar op"
  shows "adds ar names b (op_names ops) (add_primOps pureEval ops)"
proof -
  have "adds ar names b (concat (map (\<lambda>op. if visible op then [rp_name op] else []) ops)) (add_primOps pureEval ops)"
    unfolding add_primOps_def
  proof (rule adds_mfold [where P = "\<lambda>names _. names \<noteq> []", OF _ _ _ assms(1, 2, 3)], goal_cases)
    case (3 op names slots b)
    then show ?case by (intro adds_bind_ret addPrimOp_adds [of ar names slots b] assms(4))
  qed simp_all
  then show ?thesis by (simp add: concat_map_single op_names_def)
qed

lemma add_constants_adds:
  assumes "base_inv ar names slots b" "names \<noteq> []" "length names + length cs \<le> BASE_ENV_SIZE"
    and "\<And>name x type im. (name, x, type, im) \<in> set cs \<Longrightarrow> base_value ar (length (cells b)) x \<and> value_type x = type"
  shows "adds ar names b (const_names pureEval cs) (add_constants pureEval cs)"
proof -
  let ?P = "\<lambda>names b. names \<noteq> [] \<and> (\<forall>(name, x, type, im) \<in> set cs. base_value ar (length (cells b)) x \<and> value_type x = type)"
  let ?new = "\<lambda>c. if (\<lambda>(_, _, _, im). \<not> (pureEval \<and> im)) c then [fst c] else []"
  have P: "?P names b" using assms(2, 4) by auto
  have "adds ar names b (concat (map ?new cs)) (add_constants pureEval cs)"
    unfolding add_constants_def
  proof (rule adds_mfold [where P = ?P, OF _ _ _ assms(1) P assms(3)], goal_cases)
    case (1 names b names' b')
    then show ?case by (auto intro: base_value_mono)
  next
    case (3 c names slots b)
    obtain name x type im where c: "c = (name, x, type, im)" by (cases c)
    then have "adds ar names b (if pureEval \<and> im then [] else [name]) (addConstant pureEval name x type im)"
      using 3 by (intro addConstant_adds [of ar names slots b]) auto
    then show ?case using c by (auto intro!: adds_bind_ret split: if_splits)
  qed (auto split: prod.split)
  then show ?thesis unfolding concat_map_single const_names_def .
qed

lemma in_eval_bind: "in_eval (mbind m f) = mbind (in_eval m) (\<lambda>a. in_eval (f a))"
  by (rule ext) (auto simp: in_eval_def mbind_def split: option.split sum.split prod.split)

lemma sym_named_unique: "sym_named st s n \<Longrightarrow> sym_named st s n' \<Longrightarrow> n = n'"
  by (simp add: sym_named_def)

lemma sym_named_later: "sym_named st s n \<Longrightarrow> es_symbols st' = es_symbols st @ xs \<Longrightarrow> sym_named st' s n"
  by (auto simp: sym_named_def nth_append)

lemma lookupPath_element_runs:
  assumes "base_inv ar names slots b"
  shows "runs (in_eval (lookupPath_element i)) b (\<lambda>v b'. base_inv ar names slots b' \<and> v < length (cells b') \<and> length (cells b) \<le> length (cells b'))"
  unfolding lookupPath_element_def in_eval_bind
proof (rule runs_bind [OF runs_createSymbol [OF assms]], goal_cases)
  case (1 sp b1)
  then have inv1: "base_inv ar names slots b1" and sp: "sym_named (bs_eval b1) sp ''path''" and n1: "cells b1 = cells b" by auto
  show ?case
  proof (rule runs_bind [OF runs_alloc [OF inv1]], simp, goal_cases)
    case (1 cp b2)
    then have inv2: "base_inv ar names slots b2" and sp2: "sym_named (bs_eval b2) sp ''path''" and cp: "cp < length (cells b2)" "length (cells b) \<le> length (cells b2)"
      using sp n1 by (auto simp: sym_named_def)
    show ?case
    proof (rule runs_bind [OF runs_createSymbol [OF inv2]], goal_cases)
      case (1 sx b3)
      then have inv3: "base_inv ar names slots b3" and n3: "cells b3 = cells b2" and sx: "sym_named (bs_eval b3) sx ''prefix''" and sp3: "sym_named (bs_eval b3) sp ''path''"
        using sym_named_later [OF sp2] by auto
      have diff: "sp \<noteq> sx" using sym_named_unique [OF sx] sp3 by auto
      show ?case
      proof (rule runs_bind [OF runs_alloc [OF inv3]], simp, goal_cases)
        case (1 cx b4)
        then have inv4: "base_inv ar names slots b4" and cx: "cells b4 = cells b3 @ [VString (fst i) []]" "cx = length (cells b3)" by auto
        have "base_value ar (length (cells b4)) (VAttrs (Bindings_sort [(sp, cp), (sx, cx)]))"
          using cx cp n3 diff by (auto simp: Bindings_sort_def strict_sorted_iff)
        then show ?case by (intro runs_mono [OF runs_alloc [OF inv4]]) (use cx cp n3 in auto)
      qed
    qed
  qed
qed

lemma lookupPath_runs:
  "base_inv ar names slots b \<Longrightarrow>
    runs (in_eval (mmap lookupPath_element is)) b (\<lambda>vs b'. base_inv ar names slots b' \<and> set vs \<subseteq> {..<length (cells b')} \<and> length (cells b) \<le> length (cells b'))"
proof (induction "is" arbitrary: b)
  case Nil
  then show ?case by (simp add: runs_def in_eval_def)
next
  case (Cons i "is")
  show ?case unfolding mmap.simps in_eval_bind
  proof (rule runs_bind [OF lookupPath_element_runs [OF Cons.prems]], goal_cases)
    case (1 v b1)
    then have inv1: "base_inv ar names slots b1" by simp
    show ?case by (rule runs_bind [OF Cons.IH [OF inv1]]) (use 1 in \<open>auto simp: runs_def in_eval_def\<close>)
  qed
qed

lemma sym_named_distinct:
  assumes "list_all2 (sym_named st) ss ns" "distinct ns"
  shows "distinct ss"
proof -
  have "ns = map (\<lambda>s. es_symbols st ! (s - 1)) ss" using assms(1) by (induction rule: list_all2_induct) (auto simp: sym_named_def)
  then show ?thesis using assms(2) by (simp add: distinct_map)
qed

lemma distinct_strip: "distinct (map strip names) \<Longrightarrow> distinct names"
  by (simp add: distinct_map)

lemma map_snd_upt: "map snd vs = [0..<n] \<Longrightarrow> \<forall>(x, d) \<in> set vs. d < n"
proof (intro ballI, clarify)
  fix x d
  assume vs: "map snd vs = [0..<n]" "(x, d) \<in> set vs"
  have "d \<in> set (map snd vs)" using vs(2) by force
  then show "d < n" using vs(1) by simp
qed

text \<open>Looking up in a sorted table what was appended to the unsorted one.\<close>

lemma sorted_get_sort:
  assumes "distinct (map fst bs)" "k < length bs"
  shows "sorted_get (sort_key fst bs) (fst (bs ! k)) = Some (snd (bs ! k))"
  using assms by (simp add: distinct_map inj_on_def)

text \<open>The base environment when it is done.\<close>

definition base_world :: "BaseState \<Rightarrow> world" where
  "base_world b = \<lparr>LE = {0}, LV = {..<length (cells b)}, LP = {}\<rparr>"

definition bound_twice :: "BaseState \<Rightarrow> string \<Rightarrow> bool" where
  "bound_twice b name \<longleftrightarrow> (\<exists>s s' d v bs.
     sym_named (bs_eval b) s name \<and> sym_named (bs_eval b) s' (strip name) \<and> ExprVar_bindVars (staticBaseEnv b) s = Inr (Static 0 d) \<and>
     readSlot 0 d (bs_eval b) = Some (Inr (Some v), bs_eval b) \<and>
     mbind getBuiltins readValue (bs_eval b) = Some (Inr (VAttrs bs), bs_eval b) \<and> sorted_get bs s' = Some v)"

lemma base_value_ok: "base_value ar n v \<Longrightarrow> LV w = {..<n} \<Longrightarrow> value_ok ar w st v"
  by (cases v) auto

lemma sort_done:
  assumes inv: "base_inv ar names slots b" and "names \<noteq> []" "distinct (map strip names)"
  shows "runs (mbind (in_eval sort_builtins) (\<lambda>_. (\<lambda>b. mret () (b\<lparr>bs_vars := StaticFrame_sort (bs_vars b)\<rparr>)))) b
     (\<lambda>_ b'. heap_ok ar (base_world b') (bs_eval b') \<and> static_ok (staticBaseEnv b') (env_shape (es_envs (bs_eval b')) 0) \<and> list_all (bound_twice b') names)"
proof -
  let ?st = "bs_eval b" and ?c = "hd slots"
  have slots: "slots \<noteq> []" "length slots = length names" using base_inv_length [OF inv] assms(2) by auto
  obtain bs where bs: "cells b ! ?c = VAttrs bs" "map snd bs = slots" "list_all2 (sym_named ?st) (map fst bs) (map strip names)"
    using inv slots(1) by (auto simp: base_inv_def)
  have vs: "map snd (bs_vars b) = [0..<length slots]" "list_all2 (sym_named ?st) (map fst (bs_vars b)) names" using inv by (auto simp: base_inv_def)
  have dist: "distinct (map fst bs)" "distinct (map fst (bs_vars b))"
    using sym_named_distinct [OF bs(3) assms(3)] sym_named_distinct [OF vs(2) distinct_strip [OF assms(3)]] .
  have c: "?c < length (cells b)" using inv slots(1) by (cases slots) (auto simp: base_inv_def)
  let ?st' = "?st\<lparr>es_values := (cells b)[?c := VAttrs (Bindings_sort bs)]\<rparr>"
  let ?b = "b\<lparr>bs_eval := ?st', bs_vars := StaticFrame_sort (bs_vars b)\<rparr>"
  have env: "es_envs ?st = [\<lparr>env_up = None, env_values = map Some slots\<rparr>]" using inv by (simp add: base_inv_def)
  have slot: "map Some slots ! 0 = Some ?c" using slots(1) by (cases slots) auto
  have builtins: "mbind getBuiltins readValue ?st' = Some (Inr (VAttrs (Bindings_sort bs)), ?st')"
    using env slots(1) slot c by (simp add: mbind_def getBuiltins_def readSlot_def readValue_def)
  have "mbind (in_eval sort_builtins) (\<lambda>_. (\<lambda>b. mret () (b\<lparr>bs_vars := StaticFrame_sort (bs_vars b)\<rparr>))) b = Some (Inr (), ?b)"
    using env slots(1) slot c bs(1) by (simp add: mbind_def in_eval_def sort_builtins_def getBuiltins_def readSlot_def readValue_def writeValue_def)
  moreover have "heap_ok ar (base_world ?b) ?st'"
  proof -
    have "set slots \<subseteq> {..<length (cells b)}" using inv by (simp add: base_inv_def)
    then have "snd ` set bs \<subseteq> {..<length (cells b)}" unfolding bs(2) [symmetric] by simp
    then have "value_ok ar (base_world ?b) ?st' (VAttrs (Bindings_sort bs))"
      using dist(1) by (simp add: base_world_def Bindings_sort_def strict_sorted_iff distinct_map)
    moreover have "value_ok ar (base_world ?b) ?st' (cells b ! v)" if "v < length (cells b)" "v \<noteq> ?c" for v
      using that inv slots(1) by (intro base_value_ok [of _ "length (cells b)"]) (auto simp: base_inv_def base_world_def)
    ultimately show ?thesis using inv c env by (auto simp: heap_part_def base_world_def env_ok_def base_inv_def nth_list_update)
  qed
  moreover have "static_ok (staticBaseEnv ?b) (env_shape (es_envs ?st') 0)"
    using env vs(1) by (auto simp: staticBaseEnv_def StaticFrame_sort_def env_shape.simps dest!: map_snd_upt)
  moreover have "bound_twice ?b name" if name: "name \<in> set names" for name
  proof -
    obtain k where k: "k < length names" "name = names ! k" using name by (auto simp: in_set_conv_nth)
    have len: "length bs = length names" "length (bs_vars b) = length names" using bs(3) vs(2) by (auto dest: list_all2_lengthD)
    have "sym_named ?st' (fst (bs ! k)) (strip name)" "sym_named ?st' (fst (bs_vars b ! k)) name"
      using list_all2_nthD [OF bs(3), of k] list_all2_nthD [OF vs(2), of k] k len by (auto simp: sym_named_only_symbols)
    moreover have "snd (bs_vars b ! k) = k" "snd (bs ! k) = slots ! k"
      using nth_map [of k "bs_vars b" snd] nth_map [of k bs snd] vs(1) bs(2) k(1) len slots(2) by auto
    then have "sorted_get (Bindings_sort bs) (fst (bs ! k)) = Some (slots ! k)" "sorted_get (StaticFrame_sort (bs_vars b)) (fst (bs_vars b ! k)) = Some k"
      using sorted_get_sort [OF dist(1)] sorted_get_sort [OF dist(2)] k(1) len by (simp_all add: Bindings_sort_def StaticFrame_sort_def)
    ultimately show ?thesis using builtins env k(1) slots(2)
      unfolding bound_twice_def staticBaseEnv_def
      by (intro exI [of _ "fst (bs_vars b ! k)"] exI [of _ "fst (bs ! k)"] exI [of _ k] exI [of _ "slots ! k"] exI [of _ "Bindings_sort bs"])
        (simp add: ExprVar_bindVars_def readSlot_def)
  qed
  ultimately show ?thesis by (auto simp: runs_def list_all_iff)
qed

definition base_names :: "BaseConfig \<Rightarrow> RegisteredPrimOp \<Rightarrow> RegisteredPrimOp list \<Rightarrow> string list" where
  "base_names cfg tv registered = const_names (bc_pureEval cfg) (base_constants cfg) @ op_names [tv] @ [''__nixPath''] @ op_names registered"

lemma initial_inv: "base_inv ar [] [] initial_state"
proof -
  have "distinct initial_symbols" by (simp add: initial_symbols_def)
  then show ?thesis by (simp add: base_inv_def initial_state_def symbols_ok_def)
qed

lemma base_constants_adds: "adds ar [] initial_state (const_names (bc_pureEval cfg) (base_constants cfg)) (add_constants (bc_pureEval cfg) (base_constants cfg))"
proof -
  obtain rest where rest: "base_constants cfg = (''builtins'', VAttrs [], nAttrs, False) # rest" "length rest = 9"
    "\<And>ar n name x type im. (name, x, type, im) \<in> set rest \<Longrightarrow> base_value ar n x \<and> value_type x = type"
    by (fastforce simp: base_constants_def)
  have first: "adds ar [] initial_state [''builtins''] (addConstant (bc_pureEval cfg) ''builtins'' (VAttrs []) nAttrs False)"
    using addConstant_adds [OF initial_inv, of ar "VAttrs []" nAttrs False "bc_pureEval cfg" "''builtins''"] by (simp add: BASE_ENV_SIZE_def)
  have split: "add_constants (bc_pureEval cfg) (base_constants cfg) =
      mbind (mbind (addConstant (bc_pureEval cfg) ''builtins'' (VAttrs []) nAttrs False) (\<lambda>_. mret ())) (\<lambda>_. add_constants (bc_pureEval cfg) rest)"
    unfolding rest(1) add_constants_def mfold.simps by (intro arg_cong2 [where f = mbind] ext) auto
  show ?thesis unfolding split adds_def
  proof (rule runs_bind [OF adds_bind_ret [OF first, unfolded adds_def]], goal_cases)
    case (1 u b)
    then obtain slots where "base_inv ar [''builtins''] slots b" "length (cells initial_state) \<le> length (cells b)" by auto
    then have "adds ar [''builtins''] b (const_names (bc_pureEval cfg) rest) (add_constants (bc_pureEval cfg) rest)"
      by (intro add_constants_adds) (use rest(2, 3) in \<open>auto simp: BASE_ENV_SIZE_def\<close>)
    then show ?case unfolding adds_def by (rule runs_mono) (auto simp: rest(1) const_names_def initial_state_def)
  qed
qed

lemma length_names: "length (const_names pureEval (base_constants cfg)) \<le> 10" "length (op_names ops) \<le> length ops" "const_names pureEval (base_constants cfg) \<noteq> []"
  by (simp_all add: const_names_def op_names_def base_constants_def)

lemma createBaseEnv_runs:
  assumes ops: "\<And>op. op \<in> set (tv # registered) \<Longrightarrow> registers ar op" and few: "12 + length registered \<le> BASE_ENV_SIZE"
    and names: "distinct (map strip (base_names cfg tv registered))"
  shows "runs (createBaseEnv cfg tv registered) initial_state (\<lambda>_ b. heap_ok ar (base_world b) (bs_eval b) \<and>
     static_ok (staticBaseEnv b) (env_shape (es_envs (bs_eval b)) 0) \<and> list_all (bound_twice b) (base_names cfg tv registered))"
  unfolding createBaseEnv_def
proof (rule runs_bind [OF base_constants_adds [of ar, unfolded adds_def]], goal_cases)
  case (1 u1 b1)
  let ?pure = "bc_pureEval cfg" and ?n1 = "const_names (bc_pureEval cfg) (base_constants cfg)"
  from 1 obtain s1 where inv1: "base_inv ar ?n1 s1 b1" by auto
  have a2: "adds ar ?n1 b1 (op_names [tv]) (add_primOps ?pure [tv])"
    by (rule add_primOps_adds [OF inv1]) (use ops few length_names(1) [of ?pure cfg] length_names(3) in auto)
  show ?case
  proof (rule runs_bind [OF a2 [unfolded adds_def]], goal_cases)
    case (1 u2 b2)
    then obtain s2 where inv2: "base_inv ar (?n1 @ op_names [tv]) s2 b2" by auto
    show ?case
    proof (rule runs_bind [OF lookupPath_runs [OF inv2]], goal_cases)
      case (1 es b3)
      then have inv3: "base_inv ar (?n1 @ op_names [tv]) s2 b3" and es: "set es \<subseteq> {..<length (cells b3)}" by auto
      have a4: "adds ar (?n1 @ op_names [tv]) b3 (const_names ?pure [(''__nixPath'', VList es, nList, False)]) (add_constants ?pure [(''__nixPath'', VList es, nList, False)])"
        by (rule add_constants_adds [OF inv3]) (use es few length_names(1) [of ?pure cfg] length_names(2) [of "[tv]"] length_names(3) in auto)
      show ?case
      proof (rule runs_bind [OF a4 [unfolded adds_def]], goal_cases)
        case (1 u4 b4)
        then obtain s4 where inv4: "base_inv ar (?n1 @ op_names [tv] @ [''__nixPath'']) s4 b4" by (auto simp: const_names_def)
        have a5: "adds ar (?n1 @ op_names [tv] @ [''__nixPath'']) b4 (op_names registered) (add_primOps ?pure registered)"
          by (rule add_primOps_adds [OF inv4]) (use ops few length_names(1) [of ?pure cfg] length_names(2) [of "[tv]"] length_names(3) in auto)
        show ?case
        proof (rule runs_bind [OF a5 [unfolded adds_def]], goal_cases)
          case (1 u5 b5)
          then obtain s5 where inv5: "base_inv ar (base_names cfg tv registered) s5 b5" by (auto simp: base_names_def)
          show ?case by (rule sort_done [OF inv5 _ names]) (simp add: base_names_def)
        qed
      qed
    qed
  qed
qed

section \<open>The table of the modelled operations\<close>

definition registered_primOps :: "EvalParams \<Rightarrow> RegisteredPrimOp list" where
  "registered_primOps p = register_primOps (primOps p)"

definition base_state :: "EvalParams \<Rightarrow> BaseConfig \<Rightarrow> (unit result \<times> BaseState) option" where
  "base_state p cfg = createBaseEnv cfg (hd (registered_primOps p)) (tl (registered_primOps p)) initial_state"

lemma registered_length: "length (registered_primOps p) = 63"
  by (simp add: registered_primOps_def register_primOps_def primOps_def)

lemma registered_names: "map rp_name (registered_primOps p) = map fst (primOps p)" "filter visible (registered_primOps p) = registered_primOps p"
proof -
  show "map rp_name (registered_primOps p) = map fst (primOps p)"
    by (rule nth_equalityI) (auto simp: registered_primOps_def register_primOps_def split: prod.split)
qed (auto simp: registered_primOps_def register_primOps_def visible_def filter_id_conv)

lemma registered_registers:
  assumes "op \<in> set (registered_primOps p)"
  shows "registers (arity_of (with_primOps p)) op"
proof -
  from assms obtain i where i: "i < length (primOps p)" "rp_index op = i" "rp_arity op = po_arity (snd (primOps p ! i))"
    by (auto simp: registered_primOps_def register_primOps_def in_set_zip)
  have "list_all (\<lambda>x. po_arity (snd x) \<le> maxPrimOpArity) (primOps p)" by (simp add: primOps_def primOp_def maxPrimOpArity_def)
  then have "po_arity (snd (primOps p ! i)) \<le> maxPrimOpArity" using i(1) by (simp add: list_all_length)
  then show ?thesis using i by (simp add: registers_def arity_of_def with_primOps_def)
qed

lemma registered_cons: "hd (registered_primOps p) # tl (registered_primOps p) = registered_primOps p"
  using registered_length [of p] by (cases "registered_primOps p") auto

lemma primOp_names: "map fst (primOps p) = map fst (primOps example_params)"
  by (simp add: primOps_def primOp_def)

lemma base_names_distinct: "distinct (map strip (base_names cfg (hd (registered_primOps p)) (tl (registered_primOps p))))"
proof -
  let ?n = "map fst (primOps p)"
  have names: "base_names cfg (hd (registered_primOps p)) (tl (registered_primOps p)) =
      const_names (bc_pureEval cfg) (base_constants cfg) @ [hd ?n] @ [''__nixPath''] @ tl ?n"
  proof -
    have "op_names (registered_primOps p) = ?n" by (simp add: op_names_def registered_names)
    moreover have "op_names [hd (registered_primOps p)] @ op_names (tl (registered_primOps p)) = op_names (registered_primOps p)"
      unfolding op_names_def by (subst (3) registered_cons [of p, symmetric]) simp
    moreover have "op_names [hd (registered_primOps p)] = [hd ?n]"
      using registered_names registered_cons [of p] by (metis filter.simps filter_id_conv list.map(1, 2) list.sel(1) list.set_intros(1) op_names_def)
    ultimately show ?thesis unfolding base_names_def by (metis append_Cons append_Nil list.sel(3))
  qed
  show ?thesis unfolding names
    by (cases "bc_pureEval cfg") (simp_all add: const_names_def base_constants_def primOps_def primOp_def strip_def)
qed

lemma base_state_runs:
  "\<exists>b. base_state p cfg = Some (Inr (), b) \<and> heap_ok (arity_of (with_primOps p)) (base_world b) (bs_eval b) \<and>
     static_ok (staticBaseEnv b) (env_shape (es_envs (bs_eval b)) 0)"
proof -
  have "length (tl (registered_primOps p)) = 62" by (simp add: registered_length)
  then show ?thesis
    using createBaseEnv_runs [of "hd (registered_primOps p)" "tl (registered_primOps p)" "arity_of (with_primOps p)" cfg] registered_registers [of _ p] base_names_distinct [of cfg p]
    by (auto simp: runs_def base_state_def registered_cons BASE_ENV_SIZE_def)
qed

section \<open>Properties\<close>


definition example_config :: BaseConfig where
  "example_config =
     \<lparr>bc_pureEval = False, bc_time = 0, bc_currentSystem = ''x86_64-linux'', bc_nixVersion = ''2.27.0'', bc_zixVersion = ''0.1.0'', bc_storeDir = ''/nix/store'',
      bc_lookupPath = [(''nixpkgs'', ''/nixpkgs'')]\<rparr>"

lemma example_law: "outside_law example_params"
  by (simp add: outside_law_def example_params_def)

text \<open>The expression \<^verbatim>\<open>let x = 4; in x\<close>, as the parser returns it and as \<^verbatim>\<open>bindVars\<close> does.\<close>

definition example_let :: "VarRef \<Rightarrow> Expr" where
  "example_let r = ExprLet [(1, Plain, ExprInt 4)] None (ExprVar 1 r)"

lemma example_let_bound: "parsed (example_let Unresolved)" "bindVars (staticBaseEnv b) (example_let Unresolved) = Inr (example_let (Static 0 0))"
  by (simp_all add: example_let_def Let_def ropt_def chooseByKind_def attr_frame_def ExprVar_bindVars_def)

lemma example_let_eval: "\<exists>st'. eval (with_primOps example_params) 3 (example_let (Static 0 0)) st = Some (Inr (VInt 4), st')"
  by (simp add: eval_def example_let_def eval_nat_numeral evaluator.simps Let_def evalExpr_def ExprLet_eval_def allocEnv_def mbind_def buildInheritFromEnv_def maybeThunk_def
      allocValue_def writeSlot_def lookupVar_def lookupSlot_def readSlot_def forceValue_def forceCell_def readValue_def chooseByKind_def nth_append)




end
